(* ===== verification/Prelude.thy ===== *)
theory Prelude
  imports Main "HOL-Library.Monad_Syntax"
begin

text \<open>
  Shared vocabulary of the development.

  \<^item> C++ control flow: \<open>cpp_assert\<close> is \<^verbatim>\<open>assert\<close> / \<^verbatim>\<open>GGML_ASSERT\<close> (the llama.cpp sources are
    compiled by cgo without \<^verbatim>\<open>NDEBUG\<close>, so both abort the process), \<open>vec_at\<close> is an unchecked
    \<^verbatim>\<open>operator[]\<close> whose out-of-range use is undefined behaviour, and \<open>for_each\<close> is a range loop
    whose body may abort. All three use \<open>None\<close> for "the program does not get past this point".
  \<^item> Fixed width integers: \<open>to_i32\<close> and \<open>to_u32\<close> are the conversions to \<^verbatim>\<open>int32_t\<close> and
    \<^verbatim>\<open>uint32_t\<close>; \<open>i32_ok\<close> is the range of \<^verbatim>\<open>int32_t\<close>, outside of which signed arithmetic is
    undefined behaviour.
  \<^item> Generic list lemmas: loops that rewrite a vector cell by cell are \<open>map\<close>, loops that remember
    the first hit are \<open>first_index\<close>.
\<close>

named_theorems loop_simps \<open>equations that turn an index loop into a list function\<close>
named_theorems cells_simps \<open>effects of the KV cell operations on a concretised cell list\<close>

subsection \<open>Assertions, vector access and loops\<close>

definition cpp_assert :: "bool \<Rightarrow> unit option" where
  "cpp_assert b = (if b then Some () else None)"

definition vec_at :: "'a list \<Rightarrow> nat \<Rightarrow> 'a option" where
  "vec_at xs i = (if i < length xs then Some (xs ! i) else None)"

definition vec_set :: "nat \<Rightarrow> 'a \<Rightarrow> 'a list \<Rightarrow> 'a list option" where
  "vec_set i x xs = (if i < length xs then Some (xs[i := x]) else None)"

definition vec_resize :: "nat \<Rightarrow> 'a \<Rightarrow> 'a list \<Rightarrow> 'a list" where
  "vec_resize n x xs = take n xs @ replicate (n - length xs) x"

primrec for_each :: "('a \<Rightarrow> 's \<Rightarrow> 's option) \<Rightarrow> 'a list \<Rightarrow> 's \<Rightarrow> 's option" where
  "for_each f [] s = Some s"
| "for_each f (x # xs) s = do { s' \<leftarrow> f x s; for_each f xs s' }"

text \<open>A loop that computes one output element per input element.\<close>

primrec map_opt :: "('a \<Rightarrow> 'b option) \<Rightarrow> 'a list \<Rightarrow> 'b list option" where
  "map_opt f [] = Some []"
| "map_opt f (x # xs) = do { y \<leftarrow> f x; ys \<leftarrow> map_opt f xs; Some (y # ys) }"

lemma map_opt_total: "(\<And>x. x \<in> set xs \<Longrightarrow> f x = Some (g x)) \<Longrightarrow> map_opt f xs = Some (map g xs)"
  by (induction xs) auto

lemma map_opt_map: "map_opt f (map g xs) = map_opt (\<lambda>x. f (g x)) xs"
  by (induction xs) auto

lemma map_opt_Some: "map_opt f xs = Some ys \<Longrightarrow> length ys = length xs \<and> (\<forall>i < length xs. f (xs ! i) = Some (ys ! i))"
proof (induction xs arbitrary: ys)
  case (Cons x xs)
  then obtain y zs where yz: "f x = Some y" "map_opt f xs = Some zs" "ys = y # zs"
    by (auto simp: bind_eq_Some_conv)
  with Cons.IH[of zs] show ?case by (auto simp: nth_Cons split: nat.splits)
qed simp

text \<open>
  Loops that leave the function with \<^verbatim>\<open>return false\<close> at the first element that fails a test;
  \<open>check_fold\<close> carries the loop's local state.
\<close>

primrec check_each :: "('a \<Rightarrow> bool option) \<Rightarrow> 'a list \<Rightarrow> bool option" where
  "check_each f [] = Some True"
| "check_each f (x # xs) = do { b \<leftarrow> f x; if b then check_each f xs else Some False }"

primrec check_fold :: "('a \<Rightarrow> 's \<Rightarrow> (bool \<times> 's) option) \<Rightarrow> 'a list \<Rightarrow> 's \<Rightarrow> bool option" where
  "check_fold f [] s = Some True"
| "check_fold f (x # xs) s = do { (b, s') \<leftarrow> f x s; if b then check_fold f xs s' else Some False }"

lemma check_each_True_iff: "check_each f xs = Some True \<longleftrightarrow> (\<forall>x \<in> set xs. f x = Some True)"
  by (induction xs) (auto simp: bind_eq_Some_conv split: if_splits)

lemma check_each_total:
  "(\<And>x. x \<in> set xs \<Longrightarrow> f x = Some (g x)) \<Longrightarrow> check_each f xs = Some (list_all g xs)"
  by (induction xs) auto

lemma check_fold_total:
  assumes "I s" "\<And>x u. x \<in> set xs \<Longrightarrow> I u \<Longrightarrow> \<exists>v. f x u = Some (g x, v) \<and> I v"
  shows "check_fold f xs s = Some (list_all g xs)"
  using assms
proof (induction xs arbitrary: s)
  case (Cons x xs)
  from Cons.prems obtain v where v: "f x s = Some (g x, v)" "I v" by fastforce
  have "check_fold f xs v = Some (list_all g xs)"
    by (rule Cons.IH[OF v(2)]) (use Cons.prems(2) in auto)
  with v show ?case by simp
qed simp

lemma check_fold_True_inv:
  assumes "check_fold f xs s = Some True" "I s"
    "\<And>x u v. x \<in> set xs \<Longrightarrow> I u \<Longrightarrow> f x u = Some (True, v) \<Longrightarrow> I v \<and> Q x"
  shows "\<forall>x \<in> set xs. Q x"
  using assms
proof (induction xs arbitrary: s)
  case (Cons x xs)
  from Cons.prems(1) obtain v where v: "f x s = Some (True, v)" "check_fold f xs v = Some True"
    by (auto simp: bind_eq_Some_conv split: if_splits)
  with Cons.prems(3)[of x s v] Cons.prems(2) have "I v" "Q x" by auto
  moreover have "\<forall>x \<in> set xs. Q x"
    by (rule Cons.IH[OF v(2) \<open>I v\<close>]) (rule Cons.prems(3), auto)
  ultimately show ?case by simp
qed simp

lemma cpp_assert_simps [simp]:
  "cpp_assert True = Some ()"
  "cpp_assert False = None"
  "b \<Longrightarrow> cpp_assert b = Some ()"
  "\<not> b \<Longrightarrow> cpp_assert b = None"
  by (simp_all add: cpp_assert_def)

lemma cpp_assert_Some_iff [simp]: "cpp_assert b = Some u \<longleftrightarrow> b"
  by (simp add: cpp_assert_def)

lemma cpp_assert_bind_Some_iff:
  "(cpp_assert b \<bind> f) = Some r \<longleftrightarrow> b \<and> f () = Some r"
  by (simp add: cpp_assert_def)

lemma vec_at_in [simp]: "i < length xs \<Longrightarrow> vec_at xs i = Some (xs ! i)"
  by (simp add: vec_at_def)

lemma vec_at_Some_iff: "vec_at xs i = Some x \<longleftrightarrow> i < length xs \<and> x = xs ! i"
  by (auto simp: vec_at_def)

lemma vec_set_in [simp]: "i < length xs \<Longrightarrow> vec_set i x xs = Some (xs[i := x])"
  by (simp add: vec_set_def)

lemma vec_set_Some_iff: "vec_set i x xs = Some ys \<longleftrightarrow> i < length xs \<and> ys = xs[i := x]"
  by (auto simp: vec_set_def)

lemma length_vec_resize [simp]: "length (vec_resize n x xs) = n"
  by (simp add: vec_resize_def)

lemma for_each_append:
  "for_each f (xs @ ys) s = do { s' \<leftarrow> for_each f xs s; for_each f ys s' }"
  by (induction xs arbitrary: s) auto

lemma for_each_cong [fundef_cong]:
  "xs = ys \<Longrightarrow> s = t \<Longrightarrow> (\<And>x u. x \<in> set ys \<Longrightarrow> f x u = g x u) \<Longrightarrow> for_each f xs s = for_each g ys t"
proof -
  assume eqs: "xs = ys" "s = t" and fg: "\<And>x u. x \<in> set ys \<Longrightarrow> f x u = g x u"
  from fg have "for_each f ys t = for_each g ys t"
    by (induction ys arbitrary: t) (auto intro!: Option.bind_cong)
  with eqs show ?thesis by simp
qed

text \<open>A loop over array slots that rewrites the slots selected by \<open>S\<close>, each from its own value.\<close>

lemma for_each_pointwise:
  assumes "distinct xs" and "\<And>k. k \<in> set xs \<Longrightarrow> k \<in> S \<Longrightarrow> h k (g k) = Some (g' k)"
  shows "for_each (\<lambda>k g. if k \<in> S then do { v \<leftarrow> h k (g k); Some (g(k := v)) } else Some g) xs g
    = Some (\<lambda>k. if k \<in> set xs \<and> k \<in> S then g' k else g k)"
  using assms
proof (induction xs arbitrary: g)
  case Nil
  then show ?case by simp
next
  case (Cons x xs)
  let ?g = "if x \<in> S then g(x := g' x) else g"
  have "for_each (\<lambda>k g. if k \<in> S then do { v \<leftarrow> h k (g k); Some (g(k := v)) } else Some g) xs ?g
    = Some (\<lambda>k. if k \<in> set xs \<and> k \<in> S then g' k else ?g k)"
    by (rule Cons.IH) (use Cons.prems in auto)
  moreover have "(\<lambda>k. if k \<in> set xs \<and> k \<in> S then g' k else ?g k)
      = (\<lambda>k. if k \<in> set (x # xs) \<and> k \<in> S then g' k else g k)"
    using Cons.prems(1) by (auto simp: fun_eq_iff)
  ultimately show ?case using Cons.prems(2)[of x] by (cases "x \<in> S") simp_all
qed

lemma for_each_total: "for_each (\<lambda>x s. Some (g x s)) xs s = Some (fold g xs s)"
  by (induction xs arbitrary: s) auto

text \<open>Partial correctness and total correctness of a loop, from its body.\<close>

lemma for_each_inv:
  assumes "for_each f xs s = Some t" and "I s"
    and "\<And>x u v. x \<in> set xs \<Longrightarrow> I u \<Longrightarrow> f x u = Some v \<Longrightarrow> I v"
  shows "I t"
  using assms
  by (induction xs arbitrary: s) (auto simp: bind_eq_Some_conv)

lemma for_each_total_inv:
  assumes "I s" and "\<And>x u. x \<in> set xs \<Longrightarrow> I u \<Longrightarrow> \<exists>v. f x u = Some v \<and> I v"
  shows "\<exists>t. for_each f xs s = Some t \<and> I t"
  using assms
proof (induction xs arbitrary: s)
  case Nil
  then show ?case by simp
next
  case (Cons x xs)
  from Cons.prems obtain v where v: "f x s = Some v" "I v"
    by fastforce
  with Cons.prems Cons.IH[of v] show ?case by auto
qed

text \<open>The same with an invariant that speaks of the loop index, for \<^verbatim>\<open>for (i = 0; i < m; ++i)\<close>.\<close>

lemma for_each_upto_inv:
  assumes "for_each f [0..<m] s = Some t" and "I 0 s"
    and "\<And>i u v. i < m \<Longrightarrow> I i u \<Longrightarrow> f i u = Some v \<Longrightarrow> I (Suc i) v"
  shows "I m t"
  using assms
proof (induction m arbitrary: t)
  case (Suc m)
  from Suc.prems(1) obtain u where u: "for_each f [0..<m] s = Some u" "f m u = Some t"
    by (auto simp: for_each_append bind_eq_Some_conv)
  have "I m u" by (rule Suc.IH[OF u(1) Suc.prems(2)]) (use Suc.prems(3) in auto)
  with u(2) Suc.prems(3)[of m u t] show ?case by simp
qed simp

lemma for_each_upto_total:
  assumes "I 0 s"
    and "\<And>i u. i < m \<Longrightarrow> I i u \<Longrightarrow> \<exists>v. f i u = Some v \<and> I (Suc i) v"
  shows "\<exists>t. for_each f [0..<m] s = Some t \<and> I m t"
  using assms
proof (induction m)
  case (Suc m)
  then obtain u where u: "for_each f [0..<m] s = Some u" "I m u" by fastforce
  with Suc.prems(2)[of m u] show ?case by (auto simp: for_each_append)
qed simp

text \<open>
  A loop over all indices of a vector whose body rewrites element \<open>i\<close> only, with an accumulator on
  the side: the vector part is \<open>map\<close>. \<open>C\<close> embeds the vector in the loop's state, \<open>P\<close> is what each
  element satisfies while the loop runs.
\<close>

lemma for_each_rewrite_aux:
  assumes step: "\<And>i ys a. i < n \<Longrightarrow> length ys = n \<Longrightarrow> (\<forall>y \<in> set ys. P y) \<Longrightarrow>
      body i (C ys, a) = Some (C (ys[i := f (ys ! i)]), g i (ys ! i) a)"
    and keep: "\<And>y. P y \<Longrightarrow> P (f y)"
    and xs: "length xs = n" "\<forall>x \<in> set xs. P x" and m: "m \<le> n"
  shows "for_each body [0..<m] (C xs, a) =
      Some (C (map f (take m xs) @ drop m xs), fold (\<lambda>i. g i (xs ! i)) [0..<m] a)"
  using m
proof (induction m)
  case 0
  then show ?case by simp
next
  case (Suc m)
  let ?ys = "map f (take m xs) @ drop m xs"
  have len: "length ?ys = n" using xs Suc.prems by simp
  have Pys: "\<forall>y \<in> set ?ys. P y"
    using xs keep by (auto dest: in_set_takeD in_set_dropD)
  have nth: "?ys ! m = xs ! m" using xs Suc.prems by (simp add: nth_append)
  have upd: "?ys[m := f (xs ! m)] = map f (take (Suc m) xs) @ drop (Suc m) xs"
    using xs Suc.prems by (simp add: list_update_append take_Suc_conv_app_nth
        flip: Cons_nth_drop_Suc)
  show ?case
    using Suc step[OF _ len Pys, of m] by (simp add: for_each_append nth upd)
qed

lemma for_each_rewrite:
  assumes "\<And>i ys a. i < n \<Longrightarrow> length ys = n \<Longrightarrow> (\<forall>y \<in> set ys. P y) \<Longrightarrow>
      body i (C ys, a) = Some (C (ys[i := f (ys ! i)]), g i (ys ! i) a)"
    and "\<And>y. P y \<Longrightarrow> P (f y)"
    and "length xs = n" "\<forall>x \<in> set xs. P x"
  shows "for_each body [0..<n] (C xs, a) =
      Some (C (map f xs), fold (\<lambda>i. g i (xs ! i)) [0..<n] a)"
proof -
  have "for_each body [0..<n] (C xs, a) =
      Some (C (map f (take n xs) @ drop n xs), fold (\<lambda>i. g i (xs ! i)) [0..<n] a)"
    by (rule for_each_rewrite_aux[where P = P]) (use assms in auto)
  with assms(3) show ?thesis by simp
qed

subsection \<open>First hit of a scan\<close>

text \<open>
  Several loops remember the first index that satisfied a test in a variable that starts at the
  vector's size (\<^verbatim>\<open>if (new_head == cells.size()) new_head = i;\<close>).
\<close>

definition first_index :: "('a \<Rightarrow> bool) \<Rightarrow> 'a list \<Rightarrow> nat" where
  "first_index P xs = length (takeWhile (\<lambda>x. \<not> P x) xs)"

lemma first_index_le: "first_index P xs \<le> length xs"
  by (simp add: first_index_def length_takeWhile_le)

lemma first_index_less_iff: "first_index P xs < length xs \<longleftrightarrow> (\<exists>x \<in> set xs. P x)"
proof
  assume "first_index P xs < length xs"
  then have "P (xs ! first_index P xs)"
    unfolding first_index_def by (meson nth_length_takeWhile)
  with \<open>first_index P xs < length xs\<close> show "\<exists>x \<in> set xs. P x" by auto
next
  assume "\<exists>x \<in> set xs. P x"
  then have "takeWhile (\<lambda>x. \<not> P x) xs \<noteq> xs"
    by (metis takeWhile_eq_all_conv)
  then show "first_index P xs < length xs"
    unfolding first_index_def
    by (metis antisym_conv2 length_takeWhile_le takeWhile_eq_take take_all)
qed

lemma first_index_nth: "first_index P xs < length xs \<Longrightarrow> P (xs ! first_index P xs)"
  unfolding first_index_def by (meson nth_length_takeWhile)

lemma first_index_least: "i < first_index P xs \<Longrightarrow> \<not> P (xs ! i)"
  unfolding first_index_def using set_takeWhileD takeWhile_nth nth_mem by metis

lemma first_index_eqI:
  assumes "k < length xs" "P (xs ! k)" "\<And>i. i < k \<Longrightarrow> \<not> P (xs ! i)"
  shows "first_index P xs = k"
proof -
  have "takeWhile (\<lambda>x. \<not> P x) xs = take k xs"
    by (rule takeWhile_eq_take_P_nth) (use assms in auto)
  then show ?thesis using assms(1) by (simp add: first_index_def)
qed

definition note_first :: "nat \<Rightarrow> nat \<Rightarrow> nat \<Rightarrow> nat" where
  "note_first n i h = (if h = n then i else h)"

lemma fold_note_first_aux:
  "m \<le> length xs \<Longrightarrow>
   fold (\<lambda>i h. if P (xs ! i) then note_first (length xs) i h else h) [0..<m] (length xs) =
   (if \<exists>i < m. P (xs ! i) then first_index P xs else length xs)"
proof (induction m)
  case 0
  then show ?case by simp
next
  case (Suc m)
  show ?case
  proof (cases "\<exists>i < m. P (xs ! i)")
    case True
    then have "first_index P xs < length xs"
      using Suc.prems by (force simp: first_index_less_iff)
    with Suc True show ?thesis by (auto simp: note_first_def less_Suc_eq)
  next
    case False
    show ?thesis
    proof (cases "P (xs ! m)")
      case True
      have "first_index P xs < length xs"
        using True Suc.prems by (force simp: first_index_less_iff)
      then have "first_index P xs = m"
        using False True first_index_nth[of P xs] first_index_least[of m P xs]
        by (metis linorder_neqE_nat)
      with Suc True False show ?thesis by (auto simp: note_first_def)
    next
      case False2: False
      with Suc False show ?thesis by (auto simp: less_Suc_eq)
    qed
  qed
qed

lemma fold_note_first:
  "fold (\<lambda>i h. if P (xs ! i) then note_first (length xs) i h else h) [0..<length xs] (length xs)
   = first_index P xs"
proof (cases "\<exists>i < length xs. P (xs ! i)")
  case True
  then show ?thesis using fold_note_first_aux[of "length xs" xs P] by simp
next
  case False
  then have "first_index P xs = length xs"
    using first_index_nth[of P xs] first_index_le[of P xs] by (metis le_neq_implies_less)
  then show ?thesis using fold_note_first_aux[of "length xs" xs P] False by auto
qed

subsection \<open>Fixed width integers\<close>

definition to_u32 :: "int \<Rightarrow> int" where
  "to_u32 x = x mod 2 ^ 32"

definition to_i32 :: "int \<Rightarrow> int" where
  "to_i32 x = (x + 2 ^ 31) mod 2 ^ 32 - 2 ^ 31"

abbreviation INT32_MAX :: int where
  "INT32_MAX \<equiv> 2147483647"

definition i32_ok :: "int \<Rightarrow> bool" where
  "i32_ok x \<longleftrightarrow> - 2147483648 \<le> x \<and> x \<le> 2147483647"

lemma to_u32_id [simp]: "0 \<le> x \<Longrightarrow> x < 2 ^ 32 \<Longrightarrow> to_u32 x = x"
  by (simp add: to_u32_def)

lemma to_i32_id [simp]: "- (2 ^ 31) \<le> x \<Longrightarrow> x < 2 ^ 31 \<Longrightarrow> to_i32 x = x"
  by (simp add: to_i32_def)

lemma to_i32_bounds: "- (2 ^ 31) \<le> to_i32 x" "to_i32 x < 2 ^ 31"
  by (simp_all add: to_i32_def)

subsection \<open>Lists\<close>

lemma set_list_update_subset_P:
  "\<forall>x \<in> set xs. P x \<Longrightarrow> P y \<Longrightarrow> \<forall>x \<in> set (xs[i := y]). P x"
  using set_update_subset_insert[of xs i y] by blast

lemma map_update_same [simp]: "(map f xs)[i := f (xs ! i)] = map f xs"
  by (metis list_update_id map_update)

lemma replicate_diff_Suc: "Suc m \<le> n \<Longrightarrow> replicate (n - m) z = z # replicate (n - Suc m) z"
  by (metis Suc_diff_le diff_Suc_Suc replicate_Suc)

lemma map_upt_nth [simp]: "map (\<lambda>i. f (xs ! i)) [0..<length xs] = map f xs"
  by (rule nth_equalityI) auto

end
