(* ===== verification/Ordered_Map.thy ===== *)
theory Ordered_Map
  imports Prelude
begin

text \<open>
  \<^verbatim>\<open>std::map\<close> as the sources use it: a strictly sorted association list with \<^verbatim>\<open>find\<close>, \<^verbatim>\<open>operator[]\<close>
  assignment, \<^verbatim>\<open>erase\<close>, \<^verbatim>\<open>begin()\<close> and \<^verbatim>\<open>rbegin()\<close>. The interface is the locale \<open>ordered_map\<close>; its
  clients rely on the map laws, on \<open>begin\<close>/\<open>rbegin\<close> being the extremal keys and on extensionality
  (two maps with the same contents are the same map), and nothing else.
\<close>

type_synonym ('k, 'v) omap = "('k \<times> 'v) list"

definition om_inv :: "('k::linorder, 'v) omap \<Rightarrow> bool" where
  "om_inv m \<longleftrightarrow> sorted_wrt (<) (map fst m)"

definition om_find :: "('k::linorder, 'v) omap \<Rightarrow> 'k \<Rightarrow> 'v option" where
  "om_find m k = map_of m k"

fun om_insert :: "'k::linorder \<Rightarrow> 'v \<Rightarrow> ('k, 'v) omap \<Rightarrow> ('k, 'v) omap" where
  "om_insert k v [] = [(k, v)]"
| "om_insert k v ((k', v') # m) =
     (if k < k' then (k, v) # (k', v') # m
      else if k = k' then (k, v) # m
      else (k', v') # om_insert k v m)"

fun om_erase :: "'k::linorder \<Rightarrow> ('k, 'v) omap \<Rightarrow> ('k, 'v) omap" where
  "om_erase k [] = []"
| "om_erase k ((k', v') # m) = (if k = k' then m else (k', v') # om_erase k m)"

definition om_begin :: "('k::linorder, 'v) omap \<Rightarrow> ('k \<times> 'v) option" where
  "om_begin m = (case m of [] \<Rightarrow> None | x # _ \<Rightarrow> Some x)"

definition om_rbegin :: "('k::linorder, 'v) omap \<Rightarrow> ('k \<times> 'v) option" where
  "om_rbegin m = (if m = [] then None else Some (last m))"

subsection \<open>The interface\<close>

locale ordered_map =
  fixes empty :: "'m"
    and find :: "'m \<Rightarrow> 'k::linorder \<Rightarrow> 'v option"
    and insert :: "'k \<Rightarrow> 'v \<Rightarrow> 'm \<Rightarrow> 'm"
    and erase :: "'k \<Rightarrow> 'm \<Rightarrow> 'm"
    and first :: "'m \<Rightarrow> ('k \<times> 'v) option"
    and final :: "'m \<Rightarrow> ('k \<times> 'v) option"
    and invar :: "'m \<Rightarrow> bool"
  assumes find_empty: "find empty k = None"
    and find_insert: "invar m \<Longrightarrow> find (insert k v m) = (find m)(k \<mapsto> v)"
    and find_erase: "invar m \<Longrightarrow> find (erase k m) = (find m)(k := None)"
    and invar_empty: "invar empty"
    and invar_insert: "invar m \<Longrightarrow> invar (insert k v m)"
    and invar_erase: "invar m \<Longrightarrow> invar (erase k m)"
    and finite_find: "invar m \<Longrightarrow> finite (dom (find m))"
    and extensional: "invar m \<Longrightarrow> invar m' \<Longrightarrow> find m = find m' \<Longrightarrow> m = m'"
    and first_None: "invar m \<Longrightarrow> first m = None \<longleftrightarrow> dom (find m) = {}"
    and first_Some: "invar m \<Longrightarrow> first m = Some (k, v) \<Longrightarrow>
          find m k = Some v \<and> (\<forall>k' \<in> dom (find m). k \<le> k')"
    and final_None: "invar m \<Longrightarrow> final m = None \<longleftrightarrow> dom (find m) = {}"
    and final_Some: "invar m \<Longrightarrow> final m = Some (k, v) \<Longrightarrow>
          find m k = Some v \<and> (\<forall>k' \<in> dom (find m). k' \<le> k)"
begin

lemma first_Min: "invar m \<Longrightarrow> first m = Some (k, v) \<Longrightarrow> k = Min (dom (find m))"
  using first_Some[of m k v] finite_find[of m] by (auto intro!: Min_eqI[symmetric])

lemma final_Max: "invar m \<Longrightarrow> final m = Some (k, v) \<Longrightarrow> k = Max (dom (find m))"
  using final_Some[of m k v] finite_find[of m] by (auto intro!: Max_eqI[symmetric])

lemma first_ex: "invar m \<Longrightarrow> find m k = Some v \<Longrightarrow> \<exists>k' v'. first m = Some (k', v')"
  using first_None[of m] by (cases "first m") auto

lemma final_ex: "invar m \<Longrightarrow> find m k = Some v \<Longrightarrow> \<exists>k' v'. final m = Some (k', v')"
  using final_None[of m] by (cases "final m") auto

lemma insert_erase:
  "invar m \<Longrightarrow> find m k = None \<Longrightarrow> erase k (insert k v m) = m"
  by (rule extensional) (auto simp: invar_erase invar_insert find_erase find_insert)

lemma eq_empty_iff: "invar m \<Longrightarrow> m = empty \<longleftrightarrow> dom (find m) = {}"
  using extensional[of m empty] invar_empty find_empty by (auto simp: dom_def fun_eq_iff)

end

subsection \<open>The sorted association list provides it\<close>

lemma om_inv_Nil [simp]: "om_inv []"
  by (simp add: om_inv_def)

lemma om_inv_Cons: "om_inv ((k, v) # m) \<longleftrightarrow> (\<forall>k' \<in> dom (map_of m). k < k') \<and> om_inv m"
  by (auto simp: om_inv_def dom_map_of_conv_image_fst)

lemma map_of_om_insert: "om_inv m \<Longrightarrow> map_of (om_insert k v m) = (map_of m)(k \<mapsto> v)"
proof (induction m)
  case (Cons x m)
  obtain k' v' where x: "x = (k', v')" by force
  with Cons have IH: "map_of (om_insert k v m) = (map_of m)(k \<mapsto> v)"
    by (auto simp: om_inv_Cons)
  show ?case
  proof (cases k k' rule: linorder_cases)
    case less
    then show ?thesis by (auto simp: x fun_eq_iff)
  next
    case equal
    then show ?thesis by (auto simp: x fun_eq_iff)
  next
    case greater
    then show ?thesis using IH by (auto simp: x fun_eq_iff)
  qed
qed simp

lemma map_of_om_erase: "om_inv m \<Longrightarrow> map_of (om_erase k m) = (map_of m)(k := None)"
proof (induction m)
  case (Cons x m)
  obtain k' v' where x: "x = (k', v')" by force
  from Cons.prems x have above: "\<forall>k'' \<in> dom (map_of m). k' < k''" and "om_inv m"
    by (auto simp: om_inv_Cons)
  with Cons.IH have IH: "map_of (om_erase k m) = (map_of m)(k := None)" by blast
  have "k' \<notin> dom (map_of m)" using above by blast
  then have "map_of m k' = None" by auto
  then show ?case using IH by (auto simp: x fun_eq_iff)
qed simp

lemma om_inv_insert: "om_inv m \<Longrightarrow> om_inv (om_insert k v m)"
proof (induction m)
  case Nil
  then show ?case by (simp add: om_inv_def)
next
  case (Cons x m)
  obtain k' v' where x: "x = (k', v')" by force
  from Cons.prems x have m: "om_inv m" by (simp add: om_inv_Cons)
  from Cons m x show ?case
    by (auto simp: om_inv_Cons map_of_om_insert split: if_splits) (fastforce simp: dom_def)
qed

lemma om_inv_erase: "om_inv m \<Longrightarrow> om_inv (om_erase k m)"
  by (induction m) (auto simp: om_inv_Cons map_of_om_erase)

lemma om_ext: "om_inv m \<Longrightarrow> om_inv m' \<Longrightarrow> map_of m = map_of m' \<Longrightarrow> m = m'"
proof (rule map_sorted_distinct_set_unique[of fst])
  assume inv: "om_inv m" "om_inv m'" and eq: "map_of m = map_of m'"
  have d: "distinct (map fst m)" "distinct (map fst m')"
    using inv by (auto simp: om_inv_def strict_sorted_iff)
  show "sorted (map fst m)" "sorted (map fst m')"
    using inv by (auto simp: om_inv_def strict_sorted_iff)
  show "distinct (map fst m)" "distinct (map fst m')" by (fact d)+
  show s: "set m = set m'"
    using d eq by (metis map_of_inject_set)
  show "inj_on fst (set m \<union> set m')"
    using d s by (simp add: distinct_map)
qed

lemma om_begin_None: "om_begin m = None \<longleftrightarrow> m = []"
  by (cases m) (auto simp: om_begin_def)

lemma om_rbegin_None: "om_rbegin m = None \<longleftrightarrow> m = []"
  by (auto simp: om_rbegin_def)

lemma dom_map_of_empty_iff: "dom (map_of m) = {} \<longleftrightarrow> m = []"
  by (cases m) auto

lemma om_begin_Some:
  assumes "om_inv m" "om_begin m = Some (k, v)"
  shows "map_of m k = Some v \<and> (\<forall>k' \<in> dom (map_of m). k \<le> k')"
  using assms by (cases m) (auto simp: om_begin_def om_inv_Cons intro: less_imp_le)

lemma om_rbegin_Some:
  assumes inv: "om_inv m" and r: "om_rbegin m = Some (k, v)"
  shows "map_of m k = Some v \<and> (\<forall>k' \<in> dom (map_of m). k' \<le> k)"
proof -
  from r have last: "last m = (k, v)" and ne: "m \<noteq> []"
    by (auto simp: om_rbegin_def split: if_splits)
  then obtain ys where m: "m = ys @ [(k, v)]"
    by (metis append_butlast_last_id)
  from inv m have "\<forall>k' \<in> fst ` set ys. k' < k"
    by (auto simp: om_inv_def sorted_wrt_append)
  moreover from this have "map_of ys k = None"
    by (auto simp: map_of_eq_None_iff)
  ultimately show ?thesis
    by (auto simp: m map_add_Some_iff dest!: map_of_SomeD split: if_splits intro: less_imp_le)
qed

interpretation om: ordered_map "[]" om_find om_insert om_erase om_begin om_rbegin om_inv
  by unfold_locales
    (auto simp: om_find_def[abs_def] map_of_om_insert map_of_om_erase om_inv_insert om_inv_erase
      om_begin_None om_rbegin_None dom_map_of_empty_iff finite_dom_map_of
      dest: om_begin_Some om_rbegin_Some intro: om_ext)

subsection \<open>Counters\<close>

text \<open>
  A map from keys to positive counts, as \<^verbatim>\<open>m[k]++\<close> and "decrement, and erase at zero" maintain it.
  \<open>om_counts f m\<close> says that \<open>m\<close> stores exactly the counts of \<open>f\<close> that are not zero.
\<close>

definition om_inc :: "'k::linorder \<Rightarrow> ('k, int) omap \<Rightarrow> ('k, int) omap" where
  "om_inc k m = om_insert k (case om_find m k of None \<Rightarrow> 1 | Some n \<Rightarrow> n + 1) m"

definition om_dec :: "'k::linorder \<Rightarrow> ('k, int) omap \<Rightarrow> ('k, int) omap option" where
  "om_dec k m = (case om_find m k of
     None \<Rightarrow> None
   | Some n \<Rightarrow> Some (if n - 1 = 0 then om_erase k m else om_insert k (n - 1) m))"

definition om_counts :: "('k::linorder \<Rightarrow> nat) \<Rightarrow> ('k, int) omap \<Rightarrow> bool" where
  "om_counts f m \<longleftrightarrow> om_inv m \<and>
     (\<forall>k. om_find m k = (if f k = 0 then None else Some (int (f k))))"

lemma om_counts_unique: "om_counts f m \<Longrightarrow> om_counts f m' \<Longrightarrow> m = m'"
  by (rule om.extensional) (auto simp: om_counts_def fun_eq_iff)

lemma om_counts_Nil_iff: "om_counts (\<lambda>_. 0) m \<longleftrightarrow> m = []"
  by (auto simp: om_counts_def om.eq_empty_iff om.find_empty dom_def)

lemma om_counts_inc: "om_counts f m \<Longrightarrow> om_counts (f(k := Suc (f k))) (om_inc k m)"
  by (auto simp: om_counts_def om_inc_def om.find_insert om.invar_insert)

lemma om_counts_dec:
  assumes "om_counts f m" "0 < f k"
  shows "\<exists>m'. om_dec k m = Some m' \<and> om_counts (f(k := f k - 1)) m'"
  using assms
  by (auto simp: om_counts_def om_dec_def om.find_insert om.invar_insert om.find_erase
      om.invar_erase)

lemma om_counts_dom: "om_counts f m \<Longrightarrow> dom (om_find m) = {k. f k \<noteq> 0}"
  by (auto simp: om_counts_def dom_def)

end
