(* ===== verification/KV_Cells.thy ===== *)
theory KV_Cells
  imports Ordered_Map
begin

text \<open>
  \<^verbatim>\<open>llama-kv-cells.h\<close>: the metadata of the KV cache cells. The record \<open>kv_cells\<close> is the class
  \<^verbatim>\<open>llama_kv_cells\<close>; every method is a definition with the prefix \<open>cells_\<close>. A cell is empty when its
  position is -1. \<open>kc_used\<close> and \<open>kc_seq_pos\<close> are redundant indices: the used cells, and for each
  sequence how often each position occurs in it.

  The refinement: \<open>cells_of hs xs\<close> is the one concrete state that represents the abstract cell list
  \<open>xs\<close>, and every method applied to it returns, without failing an assertion, the concrete state of
  the updated abstract list.
\<close>

abbreviation LLAMA_MAX_SEQ :: nat where
  "LLAMA_MAX_SEQ \<equiv> 256"

record kv_cells =
  kc_has_shift :: bool
  kc_used :: "nat set"
  kc_pos :: "int list"
  kc_shift :: "int list"
  kc_seq :: "nat set list"
  kc_seq_pos :: "nat \<Rightarrow> (int, int) omap"

definition cells_new :: kv_cells where
  "cells_new = \<lparr>kc_has_shift = False, kc_used = {}, kc_pos = [], kc_shift = [], kc_seq = [],
     kc_seq_pos = (\<lambda>_. [])\<rparr>"

subsection \<open>The position counters\<close>

definition seq_pos_dec :: "nat \<Rightarrow> int \<Rightarrow> kv_cells \<Rightarrow> kv_cells option" where
  "seq_pos_dec s p c = do {
     m \<leftarrow> om_dec p (kc_seq_pos c s);
     Some (c\<lparr>kc_seq_pos := (kc_seq_pos c)(s := m)\<rparr>) }"

definition seq_pos_inc :: "nat \<Rightarrow> int \<Rightarrow> kv_cells \<Rightarrow> kv_cells" where
  "seq_pos_inc s p c = c\<lparr>kc_seq_pos := (kc_seq_pos c)(s := om_inc p (kc_seq_pos c s))\<rparr>"

definition seq_pos_rm :: "nat \<Rightarrow> kv_cells \<Rightarrow> kv_cells option" where
  "seq_pos_rm i c = for_each
     (\<lambda>s c. if s \<in> kc_seq c ! i then seq_pos_dec s (kc_pos c ! i) c else Some c)
     [0..<LLAMA_MAX_SEQ] c"

definition seq_pos_add :: "nat \<Rightarrow> kv_cells \<Rightarrow> kv_cells option" where
  "seq_pos_add i c = for_each
     (\<lambda>s c. if s \<in> kc_seq c ! i then Some (seq_pos_inc s (kc_pos c ! i) c) else Some c)
     [0..<LLAMA_MAX_SEQ] c"

subsection \<open>Whole vectors\<close>

definition cells_size :: "kv_cells \<Rightarrow> nat" where
  "cells_size c = length (kc_pos c)"

definition cells_reset :: "kv_cells \<Rightarrow> kv_cells" where
  "cells_reset c = c\<lparr>
     kc_pos := replicate (cells_size c) (-1),
     kc_shift := replicate (cells_size c) 0,
     kc_seq := replicate (cells_size c) {},
     kc_has_shift := False,
     kc_used := {},
     kc_seq_pos := (\<lambda>_. [])\<rparr>"

definition cells_reset_shift :: "kv_cells \<Rightarrow> kv_cells" where
  "cells_reset_shift c = c\<lparr>kc_has_shift := False, kc_shift := map (\<lambda>_. 0) (kc_shift c)\<rparr>"

definition cells_resize :: "nat \<Rightarrow> kv_cells \<Rightarrow> kv_cells" where
  "cells_resize n c = cells_reset (c\<lparr>
     kc_pos := vec_resize n 0 (kc_pos c),
     kc_shift := vec_resize n 0 (kc_shift c),
     kc_seq := vec_resize n {} (kc_seq c)\<rparr>)"

definition cells_get_used :: "kv_cells \<Rightarrow> nat" where
  "cells_get_used c = card (kc_used c)"

definition cells_used_min :: "kv_cells \<Rightarrow> nat" where
  "cells_used_min c = (if kc_used c = {} then 0 else Min (kc_used c))"

definition cells_used_max_p1 :: "kv_cells \<Rightarrow> nat" where
  "cells_used_max_p1 c = (if kc_used c = {} then 0 else Max (kc_used c) + 1)"

definition cells_get_has_shift :: "kv_cells \<Rightarrow> bool" where
  "cells_get_has_shift c = kc_has_shift c"

subsection \<open>Queries on one cell\<close>

definition cells_is_empty :: "nat \<Rightarrow> kv_cells \<Rightarrow> bool option" where
  "cells_is_empty i c = do {
     cpp_assert (i < cells_size c);
     cpp_assert ((kc_pos c ! i < 0 \<and> kc_pos c ! i = -1) \<or> 0 \<le> kc_pos c ! i);
     Some (kc_pos c ! i = -1) }"

definition cells_seq_count :: "nat \<Rightarrow> kv_cells \<Rightarrow> nat option" where
  "cells_seq_count i c = do {
     cpp_assert (i < cells_size c);
     cpp_assert (kc_pos c ! i \<noteq> -1);
     Some (card (kc_seq c ! i)) }"

text \<open>\<^verbatim>\<open>std::bitset::test\<close>, \<^verbatim>\<open>set\<close> and \<^verbatim>\<open>reset\<close> throw on an index past the end of the bitset.\<close>

definition cells_seq_has :: "nat \<Rightarrow> nat \<Rightarrow> kv_cells \<Rightarrow> bool option" where
  "cells_seq_has i s c = do {
     cpp_assert (i < cells_size c);
     cpp_assert (s < LLAMA_MAX_SEQ);
     Some (s \<in> kc_seq c ! i) }"

fun first_in :: "nat list \<Rightarrow> nat set \<Rightarrow> int" where
  "first_in [] S = -1"
| "first_in (s # ss) S = (if s \<in> S then int s else first_in ss S)"

definition cells_seq_get :: "nat \<Rightarrow> kv_cells \<Rightarrow> int option" where
  "cells_seq_get i c = do {
     S \<leftarrow> vec_at (kc_seq c) i;
     cpp_assert (card S = 1);
     Some (first_in [0..<LLAMA_MAX_SEQ] S) }"

definition cells_seq_pos_min :: "nat \<Rightarrow> kv_cells \<Rightarrow> int option" where
  "cells_seq_pos_min s c = do {
     cpp_assert (s < LLAMA_MAX_SEQ);
     case om_begin (kc_seq_pos c s) of
       None \<Rightarrow> Some (-1)
     | Some (p, n) \<Rightarrow> do { cpp_assert (n > 0); Some p } }"

definition cells_seq_pos_max :: "nat \<Rightarrow> kv_cells \<Rightarrow> int option" where
  "cells_seq_pos_max s c = do {
     cpp_assert (s < LLAMA_MAX_SEQ);
     case om_rbegin (kc_seq_pos c s) of
       None \<Rightarrow> Some (-1)
     | Some (p, n) \<Rightarrow> do { cpp_assert (n > 0); Some p } }"

definition cells_pos_get :: "nat \<Rightarrow> kv_cells \<Rightarrow> int option" where
  "cells_pos_get i c = do {
     cpp_assert (i < cells_size c);
     cpp_assert (kc_pos c ! i \<noteq> -1);
     Some (kc_pos c ! i) }"

definition cells_get_shift :: "nat \<Rightarrow> kv_cells \<Rightarrow> int option" where
  "cells_get_shift i c = do {
     cpp_assert (i < cells_size c);
     cpp_assert (kc_pos c ! i \<noteq> -1);
     Some (kc_shift c ! i) }"

definition cells_pos_in :: "nat \<Rightarrow> int \<Rightarrow> int \<Rightarrow> kv_cells \<Rightarrow> bool option" where
  "cells_pos_in i p0 p1 c = do {
     cpp_assert (i < cells_size c);
     Some (kc_pos c ! i \<ge> p0 \<and> kc_pos c ! i < p1) }"

subsection \<open>Updates of one cell\<close>

text \<open>The assignments \<^verbatim>\<open>seq[i].reset(); pos[i] = -1; shift[i] = 0; used.erase(i);\<close>\<close>

definition cells_wipe :: "nat \<Rightarrow> kv_cells \<Rightarrow> kv_cells" where
  "cells_wipe i c = c\<lparr>
     kc_seq := (kc_seq c)[i := {}],
     kc_pos := (kc_pos c)[i := -1],
     kc_shift := (kc_shift c)[i := 0],
     kc_used := kc_used c - {i}\<rparr>"

definition cells_rm :: "nat \<Rightarrow> kv_cells \<Rightarrow> kv_cells option" where
  "cells_rm i c = do {
     cpp_assert (i < cells_size c);
     cpp_assert (kc_pos c ! i \<noteq> -1);
     c \<leftarrow> seq_pos_rm i c;
     Some (cells_wipe i c) }"

definition cells_seq_rm :: "nat \<Rightarrow> nat \<Rightarrow> kv_cells \<Rightarrow> (bool \<times> kv_cells) option" where
  "cells_seq_rm i s c = do {
     cpp_assert (i < cells_size c);
     cpp_assert (s < LLAMA_MAX_SEQ);
     cpp_assert (s \<in> kc_seq c ! i);
     cpp_assert (kc_pos c ! i \<noteq> -1);
     c \<leftarrow> Some (c\<lparr>kc_seq := (kc_seq c)[i := kc_seq c ! i - {s}]\<rparr>);
     c \<leftarrow> seq_pos_dec s (kc_pos c ! i) c;
     if kc_seq c ! i = {}
     then Some (True, c\<lparr>kc_pos := (kc_pos c)[i := -1],
                        kc_shift := (kc_shift c)[i := 0],
                        kc_used := kc_used c - {i}\<rparr>)
     else Some (False, c) }"

definition cells_seq_keep :: "nat \<Rightarrow> nat \<Rightarrow> kv_cells \<Rightarrow> (bool \<times> kv_cells) option" where
  "cells_seq_keep i s c = do {
     cpp_assert (i < cells_size c);
     cpp_assert (s < LLAMA_MAX_SEQ);
     if s \<in> kc_seq c ! i then do {
       c \<leftarrow> seq_pos_rm i c;
       c \<leftarrow> Some (c\<lparr>kc_seq := (kc_seq c)[i := {s}]\<rparr>);
       Some (False, seq_pos_inc s (kc_pos c ! i) c) }
     else if kc_seq c ! i \<noteq> {} then do {
       c \<leftarrow> seq_pos_rm i c;
       Some (True, cells_wipe i c) }
     else do {
       cpp_assert (kc_pos c ! i = -1);
       Some (False, c) } }"

definition cells_seq_add :: "nat \<Rightarrow> nat \<Rightarrow> kv_cells \<Rightarrow> kv_cells option" where
  "cells_seq_add i s c = do {
     cpp_assert (i < cells_size c);
     cpp_assert (kc_pos c ! i \<noteq> -1);
     cpp_assert (s < LLAMA_MAX_SEQ);
     cpp_assert (s \<notin> kc_seq c ! i);
     Some (seq_pos_inc s (kc_pos c ! i) (c\<lparr>kc_seq := (kc_seq c)[i := insert s (kc_seq c ! i)]\<rparr>)) }"

definition cells_pos_set :: "nat \<Rightarrow> int \<Rightarrow> kv_cells \<Rightarrow> kv_cells option" where
  "cells_pos_set i p c = do {
     cpp_assert (i < cells_size c);
     cpp_assert (kc_pos c ! i = -1);
     cpp_assert (kc_seq c ! i = {});
     Some (c\<lparr>kc_pos := (kc_pos c)[i := p], kc_used := insert i (kc_used c)\<rparr>) }"

text \<open>Signed overflow in \<^verbatim>\<open>pos[i] += d\<close> and \<^verbatim>\<open>shift[i] += d\<close> is undefined behaviour.\<close>

definition cells_pos_add :: "nat \<Rightarrow> int \<Rightarrow> kv_cells \<Rightarrow> (bool \<times> kv_cells) option" where
  "cells_pos_add i d c = do {
     cpp_assert (i < cells_size c);
     cpp_assert (kc_pos c ! i \<noteq> -1);
     c \<leftarrow> seq_pos_rm i c;
     cpp_assert (i32_ok (kc_pos c ! i + d) \<and> i32_ok (kc_shift c ! i + d));
     c \<leftarrow> Some (c\<lparr>kc_pos := (kc_pos c)[i := kc_pos c ! i + d],
                   kc_shift := (kc_shift c)[i := kc_shift c ! i + d],
                   kc_has_shift := True\<rparr>);
     if kc_pos c ! i < 0 then Some (True, cells_wipe i c)
     else do {
       c \<leftarrow> seq_pos_add i c;
       Some (False, c) } }"

definition trunc_div :: "int \<Rightarrow> int \<Rightarrow> int" where
  "trunc_div a b = sgn a * sgn b * (\<bar>a\<bar> div \<bar>b\<bar>)"

definition cells_pos_div :: "nat \<Rightarrow> int \<Rightarrow> kv_cells \<Rightarrow> kv_cells option" where
  "cells_pos_div i d c = do {
     cpp_assert (i < cells_size c);
     cpp_assert (kc_pos c ! i \<noteq> -1);
     p_old \<leftarrow> Some (kc_pos c ! i);
     c \<leftarrow> seq_pos_rm i c;
     cpp_assert (d \<noteq> 0);
     p_new \<leftarrow> Some (trunc_div p_old d);
     cpp_assert (i32_ok (kc_shift c ! i + (p_old - p_new)));
     c \<leftarrow> Some (c\<lparr>kc_pos := (kc_pos c)[i := p_new],
                   kc_shift := (kc_shift c)[i := kc_shift c ! i + (p_old - p_new)]\<rparr>);
     c \<leftarrow> seq_pos_add i c;
     Some (c\<lparr>kc_has_shift := True\<rparr>) }"

subsection \<open>Saving and restoring cells\<close>

definition cells_cp :: "nat list \<Rightarrow> kv_cells \<Rightarrow> kv_cells option" where
  "cells_cp idxs c = for_each
     (\<lambda>j res. do {
        idx \<leftarrow> vec_at idxs j;
        p \<leftarrow> vec_at (kc_pos c) idx;
        S \<leftarrow> vec_at (kc_seq c) idx;
        sh \<leftarrow> vec_at (kc_shift c) idx;
        cpp_assert (sh = 0);
        Some (res\<lparr>kc_pos := (kc_pos res)[j := p], kc_seq := (kc_seq res)[j := S]\<rparr>) })
     [0..<length idxs] (cells_resize (length idxs) cells_new)"

definition cells_cp_range :: "nat \<Rightarrow> nat \<Rightarrow> kv_cells \<Rightarrow> kv_cells option" where
  "cells_cp_range i n c = do {
     cpp_assert (i + n \<le> cells_size c);
     for_each
       (\<lambda>j res. do {
          cpp_assert (kc_shift c ! (i + j) = 0);
          Some (res\<lparr>kc_pos := (kc_pos res)[j := kc_pos c ! (i + j)],
                    kc_seq := (kc_seq res)[j := kc_seq c ! (i + j)]\<rparr>) })
       [0..<n] (cells_resize n cells_new) }"

text \<open>The body of the two \<^verbatim>\<open>set\<close> methods, for the target index and the source index.\<close>

definition cells_set1 :: "nat \<Rightarrow> nat \<Rightarrow> kv_cells \<Rightarrow> kv_cells \<Rightarrow> kv_cells option" where
  "cells_set1 idx j other c = do {
     p \<leftarrow> vec_at (kc_pos c) idx;
     q \<leftarrow> vec_at (kc_pos other) j;
     T \<leftarrow> vec_at (kc_seq other) j;
     c \<leftarrow> Some (if p = -1 \<and> q \<noteq> -1 then c\<lparr>kc_used := insert idx (kc_used c)\<rparr> else c);
     c \<leftarrow> Some (if p \<noteq> -1 \<and> q = -1 then c\<lparr>kc_used := kc_used c - {idx}\<rparr> else c);
     c \<leftarrow> (if p \<noteq> -1 then seq_pos_rm idx c else Some c);
     c \<leftarrow> Some (c\<lparr>kc_pos := (kc_pos c)[idx := q], kc_seq := (kc_seq c)[idx := T]\<rparr>);
     c \<leftarrow> (if q \<noteq> -1 then seq_pos_add idx c else Some c);
     cpp_assert (kc_shift c ! idx = 0);
     Some c }"

definition cells_set :: "nat list \<Rightarrow> kv_cells \<Rightarrow> kv_cells \<Rightarrow> kv_cells option" where
  "cells_set idxs other c = do {
     cpp_assert (length idxs = length (kc_pos other));
     for_each (\<lambda>j c. cells_set1 (idxs ! j) j other c) [0..<length (kc_pos other)] c }"

definition cells_set_range :: "nat \<Rightarrow> kv_cells \<Rightarrow> kv_cells \<Rightarrow> kv_cells option" where
  "cells_set_range i other c = do {
     cpp_assert (i + length (kc_pos other) \<le> cells_size c);
     for_each (\<lambda>j c. cells_set1 (i + j) j other c) [0..<length (kc_pos other)] c }"

subsection \<open>Abstract cells\<close>

text \<open>
  An abstract cell is a position, the set of sequences that own the cell and the pending shift. The
  tracker of a cell list counts, for each sequence, the positions of the cells it owns.
\<close>

datatype acell = ACell (a_pos: int) (a_seq: "nat set") (a_shift: int)

abbreviation no_cell :: acell where
  "no_cell \<equiv> ACell (-1) {} 0"

definition acell_ok :: "acell \<Rightarrow> bool" where
  "acell_ok x \<longleftrightarrow> x = no_cell \<or>
     (0 \<le> a_pos x \<and> a_pos x \<le> INT32_MAX \<and> a_seq x \<subseteq> {..<LLAMA_MAX_SEQ} \<and> i32_ok (a_shift x))"

abbreviation acells_ok :: "acell list \<Rightarrow> bool" where
  "acells_ok xs \<equiv> \<forall>x \<in> set xs. acell_ok x"

definition seq_cnt :: "acell list \<Rightarrow> nat \<Rightarrow> int \<Rightarrow> nat" where
  "seq_cnt xs s p = length (filter (\<lambda>x. s \<in> a_seq x \<and> a_pos x = p) xs)"

definition tracker :: "acell list \<Rightarrow> nat \<Rightarrow> (int, int) omap" where
  "tracker xs s = fold om_inc (map a_pos (filter (\<lambda>x. s \<in> a_seq x) xs)) []"

definition cells_of :: "bool \<Rightarrow> acell list \<Rightarrow> kv_cells" where
  "cells_of hs xs = \<lparr>kc_has_shift = hs, kc_used = {i. i < length xs \<and> a_pos (xs ! i) \<noteq> -1},
     kc_pos = map a_pos xs, kc_shift = map a_shift xs, kc_seq = map a_seq xs,
     kc_seq_pos = tracker xs\<rparr>"

definition cells_abs :: "kv_cells \<Rightarrow> acell list" where
  "cells_abs c = map (\<lambda>i. ACell (kc_pos c ! i) (kc_seq c ! i) (kc_shift c ! i)) [0..<cells_size c]"

definition cells_inv :: "kv_cells \<Rightarrow> bool" where
  "cells_inv c \<longleftrightarrow> c = cells_of (kc_has_shift c) (cells_abs c) \<and> acells_ok (cells_abs c)"

lemma cells_abs_of [simp]: "cells_abs (cells_of hs xs) = xs"
  by (rule nth_equalityI) (auto simp: cells_abs_def cells_of_def cells_size_def)

lemma cells_inv_of [simp]: "cells_inv (cells_of hs xs) \<longleftrightarrow> acells_ok xs"
  by (simp add: cells_inv_def) (simp add: cells_of_def)

lemma cells_invE:
  assumes "cells_inv c"
  obtains hs xs where "c = cells_of hs xs" "acells_ok xs"
  using assms by (auto simp: cells_inv_def)

lemma cells_of_sel [simp]:
  "kc_has_shift (cells_of hs xs) = hs"
  "kc_used (cells_of hs xs) = {i. i < length xs \<and> a_pos (xs ! i) \<noteq> -1}"
  "kc_pos (cells_of hs xs) = map a_pos xs"
  "kc_shift (cells_of hs xs) = map a_shift xs"
  "kc_seq (cells_of hs xs) = map a_seq xs"
  "kc_seq_pos (cells_of hs xs) = tracker xs"
  "cells_size (cells_of hs xs) = length xs"
  by (simp_all add: cells_of_def cells_size_def)

lemma acell_ok_no_cell [simp]: "acell_ok no_cell"
  by (simp add: acell_ok_def)

lemma acell_okD:
  assumes "acell_ok x"
  shows "a_seq x \<subseteq> {..<LLAMA_MAX_SEQ}" "-1 \<le> a_pos x" "a_pos x = -1 \<Longrightarrow> x = no_cell"
    "a_pos x < 0 \<Longrightarrow> x = no_cell" "a_pos x \<le> INT32_MAX" "i32_ok (a_shift x)"
  using assms by (auto simp: acell_ok_def i32_ok_def)

subsubsection \<open>Counting\<close>

lemma tracker_counts: "om_counts (seq_cnt xs s) (tracker xs s)"
proof -
  have "om_counts (\<lambda>p. f p + count_list ps p) (fold om_inc ps m)" if "om_counts f m" for f m ps
    using that
  proof (induction ps arbitrary: f m)
    case (Cons p ps)
    have "om_counts (\<lambda>q. (f(p := Suc (f p))) q + count_list ps q) (fold om_inc ps (om_inc p m))"
      by (rule Cons.IH) (rule om_counts_inc[OF Cons.prems])
    moreover have "(\<lambda>q. (f(p := Suc (f p))) q + count_list ps q)
        = (\<lambda>q. f q + count_list (p # ps) q)"
      by (auto simp: fun_eq_iff)
    ultimately show ?case by simp
  qed simp
  from this[of "\<lambda>_. 0" "[]"]
  have "om_counts (count_list (map a_pos (filter (\<lambda>x. s \<in> a_seq x) xs))) (tracker xs s)"
    by (simp add: om_counts_Nil_iff tracker_def)
  moreover have "count_list (map a_pos (filter (\<lambda>x. s \<in> a_seq x) xs)) = seq_cnt xs s"
    by (auto simp: fun_eq_iff seq_cnt_def count_list_eq_length_filter filter_map o_def conj_commute
        intro!: arg_cong[where f = length] filter_cong)
  ultimately show ?thesis by simp
qed

lemma tracker_eqI: "om_counts (seq_cnt xs s) m \<Longrightarrow> m = tracker xs s"
  using om_counts_unique tracker_counts by blast

lemma seq_cnt_update:
  assumes "i < length xs"
  shows "seq_cnt (xs[i := y]) s p + of_bool (s \<in> a_seq (xs ! i) \<and> a_pos (xs ! i) = p)
       = seq_cnt xs s p + of_bool (s \<in> a_seq y \<and> a_pos y = p)"
proof -
  have xs: "xs = take i xs @ xs ! i # drop (Suc i) xs"
    using assms by (rule id_take_nth_drop)
  have "seq_cnt (xs[i := y]) s p = seq_cnt (take i xs @ y # drop (Suc i) xs) s p"
    using assms by (simp add: upd_conv_take_nth_drop)
  moreover have "seq_cnt xs s p = seq_cnt (take i xs @ xs ! i # drop (Suc i) xs) s p"
    using xs by simp
  ultimately show ?thesis by (simp add: seq_cnt_def)
qed

lemma seq_cnt_pos: "i < length xs \<Longrightarrow> s \<in> a_seq (xs ! i) \<Longrightarrow> 0 < seq_cnt xs s (a_pos (xs ! i))"
  unfolding seq_cnt_def length_greater_0_conv filter_empty_conv by (metis nth_mem)

lemma seq_cnt_nonzero: "seq_cnt xs s p \<noteq> 0 \<longleftrightarrow> (\<exists>x \<in> set xs. s \<in> a_seq x \<and> a_pos x = p)"
  by (auto simp: seq_cnt_def filter_empty_conv)

text \<open>A cell that \<open>s\<close> does not own, before or after, does not touch the counters of \<open>s\<close>.\<close>

lemma tracker_update_other:
  assumes "i < length xs" "s \<notin> a_seq (xs ! i)" "s \<notin> a_seq y"
  shows "tracker (xs[i := y]) s = tracker xs s"
proof -
  have "seq_cnt (xs[i := y]) s = seq_cnt xs s"
    using seq_cnt_update[OF assms(1), of y s] assms(2,3) by (auto simp: fun_eq_iff)
  with tracker_counts[of "xs[i := y]" s] show ?thesis by (metis tracker_eqI)
qed

lemma tracker_update_same:
  assumes "i < length xs" "a_pos y = a_pos (xs ! i)" "s \<in> a_seq y \<longleftrightarrow> s \<in> a_seq (xs ! i)"
  shows "tracker (xs[i := y]) s = tracker xs s"
proof -
  have "seq_cnt (xs[i := y]) s = seq_cnt xs s"
    using seq_cnt_update[OF assms(1), of y s] assms(2,3) by (auto simp: fun_eq_iff)
  with tracker_counts[of "xs[i := y]" s] show ?thesis by (metis tracker_eqI)
qed

lemma om_dec_tracker:
  assumes "i < length xs" "s \<in> a_seq (xs ! i)" "s \<notin> a_seq y"
  shows "om_dec (a_pos (xs ! i)) (tracker xs s) = Some (tracker (xs[i := y]) s)"
proof -
  let ?p = "a_pos (xs ! i)"
  obtain m where m: "om_dec ?p (tracker xs s) = Some m"
      "om_counts ((seq_cnt xs s)(?p := seq_cnt xs s ?p - 1)) m"
    using om_counts_dec[OF tracker_counts seq_cnt_pos[OF assms(1,2)]] by blast
  have "(seq_cnt xs s)(?p := seq_cnt xs s ?p - 1) = seq_cnt (xs[i := y]) s"
  proof
    fix q
    show "((seq_cnt xs s)(?p := seq_cnt xs s ?p - 1)) q = seq_cnt (xs[i := y]) s q"
      using seq_cnt_update[OF assms(1), of y s q] assms(2,3) by auto
  qed
  with m show ?thesis by (metis tracker_eqI)
qed

lemma om_inc_tracker:
  assumes "i < length xs" "s \<notin> a_seq (xs ! i)" "s \<in> a_seq y"
  shows "om_inc (a_pos y) (tracker xs s) = tracker (xs[i := y]) s"
proof (rule tracker_eqI)
  have "(seq_cnt xs s)(a_pos y := Suc (seq_cnt xs s (a_pos y))) = seq_cnt (xs[i := y]) s"
    using seq_cnt_update[OF assms(1), of y s] assms(2,3) by (auto simp: fun_eq_iff)
  then show "om_counts (seq_cnt (xs[i := y]) s) (om_inc (a_pos y) (tracker xs s))"
    using om_counts_inc[OF tracker_counts, of xs s "a_pos y"] by simp
qed

text \<open>\<^verbatim>\<open>seq_pos_rm\<close> and \<^verbatim>\<open>seq_pos_add\<close> take a cell out of the counters and put it back.\<close>

lemma seq_pos_rm_field:
  assumes "kc_seq c ! i = S" "kc_pos c ! i = p"
  shows "for_each (\<lambda>s c. if s \<in> kc_seq c ! i then seq_pos_dec s (kc_pos c ! i) c else Some c) ss c
   = map_option (\<lambda>g. c\<lparr>kc_seq_pos := g\<rparr>)
      (for_each (\<lambda>s g. if s \<in> S
         then do { m \<leftarrow> om_dec p (g s); Some (g(s := m)) } else Some g) ss (kc_seq_pos c))"
  using assms
proof (induction ss arbitrary: c)
  case (Cons s ss)
  then show ?case
    by (cases "om_dec p (kc_seq_pos c s)") (simp_all add: seq_pos_dec_def del: fun_upd_apply)
qed simp

lemma seq_pos_add_field:
  assumes "kc_seq c ! i = S" "kc_pos c ! i = p"
  shows "for_each (\<lambda>s c. if s \<in> kc_seq c ! i then Some (seq_pos_inc s (kc_pos c ! i) c) else Some c)
      ss c
   = map_option (\<lambda>g. c\<lparr>kc_seq_pos := g\<rparr>)
      (for_each (\<lambda>s g. if s \<in> S
         then do { m \<leftarrow> Some (om_inc p (g s)); Some (g(s := m)) } else Some g)
        ss (kc_seq_pos c))"
  using assms
  by (induction ss arbitrary: c) (simp_all add: seq_pos_inc_def del: fun_upd_apply)

lemma seq_pos_rm_tracker:
  assumes "kc_seq_pos c = tracker xs" "i < length xs"
    "kc_seq c ! i = a_seq (xs ! i)" "kc_pos c ! i = a_pos (xs ! i)"
    "a_seq (xs ! i) \<subseteq> {..<LLAMA_MAX_SEQ}" "a_seq y = {}"
  shows "seq_pos_rm i c = Some (c\<lparr>kc_seq_pos := tracker (xs[i := y])\<rparr>)"
proof -
  have "for_each (\<lambda>s g. if s \<in> a_seq (xs ! i)
         then do { m \<leftarrow> om_dec (a_pos (xs ! i)) (g s); Some (g(s := m)) } else Some g)
        [0..<LLAMA_MAX_SEQ] (tracker xs)
     = Some (\<lambda>s. if s \<in> set [0..<LLAMA_MAX_SEQ] \<and> s \<in> a_seq (xs ! i)
         then tracker (xs[i := y]) s else tracker xs s)"
    by (rule for_each_pointwise) (use assms in \<open>auto intro: om_dec_tracker\<close>)
  moreover have "(\<lambda>s. if s \<in> set [0..<LLAMA_MAX_SEQ] \<and> s \<in> a_seq (xs ! i)
         then tracker (xs[i := y]) s else tracker xs s) = tracker (xs[i := y])"
    using assms by (auto simp: fun_eq_iff tracker_update_other)
  ultimately show ?thesis using assms by (simp add: seq_pos_rm_def seq_pos_rm_field[OF assms(3,4)])
qed

lemma seq_pos_add_tracker:
  assumes "kc_seq_pos c = tracker xs" "i < length xs" "a_seq (xs ! i) = {}"
    "kc_seq c ! i = a_seq y" "kc_pos c ! i = a_pos y" "a_seq y \<subseteq> {..<LLAMA_MAX_SEQ}"
  shows "seq_pos_add i c = Some (c\<lparr>kc_seq_pos := tracker (xs[i := y])\<rparr>)"
proof -
  have "for_each (\<lambda>s g. if s \<in> a_seq y
         then do { m \<leftarrow> Some (om_inc (a_pos y) (g s)); Some (g(s := m)) } else Some g)
        [0..<LLAMA_MAX_SEQ] (tracker xs)
     = Some (\<lambda>s. if s \<in> set [0..<LLAMA_MAX_SEQ] \<and> s \<in> a_seq y
         then tracker (xs[i := y]) s else tracker xs s)"
    by (rule for_each_pointwise) (use assms in \<open>auto intro: om_inc_tracker\<close>)
  moreover have "(\<lambda>s. if s \<in> set [0..<LLAMA_MAX_SEQ] \<and> s \<in> a_seq y
         then tracker (xs[i := y]) s else tracker xs s) = tracker (xs[i := y])"
    using assms by (auto simp: fun_eq_iff tracker_update_other)
  ultimately show ?thesis using assms by (simp add: seq_pos_add_def seq_pos_add_field[OF assms(4,5)])
qed

subsection \<open>Each method refines an update of the abstract list\<close>

definition acell_rm :: "nat \<Rightarrow> acell \<Rightarrow> acell" where
  "acell_rm s x = (if a_seq x - {s} = {} then no_cell else ACell (a_pos x) (a_seq x - {s}) (a_shift x))"

definition acell_keep :: "nat \<Rightarrow> acell \<Rightarrow> acell" where
  "acell_keep s x = (if s \<in> a_seq x then ACell (a_pos x) {s} (a_shift x) else no_cell)"

definition acell_add :: "nat \<Rightarrow> acell \<Rightarrow> acell" where
  "acell_add s x = ACell (a_pos x) (insert s (a_seq x)) (a_shift x)"

definition acell_move :: "int \<Rightarrow> acell \<Rightarrow> acell" where
  "acell_move d x = (if a_pos x + d < 0 then no_cell
     else ACell (a_pos x + d) (a_seq x) (a_shift x + d))"

definition acell_div :: "int \<Rightarrow> acell \<Rightarrow> acell" where
  "acell_div d x = ACell (trunc_div (a_pos x) d) (a_seq x)
     (a_shift x + (a_pos x - trunc_div (a_pos x) d))"

text \<open>Two concrete states of equal fields are equal; the index fields follow from the list.\<close>

lemma cells_of_eqI:
  assumes "kc_has_shift c = hs" "kc_used c = {i. i < length xs \<and> a_pos (xs ! i) \<noteq> -1}"
    "kc_pos c = map a_pos xs" "kc_shift c = map a_shift xs" "kc_seq c = map a_seq xs"
    "kc_seq_pos c = tracker xs"
  shows "c = cells_of hs xs"
  using assms by (simp add: cells_of_def)

lemma used_update:
  assumes "i < length xs"
  shows "{j. j < length xs \<and> a_pos (xs ! j) \<noteq> -1} - {i} =
      {j. j < length xs \<and> a_pos (xs[i := no_cell] ! j) \<noteq> -1}"
    and "a_pos y \<noteq> -1 \<Longrightarrow> insert i {j. j < length xs \<and> a_pos (xs ! j) \<noteq> -1} =
      {j. j < length xs \<and> a_pos (xs[i := y] ! j) \<noteq> -1}"
    and "a_pos y = -1 \<longleftrightarrow> a_pos (xs ! i) = -1 \<Longrightarrow>
      {j. j < length xs \<and> a_pos (xs[i := y] ! j) \<noteq> -1} = {j. j < length xs \<and> a_pos (xs ! j) \<noteq> -1}"
  using assms by (auto simp: nth_list_update)

lemma tracker_fun_upd:
  assumes "i < length xs" "\<And>t. t \<noteq> s \<Longrightarrow> t \<in> a_seq y \<longleftrightarrow> t \<in> a_seq (xs ! i)"
    "(a_pos y = a_pos (xs ! i)) \<or> a_seq y = {}"
  shows "(tracker xs)(s := tracker (xs[i := y]) s) = tracker (xs[i := y])"
proof
  fix t
  show "((tracker xs)(s := tracker (xs[i := y]) s)) t = tracker (xs[i := y]) t"
    using assms(2)[of t] assms(1,3) tracker_update_same[of i xs y t] tracker_update_other[of i xs t y]
    by (cases "t = s") auto
qed

lemma acells_ok_nth: "acells_ok xs \<Longrightarrow> i < length xs \<Longrightarrow> acell_ok (xs ! i)"
  by simp

lemma cells_rm_of:
  assumes "i < length xs" "acells_ok xs" "a_pos (xs ! i) \<noteq> -1"
  shows "cells_rm i (cells_of hs xs) = Some (cells_of hs (xs[i := no_cell]))"
proof -
  have ok: "a_seq (xs ! i) \<subseteq> {..<LLAMA_MAX_SEQ}"
    using acells_ok_nth[OF assms(2,1)] by (rule acell_okD)
  have "seq_pos_rm i (cells_of hs xs) = Some ((cells_of hs xs)\<lparr>kc_seq_pos := tracker (xs[i := no_cell])\<rparr>)"
    by (rule seq_pos_rm_tracker) (use assms ok in simp_all)
  then show ?thesis
    using assms used_update(1)[OF assms(1)]
    by (auto simp: cells_rm_def cells_wipe_def map_update intro!: cells_of_eqI)
qed

lemma cells_seq_rm_of:
  assumes "i < length xs" "acells_ok xs" "s \<in> a_seq (xs ! i)"
  shows "cells_seq_rm i s (cells_of hs xs) =
     Some (a_seq (xs ! i) - {s} = {}, cells_of hs (xs[i := acell_rm s (xs ! i)]))"
proof -
  let ?x = "xs ! i" and ?y = "acell_rm s (xs ! i)"
  have ok: "acell_ok ?x" using assms by simp
  with assms(3) have p: "a_pos ?x \<noteq> -1" "s < LLAMA_MAX_SEQ"
    using acell_okD(1,3)[of ?x] by auto
  have y: "s \<notin> a_seq ?y" by (auto simp: acell_rm_def)
  have upd: "(tracker xs)(s := tracker (xs[i := ?y]) s) = tracker (xs[i := ?y])"
    by (rule tracker_fun_upd) (use assms in \<open>auto simp: acell_rm_def\<close>)
  have yseq: "a_seq ?y = a_seq ?x - {s}" by (auto simp: acell_rm_def)
  show ?thesis
  proof (cases "a_seq ?x - {s} = {}")
    case True
    then have "?y = no_cell" by (simp add: acell_rm_def)
    moreover have "a_seq ?x = {s}" using True assms(3) by blast
    ultimately show ?thesis
      using assms p om_dec_tracker[OF assms(1,3) y] upd used_update(1)[OF assms(1)]
      by (auto simp: cells_seq_rm_def seq_pos_dec_def map_update intro!: cells_of_eqI)
  next
    case False
    then have y': "?y = ACell (a_pos ?x) (a_seq ?x - {s}) (a_shift ?x)" by (simp add: acell_rm_def)
    then have used: "{j. j < length xs \<and> a_pos (xs[i := ?y] ! j) \<noteq> -1}
        = {j. j < length xs \<and> a_pos (xs ! j) \<noteq> -1}"
      using used_update(3)[OF assms(1), of ?y] by simp
    show ?thesis
      using False assms p om_dec_tracker[OF assms(1,3) y] upd used
      by (auto simp: cells_seq_rm_def seq_pos_dec_def y' map_update list_update_same_conv
          intro!: cells_of_eqI)
  qed
qed

lemma cells_seq_keep_of:
  assumes "i < length xs" "acells_ok xs" "s < LLAMA_MAX_SEQ"
    "xs ! i = no_cell \<or> a_seq (xs ! i) \<noteq> {}"
  shows "cells_seq_keep i s (cells_of hs xs) =
     Some (a_seq (xs ! i) \<noteq> {} \<and> s \<notin> a_seq (xs ! i), cells_of hs (xs[i := acell_keep s (xs ! i)]))"
proof -
  let ?x = "xs ! i" and ?y = "acell_keep s (xs ! i)"
  have ok: "acell_ok ?x" using assms by simp
  have sub: "a_seq ?x \<subseteq> {..<LLAMA_MAX_SEQ}" using ok by (rule acell_okD)
  have rm: "seq_pos_rm i (cells_of hs xs)
      = Some ((cells_of hs xs)\<lparr>kc_seq_pos := tracker (xs[i := z])\<rparr>)" if "a_seq z = {}" for z
    by (rule seq_pos_rm_tracker) (use assms sub that in simp_all)
  consider (keep) "s \<in> a_seq ?x" | (wipe) "s \<notin> a_seq ?x" "a_seq ?x \<noteq> {}" | (none) "?x = no_cell"
    using assms(4) by auto
  then show ?thesis
  proof cases
    case keep
    let ?z = "ACell (a_pos ?x) {} 0"
    have y: "?y = ACell (a_pos ?x) {s} (a_shift ?x)" using keep by (simp add: acell_keep_def)
    have "(tracker (xs[i := ?z]))(s := tracker (xs[i := ?z, i := ?y]) s) = tracker (xs[i := ?z, i := ?y])"
      by (rule tracker_fun_upd) (use assms y in auto)
    moreover have "om_inc (a_pos ?y) (tracker (xs[i := ?z]) s) = tracker (xs[i := ?z, i := ?y]) s"
      by (rule om_inc_tracker) (use assms y in auto)
    moreover have "{j. j < length xs \<and> a_pos (xs[i := ?y] ! j) \<noteq> -1}
        = {j. j < length xs \<and> a_pos (xs ! j) \<noteq> -1}"
      using used_update(3)[OF assms(1), of ?y] y by simp
    ultimately show ?thesis
      using keep assms rm[of ?z]
      by (auto simp: cells_seq_keep_def seq_pos_inc_def y map_update list_update_same_conv
          intro!: cells_of_eqI)
  next
    case wipe
    then show ?thesis
      using assms rm[of no_cell] used_update(1)[OF assms(1)]
      by (auto simp: cells_seq_keep_def cells_wipe_def acell_keep_def map_update intro!: cells_of_eqI)
  next
    case none
    then have "xs[i := ?y] = xs" by (simp add: acell_keep_def list_update_same_conv assms(1))
    with none show ?thesis using assms by (simp add: cells_seq_keep_def)
  qed
qed

lemma cells_seq_add_of:
  assumes "i < length xs" "acells_ok xs" "a_pos (xs ! i) \<noteq> -1" "s < LLAMA_MAX_SEQ"
    "s \<notin> a_seq (xs ! i)"
  shows "cells_seq_add i s (cells_of hs xs) = Some (cells_of hs (xs[i := acell_add s (xs ! i)]))"
proof -
  let ?y = "acell_add s (xs ! i)"
  have y: "a_pos ?y = a_pos (xs ! i)" "s \<in> a_seq ?y" by (simp_all add: acell_add_def)
  have "(tracker xs)(s := tracker (xs[i := ?y]) s) = tracker (xs[i := ?y])"
    by (rule tracker_fun_upd) (use assms in \<open>auto simp: acell_add_def\<close>)
  moreover have "om_inc (a_pos ?y) (tracker xs s) = tracker (xs[i := ?y]) s"
    by (rule om_inc_tracker) (use assms y in auto)
  moreover have "{j. j < length xs \<and> a_pos (xs[i := ?y] ! j) \<noteq> -1}
      = {j. j < length xs \<and> a_pos (xs ! j) \<noteq> -1}"
    using used_update(3)[OF assms(1), of ?y] y by simp
  moreover have "map a_seq (xs[i := ?y]) = (map a_seq xs)[i := insert s (a_seq (xs ! i))]"
    "map a_pos (xs[i := ?y]) = map a_pos xs" "map a_shift (xs[i := ?y]) = map a_shift xs"
    using assms(1) by (simp_all add: acell_add_def map_update list_update_same_conv)
  ultimately show ?thesis
    using assms y by (simp add: cells_seq_add_def seq_pos_inc_def cells_of_def cells_size_def)
qed

lemma cells_pos_set_of:
  assumes "i < length xs" "xs ! i = no_cell" "p \<noteq> -1"
  shows "cells_pos_set i p (cells_of hs xs) = Some (cells_of hs (xs[i := ACell p {} 0]))"
proof -
  have "tracker (xs[i := ACell p {} 0]) = tracker xs"
    using tracker_update_other[of i xs _ "ACell p {} 0"] assms by (auto simp: fun_eq_iff)
  moreover have "map a_seq (xs[i := ACell p {} 0]) = map a_seq xs"
    "map a_pos (xs[i := ACell p {} 0]) = (map a_pos xs)[i := p]"
    "map a_shift (xs[i := ACell p {} 0]) = map a_shift xs"
    using assms(1,2) by (simp_all add: map_update list_update_same_conv)
  ultimately show ?thesis
    using assms used_update(2)[OF assms(1), of "ACell p {} 0"]
    by (simp add: cells_pos_set_def cells_of_def cells_size_def)
qed

lemma cells_pos_add_of:
  assumes "i < length xs" "acells_ok xs" "a_pos (xs ! i) \<noteq> -1"
    "i32_ok (a_pos (xs ! i) + d)" "i32_ok (a_shift (xs ! i) + d)"
  shows "cells_pos_add i d (cells_of hs xs) =
     Some (a_pos (xs ! i) + d < 0, cells_of True (xs[i := acell_move d (xs ! i)]))"
proof -
  let ?x = "xs ! i" and ?y = "acell_move d (xs ! i)"
  have sub: "a_seq ?x \<subseteq> {..<LLAMA_MAX_SEQ}"
    using acells_ok_nth[OF assms(2,1)] by (rule acell_okD)
  have rm: "seq_pos_rm i (cells_of hs xs)
      = Some ((cells_of hs xs)\<lparr>kc_seq_pos := tracker (xs[i := no_cell])\<rparr>)"
    by (rule seq_pos_rm_tracker) (use assms sub in simp_all)
  show ?thesis
  proof (cases "a_pos ?x + d < 0")
    case True
    then have "?y = no_cell" by (simp add: acell_move_def)
    with True show ?thesis
      using assms rm used_update(1)[OF assms(1)]
      by (simp add: cells_pos_add_def cells_wipe_def cells_of_def cells_size_def map_update)
  next
    case False
    then have y: "?y = ACell (a_pos ?x + d) (a_seq ?x) (a_shift ?x + d)"
      by (simp add: acell_move_def)
    let ?c = "(cells_of hs xs)\<lparr>kc_seq_pos := tracker (xs[i := no_cell]),
        kc_pos := (map a_pos xs)[i := a_pos ?y], kc_shift := (map a_shift xs)[i := a_shift ?y],
        kc_has_shift := True\<rparr>"
    have "seq_pos_add i ?c = Some (?c\<lparr>kc_seq_pos := tracker (xs[i := no_cell, i := ?y])\<rparr>)"
      by (rule seq_pos_add_tracker) (use assms sub y in simp_all)
    moreover have "?c\<lparr>kc_seq_pos := tracker (xs[i := no_cell, i := ?y])\<rparr> = cells_of True (xs[i := ?y])"
      using assms y False used_update(3)[OF assms(1), of ?y] acell_okD(2)[of ?x]
      by (simp add: cells_of_def map_update list_update_same_conv)
    ultimately show ?thesis using assms rm False y by (simp add: cells_pos_add_def)
  qed
qed

lemma trunc_div_nonneg: "0 \<le> a \<Longrightarrow> 0 < b \<Longrightarrow> trunc_div a b = a div b"
  by (cases "a = 0") (simp_all add: trunc_div_def)

lemma cells_pos_div_of:
  assumes "i < length xs" "acells_ok xs" "a_pos (xs ! i) \<noteq> -1" "0 < d"
    "i32_ok (a_shift (acell_div d (xs ! i)))"
  shows "cells_pos_div i d (cells_of hs xs) = Some (cells_of True (xs[i := acell_div d (xs ! i)]))"
proof -
  let ?x = "xs ! i"
  define y where "y = acell_div d ?x"
  have y: "trunc_div (a_pos ?x) d = a_pos y" "a_shift ?x + (a_pos ?x - a_pos y) = a_shift y"
      "a_seq y = a_seq ?x" "i32_ok (a_shift y)"
    using assms(5) by (simp_all add: y_def acell_div_def)
  have ok: "acell_ok ?x" using acells_ok_nth[OF assms(2,1)] .
  then have sub: "a_seq ?x \<subseteq> {..<LLAMA_MAX_SEQ}" by (rule acell_okD)
  have pos: "0 \<le> a_pos ?x" using acell_okD(2)[OF ok] assms(3) by simp
  then have ypos: "a_pos y \<noteq> -1"
    using assms(4) pos_imp_zdiv_nonneg_iff[of d "a_pos ?x"] y(1) by (auto simp: trunc_div_nonneg)
  have rm: "seq_pos_rm i (cells_of hs xs)
      = Some ((cells_of hs xs)\<lparr>kc_seq_pos := tracker (xs[i := no_cell])\<rparr>)"
    by (rule seq_pos_rm_tracker) (use assms sub in simp_all)
  let ?c = "(cells_of hs xs)\<lparr>kc_seq_pos := tracker (xs[i := no_cell]),
      kc_pos := (map a_pos xs)[i := a_pos y],
      kc_shift := (map a_shift xs)[i := a_shift ?x + (a_pos ?x - a_pos y)]\<rparr>"
  have add: "seq_pos_add i ?c = Some (?c\<lparr>kc_seq_pos := tracker (xs[i := no_cell, i := y])\<rparr>)"
    by (rule seq_pos_add_tracker) (use assms sub y ypos in simp_all)
  have fin: "?c\<lparr>kc_seq_pos := tracker (xs[i := no_cell, i := y]), kc_has_shift := True\<rparr>
      = cells_of True (xs[i := y])"
    unfolding y(2) using assms y(3) ypos used_update(3)[OF assms(1), of y]
    by (simp add: cells_of_def map_update list_update_same_conv)
  have "i32_ok (a_shift ?x + (a_pos ?x - a_pos y))" using y(4) unfolding y(2) .
  then have "cells_pos_div i d (cells_of hs xs) = Some (cells_of True (xs[i := y]))"
    using assms(1,3,4) fin by (simp add: cells_pos_div_def rm y(1) add)
  then show ?thesis by (simp add: y_def)
qed

subsubsection \<open>Queries\<close>

lemma cells_is_empty_of:
  "i < length xs \<Longrightarrow> acells_ok xs \<Longrightarrow> cells_is_empty i (cells_of hs xs) = Some (a_pos (xs ! i) = -1)"
  using acell_okD(2)[of "xs ! i"] by (auto simp: cells_is_empty_def cpp_assert_def)

lemma cells_pos_in_of:
  "i < length xs \<Longrightarrow> cells_pos_in i p0 p1 (cells_of hs xs) = Some (p0 \<le> a_pos (xs ! i) \<and> a_pos (xs ! i) < p1)"
  by (simp add: cells_pos_in_def)

lemma cells_seq_has_of:
  "i < length xs \<Longrightarrow> s < LLAMA_MAX_SEQ \<Longrightarrow> cells_seq_has i s (cells_of hs xs) = Some (s \<in> a_seq (xs ! i))"
  by (simp add: cells_seq_has_def)

lemma cells_pos_get_of:
  "i < length xs \<Longrightarrow> a_pos (xs ! i) \<noteq> -1 \<Longrightarrow> cells_pos_get i (cells_of hs xs) = Some (a_pos (xs ! i))"
  by (simp add: cells_pos_get_def)

lemma cells_get_shift_of:
  "i < length xs \<Longrightarrow> a_pos (xs ! i) \<noteq> -1 \<Longrightarrow> cells_get_shift i (cells_of hs xs) = Some (a_shift (xs ! i))"
  by (simp add: cells_get_shift_def)

lemma cells_seq_count_of:
  "i < length xs \<Longrightarrow> a_pos (xs ! i) \<noteq> -1 \<Longrightarrow> cells_seq_count i (cells_of hs xs) = Some (card (a_seq (xs ! i)))"
  by (simp add: cells_seq_count_def)

lemma first_in_singleton: "s \<in> set ss \<Longrightarrow> first_in ss {s} = int s"
  by (induction ss) auto

lemma cells_seq_get_of:
  assumes "i < length xs" "a_seq (xs ! i) = {s}" "s < LLAMA_MAX_SEQ"
  shows "cells_seq_get i (cells_of hs xs) = Some (int s)"
proof -
  have "first_in [0..<LLAMA_MAX_SEQ] {s} = int s"
    by (rule first_in_singleton) (use assms(3) in auto)
  with assms show ?thesis by (simp add: cells_seq_get_def)
qed

definition seq_positions :: "nat \<Rightarrow> acell list \<Rightarrow> int set" where
  "seq_positions s xs = a_pos ` {x \<in> set xs. s \<in> a_seq x}"

lemma dom_tracker: "dom (om_find (tracker xs s)) = seq_positions s xs"
  unfolding om_counts_dom[OF tracker_counts] seq_cnt_nonzero by (auto simp: seq_positions_def)

lemma tracker_inv: "om_inv (tracker xs s)"
  using tracker_counts[of xs s] by (simp add: om_counts_def)

lemma tracker_find_pos: "om_find (tracker xs s) p = Some n \<Longrightarrow> 0 < n"
  using tracker_counts[of xs s] by (auto simp: om_counts_def split: if_splits)

lemma cells_seq_pos_min_of:
  assumes "s < LLAMA_MAX_SEQ"
  shows "cells_seq_pos_min s (cells_of hs xs) =
    Some (if seq_positions s xs = {} then -1 else Min (seq_positions s xs))"
proof (cases "om_begin (tracker xs s)")
  case None
  then have "seq_positions s xs = {}"
    using om.first_None[OF tracker_inv, of xs s] by (simp add: dom_tracker)
  with None assms show ?thesis by (simp add: cells_seq_pos_min_def)
next
  case (Some pn)
  obtain p n where pn: "pn = (p, n)" by force
  have "p = Min (seq_positions s xs)" "om_find (tracker xs s) p = Some n"
    using om.first_Min[OF tracker_inv, of xs s p n] om.first_Some[OF tracker_inv, of xs s p n] Some pn
    by (auto simp: dom_tracker)
  moreover from this have "0 < n" "seq_positions s xs \<noteq> {}"
    using tracker_find_pos[of xs s p n] dom_tracker[of xs s] by auto
  ultimately show ?thesis using Some pn assms by (simp add: cells_seq_pos_min_def)
qed

lemma cells_seq_pos_max_of:
  assumes "s < LLAMA_MAX_SEQ"
  shows "cells_seq_pos_max s (cells_of hs xs) =
    Some (if seq_positions s xs = {} then -1 else Max (seq_positions s xs))"
proof (cases "om_rbegin (tracker xs s)")
  case None
  then have "seq_positions s xs = {}"
    using om.final_None[OF tracker_inv, of xs s] by (simp add: dom_tracker)
  with None assms show ?thesis by (simp add: cells_seq_pos_max_def)
next
  case (Some pn)
  obtain p n where pn: "pn = (p, n)" by force
  have "p = Max (seq_positions s xs)" "om_find (tracker xs s) p = Some n"
    using om.final_Max[OF tracker_inv, of xs s p n] om.final_Some[OF tracker_inv, of xs s p n] Some pn
    by (auto simp: dom_tracker)
  moreover from this have "0 < n" "seq_positions s xs \<noteq> {}"
    using tracker_find_pos[of xs s p n] dom_tracker[of xs s] by auto
  ultimately show ?thesis using Some pn assms by (simp add: cells_seq_pos_max_def)
qed

subsubsection \<open>Whole vectors, saving and restoring\<close>

lemma tracker_all_empty: "(\<forall>x \<in> set xs. a_seq x = {}) \<Longrightarrow> tracker xs s = []"
  by (simp add: tracker_def filter_False)

lemma cells_reset_eq: "cells_reset c = cells_of False (replicate (cells_size c) no_cell)"
  by (auto simp: cells_reset_def cells_of_def cells_size_def fun_eq_iff tracker_all_empty)

lemma cells_resize_eq: "cells_resize n c = cells_of False (replicate n no_cell)"
  by (simp add: cells_resize_def cells_reset_eq cells_size_def)

lemma tracker_cong:
  assumes "map a_pos xs = map a_pos ys" "map a_seq xs = map a_seq ys"
  shows "tracker xs = tracker ys"
proof
  fix s
  have len: "length xs = length ys" using assms(1) map_eq_imp_length_eq by blast
  then have "map a_pos (filter (\<lambda>x. s \<in> a_seq x) xs) = map a_pos (filter (\<lambda>x. s \<in> a_seq x) ys)"
    using assms by (induction xs ys rule: list_induct2) auto
  then show "tracker xs s = tracker ys s" by (simp add: tracker_def)
qed

lemma cells_reset_shift_of:
  "cells_reset_shift (cells_of hs xs) =
   cells_of False (map (\<lambda>x. ACell (a_pos x) (a_seq x) 0) xs)"
proof -
  have "tracker (map (\<lambda>x. ACell (a_pos x) (a_seq x) 0) xs) = tracker xs"
    by (rule tracker_cong) simp_all
  then show ?thesis by (auto simp: cells_reset_shift_def cells_of_def)
qed

text \<open>\<^verbatim>\<open>cp\<close> saves the positions and sequences of the listed cells.\<close>

lemma cells_cp_of:
  assumes "\<forall>i \<in> set idxs. i < length xs \<and> a_shift (xs ! i) = 0"
  shows "\<exists>r. cells_cp idxs (cells_of hs xs) = Some r \<and>
      kc_pos r = map (\<lambda>i. a_pos (xs ! i)) idxs \<and> kc_seq r = map (\<lambda>i. a_seq (xs ! i)) idxs"
proof -
  let ?n = "length idxs"
  let ?body = "\<lambda>j res. do {
        idx \<leftarrow> vec_at idxs j;
        p \<leftarrow> vec_at (kc_pos (cells_of hs xs)) idx;
        S \<leftarrow> vec_at (kc_seq (cells_of hs xs)) idx;
        sh \<leftarrow> vec_at (kc_shift (cells_of hs xs)) idx;
        cpp_assert (sh = 0);
        Some (res\<lparr>kc_pos := (kc_pos res)[j := p], kc_seq := (kc_seq res)[j := S]\<rparr>) }"
  have "\<exists>r. for_each ?body [0..<m] (cells_resize ?n cells_new) = Some r \<and>
      kc_pos r = map (\<lambda>i. a_pos (xs ! i)) (take m idxs) @ replicate (?n - m) (-1) \<and>
      kc_seq r = map (\<lambda>i. a_seq (xs ! i)) (take m idxs) @ replicate (?n - m) {}" if "m \<le> ?n" for m
    using that
  proof (induction m)
    case 0
    then show ?case by (simp add: cells_resize_eq)
  next
    case (Suc m)
    then obtain r where r: "for_each ?body [0..<m] (cells_resize ?n cells_new) = Some r"
      "kc_pos r = map (\<lambda>i. a_pos (xs ! i)) (take m idxs) @ replicate (?n - m) (-1)"
      "kc_seq r = map (\<lambda>i. a_seq (xs ! i)) (take m idxs) @ replicate (?n - m) {}"
      by auto
    have "idxs ! m < length xs" "a_shift (xs ! (idxs ! m)) = 0"
      using assms Suc.prems by simp_all
    then show ?case
      using Suc.prems r
      by (simp add: for_each_append list_update_append take_Suc_conv_app_nth replicate_diff_Suc)
  qed
  from this[of ?n] show ?thesis by (simp add: cells_cp_def)
qed

text \<open>\<^verbatim>\<open>set\<close> writes saved positions and sequences back; the pending shift stays (and is 0).\<close>

definition acell_put :: "acell \<Rightarrow> acell \<Rightarrow> acell" where
  "acell_put y x = ACell (a_pos y) (a_seq y) (a_shift x)"

lemma cells_set1_of:
  assumes i: "i < length xs" and ok: "acells_ok xs" and sh: "a_shift (xs ! i) = 0"
    and j: "j < length (kc_pos other)" "j < length (kc_seq other)"
    and y: "kc_pos other ! j = a_pos y" "kc_seq other ! j = a_seq y" "acell_ok y"
  shows "cells_set1 i j other (cells_of hs xs) = Some (cells_of hs (xs[i := acell_put y (xs ! i)]))"
proof -
  let ?x = "xs ! i" and ?z = "acell_put y (xs ! i)"
  have okx: "acell_ok ?x" using acells_ok_nth[OF ok i] .
  have sub: "a_seq ?x \<subseteq> {..<LLAMA_MAX_SEQ}" "a_seq y \<subseteq> {..<LLAMA_MAX_SEQ}"
    using acell_okD(1) okx y(3) by blast+
  have xe: "a_pos ?x = -1 \<Longrightarrow> a_seq ?x = {}" and ye: "a_pos y = -1 \<Longrightarrow> a_seq y = {}"
    using acell_okD(3)[OF okx] acell_okD(3)[OF y(3)] by auto
  have zf: "a_pos ?z = a_pos y" "a_seq ?z = a_seq y" "a_shift ?z = a_shift ?x"
    by (simp_all add: acell_put_def)
  define U where "U = (if a_pos ?x = -1 \<and> a_pos y \<noteq> -1 then insert i (kc_used (cells_of hs xs))
      else if a_pos ?x \<noteq> -1 \<and> a_pos y = -1 then kc_used (cells_of hs xs) - {i}
      else kc_used (cells_of hs xs))"
  have U: "U = {k. k < length xs \<and> a_pos (xs[i := ?z] ! k) \<noteq> -1}"
    using i by (auto simp: U_def nth_list_update zf)
  let ?c0 = "(cells_of hs xs)\<lparr>kc_used := U\<rparr>"
  let ?w = "ACell (-1) {} 0"
  let ?c1 = "?c0\<lparr>kc_seq_pos := tracker (xs[i := ?w])\<rparr>"
  have rm: "(if a_pos ?x \<noteq> -1 then seq_pos_rm i ?c0 else Some ?c0) = Some ?c1"
  proof (cases "a_pos ?x = -1")
    case True
    then have "tracker (xs[i := ?w]) = tracker xs"
      using tracker_update_other[OF i, of _ ?w] xe by (auto simp: fun_eq_iff)
    with True show ?thesis by (simp add: cells_of_def)
  next
    case False
    have "seq_pos_rm i ?c0 = Some ?c1"
      by (rule seq_pos_rm_tracker) (use i sub in simp_all)
    with False show ?thesis by simp
  qed
  let ?c2 = "?c1\<lparr>kc_pos := (map a_pos xs)[i := a_pos y], kc_seq := (map a_seq xs)[i := a_seq y]\<rparr>"
  have add: "(if a_pos y \<noteq> -1 then seq_pos_add i ?c2 else Some ?c2)
      = Some (?c2\<lparr>kc_seq_pos := tracker (xs[i := ?w, i := ?z])\<rparr>)"
  proof (cases "a_pos y = -1")
    case True
    then have "tracker (xs[i := ?w, i := ?z]) = tracker (xs[i := ?w])"
      using tracker_update_other[of i "xs[i := ?w]" _ ?z] i ye zf by (auto simp: fun_eq_iff)
    with True show ?thesis by simp
  next
    case False
    have "seq_pos_add i ?c2 = Some (?c2\<lparr>kc_seq_pos := tracker (xs[i := ?w, i := ?z])\<rparr>)"
      by (rule seq_pos_add_tracker) (use i sub zf in simp_all)
    with False show ?thesis by simp
  qed
  have fin: "?c2\<lparr>kc_seq_pos := tracker (xs[i := ?w, i := ?z])\<rparr> = cells_of hs (xs[i := ?z])"
    using U by (simp add: cells_of_def map_update zf)
  have used: "(if a_pos ?x \<noteq> -1 \<and> a_pos y = -1
        then (if a_pos ?x = -1 \<and> a_pos y \<noteq> -1
              then (cells_of hs xs)\<lparr>kc_used := insert i (kc_used (cells_of hs xs))\<rparr> else cells_of hs xs)
             \<lparr>kc_used := kc_used (if a_pos ?x = -1 \<and> a_pos y \<noteq> -1
              then (cells_of hs xs)\<lparr>kc_used := insert i (kc_used (cells_of hs xs))\<rparr> else cells_of hs xs)
             - {i}\<rparr>
        else (if a_pos ?x = -1 \<and> a_pos y \<noteq> -1
              then (cells_of hs xs)\<lparr>kc_used := insert i (kc_used (cells_of hs xs))\<rparr> else cells_of hs xs))
      = ?c0"
    by (auto simp: U_def)
  have "vec_at (kc_pos (cells_of hs xs)) i = Some (a_pos ?x)"
    "vec_at (kc_pos other) j = Some (a_pos y)" "vec_at (kc_seq other) j = Some (a_seq y)"
    using i j y by simp_all
  then show ?thesis
    unfolding cells_set1_def using rm add fin i sh
    by (simp only: Option.bind.simps used) (cases "a_pos y = -1"; simp add: zf nth_list_update)
qed

definition put_all :: "nat list \<Rightarrow> 'a list \<Rightarrow> 'a list \<Rightarrow> 'a list" where
  "put_all idxs ys xs = fold (\<lambda>(i, y) xs. xs[i := y]) (zip idxs ys) xs"

lemma length_put_all [simp]: "length (put_all idxs ys xs) = length xs"
proof -
  have "length (fold (\<lambda>(i, y) xs. xs[i := y]) ps xs) = length xs" for ps :: "(nat \<times> 'a) list"
    by (induction ps arbitrary: xs) auto
  then show ?thesis by (simp add: put_all_def)
qed

lemma put_all_Nil [simp]: "put_all [] [] xs = xs"
  by (simp add: put_all_def)

lemma put_all_snoc:
  "length ks = length ys \<Longrightarrow> put_all (ks @ [i]) (ys @ [y]) xs = (put_all ks ys xs)[i := y]"
  by (simp add: put_all_def)

lemma put_all_nth_P:
  assumes "length ks = length ys" "\<And>j. j < length ys \<Longrightarrow> P (ks ! j) (ys ! j)"
    "\<And>k. k < length xs \<Longrightarrow> P k (xs ! k)" "k < length xs"
  shows "P k (put_all ks ys xs ! k)"
  using assms
proof (induction ks arbitrary: ys rule: rev_induct)
  case (snoc i ks)
  then obtain zs y where ys: "ys = zs @ [y]" "length ks = length zs"
    by (metis length_append_singleton append_butlast_last_id length_butlast diff_Suc_1 list.size(3)
        nat.distinct(1))
  have IH: "P k (put_all ks zs xs ! k)"
  proof (rule snoc.IH)
    show "P (ks ! j) (zs ! j)" if "j < length zs" for j
      using snoc.prems(2)[of j] that ys by (simp add: nth_append)
  qed (use ys snoc.prems in auto)
  have "P i y" using snoc.prems(2)[of "length zs"] ys by (simp add: nth_append)
  with IH snoc.prems(4) ys show ?case by (cases "i = k") (auto simp: put_all_snoc)
qed simp

lemma put_all_restore:
  assumes "length zs = length xs" "\<And>k. k < length xs \<Longrightarrow> k \<notin> set ks \<Longrightarrow> zs ! k = xs ! k"
  shows "put_all ks (map (\<lambda>i. xs ! i) ks) zs = xs"
  using assms
proof (induction ks arbitrary: zs)
  case Nil
  then show ?case by (auto intro: nth_equalityI)
next
  case (Cons i ks)
  have "put_all ks (map (\<lambda>i. xs ! i) ks) (zs[i := xs ! i]) = xs"
  proof (rule Cons.IH)
    fix k assume k: "k < length xs" "k \<notin> set ks"
    show "zs[i := xs ! i] ! k = xs ! k"
      using Cons.prems k by (cases "k = i") auto
  qed (use Cons.prems in simp)
  then show ?case by (simp add: put_all_def)
qed

lemma cells_set_of:
  assumes "\<forall>i \<in> set idxs. i < length xs" "acells_ok xs" "\<And>i. i \<in> set idxs \<Longrightarrow> a_shift (xs ! i) = 0"
    "length ys = length idxs" "acells_ok ys" "\<And>y. y \<in> set ys \<Longrightarrow> a_shift y = 0"
    "kc_pos other = map a_pos ys" "kc_seq other = map a_seq ys"
  shows "cells_set idxs other (cells_of hs xs) = Some (cells_of hs (put_all idxs ys xs))"
proof -
  let ?put = "\<lambda>m. put_all (take m idxs) (take m ys) xs"
  have ok: "acells_ok (?put m)" for m
  proof -
    have "acell_ok (?put m ! k)" if "k < length xs" for k
      by (rule put_all_nth_P[where P = "\<lambda>_. acell_ok"]) (use assms that in auto)
    then show ?thesis by (auto simp: in_set_conv_nth)
  qed
  have sh: "a_shift (?put m ! k) = 0" if "k \<in> set idxs" for m k
    using put_all_nth_P[where P = "\<lambda>k y. k \<in> set idxs \<longrightarrow> a_shift y = 0" and ks = "take m idxs"
        and ys = "take m ys" and xs = xs and k = k] assms that by auto
  have "for_each (\<lambda>j c. cells_set1 (idxs ! j) j other c) [0..<m] (cells_of hs xs)
      = Some (cells_of hs (?put m))" if "m \<le> length idxs" for m
    using that
  proof (induction m)
    case (Suc m)
    have m: "m < length idxs" "idxs ! m < length xs" using assms Suc.prems by auto
    have "cells_set1 (idxs ! m) m other (cells_of hs (?put m))
        = Some (cells_of hs ((?put m)[idxs ! m := acell_put (ys ! m) (?put m ! (idxs ! m))]))"
      by (rule cells_set1_of) (use assms m ok sh in auto)
    moreover have "acell_put (ys ! m) (?put m ! (idxs ! m)) = ys ! m"
      using sh[of "idxs ! m" m] m assms(4,6)
      by (cases "ys ! m") (metis acell.sel acell_put_def nth_mem)
    moreover have "?put (Suc m) = (?put m)[idxs ! m := ys ! m]"
      using m assms(4) by (simp add: take_Suc_conv_app_nth put_all_snoc)
    ultimately show ?case using Suc by (simp add: for_each_append)
  qed simp
  from this[of "length idxs"] show ?thesis using assms by (simp add: cells_set_def)
qed

text \<open>Restoring saved cells undoes any change to those cells that left their shift at 0.\<close>

lemma cells_cp_set_restore:
  assumes "\<forall>i \<in> set idxs. i < length xs" "acells_ok xs" "\<And>i. i \<in> set idxs \<Longrightarrow> a_shift (xs ! i) = 0"
    "acells_ok zs" "length zs = length xs" "\<And>i. i \<in> set idxs \<Longrightarrow> a_shift (zs ! i) = 0"
    "\<And>k. k < length xs \<Longrightarrow> k \<notin> set idxs \<Longrightarrow> zs ! k = xs ! k"
  shows "\<exists>r. cells_cp idxs (cells_of hs xs) = Some r \<and>
      cells_set idxs r (cells_of hs' zs) = Some (cells_of hs' xs)"
proof -
  obtain r where r: "cells_cp idxs (cells_of hs xs) = Some r"
      "kc_pos r = map (\<lambda>i. a_pos (xs ! i)) idxs" "kc_seq r = map (\<lambda>i. a_seq (xs ! i)) idxs"
    using cells_cp_of[of idxs xs hs] assms by blast
  have "cells_set idxs r (cells_of hs' zs) = Some (cells_of hs' (put_all idxs (map (\<lambda>i. xs ! i) idxs) zs))"
    by (rule cells_set_of) (use assms r in \<open>auto simp: o_def\<close>)
  then show ?thesis
    using r(1) put_all_restore[of zs xs idxs] assms by simp
qed

lemmas cells_ops_of = cells_rm_of cells_seq_rm_of cells_seq_keep_of cells_seq_add_of cells_pos_set_of
  cells_pos_add_of cells_pos_div_of

lemmas cells_queries_of = cells_is_empty_of cells_pos_in_of cells_seq_has_of cells_pos_get_of
  cells_get_shift_of cells_seq_count_of cells_seq_get_of cells_seq_pos_min_of cells_seq_pos_max_of

subsection \<open>Reachable states\<close>

lemma acell_ok_rm: "acell_ok x \<Longrightarrow> acell_ok (acell_rm s x)"
  by (auto simp: acell_ok_def acell_rm_def)

lemma acell_ok_keep: "acell_ok x \<Longrightarrow> acell_ok (acell_keep s x)"
  by (auto simp: acell_ok_def acell_keep_def)

lemma acell_ok_add: "acell_ok x \<Longrightarrow> a_pos x \<noteq> -1 \<Longrightarrow> s < LLAMA_MAX_SEQ \<Longrightarrow> acell_ok (acell_add s x)"
  by (auto simp: acell_ok_def acell_add_def)

lemma acell_ok_move:
  "acell_ok x \<Longrightarrow> a_pos x \<noteq> -1 \<Longrightarrow> i32_ok (a_pos x + d) \<Longrightarrow> i32_ok (a_shift x + d) \<Longrightarrow> acell_ok (acell_move d x)"
  by (auto simp: acell_ok_def acell_move_def i32_ok_def)

lemma acell_ok_div:
  assumes "acell_ok x" "a_pos x \<noteq> -1" "0 < d" "i32_ok (a_shift (acell_div d x))"
  shows "acell_ok (acell_div d x)"
proof -
  have x: "0 \<le> a_pos x" "a_pos x \<le> INT32_MAX" "a_seq x \<subseteq> {..<LLAMA_MAX_SEQ}"
    using assms(1,2) by (auto simp: acell_ok_def)
  have "0 \<le> trunc_div (a_pos x) d" "trunc_div (a_pos x) d \<le> a_pos x"
    using x(1) assms(3) zdiv_mono2[of "a_pos x" 1 d]
    by (auto simp: trunc_div_nonneg pos_imp_zdiv_nonneg_iff)
  then show ?thesis using x assms(4) by (auto simp: acell_ok_def acell_div_def)
qed

lemma acell_ok_put: "acell_ok x \<Longrightarrow> acell_ok y \<Longrightarrow> a_shift x = 0 \<Longrightarrow> acell_ok (acell_put y x)"
  by (auto simp: acell_ok_def acell_put_def i32_ok_def)

lemma acell_ok_fresh: "0 \<le> p \<Longrightarrow> p \<le> INT32_MAX \<Longrightarrow> S \<subseteq> {..<LLAMA_MAX_SEQ} \<Longrightarrow> acell_ok (ACell p S 0)"
  by (auto simp: acell_ok_def i32_ok_def)

lemmas acell_oks = acell_ok_rm acell_ok_keep acell_ok_add acell_ok_move acell_ok_div acell_ok_put

text \<open>
  A client's calls, each under the condition its documentation states ("call only if \<dots>"); \<open>pos_set\<close> is
  given a position, and \<open>pos_add\<close>/\<open>pos_div\<close> do not overflow.
\<close>

inductive cells_step :: "kv_cells \<Rightarrow> kv_cells \<Rightarrow> bool" where
  step_reset: "cells_step c (cells_reset c)"
| step_resize: "cells_step c (cells_resize n c)"
| step_reset_shift: "cells_step c (cells_reset_shift c)"
| step_rm: "i < cells_size c \<Longrightarrow> kc_pos c ! i \<noteq> -1 \<Longrightarrow> cells_rm i c = Some c' \<Longrightarrow> cells_step c c'"
| step_seq_rm: "i < cells_size c \<Longrightarrow> s \<in> kc_seq c ! i \<Longrightarrow> cells_seq_rm i s c = Some (b, c') \<Longrightarrow> cells_step c c'"
| step_seq_keep: "i < cells_size c \<Longrightarrow> s < LLAMA_MAX_SEQ \<Longrightarrow> kc_pos c ! i = -1 \<or> kc_seq c ! i \<noteq> {} \<Longrightarrow>
    cells_seq_keep i s c = Some (b, c') \<Longrightarrow> cells_step c c'"
| step_seq_add: "i < cells_size c \<Longrightarrow> kc_pos c ! i \<noteq> -1 \<Longrightarrow> s < LLAMA_MAX_SEQ \<Longrightarrow> s \<notin> kc_seq c ! i \<Longrightarrow>
    cells_seq_add i s c = Some c' \<Longrightarrow> cells_step c c'"
| step_pos_set: "i < cells_size c \<Longrightarrow> kc_pos c ! i = -1 \<Longrightarrow> 0 \<le> p \<Longrightarrow> p \<le> INT32_MAX \<Longrightarrow>
    cells_pos_set i p c = Some c' \<Longrightarrow> cells_step c c'"
| step_pos_add: "i < cells_size c \<Longrightarrow> kc_pos c ! i \<noteq> -1 \<Longrightarrow> i32_ok (kc_pos c ! i + d) \<Longrightarrow>
    i32_ok (kc_shift c ! i + d) \<Longrightarrow> cells_pos_add i d c = Some (b, c') \<Longrightarrow> cells_step c c'"
| step_pos_div: "i < cells_size c \<Longrightarrow> kc_pos c ! i \<noteq> -1 \<Longrightarrow> 0 < d \<Longrightarrow>
    i32_ok (kc_shift c ! i + (kc_pos c ! i - trunc_div (kc_pos c ! i) d)) \<Longrightarrow>
    cells_pos_div i d c = Some c' \<Longrightarrow> cells_step c c'"

inductive cells_reachable :: "kv_cells \<Rightarrow> bool" where
  reach_new: "cells_reachable cells_new"
| reach_step: "cells_reachable c \<Longrightarrow> cells_step c c' \<Longrightarrow> cells_reachable c'"

lemma acells_ok_update: "acells_ok xs \<Longrightarrow> acell_ok y \<Longrightarrow> acells_ok (xs[i := y])"
  by (rule set_list_update_subset_P)

lemma in_set_updateD: "x \<in> set (xs[i := y]) \<Longrightarrow> x = y \<or> x \<in> set xs"
  using set_update_subset_insert[of xs i y] by auto

lemma acells_ok_replicate [simp]: "acells_ok (replicate n no_cell)"
  by simp

lemma cells_step_inv: "cells_step c c' \<Longrightarrow> cells_inv c \<Longrightarrow> cells_inv c'"
proof (induction rule: cells_step.induct)
  case (step_reset c)
  then show ?case by (simp add: cells_reset_eq)
next
  case (step_resize c n)
  then show ?case by (simp add: cells_resize_eq)
next
  case (step_reset_shift c)
  from step_reset_shift.prems show ?case
    by (elim cells_invE) (auto simp: cells_reset_shift_of acell_ok_def i32_ok_def)
next
  case (step_rm i c c')
  from step_rm.prems show ?case
    using step_rm.hyps by (elim cells_invE) (auto simp: cells_rm_of dest!: in_set_updateD)
next
  case (step_seq_rm i c s b c')
  from step_seq_rm.prems show ?case
    using step_seq_rm.hyps
    by (elim cells_invE) (auto simp: cells_seq_rm_of acell_oks dest!: in_set_updateD)
next
  case (step_seq_keep i c s b c')
  from step_seq_keep.prems obtain hs xs where xs: "c = cells_of hs xs" "acells_ok xs" by (rule cells_invE)
  with step_seq_keep.hyps have "xs ! i = no_cell \<or> a_seq (xs ! i) \<noteq> {}"
    using acell_okD(3)[of "xs ! i"] by auto
  with xs step_seq_keep.hyps show ?case
    by (auto simp: cells_seq_keep_of acell_ok_keep dest!: in_set_updateD)
next
  case (step_seq_add i c s c')
  from step_seq_add.prems show ?case
    using step_seq_add.hyps
    by (elim cells_invE) (auto simp: cells_seq_add_of acell_oks dest!: in_set_updateD)
next
  case (step_pos_set i c p c')
  from step_pos_set.prems obtain hs xs where xs: "c = cells_of hs xs" "acells_ok xs" by (rule cells_invE)
  with step_pos_set.hyps have "xs ! i = no_cell" using acell_okD(3)[of "xs ! i"] by simp
  with xs step_pos_set.hyps show ?case
    by (auto simp: cells_pos_set_of acell_ok_fresh dest!: in_set_updateD)
next
  case (step_pos_add i c d b c')
  from step_pos_add.prems show ?case
    using step_pos_add.hyps
    by (elim cells_invE) (auto simp: cells_pos_add_of acell_oks dest!: in_set_updateD)
next
  case (step_pos_div i c d c')
  from step_pos_div.prems obtain hs xs where xs: "c = cells_of hs xs" "acells_ok xs" by (rule cells_invE)
  have sh: "i32_ok (a_shift (acell_div d (xs ! i)))"
    using step_pos_div.hyps xs by (simp add: acell_div_def)
  with xs step_pos_div.hyps show ?case
    by (auto simp: cells_pos_div_of acell_oks dest!: in_set_updateD)
qed

lemma cells_reachable_inv: "cells_reachable c \<Longrightarrow> cells_inv c"
proof (induction rule: cells_reachable.induct)
  case reach_new
  have new: "cells_new = cells_of False []"
    by (auto simp: cells_new_def cells_of_def tracker_def)
  show ?case unfolding new cells_inv_of by simp
next
  case (reach_step c c')
  then show ?case by (blast intro: cells_step_inv)
qed

subsection \<open>Correctness of the cell metadata\<close>

definition cells_owned_by :: "nat \<Rightarrow> kv_cells \<Rightarrow> nat set" where
  "cells_owned_by s c = {i. i < cells_size c \<and> s \<in> kc_seq c ! i}"

lemma cells_owned_by_positions:
  "(\<lambda>i. kc_pos (cells_of hs xs) ! i) ` cells_owned_by s (cells_of hs xs) = seq_positions s xs"
  by (force simp: cells_owned_by_def seq_positions_def in_set_conv_nth)

lemma seq_cnt_card:
  "seq_cnt xs s p = card {i. i < length xs \<and> s \<in> a_seq (xs ! i) \<and> a_pos (xs ! i) = p}"
  by (simp add: seq_cnt_def length_filter_conv_card)

lemma cells_example_reachable:
  "cells_reachable (cells_of False [ACell 5 {1} 0, no_cell])"
proof -
  have "cells_reachable (cells_resize 2 cells_new)"
    by (intro reach_step[OF reach_new] step_resize)
  then have 1: "cells_reachable (cells_of False [no_cell, no_cell])"
    by (simp add: cells_resize_eq numeral_2_eq_2)
  have "cells_pos_set 0 5 (cells_of False [no_cell, no_cell]) = Some (cells_of False [ACell 5 {} 0, no_cell])"
    by (simp add: cells_pos_set_of)
  then have 2: "cells_reachable (cells_of False [ACell 5 {} 0, no_cell])"
    by (intro reach_step[OF 1] step_pos_set[of 0 _ 5]) auto
  have "cells_seq_add 0 1 (cells_of False [ACell 5 {} 0, no_cell]) = Some (cells_of False [ACell 5 {1} 0, no_cell])"
    by (subst cells_seq_add_of) (auto simp: acell_add_def acell_ok_def i32_ok_def)
  then show ?thesis
    by (intro reach_step[OF 2] step_seq_add[of 0 _ 1]) auto
qed

text \<open>
  C4. \<^verbatim>\<open>seq_pos_min\<close> and \<^verbatim>\<open>seq_pos_max\<close> read the ends of an ordered counter map; in every state a client can
  reach, through any history of the mutators, they return the least and the greatest position among
  the cells that the sequence owns, and -1 when it owns none.
\<close>

theorem cells_seq_pos_extremal:
  assumes "cells_reachable c" "s < LLAMA_MAX_SEQ"
  shows "cells_seq_pos_min s c = Some (if cells_owned_by s c = {} then -1
           else Min ((\<lambda>i. kc_pos c ! i) ` cells_owned_by s c)) \<and>
         cells_seq_pos_max s c = Some (if cells_owned_by s c = {} then -1
           else Max ((\<lambda>i. kc_pos c ! i) ` cells_owned_by s c))"
proof -
  obtain hs xs where c: "c = cells_of hs xs"
    using cells_reachable_inv[OF assms(1)] by (rule cells_invE)
  have "cells_owned_by s c = {} \<longleftrightarrow> seq_positions s xs = {}"
    unfolding c cells_owned_by_positions[of hs xs s, symmetric] by simp
  then show ?thesis
    using assms(2) unfolding c
    by (simp only: cells_seq_pos_min_of cells_seq_pos_max_of cells_owned_by_positions)
qed

theorem cells_seq_pos_extremal_witness:
  "cells_seq_pos_max 1 (cells_of False [ACell 5 {1} 0, no_cell]) = Some 5"
proof -
  have own: "cells_owned_by 1 (cells_of False [ACell 5 {1} 0, no_cell]) = {0}"
    by (auto simp: cells_owned_by_def less_Suc_eq)
  show ?thesis
    using cells_seq_pos_extremal[OF cells_example_reachable, of 1] unfolding own by simp
qed

text \<open>
  C5. The redundant indices agree with the cells in every reachable state: \<^verbatim>\<open>used\<close> holds exactly the
  cells with a position, and \<^verbatim>\<open>seq_pos[s][p]\<close> is the number of cells at position \<open>p\<close> that \<open>s\<close> owns, with
  no entry when there is none.
\<close>

theorem cells_indices_consistent:
  assumes "cells_reachable c"
  shows "kc_used c = {i. i < cells_size c \<and> kc_pos c ! i \<noteq> -1} \<and>
     om_find (kc_seq_pos c s) p =
       (let n = card {i \<in> cells_owned_by s c. kc_pos c ! i = p} in
        if n = 0 then None else Some (int n))"
proof -
  obtain hs xs where c: "c = cells_of hs xs"
    using cells_reachable_inv[OF assms] by (rule cells_invE)
  have "{i \<in> cells_owned_by s c. kc_pos c ! i = p}
      = {i. i < length xs \<and> s \<in> a_seq (xs ! i) \<and> a_pos (xs ! i) = p}"
    by (auto simp: c cells_owned_by_def)
  then have "card {i \<in> cells_owned_by s c. kc_pos c ! i = p} = seq_cnt xs s p"
    by (simp add: seq_cnt_card)
  moreover have "om_find (tracker xs s) p = (if seq_cnt xs s p = 0 then None else Some (int (seq_cnt xs s p)))"
    using tracker_counts[of xs s] by (simp add: om_counts_def)
  ultimately show ?thesis by (auto simp: c Let_def)
qed

theorem cells_indices_consistent_witness:
  "kc_used (cells_of False [ACell 5 {1} 0, no_cell]) =
     {i. i < cells_size (cells_of False [ACell 5 {1} 0, no_cell]) \<and>
         kc_pos (cells_of False [ACell 5 {1} 0, no_cell]) ! i \<noteq> -1}"
  using cells_indices_consistent[OF cells_example_reachable] by blast

text \<open>
  C6. No assertion of the class can fail in a reachable state when a mutator is called as documented:
  \<^verbatim>\<open>rm\<close>, \<^verbatim>\<open>seq_rm\<close>, \<^verbatim>\<open>seq_keep\<close>, \<^verbatim>\<open>seq_add\<close>, \<^verbatim>\<open>pos_set\<close>, \<^verbatim>\<open>pos_add\<close> and \<^verbatim>\<open>pos_div\<close> all return, including
  the counter decrements inside them.
\<close>

theorem cells_mutators_return:
  assumes "cells_reachable c" "i < cells_size c" "s < LLAMA_MAX_SEQ"
  shows "(kc_pos c ! i \<noteq> -1 \<longrightarrow> (\<exists>c'. cells_rm i c = Some c')) \<and>
    (s \<in> kc_seq c ! i \<longrightarrow> (\<exists>r. cells_seq_rm i s c = Some r)) \<and>
    (kc_pos c ! i = -1 \<or> kc_seq c ! i \<noteq> {} \<longrightarrow> (\<exists>r. cells_seq_keep i s c = Some r)) \<and>
    (kc_pos c ! i \<noteq> -1 \<and> s \<notin> kc_seq c ! i \<longrightarrow> (\<exists>c'. cells_seq_add i s c = Some c')) \<and>
    (kc_pos c ! i = -1 \<and> 0 \<le> p \<longrightarrow> (\<exists>c'. cells_pos_set i p c = Some c')) \<and>
    (kc_pos c ! i \<noteq> -1 \<and> i32_ok (kc_pos c ! i + d) \<and> i32_ok (kc_shift c ! i + d) \<longrightarrow>
      (\<exists>r. cells_pos_add i d c = Some r)) \<and>
    (kc_pos c ! i \<noteq> -1 \<and> 0 < d \<and>
      i32_ok (kc_shift c ! i + (kc_pos c ! i - trunc_div (kc_pos c ! i) d)) \<longrightarrow>
      (\<exists>c'. cells_pos_div i d c = Some c'))"
proof -
  obtain hs xs where c: "c = cells_of hs xs" and ok: "acells_ok xs"
    using cells_reachable_inv[OF assms(1)] by (rule cells_invE)
  have i: "i < length xs" using assms(2) c by simp
  have empty: "a_pos (xs ! i) = -1 \<Longrightarrow> xs ! i = no_cell"
    using acell_okD(3)[of "xs ! i"] ok i by simp
  have keep: "a_pos (xs ! i) = -1 \<or> a_seq (xs ! i) \<noteq> {} \<Longrightarrow> xs ! i = no_cell \<or> a_seq (xs ! i) \<noteq> {}"
    using empty by blast
  have div: "i32_ok (a_shift (acell_div d (xs ! i))) \<longleftrightarrow>
      i32_ok (kc_shift c ! i + (kc_pos c ! i - trunc_div (kc_pos c ! i) d))"
    by (simp add: c i acell_div_def)
  show ?thesis
    using i ok assms(3) empty div
      cells_rm_of[OF i ok, of hs] cells_seq_rm_of[OF i ok, of s hs] cells_seq_keep_of[OF i ok assms(3) keep, of hs]
      cells_seq_add_of[OF i ok _ assms(3), of hs] cells_pos_set_of[OF i empty, of p hs]
      cells_pos_add_of[OF i ok, of d hs] cells_pos_div_of[OF i ok, of d hs]
    unfolding c by simp
qed

theorem cells_mutators_return_witness:
  "\<exists>r. cells_seq_rm 0 1 (cells_of False [ACell 5 {1} 0, no_cell]) = Some r"
  using cells_mutators_return[OF cells_example_reachable, of 0 1] by simp

text \<open>
  C7. Saving cells with \<^verbatim>\<open>cp\<close> and writing them back with \<^verbatim>\<open>set\<close> undoes every change made to those cells
  in between: if \<open>d\<close> is any reachable state that agrees with \<open>c\<close> outside the saved cells (which have no
  pending shift), then the restored state is \<open>c\<close>, its used set and its position counters included.
\<close>

theorem cells_cp_set_roundtrip:
  assumes "cells_reachable c" "cells_reachable d" "cells_size d = cells_size c"
    "\<And>i. i \<in> set idxs \<Longrightarrow> i < cells_size c \<and> kc_shift c ! i = 0 \<and> kc_shift d ! i = 0"
    "\<And>i. i < cells_size c \<Longrightarrow> i \<notin> set idxs \<Longrightarrow>
       kc_pos d ! i = kc_pos c ! i \<and> kc_seq d ! i = kc_seq c ! i \<and> kc_shift d ! i = kc_shift c ! i"
  shows "\<exists>r. cells_cp idxs c = Some r \<and>
             cells_set idxs r d = Some (c\<lparr>kc_has_shift := kc_has_shift d\<rparr>)"
proof -
  obtain hs xs where c: "c = cells_of hs xs" "acells_ok xs"
    using cells_reachable_inv[OF assms(1)] by (rule cells_invE)
  obtain hs' zs where d: "d = cells_of hs' zs" "acells_ok zs"
    using cells_reachable_inv[OF assms(2)] by (rule cells_invE)
  have len: "length zs = length xs" using assms(3) c d by simp
  have idx: "i < length xs \<and> a_shift (xs ! i) = 0 \<and> a_shift (zs ! i) = 0" if "i \<in> set idxs" for i
    using assms(4)[OF that] c d len by auto
  have upd: "cells_of hs' xs = c\<lparr>kc_has_shift := kc_has_shift d\<rparr>"
    by (simp add: c d cells_of_def)
  have "\<exists>r. cells_cp idxs (cells_of hs xs) = Some r \<and>
      cells_set idxs r (cells_of hs' zs) = Some (cells_of hs' xs)"
  proof (rule cells_cp_set_restore)
    fix k assume k: "k < length xs" "k \<notin> set idxs"
    then show "zs ! k = xs ! k" using assms(5)[of k] c d len by (simp add: acell.expand)
  qed (use idx c d len in auto)
  then show ?thesis using upd c(1) d(1) by simp
qed

theorem cells_cp_set_roundtrip_witness:
  "\<exists>r. cells_cp [0] (cells_of False [ACell 5 {1} 0, no_cell]) = Some r \<and>
       cells_set [0] r (cells_of False [no_cell, no_cell]) = Some (cells_of False [ACell 5 {1} 0, no_cell])"
proof -
  have "cells_reachable (cells_resize 2 cells_new)"
    by (intro reach_step[OF reach_new] step_resize)
  then have "cells_reachable (cells_of False [no_cell, no_cell])"
    by (simp add: cells_resize_eq numeral_2_eq_2)
  note rt = cells_cp_set_roundtrip[OF cells_example_reachable this, of "[0]"]
  have upd: "(cells_of hs xs)\<lparr>kc_has_shift := hs'\<rparr> = cells_of hs' xs" for hs hs' xs
    by (simp add: cells_of_def)
  show ?thesis
    using rt unfolding cells_of_sel upd by (simp add: less_Suc_eq)
qed

text \<open>
  The pending shift of a cell records its move: after \<^verbatim>\<open>pos_add\<close> it has grown by the change of the
  position. \<^verbatim>\<open>pos_div\<close> updates it with the opposite sign: after it the shift has grown by the old
  position minus the new one, although both feed the same K-shift of the cached keys.
\<close>

theorem cells_shift_direction:
  assumes "cells_reachable c" "i < cells_size c" "kc_pos c ! i \<noteq> -1"
  shows "(cells_pos_add i d c = Some (False, c') \<and> i32_ok (kc_pos c ! i + d) \<and> i32_ok (kc_shift c ! i + d) \<longrightarrow>
        kc_shift c' ! i - kc_shift c ! i = kc_pos c' ! i - kc_pos c ! i) \<and>
    (cells_pos_div i d c = Some c' \<and> 0 < d \<and>
        i32_ok (kc_shift c ! i + (kc_pos c ! i - trunc_div (kc_pos c ! i) d)) \<longrightarrow>
        kc_shift c' ! i - kc_shift c ! i = kc_pos c ! i - kc_pos c' ! i)"
proof -
  obtain hs xs where c: "c = cells_of hs xs" and ok: "acells_ok xs"
    using cells_reachable_inv[OF assms(1)] by (rule cells_invE)
  have i: "i < length xs" and pos: "a_pos (xs ! i) \<noteq> -1" using assms(2,3) c by auto
  show ?thesis
    using i cells_pos_add_of[OF i ok pos, of d hs] cells_pos_div_of[OF i ok pos, of d hs]
    unfolding c by (auto simp: acell_move_def acell_div_def)
qed

theorem cells_shift_direction_witness:
  "\<exists>c'. cells_pos_div 0 2 (cells_of False [ACell 5 {1} 0, no_cell]) = Some c' \<and>
        kc_pos c' ! 0 = 2 \<and> kc_shift c' ! 0 = 3"
proof -
  let ?c = "cells_of False [ACell 5 {1} 0, no_cell]"
  obtain c' where c': "cells_pos_div 0 2 ?c = Some c'" "kc_pos c' ! 0 = 2"
    using cells_pos_div_of[of 0 "[ACell 5 {1} 0, no_cell]" 2 False]
    by (simp add: acell_div_def trunc_div_nonneg i32_ok_def acell_ok_def)
  moreover have "kc_shift c' ! 0 - kc_shift ?c ! 0 = kc_pos ?c ! 0 - kc_pos c' ! 0"
    using cells_shift_direction[OF cells_example_reachable, of 0 2 c'] c'
    by (simp add: trunc_div_nonneg i32_ok_def)
  ultimately show ?thesis by simp
qed

end
