(* ===== verification/Batch.thy ===== *)
theory Batch
  imports KV_Cells "HOL-Library.Word"
begin

text \<open>
  \<^verbatim>\<open>llama-batch.h\<close> and \<^verbatim>\<open>llama-batch.cpp\<close>: the batch allocator, which validates an input batch, fills
  in the fields the caller left out and cuts the batch into micro-batches.

  C pointers that may be null are options, the arrays behind them lists; an access past the end of an
  array is undefined behaviour and gives \<open>None\<close>. Token ids, positions and sequence ids are \<^verbatim>\<open>int32_t\<close>
  values kept as \<open>int\<close>, embeddings are the bit patterns of their floats. The vectors \<^verbatim>\<open>pos\<close>, \<^verbatim>\<open>n_seq_id\<close>,
  \<^verbatim>\<open>seq_id\<close> and \<^verbatim>\<open>output\<close> of the class only own the storage of generated fields, which \<open>ba_batch\<close>
  points to, so they have no field of their own here. Debug output is left out.
\<close>

record llama_batch =
  b_n_tokens :: int
  b_token :: "int list option"
  b_embd :: "32 word list option"
  b_pos :: "int list option"
  b_n_seq_id :: "int list option"
  b_seq_id :: "int list list option"
  b_logits :: "int list option"

record llama_ubatch =
  ub_equal_seqs :: bool
  ub_n_tokens :: nat
  ub_n_seq_tokens :: nat
  ub_n_seqs :: nat
  ub_n_seqs_unq :: nat
  ub_token :: "int list option"
  ub_embd :: "32 word list option"
  ub_pos :: "int list"
  ub_n_seq_id :: "int list"
  ub_seq_id :: "int list list"
  ub_seq_id_unq :: "int list"
  ub_seq_idx :: "int list"
  ub_output :: "int list"

text \<open>What \<^verbatim>\<open>init\<close> asks of the memory module: the first and last position of a sequence.\<close>

record mem_view =
  mv_seq_pos_min :: "nat \<Rightarrow> int"
  mv_seq_pos_max :: "nat \<Rightarrow> int"

record llama_batch_allocr =
  ba_n_pos_per_embd :: nat
  ba_batch :: llama_batch
  ba_n_embd :: nat
  ba_n_seq_max :: nat
  ba_n_outputs :: nat
  ba_seq_id_unq :: "int list"
  ba_seq_idx :: "int list"
  ba_has_cpl :: bool
  ba_seq_pos :: "nat \<Rightarrow> int set"
  ba_seq_cpl :: "nat \<Rightarrow> nat \<Rightarrow> bool"
  ba_seq_set :: "nat set list"
  ba_seq_set_map :: "nat set \<Rightarrow> nat list"
  ba_out_ids :: "nat list"
  ba_n_used :: nat
  ba_used :: "bool list"

definition no_batch :: llama_batch where
  "no_batch = \<lparr>b_n_tokens = 0, b_token = None, b_embd = None, b_pos = None, b_n_seq_id = None,
     b_seq_id = None, b_logits = None\<rparr>"

definition no_ubatch :: llama_ubatch where
  "no_ubatch = \<lparr>ub_equal_seqs = False, ub_n_tokens = 0, ub_n_seq_tokens = 0, ub_n_seqs = 0,
     ub_n_seqs_unq = 0, ub_token = None, ub_embd = None, ub_pos = [], ub_n_seq_id = [],
     ub_seq_id = [], ub_seq_id_unq = [], ub_seq_idx = [], ub_output = []\<rparr>"

definition batch_allocr_new :: "nat \<Rightarrow> llama_batch_allocr" where
  "batch_allocr_new n_pos_per_embd = \<lparr>ba_n_pos_per_embd = n_pos_per_embd, ba_batch = no_batch,
     ba_n_embd = 0, ba_n_seq_max = 0, ba_n_outputs = 0, ba_seq_id_unq = [],
     ba_seq_idx = replicate LLAMA_MAX_SEQ (-1), ba_has_cpl = False,
     ba_seq_pos = (\<lambda>_. {}), ba_seq_cpl = (\<lambda>_ _. False), ba_seq_set = [],
     ba_seq_set_map = (\<lambda>_. []), ba_out_ids = [], ba_n_used = 0, ba_used = []\<rparr>"

definition llama_batch_get_one :: "int list option \<Rightarrow> int \<Rightarrow> llama_batch" where
  "llama_batch_get_one tokens n_tokens = no_batch\<lparr>b_n_tokens := n_tokens, b_token := tokens\<rparr>"

subsection \<open>Accessors and state resets\<close>

definition ba_clear :: "llama_batch_allocr \<Rightarrow> llama_batch_allocr" where
  "ba_clear a = a\<lparr>ba_n_outputs := 0, ba_batch := no_batch, ba_seq_id_unq := [],
     ba_seq_pos := (\<lambda>_. {}), ba_seq_cpl := (\<lambda>_ _. False), ba_seq_set := [],
     ba_seq_set_map := (\<lambda>_. []), ba_seq_idx := map (\<lambda>_. -1) (ba_seq_idx a)\<rparr>"

definition ba_get_n_tokens :: "llama_batch_allocr \<Rightarrow> nat" where
  "ba_get_n_tokens a = nat (b_n_tokens (ba_batch a))"

definition ba_seq_pos_min :: "nat \<Rightarrow> llama_batch_allocr \<Rightarrow> int" where
  "ba_seq_pos_min s a = (if ba_seq_pos a s = {} then -1 else Min (ba_seq_pos a s))"

definition ba_seq_pos_max :: "nat \<Rightarrow> llama_batch_allocr \<Rightarrow> int" where
  "ba_seq_pos_max s a = (if ba_seq_pos a s = {} then -1 else Max (ba_seq_pos a s))"

definition ba_split_reset :: "llama_batch_allocr \<Rightarrow> llama_batch_allocr" where
  "ba_split_reset a = a\<lparr>ba_out_ids := [], ba_n_used := 0,
     ba_used := replicate (ba_get_n_tokens a) False\<rparr>"

text \<open>Row \<open>i\<close> of the sequence ids: \<^verbatim>\<open>seq_id[i][0]\<close>, \dots, \<^verbatim>\<open>seq_id[i][n_seq_id[i] - 1]\<close>.\<close>

definition batch_n_seq_id :: "llama_batch \<Rightarrow> nat \<Rightarrow> int option" where
  "batch_n_seq_id b i = do { ns \<leftarrow> b_n_seq_id b; vec_at ns i }"

definition batch_seq_id :: "llama_batch \<Rightarrow> nat \<Rightarrow> nat \<Rightarrow> int option" where
  "batch_seq_id b i s = do { rows \<leftarrow> b_seq_id b; row \<leftarrow> vec_at rows i; vec_at row s }"

definition batch_pos :: "llama_batch \<Rightarrow> nat \<Rightarrow> int option" where
  "batch_pos b i = do { ps \<leftarrow> b_pos b; vec_at ps i }"

subsection \<open>init: validation of the input\<close>

definition init_check_tokens :: "nat \<Rightarrow> llama_batch \<Rightarrow> bool option" where
  "init_check_tokens n_vocab b = (case b_token b of
     None \<Rightarrow> Some True
   | Some ts \<Rightarrow> check_each (\<lambda>i. do {
         t \<leftarrow> vec_at ts i;
         Some (\<not> (t < 0 \<or> to_u32 t \<ge> int n_vocab)) }) [0..<nat (b_n_tokens b)])"

definition init_check_seq_ids :: "nat \<Rightarrow> llama_batch \<Rightarrow> bool option" where
  "init_check_seq_ids n_seq_max b = (if b_seq_id b = None then Some True
     else check_each (\<lambda>i. do {
         n \<leftarrow> batch_n_seq_id b i;
         check_each (\<lambda>s. do {
             sid \<leftarrow> batch_seq_id b i s;
             Some (\<not> (sid < 0 \<or> sid \<ge> int n_seq_max)) }) [0..<nat n] })
       [0..<nat (b_n_tokens b)])"

subsection \<open>init: fields the caller left out\<close>

definition init_gen_n_seq_id :: "llama_batch \<Rightarrow> llama_batch" where
  "init_gen_n_seq_id b = (if b_n_seq_id b = None
     then b\<lparr>b_n_seq_id := Some (replicate (nat (b_n_tokens b)) 1)\<rparr> else b)"

definition init_gen_seq_id :: "llama_batch \<Rightarrow> llama_batch" where
  "init_gen_seq_id b = (if b_seq_id b = None
     then b\<lparr>b_seq_id := Some (replicate (nat (b_n_tokens b)) [0])\<rparr> else b)"

definition init_gen_pos :: "mem_view option \<Rightarrow> nat \<Rightarrow> llama_batch \<Rightarrow> llama_batch option" where
  "init_gen_pos mem n_seq_max b = (if b_pos b \<noteq> None then Some b else do {
     p0 \<leftarrow> for_each (\<lambda>s p0. case mem of
         None \<Rightarrow> Some (p0 @ [0])
       | Some mv \<Rightarrow> do {
           cpp_assert (i32_ok (mv_seq_pos_max mv s + 1));
           Some (p0 @ [mv_seq_pos_max mv s + 1]) }) [0..<n_seq_max] [];
     (ps, _) \<leftarrow> for_each (\<lambda>i (ps, p0). do {
         sid \<leftarrow> batch_seq_id b i 0;
         cpp_assert (0 \<le> sid);
         p \<leftarrow> vec_at p0 (nat sid);
         n \<leftarrow> batch_n_seq_id b i;
         p0 \<leftarrow> for_each (\<lambda>s p0. do {
             sid \<leftarrow> batch_seq_id b i s;
             cpp_assert (0 \<le> sid);
             cpp_assert (i32_ok (p + 1));
             vec_set (nat sid) (p + 1) p0 }) [0..<nat n] p0;
         Some (ps @ [p], p0) }) [0..<nat (b_n_tokens b)] ([], p0);
     Some (b\<lparr>b_pos := Some ps\<rparr>) })"

definition init_gen_logits :: "bool \<Rightarrow> llama_batch \<Rightarrow> llama_batch option" where
  "init_gen_logits output_all b = (let n = nat (b_n_tokens b) in case b_logits b of
     None \<Rightarrow> Some (b\<lparr>b_logits := Some (if output_all then replicate n 1
               else (replicate n 0)[n - 1 := 1])\<rparr>)
   | Some ls \<Rightarrow> (if output_all then do {
         all \<leftarrow> check_each (\<lambda>i. do { l \<leftarrow> vec_at ls i; Some (l \<noteq> 0) }) [0..<n];
         Some (if all then b else b\<lparr>b_logits := Some (replicate n 1)\<rparr>) }
       else Some b))"

subsection \<open>init: statistics\<close>

definition init_n_outputs :: "llama_batch \<Rightarrow> nat option" where
  "init_n_outputs b = do {
     ls \<leftarrow> b_logits b;
     for_each (\<lambda>i n. do { l \<leftarrow> vec_at ls i; Some (n + (if l \<noteq> 0 then 1 else 0)) })
       [0..<nat (b_n_tokens b)] 0 }"

definition init_couple :: "int \<Rightarrow> nat \<Rightarrow> int \<Rightarrow> int \<Rightarrow> llama_batch_allocr \<Rightarrow> llama_batch_allocr option" where
  "init_couple s0 s s1 p a = do {
     cpp_assert (0 \<le> s1 \<and> s1 < int LLAMA_MAX_SEQ);
     a \<leftarrow> Some (a\<lparr>ba_seq_pos := (ba_seq_pos a)(nat s1 := insert p (ba_seq_pos a (nat s1)))\<rparr>);
     if s > 0 then do {
       cpp_assert (0 \<le> s0 \<and> s0 < int LLAMA_MAX_SEQ);
       Some (a\<lparr>ba_seq_cpl := (ba_seq_cpl a)(nat s1 := (ba_seq_cpl a (nat s1))(nat s0 := True)),
                ba_has_cpl := True\<rparr>) }
     else Some a }"

definition init_coupling :: "llama_batch_allocr \<Rightarrow> llama_batch_allocr option" where
  "init_coupling a = (let b = ba_batch a in
     for_each (\<lambda>i a. do {
         s0 \<leftarrow> batch_seq_id b i 0;
         n \<leftarrow> batch_n_seq_id b i;
         for_each (\<lambda>s a. do {
             s1 \<leftarrow> batch_seq_id b i s;
             p \<leftarrow> batch_pos b i;
             init_couple s0 s s1 p a }) [0..<nat n] a })
       [0..<nat (b_n_tokens b)] (a\<lparr>ba_has_cpl := False\<rparr>))"

text \<open>The sequence set of token \<open>i\<close>.\<close>

definition token_seq_set :: "llama_batch \<Rightarrow> nat \<Rightarrow> nat set option" where
  "token_seq_set b i = do {
     n \<leftarrow> batch_n_seq_id b i;
     for_each (\<lambda>s cur. do {
         sid \<leftarrow> batch_seq_id b i s;
         cpp_assert (0 \<le> sid \<and> sid < int LLAMA_MAX_SEQ);
         Some (insert (nat sid) cur) }) [0..<nat n] {} }"

text \<open>Numbering of the sequences below \<open>n\<close> that are in \<open>unq\<close>, as \<^verbatim>\<open>init\<close> and \<^verbatim>\<open>ubatch_add\<close> do it.\<close>

definition number_seqs :: "nat \<Rightarrow> nat set \<Rightarrow> int list \<times> int list \<Rightarrow> (int list \<times> int list) option" where
  "number_seqs n unq = for_each (\<lambda>s (ids, idx).
     if s \<in> unq then do { idx' \<leftarrow> vec_set s (int (length ids)) idx; Some (ids @ [int s], idx') }
     else Some (ids, idx)) [0..<n]"

definition init_seq_sets :: "nat \<Rightarrow> llama_batch_allocr \<Rightarrow> llama_batch_allocr option" where
  "init_seq_sets n_seq_max a = (let b = ba_batch a in do {
     (a, unq) \<leftarrow> for_each (\<lambda>i (a, unq). do {
         cur \<leftarrow> token_seq_set b i;
         Some (a\<lparr>ba_seq_set := ba_seq_set a @ [cur],
                  ba_seq_set_map := (ba_seq_set_map a)(cur := ba_seq_set_map a cur @ [i])\<rparr>,
               unq \<union> cur) }) [0..<nat (b_n_tokens b)] (a, {});
     (ids, idx) \<leftarrow> number_seqs n_seq_max unq (ba_seq_id_unq a, ba_seq_idx a);
     Some (a\<lparr>ba_seq_id_unq := ids, ba_seq_idx := idx\<rparr>) })"

subsection \<open>init: consistency checks\<close>

definition init_check_positions :: "mem_view option \<Rightarrow> nat \<Rightarrow> llama_batch_allocr \<Rightarrow> bool option" where
  "init_check_positions mem n_seq_max a = check_each (\<lambda>s.
     if ba_seq_pos a s = {} then Some True else do {
       p0 \<leftarrow> Some (case mem of None \<Rightarrow> -1 | Some mv \<Rightarrow> mv_seq_pos_max mv s);
       ok \<leftarrow> (if p0 \<ge> 0 then
                if b_token (ba_batch a) \<noteq> None then do {
                  cpp_assert (i32_ok (p0 + 1));
                  Some (ba_seq_pos_min s a = p0 + 1) }
                else do {
                  cpp_assert (b_embd (ba_batch a) \<noteq> None);
                  if ba_seq_pos_min s a \<noteq> p0 then do {
                    cpp_assert (i32_ok (p0 + 1));
                    Some (ba_seq_pos_min s a = p0 + 1) }
                  else Some True }
              else Some True);
       if \<not> ok then Some False
       else do {
         cpp_assert (i32_ok (ba_seq_pos_max s a - ba_seq_pos_min s a));
         cpp_assert (i32_ok (ba_seq_pos_max s a - ba_seq_pos_min s a + 1));
         Some (\<not> (ba_seq_pos_max s a - ba_seq_pos_min s a + 1 > int (card (ba_seq_pos a s)))) } })
     [0..<n_seq_max]"

definition init_check_coupled :: "mem_view option \<Rightarrow> nat \<Rightarrow> llama_batch_allocr \<Rightarrow> bool" where
  "init_check_coupled mem n_seq_max a = (case mem of
     None \<Rightarrow> True
   | Some mv \<Rightarrow> list_all (\<lambda>s0. list_all (\<lambda>s1.
         ba_seq_cpl a s0 s1 \<longrightarrow>
           \<not> (mv_seq_pos_min mv s0 \<noteq> mv_seq_pos_min mv s1 \<or> mv_seq_pos_max mv s0 \<noteq> mv_seq_pos_max mv s1))
       [0..<n_seq_max]) [0..<n_seq_max])"

definition init_check_subsets :: "nat \<Rightarrow> llama_batch_allocr \<Rightarrow> bool option" where
  "init_check_subsets n_seq_max a = (let b = ba_batch a in do {
     cur_seq_set \<leftarrow> Some (replicate n_seq_max {..<LLAMA_MAX_SEQ});
     cur_seq_pos \<leftarrow> Some (replicate n_seq_max (-1));
     pairs \<leftarrow> for_each (\<lambda>i ps. do { n \<leftarrow> batch_n_seq_id b i; Some (ps @ map (Pair i) [0..<nat n]) })
       [0..<nat (b_n_tokens b)] [];
     check_fold (\<lambda>(i, s) css. do {
         p \<leftarrow> batch_pos b i;
         sid \<leftarrow> batch_seq_id b i s;
         cpp_assert (0 \<le> sid);
         S \<leftarrow> vec_at css (nat sid);
         T \<leftarrow> vec_at (ba_seq_set a) i;
         css \<leftarrow> vec_set (nat sid) (S \<inter> T) css;
         if S \<inter> T = {} then Some (False, css)
         else do {
           q \<leftarrow> vec_at cur_seq_pos (nat sid);
           Some (\<not> p < q, css) } }) pairs cur_seq_set })"

definition ba_init :: "llama_batch \<Rightarrow> nat \<Rightarrow> mem_view option \<Rightarrow> nat \<Rightarrow> nat \<Rightarrow> bool \<Rightarrow> llama_batch_allocr
    \<Rightarrow> (bool \<times> llama_batch_allocr) option" where
  "ba_init batch_inp n_vocab mem n_embd n_seq_max output_all a = do {
     a \<leftarrow> Some ((ba_clear a)\<lparr>ba_batch := batch_inp\<rparr>);
     cpp_assert (b_n_tokens batch_inp > 0);
     if n_seq_max > LLAMA_MAX_SEQ then Some (False, a) else do {
     ok \<leftarrow> init_check_tokens n_vocab batch_inp;
     if \<not> ok then Some (False, a) else do {
     ok \<leftarrow> init_check_seq_ids n_seq_max batch_inp;
     if \<not> ok then Some (False, a) else do {
     b \<leftarrow> Some (init_gen_seq_id (init_gen_n_seq_id batch_inp));
     b \<leftarrow> init_gen_pos mem n_seq_max b;
     b \<leftarrow> init_gen_logits output_all b;
     n_out \<leftarrow> init_n_outputs b;
     a \<leftarrow> Some (a\<lparr>ba_batch := b, ba_n_embd := n_embd, ba_n_seq_max := n_seq_max,
                   ba_n_outputs := ba_n_outputs a + n_out\<rparr>);
     a \<leftarrow> init_coupling a;
     a \<leftarrow> init_seq_sets n_seq_max a;
     ok \<leftarrow> init_check_positions mem n_seq_max a;
     if \<not> ok then Some (False, a)
     else if \<not> init_check_coupled mem n_seq_max a then Some (False, a)
     else do {
     ok \<leftarrow> init_check_subsets n_seq_max a;
     if \<not> ok then Some (False, a)
     else Some (True, ba_split_reset a) }}}} }"

subsection \<open>Making micro-batches\<close>

definition ba_ubatch_reserve :: "nat \<Rightarrow> nat \<Rightarrow> llama_batch_allocr \<Rightarrow> (llama_ubatch \<times> llama_batch_allocr) option" where
  "ba_ubatch_reserve n_seq_tokens n_seqs a = do {
     n_tokens \<leftarrow> Some (n_seq_tokens * n_seqs);
     a \<leftarrow> Some (ba_split_reset (ba_clear a));
     idx \<leftarrow> for_each (\<lambda>s idx. vec_set s (int s) idx) [0..<n_seqs] (replicate LLAMA_MAX_SEQ (-1));
     Some (\<lparr>ub_equal_seqs = True, ub_n_tokens = n_tokens, ub_n_seq_tokens = n_seq_tokens,
        ub_n_seqs = n_seqs, ub_n_seqs_unq = n_seqs,
        ub_token = Some (replicate n_tokens 0), ub_embd = None, ub_pos = replicate n_tokens 0,
        ub_n_seq_id = replicate n_tokens 0, ub_seq_id = replicate n_tokens [],
        ub_seq_id_unq = map int [0..<n_seqs], ub_seq_idx = idx, ub_output = replicate n_tokens 0\<rparr>, a) }"

definition ubatch_embd :: "nat \<Rightarrow> 32 word list \<Rightarrow> nat \<Rightarrow> 32 word list option" where
  "ubatch_embd n_embd embd i = (if i * n_embd + n_embd \<le> length embd
     then Some (take n_embd (drop (i * n_embd) embd)) else None)"

definition ba_ubatch_add :: "nat list \<Rightarrow> nat \<Rightarrow> bool \<Rightarrow> llama_batch_allocr
    \<Rightarrow> (llama_ubatch \<times> llama_batch_allocr) option" where
  "ba_ubatch_add idxs n_seqs equal_seqs a = (let b = ba_batch a; n_tokens = length idxs in do {
     cpp_assert (n_seqs \<noteq> 0 \<and> n_tokens mod n_seqs = 0);
     n_pos_cur \<leftarrow> Some (if b_embd b \<noteq> None then ba_n_pos_per_embd a else 1);
     token \<leftarrow> (case b_token b of None \<Rightarrow> Some None
        | Some ts \<Rightarrow> map_option Some (map_opt (vec_at ts) idxs));
     embd \<leftarrow> (case b_embd b of None \<Rightarrow> Some None
        | Some es \<Rightarrow> map_option (Some \<circ> concat) (map_opt (ubatch_embd (ba_n_embd a) es) idxs));
     pos \<leftarrow> map_opt (\<lambda>(j, i). batch_pos b (j * nat (b_n_tokens b) + i))
        (concat (map (\<lambda>j. map (Pair j) idxs) [0..<n_pos_cur]));
     n_seq_id \<leftarrow> map_opt (batch_n_seq_id b) idxs;
     rows \<leftarrow> b_seq_id b;
     seq_id \<leftarrow> map_opt (vec_at rows) idxs;
     logits \<leftarrow> b_logits b;
     output \<leftarrow> map_opt (vec_at logits) idxs;
     sets \<leftarrow> map_opt (token_seq_set b) idxs;
     (ids, idx) \<leftarrow> number_seqs (ba_n_seq_max a) (\<Union> (set sets)) ([], replicate LLAMA_MAX_SEQ (-1));
     Some (\<lparr>ub_equal_seqs = equal_seqs, ub_n_tokens = n_tokens,
        ub_n_seq_tokens = n_tokens div n_seqs, ub_n_seqs = n_seqs, ub_n_seqs_unq = length ids,
        ub_token = token, ub_embd = embd, ub_pos = pos, ub_n_seq_id = n_seq_id,
        ub_seq_id = seq_id, ub_seq_id_unq = ids, ub_seq_idx = idx, ub_output = output\<rparr>,
       a\<lparr>ba_out_ids := ba_out_ids a @
          map fst (filter (\<lambda>(i, out). out \<noteq> 0) (zip idxs output))\<rparr>) })"

subsubsection \<open>split\_simple\<close>

definition ba_mark :: "nat \<Rightarrow> llama_batch_allocr \<Rightarrow> llama_batch_allocr" where
  "ba_mark i a = a\<lparr>ba_used := (ba_used a)[i := True], ba_n_used := ba_n_used a + 1\<rparr>"

function simple_loop :: "nat \<Rightarrow> nat \<Rightarrow> nat list \<Rightarrow> llama_batch_allocr \<Rightarrow> nat list \<times> llama_batch_allocr" where
  "simple_loop n_ubatch cur idxs a = (let idxs = idxs @ [cur]; a = ba_mark cur a; cur = cur + 1 in
     if cur \<ge> length (ba_used a) then (idxs, a)
     else if length idxs \<ge> n_ubatch then (idxs, a)
     else simple_loop n_ubatch cur idxs a)"
  by pat_completeness auto
termination
  by (relation "measure (\<lambda>(_, cur, _, a). length (ba_used a) - cur)") (auto simp: ba_mark_def)

declare simple_loop.simps [simp del]

definition ba_split_simple :: "nat \<Rightarrow> llama_batch_allocr \<Rightarrow> (llama_ubatch \<times> llama_batch_allocr) option" where
  "ba_split_simple n_ubatch a = (let cur = first_index Not (ba_used a) in
     if cur \<ge> length (ba_used a) then Some (no_ubatch, a)
     else let (idxs, a) = simple_loop n_ubatch cur [] a
          in ba_ubatch_add idxs (length idxs) False a)"

subsubsection \<open>split\_equal\<close>

text \<open>
  The non-overlapping sequence sets that take part, scanning the tokens from left to right; the
  \<^verbatim>\<open>break\<close> comes after a set was added.
\<close>

fun equal_sets :: "nat \<Rightarrow> bool \<Rightarrow> llama_batch_allocr \<Rightarrow> nat list \<Rightarrow> nat set list \<Rightarrow> int \<Rightarrow> nat set list option" where
  "equal_sets n_ubatch sequential a [] cur_seq_set last_seq_id = Some cur_seq_set"
| "equal_sets n_ubatch sequential a (i # is) cur_seq_set last_seq_id = do {
     u \<leftarrow> vec_at (ba_used a) i;
     if u then equal_sets n_ubatch sequential a is cur_seq_set last_seq_id
     else do {
       S \<leftarrow> vec_at (ba_seq_set a) i;
       add \<leftarrow> Some (list_all (\<lambda>T. T \<inter> S = {}) cur_seq_set);
       sid \<leftarrow> batch_seq_id (ba_batch a) i 0;
       add \<leftarrow> Some (if sequential then add \<and> (cur_seq_set = [] \<or> sid = last_seq_id + 1) else add);
       if add then
         if length (cur_seq_set @ [S]) > n_ubatch then Some (cur_seq_set @ [S])
         else equal_sets n_ubatch sequential a is (cur_seq_set @ [S]) sid
       else equal_sets n_ubatch sequential a is cur_seq_set last_seq_id } }"

text \<open>\<^verbatim>\<open>while (used[seq_set_map[S][cur]]) ++cur;\<close>\<close>

fun skip_used :: "bool list \<Rightarrow> nat list \<Rightarrow> nat \<Rightarrow> nat option" where
  "skip_used used [] cur = None"
| "skip_used used (i # is) cur = do {
     u \<leftarrow> vec_at used i;
     if u then skip_used used is (cur + 1) else Some cur }"

text \<open>One round: one token of every sequence set.\<close>

definition equal_round :: "nat list list \<Rightarrow> nat list \<times> nat list list \<times> llama_batch_allocr
    \<Rightarrow> (nat list \<times> nat list list \<times> llama_batch_allocr) option" where
  "equal_round Ls st = for_each (\<lambda>s (cur_idx, idxs, a). do {
       l \<leftarrow> vec_at Ls s;
       k \<leftarrow> vec_at cur_idx s;
       i \<leftarrow> vec_at l k;
       row \<leftarrow> vec_at idxs s;
       Some (cur_idx[s := k + 1], idxs[s := row @ [i]], ba_mark i a) }) [0..<length Ls] st"

lemma equal_round_cur_aux:
  "for_each (\<lambda>s (cur_idx, idxs, a). do {
       l \<leftarrow> vec_at Ls s;
       k \<leftarrow> vec_at cur_idx s;
       i \<leftarrow> vec_at l k;
       row \<leftarrow> vec_at idxs s;
       Some (cur_idx[s := k + 1], idxs[s := row @ [i]], ba_mark i a) }) [0..<m] (cur, idxs, a)
     = Some (cur', idxs', a') \<Longrightarrow> cur' = map Suc (take m cur) @ drop m cur \<and> m \<le> length cur"
proof (induction m arbitrary: cur' idxs' a')
  case (Suc m)
  then obtain cur1 idxs1 a1 where
    IH: "cur1 = map Suc (take m cur) @ drop m cur" "m \<le> length cur" and
    m: "m < length cur1" "cur' = cur1[m := Suc (cur1 ! m)]"
    by (fastforce simp: for_each_append bind_eq_Some_conv vec_at_Some_iff)
  then have "m < length cur" by auto
  with IH m show ?case
    by (simp add: nth_append list_update_append take_Suc_conv_app_nth flip: Cons_nth_drop_Suc)
qed simp

lemma equal_round_cur:
  assumes "equal_round Ls (cur, idxs, a) = Some (cur', idxs', a')" "length cur = length Ls"
  shows "cur' = map Suc cur"
  using equal_round_cur_aux[of Ls "length Ls" cur idxs a cur' idxs' a'] assms
  by (simp add: equal_round_def)

text \<open>
  The rounds go on until a set has no token left or another round would pass \<open>n_ubatch\<close>. The loop
  ends because every round advances \<^verbatim>\<open>cur_idx\<close> in the first list; it is entered with at least one set.
\<close>

function equal_loop :: "nat \<Rightarrow> nat list list \<Rightarrow> nat list \<times> nat list list \<times> llama_batch_allocr
    \<Rightarrow> (nat list list \<times> llama_batch_allocr) option" where
  "equal_loop n_ubatch Ls (cur_idx, idxs, a) =
     (if Ls = [] \<or> \<not> list_all2 (\<lambda>l k. k < length l) Ls cur_idx then Some (idxs, a)
      else case equal_round Ls (cur_idx, idxs, a) of
        None \<Rightarrow> None
      | Some (cur_idx', idxs', a') \<Rightarrow>
          if (length (hd idxs') + 1) * length Ls > n_ubatch then Some (idxs', a')
          else equal_loop n_ubatch Ls (cur_idx', idxs', a'))"
  by pat_completeness auto
termination
proof (relation "measure (\<lambda>(_, Ls, cur_idx, _). length (hd Ls) - hd cur_idx)", goal_cases)
  case 1
  then show ?case by simp
next
  case (2 n_ubatch Ls cur_idx idxs a st cur_idx' rest idxs' a')
  then have all: "Ls \<noteq> []" "list_all2 (\<lambda>l k. k < length l) Ls cur_idx" by auto
  then obtain l Ls' k ks where l: "Ls = l # Ls'" "cur_idx = k # ks" "k < length l"
    by (cases Ls; cases cur_idx) auto
  have "cur_idx' = map Suc cur_idx"
    using 2 equal_round_cur[of Ls cur_idx idxs a cur_idx' idxs' a'] list_all2_lengthD[OF all(2)] by auto
  with l show ?case by auto
qed

declare equal_loop.simps [simp del]

definition ba_split_equal :: "nat \<Rightarrow> bool \<Rightarrow> llama_batch_allocr \<Rightarrow> (llama_ubatch \<times> llama_batch_allocr) option" where
  "ba_split_equal n_ubatch sequential a = (if sequential \<and> ba_has_cpl a then Some (no_ubatch, a) else do {
     sets \<leftarrow> equal_sets n_ubatch sequential a [0..<ba_get_n_tokens a] [] (-1);
     if sets = [] then Some (no_ubatch, a) else do {
       Ls \<leftarrow> Some (map (ba_seq_set_map a) sets);
       cur_idx \<leftarrow> map_opt (\<lambda>l. skip_used (ba_used a) l 0) Ls;
       (idxs, a) \<leftarrow> equal_loop n_ubatch Ls (cur_idx, map (\<lambda>_. []) Ls, a);
       ba_ubatch_add (concat idxs) (length sets) True a } })"

subsubsection \<open>split\_seq\<close>

text \<open>
  The scan starts inside the batch, so it cannot step over \<open>n\<close>; past it the accesses would be out of
  range.
\<close>

text \<open>\<^verbatim>\<open>do ++cur_idx; while (cur_idx < n && (used[cur_idx] || set not a subset));\<close>\<close>

function seq_next :: "llama_batch_allocr \<Rightarrow> nat set \<Rightarrow> nat \<Rightarrow> nat option" where
  "seq_next a S cur = (let cur = cur + 1 in
     if cur < ba_get_n_tokens a then do {
       u \<leftarrow> vec_at (ba_used a) cur;
       T \<leftarrow> vec_at (ba_seq_set a) cur;
       if u \<or> S \<inter> T \<noteq> T then seq_next a S cur else Some cur }
     else Some cur)"
  by pat_completeness auto
termination
  by (relation "measure (\<lambda>(a, _, cur). ba_get_n_tokens a - cur)") auto

declare seq_next.simps [simp del]

lemma seq_next_bounds:
  "seq_next a S cur = Some cur' \<Longrightarrow> cur < cur' \<and>
    (cur' < ba_get_n_tokens a \<or> cur' = max (ba_get_n_tokens a) (cur + 1))"
proof (induction a S cur rule: seq_next.induct)
  case (1 a S cur)
  show ?case
  proof (cases "cur + 1 < ba_get_n_tokens a")
    case True
    with "1.prems" obtain u T where ut: "vec_at (ba_used a) (Suc cur) = Some u"
        "vec_at (ba_seq_set a) (Suc cur) = Some T"
        "(if u \<or> S \<inter> T \<noteq> T then seq_next a S (Suc cur) else Some (Suc cur)) = Some cur'"
      by (auto simp: seq_next.simps[of a S cur] Let_def bind_eq_Some_conv)
    show ?thesis
    proof (cases "u \<or> S \<inter> T \<noteq> T")
      case skip: True
      with ut have "seq_next a S (Suc cur) = Some cur'" by simp
      with "1.IH"[OF refl _ _ _ skip] ut True show ?thesis by (auto simp: max_def split: if_splits)
    next
      case False
      with ut True show ?thesis by simp
    qed
  next
    case False
    with "1.prems" have "cur' = cur + 1" by (simp add: seq_next.simps[of a S cur] Let_def)
    with False show ?thesis by simp
  qed
qed

lemma ba_get_n_tokens_mark [simp]: "ba_get_n_tokens (ba_mark i a) = ba_get_n_tokens a"
  by (simp add: ba_get_n_tokens_def ba_mark_def)

function seq_loop :: "nat \<Rightarrow> nat set \<Rightarrow> nat \<Rightarrow> nat list \<Rightarrow> llama_batch_allocr
    \<Rightarrow> (nat list \<times> llama_batch_allocr) option" where
  "seq_loop n_ubatch S cur idxs a = (let idxs = idxs @ [cur]; a = ba_mark cur a in
     if length idxs \<ge> n_ubatch then Some (idxs, a)
     else (case seq_next a S cur of
         None \<Rightarrow> None
       | Some cur' \<Rightarrow>
           if cur' = ba_get_n_tokens a then Some (idxs, a)
           else if cur' > ba_get_n_tokens a then None
           else (case vec_at (ba_seq_set a) cur' of
               None \<Rightarrow> None
             | Some S' \<Rightarrow> seq_loop n_ubatch S' cur' idxs a)))"
  by pat_completeness auto
termination
  by (relation "measure (\<lambda>(_, _, cur, _, a). ba_get_n_tokens a - cur)")
    (auto dest!: seq_next_bounds)

declare seq_loop.simps [simp del]

definition ba_split_seq :: "nat \<Rightarrow> llama_batch_allocr \<Rightarrow> (llama_ubatch \<times> llama_batch_allocr) option" where
  "ba_split_seq n_ubatch a = (let cur = first_index Not (ba_used a) in
     if cur \<ge> length (ba_used a) then Some (no_ubatch, a)
     else do {
       S \<leftarrow> vec_at (ba_seq_set a) cur;
       (idxs, a) \<leftarrow> seq_loop n_ubatch S cur [] a;
       ba_ubatch_add idxs 1 True a })"

end
