(* ===== verification/Batch_Init.thy ===== *)
theory Batch_Init
  imports Batch
begin

text \<open>
  What \<^verbatim>\<open>llama_batch_allocr::init\<close> establishes. \<open>tok_seqs\<close> and \<open>tok_pos\<close> read the sequences and the
  position of a token off a batch; \<open>batch_backed\<close> is what the C interface asks of the caller (the arrays
  are as long as announced); \<open>ba_wf\<close> is the invariant of an initialised allocator on which the
  splitting functions rely.
\<close>

definition tok_row :: "llama_batch \<Rightarrow> nat \<Rightarrow> int list" where
  "tok_row b i = (case (batch_n_seq_id b i, b_seq_id b) of
     (Some n, Some rows) \<Rightarrow> take (nat n) (rows ! i) | _ \<Rightarrow> [])"

definition tok_seqs :: "llama_batch \<Rightarrow> nat \<Rightarrow> nat set" where
  "tok_seqs b i = nat ` set (tok_row b i)"

definition tok_pos :: "llama_batch \<Rightarrow> nat \<Rightarrow> int" where
  "tok_pos b i = (case batch_pos b i of Some p \<Rightarrow> p | None \<Rightarrow> 0)"

lemma batch_seq_id_row:
  assumes "batch_n_seq_id b i = Some n" "s < nat n" "batch_seq_id b i s = Some sid"
  shows "s < length (tok_row b i) \<and> tok_row b i ! s = sid"
  using assms by (auto simp: tok_row_def batch_seq_id_def bind_eq_Some_conv vec_at_Some_iff)

text \<open>Loops over the sequence ids of a token are loops over its row, once the row is readable.\<close>

definition row_ok :: "llama_batch \<Rightarrow> nat \<Rightarrow> bool" where
  "row_ok b i \<longleftrightarrow> (\<exists>ns rows. b_n_seq_id b = Some ns \<and> b_seq_id b = Some rows \<and> i < length ns \<and>
     i < length rows \<and> nat (ns ! i) \<le> length (rows ! i))"

lemma row_okD:
  assumes "row_ok b i"
  shows "\<exists>n. batch_n_seq_id b i = Some n \<and> nat n = length (tok_row b i) \<and>
     (\<forall>s < nat n. batch_seq_id b i s = Some (tok_row b i ! s))"
  using assms by (auto simp: row_ok_def tok_row_def batch_seq_id_def batch_n_seq_id_def)

lemma token_seq_set_ok:
  assumes "row_ok b i" "set (tok_row b i) \<subseteq> {0..<int LLAMA_MAX_SEQ}"
  shows "token_seq_set b i = Some (tok_seqs b i)"
proof -
  obtain n where n: "batch_n_seq_id b i = Some n" "nat n = length (tok_row b i)"
      "\<And>s. s < nat n \<Longrightarrow> batch_seq_id b i s = Some (tok_row b i ! s)"
    using row_okD[OF assms(1)] by blast
  have "\<exists>t. for_each (\<lambda>s cur. do {
         sid \<leftarrow> batch_seq_id b i s;
         cpp_assert (0 \<le> sid \<and> sid < int LLAMA_MAX_SEQ);
         Some (insert (nat sid) cur) }) [0..<nat n] {} = Some t \<and> t = nat ` set (take (nat n) (tok_row b i))"
  proof (rule for_each_upto_total)
    fix s u assume s: "s < nat n" and u: "u = nat ` set (take s (tok_row b i))"
    with n have "s < length (tok_row b i)" by simp
    then have "tok_row b i ! s \<in> {0..<int LLAMA_MAX_SEQ}" using assms(2) nth_mem by blast
    then show "\<exists>v. (do { sid \<leftarrow> batch_seq_id b i s; cpp_assert (0 \<le> sid \<and> sid < int LLAMA_MAX_SEQ);
           Some (insert (nat sid) u) }) = Some v \<and> v = nat ` set (take (Suc s) (tok_row b i))"
      using n(3)[OF s] \<open>s < length (tok_row b i)\<close> by (simp add: u take_Suc_conv_app_nth)
  qed simp
  then show ?thesis by (simp add: token_seq_set_def n tok_seqs_def)
qed

subsection \<open>Contracts\<close>

abbreviation n_tok :: "llama_batch \<Rightarrow> nat" where
  "n_tok b \<equiv> nat (b_n_tokens b)"

text \<open>The sequence ids of every token are readable, there is at least one, and they are below \<open>m\<close>.\<close>

definition rows_ok :: "nat \<Rightarrow> llama_batch \<Rightarrow> bool" where
  "rows_ok m b \<longleftrightarrow> (\<forall>i < n_tok b. row_ok b i \<and> tok_row b i \<noteq> [] \<and> set (tok_row b i) \<subseteq> {0..<int m})"

definition batch_full :: "nat \<Rightarrow> llama_batch \<Rightarrow> bool" where
  "batch_full m b \<longleftrightarrow> rows_ok m b \<and> (\<exists>ps. b_pos b = Some ps \<and> n_tok b \<le> length ps) \<and>
     (\<exists>ls. b_logits b = Some ls \<and> n_tok b \<le> length ls)"

lemma rows_okD:
  assumes "rows_ok m b" "i < n_tok b"
  shows "row_ok b i" "tok_row b i \<noteq> []" "set (tok_row b i) \<subseteq> {0..<int m}" "batch_seq_id b i 0 = Some (tok_row b i ! 0)"
    "tok_seqs b i \<subseteq> {..<m}" "tok_seqs b i \<noteq> {}" "0 \<le> tok_row b i ! 0" "nat (tok_row b i ! 0) < m"
proof -
  show r: "row_ok b i" "tok_row b i \<noteq> []" "set (tok_row b i) \<subseteq> {0..<int m}"
    using assms by (auto simp: rows_ok_def)
  show "batch_seq_id b i 0 = Some (tok_row b i ! 0)" using row_okD[OF r(1)] r(2) by auto
  show "tok_seqs b i \<subseteq> {..<m}" "tok_seqs b i \<noteq> {}" using r by (force simp: tok_seqs_def nat_less_iff)+
  have "tok_row b i ! 0 \<in> set (tok_row b i)" using r(2) by simp
  with r(3) have h: "tok_row b i ! 0 \<in> {0..<int m}" by blast
  then show "0 \<le> tok_row b i ! 0" by simp
  then show "nat (tok_row b i ! 0) < m" using h by (simp add: nat_less_iff)
qed

text \<open>A loop over the sequence ids of token \<open>i\<close>, its body written over the row.\<close>

lemma row_loop:
  assumes "row_ok b i"
  shows "(do { n \<leftarrow> batch_n_seq_id b i;
       for_each (\<lambda>s u. do { sid \<leftarrow> batch_seq_id b i s; body s sid u }) [0..<nat n] u0 }) =
     for_each (\<lambda>s u. body s (tok_row b i ! s) u) [0..<length (tok_row b i)] u0"
proof -
  obtain n where n: "batch_n_seq_id b i = Some n" "nat n = length (tok_row b i)"
      "\<And>s. s < nat n \<Longrightarrow> batch_seq_id b i s = Some (tok_row b i ! s)"
    using row_okD[OF assms] by blast
  have "for_each (\<lambda>s u. do { sid \<leftarrow> batch_seq_id b i s; body s sid u }) [0..<nat n] u0 =
      for_each (\<lambda>s u. body s (tok_row b i ! s) u) [0..<nat n] u0"
    by (rule for_each_cong) (simp_all add: n(3))
  with n show ?thesis by simp
qed

lemma batch_full_pos: "batch_full m b \<Longrightarrow> i < n_tok b \<Longrightarrow> batch_pos b i = Some (tok_pos b i)"
  by (auto simp: batch_full_def tok_pos_def batch_pos_def)

subsection \<open>Generated fields\<close>

text \<open>
  Where the next token of sequence \<open>s\<close> goes, after the first \<open>i\<close> tokens got the positions \<open>ps\<close>: one
  after the last of them that is in \<open>s\<close>, or \<open>p0 s\<close> when there is none.
\<close>

definition next_pos :: "llama_batch \<Rightarrow> (nat \<Rightarrow> int) \<Rightarrow> int list \<Rightarrow> nat \<Rightarrow> nat \<Rightarrow> int" where
  "next_pos b p0 ps s i = (let js = filter (\<lambda>j. s \<in> tok_seqs b j) [0..<i] in
     if js = [] then p0 s else ps ! last js + 1)"

lemma next_pos_Suc:
  "length ps = i \<Longrightarrow> next_pos b p0 (ps @ [p]) s (Suc i) =
     (if s \<in> tok_seqs b i then p + 1 else next_pos b p0 ps s i)"
proof -
  assume len: "length ps = i"
  have "last (filter (\<lambda>j. s \<in> tok_seqs b j) [0..<i]) < i" if "filter (\<lambda>j. s \<in> tok_seqs b j) [0..<i] \<noteq> []"
    using last_in_set[OF that] by simp
  with len show ?thesis by (auto simp: next_pos_def nth_append)
qed

lemma next_pos_append:
  "k \<le> length ps \<Longrightarrow> next_pos b p0 (ps @ qs) s k = next_pos b p0 ps s k"
proof -
  assume k: "k \<le> length ps"
  have "last (filter (\<lambda>j. s \<in> tok_seqs b j) [0..<k]) < k" if "filter (\<lambda>j. s \<in> tok_seqs b j) [0..<k] \<noteq> []"
    using last_in_set[OF that] by simp
  with k show ?thesis by (auto simp: next_pos_def Let_def nth_append)
qed

lemma row_assign:
  assumes "set row \<subseteq> {0..<int m}" "length p0 = m" "i32_ok v"
  shows "\<exists>t. for_each (\<lambda>s p0. do { cpp_assert (0 \<le> row ! s); cpp_assert (i32_ok v); vec_set (nat (row ! s)) v p0 })
      [0..<length row] p0 = Some t \<and> length t = m \<and>
      (\<forall>s < m. t ! s = (if s \<in> nat ` set row then v else p0 ! s))"
proof -
  have "\<exists>t. for_each (\<lambda>s p0. do { cpp_assert (0 \<le> row ! s); cpp_assert (i32_ok v); vec_set (nat (row ! s)) v p0 })
      [0..<length row] p0 = Some t \<and> length t = m \<and>
      (\<forall>s < m. t ! s = (if s \<in> nat ` set (take (length row) row) then v else p0 ! s))"
  proof (rule for_each_upto_total[where I = "\<lambda>k t. length t = m \<and>
      (\<forall>s < m. t ! s = (if s \<in> nat ` set (take k row) then v else p0 ! s))"])
    fix k and u :: "int list"
    assume k: "k < length row" and u: "length u = m \<and> (\<forall>s < m. u ! s = (if s \<in> nat ` set (take k row) then v else p0 ! s))"
    have "row ! k \<in> {0..<int m}" using k assms(1) nth_mem by blast
    then have "0 \<le> row ! k" "nat (row ! k) < m" by (simp_all add: nat_less_iff)
    then show "\<exists>w. (do { cpp_assert (0 \<le> row ! k); cpp_assert (i32_ok v); vec_set (nat (row ! k)) v u }) = Some w \<and> length w = m \<and>
        (\<forall>s < m. w ! s = (if s \<in> nat ` set (take (Suc k) row) then v else p0 ! s))"
      using u k assms(3) by (auto simp: take_Suc_conv_app_nth nth_list_update)
  qed (use assms in simp)
  then show ?thesis by simp
qed

definition pos_start :: "mem_view option \<Rightarrow> nat \<Rightarrow> int" where
  "pos_start mem s = (case mem of None \<Rightarrow> 0 | Some mv \<Rightarrow> mv_seq_pos_max mv s + 1)"

lemma init_pos_start:
  assumes "\<And>s. s < m \<Longrightarrow> i32_ok (pos_start mem s)"
  shows "for_each (\<lambda>s p0. case mem of
         None \<Rightarrow> Some (p0 @ [0])
       | Some mv \<Rightarrow> do {
           cpp_assert (i32_ok (mv_seq_pos_max mv s + 1));
           Some (p0 @ [mv_seq_pos_max mv s + 1]) }) [0..<m] [] = Some (map (pos_start mem) [0..<m])"
proof -
  have "\<exists>t. for_each (\<lambda>s p0. case mem of
         None \<Rightarrow> Some (p0 @ [0])
       | Some mv \<Rightarrow> do {
           cpp_assert (i32_ok (mv_seq_pos_max mv s + 1));
           Some (p0 @ [mv_seq_pos_max mv s + 1]) }) [0..<m] [] = Some t \<and> t = map (pos_start mem) [0..<m]"
  proof (rule for_each_upto_total)
    fix i and u :: "int list"
    assume "i < m" "u = map (pos_start mem) [0..<i]"
    then show "\<exists>v. (case mem of None \<Rightarrow> Some (u @ [0])
       | Some mv \<Rightarrow> do {
           cpp_assert (i32_ok (mv_seq_pos_max mv i + 1));
           Some (u @ [mv_seq_pos_max mv i + 1]) }) = Some v \<and> v = map (pos_start mem) [0..<Suc i]"
      using assms[of i] by (auto simp: pos_start_def split: option.splits)
  qed simp
  then show ?thesis by simp
qed

text \<open>Generated positions stay in \<^verbatim>\<open>int32_t\<close> when the next positions of the sequences leave room for the tokens.\<close>

lemma init_gen_pos_spec:
  assumes rows: "rows_ok m b" and b: "b_pos b = None"
    and room: "\<forall>s < m. 0 \<le> pos_start mem s \<and> pos_start mem s + int (n_tok b) \<le> INT32_MAX"
  shows "\<exists>ps. init_gen_pos mem m b = Some (b\<lparr>b_pos := Some ps\<rparr>) \<and> length ps = n_tok b \<and>
    (\<forall>i < n_tok b. ps ! i = next_pos b (pos_start mem) ps (nat (tok_row b i ! 0)) i) \<and>
    (\<forall>i < n_tok b. 0 \<le> ps ! i \<and> ps ! i < INT32_MAX)"
proof -
  let ?in = "\<lambda>i p. (\<lambda>s (p0 :: int list). do {
             sid \<leftarrow> batch_seq_id b i s; cpp_assert (0 \<le> sid); cpp_assert (i32_ok (p + 1)); vec_set (nat sid) (p + 1) p0 })"
  let ?body = "\<lambda>i (ps :: int list, p0 :: int list). do {
         sid \<leftarrow> batch_seq_id b i 0; cpp_assert (0 \<le> sid); p \<leftarrow> vec_at p0 (nat sid);
         n \<leftarrow> batch_n_seq_id b i;
         p0 \<leftarrow> for_each (?in i p) [0..<nat n] p0;
         Some (ps @ [p], p0) }"
  let ?I = "\<lambda>i (t :: int list \<times> int list). length (fst t) = i \<and> length (snd t) = m \<and>
      (\<forall>s < m. snd t ! s = next_pos b (pos_start mem) (fst t) s i) \<and>
      (\<forall>k < i. fst t ! k = next_pos b (pos_start mem) (fst t) (nat (tok_row b k ! 0)) k) \<and>
      (\<forall>k < i. 0 \<le> fst t ! k \<and> fst t ! k < INT32_MAX) \<and>
      (\<forall>s < m. 0 \<le> snd t ! s \<and> snd t ! s + int (n_tok b) \<le> INT32_MAX + int i)"
  have "\<exists>t. for_each ?body [0..<n_tok b] ([], map (pos_start mem) [0..<m]) = Some t \<and> ?I (n_tok b) t"
  proof (rule for_each_upto_total[where I = ?I])
    fix i and u :: "int list \<times> int list"
    assume i: "i < n_tok b" and u: "?I i u"
    obtain ps p0 where ups: "u = (ps, p0)" by force
    note r = rows_okD[OF rows i]
    define p where "p = p0 ! nat (tok_row b i ! 0)"
    have pb: "0 \<le> p" "p + int (n_tok b) \<le> INT32_MAX + int i"
    proof -
      have "\<forall>s < m. 0 \<le> p0 ! s \<and> p0 ! s + int (n_tok b) \<le> INT32_MAX + int i"
        using u unfolding ups fst_conv snd_conv by blast
      from this[rule_format, OF r(8)] show "0 \<le> p" "p + int (n_tok b) \<le> INT32_MAX + int i" unfolding p_def by blast+
    qed
    then have p32: "i32_ok (p + 1)" "p < INT32_MAX" using i unfolding i32_ok_def by linarith+
    obtain t where "for_each (\<lambda>s p0. do { cpp_assert (0 \<le> tok_row b i ! s); cpp_assert (i32_ok (p + 1)); vec_set (nat (tok_row b i ! s)) (p + 1) p0 })
        [0..<length (tok_row b i)] p0 = Some t" and t: "length t = m"
        "\<And>s. s < m \<Longrightarrow> t ! s = (if s \<in> tok_seqs b i then p + 1 else p0 ! s)"
      using row_assign[OF r(3), of p0 "p + 1"] u ups p32 by (auto simp: tok_seqs_def)
    then have "(do { n \<leftarrow> batch_n_seq_id b i; for_each (?in i p) [0..<nat n] p0 }) = Some t"
      unfolding row_loop[OF r(1)] by simp
    then have "?body i u = Some (ps @ [p], t)"
      using r u ups by (auto simp: p_def bind_eq_Some_conv)
    moreover have "length (ps @ [p]) = Suc i" "length t = m" using u ups t by simp_all
    moreover have "\<forall>s < m. t ! s = next_pos b (pos_start mem) (ps @ [p]) s (Suc i)"
      using u ups t by (auto simp: next_pos_Suc)
    moreover have "\<forall>k < Suc i. (ps @ [p]) ! k = next_pos b (pos_start mem) (ps @ [p]) (nat (tok_row b k ! 0)) k"
      using u ups r by (auto simp: next_pos_append nth_append p_def less_Suc_eq)
    moreover have "\<forall>k < Suc i. 0 \<le> (ps @ [p]) ! k \<and> (ps @ [p]) ! k < INT32_MAX"
      using u ups pb p32 by (auto simp: nth_append less_Suc_eq)
    moreover have "\<forall>s < m. 0 \<le> t ! s \<and> t ! s + int (n_tok b) \<le> INT32_MAX + int (Suc i)"
    proof (intro allI impI)
      fix s assume s: "s < m"
      then have "0 \<le> p0 ! s \<and> p0 ! s + int (n_tok b) \<le> INT32_MAX + int i"
        using u unfolding ups fst_conv snd_conv by blast
      then show "0 \<le> t ! s \<and> t ! s + int (n_tok b) \<le> INT32_MAX + int (Suc i)" using t(2)[OF s] pb by simp
    qed
    ultimately show "\<exists>v. ?body i u = Some v \<and> ?I (Suc i) v" by (intro exI[of _ "(ps @ [p], t)"]) simp
  qed (use room in \<open>simp add: next_pos_def\<close>)
  then obtain ps p0 where ps: "for_each ?body [0..<n_tok b] ([], map (pos_start mem) [0..<m]) = Some (ps, p0)"
      "?I (n_tok b) (ps, p0)" by auto
  have start: "i32_ok (pos_start mem s)" if "s < m" for s
  proof -
    have "0 \<le> pos_start mem s \<and> pos_start mem s + int (n_tok b) \<le> INT32_MAX" using room that by blast
    then show ?thesis unfolding i32_ok_def by linarith
  qed
  have "init_gen_pos mem m b = Some (b\<lparr>b_pos := Some ps\<rparr>)"
    using ps(1) b init_pos_start[of m mem, OF start] by (simp add: init_gen_pos_def)
  then show ?thesis using ps(2) by auto
qed

lemma init_gen_logits_total:
  assumes "\<And>ls. b_logits b = Some ls \<Longrightarrow> n_tok b \<le> length ls"
  shows "\<exists>ls. init_gen_logits output_all b = Some (b\<lparr>b_logits := Some ls\<rparr>) \<and> n_tok b \<le> length ls"
proof (cases "b_logits b")
  case None
  then have "init_gen_logits output_all b = Some (b\<lparr>b_logits := Some (if output_all then replicate (n_tok b) 1
      else (replicate (n_tok b) 0)[n_tok b - 1 := 1])\<rparr>)"
    by (simp add: init_gen_logits_def Let_def)
  then show ?thesis by (metis length_list_update length_replicate order_refl)
next
  case (Some ls)
  have "check_each (\<lambda>i. do { l \<leftarrow> vec_at ls i; Some (l \<noteq> 0) }) [0..<n_tok b]
      = Some (list_all (\<lambda>i. ls ! i \<noteq> 0) [0..<n_tok b])"
    by (rule check_each_total) (use assms[OF Some] in simp)
  moreover have "b\<lparr>b_logits := Some ls\<rparr> = b" using Some by simp
  moreover define ls' where
    "ls' = (if output_all \<and> \<not> list_all (\<lambda>i. ls ! i \<noteq> 0) [0..<n_tok b] then replicate (n_tok b) 1 else ls)"
  ultimately have "init_gen_logits output_all b = Some (b\<lparr>b_logits := Some ls'\<rparr>)"
    using Some by (simp add: init_gen_logits_def Let_def)
  moreover have "n_tok b \<le> length ls'" using assms[OF Some] by (simp add: ls'_def)
  ultimately show ?thesis by blast
qed

lemma init_n_outputs_eq:
  assumes "b_logits b = Some ls" "n_tok b \<le> length ls"
  shows "init_n_outputs b = Some (length (filter (\<lambda>l. l \<noteq> 0) (take (n_tok b) ls)))"
proof -
  have "\<exists>t. for_each (\<lambda>i n. do { l \<leftarrow> vec_at ls i; Some (n + (if l \<noteq> 0 then 1 else 0)) }) [0..<n_tok b] 0 = Some t \<and>
      t = length (filter (\<lambda>l. l \<noteq> 0) (take (n_tok b) ls))"
    by (rule for_each_upto_total) (use assms in \<open>auto simp: take_Suc_conv_app_nth\<close>)
  then show ?thesis using assms by (simp add: init_n_outputs_def)
qed

subsection \<open>Statistics\<close>

definition couple_row :: "int \<Rightarrow> int list \<Rightarrow> nat \<Rightarrow> llama_batch_allocr \<Rightarrow> llama_batch_allocr" where
  "couple_row p row k a = a\<lparr>
     ba_seq_pos := (\<lambda>s. ba_seq_pos a s \<union> (if s \<in> nat ` set (take k row) then {p} else {})),
     ba_seq_cpl := (\<lambda>s1 s0. ba_seq_cpl a s1 s0 \<or> (s0 = nat (row ! 0) \<and> s1 \<in> nat ` set (drop 1 (take k row)))),
     ba_has_cpl := (ba_has_cpl a \<or> 1 < k)\<rparr>"

lemma couple_row_0: "couple_row p row 0 a = a"
  by (simp add: couple_row_def)

lemma row_nth: "set row \<subseteq> {0..<int m} \<Longrightarrow> k < length row \<Longrightarrow> 0 \<le> row ! k \<and> row ! k < int m"
  using nth_mem[of k row] by fastforce

lemma couple_row_step:
  assumes k: "k < length row" and row: "set row \<subseteq> {0..<int LLAMA_MAX_SEQ}"
  shows "init_couple (row ! 0) k (row ! k) p (couple_row p row k a) = Some (couple_row p row (Suc k) a)"
proof -
  have "0 < length row" using k by linarith
  then have "0 \<le> row ! k \<and> row ! k < int LLAMA_MAX_SEQ" "0 \<le> row ! 0 \<and> row ! 0 < int LLAMA_MAX_SEQ"
    using k by (simp_all only: row_nth[OF row])
  moreover have "drop 1 (take (Suc k) row) = (if k = 0 then [] else drop 1 (take k row) @ [row ! k])"
    using k by (auto simp: take_Suc_conv_app_nth min_def)
  ultimately show ?thesis
    using k by (auto simp: init_couple_def couple_row_def take_Suc_conv_app_nth fun_eq_iff)
qed

definition couple_upto :: "llama_batch \<Rightarrow> nat \<Rightarrow> llama_batch_allocr \<Rightarrow> llama_batch_allocr" where
  "couple_upto b m a = a\<lparr>
     ba_seq_pos := (\<lambda>s. ba_seq_pos a s \<union> {tok_pos b i | i. i < m \<and> s \<in> tok_seqs b i}),
     ba_seq_cpl := (\<lambda>s1 s0. ba_seq_cpl a s1 s0 \<or>
        (\<exists>i < m. s0 = nat (tok_row b i ! 0) \<and> s1 \<in> nat ` set (drop 1 (tok_row b i)))),
     ba_has_cpl := (ba_has_cpl a \<or> (\<exists>i < m. 1 < length (tok_row b i)))\<rparr>"

lemma couple_upto_Suc: "couple_row (tok_pos b m) (tok_row b m) (length (tok_row b m)) (couple_upto b m a) = couple_upto b (Suc m) a"
  by (cases a) (auto simp: couple_row_def couple_upto_def fun_eq_iff less_Suc_eq tok_seqs_def)

lemma init_coupling_eq:
  assumes full: "batch_full m b" and m: "m \<le> LLAMA_MAX_SEQ" and a: "ba_batch a = b"
  shows "init_coupling a = Some (couple_upto b (n_tok b) (a\<lparr>ba_has_cpl := False\<rparr>))"
proof -
  let ?row = "\<lambda>i s0 s s1 u. do { p \<leftarrow> batch_pos b i; init_couple s0 s s1 p u }"
  have "\<exists>t. for_each (\<lambda>i a. do {
         s0 \<leftarrow> batch_seq_id b i 0;
         n \<leftarrow> batch_n_seq_id b i;
         for_each (\<lambda>s u. do { s1 \<leftarrow> batch_seq_id b i s; ?row i s0 s s1 u }) [0..<nat n] a })
       [0..<n_tok b] (a\<lparr>ba_has_cpl := False\<rparr>) = Some t \<and> t = couple_upto b (n_tok b) (a\<lparr>ba_has_cpl := False\<rparr>)"
  proof (rule for_each_upto_total, goal_cases)
    case 1
    show ?case by (simp add: couple_upto_def)
  next
    case (2 i u)
    then have i: "i < n_tok b" and rows: "rows_ok m b" using full by (auto simp: batch_full_def)
    note r = rows_okD[OF rows i]
    have sub: "set (tok_row b i) \<subseteq> {0..<int LLAMA_MAX_SEQ}" using r(3) m by force
    have "\<exists>t. for_each (\<lambda>s. ?row i (tok_row b i ! 0) s (tok_row b i ! s)) [0..<length (tok_row b i)] u = Some t \<and>
        t = couple_row (tok_pos b i) (tok_row b i) (length (tok_row b i)) u"
      by (rule for_each_upto_total)
        (use couple_row_step[OF _ sub] in \<open>simp_all add: couple_row_0 batch_full_pos[OF full i]\<close>)
    then show ?case
      using 2(2) r(4) row_loop[OF r(1), of "?row i (tok_row b i ! 0)" u] by (simp add: couple_upto_Suc)
  qed
  then show ?thesis by (simp add: init_coupling_def a Let_def)
qed

text \<open>\<open>seq_id_unq\<close> lists the sequences that occur, in order; \<open>seq_idx\<close> is its inverse.\<close>

definition unq_ids :: "nat set \<Rightarrow> nat \<Rightarrow> int list" where
  "unq_ids unq n = map int (filter (\<lambda>s. s \<in> unq) [0..<n])"

definition unq_idx :: "nat set \<Rightarrow> nat \<Rightarrow> int list" where
  "unq_idx unq n = map (\<lambda>s. if s < n \<and> s \<in> unq then int (length (unq_ids unq s)) else -1) [0..<LLAMA_MAX_SEQ]"

lemma number_seqs_eq:
  assumes "n \<le> LLAMA_MAX_SEQ"
  shows "number_seqs n unq ([], replicate LLAMA_MAX_SEQ (-1)) = Some (unq_ids unq n, unq_idx unq n)"
proof -
  have "\<exists>t. number_seqs n unq ([], replicate LLAMA_MAX_SEQ (-1)) = Some t \<and> t = (unq_ids unq n, unq_idx unq n)"
    unfolding number_seqs_def
  proof (rule for_each_upto_total)
    show "([], replicate LLAMA_MAX_SEQ (- 1)) = (unq_ids unq 0, unq_idx unq 0)"
      by (simp add: unq_ids_def unq_idx_def map_replicate_const)
  next
    fix i u assume i: "i < n" and u: "u = (unq_ids unq i, unq_idx unq i)"
    have len: "length (unq_idx unq k) = LLAMA_MAX_SEQ" for k by (simp add: unq_idx_def)
    have nth: "s < LLAMA_MAX_SEQ \<Longrightarrow> unq_idx unq k ! s = (if s < k \<and> s \<in> unq then int (length (unq_ids unq s)) else -1)" for k s
      by (simp add: unq_idx_def del: upt_Suc)
    have "(unq_idx unq i)[i := int (length (unq_ids unq i))] = unq_idx unq (Suc i)" if "i \<in> unq"
      by (rule nth_equalityI) (use that i assms in \<open>auto simp: len nth nth_list_update simp del: upt_Suc\<close>)
    moreover have "unq_idx unq i = unq_idx unq (Suc i)" if "i \<notin> unq"
      by (rule nth_equalityI) (use that in \<open>auto simp: len nth less_Suc_eq simp del: upt_Suc\<close>)
    moreover have "unq_ids unq (Suc i) = (if i \<in> unq then unq_ids unq i @ [int i] else unq_ids unq i)"
      by (simp add: unq_ids_def)
    ultimately show "\<exists>v. (case u of (ids, idx) \<Rightarrow>
        if i \<in> unq then do { idx' \<leftarrow> vec_set i (int (length ids)) idx; Some (ids @ [int i], idx') }
        else Some (ids, idx)) = Some v \<and> v = (unq_ids unq (Suc i), unq_idx unq (Suc i))"
      using i assms by (simp add: u len)
  qed
  then show ?thesis by simp
qed

definition batch_seqs :: "llama_batch \<Rightarrow> nat set" where
  "batch_seqs b = (\<Union>i < n_tok b. tok_seqs b i)"

lemma init_seq_sets_eq:
  assumes rows: "rows_ok m b" and m: "m \<le> LLAMA_MAX_SEQ" and a: "ba_batch a = b"
    "ba_seq_set a = []" "ba_seq_set_map a = (\<lambda>_. [])" "ba_seq_id_unq a = []" "ba_seq_idx a = replicate LLAMA_MAX_SEQ (-1)"
  shows "init_seq_sets m a = Some (a\<lparr>ba_seq_set := map (tok_seqs b) [0..<n_tok b],
      ba_seq_set_map := (\<lambda>S. filter (\<lambda>i. tok_seqs b i = S) [0..<n_tok b]),
      ba_seq_id_unq := unq_ids (batch_seqs b) m, ba_seq_idx := unq_idx (batch_seqs b) m\<rparr>)"
proof -
  let ?at = "\<lambda>k. (a\<lparr>ba_seq_set := map (tok_seqs b) [0..<k],
      ba_seq_set_map := (\<lambda>S. filter (\<lambda>i. tok_seqs b i = S) [0..<k])\<rparr>, \<Union>i < k. tok_seqs b i)"
  have "\<exists>t. for_each (\<lambda>i (a, unq). do {
         cur \<leftarrow> token_seq_set b i;
         Some (a\<lparr>ba_seq_set := ba_seq_set a @ [cur],
                  ba_seq_set_map := (ba_seq_set_map a)(cur := ba_seq_set_map a cur @ [i])\<rparr>,
               unq \<union> cur) }) [0..<n_tok b] (a, {}) = Some t \<and> t = ?at (n_tok b)"
  proof (rule for_each_upto_total)
    show "(a, {}) = ?at 0" using a by simp
  next
    fix i u assume i: "i < n_tok b" and u: "u = ?at i"
    note r = rows_okD[OF rows i]
    have "set (tok_row b i) \<subseteq> {0..<int LLAMA_MAX_SEQ}" using r(3) m by force
    then show "\<exists>v. (case u of (a, unq) \<Rightarrow> do {
         cur \<leftarrow> token_seq_set b i;
         Some (a\<lparr>ba_seq_set := ba_seq_set a @ [cur],
                  ba_seq_set_map := (ba_seq_set_map a)(cur := ba_seq_set_map a cur @ [i])\<rparr>,
               unq \<union> cur) }) = Some v \<and> v = ?at (Suc i)"
      using token_seq_set_ok[OF r(1)] by (cases a) (auto simp: u fun_eq_iff less_Suc_eq)
  qed
  then show ?thesis
    using number_seqs_eq[OF m, of "batch_seqs b"] a by (simp add: init_seq_sets_def batch_seqs_def Let_def)
qed

subsection \<open>The consistency checks\<close>

text \<open>
  The position check accepts a sequence exactly when its positions in the batch are an interval that
  starts where the memory ends.
\<close>

lemma interval_iff_card:
  assumes "finite (P :: int set)" "P \<noteq> {}"
  shows "\<not> Max P - Min P + 1 > int (card P) \<longleftrightarrow> P = {Min P..Max P}"
proof
  assume "\<not> Max P - Min P + 1 > int (card P)"
  moreover have "P \<subseteq> {Min P..Max P}" using assms by auto
  ultimately show "P = {Min P..Max P}"
    using card_seteq[of "{Min P..Max P}" P] by simp
next
  assume eq: "P = {Min P..Max P}"
  have "Min P \<le> Max P" using assms by simp
  then have "int (card P) = Max P - Min P + 1" by (subst eq) simp
  then show "\<not> Max P - Min P + 1 > int (card P)" by simp
qed

definition starts_after :: "mem_view option \<Rightarrow> bool \<Rightarrow> nat \<Rightarrow> int \<Rightarrow> bool" where
  "starts_after mem tokens s lo \<longleftrightarrow> (case mem of None \<Rightarrow> True | Some mv \<Rightarrow>
     mv_seq_pos_max mv s \<ge> 0 \<longrightarrow> lo = mv_seq_pos_max mv s + 1 \<or> (\<not> tokens \<and> lo = mv_seq_pos_max mv s))"

definition seq_pos_ok :: "mem_view option \<Rightarrow> bool \<Rightarrow> nat \<Rightarrow> int set \<Rightarrow> bool" where
  "seq_pos_ok mem tokens s P \<longleftrightarrow> P = {} \<or> (P = {Min P..Max P} \<and> starts_after mem tokens s (Min P))"

lemma init_check_positions_eq:
  assumes "b_token (ba_batch a) \<noteq> None \<or> b_embd (ba_batch a) \<noteq> None" "\<And>s. finite (ba_seq_pos a s)"
    and start: "\<forall>s < m. pos_start mem s \<le> INT32_MAX"
    and span: "\<forall>s. ba_seq_pos a s \<noteq> {} \<longrightarrow> Max (ba_seq_pos a s) - Min (ba_seq_pos a s) < INT32_MAX"
  shows "init_check_positions mem m a =
    Some (\<forall>s < m. seq_pos_ok mem (b_token (ba_batch a) \<noteq> None) s (ba_seq_pos a s))"
proof -
  let ?ok = "\<lambda>s. seq_pos_ok mem (b_token (ba_batch a) \<noteq> None) s (ba_seq_pos a s)"
  have "init_check_positions mem m a = Some (list_all ?ok [0..<m])"
    unfolding init_check_positions_def
  proof (rule check_each_total, goal_cases)
    case (1 s)
    define P where "P = ba_seq_pos a s"
    show ?case
    proof (cases "P = {}")
      case True
      then show ?thesis by (simp add: seq_pos_ok_def P_def)
    next
      case False
      have iv: "(P = {Min P..Max P}) \<longleftrightarrow> \<not> Max P - Min P + 1 > int (card P)"
        using interval_iff_card[of P] assms(2)[of s] False by (simp add: P_def)
      have ok: "seq_pos_ok mem (b_token (ba_batch a) \<noteq> None) s P \<longleftrightarrow> \<not> Max P - Min P + 1 > int (card P) \<and>
          starts_after mem (b_token (ba_batch a) \<noteq> None) s (Min P)"
        using False unfolding seq_pos_ok_def iv by simp
      have "finite P" using assms(2) by (simp add: P_def)
      then have "Min P \<le> Max P" using False by simp
      moreover have "Max P - Min P < INT32_MAX" using span False by (simp add: P_def)
      ultimately have w: "i32_ok (Max P - Min P)" "i32_ok (Max P - Min P + 1)" by (simp_all add: i32_ok_def)
      have w0: "i32_ok (mv_seq_pos_max mv s + 1)" if "mem = Some mv" "0 \<le> mv_seq_pos_max mv s" for mv
        using start 1 that by (auto simp: i32_ok_def pos_start_def)
      show ?thesis
        unfolding P_def[symmetric] ok ba_seq_pos_min_def ba_seq_pos_max_def
        using False assms(1) w w0 by (auto simp: starts_after_def split: option.splits)
    qed
  qed
  then show ?thesis by (simp add: list_all_iff Ball_def)
qed

text \<open>
  The last check never fails for sequence sets that contain their own sequence, and compares every
  position with -1: the running sets \<^verbatim>\<open>cur_seq_set[s]\<close> always contain \<open>s\<close>, and \<^verbatim>\<open>cur_seq_pos\<close> is never
  written.
\<close>

lemma subset_pairs:
  assumes "rows_ok m b"
  shows "for_each (\<lambda>i ps. do { n \<leftarrow> batch_n_seq_id b i; Some (ps @ map (Pair i) [0..<nat n]) }) [0..<n_tok b] []
    = Some (concat (map (\<lambda>i. map (Pair i) [0..<length (tok_row b i)]) [0..<n_tok b]))"
proof -
  have "\<exists>t. for_each (\<lambda>i ps. do { n \<leftarrow> batch_n_seq_id b i; Some (ps @ map (Pair i) [0..<nat n]) }) [0..<n_tok b] []
    = Some t \<and> t = concat (map (\<lambda>i. map (Pair i) [0..<length (tok_row b i)]) [0..<n_tok b])"
  proof (rule for_each_upto_total)
    fix i u assume i: "i < n_tok b" and u: "u = concat (map (\<lambda>i. map (Pair i) [0..<length (tok_row b i)]) [0..<i])"
    obtain n where "batch_n_seq_id b i = Some n" "nat n = length (tok_row b i)"
      using row_okD[OF rows_okD(1)[OF assms i]] by blast
    with u show "\<exists>v. (do { n \<leftarrow> batch_n_seq_id b i; Some (u @ map (Pair i) [0..<nat n]) }) = Some v \<and>
        v = concat (map (\<lambda>i. map (Pair i) [0..<length (tok_row b i)]) [0..<Suc i])"
      by simp
  qed simp
  then show ?thesis by simp
qed

lemma init_check_subsets_eq:
  assumes full: "batch_full m b" and m: "m \<le> LLAMA_MAX_SEQ"
    and a: "ba_batch a = b" "ba_seq_set a = map (tok_seqs b) [0..<n_tok b]"
  shows "init_check_subsets m a = Some (\<forall>i < n_tok b. -1 \<le> tok_pos b i)"
proof -
  have rows: "rows_ok m b" using full by (simp add: batch_full_def)
  let ?ps = "concat (map (\<lambda>i. map (Pair i) [0..<length (tok_row b i)]) [0..<n_tok b])"
  let ?f = "\<lambda>(i, s) css. do {
         p \<leftarrow> batch_pos b i;
         sid \<leftarrow> batch_seq_id b i s;
         cpp_assert (0 \<le> sid);
         S \<leftarrow> vec_at css (nat sid);
         T \<leftarrow> vec_at (ba_seq_set a) i;
         css \<leftarrow> vec_set (nat sid) (S \<inter> T) css;
         if S \<inter> T = {} then Some (False, css)
         else do {
           q \<leftarrow> vec_at (replicate m (-1)) (nat sid);
           Some (\<not> p < q, css) } }"
  have "check_fold ?f ?ps (replicate m {..<LLAMA_MAX_SEQ}) = Some (list_all (\<lambda>(i, s). -1 \<le> tok_pos b i) ?ps)"
  proof (rule check_fold_total[where I = "\<lambda>css. length css = m \<and> (\<forall>s < m. s \<in> css ! s)"])
    fix x u assume x: "x \<in> set ?ps" and u: "length u = m \<and> (\<forall>s < m. s \<in> u ! s)"
    then obtain i s where ix: "x = (i, s)" "i < n_tok b" "s < length (tok_row b i)" by auto
    define q where "q = nat (tok_row b i ! s)"
    have q: "0 \<le> tok_row b i ! s" "q < m" "q \<in> tok_seqs b i"
      using row_nth[OF rows_okD(3)[OF rows ix(2)] ix(3)] ix(3) by (auto simp: q_def tok_seqs_def nat_less_iff)
    moreover have "batch_seq_id b i s = Some (tok_row b i ! s)"
      using row_okD[OF rows_okD(1)[OF rows ix(2)]] ix(3) by auto
    ultimately show "\<exists>v. ?f x u = Some ((case x of (i, s) \<Rightarrow> -1 \<le> tok_pos b i), v) \<and>
        length v = m \<and> (\<forall>s < m. s \<in> v ! s)"
      using u ix(2) a(2) q_def[symmetric]
      by (auto simp: ix(1) batch_full_pos[OF full ix(2)] nth_list_update)
  qed (use m in auto)
  moreover have "list_all (\<lambda>(i, s). -1 \<le> tok_pos b i) ?ps \<longleftrightarrow> (\<forall>i < n_tok b. -1 \<le> tok_pos b i)"
    using rows_okD(2)[OF rows] by (force simp: list_all_iff)
  ultimately show ?thesis
    by (simp add: init_check_subsets_def Let_def a(1) subset_pairs[OF rows])
qed

subsection \<open>init as a whole\<close>

text \<open>The caller's side of the C interface: arrays as long as announced, and one of token and embd.\<close>

definition batch_readable :: "nat \<Rightarrow> nat \<Rightarrow> llama_batch \<Rightarrow> bool" where
  "batch_readable n_pos n_embd b \<longleftrightarrow>
     (\<forall>ts. b_token b = Some ts \<longrightarrow> n_tok b \<le> length ts \<and> (\<forall>t \<in> set ts. i32_ok t)) \<and>
     (\<forall>es. b_embd b = Some es \<longrightarrow> n_tok b * n_embd \<le> length es) \<and>
     (\<forall>ps. b_pos b = Some ps \<longrightarrow> n_tok b * (if b_embd b \<noteq> None then n_pos else 1) \<le> length ps) \<and>
     (\<forall>ls. b_logits b = Some ls \<longrightarrow> n_tok b \<le> length ls)"

definition batch_backed :: "nat \<Rightarrow> nat \<Rightarrow> llama_batch \<Rightarrow> bool" where
  "batch_backed n_pos n_embd b \<longleftrightarrow> 0 < b_n_tokens b \<and> (b_token b \<noteq> None \<or> b_embd b \<noteq> None) \<and>
     batch_readable n_pos n_embd b \<and> 0 < n_pos \<and> (b_pos b = None \<longrightarrow> b_embd b = None \<or> n_pos = 1) \<and>
     (case b_n_seq_id b of
        None \<Rightarrow> b_seq_id b = None
      | Some ns \<Rightarrow> n_tok b \<le> length ns \<and> (case b_seq_id b of
          None \<Rightarrow> (\<forall>i < n_tok b. ns ! i = 1)
        | Some rows \<Rightarrow> n_tok b \<le> length rows \<and> (\<forall>i < n_tok b. 1 \<le> ns ! i \<and> nat (ns ! i) \<le> length (rows ! i))))"

definition tokens_valid :: "nat \<Rightarrow> llama_batch \<Rightarrow> bool" where
  "tokens_valid n_vocab b \<longleftrightarrow> (\<forall>ts. b_token b = Some ts \<longrightarrow> (\<forall>i < n_tok b. 0 \<le> ts ! i \<and> ts ! i < int n_vocab))"

definition seq_ids_valid :: "nat \<Rightarrow> llama_batch \<Rightarrow> bool" where
  "seq_ids_valid m b \<longleftrightarrow> (\<forall>i < n_tok b. set (tok_row b i) \<subseteq> {0..<int m})"

lemma init_check_tokens_eq:
  assumes "batch_readable n_pos n_embd b"
  shows "init_check_tokens n_vocab b = Some (tokens_valid n_vocab b)"
proof (cases "b_token b")
  case None
  then show ?thesis by (simp add: init_check_tokens_def tokens_valid_def)
next
  case (Some ts)
  have ts: "n_tok b \<le> length ts" "\<And>t. t \<in> set ts \<Longrightarrow> i32_ok t"
    using assms Some by (auto simp: batch_readable_def)
  have u32: "to_u32 (ts ! i) = ts ! i" if "i < n_tok b" "0 \<le> ts ! i" for i
    using ts(2)[of "ts ! i"] ts(1) that by (intro to_u32_id) (auto simp: i32_ok_def)
  have "check_each (\<lambda>i. do { t \<leftarrow> vec_at ts i; Some (\<not> (t < 0 \<or> to_u32 t \<ge> int n_vocab)) }) [0..<n_tok b]
      = Some (list_all (\<lambda>i. 0 \<le> ts ! i \<and> ts ! i < int n_vocab) [0..<n_tok b])"
    by (rule check_each_total) (use ts(1) u32 in auto)
  then show ?thesis using Some by (simp add: init_check_tokens_def tokens_valid_def list_all_iff Ball_def)
qed

lemma backed_row_ok:
  assumes "batch_backed n_pos n_embd b" "b_seq_id b \<noteq> None" "i < n_tok b"
  shows "row_ok b i" "tok_row b i \<noteq> []"
proof -
  obtain ns rows where nr: "b_n_seq_id b = Some ns" "b_seq_id b = Some rows"
    using assms(1,2) by (auto simp: batch_backed_def split: option.splits)
  with assms have h: "i < length ns" "i < length rows" "1 \<le> ns ! i" "nat (ns ! i) \<le> length (rows ! i)"
    by (auto simp: batch_backed_def)
  with nr show "row_ok b i" by (simp add: row_ok_def)
  from h(3) have "0 < nat (ns ! i)" by simp
  with h nr show "tok_row b i \<noteq> []"
    by (auto simp: tok_row_def batch_n_seq_id_def simp del: zero_less_nat_eq)
qed

lemma init_check_seq_ids_eq:
  assumes "batch_backed n_pos n_embd b"
  shows "init_check_seq_ids m b = Some (b_seq_id b = None \<or> seq_ids_valid m b)"
proof (cases "b_seq_id b = None")
  case True
  then show ?thesis by (simp add: init_check_seq_ids_def)
next
  case False
  have "check_each (\<lambda>i. do {
         n \<leftarrow> batch_n_seq_id b i;
         check_each (\<lambda>s. do { sid \<leftarrow> batch_seq_id b i s; Some (\<not> (sid < 0 \<or> sid \<ge> int m)) }) [0..<nat n] })
       [0..<n_tok b] = Some (list_all (\<lambda>i. set (tok_row b i) \<subseteq> {0..<int m}) [0..<n_tok b])"
  proof (rule check_each_total)
    fix i assume "i \<in> set [0..<n_tok b]"
    then have i: "i < n_tok b" by simp
    obtain n where n: "batch_n_seq_id b i = Some n" "nat n = length (tok_row b i)"
      "\<And>s. s < nat n \<Longrightarrow> batch_seq_id b i s = Some (tok_row b i ! s)"
      using row_okD[OF backed_row_ok(1)[OF assms False i]] by blast
    have "check_each (\<lambda>s. do { sid \<leftarrow> batch_seq_id b i s; Some (\<not> (sid < 0 \<or> sid \<ge> int m)) }) [0..<nat n]
        = Some (list_all (\<lambda>s. tok_row b i ! s \<in> {0..<int m}) [0..<nat n])"
      by (rule check_each_total) (use n(3) in auto)
    moreover have "list_all (\<lambda>s. tok_row b i ! s \<in> {0..<int m}) [0..<nat n] \<longleftrightarrow> set (tok_row b i) \<subseteq> {0..<int m}"
      unfolding n(2) by (auto simp: list_all_iff in_set_conv_nth Ball_def subset_eq)
    ultimately show "(do { n \<leftarrow> batch_n_seq_id b i;
         check_each (\<lambda>s. do { sid \<leftarrow> batch_seq_id b i s; Some (\<not> (sid < 0 \<or> sid \<ge> int m)) }) [0..<nat n] })
       = Some (set (tok_row b i) \<subseteq> {0..<int m})"
      using n(1) by simp
  qed
  then show ?thesis using False by (auto simp: init_check_seq_ids_def seq_ids_valid_def list_all_iff Ball_def)
qed

text \<open>
  No \<^verbatim>\<open>llama_pos\<close> computed by \<^verbatim>\<open>init\<close> leaves \<^verbatim>\<open>int32_t\<close>: the last position in memory has a successor, generated
  positions end below the maximum, and given positions of one sequence lie less than the maximum apart.
\<close>

definition batch_fits :: "mem_view option \<Rightarrow> nat \<Rightarrow> llama_batch \<Rightarrow> bool" where
  "batch_fits mem m b \<longleftrightarrow> (\<forall>s < m. pos_start mem s \<le> INT32_MAX) \<and>
     (if b_pos b = None then \<forall>s < m. 0 \<le> pos_start mem s \<and> pos_start mem s + int (n_tok b) \<le> INT32_MAX
      else let b1 = init_gen_seq_id (init_gen_n_seq_id b) in
        \<forall>i < n_tok b. \<forall>j < n_tok b. tok_seqs b1 i \<inter> tok_seqs b1 j \<noteq> {} \<longrightarrow> tok_pos b i - tok_pos b j < INT32_MAX)"

definition batch_spans :: "llama_batch \<Rightarrow> bool" where
  "batch_spans b \<longleftrightarrow> (\<forall>i < n_tok b. \<forall>j < n_tok b. tok_seqs b i \<inter> tok_seqs b j \<noteq> {} \<longrightarrow> tok_pos b i - tok_pos b j < INT32_MAX)"

definition init_batch :: "mem_view option \<Rightarrow> nat \<Rightarrow> bool \<Rightarrow> llama_batch \<Rightarrow> llama_batch option" where
  "init_batch mem m output_all b = do {
     b \<leftarrow> init_gen_pos mem m (init_gen_seq_id (init_gen_n_seq_id b));
     init_gen_logits output_all b }"

lemma gen_rows_ok:
  assumes "batch_backed n_pos n_embd b" "b_seq_id b = None \<or> seq_ids_valid m b" "0 < m"
  shows "rows_ok m (init_gen_seq_id (init_gen_n_seq_id b))"
proof (cases "b_seq_id b")
  case None
  define b' where "b' = init_gen_seq_id (init_gen_n_seq_id b)"
  obtain ns where ns: "b_n_seq_id b' = Some ns" "n_tok b \<le> length ns" "\<forall>i < n_tok b. ns ! i = 1"
    using assms(1) None
    by (cases "b_n_seq_id b") (auto simp: batch_backed_def init_gen_n_seq_id_def init_gen_seq_id_def b'_def)
  have rows: "b_seq_id b' = Some (replicate (n_tok b) [0])" "b_n_tokens b' = b_n_tokens b"
    using None by (auto simp: init_gen_n_seq_id_def init_gen_seq_id_def b'_def)
  have "row_ok b' i \<and> tok_row b' i = [0]" if "i < n_tok b" for i
    using that ns rows by (auto simp: row_ok_def tok_row_def batch_n_seq_id_def)
  with rows assms(3) show ?thesis by (simp add: rows_ok_def flip: b'_def)
next
  case (Some rows)
  then have "b_n_seq_id b \<noteq> None" using assms(1) by (auto simp: batch_backed_def split: option.splits)
  then have "init_gen_seq_id (init_gen_n_seq_id b) = b"
    using Some by (simp add: init_gen_n_seq_id_def init_gen_seq_id_def)
  then show ?thesis
    using backed_row_ok[OF assms(1)] Some assms(2) by (auto simp: rows_ok_def seq_ids_valid_def)
qed

lemma tok_row_upd [simp]:
  "tok_row (b\<lparr>b_pos := p\<rparr>) i = tok_row b i" "tok_row (b\<lparr>b_logits := l\<rparr>) i = tok_row b i"
  "row_ok (b\<lparr>b_pos := p\<rparr>) i = row_ok b i" "row_ok (b\<lparr>b_logits := l\<rparr>) i = row_ok b i"
  "tok_seqs (b\<lparr>b_pos := p\<rparr>) i = tok_seqs b i" "tok_seqs (b\<lparr>b_logits := l\<rparr>) i = tok_seqs b i"
  by (simp_all add: tok_row_def row_ok_def tok_seqs_def batch_n_seq_id_def)

text \<open>
  The completed batch: sequence ids, positions and output flags are all there; positions that were
  missing continue each sequence.
\<close>

lemma init_batch_ok:
  assumes "batch_backed n_pos n_embd b" "b_seq_id b = None \<or> seq_ids_valid m b" "0 < m" "batch_fits mem m b"
  shows "\<exists>b'. init_batch mem m output_all b = Some b' \<and> batch_full m b' \<and> batch_readable n_pos n_embd b' \<and>
      b_n_tokens b' = b_n_tokens b \<and> b_token b' = b_token b \<and> b_embd b' = b_embd b \<and>
      tok_row b' = tok_row (init_gen_seq_id (init_gen_n_seq_id b)) \<and> batch_spans b' \<and>
      (\<forall>ps. b_pos b = Some ps \<longrightarrow> b_pos b' = Some ps) \<and>
      (b_pos b = None \<longrightarrow> (\<exists>ps. b_pos b' = Some ps \<and> length ps = n_tok b \<and>
         (\<forall>i < n_tok b. ps ! i = next_pos b' (pos_start mem) ps (nat (tok_row b' i ! 0)) i)))"
proof -
  define b1 where "b1 = init_gen_seq_id (init_gen_n_seq_id b)"
  have rows: "rows_ok m b1" unfolding b1_def by (rule gen_rows_ok[OF assms(1-3)])
  have b1: "b_n_tokens b1 = b_n_tokens b" "b_token b1 = b_token b" "b_embd b1 = b_embd b" "b_pos b1 = b_pos b"
      "b_logits b1 = b_logits b"
    by (auto simp: b1_def init_gen_n_seq_id_def init_gen_seq_id_def)
  have np: "b_pos b1 = Some ps \<Longrightarrow> n_tok b * (if b_embd b \<noteq> None then n_pos else 1) \<le> length ps" for ps
    using assms(1) b1 by (auto simp: batch_backed_def batch_readable_def)
  obtain ps where ps: "init_gen_pos mem m b1 = Some (b1\<lparr>b_pos := Some ps\<rparr>)"
      "n_tok b * (if b_embd b \<noteq> None then n_pos else 1) \<le> length ps" "b_pos b = Some ps' \<Longrightarrow> ps = ps'"
      "b_pos b = None \<Longrightarrow> length ps = n_tok b \<and>
         (\<forall>i < n_tok b. ps ! i = next_pos b1 (pos_start mem) ps (nat (tok_row b1 i ! 0)) i) \<and>
         (\<forall>i < n_tok b. 0 \<le> ps ! i \<and> ps ! i < INT32_MAX)" for ps'
  proof (cases "b_pos b1")
    case None
    obtain ps where ps: "init_gen_pos mem m b1 = Some (b1\<lparr>b_pos := Some ps\<rparr>)" "length ps = n_tok b"
        "\<forall>i < n_tok b. ps ! i = next_pos b1 (pos_start mem) ps (nat (tok_row b1 i ! 0)) i"
        "\<forall>i < n_tok b. 0 \<le> ps ! i \<and> ps ! i < INT32_MAX"
      using init_gen_pos_spec[OF rows None, of mem] assms(4) None b1(1,4) by (auto simp: batch_fits_def)
    have "b_embd b = None \<or> n_pos = 1" using assms(1) None b1(4) by (simp add: batch_backed_def)
    then show ?thesis using that[OF ps(1)] ps(2-4) None b1(4) by auto
  next
    case (Some ps)
    then have id: "b1\<lparr>b_pos := Some ps\<rparr> = b1" by simp
    have "init_gen_pos mem m b1 = Some (b1\<lparr>b_pos := Some ps\<rparr>)" unfolding id using Some by (simp add: init_gen_pos_def)
    from that[OF this np[OF Some]] show ?thesis using Some b1(4) by auto
  qed
  obtain ls where ls: "init_gen_logits output_all (b1\<lparr>b_pos := Some ps\<rparr>) = Some (b1\<lparr>b_pos := Some ps, b_logits := Some ls\<rparr>)"
      "n_tok b \<le> length ls"
    using init_gen_logits_total[of "b1\<lparr>b_pos := Some ps\<rparr>" output_all] assms(1) b1
    by (auto simp: batch_backed_def batch_readable_def)
  define b' where "b' = b1\<lparr>b_pos := Some ps, b_logits := Some ls\<rparr>"
  have "0 < n_pos" using assms(1) by (simp add: batch_backed_def)
  then have "n_tok b \<le> n_tok b * (if b_embd b \<noteq> None then n_pos else 1)" by simp
  with ps(2) have "n_tok b \<le> length ps" by linarith
  then have full: "batch_full m b'" using rows ls b1 by (simp add: batch_full_def rows_ok_def b'_def)
  have readable: "batch_readable n_pos n_embd b'"
    using assms(1) ps(2) ls(2) b1 by (auto simp: batch_backed_def batch_readable_def b'_def)
  have "next_pos b' p0 ps s i = next_pos b1 p0 ps s i" for p0 s i
    by (simp add: next_pos_def b'_def)
  then have gen: "b_pos b = None \<Longrightarrow> length ps = n_tok b \<and>
      (\<forall>i < n_tok b. ps ! i = next_pos b' (pos_start mem) ps (nat (tok_row b' i ! 0)) i)"
    using ps(4) by (simp add: b'_def)
  have "batch_spans b'"
  proof (cases "b_pos b")
    case None
    have "0 \<le> tok_pos b' i \<and> tok_pos b' i < INT32_MAX" if "i < n_tok b" for i
    proof -
      have "length ps = n_tok b" "0 \<le> ps ! i \<and> ps ! i < INT32_MAX" using ps(4)[OF None] that by blast+
      then show ?thesis using that by (simp add: tok_pos_def batch_pos_def b'_def)
    qed
    moreover have "n_tok b' = n_tok b" using b1 by (simp add: b'_def)
    ultimately have "tok_pos b' i - tok_pos b' j < INT32_MAX" if "i < n_tok b'" "j < n_tok b'" for i j
      using that by (smt (verit))
    then show ?thesis by (simp add: batch_spans_def)
  next
    case (Some ps')
    then have "tok_pos b' = tok_pos b" using ps(3) by (simp add: tok_pos_def batch_pos_def b'_def fun_eq_iff)
    moreover have "tok_seqs b' = tok_seqs b1" by (simp add: b'_def fun_eq_iff)
    ultimately show ?thesis using assms(4) Some b1 by (simp add: batch_fits_def batch_spans_def b1_def Let_def b'_def)
  qed
  moreover have "init_batch mem m output_all b = Some b'"
    using ps(1) ls(1) by (simp add: init_batch_def b'_def flip: b1_def)
  moreover have "tok_row b' = tok_row b1" by (simp add: b'_def fun_eq_iff)
  ultimately show ?thesis using full readable gen ps(3) b1 unfolding b1_def[symmetric] by (auto simp: b'_def)
qed

text \<open>The positions that the tokens of a batch have in sequence \<open>s\<close>.\<close>

definition batch_positions :: "llama_batch \<Rightarrow> nat \<Rightarrow> int set" where
  "batch_positions b s = {tok_pos b i | i. i < n_tok b \<and> s \<in> tok_seqs b i}"

definition batch_coupled_ok :: "mem_view option \<Rightarrow> llama_batch \<Rightarrow> bool" where
  "batch_coupled_ok mem b \<longleftrightarrow> (case mem of None \<Rightarrow> True | Some mv \<Rightarrow>
     (\<forall>i < n_tok b. \<forall>s \<in> tok_seqs b i. \<forall>s' \<in> tok_seqs b i.
        mv_seq_pos_min mv s = mv_seq_pos_min mv s' \<and> mv_seq_pos_max mv s = mv_seq_pos_max mv s'))"

definition batch_accepted :: "mem_view option \<Rightarrow> nat \<Rightarrow> llama_batch \<Rightarrow> bool" where
  "batch_accepted mem m b \<longleftrightarrow> (\<forall>s < m. seq_pos_ok mem (b_token b \<noteq> None) s (batch_positions b s)) \<and>
     batch_coupled_ok mem b \<and> (\<forall>i < n_tok b. -1 \<le> tok_pos b i)"

text \<open>The invariant of an initialised allocator.\<close>

definition ba_wf :: "llama_batch_allocr \<Rightarrow> bool" where
  "ba_wf a \<longleftrightarrow> (let b = ba_batch a in
     batch_full (ba_n_seq_max a) b \<and> ba_n_seq_max a \<le> LLAMA_MAX_SEQ \<and>
     batch_readable (ba_n_pos_per_embd a) (ba_n_embd a) b \<and>
     ba_seq_set a = map (tok_seqs b) [0..<n_tok b] \<and>
     ba_seq_set_map a = (\<lambda>S. filter (\<lambda>i. tok_seqs b i = S) [0..<n_tok b]) \<and>
     ba_has_cpl a = (\<exists>i < n_tok b. 1 < length (tok_row b i)) \<and>
     length (ba_used a) = n_tok b \<and> ba_n_used a = length (filter (\<lambda>u. u) (ba_used a)))"

lemma finite_batch_positions: "finite (batch_positions b s)"
proof -
  have "batch_positions b s \<subseteq> tok_pos b ` {..<n_tok b}" by (auto simp: batch_positions_def)
  then show ?thesis by (rule finite_subset) simp
qed

lemma batch_spans_Max:
  assumes "batch_spans b" "batch_positions b s \<noteq> {}"
  shows "Max (batch_positions b s) - Min (batch_positions b s) < INT32_MAX"
proof -
  have "Max (batch_positions b s) \<in> batch_positions b s" "Min (batch_positions b s) \<in> batch_positions b s"
    using assms(2) finite_batch_positions by simp_all
  then obtain i j where "i < n_tok b" "j < n_tok b" "s \<in> tok_seqs b i \<inter> tok_seqs b j"
      "Max (batch_positions b s) = tok_pos b i" "Min (batch_positions b s) = tok_pos b j"
    unfolding batch_positions_def by blast
  then show ?thesis using assms(1) unfolding batch_spans_def by auto
qed

lemma tok_seqs_first:
  "tok_row b i \<noteq> [] \<Longrightarrow> tok_seqs b i = insert (nat (tok_row b i ! 0)) (nat ` set (drop 1 (tok_row b i)))"
  by (cases "tok_row b i") (auto simp: tok_seqs_def)

lemma init_check_coupled_eq:
  assumes rows: "rows_ok m b" and cpl: "\<And>s1 s0. ba_seq_cpl a s1 s0 \<longleftrightarrow>
      (\<exists>i < n_tok b. s0 = nat (tok_row b i ! 0) \<and> s1 \<in> nat ` set (drop 1 (tok_row b i)))"
  shows "init_check_coupled mem m a \<longleftrightarrow> batch_coupled_ok mem b"
proof (cases mem)
  case None
  then show ?thesis by (simp add: init_check_coupled_def batch_coupled_ok_def)
next
  case (Some mv)
  let ?same = "\<lambda>s s'. mv_seq_pos_min mv s = mv_seq_pos_min mv s' \<and> mv_seq_pos_max mv s = mv_seq_pos_max mv s'"
  have below: "s1 < m \<and> s0 < m" if "ba_seq_cpl a s1 s0" for s1 s0
  proof -
    from that obtain i where i: "i < n_tok b" "s0 = nat (tok_row b i ! 0)" "s1 \<in> nat ` set (drop 1 (tok_row b i))"
      using cpl by blast
    with tok_seqs_first[of b i] rows_okD(2,5)[OF rows i(1)] show ?thesis by auto
  qed
  have "init_check_coupled mem m a \<longleftrightarrow> (\<forall>s1 s0. ba_seq_cpl a s1 s0 \<longrightarrow> ?same s1 s0)"
    using Some below by (auto simp: init_check_coupled_def list_all_iff)
  also have "\<dots> \<longleftrightarrow> (\<forall>i < n_tok b. \<forall>s1 \<in> nat ` set (drop 1 (tok_row b i)). ?same s1 (nat (tok_row b i ! 0)))"
    unfolding cpl by blast
  also have "\<dots> \<longleftrightarrow> (\<forall>i < n_tok b. \<forall>s \<in> tok_seqs b i. \<forall>s' \<in> tok_seqs b i. ?same s s')"
  proof -
    have "(\<forall>s1 \<in> nat ` set (drop 1 (tok_row b i)). ?same s1 (nat (tok_row b i ! 0))) \<longleftrightarrow>
        (\<forall>s \<in> tok_seqs b i. \<forall>s' \<in> tok_seqs b i. ?same s s')" if "i < n_tok b" for i
      unfolding tok_seqs_first[OF rows_okD(2)[OF rows that]] by auto
    then show ?thesis by blast
  qed
  finally show ?thesis by (simp add: batch_coupled_ok_def Some)
qed

lemma ba_init_eq:
  assumes backed: "batch_backed (ba_n_pos_per_embd a) n_embd b" and m: "0 < m"
    and idx: "length (ba_seq_idx a) = LLAMA_MAX_SEQ"
    and pre: "m \<le> LLAMA_MAX_SEQ" "tokens_valid n_vocab b" "b_seq_id b = None \<or> seq_ids_valid m b" and fits: "batch_fits mem m b"
  shows "\<exists>b' a'. init_batch mem m output_all b = Some b' \<and>
    ba_init b n_vocab mem n_embd m output_all a = Some (batch_accepted mem m b', a') \<and> ba_batch a' = b' \<and>
    n_tok b' = n_tok b \<and> ba_n_pos_per_embd a' = ba_n_pos_per_embd a \<and>
    ba_seq_id_unq a' = unq_ids (batch_seqs b') m \<and> ba_seq_idx a' = unq_idx (batch_seqs b') m \<and>
    ba_n_outputs a' = length (filter (\<lambda>l. l \<noteq> 0) (take (n_tok b') (case b_logits b' of Some ls \<Rightarrow> ls | None \<Rightarrow> []))) \<and>
    ba_seq_pos a' = batch_positions b' \<and>
    (batch_accepted mem m b' \<longrightarrow> ba_wf a' \<and> ba_used a' = replicate (n_tok b) False \<and> ba_out_ids a' = [])"
proof -
  obtain b' where b': "init_batch mem m output_all b = Some b'" "batch_full m b'"
      "batch_readable (ba_n_pos_per_embd a) n_embd b'" "b_n_tokens b' = b_n_tokens b" "b_token b' = b_token b" "b_embd b' = b_embd b"
      "batch_spans b'"
    using init_batch_ok[OF backed pre(3) m fits, of output_all] by blast
  then obtain ls where ls: "b_logits b' = Some ls" "n_tok b' \<le> length ls" and rows: "rows_ok m b'"
    by (auto simp: batch_full_def)
  define a1 where "a1 = (ba_clear a)\<lparr>ba_batch := b', ba_n_embd := n_embd, ba_n_seq_max := m,
      ba_n_outputs := length (filter (\<lambda>l. l \<noteq> 0) (take (n_tok b') ls))\<rparr>"
  define a2 where "a2 = couple_upto b' (n_tok b') (a1\<lparr>ba_has_cpl := False\<rparr>)"
  define a3 where "a3 = a2\<lparr>ba_seq_set := map (tok_seqs b') [0..<n_tok b'],
      ba_seq_set_map := (\<lambda>S. filter (\<lambda>i. tok_seqs b' i = S) [0..<n_tok b']),
      ba_seq_id_unq := unq_ids (batch_seqs b') m, ba_seq_idx := unq_idx (batch_seqs b') m\<rparr>"
  have a2: "init_coupling a1 = Some a2"
    unfolding a2_def by (rule init_coupling_eq[OF b'(2) pre(1)]) (simp add: a1_def)
  have idx': "map (\<lambda>_. -1) (ba_seq_idx a) = replicate LLAMA_MAX_SEQ (-1)"
    using idx by (simp add: map_replicate_const)
  have a3: "init_seq_sets m a2 = Some a3"
    unfolding a3_def
    by (rule init_seq_sets_eq[OF rows pre(1)]) (simp_all add: a2_def couple_upto_def a1_def ba_clear_def idx')
  have sp: "ba_seq_pos a3 = batch_positions b'" "ba_batch a3 = b'"
    by (simp_all add: a3_def a2_def a1_def couple_upto_def ba_clear_def batch_positions_def[abs_def])
  have pos: "init_check_positions mem m a3 =
      Some (\<forall>s < m. seq_pos_ok mem (b_token b' \<noteq> None) s (batch_positions b' s))"
    using init_check_positions_eq[of a3 m mem] backed b'(5,6) sp finite_batch_positions batch_spans_Max[OF b'(7)] fits
    by (auto simp: batch_backed_def batch_fits_def)
  have cpl: "init_check_coupled mem m a3 \<longleftrightarrow> batch_coupled_ok mem b'"
    by (rule init_check_coupled_eq[OF rows]) (simp add: a3_def a2_def a1_def couple_upto_def ba_clear_def)
  have sub: "init_check_subsets m a3 = Some (\<forall>i < n_tok b'. -1 \<le> tok_pos b' i)"
    by (rule init_check_subsets_eq[OF b'(2) pre(1) sp(2)]) (simp add: a3_def)
  define a' where "a' = (if batch_accepted mem m b' then ba_split_reset a3 else a3)"
  have "0 < b_n_tokens b" using backed by (simp add: batch_backed_def)
  obtain b'' where gp: "init_gen_pos mem m (init_gen_seq_id (init_gen_n_seq_id b)) = Some b''"
      "init_gen_logits output_all b'' = Some b'"
    using b'(1) by (auto simp: init_batch_def bind_eq_Some_conv)
  have n0: "ba_n_outputs (ba_clear a) = 0" by (simp add: ba_clear_def)
  obtain P1 P3 where P: "init_check_positions mem m a3 = Some P1" "init_check_subsets m a3 = Some P3"
      "batch_accepted mem m b' \<longleftrightarrow> P1 \<and> init_check_coupled mem m a3 \<and> P3"
    using pos cpl sub by (simp add: batch_accepted_def)
  have checks: "init_check_tokens n_vocab b = Some True" "init_check_seq_ids m b = Some True"
    using init_check_tokens_eq[of "ba_n_pos_per_embd a" n_embd b n_vocab] init_check_seq_ids_eq[OF backed, of m]
      backed pre by (simp_all add: batch_backed_def)
  have a1: "(ba_clear a)\<lparr>ba_batch := b', ba_n_embd := n_embd, ba_n_seq_max := m,
      ba_n_outputs := 0 + length (filter (\<lambda>l. l \<noteq> 0) (take (n_tok b') ls))\<rparr> = a1"
    by (simp add: a1_def)
  have "ba_init b n_vocab mem n_embd m output_all a = Some (batch_accepted mem m b', a')"
    using \<open>0 < b_n_tokens b\<close> pre(1) a1
    by (cases P1; cases P3; cases "init_check_coupled mem m a3")
      (simp_all add: ba_init_def checks gp init_n_outputs_eq[OF ls] a2 a3 P a'_def n0)
  moreover have "ba_wf a'" if "batch_accepted mem m b'"
    using that b' pre(1) by (simp add: ba_wf_def Let_def a'_def ba_split_reset_def a3_def a2_def a1_def couple_upto_def ba_clear_def
        ba_get_n_tokens_def)
  ultimately show ?thesis
    using b'(1,4) sp ls
    by (intro exI[of _ b'] exI[of _ a']) (auto simp: a'_def a3_def ba_split_reset_def ba_get_n_tokens_def a2_def couple_upto_def a1_def ba_clear_def)
qed

lemma ba_init_reject:
  assumes backed: "batch_backed (ba_n_pos_per_embd a) n_embd b"
    and bad: "\<not> (m \<le> LLAMA_MAX_SEQ \<and> tokens_valid n_vocab b \<and> (b_seq_id b = None \<or> seq_ids_valid m b))"
  shows "ba_init b n_vocab mem n_embd m output_all a = Some (False, (ba_clear a)\<lparr>ba_batch := b\<rparr>)"
proof -
  have "init_check_tokens n_vocab b = Some (tokens_valid n_vocab b)" "0 < b_n_tokens b"
    using backed init_check_tokens_eq[of "ba_n_pos_per_embd a" n_embd b n_vocab] by (auto simp: batch_backed_def)
  then show ?thesis
    using bad init_check_seq_ids_eq[OF backed, of m]
    by (cases "tokens_valid n_vocab b"; cases "LLAMA_MAX_SEQ < m") (auto simp: ba_init_def)
qed

subsection \<open>Properties\<close>


definition example_batch :: llama_batch where
  "example_batch = \<lparr>b_n_tokens = 3, b_token = Some [7, 8, 9], b_embd = None, b_pos = Some [0, 1, 2],
     b_n_seq_id = Some [1, 1, 1], b_seq_id = Some [[0], [0], [0]], b_logits = Some [0, 0, 1]\<rparr>"

lemma example_batch_backed: "batch_backed 1 4 example_batch"
  by (simp add: batch_backed_def batch_readable_def example_batch_def i32_ok_def less_Suc_eq numeral_3_eq_3 All_less_Suc)

lemma example_batch_fits: "pos_start mem 0 \<le> INT32_MAX \<Longrightarrow> batch_fits mem 1 example_batch"
  by (auto simp: batch_fits_def example_batch_def tok_pos_def batch_pos_def less_Suc_eq numeral_3_eq_3 All_less_Suc Let_def)


text \<open>A batch of tokens only, as \<^verbatim>\<open>llama_batch_get_one\<close> makes it.\<close>

lemma get_one_rows:
  assumes "i < length ts"
  shows "tok_row (init_gen_seq_id (init_gen_n_seq_id (llama_batch_get_one (Some ts) (int (length ts))))) i = [0]"
  using assms by (simp add: llama_batch_get_one_def no_batch_def init_gen_n_seq_id_def init_gen_seq_id_def tok_row_def
      batch_n_seq_id_def)

lemma get_one_backed:
  assumes "ts \<noteq> []" "\<forall>t \<in> set ts. i32_ok t"
  shows "batch_backed 1 n_embd (llama_batch_get_one (Some ts) (int (length ts)))"
  using assms by (simp add: batch_backed_def batch_readable_def llama_batch_get_one_def no_batch_def)

lemma one_seq_positions:
  assumes rows: "\<And>i. i < n \<Longrightarrow> tok_row b i = [0]" and len: "length ps = n"
    and ps: "\<And>i. i < n \<Longrightarrow> ps ! i = next_pos b p0 ps (nat (tok_row b i ! 0)) i" and i: "i < n"
  shows "ps ! i = p0 0 + int i"
  using i
proof (induction i)
  case 0
  then show ?case using ps[of 0] rows[of 0] by (simp add: next_pos_def)
next
  case (Suc i)
  have "filter (\<lambda>j. 0 \<in> tok_seqs b j) [0..<Suc i] = [0..<Suc i]"
    using rows Suc.prems by (intro filter_True) (auto simp: tok_seqs_def)
  then have "next_pos b p0 ps 0 (Suc i) = ps ! i + 1" by (simp add: next_pos_def)
  then show ?case using ps[of "Suc i"] rows[of "Suc i"] Suc by simp
qed

lemma get_one_init:
  assumes "ts \<noteq> []" "\<forall>t \<in> set ts. i32_ok t \<and> 0 \<le> t \<and> t < int n_vocab" "0 < m" "m \<le> LLAMA_MAX_SEQ"
    "ba_n_pos_per_embd a = 1" "length (ba_seq_idx a) = LLAMA_MAX_SEQ"
    "\<forall>s < m. 0 \<le> pos_start mem s \<and> pos_start mem s + int (length ts) \<le> INT32_MAX"
  shows "\<exists>a'. ba_init (llama_batch_get_one (Some ts) (int (length ts))) n_vocab mem n_embd m output_all a = Some (True, a') \<and>
    b_pos (ba_batch a') = Some (map (\<lambda>i. pos_start mem 0 + int i) [0..<length ts])"
proof -
  let ?b = "llama_batch_get_one (Some ts) (int (length ts))" and ?p = "pos_start mem 0" and ?n = "length ts"
  have b: "n_tok ?b = ?n" "b_seq_id ?b = None" "b_pos ?b = None"
    by (simp_all add: llama_batch_get_one_def no_batch_def)
  have backed: "batch_backed (ba_n_pos_per_embd a) n_embd ?b" using get_one_backed assms by simp
  have tv: "tokens_valid n_vocab ?b"
    using assms(2) by (simp add: tokens_valid_def llama_batch_get_one_def no_batch_def)
  have fits: "batch_fits mem m ?b"
    using assms(7) b by (force simp: batch_fits_def)
  obtain b' a' where b': "init_batch mem m output_all ?b = Some b'" and
    a': "ba_init ?b n_vocab mem n_embd m output_all a = Some (batch_accepted mem m b', a')" "ba_batch a' = b'"
    using ba_init_eq[OF backed assms(3,6,4) tv _ fits, of output_all] b(2) by auto
  obtain ps where ps: "b_pos b' = Some ps" "length ps = ?n" "b_n_tokens b' = b_n_tokens ?b"
      "\<And>i. i < ?n \<Longrightarrow> ps ! i = next_pos b' (pos_start mem) ps (nat (tok_row b' i ! 0)) i"
      "tok_row b' = tok_row (init_gen_seq_id (init_gen_n_seq_id ?b))"
    using init_batch_ok[OF backed _ assms(3) fits, of output_all] b b' by auto
  have rows: "tok_row b' i = [0]" if "i < ?n" for i
    unfolding ps(5) using that by (rule get_one_rows)
  have n: "n_tok b' = ?n" using ps(3) b(1) by simp
  have nth: "ps ! i = ?p + int i" if "i < ?n" for i
    by (rule one_seq_positions[OF rows ps(2) ps(4)]) (use that in auto)
  have pos: "tok_pos b' i = ?p + int i" if "i < ?n" for i
    using nth[OF that] ps(1,2) that by (simp add: tok_pos_def batch_pos_def)
  have seqs: "tok_seqs b' i = {0}" if "i < ?n" for i using rows[OF that] by (simp add: tok_seqs_def)
  have "batch_positions b' 0 = {?p..?p + int ?n - 1}"
  proof -
    have "batch_positions b' 0 = tok_pos b' ` {..<?n}"
      unfolding batch_positions_def n by (auto simp: seqs)
    also have "\<dots> = (\<lambda>i. ?p + int i) ` {..<?n}" by (rule image_cong) (simp_all add: pos)
    also have "\<dots> = {?p..?p + int ?n - 1}"
    proof (rule set_eqI, rule iffI)
      fix x assume "x \<in> {?p..?p + int ?n - 1}"
      then have "x = ?p + int (nat (x - ?p))" "nat (x - ?p) < ?n" by auto
      then show "x \<in> (\<lambda>i. ?p + int i) ` {..<?n}" by blast
    qed auto
    finally show ?thesis .
  qed
  moreover have "batch_positions b' s = {}" if "s \<noteq> 0" for s
    using that seqs n by (auto simp: batch_positions_def)
  moreover have "starts_after mem t 0 ?p" for t
    by (auto simp: starts_after_def pos_start_def split: option.splits)
  moreover have "0 \<le> ?p" using assms(3,7) by blast
  moreover have "Min {?p..?p + int ?n - 1} = ?p" "Max {?p..?p + int ?n - 1} = ?p + int ?n - 1"
  proof -
    have "0 < int ?n" using assms(1) by simp
    then show "Min {?p..?p + int ?n - 1} = ?p" "Max {?p..?p + int ?n - 1} = ?p + int ?n - 1"
      by (auto intro!: Min_eqI Max_eqI)
  qed
  ultimately have "seq_pos_ok mem (b_token b' \<noteq> None) s (batch_positions b' s)" for s
    by (cases "s = 0") (simp_all add: seq_pos_ok_def)
  moreover have "batch_coupled_ok mem b'" using seqs n by (auto simp: batch_coupled_ok_def split: option.splits)
  ultimately have acc: "batch_accepted mem m b'"
    using pos n \<open>0 \<le> ?p\<close> by (auto simp: batch_accepted_def)
  have "ps = map (\<lambda>i. ?p + int i) [0..<?n]" using ps(2) nth by (auto intro: nth_equalityI)
  with a'(2) ps(1) have "b_pos (ba_batch a') = Some (map (\<lambda>i. ?p + int i) [0..<?n])" by simp
  moreover have "batch_accepted mem m b' = True" using acc by simp
  ultimately show ?thesis using a'(1) by (intro exI[of _ a']) simp
qed

text \<open>
  C9. A batch with only tokens, as \<^verbatim>\<open>llama_batch_get_one\<close> builds it, is accepted when its token ids are in the
  vocabulary and, for every sequence, its tokens fit between the next position of the sequence and the largest
  \<^verbatim>\<open>llama_pos\<close>: \<^verbatim>\<open>init\<close> puts it in sequence 0, right after what the memory holds.
\<close>

theorem get_one_accepted:
  assumes "ts \<noteq> []" "\<forall>t \<in> set ts. i32_ok t \<and> 0 \<le> t \<and> t < int n_vocab" "0 < m" "m \<le> LLAMA_MAX_SEQ"
    "ba_n_pos_per_embd a = 1" "length (ba_seq_idx a) = LLAMA_MAX_SEQ"
    "\<forall>s < m. 0 \<le> pos_start mem s \<and> pos_start mem s + int (length ts) \<le> INT32_MAX"
  shows "\<exists>a'. ba_init (llama_batch_get_one (Some ts) (int (length ts))) n_vocab mem n_embd m output_all a = Some (True, a') \<and>
    b_pos (ba_batch a') = Some (map (\<lambda>i. pos_start mem 0 + int i) [0..<length ts])"
  using assms by (rule get_one_init)

theorem get_one_accepted_witness:
  "\<exists>a'. ba_init (llama_batch_get_one (Some [7, 8]) (int (length [7, 8 :: int]))) 10
      (Some \<lparr>mv_seq_pos_min = \<lambda>_. 0, mv_seq_pos_max = \<lambda>_. 4\<rparr>) 4 1 False (batch_allocr_new 1) = Some (True, a') \<and>
    b_pos (ba_batch a') = Some [5, 6]"
  using get_one_accepted[of "[7, 8]" 10 1 "batch_allocr_new 1" "Some \<lparr>mv_seq_pos_min = \<lambda>_. 0, mv_seq_pos_max = \<lambda>_. 4\<rparr>" 4 False]
  by (simp add: batch_allocr_new_def i32_ok_def pos_start_def)

text \<open>
  C10. The last check of \<^verbatim>\<open>init\<close>, documented to refuse partial sub-sets of a sequence set and decreasing
  positions, does neither: it accepts every batch that has no position below -1, whatever the sets and
  the order of the positions. The witness is the first batch the comment calls invalid.
\<close>

theorem init_check_subsets_vacuous:
  assumes "batch_full m b" "m \<le> LLAMA_MAX_SEQ" "ba_batch a = b" "ba_seq_set a = map (tok_seqs b) [0..<n_tok b]"
  shows "init_check_subsets m a = Some (\<forall>i < n_tok b. -1 \<le> tok_pos b i)"
  using assms by (rule init_check_subsets_eq)

definition doc_invalid_batch :: llama_batch where
  "doc_invalid_batch = \<lparr>b_n_tokens = 3, b_token = Some [1, 1, 1], b_embd = None, b_pos = Some [2, 1, 0],
     b_n_seq_id = Some [3, 2, 2], b_seq_id = Some [[0, 1, 2], [0, 1], [1, 2]], b_logits = Some [0, 0, 1]\<rparr>"

lemma doc_invalid_rows:
  "i < 3 \<Longrightarrow> row_ok doc_invalid_batch i \<and> tok_row doc_invalid_batch i = [[0, 1, 2], [0, 1], [1, 2]] ! i \<and>
     tok_pos doc_invalid_batch i = [2, 1, 0] ! i"
  by (auto simp: doc_invalid_batch_def row_ok_def tok_row_def tok_pos_def batch_n_seq_id_def batch_pos_def less_Suc_eq numeral_3_eq_3)

theorem init_check_subsets_vacuous_witness:
  "init_check_subsets 3 ((batch_allocr_new 1)\<lparr>ba_batch := doc_invalid_batch,
     ba_seq_set := [{0, 1, 2}, {0, 1}, {1, 2}]\<rparr>) = Some True"
proof -
  have n: "n_tok doc_invalid_batch = 3" by (simp add: doc_invalid_batch_def)
  have full: "batch_full 3 doc_invalid_batch"
    using doc_invalid_rows
    by (auto simp: batch_full_def rows_ok_def n less_Suc_eq numeral_3_eq_3) (auto simp: doc_invalid_batch_def)
  have "map (tok_seqs doc_invalid_batch) [0..<3] = [{0, 1, 2}, {0, 1}, {1, 2}]"
    using doc_invalid_rows[of 0] doc_invalid_rows[of 1] doc_invalid_rows[of 2]
    by (simp add: tok_seqs_def upt_rec numeral_2_eq_2)
  moreover have "\<forall>i < 3. -1 \<le> tok_pos doc_invalid_batch i"
    using doc_invalid_rows by (auto simp: less_Suc_eq numeral_3_eq_3)
  ultimately show ?thesis
    using init_check_subsets_vacuous[OF full, of "(batch_allocr_new 1)\<lparr>ba_batch := doc_invalid_batch,
     ba_seq_set := [{0, 1, 2}, {0, 1}, {1, 2}]\<rparr>"] by (simp add: n)
qed

end
