(* ===== verification/Batch_Split.thy ===== *)
theory Batch_Split
  imports Batch_Init
begin

text \<open>
  Correctness of the functions that cut an initialised batch into micro-batches. \<open>takes a idxs ub a'\<close> is
  the contract of one split: the micro-batch \<open>ub\<close> holds the rows \<open>idxs\<close> of the batch, none of which was
  used, and afterwards exactly these are used in addition. The locale \<open>batch_splitter\<close> has it as the
  law of a splitting function; its client is the loop of the memory modules that splits until nothing
  is left.
\<close>

definition unused :: "llama_batch_allocr \<Rightarrow> nat set" where
  "unused a = {i. i < n_tok (ba_batch a) \<and> \<not> ba_used a ! i}"

definition n_pos_cur :: "llama_batch_allocr \<Rightarrow> nat" where
  "n_pos_cur a = (if b_embd (ba_batch a) \<noteq> None then ba_n_pos_per_embd a else 1)"

definition tok_output :: "llama_batch \<Rightarrow> nat \<Rightarrow> bool" where
  "tok_output b i \<longleftrightarrow> (case b_logits b of Some ls \<Rightarrow> ls ! i \<noteq> 0 | None \<Rightarrow> False)"

text \<open>The micro-batch made of the rows \<open>idxs\<close>.\<close>

definition ubatch_rows :: "llama_batch_allocr \<Rightarrow> nat list \<Rightarrow> llama_ubatch \<Rightarrow> bool" where
  "ubatch_rows a idxs ub \<longleftrightarrow> (let b = ba_batch a in
     ub_n_tokens ub = length idxs \<and>
     ub_token ub = map_option (\<lambda>ts. map (\<lambda>i. ts ! i) idxs) (b_token b) \<and>
     ub_embd ub = map_option (\<lambda>es. concat (map (\<lambda>i. take (ba_n_embd a) (drop (i * ba_n_embd a) es)) idxs)) (b_embd b) \<and>
     ub_pos ub = concat (map (\<lambda>j. map (\<lambda>i. tok_pos b (j * n_tok b + i)) idxs) [0..<n_pos_cur a]) \<and>
     length (ub_n_seq_id ub) = length idxs \<and> length (ub_seq_id ub) = length idxs \<and>
     (\<forall>k < length idxs. nat (ub_n_seq_id ub ! k) \<le> length (ub_seq_id ub ! k) \<and>
        take (nat (ub_n_seq_id ub ! k)) (ub_seq_id ub ! k) = tok_row b (idxs ! k)) \<and>
     map (\<lambda>l. l \<noteq> 0) (ub_output ub) = map (tok_output b) idxs \<and>
     ub_seq_id_unq ub = unq_ids (\<Union>i \<in> set idxs. tok_seqs b i) (ba_n_seq_max a) \<and>
     ub_seq_idx ub = unq_idx (\<Union>i \<in> set idxs. tok_seqs b i) (ba_n_seq_max a) \<and>
     ub_n_seqs_unq ub = length (ub_seq_id_unq ub))"

definition ba_static :: "llama_batch_allocr \<Rightarrow> bool" where
  "ba_static a \<longleftrightarrow> batch_full (ba_n_seq_max a) (ba_batch a) \<and> ba_n_seq_max a \<le> LLAMA_MAX_SEQ \<and>
     batch_readable (ba_n_pos_per_embd a) (ba_n_embd a) (ba_batch a)"

lemma ba_wf_static: "ba_wf a \<Longrightarrow> ba_static a"
  by (simp add: ba_wf_def ba_static_def Let_def)

lemma ubatch_pos_eq:
  assumes "ba_static a" "set idxs \<subseteq> {..<n_tok (ba_batch a)}"
  shows "map_opt (\<lambda>(j, i). batch_pos (ba_batch a) (j * n_tok (ba_batch a) + i))
        (concat (map (\<lambda>j. map (Pair j) idxs) [0..<n_pos_cur a])) =
    Some (concat (map (\<lambda>j. map (\<lambda>i. tok_pos (ba_batch a) (j * n_tok (ba_batch a) + i)) idxs) [0..<n_pos_cur a]))"
proof -
  let ?b = "ba_batch a" and ?n = "n_tok (ba_batch a)"
  obtain ps where ps: "b_pos ?b = Some ps" "?n * n_pos_cur a \<le> length ps"
    using assms(1) by (auto simp: ba_static_def batch_full_def batch_readable_def n_pos_cur_def split: if_splits)
  have "j * ?n + i < length ps" if "j < n_pos_cur a" "i < ?n" for i j
  proof -
    have "j * ?n + i < (j + 1) * ?n" using that by simp
    also have "\<dots> \<le> n_pos_cur a * ?n" using that by (intro mult_le_mono1) simp
    finally show ?thesis using ps(2) by (simp add: mult.commute)
  qed
  then have "map_opt (\<lambda>(j, i). batch_pos ?b (j * ?n + i)) (concat (map (\<lambda>j. map (Pair j) idxs) [0..<n_pos_cur a])) =
      Some (map (\<lambda>(j, i). tok_pos ?b (j * ?n + i)) (concat (map (\<lambda>j. map (Pair j) idxs) [0..<n_pos_cur a])))"
    using assms(2) ps(1) by (intro map_opt_total) (auto simp: batch_pos_def tok_pos_def)
  then show ?thesis by (simp add: map_concat o_def)
qed

lemma ba_ubatch_add_ok:
  assumes st: "ba_static a" and idxs: "set idxs \<subseteq> {..<n_tok (ba_batch a)}"
    and seqs: "0 < n_seqs" "length idxs mod n_seqs = 0" and ne: "idxs \<noteq> []"
  shows "\<exists>ub. ba_ubatch_add idxs n_seqs eq a =
      Some (ub, a\<lparr>ba_out_ids := ba_out_ids a @ filter (tok_output (ba_batch a)) idxs\<rparr>) \<and>
      ubatch_rows a idxs ub \<and> ub_n_seqs ub = n_seqs \<and> ub_n_seq_tokens ub = length idxs div n_seqs \<and>
      ub_equal_seqs ub = eq"
proof -
  let ?b = "ba_batch a" and ?n = "n_tok (ba_batch a)"
  have rows: "rows_ok (ba_n_seq_max a) ?b" using st by (simp add: ba_static_def batch_full_def)
  obtain ls where ls: "b_logits ?b = Some ls" "?n \<le> length ls" using st by (auto simp: ba_static_def batch_full_def)
  have ix: "i < ?n" if "i \<in> set idxs" for i using idxs that by blast
  have tok: "(case b_token ?b of None \<Rightarrow> Some None | Some ts \<Rightarrow> map_option Some (map_opt (vec_at ts) idxs)) =
      Some (map_option (\<lambda>ts. map (\<lambda>i. ts ! i) idxs) (b_token ?b))"
  proof (cases "b_token ?b")
    case (Some ts)
    then have "?n \<le> length ts" using st by (simp add: ba_static_def batch_readable_def)
    then have "map_opt (vec_at ts) idxs = Some (map (\<lambda>i. ts ! i) idxs)"
      by (intro map_opt_total) (use ix in force)
    with Some show ?thesis by simp
  qed simp
  have emb: "(case b_embd ?b of None \<Rightarrow> Some None
        | Some es \<Rightarrow> map_option (Some \<circ> concat) (map_opt (ubatch_embd (ba_n_embd a) es) idxs)) =
      Some (map_option (\<lambda>es. concat (map (\<lambda>i. take (ba_n_embd a) (drop (i * ba_n_embd a) es)) idxs)) (b_embd ?b))"
  proof (cases "b_embd ?b")
    case (Some es)
    then have es: "?n * ba_n_embd a \<le> length es" using st by (simp add: ba_static_def batch_readable_def)
    have "i * ba_n_embd a + ba_n_embd a \<le> length es" if "i \<in> set idxs" for i
      using es mult_le_mono1[of "i + 1" ?n "ba_n_embd a"] ix[OF that] by (simp add: add.commute)
    then have "map_opt (ubatch_embd (ba_n_embd a) es) idxs = Some (map (\<lambda>i. take (ba_n_embd a) (drop (i * ba_n_embd a) es)) idxs)"
      by (intro map_opt_total) (simp add: ubatch_embd_def)
    with Some show ?thesis by simp
  qed simp
  have "hd idxs < ?n" using ix ne by simp
  then obtain ns rws where nr: "b_n_seq_id ?b = Some ns" "b_seq_id ?b = Some rws"
    using rows_okD(1)[OF rows \<open>hd idxs < ?n\<close>] unfolding row_ok_def by blast
  have rix: "i < length ns" "i < length rws" "nat (ns ! i) \<le> length (rws ! i) \<and> tok_row ?b i = take (nat (ns ! i)) (rws ! i)"
      "token_seq_set ?b i = Some (tok_seqs ?b i)" if "i \<in> set idxs" for i
  proof -
    note r = rows_okD[OF rows ix[OF that]]
    show "i < length ns" "i < length rws" using r(1) nr by (auto simp: row_ok_def)
    then show "nat (ns ! i) \<le> length (rws ! i) \<and> tok_row ?b i = take (nat (ns ! i)) (rws ! i)"
      using nr r(1) by (auto simp: tok_row_def batch_n_seq_id_def row_ok_def)
    have "set (tok_row ?b i) \<subseteq> {0..<int LLAMA_MAX_SEQ}" using r(3) st by (force simp: ba_static_def)
    with r(1) show "token_seq_set ?b i = Some (tok_seqs ?b i)" by (rule token_seq_set_ok)
  qed
  have maps: "map_opt (batch_n_seq_id ?b) idxs = Some (map (\<lambda>i. ns ! i) idxs)"
      "map_opt (vec_at rws) idxs = Some (map (\<lambda>i. rws ! i) idxs)"
      "map_opt (vec_at ls) idxs = Some (map (\<lambda>i. ls ! i) idxs)"
      "map_opt (token_seq_set ?b) idxs = Some (map (tok_seqs ?b) idxs)"
    using rix ix ls(2) nr by (force intro!: map_opt_total simp: batch_n_seq_id_def)+
  have num: "number_seqs (ba_n_seq_max a) (\<Union> (set (map (tok_seqs ?b) idxs))) ([], replicate LLAMA_MAX_SEQ (-1)) =
      Some (unq_ids (\<Union>i \<in> set idxs. tok_seqs ?b i) (ba_n_seq_max a), unq_idx (\<Union>i \<in> set idxs. tok_seqs ?b i) (ba_n_seq_max a))"
    using number_seqs_eq st by (simp add: ba_static_def)
  have out: "map fst (filter (\<lambda>(i, out). out \<noteq> 0) (zip idxs (map (\<lambda>i. ls ! i) idxs))) = filter (tok_output ?b) idxs"
    using ls by (induction idxs) (auto simp: tok_output_def)
  note pos = ubatch_pos_eq[OF st idxs]
  let ?unq = "\<Union>i \<in> set idxs. tok_seqs ?b i"
  let ?ub = "\<lparr>ub_equal_seqs = eq, ub_n_tokens = length idxs, ub_n_seq_tokens = length idxs div n_seqs,
     ub_n_seqs = n_seqs, ub_n_seqs_unq = length (unq_ids ?unq (ba_n_seq_max a)),
     ub_token = map_option (\<lambda>ts. map (\<lambda>i. ts ! i) idxs) (b_token ?b),
     ub_embd = map_option (\<lambda>es. concat (map (\<lambda>i. take (ba_n_embd a) (drop (i * ba_n_embd a) es)) idxs)) (b_embd ?b),
     ub_pos = concat (map (\<lambda>j. map (\<lambda>i. tok_pos ?b (j * ?n + i)) idxs) [0..<n_pos_cur a]),
     ub_n_seq_id = map (\<lambda>i. ns ! i) idxs, ub_seq_id = map (\<lambda>i. rws ! i) idxs,
     ub_seq_id_unq = unq_ids ?unq (ba_n_seq_max a), ub_seq_idx = unq_idx ?unq (ba_n_seq_max a),
     ub_output = map (\<lambda>i. ls ! i) idxs\<rparr>"
  have "ba_ubatch_add idxs n_seqs eq a =
      Some (?ub, a\<lparr>ba_out_ids := ba_out_ids a @ filter (tok_output ?b) idxs\<rparr>)"
    using seqs unfolding ba_ubatch_add_def Let_def n_pos_cur_def[symmetric] tok emb bind.bind_lunit pos maps nr ls num out
    by simp
  moreover have "ubatch_rows a idxs ?ub"
    using rix(3) ls by (simp add: ubatch_rows_def Let_def tok_output_def)
  ultimately show ?thesis by (intro exI[of _ ?ub]) simp
qed

subsection \<open>The contract of a split\<close>

definition mark_all :: "nat list \<Rightarrow> llama_batch_allocr \<Rightarrow> llama_batch_allocr" where
  "mark_all idxs a = a\<lparr>ba_used := fold (\<lambda>i u. u[i := True]) idxs (ba_used a), ba_n_used := ba_n_used a + length idxs\<rparr>"

lemma mark_all_simps [simp]:
  "mark_all [] a = a" "mark_all (idxs @ [i]) a = ba_mark i (mark_all idxs a)"
  "ba_batch (mark_all idxs a) = ba_batch a" "ba_static (mark_all idxs a) = ba_static a"
  "ba_out_ids (mark_all idxs a) = ba_out_ids a" "ba_seq_set (mark_all idxs a) = ba_seq_set a"
  by (simp_all add: mark_all_def ba_mark_def ba_static_def)

definition takes :: "llama_batch_allocr \<Rightarrow> nat list \<Rightarrow> llama_ubatch \<Rightarrow> llama_batch_allocr \<Rightarrow> bool" where
  "takes a idxs ub a' \<longleftrightarrow> distinct idxs \<and> set idxs \<subseteq> unused a \<and> ub_n_tokens ub = length idxs \<and>
     (idxs \<noteq> [] \<longrightarrow> ubatch_rows a idxs ub) \<and>
     a' = (mark_all idxs a)\<lparr>ba_out_ids := ba_out_ids a @ filter (tok_output (ba_batch a)) idxs\<rparr>"

lemma length_mark [simp]: "length (fold (\<lambda>i u. u[i := True]) idxs us) = length us"
  by (induction idxs arbitrary: us) auto

lemma nth_mark: "k < length us \<Longrightarrow> fold (\<lambda>i u. u[i := True]) idxs us ! k = (us ! k \<or> k \<in> set idxs)"
proof (induction idxs arbitrary: us)
  case (Cons i idxs)
  then show ?case by (cases "k = i") auto
qed simp

lemma used_mark_all: "k < length (ba_used a) \<Longrightarrow> ba_used (mark_all idxs a) ! k = (ba_used a ! k \<or> k \<in> set idxs)"
  by (simp add: mark_all_def nth_mark)

lemma count_mark:
  assumes "distinct idxs" "\<forall>i \<in> set idxs. i < length us \<and> \<not> us ! i"
  shows "length (filter (\<lambda>u. u) (fold (\<lambda>i u. u[i := True]) idxs us)) = length (filter (\<lambda>u. u) us) + length idxs"
proof -
  let ?T = "\<lambda>us. {k. k < length us \<and> us ! k}"
  have "?T (fold (\<lambda>i u. u[i := True]) idxs us) = ?T us \<union> set idxs"
    using assms(2) nth_mark[of _ us idxs] by auto
  moreover have "?T us \<inter> set idxs = {}" using assms(2) by auto
  ultimately show ?thesis
    using assms(1) by (simp add: length_filter_conv_card card_Un_disjoint distinct_card)
qed

lemma takes_static:
  assumes "takes a idxs ub a'"
  shows "ba_batch a' = ba_batch a" "ba_has_cpl a' = ba_has_cpl a" "ubatch_rows a' = ubatch_rows a"
proof -
  have a': "a' = (mark_all idxs a)\<lparr>ba_out_ids := ba_out_ids a @ filter (tok_output (ba_batch a)) idxs\<rparr>"
    using assms by (simp add: takes_def)
  show "ba_batch a' = ba_batch a" "ba_has_cpl a' = ba_has_cpl a" by (simp_all add: a' mark_all_def)
  show "ubatch_rows a' = ubatch_rows a" by (simp add: a' mark_all_def ubatch_rows_def[abs_def] n_pos_cur_def)
qed

lemma takes_unused: "ba_wf a \<Longrightarrow> takes a idxs ub a' \<Longrightarrow> unused a' = unused a - set idxs"
proof -
  assume wf: "ba_wf a" and t: "takes a idxs ub a'"
  have "length (ba_used a) = n_tok (ba_batch a)" using wf by (simp add: ba_wf_def Let_def)
  moreover have "ba_used a' = ba_used (mark_all idxs a)" using t by (simp add: takes_def)
  ultimately show ?thesis
    unfolding unused_def takes_static(1)[OF t] by (auto simp: used_mark_all)
qed

lemma takes_wf:
  assumes "ba_wf a" "takes a idxs ub a'"
  shows "ba_wf a'"
proof -
  have "\<forall>i \<in> set idxs. i < length (ba_used a) \<and> \<not> ba_used a ! i"
    using assms by (auto simp: takes_def unused_def ba_wf_def Let_def)
  then show ?thesis
    using assms count_mark[of idxs "ba_used a"] by (auto simp: ba_wf_def Let_def takes_def mark_all_def)
qed

lemma finite_unused [simp]: "finite (unused a)"
  by (simp add: unused_def)

lemma unused_empty:
  assumes "ba_wf a" "unused a = {}"
  shows "ba_n_used a = ba_get_n_tokens a"
proof -
  have "filter (\<lambda>u. u) (ba_used a) = ba_used a"
    using assms by (intro filter_True) (auto simp: unused_def ba_wf_def Let_def in_set_conv_nth)
  with assms show ?thesis by (simp add: ba_wf_def Let_def ba_get_n_tokens_def)
qed

text \<open>
  The loop of \<^verbatim>\<open>llama_kv_cache::init_batch\<close> and its siblings: split until a micro-batch is empty. The
  source loops without a bound; \<open>fuel\<close> above the number of tokens is enough for every splitter.
\<close>

primrec split_loop :: "(llama_batch_allocr \<Rightarrow> (llama_ubatch \<times> llama_batch_allocr) option) \<Rightarrow> nat \<Rightarrow>
    llama_batch_allocr \<Rightarrow> (llama_ubatch list \<times> llama_batch_allocr) option" where
  "split_loop split 0 a = None"
| "split_loop split (Suc fuel) a = do {
     (ub, a) \<leftarrow> split a;
     if ub_n_tokens ub = 0 then Some ([], a)
     else do { (ubs, a) \<leftarrow> split_loop split fuel a; Some (ub # ubs, a) } }"

locale batch_splitter =
  fixes split :: "llama_batch_allocr \<Rightarrow> (llama_ubatch \<times> llama_batch_allocr) option"
    and pre :: "llama_batch_allocr \<Rightarrow> bool"
  assumes pre_wf: "pre a \<Longrightarrow> ba_wf a"
    and split_takes: "pre a \<Longrightarrow> \<exists>idxs ub a'. split a = Some (ub, a') \<and> takes a idxs ub a' \<and>
          (unused a \<noteq> {} \<longrightarrow> idxs \<noteq> []) \<and> pre a'"
begin

lemma split_loop_partition:
  assumes "pre a" "card (unused a) < fuel"
  shows "\<exists>ubs a' idxss. split_loop split fuel a = Some (ubs, a') \<and>
    list_all2 (ubatch_rows a) idxss ubs \<and> distinct (concat idxss) \<and> set (concat idxss) = unused a \<and>
    ba_n_used a' = ba_get_n_tokens a \<and> ba_batch a' = ba_batch a \<and>
    ba_out_ids a' = ba_out_ids a @ filter (tok_output (ba_batch a)) (concat idxss)"
  using assms
proof (induction fuel arbitrary: a)
  case (Suc fuel)
  obtain idxs ub a' where s: "split a = Some (ub, a')" "takes a idxs ub a'" "unused a \<noteq> {} \<longrightarrow> idxs \<noteq> []"
    and pre': "pre a'"
    using split_takes[OF Suc.prems(1)] by blast
  have sub: "set idxs \<subseteq> unused a" "distinct idxs" "ub_n_tokens ub = length idxs" using s(2) by (auto simp: takes_def)
  note wf = pre_wf[OF Suc.prems(1)]
  have out: "ba_out_ids a' = ba_out_ids a @ filter (tok_output (ba_batch a)) idxs"
    using s(2) by (simp add: takes_def)
  show ?case
  proof (cases "idxs = []")
    case True
    then have "unused a = {}" "a' = a" using s(2,3) by (auto simp: takes_def)
    with True show ?thesis
      using s(1) sub(3) unused_empty[OF wf] by (intro exI[of _ "[]"] exI[of _ a']) simp
  next
    case False
    have un: "unused a' = unused a - set idxs" by (rule takes_unused[OF wf s(2)])
    have "card (unused a') < card (unused a)"
      unfolding un using sub(1) False by (intro psubset_card_mono) (auto simp: neq_Nil_conv)
    with Suc.prems have "card (unused a') < fuel" by simp
    from Suc.IH[OF pre' this] obtain ubs a'' idxss where
      l: "split_loop split fuel a' = Some (ubs, a'')" "list_all2 (ubatch_rows a) idxss ubs"
        "distinct (concat idxss)" "set (concat idxss) = unused a'" "ba_n_used a'' = ba_get_n_tokens a" "ba_batch a'' = ba_batch a"
        "ba_out_ids a'' = ba_out_ids a' @ filter (tok_output (ba_batch a)) (concat idxss)"
      unfolding takes_static[OF s(2)] ba_get_n_tokens_def by blast
    have "ubatch_rows a idxs ub" using s(2) False by (simp add: takes_def)
    then show ?thesis
      using s(1) l sub un out False
      by (intro exI[of _ "ub # ubs"] exI[of _ a''] exI[of _ "idxs # idxss"]) auto
  qed
qed simp

end

subsection \<open>split\_simple\<close>

lemma mark_all_Cons: "mark_all (i # idxs) a = mark_all idxs (ba_mark i a)"
  by (simp add: mark_all_def ba_mark_def)

lemma simple_loop_eq:
  assumes "cur < length (ba_used a)"
  shows "simple_loop n_ubatch cur idxs a =
    (let k = min (max 1 (n_ubatch - length idxs)) (length (ba_used a) - cur)
     in (idxs @ [cur..<cur + k], mark_all [cur..<cur + k] a))"
  using assms
proof (induction n_ubatch cur idxs a rule: simple_loop.induct)
  case (1 n_ubatch cur idxs a)
  let ?a = "ba_mark cur a"
  have len: "length (ba_used ?a) = length (ba_used a)" by (simp add: ba_mark_def)
  have one: "min (max 1 (n_ubatch - length idxs)) (length (ba_used a) - cur) = 1"
    if "Suc cur \<ge> length (ba_used a) \<or> Suc (length idxs) \<ge> n_ubatch"
  proof -
    have "length (ba_used a) - cur \<ge> 1" using "1.prems" by simp
    moreover have "length (ba_used a) - cur = 1 \<or> max 1 (n_ubatch - length idxs) = 1"
      using that "1.prems" by auto
    ultimately show ?thesis by auto
  qed
  consider "min (max 1 (n_ubatch - length idxs)) (length (ba_used a) - cur) = 1"
      "Suc cur \<ge> length (ba_used a) \<or> Suc (length idxs) \<ge> n_ubatch"
    | "Suc cur < length (ba_used a)" "Suc (length idxs) < n_ubatch"
    using one by linarith
  then show ?case
  proof cases
    case 1
    moreover have "[cur..<cur + 1] = [cur]" by simp
    ultimately show ?thesis by (subst simple_loop.simps) (auto simp: len mark_all_Cons Let_def)
  next
    case 2
    define k where "k = min (max 1 (n_ubatch - Suc (length idxs))) (length (ba_used a) - Suc cur)"
    have "min (max 1 (n_ubatch - length idxs)) (length (ba_used a) - cur) = Suc k"
      using 2 by (auto simp: k_def min_def max_def)
    moreover have "[cur..<cur + Suc k] = cur # [Suc cur..<Suc cur + k]" by (simp add: upt_conv_Cons)
    moreover have "simple_loop n_ubatch (Suc cur) (idxs @ [cur]) ?a =
        (idxs @ [cur] @ [Suc cur..<Suc cur + k], mark_all [Suc cur..<Suc cur + k] ?a)"
      using 2 "1.IH"[OF refl refl refl] len by (simp add: k_def Let_def)
    moreover have "simple_loop n_ubatch cur idxs a = simple_loop n_ubatch (Suc cur) (idxs @ [cur]) ?a"
      using 2 by (subst simple_loop.simps) (simp add: len)
    ultimately show ?thesis by (simp add: mark_all_Cons)
  qed
qed

definition simple_pre :: "llama_batch_allocr \<Rightarrow> bool" where
  "simple_pre a \<longleftrightarrow> ba_wf a \<and> (\<exists>k \<le> n_tok (ba_batch a). unused a = {k..<n_tok (ba_batch a)})"

text \<open>One call takes the next \<open>max 1 n_ubatch\<close> tokens in order, or the rest.\<close>

lemma split_simple_takes:
  fixes n_ubatch :: nat
  assumes wf: "ba_wf a" and k: "unused a = {k..<n_tok (ba_batch a)}" "k \<le> n_tok (ba_batch a)"
  defines "idxs \<equiv> [k..<min (k + max 1 n_ubatch) (n_tok (ba_batch a))]"
  shows "\<exists>ub a'. ba_split_simple n_ubatch a = Some (ub, a') \<and> takes a idxs ub a' \<and>
    (idxs \<noteq> [] \<longrightarrow> ub_n_seqs ub = length idxs \<and> ub_n_seq_tokens ub = 1)"
proof (cases "k = n_tok (ba_batch a)")
  case True
  have len: "length (ba_used a) = n_tok (ba_batch a)" using wf by (simp add: ba_wf_def Let_def)
  have "\<not> first_index Not (ba_used a) < length (ba_used a)"
    unfolding first_index_less_iff using k(1) True len by (auto simp: in_set_conv_nth unused_def)
  then show ?thesis using True by (simp add: ba_split_simple_def takes_def no_ubatch_def idxs_def)
next
  case False
  with k(2) have kn: "k < n_tok (ba_batch a)" by simp
  have len: "length (ba_used a) = n_tok (ba_batch a)" using wf by (simp add: ba_wf_def Let_def)
  have used: "ba_used a ! i \<longleftrightarrow> i < k" if "i < n_tok (ba_batch a)" for i
  proof -
    have "i \<in> unused a \<longleftrightarrow> k \<le> i" using k(1) that by simp
    then show ?thesis using that by (auto simp: unused_def)
  qed
  have fi: "first_index Not (ba_used a) = k"
    by (rule first_index_eqI) (use kn len used in auto)
  define j where "j = min (max 1 n_ubatch) (length (ba_used a) - k)"
  have "k + j = min (k + max 1 n_ubatch) (n_tok (ba_batch a))"
    using kn unfolding j_def len by linarith
  then have idxs: "idxs = [k..<k + j]" by (simp only: idxs_def)
  have loop: "simple_loop n_ubatch k [] a = (idxs, mark_all idxs a)"
    unfolding idxs using simple_loop_eq[of k a n_ubatch "[]"] kn len by (simp add: j_def Let_def)
  have "0 < j" using kn len by (simp add: j_def)
  then have ne: "idxs \<noteq> []" by (simp add: idxs)
  have "\<exists>ub. ba_ubatch_add idxs (length idxs) False (mark_all idxs a) =
      Some (ub, (mark_all idxs a)\<lparr>ba_out_ids := ba_out_ids (mark_all idxs a) @ filter (tok_output (ba_batch (mark_all idxs a))) idxs\<rparr>) \<and>
      ubatch_rows (mark_all idxs a) idxs ub \<and> ub_n_seqs ub = length idxs \<and> ub_n_seq_tokens ub = length idxs div length idxs \<and>
      ub_equal_seqs ub = False"
    by (rule ba_ubatch_add_ok) (use ba_wf_static[OF wf] ne in \<open>auto simp: idxs_def\<close>)
  moreover have "ubatch_rows (mark_all idxs a) = ubatch_rows a"
    by (simp add: ubatch_rows_def[abs_def] mark_all_def n_pos_cur_def)
  moreover have "set idxs \<subseteq> unused a" "distinct idxs" using k by (auto simp: idxs_def)
  ultimately show ?thesis
    using ne fi kn len loop by (auto simp: ba_split_simple_def takes_def ubatch_rows_def Let_def)
qed

lemma split_simple_splitter:
  "simple_pre a \<Longrightarrow> \<exists>idxs ub a'. ba_split_simple n_ubatch a = Some (ub, a') \<and> takes a idxs ub a' \<and>
     (unused a \<noteq> {} \<longrightarrow> idxs \<noteq> []) \<and> simple_pre a'"
proof -
  assume "simple_pre a"
  then obtain k where wf: "ba_wf a" and k: "unused a = {k..<n_tok (ba_batch a)}" "k \<le> n_tok (ba_batch a)"
    by (auto simp: simple_pre_def)
  let ?m = "min (k + max 1 n_ubatch) (n_tok (ba_batch a))"
  obtain ub a' where s: "ba_split_simple n_ubatch a = Some (ub, a')" "takes a [k..<?m] ub a'"
    using split_simple_takes[OF wf k, of n_ubatch] by blast
  have m: "k \<le> ?m" "?m \<le> n_tok (ba_batch a)" "k < n_tok (ba_batch a) \<Longrightarrow> k < ?m" using k(2) by linarith+
  have "unused a' = {?m..<n_tok (ba_batch a')}"
    using takes_unused[OF wf s(2)] takes_static[OF s(2)] k(1) m by auto
  then have "simple_pre a'"
    using takes_wf[OF wf s(2)] takes_static[OF s(2)] m(2) unfolding simple_pre_def by metis
  moreover have "unused a \<noteq> {} \<longrightarrow> [k..<?m] \<noteq> []" using m k(1) by auto
  ultimately show ?thesis using s by blast
qed

interpretation simple: batch_splitter "ba_split_simple n_ubatch" simple_pre for n_ubatch
proof
  show "simple_pre a \<Longrightarrow> ba_wf a" for a by (simp add: simple_pre_def)
qed (rule split_simple_splitter)

subsection \<open>split\_seq\<close>

lemma seq_next_ok:
  assumes "length (ba_used a) = ba_get_n_tokens a" "length (ba_seq_set a) = ba_get_n_tokens a" "cur < ba_get_n_tokens a"
  shows "\<exists>cur'. seq_next a S cur = Some cur' \<and> cur < cur' \<and> cur' \<le> ba_get_n_tokens a \<and>
    (cur' < ba_get_n_tokens a \<longrightarrow> \<not> ba_used a ! cur' \<and> ba_seq_set a ! cur' \<subseteq> S)"
  using assms
proof (induction a S cur rule: seq_next.induct)
  case (1 a S cur)
  show ?case
  proof (cases "Suc cur < ba_get_n_tokens a \<and> (ba_used a ! Suc cur \<or> S \<inter> ba_seq_set a ! Suc cur \<noteq> ba_seq_set a ! Suc cur)")
    case True
    then have "seq_next a S cur = seq_next a S (Suc cur)"
      using "1.prems" by (simp add: seq_next.simps[of a S cur])
    with True "1.IH"[OF refl, of "ba_used a ! Suc cur" "ba_seq_set a ! Suc cur"] "1.prems" show ?thesis by auto
  next
    case False
    then show ?thesis
      using "1.prems" by (auto simp: seq_next.simps[of a S cur] intro!: exI[of _ "Suc cur"])
  qed
qed

definition shrinking :: "llama_batch \<Rightarrow> nat list \<Rightarrow> bool" where
  "shrinking b idxs \<longleftrightarrow> (\<forall>k. Suc k < length idxs \<longrightarrow> tok_seqs b (idxs ! Suc k) \<subseteq> tok_seqs b (idxs ! k))"

lemma shrinking_snoc: "shrinking b (idxs @ [i, j]) \<longleftrightarrow> shrinking b (idxs @ [i]) \<and> tok_seqs b j \<subseteq> tok_seqs b i"
proof
  assume s: "shrinking b (idxs @ [i, j])"
  have "tok_seqs b ((idxs @ [i]) ! Suc k) \<subseteq> tok_seqs b ((idxs @ [i]) ! k)" if "Suc k < length (idxs @ [i])" for k
    using s[unfolded shrinking_def, rule_format, of k] that by (auto simp: nth_append split: if_splits)
  moreover have "tok_seqs b j \<subseteq> tok_seqs b i"
    using s[unfolded shrinking_def, rule_format, of "length idxs"] by (simp add: nth_append)
  ultimately show "shrinking b (idxs @ [i]) \<and> tok_seqs b j \<subseteq> tok_seqs b i" by (simp add: shrinking_def)
next
  assume s: "shrinking b (idxs @ [i]) \<and> tok_seqs b j \<subseteq> tok_seqs b i"
  show "shrinking b (idxs @ [i, j])"
    unfolding shrinking_def
  proof (intro allI impI)
    fix k assume k: "Suc k < length (idxs @ [i, j])"
    then consider "Suc k < length (idxs @ [i])" | "k = length idxs" by force
    then show "tok_seqs b ((idxs @ [i, j]) ! Suc k) \<subseteq> tok_seqs b ((idxs @ [i, j]) ! k)"
      using s by cases (auto simp: shrinking_def nth_append less_Suc_eq)
  qed
qed

lemma seq_loop_ok:
  assumes wf: "ba_wf a0" and S: "S = tok_seqs (ba_batch a0) cur" and a: "a = mark_all idxs a0"
    and idxs: "sorted_wrt (<) (idxs @ [cur])" "set (idxs @ [cur]) \<subseteq> unused a0" "shrinking (ba_batch a0) (idxs @ [cur])"
  shows "\<exists>idxs'. seq_loop n_ubatch S cur idxs a = Some (idxs', mark_all idxs' a0) \<and> sorted_wrt (<) idxs' \<and>
    set idxs' \<subseteq> unused a0 \<and> idxs' \<noteq> [] \<and> length idxs' \<le> max (Suc (length idxs)) n_ubatch \<and> shrinking (ba_batch a0) idxs'"
  using S a idxs
proof (induction n_ubatch S cur idxs a rule: seq_loop.induct)
  case (1 n_ubatch S cur idxs a)
  let ?b = "ba_batch a0" and ?n = "n_tok (ba_batch a0)" and ?idxs = "idxs @ [cur]"
  let ?a = "mark_all ?idxs a0"
  have a: "ba_mark cur a = ?a" using "1.prems"(2) by simp
  have len: "length (ba_used ?a) = ?n" "ba_seq_set ?a = map (tok_seqs ?b) [0..<?n]" "ba_get_n_tokens ?a = ?n"
      "length (ba_used a0) = ?n"
    using wf by (auto simp: ba_wf_def Let_def mark_all_def ba_get_n_tokens_def)
  have cur: "cur < ?n" using "1.prems"(4) by (auto simp: unused_def)
  obtain cur' where c: "seq_next ?a S cur = Some cur'" "cur < cur'" "cur' \<le> ?n"
      "cur' < ?n \<Longrightarrow> \<not> ba_used ?a ! cur' \<and> tok_seqs ?b cur' \<subseteq> S"
    using seq_next_ok[of ?a cur S] len cur by auto
  consider "length ?idxs \<ge> n_ubatch" | "length ?idxs < n_ubatch" "cur' = ?n" | "length ?idxs < n_ubatch" "cur' < ?n"
    using c(3) by linarith
  then show ?case
  proof cases
    case 1
    then show ?thesis using "1.prems"(3-) a by (subst seq_loop.simps) (auto simp: Let_def)
  next
    case 2
    then show ?thesis using "1.prems"(3-) a c len by (subst seq_loop.simps) (auto simp: Let_def)
  next
    case 3
    then have step: "seq_loop n_ubatch S cur idxs a = seq_loop n_ubatch (tok_seqs ?b cur') cur' ?idxs ?a"
      using a c len by (subst seq_loop.simps) (simp add: Let_def)
    have "cur' \<in> unused a0"
      using c(4)[OF 3(2)] 3(2) len(4) used_mark_all[of cur' a0 ?idxs] by (simp add: unused_def del: mark_all_simps)
    moreover have "sorted_wrt (<) (?idxs @ [cur'])" using "1.prems"(3) c(2) by (auto simp: sorted_wrt_append)
    moreover have "shrinking ?b (?idxs @ [cur'])"
      using "1.prems"(1,5) c(4)[OF 3(2)] shrinking_snoc[of ?b idxs cur cur'] by simp
    ultimately have "\<exists>idxs'. seq_loop n_ubatch (tok_seqs ?b cur') cur' ?idxs ?a = Some (idxs', mark_all idxs' a0) \<and>
        sorted_wrt (<) idxs' \<and> set idxs' \<subseteq> unused a0 \<and> idxs' \<noteq> [] \<and> length idxs' \<le> max (Suc (length ?idxs)) n_ubatch \<and>
        shrinking ?b idxs'"
      using "1.IH"[OF refl refl, unfolded a, OF _ c(1)] 3 "1.prems"(4) len by (simp del: mark_all_simps)
    then show ?thesis unfolding step using 3(1) by auto
  qed
qed

lemma ba_first_unused:
  assumes "ba_wf a"
  shows "(unused a = {} \<longleftrightarrow> first_index Not (ba_used a) \<ge> length (ba_used a)) \<and>
    (unused a \<noteq> {} \<longrightarrow> first_index Not (ba_used a) \<in> unused a)"
proof -
  have un: "unused a = {i. i < length (ba_used a) \<and> \<not> ba_used a ! i}"
    using assms by (simp add: unused_def ba_wf_def Let_def)
  show ?thesis
  proof (cases "first_index Not (ba_used a) < length (ba_used a)")
    case True
    with first_index_nth[OF True] show ?thesis unfolding un by auto
  next
    case False
    then have "\<forall>i < length (ba_used a). ba_used a ! i" unfolding first_index_less_iff using nth_mem by blast
    with False show ?thesis unfolding un by simp
  qed
qed

text \<open>The rows of a micro-batch that is added after its tokens were marked.\<close>

lemma mark_add_takes:
  assumes "ba_wf a" "set idxs \<subseteq> unused a" "distinct idxs" "idxs \<noteq> []" "0 < n_seqs" "length idxs mod n_seqs = 0"
  shows "\<exists>ub a'. ba_ubatch_add idxs n_seqs eq (mark_all idxs a) = Some (ub, a') \<and> takes a idxs ub a' \<and>
    ub_n_seqs ub = n_seqs \<and> ub_n_seq_tokens ub = length idxs div n_seqs \<and> ub_equal_seqs ub = eq"
proof -
  obtain ub where ub: "ba_ubatch_add idxs n_seqs eq (mark_all idxs a) =
      Some (ub, (mark_all idxs a)\<lparr>ba_out_ids := ba_out_ids (mark_all idxs a) @ filter (tok_output (ba_batch (mark_all idxs a))) idxs\<rparr>)"
      "ubatch_rows (mark_all idxs a) idxs ub" "ub_n_seqs ub = n_seqs" "ub_n_seq_tokens ub = length idxs div n_seqs" "ub_equal_seqs ub = eq"
    using ba_ubatch_add_ok[of "mark_all idxs a" idxs n_seqs eq] assms ba_wf_static[OF assms(1)]
    by (auto simp: unused_def)
  moreover have "ubatch_rows (mark_all idxs a) = ubatch_rows a"
    by (simp add: ubatch_rows_def[abs_def] mark_all_def n_pos_cur_def)
  ultimately show ?thesis using assms by (auto simp: takes_def ubatch_rows_def Let_def)
qed

lemma split_seq_takes:
  assumes wf: "ba_wf a"
  shows "\<exists>idxs ub a'. ba_split_seq n_ubatch a = Some (ub, a') \<and> takes a idxs ub a' \<and> (unused a \<noteq> {} \<longrightarrow> idxs \<noteq> []) \<and>
    sorted_wrt (<) idxs \<and> shrinking (ba_batch a) idxs \<and> length idxs \<le> max 1 n_ubatch"
proof (cases "unused a = {}")
  case True
  then have "ba_split_seq n_ubatch a = Some (no_ubatch, a)"
    using ba_first_unused[OF wf] by (simp add: ba_split_seq_def Let_def)
  with True show ?thesis
    by (intro exI[of _ "[]"] exI[of _ no_ubatch] exI[of _ a]) (simp add: takes_def no_ubatch_def shrinking_def)
next
  case False
  define cur where "cur = first_index Not (ba_used a)"
  have cur: "cur \<in> unused a" "cur < length (ba_used a)" "cur < n_tok (ba_batch a)" "ba_seq_set a ! cur = tok_seqs (ba_batch a) cur"
      "length (ba_seq_set a) = n_tok (ba_batch a)"
    using ba_first_unused[OF wf] False wf by (auto simp: cur_def unused_def ba_wf_def Let_def)
  obtain idxs where l: "seq_loop n_ubatch (tok_seqs (ba_batch a) cur) cur [] a = Some (idxs, mark_all idxs a)"
      "sorted_wrt (<) idxs" "set idxs \<subseteq> unused a" "idxs \<noteq> []" "length idxs \<le> max 1 n_ubatch" "shrinking (ba_batch a) idxs"
    using seq_loop_ok[OF wf refl, of a "[]" cur n_ubatch] cur(1) by (auto simp: shrinking_def)
  moreover have "distinct idxs" using l(2) by (simp add: strict_sorted_iff)
  ultimately obtain ub a' where "ba_ubatch_add idxs 1 True (mark_all idxs a) = Some (ub, a')" "takes a idxs ub a'"
    using mark_add_takes[OF wf, of idxs 1 True] by auto
  then show ?thesis using l cur by (intro exI[of _ idxs]) (simp add: ba_split_seq_def Let_def flip: cur_def)
qed

interpretation seq: batch_splitter "ba_split_seq n_ubatch" ba_wf for n_ubatch
  by unfold_locales (use split_seq_takes takes_wf in blast)+

subsection \<open>split\_equal\<close>

lemma mark_all_cong:
  assumes "set xs = set ys" "length xs = length ys"
  shows "mark_all xs a = mark_all ys a"
proof -
  have "fold (\<lambda>i u. u[i := True]) xs (ba_used a) = fold (\<lambda>i u. u[i := True]) ys (ba_used a)"
    by (rule nth_equalityI) (simp_all add: nth_mark assms(1))
  then show ?thesis by (simp add: mark_all_def assms(2))
qed

text \<open>The sets that take part in a split: they occur on unused tokens and do not overlap.\<close>

lemma equal_sets_ok:
  assumes wf: "ba_wf a" and xs: "set xs \<subseteq> {..<n_tok (ba_batch a)}"
    and cur: "sorted_wrt (\<lambda>S T. S \<inter> T = {}) cur" "set cur \<subseteq> tok_seqs (ba_batch a) ` unused a" "length cur \<le> n_ubatch"
  shows "\<exists>sets. equal_sets n_ubatch sequential a xs cur lst = Some sets \<and> sorted_wrt (\<lambda>S T. S \<inter> T = {}) sets \<and>
    set sets \<subseteq> tok_seqs (ba_batch a) ` unused a \<and> length sets \<le> Suc n_ubatch \<and>
    (cur \<noteq> [] \<or> set xs \<inter> unused a \<noteq> {} \<longrightarrow> sets \<noteq> [])"
  using xs cur
proof (induction xs arbitrary: cur lst)
  case Nil
  then show ?case by simp
next
  case (Cons i xs)
  let ?b = "ba_batch a" and ?S = "tok_seqs (ba_batch a) i"
  have i: "i < n_tok ?b" "set xs \<subseteq> {..<n_tok ?b}" using Cons.prems(1) by auto
  have at: "vec_at (ba_used a) i = Some (ba_used a ! i)" "vec_at (ba_seq_set a) i = Some ?S"
    using wf i by (auto simp: ba_wf_def Let_def)
  have "rows_ok (ba_n_seq_max a) ?b" using wf by (simp add: ba_wf_def Let_def batch_full_def)
  then have sid: "batch_seq_id ?b i 0 = Some (tok_row ?b i ! 0)" using i(1) by (rule rows_okD)
  define add where "add \<longleftrightarrow> list_all (\<lambda>T. T \<inter> ?S = {}) cur \<and> (sequential \<longrightarrow> cur = [] \<or> tok_row ?b i ! 0 = lst + 1)"
  have add': "(if sequential then list_all (\<lambda>T. T \<inter> ?S = {}) cur \<and> (cur = [] \<or> tok_row ?b i ! 0 = lst + 1)
      else list_all (\<lambda>T. T \<inter> ?S = {}) cur) = add"
    by (simp add: add_def)
  have step: "equal_sets n_ubatch sequential a (i # xs) cur lst =
      (if add then if length (cur @ [?S]) > n_ubatch then Some (cur @ [?S])
                   else equal_sets n_ubatch sequential a xs (cur @ [?S]) (tok_row ?b i ! 0)
       else equal_sets n_ubatch sequential a xs cur lst)" if "\<not> ba_used a ! i"
    using that by (simp only: equal_sets.simps at sid bind.bind_lunit if_False add')
  consider "ba_used a ! i" | "\<not> ba_used a ! i" "add" | "\<not> ba_used a ! i" "\<not> add" by blast
  then show ?case
  proof cases
    case 1
    then have "equal_sets n_ubatch sequential a (i # xs) cur lst = equal_sets n_ubatch sequential a xs cur lst" "i \<notin> unused a"
      using at by (simp_all add: unused_def)
    then show ?thesis using Cons.IH[OF i(2) Cons.prems(2-4), of lst] by auto
  next
    case 3
    have "cur \<noteq> []" using 3(2) by (auto simp: add_def)
    moreover have "equal_sets n_ubatch sequential a (i # xs) cur lst = equal_sets n_ubatch sequential a xs cur lst"
      using step[OF 3(1)] 3(2) by simp
    ultimately show ?thesis using Cons.IH[OF i(2) Cons.prems(2-4), of lst] by auto
  next
    case 2
    let ?cur = "cur @ [?S]"
    have un: "i \<in> unused a" using 2 i by (simp add: unused_def)
    have cur': "sorted_wrt (\<lambda>S T. S \<inter> T = {}) ?cur" "set ?cur \<subseteq> tok_seqs ?b ` unused a"
      using 2(2) Cons.prems(2,3) un by (auto simp: sorted_wrt_append add_def list_all_iff)
    have step2: "equal_sets n_ubatch sequential a (i # xs) cur lst =
        (if length ?cur > n_ubatch then Some ?cur else equal_sets n_ubatch sequential a xs ?cur (tok_row ?b i ! 0))"
      using step[OF 2(1)] 2(2) by simp
    show ?thesis
    proof (cases "length ?cur > n_ubatch")
      case True
      then show ?thesis using step2 cur' Cons.prems(4) by simp
    next
      case False
      then show ?thesis using step2 Cons.IH[OF i(2) cur', of "tok_row ?b i ! 0"] by auto
    qed
  qed
qed

lemma equal_round_eq:
  assumes len: "length cur = length Ls" "length idxs = length Ls" and k: "\<And>s. s < length Ls \<Longrightarrow> cur ! s < length (Ls ! s)"
  defines "nxt \<equiv> map (\<lambda>s. Ls ! s ! (cur ! s)) [0..<length Ls]"
  shows "equal_round Ls (cur, idxs, a) =
    Some (map Suc cur, map (\<lambda>s. idxs ! s @ [nxt ! s]) [0..<length Ls], mark_all nxt a)"
proof -
  let ?I = "\<lambda>m (c, ix, u). c = map Suc (take m cur) @ drop m cur \<and>
      ix = map (\<lambda>s. idxs ! s @ [nxt ! s]) [0..<m] @ drop m idxs \<and> u = mark_all (take m nxt) a"
  have nl: "length nxt = length Ls" by (simp add: nxt_def)
  have "\<exists>t. equal_round Ls (cur, idxs, a) = Some t \<and> ?I (length Ls) t"
    unfolding equal_round_def
  proof (rule for_each_upto_total[where I = ?I])
    fix m u assume m: "m < length Ls" and u: "?I m u"
    obtain c ix w where cix: "u = (c, ix, w)" by (cases u) auto
    have I: "c = map Suc (take m cur) @ drop m cur" "ix = map (\<lambda>s. idxs ! s @ [nxt ! s]) [0..<m] @ drop m idxs"
        "w = mark_all (take m nxt) a" using u cix by auto
    have "c ! m = cur ! m" "ix ! m = idxs ! m" "length c = length Ls" "length ix = length Ls"
      using m len by (simp_all add: I nth_append)
    moreover have "c[m := Suc (cur ! m)] = map Suc (take (Suc m) cur) @ drop (Suc m) cur"
      using m len by (simp add: I list_update_append take_Suc_conv_app_nth flip: Cons_nth_drop_Suc)
    moreover have "ix[m := idxs ! m @ [nxt ! m]] = map (\<lambda>s. idxs ! s @ [nxt ! s]) [0..<Suc m] @ drop (Suc m) idxs"
      using m len by (simp add: I list_update_append flip: Cons_nth_drop_Suc)
    moreover have "Ls ! m ! (cur ! m) = nxt ! m" using m by (simp add: nxt_def)
    ultimately show "\<exists>v. (case u of (cur_idx, idxs, a) \<Rightarrow> do {
       l \<leftarrow> vec_at Ls m; k \<leftarrow> vec_at cur_idx m; i \<leftarrow> vec_at l k; row \<leftarrow> vec_at idxs m;
       Some (cur_idx[m := k + 1], idxs[m := row @ [i]], ba_mark i a) }) = Some v \<and> ?I (Suc m) v"
      using m k[OF m] nl I(3) by (simp add: cix take_Suc_conv_app_nth)
  qed simp
  then show ?thesis using len nl by auto
qed

lemma skip_used_eq:
  assumes "k < length l" "\<forall>i \<in> set l. i < length us" "\<And>j. j < k \<Longrightarrow> us ! (l ! j)" "\<not> us ! (l ! k)"
  shows "skip_used us l c = Some (c + k)"
  using assms
proof (induction l arbitrary: k c)
  case (Cons i l)
  show ?case
  proof (cases k)
    case 0
    then show ?thesis using Cons.prems by simp
  next
    case (Suc k')
    have "us ! (l ! j)" if "j < k'" for j using Cons.prems(3)[of "Suc j"] that Suc by simp
    then have "skip_used us l (c + 1) = Some (c + 1 + k')"
      by (intro Cons.IH) (use Cons.prems Suc in auto)
    then show ?thesis using Cons.prems(2) Cons.prems(3)[of 0] Suc by simp
  qed
qed simp

text \<open>
  The state after \<open>r\<close> rounds: from each list \<open>r\<close> tokens were taken, starting at its first unused one.
\<close>

definition taken :: "nat list list \<Rightarrow> nat list \<Rightarrow> nat \<Rightarrow> nat list list" where
  "taken Ls ks r = map (\<lambda>s. take r (drop (ks ! s) (Ls ! s))) [0..<length Ls]"

definition equal_state :: "nat list list \<Rightarrow> nat list \<Rightarrow> llama_batch_allocr \<Rightarrow> nat \<Rightarrow> nat list \<times> nat list list \<times> llama_batch_allocr" where
  "equal_state Ls ks a r = (map (\<lambda>k. k + r) ks, taken Ls ks r, mark_all (concat (taken Ls ks r)) a)"

lemma mark_all_append: "mark_all (xs @ ys) a = mark_all ys (mark_all xs a)"
  by (simp add: mark_all_def)

lemma concat_snoc_each:
  "set (concat (map (\<lambda>s. f s @ [g s]) [0..<m])) = set (concat (map f [0..<m])) \<union> set (map g [0..<m])"
  "length (concat (map (\<lambda>s. f s @ [g s]) [0..<m])) = length (concat (map f [0..<m])) + m"
  by (induction m) auto

lemma equal_round_state:
  assumes len: "length ks = length Ls" and k: "\<And>s. s < length Ls \<Longrightarrow> ks ! s + r < length (Ls ! s)"
  shows "equal_round Ls (equal_state Ls ks a r) = Some (equal_state Ls ks a (Suc r))"
proof -
  let ?g = "\<lambda>s. Ls ! s ! (ks ! s + r)"
  have row: "take r (drop (ks ! s) (Ls ! s)) @ [?g s] = take (Suc r) (drop (ks ! s) (Ls ! s))" if "s < length Ls" for s
    using k[OF that] by (simp add: take_Suc_conv_app_nth)
  have tk: "taken Ls ks (Suc r) = map (\<lambda>s. take r (drop (ks ! s) (Ls ! s)) @ [?g s]) [0..<length Ls]"
    unfolding taken_def by (rule map_cong) (simp_all add: row)
  have "mark_all (map ?g [0..<length Ls]) (mark_all (concat (taken Ls ks r)) a) = mark_all (concat (taken Ls ks (Suc r))) a"
    unfolding mark_all_append[symmetric] tk
    by (rule mark_all_cong) (simp_all only: concat_snoc_each taken_def set_append length_append length_map length_upt diff_zero)
  moreover have nxt: "map (\<lambda>s. Ls ! s ! (map (\<lambda>k. k + r) ks ! s)) [0..<length Ls] = map ?g [0..<length Ls]"
    using len by simp
  moreover have "map (\<lambda>s. taken Ls ks r ! s @ [map ?g [0..<length Ls] ! s]) [0..<length Ls] = taken Ls ks (Suc r)"
    unfolding tk by (rule map_cong) (simp_all add: taken_def)
  moreover have "equal_round Ls (map (\<lambda>k. k + r) ks, taken Ls ks r, mark_all (concat (taken Ls ks r)) a) =
      Some (map Suc (map (\<lambda>k. k + r) ks), map (\<lambda>s. taken Ls ks r ! s @ [map ?g [0..<length Ls] ! s]) [0..<length Ls],
        mark_all (map ?g [0..<length Ls]) (mark_all (concat (taken Ls ks r)) a))"
    unfolding nxt[symmetric] by (rule equal_round_eq) (use len k in \<open>simp_all add: taken_def\<close>)
  ultimately show ?thesis by (simp only: equal_state_def) simp
qed

lemma equal_loop_ok:
  assumes ne: "Ls \<noteq> []" and len: "length ks = length Ls" and le: "\<And>s. s < length Ls \<Longrightarrow> ks ! s + r \<le> length (Ls ! s)"
    and start: "r = 0 \<Longrightarrow> (\<And>s. s < length Ls \<Longrightarrow> ks ! s < length (Ls ! s))"
    and small: "r = 0 \<or> (r + 1) * length Ls \<le> n_ubatch"
  shows "\<exists>R > 0. equal_loop n_ubatch Ls (equal_state Ls ks a r) = Some (taken Ls ks R, mark_all (concat (taken Ls ks R)) a) \<and>
    (\<forall>s < length Ls. ks ! s + R \<le> length (Ls ! s)) \<and> R * length Ls \<le> max (length Ls) n_ubatch \<and>
    ((\<exists>s < length Ls. ks ! s + R = length (Ls ! s)) \<or> n_ubatch < (R + 1) * length Ls)"
  using le start small
proof (induction "length (Ls ! 0) - (ks ! 0 + r)" arbitrary: r rule: less_induct)
  case less
  let ?go = "list_all2 (\<lambda>l k. k < length l) Ls (map (\<lambda>k. k + r) ks)"
  have go: "?go \<longleftrightarrow> (\<forall>s < length Ls. ks ! s + r < length (Ls ! s))"
    using len by (auto simp: list_all2_conv_all_nth)
  show ?case
  proof (cases ?go)
    case False
    then obtain s where s: "s < length Ls" "ks ! s + r = length (Ls ! s)"
      using go less.prems(1) by (auto simp: le_less)
    then have "r > 0" using less.prems(2) by force
    moreover have "equal_loop n_ubatch Ls (equal_state Ls ks a r) = Some (taken Ls ks r, mark_all (concat (taken Ls ks r)) a)"
      using False by (simp add: equal_state_def equal_loop.simps)
    ultimately show ?thesis using s less.prems by (intro exI[of _ r]) auto
  next
    case True
    then have lt: "\<And>s. s < length Ls \<Longrightarrow> ks ! s + r < length (Ls ! s)" using go by blast
    let ?R = "Suc r"
    have "hd (taken Ls ks ?R) = take ?R (drop (ks ! 0) (Ls ! 0))" using ne by (simp add: taken_def hd_map)
    then have hd: "length (hd (taken Ls ks ?R)) = ?R" using lt[of 0] ne by simp
    have step: "equal_loop n_ubatch Ls (equal_state Ls ks a r) =
        (if (?R + 1) * length Ls > n_ubatch then Some (taken Ls ks ?R, mark_all (concat (taken Ls ks ?R)) a)
         else equal_loop n_ubatch Ls (equal_state Ls ks a ?R))"
      using True ne equal_round_state[OF len lt, of a] hd
      by (simp add: equal_state_def equal_loop.simps[of n_ubatch Ls "map (\<lambda>k. k + r) ks"] del: mult_Suc)
    have fit: "?R * length Ls \<le> max (length Ls) n_ubatch" using less.prems(3) by auto
    show ?thesis
    proof (cases "(?R + 1) * length Ls > n_ubatch")
      case True
      then show ?thesis using step lt fit by (intro exI[of _ ?R]) (auto simp: Suc_le_eq)
    next
      case False
      have "length (Ls ! 0) - (ks ! 0 + ?R) < length (Ls ! 0) - (ks ! 0 + r)" using lt[of 0] ne by simp
      from less.hyps[OF this] lt False show ?thesis using step by (auto simp: Suc_le_eq)
    qed
  qed
qed

text \<open>
  The loop assumes that the used tokens of a sequence set come first among the tokens of that set; a
  fresh allocator has this, and the splits keep it.
\<close>

definition prefix_used :: "llama_batch_allocr \<Rightarrow> bool" where
  "prefix_used a \<longleftrightarrow> (\<forall>S. \<exists>k. \<forall>j < length (ba_seq_set_map a S). ba_used a ! (ba_seq_set_map a S ! j) \<longleftrightarrow> j < k)"

definition equal_pre :: "bool \<Rightarrow> llama_batch_allocr \<Rightarrow> bool" where
  "equal_pre sequential a \<longleftrightarrow> ba_wf a \<and> prefix_used a \<and> \<not> (sequential \<and> ba_has_cpl a)"

definition first_unused :: "llama_batch_allocr \<Rightarrow> nat set \<Rightarrow> nat" where
  "first_unused a S = first_index (\<lambda>i. \<not> ba_used a ! i) (ba_seq_set_map a S)"

lemma set_map_props:
  assumes "ba_wf a"
  shows "distinct (ba_seq_set_map a S)" "set (ba_seq_set_map a S) = {i. i < n_tok (ba_batch a) \<and> tok_seqs (ba_batch a) i = S}"
  using assms by (auto simp: ba_wf_def Let_def)

lemma first_unused_props:
  assumes wf: "ba_wf a" and pre: "prefix_used a" and S: "S \<in> tok_seqs (ba_batch a) ` unused a"
  defines "L \<equiv> ba_seq_set_map a S" and "k \<equiv> first_unused a S"
  shows "k < length L" "\<And>j. j < length L \<Longrightarrow> ba_used a ! (L ! j) \<longleftrightarrow> j < k"
proof -
  obtain i where i: "i \<in> unused a" "tok_seqs (ba_batch a) i = S" using S by blast
  then have "i \<in> set L" "\<not> ba_used a ! i" using set_map_props(2)[OF wf] by (auto simp: L_def unused_def)
  then show k: "k < length L"
    unfolding k_def first_unused_def L_def[symmetric] first_index_less_iff by blast
  obtain k' where k': "\<And>j. j < length L \<Longrightarrow> ba_used a ! (L ! j) \<longleftrightarrow> j < k'"
    using pre unfolding prefix_used_def L_def by blast
  have "\<not> ba_used a ! (L ! k)"
    using first_index_nth[of "\<lambda>i. \<not> ba_used a ! i" L] k unfolding k_def first_unused_def L_def by blast
  then have "k' \<le> k" using k'[OF k] by simp
  have used: "ba_used a ! (L ! j)" if "j < k" for j
    using first_index_least[of j "\<lambda>i. \<not> ba_used a ! i" L] that unfolding k_def first_unused_def L_def by blast
  show "ba_used a ! (L ! j) \<longleftrightarrow> j < k" if "j < length L" for j
    using k'[OF that] \<open>k' \<le> k\<close> used[of j] by linarith
qed

lemma take_drop_nth_mem:
  "j < length L \<Longrightarrow> distinct L \<Longrightarrow> k + R \<le> length L \<Longrightarrow> L ! j \<in> set (take R (drop k L)) \<longleftrightarrow> k \<le> j \<and> j < k + R"
proof
  assume j: "j < length L" "distinct L" "k + R \<le> length L" "L ! j \<in> set (take R (drop k L))"
  then obtain m where "m < R" "L ! j = L ! (k + m)" by (auto simp: in_set_conv_nth)
  with j have "j = k + m" by (subst (asm) nth_eq_iff_index_eq) auto
  with \<open>m < R\<close> show "k \<le> j \<and> j < k + R" by simp
next
  assume j: "j < length L" "k + R \<le> length L" "k \<le> j \<and> j < k + R"
  then have "take R (drop k L) ! (j - k) = L ! j" "j - k < length (take R (drop k L))" by auto
  then show "L ! j \<in> set (take R (drop k L))" by (metis nth_mem)
qed

definition equal_blocks :: "llama_batch_allocr \<Rightarrow> nat set list \<Rightarrow> nat \<Rightarrow> nat list list" where
  "equal_blocks a sets R = map (\<lambda>S. take R (drop (first_unused a S) (ba_seq_set_map a S))) sets"

text \<open>Facts about the blocks that a split takes.\<close>

lemma equal_blocks_props:
  assumes wf: "ba_wf a" and pre: "prefix_used a"
    and sets: "sorted_wrt (\<lambda>S T. S \<inter> T = {}) sets" "set sets \<subseteq> tok_seqs (ba_batch a) ` unused a"
    and R: "\<And>S. S \<in> set sets \<Longrightarrow> first_unused a S + R \<le> length (ba_seq_set_map a S)"
  shows "distinct (concat (equal_blocks a sets R))" "set (concat (equal_blocks a sets R)) \<subseteq> unused a"
    "length (concat (equal_blocks a sets R)) = length sets * R"
    "\<And>S i. S \<in> set sets \<Longrightarrow> i \<in> set (take R (drop (first_unused a S) (ba_seq_set_map a S))) \<Longrightarrow> tok_seqs (ba_batch a) i = S"
proof -
  let ?B = "\<lambda>S. take R (drop (first_unused a S) (ba_seq_set_map a S))"
  show tok: "tok_seqs (ba_batch a) i = S" if "i \<in> set (?B S)" for S i
    using set_map_props(2)[OF wf, of S] that by (auto dest: in_set_takeD in_set_dropD)
  have rows: "rows_ok (ba_n_seq_max a) (ba_batch a)" using wf by (simp add: ba_wf_def Let_def batch_full_def)
  have ne: "S \<noteq> {}" if S: "S \<in> set sets" for S
  proof -
    obtain i where "i \<in> unused a" "S = tok_seqs (ba_batch a) i" using S sets(2) by blast
    then show ?thesis using rows_okD(6)[OF rows, of i] by (simp add: unused_def)
  qed
  show "distinct (concat (equal_blocks a sets R))"
    using sets(1) ne tok
  proof (unfold equal_blocks_def, induction sets)
    case (Cons S sets)
    have "S \<notin> set sets" using Cons.prems(1,2) by auto
    then have "set (?B S) \<inter> set (concat (map ?B sets)) = {}"
      using Cons.prems(3) by auto
    moreover have "distinct (?B S)" using set_map_props(1)[OF wf] by simp
    moreover have "distinct (concat (map ?B sets))"
      by (rule Cons.IH) (use Cons.prems in auto)
    ultimately show ?case by simp
  qed simp
  have "set (?B S) \<subseteq> unused a" if S: "S \<in> set sets" for S
  proof
    fix i assume "i \<in> set (?B S)"
    then obtain m where m: "m < R" "i = ba_seq_set_map a S ! (first_unused a S + m)" using R[OF S] by (auto simp: in_set_conv_nth)
    have "first_unused a S + m < length (ba_seq_set_map a S)" using m(1) R[OF S] by simp
    moreover have "S \<in> tok_seqs (ba_batch a) ` unused a" using S sets(2) by blast
    ultimately have "\<not> ba_used a ! i" "i \<in> set (ba_seq_set_map a S)"
      using first_unused_props(2)[OF wf pre, of S] m(2) by auto
    then show "i \<in> unused a" using set_map_props(2)[OF wf] by (auto simp: unused_def)
  qed
  then show "set (concat (equal_blocks a sets R)) \<subseteq> unused a" by (auto simp: equal_blocks_def)
  have "(\<And>S. S \<in> set xs \<Longrightarrow> length (?B S) = R) \<Longrightarrow> length (concat (map ?B xs)) = length xs * R" for xs
    by (induction xs) (simp_all del: length_take length_drop)
  moreover have "length (?B S) = R" if "S \<in> set sets" for S using R[OF that] by simp
  ultimately show "length (concat (equal_blocks a sets R)) = length sets * R"
    unfolding equal_blocks_def by blast
qed

lemma prefix_used_takes:
  assumes wf: "ba_wf a" and pre: "prefix_used a" and sets: "set sets \<subseteq> tok_seqs (ba_batch a) ` unused a"
    and R: "\<And>S. S \<in> set sets \<Longrightarrow> first_unused a S + R \<le> length (ba_seq_set_map a S)"
  shows "prefix_used (mark_all (concat (equal_blocks a sets R)) a)"
proof -
  let ?idxs = "concat (equal_blocks a sets R)"
  let ?B = "\<lambda>S. take R (drop (first_unused a S) (ba_seq_set_map a S))"
  have map: "ba_seq_set_map (mark_all ?idxs a) = ba_seq_set_map a" by (simp add: mark_all_def)
  have len: "length (ba_used a) = n_tok (ba_batch a)" using wf by (simp add: ba_wf_def Let_def)
  have mem: "i \<in> set ?idxs \<longleftrightarrow> S \<in> set sets \<and> i \<in> set (?B S)" if "i \<in> set (ba_seq_set_map a S)" for i S
  proof -
    have "T = S" if "i \<in> set (?B T)" for T
      using set_map_props(2)[OF wf, of T] set_map_props(2)[OF wf, of S] that \<open>i \<in> set (ba_seq_set_map a S)\<close>
      by (auto dest!: in_set_takeD in_set_dropD)
    then show ?thesis by (auto simp: equal_blocks_def)
  qed
  have used: "ba_used (mark_all ?idxs a) ! (ba_seq_set_map a S ! j) \<longleftrightarrow>
      ba_used a ! (ba_seq_set_map a S ! j) \<or> (S \<in> set sets \<and> ba_seq_set_map a S ! j \<in> set (?B S))"
    if "j < length (ba_seq_set_map a S)" for S j
  proof -
    have m: "ba_seq_set_map a S ! j \<in> set (ba_seq_set_map a S)" using that by simp
    then have "ba_seq_set_map a S ! j < length (ba_used a)" using set_map_props(2)[OF wf] len by auto
    then show ?thesis using used_mark_all mem[OF m] by simp
  qed
  show ?thesis
    unfolding prefix_used_def map
  proof
    fix S
    show "\<exists>k. \<forall>j < length (ba_seq_set_map a S). ba_used (mark_all ?idxs a) ! (ba_seq_set_map a S ! j) \<longleftrightarrow> j < k"
    proof (cases "S \<in> set sets")
      case True
      then have "S \<in> tok_seqs (ba_batch a) ` unused a" using sets by blast
      note f = first_unused_props(2)[OF wf pre this]
      have "ba_used (mark_all ?idxs a) ! (ba_seq_set_map a S ! j) \<longleftrightarrow> j < first_unused a S + R"
        if j: "j < length (ba_seq_set_map a S)" for j
        unfolding used[OF j] take_drop_nth_mem[OF j set_map_props(1)[OF wf] R[OF True]] f[OF j] using True by auto
      then show ?thesis by blast
    next
      case False
      then show ?thesis using pre used unfolding prefix_used_def by simp
    qed
  qed
qed

lemma split_equal_takes:
  assumes pre: "equal_pre sequential a"
  shows "\<exists>sets R ub a'. ba_split_equal n_ubatch sequential a = Some (ub, a') \<and>
    equal_sets n_ubatch sequential a [0..<n_tok (ba_batch a)] [] (-1) = Some sets \<and>
    takes a (concat (equal_blocks a sets R)) ub a' \<and> equal_pre sequential a' \<and>
    sorted_wrt (\<lambda>S T. S \<inter> T = {}) sets \<and> set sets \<subseteq> tok_seqs (ba_batch a) ` unused a \<and>
    (unused a \<noteq> {} \<longrightarrow> sets \<noteq> []) \<and> 0 < R \<and>
    (sets \<noteq> [] \<longrightarrow> ub_n_seqs ub = length sets \<and> ub_n_seq_tokens ub = R) \<and> length sets \<le> Suc n_ubatch \<and> length sets * R \<le> max (length sets) n_ubatch \<and>
    (\<forall>S \<in> set sets. first_unused a S + R \<le> length (ba_seq_set_map a S))"
proof -
  have wf: "ba_wf a" and pu: "prefix_used a" and nc: "\<not> (sequential \<and> ba_has_cpl a)" using pre by (auto simp: equal_pre_def)
  obtain sets where s: "equal_sets n_ubatch sequential a [0..<n_tok (ba_batch a)] [] (-1) = Some sets"
      "sorted_wrt (\<lambda>S T. S \<inter> T = {}) sets" "set sets \<subseteq> tok_seqs (ba_batch a) ` unused a" "length sets \<le> Suc n_ubatch"
      "set [0..<n_tok (ba_batch a)] \<inter> unused a \<noteq> {} \<Longrightarrow> sets \<noteq> []"
    using equal_sets_ok[OF wf, of "[0..<n_tok (ba_batch a)]" "[]" n_ubatch sequential "-1"]
    by (simp add: atLeast0LessThan) blast
  have "set [0..<n_tok (ba_batch a)] \<inter> unused a = unused a" by (auto simp: unused_def)
  with s(5) have ne: "unused a \<noteq> {} \<Longrightarrow> sets \<noteq> []" by simp
  show ?thesis
  proof (cases "sets = []")
    case True
    then have "ba_split_equal n_ubatch sequential a = Some (no_ubatch, a)"
      using s(1) nc by (auto simp: ba_split_equal_def ba_get_n_tokens_def)
    with True pre ne s(1) show ?thesis
      by (intro exI[of _ "[]"] exI[of _ 1] exI[of _ no_ubatch] exI[of _ a])
        (auto simp: takes_def no_ubatch_def equal_blocks_def)
  next
    case False
    let ?Ls = "map (ba_seq_set_map a) sets" and ?ks = "map (first_unused a) sets"
    have fu: "first_unused a S < length (ba_seq_set_map a S)"
        "\<And>j. j < length (ba_seq_set_map a S) \<Longrightarrow> ba_used a ! (ba_seq_set_map a S ! j) \<longleftrightarrow> j < first_unused a S"
      if "S \<in> set sets" for S using first_unused_props[OF wf pu, of S] that s(3) by blast+
    have len: "length (ba_used a) = n_tok (ba_batch a)" using wf by (simp add: ba_wf_def Let_def)
    have "skip_used (ba_used a) (ba_seq_set_map a S) 0 = Some (0 + first_unused a S)" if "S \<in> set sets" for S
      by (rule skip_used_eq) (use fu[OF that] set_map_props(2)[OF wf] len in auto)
    then have skip: "map_opt (\<lambda>l. skip_used (ba_used a) l 0) ?Ls = Some ?ks"
      unfolding map_opt_map by (intro map_opt_total) simp
    have st0: "equal_state ?Ls ?ks a 0 = (?ks, map (\<lambda>_. []) ?Ls, a)"
      by (simp add: equal_state_def taken_def map_replicate_const)
    obtain R where R: "0 < R"
        "equal_loop n_ubatch ?Ls (equal_state ?Ls ?ks a 0) = Some (taken ?Ls ?ks R, mark_all (concat (taken ?Ls ?ks R)) a)"
        "\<forall>s < length ?Ls. ?ks ! s + R \<le> length (?Ls ! s)" "R * length ?Ls \<le> max (length ?Ls) n_ubatch"
      using equal_loop_ok[of ?Ls ?ks 0 n_ubatch a] False fu(1) by (auto simp: less_imp_le)
    have tk: "taken ?Ls ?ks R = equal_blocks a sets R"
      by (rule nth_equalityI) (simp_all add: taken_def equal_blocks_def)
    have fit: "\<And>S. S \<in> set sets \<Longrightarrow> first_unused a S + R \<le> length (ba_seq_set_map a S)"
      using R(3) by (auto simp: in_set_conv_nth)
    let ?idxs = "concat (equal_blocks a sets R)"
    note bl = equal_blocks_props[OF wf pu s(2,3) fit]
    have "?idxs \<noteq> []" using bl(3) False R(1) by (metis length_0_conv mult_is_0 not_gr0)
    then obtain ub a' where ub: "ba_ubatch_add ?idxs (length sets) True (mark_all ?idxs a) = Some (ub, a')"
        "takes a ?idxs ub a'" "ub_n_seqs ub = length sets" "ub_n_seq_tokens ub = R"
      using mark_add_takes[OF wf bl(2,1), of "length sets" True] bl(3) False by auto
    have "ba_split_equal n_ubatch sequential a = Some (ub, a')"
      using nc s(1) False skip R(2) ub(1)
      by (auto simp: ba_split_equal_def ba_get_n_tokens_def st0 tk)
    moreover have "prefix_used a'"
      using prefix_used_takes[OF wf pu s(3) fit] ub(2) by (simp add: takes_def prefix_used_def)
    then have "equal_pre sequential a'"
      using takes_wf[OF wf ub(2)] nc takes_static(2)[OF ub(2)] by (simp add: equal_pre_def)
    ultimately show ?thesis
      using ub s(1-4) False R(1,4) fit
      by (intro exI[of _ sets] exI[of _ R] exI[of _ ub] exI[of _ a']) (simp add: mult.commute)
  qed
qed

interpretation equal: batch_splitter "ba_split_equal n_ubatch sequential" "equal_pre sequential" for n_ubatch sequential
proof
  show "equal_pre sequential a \<Longrightarrow> ba_wf a" for a by (simp add: equal_pre_def)
next
  fix a assume pre: "equal_pre sequential a"
  obtain sets R ub a' where s: "ba_split_equal n_ubatch sequential a = Some (ub, a')"
    "takes a (concat (equal_blocks a sets R)) ub a'" "equal_pre sequential a'"
    "sorted_wrt (\<lambda>S T. S \<inter> T = {}) sets" "set sets \<subseteq> tok_seqs (ba_batch a) ` unused a" "unused a \<noteq> {} \<longrightarrow> sets \<noteq> []" "0 < R"
    "\<forall>S \<in> set sets. first_unused a S + R \<le> length (ba_seq_set_map a S)"
    using split_equal_takes[OF pre, of n_ubatch] by (elim exE conjE) (rule that; assumption)
  have wf: "ba_wf a" "prefix_used a" using pre by (simp_all add: equal_pre_def)
  have "length (concat (equal_blocks a sets R)) = length sets * R"
    using equal_blocks_props(3)[OF wf s(4,5)] s(8) by blast
  then have "unused a \<noteq> {} \<longrightarrow> concat (equal_blocks a sets R) \<noteq> []"
    using s(6,7) by (metis length_0_conv mult_is_0 not_gr0)
  then show "\<exists>idxs ub a'. ba_split_equal n_ubatch sequential a = Some (ub, a') \<and> takes a idxs ub a' \<and>
      (unused a \<noteq> {} \<longrightarrow> idxs \<noteq> []) \<and> equal_pre sequential a'"
    using s(1-3) by blast
qed

text \<open>An allocator fresh from \<^verbatim>\<open>init\<close> meets the preconditions of all three.\<close>

lemma fresh_pre:
  assumes "ba_wf a" "ba_used a = replicate (n_tok (ba_batch a)) False"
  shows "unused a = {..<n_tok (ba_batch a)}" "simple_pre a" "prefix_used a"
proof -
  show un: "unused a = {..<n_tok (ba_batch a)}" using assms(2) by (auto simp: unused_def)
  then have "unused a = {0..<n_tok (ba_batch a)}" by (simp add: atLeast0LessThan)
  then show "simple_pre a" using assms(1) unfolding simple_pre_def by blast
  show "prefix_used a"
    unfolding prefix_used_def
  proof
    fix S
    have "\<not> ba_used a ! (ba_seq_set_map a S ! j)" if "j < length (ba_seq_set_map a S)" for j
      using set_map_props(2)[OF assms(1), of S] nth_mem[OF that] assms(2) by auto
    then show "\<exists>k. \<forall>j < length (ba_seq_set_map a S). ba_used a ! (ba_seq_set_map a S ! j) \<longleftrightarrow> j < k"
      by (intro exI[of _ 0]) simp
  qed
qed

subsection \<open>Properties\<close>

definition splits_all :: "(llama_batch_allocr \<Rightarrow> (llama_ubatch \<times> llama_batch_allocr) option) \<Rightarrow> llama_batch_allocr \<Rightarrow> bool" where
  "splits_all split a \<longleftrightarrow> (\<exists>ubs a' idxss. split_loop split (Suc (ba_get_n_tokens a)) a = Some (ubs, a') \<and>
     list_all2 (ubatch_rows a) idxss ubs \<and> distinct (concat idxss) \<and> set (concat idxss) = {..<ba_get_n_tokens a} \<and>
     ba_n_used a' = ba_get_n_tokens a \<and> ba_batch a' = ba_batch a \<and>
     ba_out_ids a' = ba_out_ids a @ filter (tok_output (ba_batch a)) (concat idxss))"

lemma simple_splits_all:
  assumes "ba_wf a" "ba_used a = replicate (n_tok (ba_batch a)) False"
  shows "splits_all (ba_split_simple n_ubatch) a"
proof -
  note f = fresh_pre[OF assms]
  have card: "card (unused a) < Suc (ba_get_n_tokens a)" "unused a = {..<ba_get_n_tokens a}"
    using f(1) by (simp_all add: ba_get_n_tokens_def)
  show ?thesis using simple.split_loop_partition[OF f(2) card(1)] unfolding splits_all_def card(2) .
qed

text \<open>
  C11. After \<^verbatim>\<open>init\<close> accepted a batch, the loop that splits until a micro-batch is empty ends, with each of
  the three splitting functions: the micro-batches hold the rows of the batch, every token is in
  exactly one of them, \<^verbatim>\<open>n_used\<close> ends at the number of tokens, and \<^verbatim>\<open>out_ids\<close> lists the output tokens in the
  order in which the micro-batches hold them. (\<^verbatim>\<open>split_equal\<close> with \<^verbatim>\<open>sequential\<close> refuses coupled sequences.)
\<close>

theorem split_loops_partition:
  assumes "ba_wf a" "ba_used a = replicate (n_tok (ba_batch a)) False"
  shows "splits_all (ba_split_simple n_ubatch) a \<and> splits_all (ba_split_seq n_ubatch) a \<and>
    (\<not> (sequential \<and> ba_has_cpl a) \<longrightarrow> splits_all (ba_split_equal n_ubatch sequential) a)"
proof -
  note f = fresh_pre[OF assms]
  have card: "card (unused a) < Suc (ba_get_n_tokens a)" "unused a = {..<ba_get_n_tokens a}"
    using f(1) by (simp_all add: ba_get_n_tokens_def)
  have "splits_all (ba_split_simple n_ubatch) a" by (rule simple_splits_all[OF assms])
  moreover have "splits_all (ba_split_seq n_ubatch) a"
    using seq.split_loop_partition[OF assms(1) card(1)] unfolding splits_all_def card(2) .
  moreover have "splits_all (ba_split_equal n_ubatch sequential) a" if "\<not> (sequential \<and> ba_has_cpl a)"
  proof -
    have "equal_pre sequential a" using assms(1) f(3) that by (simp add: equal_pre_def)
    from equal.split_loop_partition[OF this card(1)] show ?thesis unfolding splits_all_def card(2) .
  qed
  ultimately show ?thesis by blast
qed

lemma example_accepted:
  "\<exists>a'. ba_init (llama_batch_get_one (Some [7, 8]) (int (length [7, 8 :: int]))) 10 None 4 1 False (batch_allocr_new 1)
     = Some (True, a') \<and> ba_wf a' \<and> ba_used a' = replicate (n_tok (ba_batch a')) False \<and> n_tok (ba_batch a') = 2 \<and>
     ba_out_ids a' = []"
proof -
  let ?b = "llama_batch_get_one (Some [7, 8]) (int (length [7, 8 :: int]))" and ?a = "batch_allocr_new 1"
  have backed: "batch_backed (ba_n_pos_per_embd ?a) 4 ?b"
    using get_one_backed[of "[7, 8]" 4] by (simp add: batch_allocr_new_def i32_ok_def)
  have idx: "length (ba_seq_idx ?a) = LLAMA_MAX_SEQ" by (simp add: batch_allocr_new_def)
  have tv: "tokens_valid 10 ?b" "b_seq_id ?b = None \<or> seq_ids_valid 1 ?b" "n_tok ?b = 2"
    by (simp_all add: tokens_valid_def llama_batch_get_one_def no_batch_def less_Suc_eq All_less_Suc numeral_2_eq_2)
  have fits: "batch_fits None 1 ?b"
    by (simp add: batch_fits_def pos_start_def llama_batch_get_one_def no_batch_def)
  obtain b' a' where i: "init_batch None 1 False ?b = Some b'"
      "ba_init ?b 10 None 4 1 False ?a = Some (batch_accepted None 1 b', a')" "ba_batch a' = b'"
      "batch_accepted None 1 b' \<longrightarrow> ba_wf a' \<and> ba_used a' = replicate (n_tok ?b) False \<and> ba_out_ids a' = []"
    using ba_init_eq[OF backed _ idx _ tv(1,2) fits, of False] by auto
  have "\<exists>a'. ba_init ?b 10 None 4 1 False ?a = Some (True, a')"
    using get_one_init[of "[7, 8]" 10 1 ?a None 4 False] idx by (auto simp: batch_allocr_new_def i32_ok_def pos_start_def)
  with i(2) have acc: "batch_accepted None 1 b'" by simp
  have "b_n_tokens b' = b_n_tokens ?b" using init_batch_ok[OF backed tv(2) _ fits, of False] i(1) by auto
  then have "n_tok b' = 2" using tv(3) by simp
  then show ?thesis using i(2-4) acc tv(3) by auto
qed

theorem split_loops_partition_witness:
  "\<exists>a'. ba_init (llama_batch_get_one (Some [7, 8]) (int (length [7, 8 :: int]))) 10 None 4 1 False (batch_allocr_new 1)
     = Some (True, a') \<and> splits_all (ba_split_simple 1) a' \<and> splits_all (ba_split_equal 2 False) a'"
  using example_accepted split_loops_partition[of _ 1 False] split_loops_partition[of _ 2 False] by blast

text \<open>
  C12. \<^verbatim>\<open>split_equal\<close> makes a micro-batch of \<open>n_seqs\<close> blocks of equal length: all tokens of a block carry
  the same sequence set, the sets of different blocks are disjoint, and the blocks take the oldest
  unused tokens of their sets. It has at most \<open>max n_seqs n_ubatch\<close> tokens and at most \<open>n_ubatch + 1\<close>
  sequences, and is empty only when no token is left.
\<close>

theorem split_equal_shape:
  assumes "equal_pre sequential a"
  shows "\<exists>sets R ub a'. ba_split_equal n_ubatch sequential a = Some (ub, a') \<and>
    takes a (concat (equal_blocks a sets R)) ub a' \<and> equal_pre sequential a' \<and>
    sorted_wrt (\<lambda>S T. S \<inter> T = {}) sets \<and> (unused a \<noteq> {} \<longrightarrow> sets \<noteq> []) \<and> 0 < R \<and>
    (\<forall>k < length sets. length (equal_blocks a sets R ! k) = R \<and>
       (\<forall>i \<in> set (equal_blocks a sets R ! k). tok_seqs (ba_batch a) i = sets ! k)) \<and>
    (sets \<noteq> [] \<longrightarrow> ub_n_seqs ub = length sets \<and> ub_n_seq_tokens ub = R) \<and>
    ub_n_tokens ub \<le> max (length sets) n_ubatch \<and> length sets \<le> Suc n_ubatch"
proof -
  obtain sets R ub a' where s: "ba_split_equal n_ubatch sequential a = Some (ub, a')"
    "takes a (concat (equal_blocks a sets R)) ub a'" "equal_pre sequential a'"
    "sorted_wrt (\<lambda>S T. S \<inter> T = {}) sets" "set sets \<subseteq> tok_seqs (ba_batch a) ` unused a" "unused a \<noteq> {} \<longrightarrow> sets \<noteq> []" "0 < R"
    "sets \<noteq> [] \<longrightarrow> ub_n_seqs ub = length sets \<and> ub_n_seq_tokens ub = R" "length sets \<le> Suc n_ubatch"
    "length sets * R \<le> max (length sets) n_ubatch" "\<forall>S \<in> set sets. first_unused a S + R \<le> length (ba_seq_set_map a S)"
    using split_equal_takes[OF assms, of n_ubatch] by (elim exE conjE) (rule that; assumption)
  have wf: "ba_wf a" "prefix_used a" using assms by (simp_all add: equal_pre_def)
  note bl = equal_blocks_props[OF wf s(4,5), of R]
  have "ub_n_tokens ub \<le> max (length sets) n_ubatch" using s(2,10,11) bl(3) by (simp add: takes_def)
  moreover have "length (equal_blocks a sets R ! k) = R \<and>
       (\<forall>i \<in> set (equal_blocks a sets R ! k). tok_seqs (ba_batch a) i = sets ! k)" if "k < length sets" for k
  proof -
    have S: "sets ! k \<in> set sets" using that by simp
    have "equal_blocks a sets R ! k = take R (drop (first_unused a (sets ! k)) (ba_seq_set_map a (sets ! k)))"
      using that by (simp add: equal_blocks_def)
    then show ?thesis using s(11) S bl(4)[OF _ S] by auto
  qed
  ultimately show ?thesis
    using s by (intro exI[of _ sets] exI[of _ R] exI[of _ ub] exI[of _ a']) simp
qed

theorem split_equal_shape_witness:
  "\<exists>a ub a'. ba_wf a \<and> ba_split_equal 1 False a = Some (ub, a') \<and> 0 < ub_n_tokens ub"
proof -
  obtain a where a: "ba_wf a" "ba_used a = replicate (n_tok (ba_batch a)) False" "n_tok (ba_batch a) = 2"
    using example_accepted by blast
  note f = fresh_pre[OF a(1,2)]
  have "equal_pre False a" using a f by (simp add: equal_pre_def)
  from split_equal_shape[OF this, of 1] obtain sets R ub a' where s: "ba_split_equal 1 False a = Some (ub, a')"
      "takes a (concat (equal_blocks a sets R)) ub a'" "unused a \<noteq> {} \<longrightarrow> sets \<noteq> []" "0 < R"
      "\<forall>k < length sets. length (equal_blocks a sets R ! k) = R \<and> (\<forall>i \<in> set (equal_blocks a sets R ! k). tok_seqs (ba_batch a) i = sets ! k)"
    by (elim exE conjE) (rule that; assumption)
  have "0 \<in> unused a" using f(1) a(3) by simp
  with s(3) have "0 < length sets" by auto
  then have "equal_blocks a sets R ! 0 \<noteq> []" "equal_blocks a sets R ! 0 \<in> set (equal_blocks a sets R)"
    using s(4,5) by (force simp: equal_blocks_def)+
  then have "concat (equal_blocks a sets R) \<noteq> []" by auto
  then have "0 < ub_n_tokens ub" using s(2) by (simp only: takes_def) simp
  with s(1) a(1) show ?thesis by blast
qed

text \<open>
  \<^verbatim>\<open>split_seq\<close> makes a micro-batch of at most \<open>max 1 n_ubatch\<close> tokens in batch order, starting with the
  first unused token, in which the sequence set of each token contains that of the next.
\<close>

theorem split_seq_shape:
  assumes "ba_wf a"
  shows "\<exists>idxs ub a'. ba_split_seq n_ubatch a = Some (ub, a') \<and> takes a idxs ub a' \<and> (unused a \<noteq> {} \<longrightarrow> idxs \<noteq> []) \<and>
    sorted_wrt (<) idxs \<and> length idxs \<le> max 1 n_ubatch \<and>
    (\<forall>k. Suc k < length idxs \<longrightarrow> tok_seqs (ba_batch a) (idxs ! Suc k) \<subseteq> tok_seqs (ba_batch a) (idxs ! k))"
  using split_seq_takes[OF assms, of n_ubatch] unfolding shrinking_def by blast

theorem split_seq_shape_witness:
  "\<exists>a ub a'. ba_wf a \<and> ba_split_seq 1 a = Some (ub, a') \<and> ub_n_tokens ub \<le> 1"
proof -
  obtain a where a: "ba_wf a" using example_accepted by blast
  from split_seq_shape[OF a, of 1] show ?thesis using a by (auto simp: takes_def)
qed

text \<open>
  \<^verbatim>\<open>split_simple\<close> takes the next \<open>max 1 n_ubatch\<close> tokens of the batch in order, or what is left.
\<close>

theorem split_simple_shape:
  assumes "ba_wf a" "unused a = {k..<n_tok (ba_batch a)}" "k \<le> n_tok (ba_batch a)"
  shows "\<exists>ub a'. ba_split_simple n_ubatch a = Some (ub, a') \<and>
    takes a [k..<min (k + max 1 n_ubatch) (n_tok (ba_batch a))] ub a' \<and>
    unused a' = {min (k + max 1 n_ubatch) (n_tok (ba_batch a))..<n_tok (ba_batch a)}"
proof -
  let ?m = "min (k + max 1 n_ubatch) (n_tok (ba_batch a))"
  obtain ub a' where s: "ba_split_simple n_ubatch a = Some (ub, a')" "takes a [k..<?m] ub a'"
    using split_simple_takes[OF assms, of n_ubatch] by blast
  moreover have "unused a' = {?m..<n_tok (ba_batch a)}"
    using takes_unused[OF assms(1) s(2)] assms(2,3) by auto
  ultimately show ?thesis by blast
qed

theorem split_simple_shape_witness:
  "\<exists>a ub a'. ba_wf a \<and> ba_split_simple 1 a = Some (ub, a') \<and> unused a' = {1..<2}"
proof -
  obtain a where a: "ba_wf a" "ba_used a = replicate (n_tok (ba_batch a)) False" "n_tok (ba_batch a) = 2"
    using example_accepted by blast
  have "unused a = {0..<n_tok (ba_batch a)}" using fresh_pre(1)[OF a(1,2)] by (simp add: atLeast0LessThan)
  from split_simple_shape[OF a(1) this, of 1] a show ?thesis by auto
qed

text \<open>
  C13. \<open>n_ubatch\<close> is not an upper bound for \<^verbatim>\<open>split_equal\<close>: the loop over the sequence sets stops only after
  it has added one set too many, so with \<open>n_ubatch = 1\<close> a batch that starts with tokens of two different
  sequences gives a micro-batch of two tokens.
\<close>

theorem split_equal_exceeds_n_ubatch:
  assumes "equal_pre False a" "0 \<in> unused a" "1 \<in> unused a" "tok_seqs (ba_batch a) 0 \<inter> tok_seqs (ba_batch a) 1 = {}"
  shows "\<exists>ub a'. ba_split_equal 1 False a = Some (ub, a') \<and> ub_n_tokens ub = 2"
proof -
  have wf: "ba_wf a" "prefix_used a" using assms(1) by (simp_all add: equal_pre_def)
  have n: "1 < n_tok (ba_batch a)" "\<not> ba_used a ! 0" "\<not> ba_used a ! 1" using assms(2,3) by (auto simp: unused_def)
  have rows: "rows_ok (ba_n_seq_max a) (ba_batch a)" and len: "length (ba_used a) = n_tok (ba_batch a)"
    and sets: "ba_seq_set a = map (tok_seqs (ba_batch a)) [0..<n_tok (ba_batch a)]"
    using wf(1) by (auto simp: ba_wf_def Let_def batch_full_def)
  have upt: "[0..<n_tok (ba_batch a)] = 0 # 1 # [2..<n_tok (ba_batch a)]"
    using n(1) by (simp add: upt_conv_Cons numeral_2_eq_2)
  have "equal_sets 1 False a [0..<n_tok (ba_batch a)] [] (-1) = Some [tok_seqs (ba_batch a) 0, tok_seqs (ba_batch a) 1]"
    unfolding upt using n assms(4) len sets rows_okD(4)[OF rows, of 0] rows_okD(4)[OF rows, of 1] by simp
  moreover obtain sets R ub a' where
    s: "ba_split_equal 1 False a = Some (ub, a')" "0 < R" "takes a (concat (equal_blocks a sets R)) ub a'"
      "length sets * R \<le> max (length sets) 1" "\<forall>S \<in> set sets. first_unused a S + R \<le> length (ba_seq_set_map a S)"
      "equal_sets 1 False a [0..<n_tok (ba_batch a)] [] (-1) = Some sets"
    using split_equal_takes[OF assms(1), of 1] by (elim exE conjE) (rule that; assumption)
  ultimately have sets: "sets = [tok_seqs (ba_batch a) 0, tok_seqs (ba_batch a) 1]" by simp
  have "R = 1" using s(2,4) sets by simp
  moreover have "length (concat (equal_blocks a sets R)) = length sets * R"
    by (rule equal_blocks_props(3)[OF wf]) (use assms s(5) sets in auto)
  ultimately show ?thesis using s(1,3) sets by (auto simp: takes_def)
qed

definition two_seq_batch :: llama_batch where
  "two_seq_batch = \<lparr>b_n_tokens = 2, b_token = Some [7, 8], b_embd = None, b_pos = Some [0, 0],
     b_n_seq_id = Some [1, 1], b_seq_id = Some [[0], [1]], b_logits = Some [1, 1]\<rparr>"

lemma two_seq_rows:
  "n_tok two_seq_batch = 2" "tok_seqs two_seq_batch 0 = {0}" "tok_seqs two_seq_batch 1 = {1}"
  "tok_row two_seq_batch 0 = [0]" "tok_row two_seq_batch 1 = [1]" "tok_pos two_seq_batch 0 = 0" "tok_pos two_seq_batch 1 = 0"
  by (simp_all add: two_seq_batch_def tok_seqs_def tok_row_def tok_pos_def batch_n_seq_id_def batch_pos_def)

lemma less_2_iff: "i < (2::nat) \<longleftrightarrow> i = 0 \<or> i = 1"
  by auto

lemma two_seq_accepted:
  "\<exists>a. ba_init two_seq_batch 10 None 4 2 False (batch_allocr_new 1) = Some (True, a) \<and> ba_wf a \<and>
     ba_batch a = two_seq_batch \<and> ba_used a = replicate 2 False"
proof -
  let ?b = two_seq_batch
  have backed: "batch_backed (ba_n_pos_per_embd (batch_allocr_new 1)) 4 ?b"
    by (simp add: batch_backed_def batch_readable_def two_seq_batch_def batch_allocr_new_def i32_ok_def less_2_iff)
  have pre1: "tokens_valid 10 ?b"
    unfolding tokens_valid_def two_seq_rows(1) less_2_iff by (simp add: two_seq_batch_def)
  have "seq_ids_valid 2 ?b"
    unfolding seq_ids_valid_def two_seq_rows(1) less_2_iff using two_seq_rows(4,5) by auto
  then have pre: "b_seq_id ?b = None \<or> seq_ids_valid 2 ?b" ..
  have ib: "init_batch None 2 False ?b = Some ?b"
    by (simp add: init_batch_def two_seq_batch_def init_gen_n_seq_id_def init_gen_seq_id_def init_gen_pos_def init_gen_logits_def)
  have pos: "batch_positions ?b s = (if s = 0 \<or> s = 1 then {0} else {})" for s
  proof -
    have "batch_positions ?b s = (if s \<in> tok_seqs ?b 0 then {tok_pos ?b 0} else {}) \<union> (if s \<in> tok_seqs ?b 1 then {tok_pos ?b 1} else {})"
      unfolding batch_positions_def two_seq_rows(1) less_2_iff by (auto intro: gr0I)
    then show ?thesis unfolding two_seq_rows by simp
  qed
  have acc: "batch_accepted None 2 ?b"
    unfolding batch_accepted_def pos two_seq_rows(1) less_2_iff seq_pos_ok_def starts_after_def batch_coupled_ok_def
    using two_seq_rows(6,7) by auto
  have fits: "batch_fits None 2 ?b"
    unfolding batch_fits_def two_seq_rows(1) less_2_iff Let_def
    using two_seq_rows(6,7) by (auto simp: pos_start_def two_seq_batch_def)
  from ba_init_eq[OF backed _ _ _ pre1 pre fits, of False] show ?thesis
    using ib acc two_seq_rows(1) by (auto simp: batch_allocr_new_def)
qed

theorem split_equal_exceeds_n_ubatch_witness:
  "\<exists>a ub a'. ba_init two_seq_batch 10 None 4 2 False (batch_allocr_new 1) = Some (True, a) \<and>
     ba_split_equal 1 False a = Some (ub, a') \<and> ub_n_tokens ub = 2"
proof -
  obtain a where a: "ba_init two_seq_batch 10 None 4 2 False (batch_allocr_new 1) = Some (True, a)" "ba_wf a"
     "ba_batch a = two_seq_batch" "ba_used a = replicate 2 False" using two_seq_accepted by blast
  have f: "unused a = {..<2}" "equal_pre False a"
    using fresh_pre(1,3)[of a] a two_seq_rows(1) by (simp_all add: equal_pre_def)
  then show ?thesis
    using split_equal_exceeds_n_ubatch[of a] a two_seq_rows by auto
qed

end
