(* ===== verification/Hparams.thy ===== *)
theory Hparams
  imports Prelude "HOL-Library.Word"
begin

text \<open>
  \<^verbatim>\<open>llama-hparams.h\<close> and \<^verbatim>\<open>llama-hparams.cpp\<close>: the hyper-parameters that decide what a layer stores in
  the token memory, and the sliding window mask. The record has the fields these functions read; sizes
  are \<^verbatim>\<open>uint32_t\<close> values and multiply modulo \<open>2 ^ 32\<close>. \<open>None\<close> is \<^verbatim>\<open>GGML_ABORT\<close>, a failed
  assertion, or an index past the end of one of the fixed size arrays.
\<close>

datatype llama_swa_type = SWA_NONE | SWA_STANDARD | SWA_CHUNKED | SWA_SYMMETRIC

datatype llama_rope_type = ROPE_NONE | ROPE_NORM | ROPE_NEOX | ROPE_MROPE | ROPE_VISION

abbreviation LLAMA_MAX_LAYERS :: nat where
  "LLAMA_MAX_LAYERS \<equiv> 512"

record llama_hparams =
  hp_n_embd :: "32 word"
  hp_n_layer :: nat
  hp_n_layer_kv_from_start :: int
  hp_n_embd_head_k :: "32 word"
  hp_n_embd_head_v :: "32 word"
  hp_n_embd_head_k_swa :: "32 word"
  hp_n_embd_head_v_swa :: "32 word"
  hp_n_shortconv_l_cache :: "32 word"
  hp_n_head_arr :: "32 word list"
  hp_n_head_kv_arr :: "32 word list"
  hp_n_ff_arr :: "32 word list"
  hp_n_bskcn_arr :: "32 word list list"
  hp_wkv_head_size :: "32 word"
  hp_token_shift_count :: "32 word"
  hp_swa_type :: llama_swa_type
  hp_n_swa :: nat
  hp_swa_layers :: "bool list"
  hp_ssm_d_conv :: "32 word"
  hp_ssm_d_inner :: "32 word"
  hp_ssm_d_state :: "32 word"
  hp_ssm_n_group :: "32 word"
  hp_recurrent_layer_arr :: "bool list"
  hp_rope_type :: llama_rope_type

subsection \<open>Sliding window layers\<close>

definition hp_set_swa_pattern :: "nat \<Rightarrow> bool \<Rightarrow> llama_hparams \<Rightarrow> llama_hparams option" where
  "hp_set_swa_pattern n_pattern dense_first hp = do {
     ls \<leftarrow> for_each (\<lambda>il ls. vec_set il
         (if dense_first then n_pattern = 0 \<or> il mod n_pattern \<noteq> 0
          else n_pattern = 0 \<or> il mod n_pattern < n_pattern - 1) ls) [0..<hp_n_layer hp] (hp_swa_layers hp);
     Some (hp\<lparr>hp_swa_layers := ls\<rparr>) }"

definition hp_is_swa_any :: "llama_hparams \<Rightarrow> bool option" where
  "hp_is_swa_any hp = map_option Not (check_each (\<lambda>il. map_option Not (vec_at (hp_swa_layers hp) il)) [0..<hp_n_layer hp])"

text \<open>The accessors with a range check (\<^verbatim>\<open>if (il < n_layer) return arr[il]; GGML_ABORT\<close>).\<close>

definition hp_layer :: "llama_hparams \<Rightarrow> 'a list \<Rightarrow> nat \<Rightarrow> 'a option" where
  "hp_layer hp arr il = (if il < hp_n_layer hp then vec_at arr il else None)"

definition hp_n_head :: "llama_hparams \<Rightarrow> nat \<Rightarrow> 32 word option" where
  "hp_n_head hp il = hp_layer hp (hp_n_head_arr hp) il"

definition hp_n_head_kv :: "llama_hparams \<Rightarrow> nat \<Rightarrow> 32 word option" where
  "hp_n_head_kv hp il = hp_layer hp (hp_n_head_kv_arr hp) il"

definition hp_n_ff :: "llama_hparams \<Rightarrow> nat \<Rightarrow> 32 word option" where
  "hp_n_ff hp il = hp_layer hp (hp_n_ff_arr hp) il"

definition hp_n_gqa :: "llama_hparams \<Rightarrow> nat \<Rightarrow> 32 word option" where
  "hp_n_gqa hp il = do {
     n_head \<leftarrow> hp_n_head hp il;
     n_head_kv \<leftarrow> hp_n_head_kv hp il;
     Some (if n_head_kv = 0 then 0 else n_head div n_head_kv) }"

definition hp_is_swa :: "llama_hparams \<Rightarrow> nat \<Rightarrow> bool option" where
  "hp_is_swa hp il = hp_layer hp (hp_swa_layers hp) il"

definition hp_n_embd_head_k_l :: "llama_hparams \<Rightarrow> nat \<Rightarrow> 32 word option" where
  "hp_n_embd_head_k_l hp il = (if hp_n_embd_head_k_swa hp \<noteq> 0
     then do { b \<leftarrow> hp_is_swa hp il; Some (if b then hp_n_embd_head_k_swa hp else hp_n_embd_head_k hp) }
     else Some (hp_n_embd_head_k hp))"

definition hp_n_embd_head_v_l :: "llama_hparams \<Rightarrow> nat \<Rightarrow> 32 word option" where
  "hp_n_embd_head_v_l hp il = (if hp_n_embd_head_v_swa hp \<noteq> 0
     then do { b \<leftarrow> hp_is_swa hp il; Some (if b then hp_n_embd_head_v_swa hp else hp_n_embd_head_v hp) }
     else Some (hp_n_embd_head_v hp))"

definition hp_n_embd_k_gqa :: "llama_hparams \<Rightarrow> nat \<Rightarrow> 32 word option" where
  "hp_n_embd_k_gqa hp il = do {
     n_head_kv \<leftarrow> hp_n_head_kv hp il;
     d \<leftarrow> hp_n_embd_head_k_l hp il;
     Some (d * n_head_kv) }"

definition hp_n_embd_v_gqa :: "llama_hparams \<Rightarrow> nat \<Rightarrow> 32 word option" where
  "hp_n_embd_v_gqa hp il = do {
     n_head_kv \<leftarrow> hp_n_head_kv hp il;
     d \<leftarrow> hp_n_embd_head_v_l hp il;
     Some (d * n_head_kv) }"

text \<open>The K and V versions of the next two scan the layers for a width different from layer 0's, and for the maximum.\<close>

definition hp_variable :: "(nat \<Rightarrow> 32 word option) \<Rightarrow> nat \<Rightarrow> bool option" where
  "hp_variable width n_layer = do {
     val \<leftarrow> width 0;
     map_option Not (check_each (\<lambda>il. do { w \<leftarrow> width il; Some (\<not> val \<noteq> w) }) [0..<n_layer]) }"

definition hp_is_n_embd_k_gqa_variable :: "llama_hparams \<Rightarrow> bool option" where
  "hp_is_n_embd_k_gqa_variable hp = hp_variable (hp_n_embd_k_gqa hp) (hp_n_layer hp)"

definition hp_is_n_embd_v_gqa_variable :: "llama_hparams \<Rightarrow> bool option" where
  "hp_is_n_embd_v_gqa_variable hp = hp_variable (hp_n_embd_v_gqa hp) (hp_n_layer hp)"

definition hp_width_max :: "(nat \<Rightarrow> 32 word option) \<Rightarrow> nat \<Rightarrow> 32 word option" where
  "hp_width_max width n_layer = do {
     val \<leftarrow> width 0;
     for_each (\<lambda>il val. do { w \<leftarrow> width il; Some (max val w) }) [0..<n_layer] val }"

definition hp_n_embd_k_gqa_max :: "llama_hparams \<Rightarrow> 32 word option" where
  "hp_n_embd_k_gqa_max hp = hp_width_max (hp_n_embd_k_gqa hp) (hp_n_layer hp)"

definition hp_n_embd_v_gqa_max :: "llama_hparams \<Rightarrow> 32 word option" where
  "hp_n_embd_v_gqa_max hp = hp_width_max (hp_n_embd_v_gqa hp) (hp_n_layer hp)"

subsection \<open>Recurrent state sizes\<close>

definition hp_n_embd_r :: "llama_hparams \<Rightarrow> 32 word" where
  "hp_n_embd_r hp =
     (if hp_wkv_head_size hp \<noteq> 0 then hp_token_shift_count hp * hp_n_embd hp
      else if hp_n_shortconv_l_cache hp \<noteq> 0 then hp_n_embd hp * (hp_n_shortconv_l_cache hp - 1)
      else (if hp_ssm_d_conv hp > 0 then hp_ssm_d_conv hp - 1 else 0) *
           (hp_ssm_d_inner hp + 2 * hp_ssm_n_group hp * hp_ssm_d_state hp))"

definition hp_n_embd_s :: "llama_hparams \<Rightarrow> 32 word" where
  "hp_n_embd_s hp = (if hp_wkv_head_size hp \<noteq> 0 then hp_n_embd hp * hp_wkv_head_size hp
     else hp_ssm_d_state hp * hp_ssm_d_inner hp)"

definition hp_is_recurrent :: "llama_hparams \<Rightarrow> nat \<Rightarrow> bool option" where
  "hp_is_recurrent hp il = hp_layer hp (hp_recurrent_layer_arr hp) il"

definition hp_n_pos_per_embd :: "llama_hparams \<Rightarrow> nat" where
  "hp_n_pos_per_embd hp = (if hp_rope_type hp = ROPE_MROPE then 4 else 1)"

definition hp_n_bskcn :: "llama_hparams \<Rightarrow> nat \<Rightarrow> nat \<Rightarrow> bool option" where
  "hp_n_bskcn hp n il = (if il < hp_n_layer hp then do {
     row \<leftarrow> vec_at (hp_n_bskcn_arr hp) n;
     v \<leftarrow> vec_at row il;
     Some (v > 0) } else None)"

definition hp_has_kv :: "llama_hparams \<Rightarrow> nat \<Rightarrow> bool" where
  "hp_has_kv hp il = (if hp_n_layer_kv_from_start hp \<ge> 0 then il < nat (hp_n_layer_kv_from_start hp) else True)"

definition hp_n_layer_kv :: "llama_hparams \<Rightarrow> nat" where
  "hp_n_layer_kv hp = fold (\<lambda>il res. if hp_has_kv hp il then res + 1 else res) [0..<hp_n_layer hp] 0"

subsection \<open>The sliding window mask\<close>

text \<open>
  \<^verbatim>\<open>p1 - p0\<close> of two positions that are not negative does not overflow; \<^verbatim>\<open>(p1 / n_swa) * n_swa\<close> is computed in
  \<^verbatim>\<open>uint32_t\<close> and is undefined for \<open>n_swa = 0\<close>.
\<close>

definition is_masked_swa :: "nat \<Rightarrow> llama_swa_type \<Rightarrow> int \<Rightarrow> int \<Rightarrow> bool option" where
  "is_masked_swa n_swa swa_type p0 p1 = do {
     cpp_assert (p0 \<ge> 0 \<and> p1 \<ge> 0);
     (case swa_type of
        SWA_NONE \<Rightarrow> Some False
      | SWA_STANDARD \<Rightarrow> Some (p1 - p0 \<ge> to_i32 (int n_swa))
      | SWA_CHUNKED \<Rightarrow> if n_swa = 0 then None
          else Some (p0 < to_i32 (to_u32 (to_u32 p1 div int n_swa * int n_swa)))
      | SWA_SYMMETRIC \<Rightarrow> (let half_n_swa = (if to_i32 (int n_swa) \<ge> 0 then to_i32 (int n_swa) div 2
             else - ((- to_i32 (int n_swa)) div 2)); pos_diff = p1 - p0
          in Some (pos_diff < - half_n_swa \<or> pos_diff > half_n_swa))) }"

subsection \<open>Properties\<close>

lemma set_swa_pattern_loop:
  assumes "n \<le> length ls"
  shows "for_each (\<lambda>il ls. vec_set il (f il) ls) [0..<n] ls = Some (map f [0..<n] @ drop n ls)"
proof -
  have "\<exists>t. for_each (\<lambda>il ls. vec_set il (f il) ls) [0..<n] ls = Some t \<and> t = map f [0..<n] @ drop n ls"
    by (rule for_each_upto_total)
      (use assms in \<open>auto simp: list_update_append simp flip: Cons_nth_drop_Suc\<close>)
  then show ?thesis by simp
qed

lemma last_of_pattern:
  fixes il n :: nat
  assumes "n \<noteq> 0"
  shows "il mod n < n - 1 \<longleftrightarrow> \<not> n dvd il + 1"
proof -
  have "n dvd il + 1 \<longleftrightarrow> (il + 1) mod n = 0" by (simp add: dvd_eq_mod_eq_0)
  also have "\<dots> \<longleftrightarrow> Suc (il mod n) = n" using assms by (simp add: mod_Suc)
  finally have "n dvd il + 1 \<longleftrightarrow> Suc (il mod n) = n" .
  moreover have "il mod n < n" using assms by simp
  ultimately show ?thesis by linarith
qed

text \<open>
  After \<^verbatim>\<open>set_swa_pattern\<close> every \<open>n_pattern\<close>-th layer is dense and the others use a sliding window, as
  its comment describes: the dense ones are the multiples of \<open>n_pattern\<close>, or with \<open>dense_first\<close> unset the
  layers just before a multiple; \<open>n_pattern = 0\<close> makes all layers sliding window layers, \<open>n_pattern = 1\<close> none.
\<close>

theorem set_swa_pattern_spec:
  assumes "hp_n_layer hp \<le> length (hp_swa_layers hp)"
  shows "\<exists>hp'. hp_set_swa_pattern n_pattern dense_first hp = Some hp' \<and> hp_n_layer hp' = hp_n_layer hp \<and>
    (\<forall>il < hp_n_layer hp. hp_is_swa hp' il =
       Some (n_pattern = 0 \<or> \<not> n_pattern dvd (if dense_first then il else il + 1))) \<and>
    hp_is_swa_any hp' = Some (0 < hp_n_layer hp \<and>
       (n_pattern = 0 \<or> (n_pattern \<noteq> 1 \<and> (dense_first \<longrightarrow> 1 < hp_n_layer hp))))"
proof -
  let ?n = "hp_n_layer hp" and ?swa = "\<lambda>il. n_pattern = 0 \<or> \<not> n_pattern dvd (if dense_first then il else il + 1)"
  let ?f = "\<lambda>il. if dense_first then n_pattern = 0 \<or> il mod n_pattern \<noteq> 0
          else n_pattern = 0 \<or> il mod n_pattern < n_pattern - 1"
  define hp' where "hp' = hp\<lparr>hp_swa_layers := map ?swa [0..<?n] @ drop ?n (hp_swa_layers hp)\<rparr>"
  have f: "?f = ?swa"
  proof
    fix il
    show "?f il = ?swa il"
      using last_of_pattern[of n_pattern il] by (cases "n_pattern = 0"; cases dense_first) (simp_all add: dvd_eq_mod_eq_0)
  qed
  have set: "hp_set_swa_pattern n_pattern dense_first hp = Some hp'"
    unfolding hp_set_swa_pattern_def set_swa_pattern_loop[OF assms, of ?f] f by (simp add: hp'_def)
  have len: "?n \<le> length (hp_swa_layers hp')" "hp_n_layer hp' = ?n" using assms by (simp_all add: hp'_def)
  have nth: "hp_swa_layers hp' ! il = ?swa il" if "il < ?n" for il
    using that by (simp add: hp'_def nth_append)
  have swa: "hp_is_swa hp' il = Some (?swa il)" if "il < ?n" for il
    using that len nth by (simp add: hp_is_swa_def hp_layer_def)
  have "hp_is_swa_any hp' = Some (\<exists>il < ?n. ?swa il)"
  proof -
    have "check_each (\<lambda>il. map_option Not (vec_at (hp_swa_layers hp') il)) [0..<?n] = Some (list_all (\<lambda>il. \<not> ?swa il) [0..<?n])"
      by (rule check_each_total) (use len nth in auto)
    then show ?thesis unfolding hp_is_swa_any_def len(2) by (simp only: option.map list_all_iff) auto
  qed
  moreover have "(\<exists>il < ?n. ?swa il) \<longleftrightarrow> 0 < ?n \<and> (n_pattern = 0 \<or> (n_pattern \<noteq> 1 \<and> (dense_first \<longrightarrow> 1 < ?n)))"
  proof (cases "n_pattern = 0 \<or> n_pattern = 1")
    case True
    then show ?thesis by (cases "n_pattern = 0") (auto intro: exI[of _ 0])
  next
    case False
    then have nd: "\<not> n_pattern dvd 1" by simp
    show ?thesis
    proof (cases dense_first)
      case True
      have "\<exists>il < ?n. ?swa il" if "1 < ?n" using that nd True by (intro exI[of _ 1]) simp
      moreover have "il = 0" if "il < ?n" "\<not> 1 < ?n" for il using that by linarith
      ultimately show ?thesis using True False by fastforce
    next
      case df: False
      have "\<exists>il < ?n. ?swa il" if "0 < ?n" using that nd df by (intro exI[of _ 0]) simp
      then show ?thesis using False df by auto
    qed
  qed
  ultimately show ?thesis using set swa len(2) by (intro exI[of _ hp']) simp
qed

definition example_hparams :: llama_hparams where
  "example_hparams = \<lparr>hp_n_embd = 64, hp_n_layer = 3, hp_n_layer_kv_from_start = -1, hp_n_embd_head_k = 16,
     hp_n_embd_head_v = 16, hp_n_embd_head_k_swa = 8, hp_n_embd_head_v_swa = 0, hp_n_shortconv_l_cache = 0,
     hp_n_head_arr = [4, 4, 4], hp_n_head_kv_arr = [2, 2, 2], hp_n_ff_arr = [9, 9, 9], hp_n_bskcn_arr = [],
     hp_wkv_head_size = 0, hp_token_shift_count = 2, hp_swa_type = SWA_STANDARD, hp_n_swa = 4,
     hp_swa_layers = [False, False, False], hp_ssm_d_conv = 4, hp_ssm_d_inner = 8, hp_ssm_d_state = 2,
     hp_ssm_n_group = 1, hp_recurrent_layer_arr = [False, False, False], hp_rope_type = ROPE_NEOX\<rparr>"

theorem set_swa_pattern_spec_witness:
  "\<exists>hp'. hp_set_swa_pattern 3 False example_hparams = Some hp' \<and> hp_is_swa hp' 0 = Some True \<and>
     hp_is_swa hp' 2 = Some False"
proof -
  have "\<exists>hp'. hp_set_swa_pattern 3 False example_hparams = Some hp' \<and>
      (\<forall>il < 3. hp_is_swa hp' il = Some ((3::nat) = 0 \<or> \<not> 3 dvd (if False then il else il + 1)))"
    using set_swa_pattern_spec[of example_hparams 3 False] by (auto simp: example_hparams_def)
  then show ?thesis by (fastforce dest: spec[of _ 0] spec[of _ 2])
qed

text \<open>
  The sliding window mask is monotone in the query position: a token at \<open>p0\<close> that is hidden from a
  query at \<open>p1 \<ge> p0\<close> stays hidden from every later query, and so do all tokens before it. This is what
  allows the cache to overwrite the cell of such a token. A query at distance 0 from a token sees it
  whenever the window is not empty.
\<close>

theorem is_masked_swa_monotone:
  assumes "0 \<le> p0'" "p0' \<le> p0" "p0 \<le> p1" "p1 \<le> p1'" "p1' \<le> INT32_MAX" "0 < n_swa" "int n_swa \<le> INT32_MAX"
  shows "(is_masked_swa n_swa t p0 p1 = Some True \<longrightarrow> is_masked_swa n_swa t p0' p1' = Some True) \<and>
    is_masked_swa n_swa t p1 p1 = Some False"
proof -
  have chunk: "to_i32 (to_u32 (p div int n_swa * int n_swa)) = p div int n_swa * int n_swa" if "0 \<le> p" "p \<le> INT32_MAX" for p
  proof -
    have "p div int n_swa * int n_swa \<le> p" "0 \<le> p div int n_swa * int n_swa"
      using that assms(6) pos_imp_zdiv_nonneg_iff[of "int n_swa" p] div_mult_mod_eq[of p "int n_swa"]
        pos_mod_sign[of "int n_swa" p] by (linarith, simp)
    with that show ?thesis by simp
  qed
  have n: "to_i32 (int n_swa) = int n_swa" using assms(7) by simp
  have "0 \<le> p0" "0 \<le> p1" "0 \<le> p1'" "p1 \<le> INT32_MAX" using assms by linarith+
  moreover have "0 \<le> int n_swa div 2" by simp
  moreover have c: "to_i32 (to_u32 (p1 div int n_swa * int n_swa)) \<le> to_i32 (to_u32 (p1' div int n_swa * int n_swa))"
      "to_i32 (to_u32 (p1 div int n_swa * int n_swa)) \<le> p1"
  proof -
    have "p1 div int n_swa * int n_swa \<le> p1' div int n_swa * int n_swa"
      using assms(4,6) by (intro mult_right_mono zdiv_mono1) auto
    moreover have "p1 div int n_swa * int n_swa \<le> p1"
      using assms(6) by (simp add: minus_mod_eq_div_mult [symmetric])
    ultimately show "to_i32 (to_u32 (p1 div int n_swa * int n_swa)) \<le> to_i32 (to_u32 (p1' div int n_swa * int n_swa))"
      "to_i32 (to_u32 (p1 div int n_swa * int n_swa)) \<le> p1" using chunk[of p1] chunk[of p1'] assms by auto
  qed
  ultimately show ?thesis
    using assms by (cases t) (auto simp: is_masked_swa_def n Let_def)
qed

theorem is_masked_swa_monotone_witness:
  "is_masked_swa 4 SWA_STANDARD 0 4 = Some True \<and> is_masked_swa 4 SWA_STANDARD 0 9 = Some True"
proof -
  have "is_masked_swa 4 SWA_STANDARD 0 4 = Some True" by (simp add: is_masked_swa_def)
  then show ?thesis using is_masked_swa_monotone[of 0 0 4 9 4 SWA_STANDARD] by simp
qed

lemma hp_width_max_spec:
  assumes "0 < n" "\<And>il. il < n \<Longrightarrow> width il = Some (f il)"
  shows "hp_width_max width n = Some (Max (f ` {..<n}))"
proof -
  have "\<exists>t. for_each (\<lambda>il val. do { w \<leftarrow> width il; Some (max val w) }) [0..<n] (f 0) = Some t \<and>
      t = Max (insert (f 0) (f ` {..<n}))"
  proof (rule for_each_upto_total)
    fix i u assume i: "i < n" and u: "u = Max (insert (f 0) (f ` {..<i}))"
    have "insert (f 0) (f ` {..<Suc i}) = insert (f i) (insert (f 0) (f ` {..<i}))" by (auto simp: lessThan_Suc)
    then have "Max (insert (f 0) (f ` {..<Suc i})) = max (f i) u" 
      unfolding u by (metis Max_insert finite_imageI finite_insert finite_lessThan insert_not_empty)
    then show "\<exists>v. (do { w \<leftarrow> width i; Some (max u w) }) = Some v \<and> v = Max (insert (f 0) (f ` {..<Suc i}))"
      using assms(2)[OF i] by (simp add: max.commute)
  qed simp
  moreover have "insert (f 0) (f ` {..<n}) = f ` {..<n}" using assms(1) by auto
  ultimately show ?thesis using assms by (simp add: hp_width_max_def)
qed

lemma hp_variable_spec:
  assumes "0 < n" "\<And>il. il < n \<Longrightarrow> width il = Some (f il)"
  shows "hp_variable width n = Some (\<exists>il < n. f il \<noteq> f 0)"
proof -
  have "check_each (\<lambda>il. do { w \<leftarrow> width il; Some (\<not> f 0 \<noteq> w) }) [0..<n] = Some (list_all (\<lambda>il. f il = f 0) [0..<n])"
    by (rule check_each_total) (use assms(2) in auto)
  then show ?thesis using assms by (auto simp: hp_variable_def list_all_iff)
qed

text \<open>
  \<^verbatim>\<open>n_embd_k_gqa_max\<close> returns the largest key width of all layers and \<^verbatim>\<open>is_n_embd_k_gqa_variable\<close> says
  whether two layers differ, also when sliding window layers have their own head size; when no layer
  differs, the maximum is the width of every layer. (The V versions are the same code.)
\<close>

theorem n_embd_k_gqa_max_spec:
  assumes "0 < hp_n_layer hp" "hp_n_layer hp \<le> length (hp_n_head_kv_arr hp)" "hp_n_layer hp \<le> length (hp_swa_layers hp)"
  defines "w \<equiv> \<lambda>il. (if hp_n_embd_head_k_swa hp \<noteq> 0 \<and> hp_swa_layers hp ! il then hp_n_embd_head_k_swa hp
      else hp_n_embd_head_k hp) * hp_n_head_kv_arr hp ! il"
  shows "hp_n_embd_k_gqa_max hp = Some (Max (w ` {..<hp_n_layer hp})) \<and>
    hp_is_n_embd_k_gqa_variable hp = Some (\<exists>i < hp_n_layer hp. \<exists>j < hp_n_layer hp. w i \<noteq> w j)"
proof -
  have width: "hp_n_embd_k_gqa hp il = Some (w il)" if "il < hp_n_layer hp" for il
    using that assms(2,3)
    by (simp add: hp_n_embd_k_gqa_def hp_n_head_kv_def hp_layer_def hp_n_embd_head_k_l_def hp_is_swa_def w_def)
  have "(\<exists>il < hp_n_layer hp. w il \<noteq> w 0) \<longleftrightarrow> (\<exists>i < hp_n_layer hp. \<exists>j < hp_n_layer hp. w i \<noteq> w j)"
    using assms(1) by metis
  then show ?thesis
    using hp_width_max_spec[OF assms(1) width] hp_variable_spec[OF assms(1) width]
    by (simp add: hp_n_embd_k_gqa_max_def hp_is_n_embd_k_gqa_variable_def)
qed

theorem n_embd_k_gqa_max_spec_witness: "hp_is_n_embd_k_gqa_variable example_hparams = Some False"
proof -
  have "hp_n_layer example_hparams = 3" "hp_n_head_kv_arr example_hparams = [2, 2, 2]"
    "hp_swa_layers example_hparams = [False, False, False]" by (simp_all add: example_hparams_def)
  moreover have "[2, 2, 2 :: 32 word] ! i = 2" "\<not> [False, False, False] ! i" if "i < 3" for i :: nat
    using that by (auto simp: less_Suc_eq numeral_3_eq_3)
  ultimately show ?thesis
    using n_embd_k_gqa_max_spec[of example_hparams] by simp
qed

end
