(* ===== verification/Memory.thy ===== *)
theory Memory
  imports Prelude
begin

text \<open>
  \<^verbatim>\<open>llama-memory.h\<close> and \<^verbatim>\<open>llama-memory.cpp\<close>: the status of a memory context, and the part of the interface
  \<^verbatim>\<open>llama_memory_i\<close> that the server and the batch allocator rely on, as the locale \<open>seq_memory\<close>. A memory is
  seen as the set of positions it holds for each sequence; \<^verbatim>\<open>seq_rm\<close> takes a half-open range out of one of
  these sets and \<^verbatim>\<open>seq_pos_min\<close>/\<^verbatim>\<open>seq_pos_max\<close> are its ends. The unified cache and the sliding-window cache
  interpret it.
\<close>

datatype llama_memory_status = MS_SUCCESS | MS_NO_UPDATE | MS_FAILED_PREPARE | MS_FAILED_COMPUTE

definition llama_memory_status_combine :: "llama_memory_status \<Rightarrow> llama_memory_status \<Rightarrow> llama_memory_status" where
  "llama_memory_status_combine s0 s1 = (case s0 of
     MS_FAILED_PREPARE \<Rightarrow> s0
   | MS_FAILED_COMPUTE \<Rightarrow> s0
   | _ \<Rightarrow> (case s1 of
       MS_FAILED_PREPARE \<Rightarrow> s1
     | MS_FAILED_COMPUTE \<Rightarrow> s1
     | _ \<Rightarrow> if s0 = MS_SUCCESS \<or> s1 = MS_SUCCESS then MS_SUCCESS else MS_NO_UPDATE))"

definition llama_memory_status_is_fail :: "llama_memory_status \<Rightarrow> bool" where
  "llama_memory_status_is_fail s = (case s of MS_SUCCESS \<Rightarrow> False | MS_NO_UPDATE \<Rightarrow> False | _ \<Rightarrow> True)"

lemma status_combine_fail:
  "llama_memory_status_is_fail (llama_memory_status_combine s0 s1) \<longleftrightarrow>
   llama_memory_status_is_fail s0 \<or> llama_memory_status_is_fail s1"
  by (auto simp: llama_memory_status_is_fail_def llama_memory_status_combine_def split: llama_memory_status.splits)

text \<open>Negative ends of a position range stand for 0 and for infinity.\<close>

definition norm_p0 :: "int \<Rightarrow> int" where
  "norm_p0 p0 = (if p0 < 0 then 0 else p0)"

definition norm_p1 :: "int \<Rightarrow> int" where
  "norm_p1 p1 = (if p1 < 0 then INT32_MAX else p1)"

locale seq_memory =
  fixes wf :: "'m \<Rightarrow> bool" and seqs :: "'m \<Rightarrow> nat \<Rightarrow> bool" and view :: "'m \<Rightarrow> nat \<Rightarrow> int set"
    and seq_rm :: "int \<Rightarrow> int \<Rightarrow> int \<Rightarrow> 'm \<Rightarrow> (bool \<times> 'm) option"
    and pos_min :: "int \<Rightarrow> 'm \<Rightarrow> int option" and pos_max :: "int \<Rightarrow> 'm \<Rightarrow> int option"
  assumes view_range: "wf m \<Longrightarrow> finite (view m q) \<and> view m q \<subseteq> {0..INT32_MAX}"
    and rm: "wf m \<Longrightarrow> seqs m q \<Longrightarrow> \<exists>m'. seq_rm (int q) p0 p1 m = Some (True, m') \<and> wf m' \<and> seqs m' = seqs m \<and>
      view m' = (view m)(q := view m q - {norm_p0 p0..<norm_p1 p1})"
    and pos_min: "wf m \<Longrightarrow> seqs m q \<Longrightarrow> pos_min (int q) m = Some (if view m q = {} then -1 else Min (view m q))"
    and pos_max: "wf m \<Longrightarrow> seqs m q \<Longrightarrow> pos_max (int q) m = Some (if view m q = {} then -1 else Max (view m q))"
begin

text \<open>Cutting a sequence at \<open>p\<close>, as a client does to reuse a common prefix: what is left is the prefix.\<close>

lemma truncate:
  assumes "wf m" "seqs m q" "0 \<le> p" "INT32_MAX \<notin> view m q"
  shows "\<exists>m'. seq_rm (int q) p (-1) m = Some (True, m') \<and> wf m' \<and> view m' q = {x \<in> view m q. x < p} \<and>
    (\<forall>r. r \<noteq> q \<longrightarrow> view m' r = view m r) \<and> (\<exists>x. pos_max (int q) m' = Some x \<and> x < p)"
proof -
  obtain m' where m': "seq_rm (int q) p (-1) m = Some (True, m')" "wf m'" "seqs m' = seqs m"
      "view m' = (view m)(q := view m q - {norm_p0 p..<norm_p1 (-1)})"
    using rm[OF assms(1,2)] by blast
  have v: "view m' q = {x \<in> view m q. x < p}"
    using m'(4) assms(3,4) view_range[OF assms(1), of q] by (force simp: norm_p0_def norm_p1_def)
  have "\<exists>x. pos_max (int q) m' = Some x \<and> x < p"
  proof (cases "view m' q = {}")
    case True
    then show ?thesis using pos_max[OF m'(2)] m'(3) assms(2,3) by auto
  next
    case False
    then have "Max (view m' q) \<in> view m' q" using view_range[OF m'(2)] by (intro Max_in) auto
    then show ?thesis using pos_max[OF m'(2)] m'(3) assms(2) v False by auto
  qed
  then show ?thesis using m' v by auto
qed

lemma rm_whole:
  assumes "wf m" "seqs m q" "INT32_MAX \<notin> view m q"
  shows "\<exists>m'. seq_rm (int q) (-1) (-1) m = Some (True, m') \<and> wf m' \<and> view m' = (view m)(q := {}) \<and>
    pos_min (int q) m' = Some (-1) \<and> pos_max (int q) m' = Some (-1)"
proof -
  obtain m' where m': "seq_rm (int q) (-1) (-1) m = Some (True, m')" "wf m'" "seqs m' = seqs m"
      "view m' = (view m)(q := view m q - {norm_p0 (-1)..<norm_p1 (-1)})"
    using rm[OF assms(1,2)] by blast
  have "view m q - {norm_p0 (-1)..<norm_p1 (-1)} = {}"
  proof -
    have "x < INT32_MAX" "0 \<le> x" if "x \<in> view m q" for x
      using that assms(3) view_range[OF assms(1), of q] by (auto simp: less_le)
    then show ?thesis by (auto simp: norm_p0_def norm_p1_def)
  qed
  then have v: "view m' = (view m)(q := {})" unfolding m'(4) by (rule arg_cong)
  then show ?thesis using m'(1-3) pos_min[OF m'(2), of q] pos_max[OF m'(2), of q] assms(2) by auto
qed

text \<open>Cutting every sequence below \<open>n\<close> at its own limit, where \<^verbatim>\<open>INT32_MAX\<close> stands for no limit.\<close>

lemma truncate_each:
  assumes "wf m" "\<forall>q < n. lim q \<noteq> INT32_MAX \<longrightarrow> seqs m q \<and> 0 \<le> lim q" "\<forall>q. INT32_MAX \<notin> view m q"
  shows "\<exists>m'. for_each (\<lambda>q m. if lim q = INT32_MAX then Some m else map_option snd (seq_rm (int q) (lim q) (-1) m)) [0..<n] m = Some m' \<and>
    wf m' \<and> view m' = (\<lambda>q. if q < n then {x \<in> view m q. x < lim q} else view m q)"
proof -
  let ?I = "\<lambda>k m'. wf m' \<and> seqs m' = seqs m \<and> view m' = (\<lambda>q. if q < k then {x \<in> view m q. x < lim q} else view m q)"
  have "\<exists>m'. for_each (\<lambda>q m. if lim q = INT32_MAX then Some m else map_option snd (seq_rm (int q) (lim q) (-1) m)) [0..<n] m = Some m' \<and> ?I n m'"
  proof (rule for_each_upto_total[where I = ?I])
    fix k u assume k: "k < n" and I: "?I k u"
    have lt: "x < INT32_MAX" if "x \<in> view m q" for x q using that assms(3) view_range[OF assms(1), of q] by (auto simp: less_le)
    show "\<exists>v. (if lim k = INT32_MAX then Some u else map_option snd (seq_rm (int k) (lim k) (-1) u)) = Some v \<and> ?I (Suc k) v"
    proof (cases "lim k = INT32_MAX")
      case True
      then have "{x \<in> view m k. x < lim k} = view m k" using lt by auto
      then have "view u = (\<lambda>q. if q < Suc k then {x \<in> view m q. x < lim q} else view m q)" using I by (auto simp: less_Suc_eq fun_eq_iff)
      then show ?thesis using I True by simp
    next
      case False
      then have q: "seqs u k" "0 \<le> lim k" using assms(2) k I by auto
      obtain v where v: "seq_rm (int k) (lim k) (-1) u = Some (True, v)" "wf v" "seqs v = seqs u"
          "view v = (view u)(k := view u k - {norm_p0 (lim k)..<norm_p1 (-1)})"
        using rm[of u k "lim k" "-1"] I q(1) by blast
      have "view u k - {norm_p0 (lim k)..<norm_p1 (-1)} = {x \<in> view m k. x < lim k}"
        using I q(2) lt[of _ k] by (force simp: norm_p0_def norm_p1_def)
      then have "view v = (\<lambda>q. if q < Suc k then {x \<in> view m q. x < lim q} else view m q)" using v(4) I by (auto simp: less_Suc_eq fun_eq_iff)
      then show ?thesis using v I False by simp
    qed
  qed (use assms(1) in simp)
  then show ?thesis by blast
qed

text \<open>Removals of one sequence commute with removals of another.\<close>

lemma rm_commute:
  assumes "wf m" "seqs m q" "seqs m r" "q \<noteq> r"
  shows "\<exists>m1 m2 m1' m2'. seq_rm (int q) a b m = Some (True, m1) \<and> seq_rm (int r) c d m1 = Some (True, m1') \<and>
    seq_rm (int r) c d m = Some (True, m2) \<and> seq_rm (int q) a b m2 = Some (True, m2') \<and> view m1' = view m2'"
proof -
  obtain m1 where m1: "seq_rm (int q) a b m = Some (True, m1)" "wf m1" "seqs m1 = seqs m"
      "view m1 = (view m)(q := view m q - {norm_p0 a..<norm_p1 b})" using rm[OF assms(1,2)] by blast
  obtain m2 where m2: "seq_rm (int r) c d m = Some (True, m2)" "wf m2" "seqs m2 = seqs m"
      "view m2 = (view m)(r := view m r - {norm_p0 c..<norm_p1 d})" using rm[OF assms(1,3)] by blast
  obtain m1' where m1': "seq_rm (int r) c d m1 = Some (True, m1')"
      "view m1' = (view m1)(r := view m1 r - {norm_p0 c..<norm_p1 d})" using rm[OF m1(2)] m1(3) assms(3) by metis
  obtain m2' where m2': "seq_rm (int q) a b m2 = Some (True, m2')"
      "view m2' = (view m2)(q := view m2 q - {norm_p0 a..<norm_p1 b})" using rm[OF m2(2)] m2(3) assms(2) by metis
  have "view m1' = view m2'" unfolding m1'(2) m2'(2) m1(4) m2(4) using assms(4) by (simp add: fun_upd_twist)
  then show ?thesis using m1(1) m2(1) m1'(1) m2'(1) by blast
qed

end

end
