(* ===== verification/KV_Cache.thy ===== *)
theory KV_Cache
  imports Batch_Split Hparams Memory
begin

text \<open>
  \<^verbatim>\<open>llama-kv-cache.h\<close> and \<^verbatim>\<open>llama-kv-cache.cpp\<close>: the unified KV cache, without its tensors. A cache has one
  vector of cells per stream; with one stream all sequences share it, otherwise sequence \<open>s\<close> has stream \<open>s\<close>
  to itself. The record \<open>kv_cache\<close> has the fields that the sequence operations, the slot search and the
  graph inputs use; buffers, layers and graph building are left out.

  Sizes and cell indices are \<^verbatim>\<open>uint32_t\<close> in the source and \<open>nat\<close> here: they stay below twice the number of
  cells, which the constructor bounds by the memory it allocates.
\<close>

record slot_info =
  si_s0 :: nat
  si_s1 :: nat
  si_strm :: "nat list"
  si_idxs :: "nat list list"

record kv_cache =
  kv_n_seq_max :: nat
  kv_n_stream :: nat
  kv_n_pad :: nat
  kv_n_swa :: nat
  kv_swa_type :: llama_swa_type
  kv_v_trans :: bool
  kv_v_heads :: "nat list"
  kv_v_cells :: "kv_cells list"
  kv_seq_to_stream :: "nat list"
  kv_sc_ssrc :: "nat list"
  kv_sc_sdst :: "nat list"

definition no_slot :: slot_info where
  "no_slot = \<lparr>si_s0 = 0, si_s1 = 0, si_strm = [], si_idxs = []\<rparr>"

definition si_empty :: "slot_info \<Rightarrow> bool" where
  "si_empty si \<longleftrightarrow> si_idxs si = []"

definition si_n_stream :: "slot_info \<Rightarrow> nat" where
  "si_n_stream si = length (si_strm si)"

definition si_size :: "slot_info \<Rightarrow> nat option" where
  "si_size si = do {
     cpp_assert (length (si_idxs si) = length (si_strm si));
     cpp_assert (si_idxs si \<noteq> []);
     Some (length (hd (si_idxs si))) }"

definition si_head :: "slot_info \<Rightarrow> nat option" where
  "si_head si = do {
     cpp_assert (length (si_idxs si) = 1);
     cpp_assert (hd (si_idxs si) \<noteq> []);
     Some (hd (hd (si_idxs si))) }"

subsection \<open>Construction and clearing\<close>

definition kv_new :: "bool \<Rightarrow> bool \<Rightarrow> nat \<Rightarrow> nat \<Rightarrow> nat \<Rightarrow> nat \<Rightarrow> llama_swa_type \<Rightarrow> kv_cache option" where
  "kv_new v_trans unified kv_size n_seq_max n_pad n_swa swa_type = do {
     n_stream \<leftarrow> Some (if unified then 1 else n_seq_max);
     cpp_assert (n_pad \<noteq> 0 \<and> kv_size mod n_pad = 0);
     cpp_assert (n_stream = 1 \<or> n_stream = n_seq_max);
     Some \<lparr>kv_n_seq_max = n_seq_max, kv_n_stream = n_stream, kv_n_pad = n_pad, kv_n_swa = n_swa,
       kv_swa_type = swa_type, kv_v_trans = v_trans, kv_v_heads = replicate n_stream 0,
       kv_v_cells = replicate n_stream (cells_resize kv_size cells_new),
       kv_seq_to_stream = (if n_stream > 1 then [0..<n_stream] else replicate LLAMA_MAX_SEQ 0),
       kv_sc_ssrc = [], kv_sc_sdst = []\<rparr> }"

definition kv_clear :: "kv_cache \<Rightarrow> kv_cache" where
  "kv_clear kv = kv\<lparr>kv_v_cells := map cells_reset (kv_v_cells kv), kv_v_heads := map (\<lambda>_. 0) (kv_v_heads kv)\<rparr>"

subsection \<open>Sequence operations\<close>

definition kv_stream :: "kv_cache \<Rightarrow> int \<Rightarrow> nat option" where
  "kv_stream kv seq_id = do {
     cpp_assert (seq_id \<ge> 0 \<and> nat seq_id < length (kv_seq_to_stream kv));
     Some (kv_seq_to_stream kv ! nat seq_id) }"

text \<open>
  The loops over all cells: the state is the cells and \<^verbatim>\<open>new_head\<close>, which starts at the size and takes the
  first cell that was freed.
\<close>

definition kv_sweep :: "(nat \<Rightarrow> kv_cells \<times> nat \<Rightarrow> (kv_cells \<times> nat) option) \<Rightarrow> kv_cells \<Rightarrow> (kv_cells \<times> nat) option" where
  "kv_sweep body c = for_each body [0..<cells_size c] (c, cells_size c)"

definition seq_rm_body :: "nat \<Rightarrow> int \<Rightarrow> int \<Rightarrow> nat \<Rightarrow> kv_cells \<times> nat \<Rightarrow> (kv_cells \<times> nat) option" where
  "seq_rm_body seq_id p0 p1 i = (\<lambda>(c, new_head). do {
     inr \<leftarrow> cells_pos_in i p0 p1 c;
     if \<not> inr then Some (c, new_head) else do {
     has \<leftarrow> cells_seq_has i seq_id c;
     if \<not> has then Some (c, new_head) else do {
     (freed, c) \<leftarrow> cells_seq_rm i seq_id c;
     Some (c, if freed then note_first (cells_size c) i new_head else new_head) }} })"

definition rm_body :: "int \<Rightarrow> int \<Rightarrow> nat \<Rightarrow> kv_cells \<times> nat \<Rightarrow> (kv_cells \<times> nat) option" where
  "rm_body p0 p1 i = (\<lambda>(c, new_head). do {
     inr \<leftarrow> cells_pos_in i p0 p1 c;
     if \<not> inr then Some (c, new_head) else do {
     c \<leftarrow> cells_rm i c;
     Some (c, note_first (cells_size c) i new_head) } })"

definition lower_head :: "kv_cells \<Rightarrow> nat \<Rightarrow> nat \<Rightarrow> nat" where
  "lower_head c new_head head = (if new_head \<noteq> cells_size c \<and> new_head < head then new_head else head)"

text \<open>Update of stream \<open>s\<close>: its cells and its head.\<close>

definition kv_set_stream :: "nat \<Rightarrow> kv_cells \<Rightarrow> nat \<Rightarrow> kv_cache \<Rightarrow> kv_cache" where
  "kv_set_stream s c h kv = kv\<lparr>kv_v_cells := (kv_v_cells kv)[s := c], kv_v_heads := (kv_v_heads kv)[s := h]\<rparr>"

definition kv_sweep_stream :: "(nat \<Rightarrow> kv_cells \<times> nat \<Rightarrow> (kv_cells \<times> nat) option) \<Rightarrow> nat \<Rightarrow> kv_cache \<Rightarrow> kv_cache option" where
  "kv_sweep_stream body s kv = do {
     c \<leftarrow> vec_at (kv_v_cells kv) s;
     h \<leftarrow> vec_at (kv_v_heads kv) s;
     (c, new_head) \<leftarrow> kv_sweep body c;
     Some (kv_set_stream s c (lower_head c new_head h) kv) }"

definition kv_seq_rm :: "int \<Rightarrow> int \<Rightarrow> int \<Rightarrow> kv_cache \<Rightarrow> (bool \<times> kv_cache) option" where
  "kv_seq_rm seq_id p0 p1 kv = do {
     cpp_assert (seq_id = -1 \<or> (seq_id \<ge> 0 \<and> nat seq_id < length (kv_seq_to_stream kv)));
     p0 \<leftarrow> Some (norm_p0 p0);
     p1 \<leftarrow> Some (norm_p1 p1);
     kv \<leftarrow> (if seq_id \<ge> 0 then kv_sweep_stream (seq_rm_body (nat seq_id) p0 p1) (kv_seq_to_stream kv ! nat seq_id) kv
            else for_each (kv_sweep_stream (rm_body p0 p1)) [0..<kv_n_stream kv] kv);
     Some (True, kv) }"

definition seq_keep_body :: "nat \<Rightarrow> nat \<Rightarrow> kv_cells \<times> nat \<Rightarrow> (kv_cells \<times> nat) option" where
  "seq_keep_body seq_id i = (\<lambda>(c, new_head). do {
     (freed, c) \<leftarrow> cells_seq_keep i seq_id c;
     Some (c, if freed then note_first (cells_size c) i new_head else new_head) })"

definition kv_seq_keep :: "int \<Rightarrow> kv_cache \<Rightarrow> kv_cache option" where
  "kv_seq_keep seq_id kv = do {
     s \<leftarrow> kv_stream kv seq_id;
     kv_sweep_stream (seq_keep_body (nat seq_id)) s kv }"

definition seq_add_body :: "nat \<Rightarrow> int \<Rightarrow> int \<Rightarrow> int \<Rightarrow> nat \<Rightarrow> kv_cells \<times> nat \<Rightarrow> (kv_cells \<times> nat) option" where
  "seq_add_body seq_id p0 p1 shift i = (\<lambda>(c, new_head). do {
     inr \<leftarrow> cells_pos_in i p0 p1 c;
     if \<not> inr then Some (c, new_head) else do {
     has \<leftarrow> cells_seq_has i seq_id c;
     if \<not> has then Some (c, new_head) else do {
     (freed, c) \<leftarrow> cells_pos_add i shift c;
     Some (c, if freed then note_first (cells_size c) i new_head else new_head) }} })"

definition kv_seq_add :: "int \<Rightarrow> int \<Rightarrow> int \<Rightarrow> int \<Rightarrow> kv_cache \<Rightarrow> kv_cache option" where
  "kv_seq_add seq_id p0 p1 shift kv = do {
     s \<leftarrow> kv_stream kv seq_id;
     c \<leftarrow> vec_at (kv_v_cells kv) s;
     if shift = 0 then Some kv else do {
     p0 \<leftarrow> Some (norm_p0 p0);
     p1 \<leftarrow> Some (norm_p1 p1);
     if p0 = p1 then Some kv else do {
     (c, new_head) \<leftarrow> kv_sweep (seq_add_body (nat seq_id) p0 p1 shift) c;
     Some (kv_set_stream s c (if new_head \<noteq> cells_size c then new_head else 0) kv) }} }"

definition seq_div_body :: "nat \<Rightarrow> int \<Rightarrow> int \<Rightarrow> int \<Rightarrow> nat \<Rightarrow> kv_cells \<times> nat \<Rightarrow> (kv_cells \<times> nat) option" where
  "seq_div_body seq_id p0 p1 d i = (\<lambda>(c, new_head). do {
     inr \<leftarrow> cells_pos_in i p0 p1 c;
     if \<not> inr then Some (c, new_head) else do {
     has \<leftarrow> cells_seq_has i seq_id c;
     if \<not> has then Some (c, new_head) else do {
     c \<leftarrow> cells_pos_div i d c;
     Some (c, new_head) }} })"

definition kv_seq_div :: "int \<Rightarrow> int \<Rightarrow> int \<Rightarrow> int \<Rightarrow> kv_cache \<Rightarrow> kv_cache option" where
  "kv_seq_div seq_id p0 p1 d kv = do {
     s \<leftarrow> kv_stream kv seq_id;
     c \<leftarrow> vec_at (kv_v_cells kv) s;
     if d = 1 then Some kv else do {
     p0 \<leftarrow> Some (norm_p0 p0);
     p1 \<leftarrow> Some (norm_p1 p1);
     if p0 = p1 then Some kv else do {
     (c, _) \<leftarrow> kv_sweep (seq_div_body (nat seq_id) p0 p1 d) c;
     Some (kv\<lparr>kv_v_cells := (kv_v_cells kv)[s := c]\<rparr>) }} }"

definition kv_seq_pos_min :: "int \<Rightarrow> kv_cache \<Rightarrow> int option" where
  "kv_seq_pos_min seq_id kv = do {
     s \<leftarrow> kv_stream kv seq_id;
     c \<leftarrow> vec_at (kv_v_cells kv) s;
     cells_seq_pos_min (nat seq_id) c }"

definition kv_seq_pos_max :: "int \<Rightarrow> kv_cache \<Rightarrow> int option" where
  "kv_seq_pos_max seq_id kv = do {
     s \<leftarrow> kv_stream kv seq_id;
     c \<leftarrow> vec_at (kv_v_cells kv) s;
     cells_seq_pos_max (nat seq_id) c }"

definition kv_get_size :: "kv_cache \<Rightarrow> nat option" where
  "kv_get_size kv = do {
     s \<leftarrow> vec_at (kv_seq_to_stream kv) 0;
     c \<leftarrow> vec_at (kv_v_cells kv) s;
     Some (cells_size c) }"

text \<open>\<^verbatim>\<open>seq_cp\<close> within a stream shares cells; across streams it copies all cells of the source sequence.\<close>

definition seq_cp_body :: "nat \<Rightarrow> nat \<Rightarrow> int \<Rightarrow> int \<Rightarrow> nat \<Rightarrow> kv_cells \<times> nat \<Rightarrow> (kv_cells \<times> nat) option" where
  "seq_cp_body src dst p0 p1 i = (\<lambda>(c, new_head). do {
     inr \<leftarrow> cells_pos_in i p0 p1 c;
     if \<not> inr then Some (c, new_head) else do {
     has \<leftarrow> cells_seq_has i src c;
     if \<not> has then Some (c, new_head) else do {
     c \<leftarrow> cells_seq_add i dst c;
     Some (c, new_head) }} })"

definition stream_cp_body :: "nat \<Rightarrow> nat \<Rightarrow> kv_cells \<Rightarrow> nat \<Rightarrow> kv_cells \<Rightarrow> kv_cells option" where
  "stream_cp_body src dst c0 i c1 = do {
     has \<leftarrow> cells_seq_has i src c0;
     if \<not> has then Some c1 else do {
     pos \<leftarrow> cells_pos_get i c0;
     shift \<leftarrow> cells_get_shift i c0;
     cpp_assert (i32_ok (pos - shift));
     cpp_assert (shift \<noteq> 0 \<longrightarrow> pos - shift \<ge> 0);
     c1 \<leftarrow> cells_pos_set i (pos - shift) c1;
     c1 \<leftarrow> cells_seq_add i dst c1;
     if shift \<noteq> 0 then map_option snd (cells_pos_add i shift c1) else Some c1 } }"

definition kv_seq_cp :: "int \<Rightarrow> int \<Rightarrow> int \<Rightarrow> int \<Rightarrow> kv_cache \<Rightarrow> kv_cache option" where
  "kv_seq_cp seq_id_src seq_id_dst p0 p1 kv = do {
     s0 \<leftarrow> kv_stream kv seq_id_src;
     s1 \<leftarrow> kv_stream kv seq_id_dst;
     c0 \<leftarrow> vec_at (kv_v_cells kv) s0;
     if s0 = s1 then
       if seq_id_src = seq_id_dst then Some kv else do {
         (c, _) \<leftarrow> kv_sweep (seq_cp_body (nat seq_id_src) (nat seq_id_dst) (norm_p0 p0) (norm_p1 p1)) c0;
         Some (kv\<lparr>kv_v_cells := (kv_v_cells kv)[s0 := c]\<rparr>) }
     else do {
       n \<leftarrow> kv_get_size kv;
       cpp_assert ((p0 > 0 \<longrightarrow> i32_ok (p0 + 1)) \<and> (p1 > 0 \<longrightarrow> i32_ok (p1 + 1)));
       cpp_assert (\<not> (p0 > 0 \<and> p0 + 1 < to_i32 (int n)) \<and> \<not> (p1 > 0 \<and> p1 + 1 < to_i32 (int n)));
       c1 \<leftarrow> vec_at (kv_v_cells kv) s1;
       h0 \<leftarrow> vec_at (kv_v_heads kv) s0;
       c1 \<leftarrow> for_each (stream_cp_body (nat seq_id_src) (nat seq_id_dst) c0) [0..<cells_size c0] (cells_reset c1);
       Some ((kv_set_stream s1 c1 h0 kv)\<lparr>kv_sc_ssrc := kv_sc_ssrc kv @ [s0], kv_sc_sdst := kv_sc_sdst kv @ [s1]\<rparr>) } }"

subsection \<open>Slot search\<close>

definition kv_is_masked_swa :: "kv_cache \<Rightarrow> int \<Rightarrow> int \<Rightarrow> bool option" where
  "kv_is_masked_swa kv p0 p1 = is_masked_swa (kv_n_swa kv) (kv_swa_type kv) p0 p1"

text \<open>May the slot search use cell \<open>idx\<close>: it is empty, or one sequence has moved past it.\<close>

definition can_use_cell :: "kv_cache \<Rightarrow> kv_cells \<Rightarrow> nat \<Rightarrow> bool option" where
  "can_use_cell kv c idx = do {
     e \<leftarrow> cells_is_empty idx c;
     if e then Some True else do {
     n \<leftarrow> cells_seq_count idx c;
     if n \<noteq> 1 then Some False else do {
     pos_cell \<leftarrow> cells_pos_get idx c;
     seq_id_cell \<leftarrow> cells_seq_get idx c;
     cpp_assert (0 \<le> seq_id_cell);
     pmax \<leftarrow> cells_seq_pos_max (nat seq_id_cell) c;
     cpp_assert (i32_ok (pmax + 1));
     kv_is_masked_swa kv pos_cell (pmax + 1) }} }"

text \<open>One pass of the inner loop: \<open>n_test\<close> cells from \<^verbatim>\<open>head_cur\<close> on, stopping early when \<open>cont\<close>.\<close>

primrec slot_test :: "kv_cache \<Rightarrow> kv_cells \<Rightarrow> bool \<Rightarrow> nat \<Rightarrow> nat \<times> nat \<times> nat list \<Rightarrow> (nat \<times> nat \<times> nat list) option" where
  "slot_test kv c cont 0 st = Some st"
| "slot_test kv c cont (Suc n) st = (case st of (head_cur, n_tested, idxs) \<Rightarrow> do {
     can_use \<leftarrow> can_use_cell kv c head_cur;
     if can_use then slot_test kv c cont n (head_cur + 1, n_tested + 1, idxs @ [head_cur])
     else if cont then Some (head_cur + 1, n_tested + 1, idxs)
     else slot_test kv c cont n (head_cur + 1, n_tested + 1, idxs) })"

lemma slot_test_bounds:
  assumes "slot_test kv c cont n st = Some (h', t', ids')" "st = (h, t, ids)"
  shows "h' \<le> h + n \<and> h + t' = h' + t \<and> (0 < n \<longrightarrow> h < h')"
  using assms
proof (induction n arbitrary: st h t ids)
  case (Suc n)
  then obtain b where b: "can_use_cell kv c h = Some b"
    "(if b then slot_test kv c cont n (h + 1, t + 1, ids @ [h])
      else if cont then Some (h + 1, t + 1, ids)
      else slot_test kv c cont n (h + 1, t + 1, ids)) = Some (h', t', ids')"
    by (auto simp: bind_eq_Some_conv)
  consider "b" | "\<not> b" "cont" | "\<not> b" "\<not> cont" by blast
  then show ?case
  proof cases
    case 1
    with b(2) Suc.IH[of _ "h + 1" "t + 1" "ids @ [h]"] show ?thesis by fastforce
  next
    case 2
    with b(2) show ?thesis by auto
  next
    case 3
    with b(2) Suc.IH[of _ "h + 1" "t + 1" ids] show ?thesis by fastforce
  qed
qed simp

text \<open>
  The outer loop. It leaves with the cells found, or without success after testing as many cells as
  there are. With more cells to test at once than the vector has (or none at all, and no success) the
  source would loop forever, and a head beyond the end would make \<^verbatim>\<open>cells.size() - head_cur\<close> wrap around;
  these are \<open>None\<close>.
\<close>

function slot_scan :: "kv_cache \<Rightarrow> kv_cells \<Rightarrow> bool \<Rightarrow> nat \<Rightarrow> nat \<Rightarrow> nat \<times> nat \<times> nat list \<Rightarrow> (nat list option) option" where
  "slot_scan kv c cont n_tokens n_test (head_cur, n_tested, idxs) =
     (if n_test > cells_size c \<or> head_cur > cells_size c then None
      else if head_cur + n_test > cells_size c
      then slot_scan kv c cont n_tokens n_test (0, n_tested + (cells_size c - head_cur), idxs)
      else case slot_test kv c cont n_test (head_cur, n_tested, idxs) of
        None \<Rightarrow> None
      | Some (head_cur', n_tested', idxs') \<Rightarrow>
          if length idxs' = n_tokens then Some (Some idxs')
          else if n_tested' \<ge> cells_size c then Some None
          else if n_test = 0 then None
          else slot_scan kv c cont n_tokens n_test (head_cur', n_tested', if cont then [] else idxs'))"
  by pat_completeness auto
termination
proof (relation "measures [\<lambda>(kv, c, cont, nt, n, (h, t, ids)). cells_size c - t,
      \<lambda>(kv, c, cont, nt, n, (h, t, ids)). if h + n > cells_size c then 1 else 0]", goal_cases)
  case 1
  then show ?case by simp
next
  case (2 kv c cont n_tokens n_test h t ids)
  then show ?case by auto
next
  case (3 kv c cont n_tokens n_test h t ids x h' y t' ids')
  then have "slot_test kv c cont n_test (h, t, ids) = Some (h', t', ids')" by auto
  from slot_test_bounds[OF this refl] 3 show ?case by auto
qed

declare slot_scan.simps [simp del]

text \<open>The search for one stream of a micro-batch; the inner \<open>None\<close> is "no slot".\<close>

definition find_slot_stream :: "kv_cache \<Rightarrow> bool \<Rightarrow> nat \<Rightarrow> nat \<Rightarrow> (nat list option) option" where
  "find_slot_stream kv cont n_tokens s = do {
     c \<leftarrow> vec_at (kv_v_cells kv) s;
     h \<leftarrow> vec_at (kv_v_heads kv) s;
     head_cur \<leftarrow> Some (if h > cells_get_used c + 2 * n_tokens then 0 else h);
     if n_tokens > cells_size c then Some None
     else slot_scan kv c cont n_tokens (if cont then n_tokens else 1) (head_cur, 0, []) }"

fun find_slot_loop :: "kv_cache \<Rightarrow> bool \<Rightarrow> llama_ubatch \<Rightarrow> nat \<Rightarrow> nat list \<Rightarrow> slot_info \<Rightarrow> slot_info option" where
  "find_slot_loop kv cont ub n_tokens [] res = do {
     cpp_assert (si_s1 res \<ge> si_s0 res);
     Some res }"
| "find_slot_loop kv cont ub n_tokens (s # ss) res = do {
     seq_id \<leftarrow> vec_at (ub_seq_id_unq ub) s;
     _ \<leftarrow> (if kv_n_stream kv > 1 then do {
         n \<leftarrow> vec_at (ub_n_seq_id ub) (s * n_tokens);
         cpp_assert (n = 1);
         row \<leftarrow> vec_at (ub_seq_id ub) (s * n_tokens);
         sid \<leftarrow> vec_at row 0;
         cpp_assert (sid = seq_id) }
       else Some ());
     cpp_assert (0 \<le> seq_id);
     st \<leftarrow> vec_at (kv_seq_to_stream kv) (nat seq_id);
     r \<leftarrow> find_slot_stream kv cont n_tokens st;
     (case r of
        None \<Rightarrow> Some no_slot
      | Some idxs \<Rightarrow> find_slot_loop kv cont ub n_tokens ss
          (res\<lparr>si_s0 := min (si_s0 res) st, si_s1 := max (si_s1 res) st,
               si_strm := (si_strm res)[s := st], si_idxs := (si_idxs res)[s := idxs]\<rparr>)) }"

definition kv_find_slot :: "llama_ubatch \<Rightarrow> bool \<Rightarrow> kv_cache \<Rightarrow> slot_info option" where
  "kv_find_slot ub cont kv = do {
     (n_seqs, n_tokens) \<leftarrow> (if kv_n_stream kv > 1 then do {
         cpp_assert (ub_n_seqs_unq ub \<noteq> 0 \<and> ub_n_tokens ub mod ub_n_seqs_unq ub = 0);
         Some (ub_n_seqs_unq ub, ub_n_tokens ub div ub_n_seqs_unq ub) }
       else Some (1, ub_n_tokens ub));
     find_slot_loop kv cont ub n_tokens [0..<n_seqs]
       \<lparr>si_s0 = LLAMA_MAX_SEQ, si_s1 = 0, si_strm = replicate n_seqs 0, si_idxs = replicate n_seqs []\<rparr> }"

subsection \<open>Placing a micro-batch\<close>

text \<open>One token: the cell is vacated if needed (remembering what was overwritten) and filled.\<close>

definition apply_token :: "llama_ubatch \<Rightarrow> nat \<Rightarrow> nat \<Rightarrow> kv_cells \<times> (nat \<Rightarrow> int) \<Rightarrow> (kv_cells \<times> (nat \<Rightarrow> int)) option" where
  "apply_token ub i idx = (\<lambda>(c, rm). do {
     e \<leftarrow> cells_is_empty idx c;
     (c, rm) \<leftarrow> (if e then Some (c, rm) else do {
         n \<leftarrow> cells_seq_count idx c;
         cpp_assert (n = 1);
         seq_id \<leftarrow> cells_seq_get idx c;
         pos \<leftarrow> cells_pos_get idx c;
         cpp_assert (0 \<le> seq_id);
         c \<leftarrow> cells_rm idx c;
         Some (c, rm(nat seq_id := max (rm (nat seq_id)) pos)) });
     p \<leftarrow> vec_at (ub_pos ub) i;
     c \<leftarrow> cells_pos_set idx p c;
     n \<leftarrow> vec_at (ub_n_seq_id ub) i;
     c \<leftarrow> for_each (\<lambda>s c. do {
         row \<leftarrow> vec_at (ub_seq_id ub) i;
         sid \<leftarrow> vec_at row s;
         cpp_assert (0 \<le> sid);
         cells_seq_add idx (nat sid) c }) [0..<nat n] c;
     Some (c, rm) })"

definition apply_stream :: "slot_info \<Rightarrow> llama_ubatch \<Rightarrow> nat \<Rightarrow> nat \<Rightarrow> kv_cache \<times> (nat \<Rightarrow> int) \<Rightarrow> (kv_cache \<times> (nat \<Rightarrow> int)) option" where
  "apply_stream si ub n s = (\<lambda>(kv, rm). do {
     st \<leftarrow> vec_at (si_strm si) s;
     c \<leftarrow> vec_at (kv_v_cells kv) st;
     (c, rm) \<leftarrow> for_each (\<lambda>ii (c, rm). do {
         idxs \<leftarrow> vec_at (si_idxs si) s;
         idx \<leftarrow> vec_at idxs ii;
         apply_token ub (s * n + ii) idx (c, rm) }) [0..<n] (c, rm);
     Some (kv\<lparr>kv_v_cells := (kv_v_cells kv)[st := c]\<rparr>, rm) })"

text \<open>Positions before an overwritten one leave the cache, so that each sequence stays contiguous.\<close>

definition apply_purge :: "(nat \<Rightarrow> int) \<Rightarrow> nat \<Rightarrow> kv_cache \<Rightarrow> kv_cache option" where
  "apply_purge rm s kv = (if rm s = -1 then Some kv else do {
     st \<leftarrow> kv_stream kv (int s);
     c \<leftarrow> vec_at (kv_v_cells kv) st;
     pmin \<leftarrow> cells_seq_pos_min s c;
     if pmin \<le> rm s then do {
       cpp_assert (i32_ok (rm s + 1));
       map_option snd (kv_seq_rm (int s) pmin (rm s + 1) kv) }
     else Some kv })"

definition apply_head :: "slot_info \<Rightarrow> nat \<Rightarrow> kv_cache \<Rightarrow> kv_cache option" where
  "apply_head si s kv = do {
     st \<leftarrow> vec_at (si_strm si) s;
     idxs \<leftarrow> vec_at (si_idxs si) s;
     cpp_assert (idxs \<noteq> []);
     heads \<leftarrow> vec_set st (last idxs + 1) (kv_v_heads kv);
     Some (kv\<lparr>kv_v_heads := heads\<rparr>) }"

definition kv_apply_ubatch :: "slot_info \<Rightarrow> llama_ubatch \<Rightarrow> kv_cache \<Rightarrow> kv_cache option" where
  "kv_apply_ubatch si ub kv = do {
     n \<leftarrow> si_size si;
     cpp_assert (ub_n_tokens ub = si_n_stream si * n);
     (kv, rm) \<leftarrow> for_each (apply_stream si ub n) [0..<si_n_stream si] (kv, \<lambda>_. -1);
     kv \<leftarrow> for_each (apply_purge rm) [0..<LLAMA_MAX_SEQ] kv;
     for_each (apply_head si) [0..<si_n_stream si] kv }"

end
