(* ===== verification/KV_Seq.thy ===== *)
theory KV_Seq
  imports KV_Cache
begin

text \<open>
  The sequence operations of the KV cache. The invariant \<open>kv_wf\<close> says that every stream is a concretised
  list of abstract cells in which a cell with a position has an owner, that heads lie in range, and that
  with several streams each one holds its own sequence only. The locale \<open>cell_sweep\<close> is the interface
  between the loops of the cache and the methods of the cell vector: a loop body that rewrites one cell
  by \<open>f\<close> makes the loop a \<open>map\<close>, and \<^verbatim>\<open>new_head\<close> the first cell that was freed. Each operation interprets it.
\<close>

definition acell_full :: "acell \<Rightarrow> bool" where
  "acell_full x \<longleftrightarrow> acell_ok x \<and> (a_pos x \<noteq> -1 \<longrightarrow> a_seq x \<noteq> {})"

lemma acell_full_ok: "acell_full x \<Longrightarrow> acell_ok x"
  by (simp add: acell_full_def)

lemma acell_full_no_cell [simp]: "acell_full no_cell"
  by (simp add: acell_full_def)

lemma acell_full_cases: "acell_full x \<Longrightarrow> x = no_cell \<or> (0 \<le> a_pos x \<and> a_seq x \<noteq> {})"
  using acell_okD(4)[of x] unfolding acell_full_def by linarith

abbreviation acells_full :: "acell list \<Rightarrow> bool" where
  "acells_full xs \<equiv> \<forall>x \<in> set xs. acell_full x"

lemma acells_full_ok: "acells_full xs \<Longrightarrow> acells_ok xs"
  using acell_full_ok by blast

subsection \<open>Sweeping over the cells\<close>

locale cell_sweep =
  fixes body :: "nat \<Rightarrow> kv_cells \<times> nat \<Rightarrow> (kv_cells \<times> nat) option"
    and f :: "acell \<Rightarrow> acell" and freed :: "acell \<Rightarrow> bool" and shifted :: "acell \<Rightarrow> bool" and pre :: "acell \<Rightarrow> bool"
  assumes step: "i < length ys \<Longrightarrow> acells_ok ys \<Longrightarrow> acell_full (ys ! i) \<Longrightarrow> pre (ys ! i) \<Longrightarrow>
      body i (cells_of hs ys, h) = Some (cells_of (hs \<or> shifted (ys ! i)) (ys[i := f (ys ! i)]),
        if freed (ys ! i) then note_first (length ys) i h else h)"
    and full: "acell_full y \<Longrightarrow> pre y \<Longrightarrow> acell_full (f y)"
begin

lemma sweep_prefix:
  assumes xs: "acells_full xs" "\<forall>x \<in> set xs. pre x" and m: "m \<le> length xs"
  shows "for_each body [0..<m] (cells_of hs xs, length xs) =
    Some (cells_of (hs \<or> (\<exists>x \<in> set (take m xs). shifted x)) (map f (take m xs) @ drop m xs),
      fold (\<lambda>i h. if freed (xs ! i) then note_first (length xs) i h else h) [0..<m] (length xs))"
  using m
proof (induction m)
  case 0
  then show ?case by simp
next
  case (Suc m)
  let ?ys = "map f (take m xs) @ drop m xs"
  have len: "length ?ys = length xs" using Suc.prems by simp
  have "acells_full ?ys"
    using xs full by (auto dest: in_set_takeD in_set_dropD)
  then have ok: "acells_ok ?ys" by (rule acells_full_ok)
  have nth: "?ys ! m = xs ! m" using Suc.prems by (simp add: nth_append)
  have upd: "?ys[m := f (xs ! m)] = map f (take (Suc m) xs) @ drop (Suc m) xs"
    using Suc.prems by (simp add: list_update_append take_Suc_conv_app_nth flip: Cons_nth_drop_Suc)
  have b: "body m (cells_of hs' ?ys, h) = Some (cells_of (hs' \<or> shifted (xs ! m)) (?ys[m := f (xs ! m)]),
        if freed (xs ! m) then note_first (length xs) m h else h)" for hs' h
    using step[of m ?ys hs' h] ok nth len Suc.prems xs by simp
  have sh: "(hs \<or> (\<exists>x \<in> set (take m xs). shifted x)) \<or> shifted (xs ! m) \<longleftrightarrow> hs \<or> (\<exists>x \<in> set (take (Suc m) xs). shifted x)"
    using Suc.prems by (auto simp: take_Suc_conv_app_nth)
  show ?case
    using Suc by (simp add: for_each_append b upd sh[symmetric] del: take_Suc)
qed

lemma sweep:
  assumes "acells_full xs" "\<forall>x \<in> set xs. pre x"
  shows "kv_sweep body (cells_of hs xs) = Some (cells_of (hs \<or> (\<exists>x \<in> set xs. shifted x)) (map f xs), first_index freed xs)"
  using sweep_prefix[OF assms order_refl, of hs] fold_note_first[of freed xs] by (simp add: kv_sweep_def)

lemma sweep_full:
  assumes "acells_full xs" "\<forall>x \<in> set xs. pre x"
  shows "acells_full (map f xs)"
  using assms full by auto

end

subsection \<open>The effect on one cell\<close>

definition in_range :: "int \<Rightarrow> int \<Rightarrow> acell \<Rightarrow> bool" where
  "in_range p0 p1 x \<longleftrightarrow> norm_p0 p0 \<le> a_pos x \<and> a_pos x < norm_p1 p1"

lemma in_range_used: "in_range p0 p1 x \<Longrightarrow> a_pos x \<noteq> -1"
  by (auto simp: in_range_def norm_p0_def split: if_splits)

definition rm_cell :: "nat \<Rightarrow> int \<Rightarrow> int \<Rightarrow> acell \<Rightarrow> acell" where
  "rm_cell s p0 p1 x = (if in_range p0 p1 x \<and> s \<in> a_seq x then acell_rm s x else x)"

definition rm_any_cell :: "int \<Rightarrow> int \<Rightarrow> acell \<Rightarrow> acell" where
  "rm_any_cell p0 p1 x = (if in_range p0 p1 x then no_cell else x)"

definition add_cell :: "nat \<Rightarrow> int \<Rightarrow> int \<Rightarrow> int \<Rightarrow> acell \<Rightarrow> acell" where
  "add_cell s p0 p1 d x = (if in_range p0 p1 x \<and> s \<in> a_seq x then acell_move d x else x)"

definition div_cell :: "nat \<Rightarrow> int \<Rightarrow> int \<Rightarrow> int \<Rightarrow> acell \<Rightarrow> acell" where
  "div_cell s p0 p1 d x = (if in_range p0 p1 x \<and> s \<in> a_seq x then acell_div d x else x)"

definition cp_cell :: "nat \<Rightarrow> nat \<Rightarrow> int \<Rightarrow> int \<Rightarrow> acell \<Rightarrow> acell" where
  "cp_cell src dst p0 p1 x = (if in_range p0 p1 x \<and> src \<in> a_seq x then acell_add dst x else x)"

lemma cells_size_of [simp]: "cells_size (cells_of hs xs) = length xs"
  by simp

lemma acell_full_rm: "acell_full x \<Longrightarrow> acell_full (acell_rm s x)"
  by (auto simp: acell_full_def acell_ok_rm) (auto simp: acell_rm_def split: if_splits)

lemma acell_full_keep: "acell_full x \<Longrightarrow> acell_full (acell_keep s x)"
  by (auto simp: acell_full_def acell_ok_keep) (auto simp: acell_keep_def split: if_splits)

interpretation rm_sweep: cell_sweep "seq_rm_body s (norm_p0 p0) (norm_p1 p1)" "rm_cell s p0 p1"
    "\<lambda>x. in_range p0 p1 x \<and> a_seq x = {s}" "\<lambda>_. False" "\<lambda>_. s < LLAMA_MAX_SEQ" for s p0 p1
proof
  fix i :: nat and ys hs h
  assume a: "i < length ys" "acells_ok ys" "acell_full (ys ! i)" "s < LLAMA_MAX_SEQ"
  have "a_seq (ys ! i) - {s} = {} \<longleftrightarrow> a_seq (ys ! i) = {s}" if "s \<in> a_seq (ys ! i)" using that by auto
  then show "seq_rm_body s (norm_p0 p0) (norm_p1 p1) i (cells_of hs ys, h) =
      Some (cells_of (hs \<or> False) (ys[i := rm_cell s p0 p1 (ys ! i)]),
        if in_range p0 p1 (ys ! i) \<and> a_seq (ys ! i) = {s} then note_first (length ys) i h else h)"
    using a cells_seq_rm_of[OF a(1,2), of s hs]
    by (auto simp: seq_rm_body_def cells_pos_in_of cells_seq_has_of rm_cell_def in_range_def)
next
  show "acell_full y \<Longrightarrow> s < LLAMA_MAX_SEQ \<Longrightarrow> acell_full (rm_cell s p0 p1 y)" for y
    by (simp add: rm_cell_def acell_full_rm)
qed

interpretation rm_any_sweep: cell_sweep "rm_body (norm_p0 p0) (norm_p1 p1)" "rm_any_cell p0 p1"
    "in_range p0 p1" "\<lambda>_. False" "\<lambda>_. True" for p0 p1
proof
  fix i :: nat and ys hs h
  assume a: "i < length ys" "acells_ok ys"
  show "rm_body (norm_p0 p0) (norm_p1 p1) i (cells_of hs ys, h) =
      Some (cells_of (hs \<or> False) (ys[i := rm_any_cell p0 p1 (ys ! i)]),
        if in_range p0 p1 (ys ! i) then note_first (length ys) i h else h)"
    using a cells_rm_of[OF a, of hs] in_range_used[of p0 p1 "ys ! i"]
    by (auto simp: rm_body_def cells_pos_in_of rm_any_cell_def in_range_def)
qed (simp add: rm_any_cell_def)

interpretation keep_sweep: cell_sweep "seq_keep_body s" "acell_keep s"
    "\<lambda>x. a_seq x \<noteq> {} \<and> s \<notin> a_seq x" "\<lambda>_. False" "\<lambda>_. s < LLAMA_MAX_SEQ" for s
proof
  fix i :: nat and ys hs h
  assume a: "i < length ys" "acells_ok ys" "acell_full (ys ! i)" "s < LLAMA_MAX_SEQ"
  have "ys ! i = no_cell \<or> a_seq (ys ! i) \<noteq> {}" using acell_full_cases[OF a(3)] by blast
  then show "seq_keep_body s i (cells_of hs ys, h) = Some (cells_of (hs \<or> False) (ys[i := acell_keep s (ys ! i)]),
        if a_seq (ys ! i) \<noteq> {} \<and> s \<notin> a_seq (ys ! i) then note_first (length ys) i h else h)"
    using a by (simp add: seq_keep_body_def cells_seq_keep_of)
qed (rule acell_full_keep)

text \<open>Moves must stay in the range of \<^verbatim>\<open>int32_t\<close>, both for the position and for the pending shift.\<close>

definition add_pre :: "nat \<Rightarrow> int \<Rightarrow> int \<Rightarrow> int \<Rightarrow> acell \<Rightarrow> bool" where
  "add_pre s p0 p1 d x \<longleftrightarrow> s < LLAMA_MAX_SEQ \<and>
     (in_range p0 p1 x \<and> s \<in> a_seq x \<longrightarrow> i32_ok (a_pos x + d) \<and> i32_ok (a_shift x + d))"

interpretation add_sweep: cell_sweep "seq_add_body s (norm_p0 p0) (norm_p1 p1) d" "add_cell s p0 p1 d"
    "\<lambda>x. in_range p0 p1 x \<and> s \<in> a_seq x \<and> a_pos x + d < 0" "\<lambda>x. in_range p0 p1 x \<and> s \<in> a_seq x"
    "add_pre s p0 p1 d" for s p0 p1 d
proof
  fix i :: nat and ys hs h
  assume a: "i < length ys" "acells_ok ys" "acell_full (ys ! i)" "add_pre s p0 p1 d (ys ! i)"
  show "seq_add_body s (norm_p0 p0) (norm_p1 p1) d i (cells_of hs ys, h) =
      Some (cells_of (hs \<or> (in_range p0 p1 (ys ! i) \<and> s \<in> a_seq (ys ! i))) (ys[i := add_cell s p0 p1 d (ys ! i)]),
        if in_range p0 p1 (ys ! i) \<and> s \<in> a_seq (ys ! i) \<and> a_pos (ys ! i) + d < 0 then note_first (length ys) i h else h)"
    using a cells_pos_add_of[OF a(1,2), of d hs] in_range_used[of p0 p1 "ys ! i"]
    by (auto simp: seq_add_body_def cells_pos_in_of cells_seq_has_of add_cell_def in_range_def add_pre_def)
next
  fix y assume y: "acell_full y" "add_pre s p0 p1 d y"
  show "acell_full (add_cell s p0 p1 d y)"
  proof (cases "in_range p0 p1 y \<and> s \<in> a_seq y")
    case True
    have "acell_ok (acell_move d y)"
      using True y in_range_used[of p0 p1 y] by (intro acell_ok_move) (auto simp: add_pre_def acell_full_def)
    then show ?thesis using True by (auto simp: add_cell_def acell_full_def acell_move_def)
  next
    case False
    then show ?thesis using y by (auto simp: add_cell_def)
  qed
qed

definition div_pre :: "nat \<Rightarrow> int \<Rightarrow> int \<Rightarrow> int \<Rightarrow> acell \<Rightarrow> bool" where
  "div_pre s p0 p1 d x \<longleftrightarrow> s < LLAMA_MAX_SEQ \<and> 0 < d \<and>
     (in_range p0 p1 x \<and> s \<in> a_seq x \<longrightarrow> i32_ok (a_shift (acell_div d x)))"

interpretation div_sweep: cell_sweep "seq_div_body s (norm_p0 p0) (norm_p1 p1) d" "div_cell s p0 p1 d"
    "\<lambda>_. False" "\<lambda>x. in_range p0 p1 x \<and> s \<in> a_seq x" "div_pre s p0 p1 d" for s p0 p1 d
proof
  fix i :: nat and ys hs h
  assume a: "i < length ys" "acells_ok ys" "acell_full (ys ! i)" "div_pre s p0 p1 d (ys ! i)"
  show "seq_div_body s (norm_p0 p0) (norm_p1 p1) d i (cells_of hs ys, h) =
      Some (cells_of (hs \<or> (in_range p0 p1 (ys ! i) \<and> s \<in> a_seq (ys ! i))) (ys[i := div_cell s p0 p1 d (ys ! i)]),
        if False then note_first (length ys) i h else h)"
    using a cells_pos_div_of[OF a(1,2), of d hs] in_range_used[of p0 p1 "ys ! i"]
    by (auto simp: seq_div_body_def cells_pos_in_of cells_seq_has_of div_cell_def in_range_def div_pre_def)
next
  fix y assume y: "acell_full y" "div_pre s p0 p1 d y"
  show "acell_full (div_cell s p0 p1 d y)"
  proof (cases "in_range p0 p1 y \<and> s \<in> a_seq y")
    case True
    have "acell_ok (acell_div d y)"
      using True y in_range_used[of p0 p1 y] by (intro acell_ok_div) (auto simp: div_pre_def acell_full_def)
    then show ?thesis using True by (auto simp: div_cell_def acell_full_def acell_div_def)
  next
    case False
    then show ?thesis using y by (auto simp: div_cell_def)
  qed
qed

text \<open>Copying to a sequence that already owns one of the cells fails an assertion.\<close>

definition cp_pre :: "nat \<Rightarrow> nat \<Rightarrow> int \<Rightarrow> int \<Rightarrow> acell \<Rightarrow> bool" where
  "cp_pre src dst p0 p1 x \<longleftrightarrow> src < LLAMA_MAX_SEQ \<and> dst < LLAMA_MAX_SEQ \<and>
     (in_range p0 p1 x \<and> src \<in> a_seq x \<longrightarrow> dst \<notin> a_seq x)"

interpretation cp_sweep: cell_sweep "seq_cp_body src dst (norm_p0 p0) (norm_p1 p1)" "cp_cell src dst p0 p1"
    "\<lambda>_. False" "\<lambda>_. False" "cp_pre src dst p0 p1" for src dst p0 p1
proof
  fix i :: nat and ys hs h
  assume a: "i < length ys" "acells_ok ys" "acell_full (ys ! i)" "cp_pre src dst p0 p1 (ys ! i)"
  show "seq_cp_body src dst (norm_p0 p0) (norm_p1 p1) i (cells_of hs ys, h) =
      Some (cells_of (hs \<or> False) (ys[i := cp_cell src dst p0 p1 (ys ! i)]), if False then note_first (length ys) i h else h)"
    using a cells_seq_add_of[OF a(1,2), of dst hs] in_range_used[of p0 p1 "ys ! i"]
    by (auto simp: seq_cp_body_def cells_pos_in_of cells_seq_has_of cp_cell_def in_range_def cp_pre_def)
next
  fix y assume y: "acell_full y" "cp_pre src dst p0 p1 y"
  show "acell_full (cp_cell src dst p0 p1 y)"
    using y in_range_used[of p0 p1 y] acell_ok_add[of y dst]
    by (auto simp: cp_cell_def acell_full_def cp_pre_def acell_add_def)
qed

subsection \<open>The invariant of the cache\<close>

definition kv_capacity :: "kv_cache \<Rightarrow> nat" where
  "kv_capacity kv = cells_size (kv_v_cells kv ! 0)"

definition stream_wf :: "kv_cache \<Rightarrow> nat \<Rightarrow> bool" where
  "stream_wf kv s \<longleftrightarrow> (\<exists>hs xs. kv_v_cells kv ! s = cells_of hs xs \<and> acells_full xs \<and> length xs = kv_capacity kv \<and>
     kv_v_heads kv ! s \<le> kv_capacity kv \<and> (1 < kv_n_stream kv \<longrightarrow> (\<forall>x \<in> set xs. a_seq x \<subseteq> {s})))"

definition kv_wf :: "kv_cache \<Rightarrow> bool" where
  "kv_wf kv \<longleftrightarrow> 0 < kv_n_stream kv \<and> length (kv_v_cells kv) = kv_n_stream kv \<and> length (kv_v_heads kv) = kv_n_stream kv \<and>
     kv_n_stream kv \<le> LLAMA_MAX_SEQ \<and>
     kv_seq_to_stream kv = (if kv_n_stream kv = 1 then replicate LLAMA_MAX_SEQ 0 else [0..<kv_n_stream kv]) \<and>
     (\<forall>s < kv_n_stream kv. stream_wf kv s)"

lemma kv_wfD:
  assumes "kv_wf kv" "s < kv_n_stream kv"
  obtains hs xs where "kv_v_cells kv ! s = cells_of hs xs" "acells_full xs" "length xs = kv_capacity kv"
    "s < length (kv_v_cells kv)" "s < length (kv_v_heads kv)" "kv_v_heads kv ! s \<le> kv_capacity kv"
    "1 < kv_n_stream kv \<longrightarrow> (\<forall>x \<in> set xs. a_seq x \<subseteq> {s})"
  using assms unfolding kv_wf_def stream_wf_def by auto

text \<open>The stream of a sequence, and that it exists.\<close>

definition stream_of :: "kv_cache \<Rightarrow> nat \<Rightarrow> nat" where
  "stream_of kv q = (if kv_n_stream kv = 1 then 0 else q)"

definition has_seq :: "kv_cache \<Rightarrow> nat \<Rightarrow> bool" where
  "has_seq kv q \<longleftrightarrow> q < LLAMA_MAX_SEQ \<and> (kv_n_stream kv \<noteq> 1 \<longrightarrow> q < kv_n_stream kv)"

lemma kv_stream_ok:
  assumes "kv_wf kv" "has_seq kv q"
  shows "kv_stream kv (int q) = Some (stream_of kv q)" "q < length (kv_seq_to_stream kv)"
    "kv_seq_to_stream kv ! q = stream_of kv q" "stream_of kv q < kv_n_stream kv"
  using assms by (auto simp: kv_wf_def has_seq_def kv_stream_def stream_of_def)

lemma kv_wf_set_stream:
  assumes wf: "kv_wf kv" and s: "s < kv_n_stream kv" and xs: "acells_full xs" "length xs = kv_capacity kv"
    and h: "h \<le> kv_capacity kv" and own: "1 < kv_n_stream kv \<Longrightarrow> \<forall>x \<in> set xs. a_seq x \<subseteq> {s}"
  shows "kv_wf (kv_set_stream s (cells_of hs xs) h kv)" "kv_capacity (kv_set_stream s (cells_of hs xs) h kv) = kv_capacity kv"
proof -
  let ?kv = "kv_set_stream s (cells_of hs xs) h kv"
  have len: "length (kv_v_cells kv) = kv_n_stream kv" "length (kv_v_heads kv) = kv_n_stream kv" "0 < kv_n_stream kv"
    using wf by (auto simp: kv_wf_def)
  show cap: "kv_capacity ?kv = kv_capacity kv"
    using len s xs(2) by (cases "s = 0") (simp_all add: kv_capacity_def kv_set_stream_def)
  have "stream_wf ?kv t" if t: "t < kv_n_stream kv" for t
  proof (cases "t = s")
    case True
    then show ?thesis using xs h own len s unfolding stream_wf_def cap by (auto simp: kv_set_stream_def)
  next
    case False
    obtain hs' ys where "kv_v_cells kv ! t = cells_of hs' ys" "acells_full ys" "length ys = kv_capacity kv"
      "kv_v_heads kv ! t \<le> kv_capacity kv" "1 < kv_n_stream kv \<longrightarrow> (\<forall>x \<in> set ys. a_seq x \<subseteq> {t})"
      using kv_wfD[OF wf t] by metis
    then show ?thesis using False unfolding stream_wf_def cap by (auto simp: kv_set_stream_def)
  qed
  then show "kv_wf ?kv" using wf by (simp add: kv_wf_def) (simp add: kv_set_stream_def)
qed

lemma kv_set_stream_fields [simp]:
  "kv_n_stream (kv_set_stream s c h kv) = kv_n_stream kv" "kv_seq_to_stream (kv_set_stream s c h kv) = kv_seq_to_stream kv"
  "kv_n_seq_max (kv_set_stream s c h kv) = kv_n_seq_max kv"
  "kv_v_cells (kv_set_stream s c h kv) = (kv_v_cells kv)[s := c]" "kv_v_heads (kv_set_stream s c h kv) = (kv_v_heads kv)[s := h]"
  by (simp_all add: kv_set_stream_def)

lemma lower_head_le: "h \<le> cells_size c \<Longrightarrow> lower_head c h' h \<le> cells_size c"
  by (auto simp: lower_head_def)

text \<open>
  \<open>kv_maps kv s f kv'\<close>: the operation applied \<open>f\<close> to every cell of stream \<open>s\<close> and nothing else (but for the
  stream's head, which stays in range). This is the abstract effect of all sequence operations.
\<close>

definition kv_maps :: "kv_cache \<Rightarrow> nat \<Rightarrow> (acell \<Rightarrow> acell) \<Rightarrow> kv_cache \<Rightarrow> bool" where
  "kv_maps kv s f kv' \<longleftrightarrow> cells_abs (kv_v_cells kv' ! s) = map f (cells_abs (kv_v_cells kv ! s)) \<and>
     (\<exists>c h. kv' = kv_set_stream s c h kv)"

lemma kv_maps_other:
  assumes "kv_maps kv s f kv'" "t \<noteq> s"
  shows "kv_v_cells kv' ! t = kv_v_cells kv ! t" "kv_v_heads kv' ! t = kv_v_heads kv ! t"
  using assms by (auto simp: kv_maps_def)

lemma kv_set_stream_cells_only:
  "s < length (kv_v_heads kv) \<Longrightarrow> kv\<lparr>kv_v_cells := (kv_v_cells kv)[s := c]\<rparr> = kv_set_stream s c (kv_v_heads kv ! s) kv"
  by (simp add: kv_set_stream_def)

lemma kv_wf_lengths:
  "kv_wf kv \<Longrightarrow> s < kv_n_stream kv \<Longrightarrow> s < length (kv_v_cells kv) \<and> s < length (kv_v_heads kv)"
  by (simp add: kv_wf_def)

context cell_sweep
begin

lemma sweep_cells:
  assumes wf: "kv_wf kv" and s: "s < kv_n_stream kv" and pre: "\<forall>x \<in> set (cells_abs (kv_v_cells kv ! s)). pre x"
    and own: "1 < kv_n_stream kv \<longrightarrow> (\<forall>x t. a_seq x \<subseteq> {t} \<longrightarrow> a_seq (f x) \<subseteq> {t})"
  shows "\<exists>c'. kv_sweep body (kv_v_cells kv ! s) = Some (c', first_index freed (cells_abs (kv_v_cells kv ! s))) \<and>
    cells_size c' = kv_capacity kv \<and> kv_v_heads kv ! s \<le> kv_capacity kv \<and>
    first_index freed (cells_abs (kv_v_cells kv ! s)) \<le> kv_capacity kv \<and>
    (\<forall>h \<le> kv_capacity kv. kv_wf (kv_set_stream s c' h kv) \<and> kv_maps kv s f (kv_set_stream s c' h kv) \<and>
      kv_capacity (kv_set_stream s c' h kv) = kv_capacity kv)"
proof -
  obtain hs xs where c: "kv_v_cells kv ! s = cells_of hs xs" "acells_full xs" "length xs = kv_capacity kv"
      "s < length (kv_v_cells kv)" "s < length (kv_v_heads kv)" "kv_v_heads kv ! s \<le> kv_capacity kv"
      "1 < kv_n_stream kv \<longrightarrow> (\<forall>x \<in> set xs. a_seq x \<subseteq> {s})"
    using kv_wfD[OF wf s] .
  have pre': "\<forall>x \<in> set xs. pre x" using pre c(1) by simp
  let ?c = "cells_of (hs \<or> (\<exists>x \<in> set xs. shifted x)) (map f xs)"
  have "kv_wf (kv_set_stream s ?c h kv) \<and> kv_maps kv s f (kv_set_stream s ?c h kv) \<and>
      kv_capacity (kv_set_stream s ?c h kv) = kv_capacity kv" if "h \<le> kv_capacity kv" for h
    using kv_wf_set_stream[OF wf s sweep_full[OF c(2) pre'] _ that] c own by (auto simp: kv_maps_def)
  then show ?thesis
    using sweep[OF c(2) pre', of hs] c(1,3,6) first_index_le[of freed xs] by auto
qed

lemma sweep_stream:
  assumes "kv_wf kv" and "s < kv_n_stream kv" and "\<forall>x \<in> set (cells_abs (kv_v_cells kv ! s)). pre x"
    and "1 < kv_n_stream kv \<longrightarrow> (\<forall>x t. a_seq x \<subseteq> {t} \<longrightarrow> a_seq (f x) \<subseteq> {t})"
  shows "\<exists>kv'. kv_sweep_stream body s kv = Some kv' \<and> kv_wf kv' \<and> kv_maps kv s f kv' \<and> kv_capacity kv' = kv_capacity kv \<and>
    kv_v_heads kv' ! s = min (kv_v_heads kv ! s) (first_index freed (cells_abs (kv_v_cells kv ! s)))"
proof -
  let ?fi = "first_index freed (cells_abs (kv_v_cells kv ! s))"
  obtain c' where c: "kv_sweep body (kv_v_cells kv ! s) = Some (c', ?fi)"
      "cells_size c' = kv_capacity kv" "kv_v_heads kv ! s \<le> kv_capacity kv" "?fi \<le> kv_capacity kv"
      "\<forall>h \<le> kv_capacity kv. kv_wf (kv_set_stream s c' h kv) \<and> kv_maps kv s f (kv_set_stream s c' h kv) \<and>
        kv_capacity (kv_set_stream s c' h kv) = kv_capacity kv"
    using sweep_cells[OF assms] by (elim exE conjE) (rule that; assumption)
  have h: "lower_head c' ?fi (kv_v_heads kv ! s) = min (kv_v_heads kv ! s) ?fi"
    using c(2-4) by (auto simp: lower_head_def)
  have "kv_sweep_stream body s kv = Some (kv_set_stream s c' (min (kv_v_heads kv ! s) ?fi) kv)"
    using c(1) h kv_wf_lengths[OF assms(1,2)] by (simp add: kv_sweep_stream_def)
  moreover have "min (kv_v_heads kv ! s) ?fi \<le> kv_capacity kv" using c(3) by linarith
  ultimately show ?thesis using c(5) kv_wf_lengths[OF assms(1,2)] by simp
qed

end

lemma rm_cell_owner: "a_seq x \<subseteq> {t} \<Longrightarrow> a_seq (rm_cell s p0 p1 x) \<subseteq> {t}"
  by (auto simp: rm_cell_def acell_rm_def)

lemma acell_keep_owner: "a_seq x \<subseteq> {t} \<Longrightarrow> a_seq (acell_keep s x) \<subseteq> {t}"
  by (auto simp: acell_keep_def)

lemma add_cell_owner: "a_seq x \<subseteq> {t} \<Longrightarrow> a_seq (add_cell s p0 p1 d x) \<subseteq> {t}"
  by (auto simp: add_cell_def acell_move_def)

lemma div_cell_owner: "a_seq x \<subseteq> {t} \<Longrightarrow> a_seq (div_cell s p0 p1 d x) \<subseteq> {t}"
  by (auto simp: div_cell_def acell_div_def)

lemma rm_any_cell_owner: "a_seq x \<subseteq> {t} \<Longrightarrow> a_seq (rm_any_cell p0 p1 x) \<subseteq> {t}"
  by (auto simp: rm_any_cell_def)

lemma has_seq_max: "has_seq kv q \<Longrightarrow> q < LLAMA_MAX_SEQ"
  by (simp add: has_seq_def)

subsection \<open>The operations as maps over the cells\<close>

lemma kv_seq_rm_ok:
  assumes wf: "kv_wf kv" and q: "has_seq kv q"
  shows "\<exists>kv'. kv_seq_rm (int q) p0 p1 kv = Some (True, kv') \<and> kv_wf kv' \<and> kv_maps kv (stream_of kv q) (rm_cell q p0 p1) kv' \<and>
    kv_capacity kv' = kv_capacity kv \<and>
    kv_v_heads kv' ! stream_of kv q = min (kv_v_heads kv ! stream_of kv q)
      (first_index (\<lambda>x. in_range p0 p1 x \<and> a_seq x = {q}) (cells_abs (kv_v_cells kv ! stream_of kv q)))"
  using rm_sweep.sweep_stream[OF wf kv_stream_ok(4)[OF wf q], of q p0 p1] kv_stream_ok[OF wf q] rm_cell_owner has_seq_max[OF q]
  by (auto simp: kv_seq_rm_def)

lemma kv_maps_refl:
  assumes "kv_wf kv" "s < kv_n_stream kv" "\<forall>x \<in> set (cells_abs (kv_v_cells kv ! s)). f x = x"
  shows "kv_maps kv s f kv"
  using assms(3) kv_wf_lengths[OF assms(1,2)] map_idI[of "cells_abs (kv_v_cells kv ! s)" f]
  by (auto simp: kv_maps_def kv_set_stream_def intro!: exI[of _ "kv_v_cells kv ! s"] exI[of _ "kv_v_heads kv ! s"])

lemma kv_seq_keep_ok:
  assumes wf: "kv_wf kv" and q: "has_seq kv q"
  shows "\<exists>kv'. kv_seq_keep (int q) kv = Some kv' \<and> kv_wf kv' \<and> kv_maps kv (stream_of kv q) (acell_keep q) kv' \<and>
    kv_capacity kv' = kv_capacity kv \<and>
    kv_v_heads kv' ! stream_of kv q = min (kv_v_heads kv ! stream_of kv q)
      (first_index (\<lambda>x. a_seq x \<noteq> {} \<and> q \<notin> a_seq x) (cells_abs (kv_v_cells kv ! stream_of kv q)))"
  using keep_sweep.sweep_stream[OF wf kv_stream_ok(4)[OF wf q], of q] kv_stream_ok[OF wf q] acell_keep_owner has_seq_max[OF q]
  by (auto simp: kv_seq_keep_def)

lemma add_cell_idle: "d = 0 \<or> norm_p0 p0 = norm_p1 p1 \<Longrightarrow> add_cell s p0 p1 d x = x"
  by (cases x) (auto simp: add_cell_def acell_move_def in_range_def norm_p0_def split: if_splits)

lemma div_cell_idle: "d = 1 \<or> norm_p0 p0 = norm_p1 p1 \<Longrightarrow> div_cell s p0 p1 d x = x"
  by (cases x) (auto simp: div_cell_def acell_div_def in_range_def norm_p0_def trunc_div_def sgn_if split: if_splits)

lemma kv_seq_add_ok:
  assumes wf: "kv_wf kv" and q: "has_seq kv q"
    and pre: "\<forall>x \<in> set (cells_abs (kv_v_cells kv ! stream_of kv q)). add_pre q p0 p1 d x"
  shows "\<exists>kv'. kv_seq_add (int q) p0 p1 d kv = Some kv' \<and> kv_wf kv' \<and> kv_maps kv (stream_of kv q) (add_cell q p0 p1 d) kv' \<and>
    kv_capacity kv' = kv_capacity kv"
proof (cases "d = 0 \<or> norm_p0 p0 = norm_p1 p1")
  case True
  have s: "stream_of kv q < kv_n_stream kv" by (rule kv_stream_ok(4)[OF wf q])
  have "kv_maps kv (stream_of kv q) (add_cell q p0 p1 d) kv"
    by (rule kv_maps_refl[OF wf s]) (use True add_cell_idle in blast)
  moreover have "kv_seq_add (int q) p0 p1 d kv = Some kv"
    using True kv_stream_ok[OF wf q] kv_wf_lengths[OF wf s] by (auto simp: kv_seq_add_def)
  ultimately show ?thesis using wf by blast
next
  case False
  let ?s = "stream_of kv q"
  let ?fi = "first_index (\<lambda>x. in_range p0 p1 x \<and> q \<in> a_seq x \<and> a_pos x + d < 0) (cells_abs (kv_v_cells kv ! ?s))"
  have s: "?s < kv_n_stream kv" by (rule kv_stream_ok(4)[OF wf q])
  have own: "1 < kv_n_stream kv \<longrightarrow> (\<forall>x t. a_seq x \<subseteq> {t} \<longrightarrow> a_seq (add_cell q p0 p1 d x) \<subseteq> {t})" using add_cell_owner by blast
  obtain c' where c: "kv_sweep (seq_add_body q (norm_p0 p0) (norm_p1 p1) d) (kv_v_cells kv ! ?s) = Some (c', ?fi)"
      "cells_size c' = kv_capacity kv" "kv_v_heads kv ! ?s \<le> kv_capacity kv" "?fi \<le> kv_capacity kv"
      "\<forall>h \<le> kv_capacity kv. kv_wf (kv_set_stream ?s c' h kv) \<and> kv_maps kv ?s (add_cell q p0 p1 d) (kv_set_stream ?s c' h kv) \<and>
        kv_capacity (kv_set_stream ?s c' h kv) = kv_capacity kv"
    using add_sweep.sweep_cells[OF wf s pre own] by (elim exE conjE) (rule that; assumption)
  have "kv_seq_add (int q) p0 p1 d kv = Some (kv_set_stream ?s c' (if ?fi \<noteq> cells_size c' then ?fi else 0) kv)"
    using False kv_stream_ok[OF wf q] kv_wf_lengths[OF wf s] c(1) by (simp add: kv_seq_add_def)
  moreover have "(if ?fi \<noteq> cells_size c' then ?fi else 0) \<le> kv_capacity kv" using c(4) by simp
  ultimately show ?thesis using c(5) by blast
qed

lemma kv_seq_div_ok:
  assumes wf: "kv_wf kv" and q: "has_seq kv q"
    and pre: "\<forall>x \<in> set (cells_abs (kv_v_cells kv ! stream_of kv q)). div_pre q p0 p1 d x"
  shows "\<exists>kv'. kv_seq_div (int q) p0 p1 d kv = Some kv' \<and> kv_wf kv' \<and> kv_maps kv (stream_of kv q) (div_cell q p0 p1 d) kv' \<and>
    kv_capacity kv' = kv_capacity kv"
proof (cases "d = 1 \<or> norm_p0 p0 = norm_p1 p1")
  case True
  have s: "stream_of kv q < kv_n_stream kv" by (rule kv_stream_ok(4)[OF wf q])
  have "kv_maps kv (stream_of kv q) (div_cell q p0 p1 d) kv"
    by (rule kv_maps_refl[OF wf s]) (use True div_cell_idle in blast)
  moreover have "kv_seq_div (int q) p0 p1 d kv = Some kv"
    using True kv_stream_ok[OF wf q] kv_wf_lengths[OF wf s] by (auto simp: kv_seq_div_def)
  ultimately show ?thesis using wf by blast
next
  case False
  let ?s = "stream_of kv q"
  have s: "?s < kv_n_stream kv" by (rule kv_stream_ok(4)[OF wf q])
  have own: "1 < kv_n_stream kv \<longrightarrow> (\<forall>x t. a_seq x \<subseteq> {t} \<longrightarrow> a_seq (div_cell q p0 p1 d x) \<subseteq> {t})" using div_cell_owner by blast
  obtain c' fi where c: "kv_sweep (seq_div_body q (norm_p0 p0) (norm_p1 p1) d) (kv_v_cells kv ! ?s) = Some (c', fi)"
      "kv_v_heads kv ! ?s \<le> kv_capacity kv"
      "\<forall>h \<le> kv_capacity kv. kv_wf (kv_set_stream ?s c' h kv) \<and> kv_maps kv ?s (div_cell q p0 p1 d) (kv_set_stream ?s c' h kv) \<and>
        kv_capacity (kv_set_stream ?s c' h kv) = kv_capacity kv"
    using div_sweep.sweep_cells[OF wf s pre own] by (elim exE conjE) (rule that; assumption)
  have "kv_seq_div (int q) p0 p1 d kv = Some (kv_set_stream ?s c' (kv_v_heads kv ! ?s) kv)"
    using False kv_stream_ok[OF wf q] kv_wf_lengths[OF wf s] c(1) by (simp add: kv_seq_div_def kv_set_stream_cells_only)
  then show ?thesis using c(2,3) by blast
qed

lemma kv_seq_cp_shared_ok:
  assumes wf: "kv_wf kv" and q: "has_seq kv src" "has_seq kv dst" and one: "kv_n_stream kv = 1" and ne: "src \<noteq> dst"
    and pre: "\<forall>x \<in> set (cells_abs (kv_v_cells kv ! 0)). cp_pre src dst p0 p1 x"
  shows "\<exists>kv'. kv_seq_cp (int src) (int dst) p0 p1 kv = Some kv' \<and> kv_wf kv' \<and> kv_maps kv 0 (cp_cell src dst p0 p1) kv' \<and>
    kv_capacity kv' = kv_capacity kv"
proof -
  have s: "0 < kv_n_stream kv" using one by simp
  have own: "1 < kv_n_stream kv \<longrightarrow> (\<forall>x t. a_seq x \<subseteq> {t} \<longrightarrow> a_seq (cp_cell src dst p0 p1 x) \<subseteq> {t})" using one by simp
  obtain c' fi where c: "kv_sweep (seq_cp_body src dst (norm_p0 p0) (norm_p1 p1)) (kv_v_cells kv ! 0) = Some (c', fi)"
      "kv_v_heads kv ! 0 \<le> kv_capacity kv"
      "\<forall>h \<le> kv_capacity kv. kv_wf (kv_set_stream 0 c' h kv) \<and> kv_maps kv 0 (cp_cell src dst p0 p1) (kv_set_stream 0 c' h kv) \<and>
        kv_capacity (kv_set_stream 0 c' h kv) = kv_capacity kv"
    using cp_sweep.sweep_cells[OF wf s pre own] by (elim exE conjE) (rule that; assumption)
  have "kv_seq_cp (int src) (int dst) p0 p1 kv = Some (kv_set_stream 0 c' (kv_v_heads kv ! 0) kv)"
    using ne kv_stream_ok[OF wf q(1)] kv_stream_ok[OF wf q(2)] one kv_wf_lengths[OF wf s] c(1)
    by (simp add: kv_seq_cp_def kv_set_stream_cells_only stream_of_def)
  then show ?thesis using c(2,3) by blast
qed

text \<open>\<^verbatim>\<open>seq_rm\<close> with sequence -1 goes through all streams.\<close>

lemma kv_seq_rm_any_ok:
  assumes wf: "kv_wf kv"
  shows "\<exists>kv'. kv_seq_rm (-1) p0 p1 kv = Some (True, kv') \<and> kv_wf kv' \<and> kv_n_stream kv' = kv_n_stream kv \<and>
    kv_capacity kv' = kv_capacity kv \<and>
    (\<forall>t < kv_n_stream kv. cells_abs (kv_v_cells kv' ! t) = map (rm_any_cell p0 p1) (cells_abs (kv_v_cells kv ! t)))"
proof -
  let ?I = "\<lambda>m u. kv_wf u \<and> kv_n_stream u = kv_n_stream kv \<and> kv_capacity u = kv_capacity kv \<and>
    (\<forall>t < kv_n_stream kv. cells_abs (kv_v_cells u ! t) =
      (if t < m then map (rm_any_cell p0 p1) (cells_abs (kv_v_cells kv ! t)) else cells_abs (kv_v_cells kv ! t)))"
  have "\<exists>u. for_each (kv_sweep_stream (rm_body (norm_p0 p0) (norm_p1 p1))) [0..<kv_n_stream kv] kv = Some u \<and> ?I (kv_n_stream kv) u"
  proof (rule for_each_upto_total[where I = ?I])
    show "?I 0 kv" using wf by simp
  next
    fix i u assume i: "i < kv_n_stream kv" and I: "?I i u"
    have wfu: "kv_wf u" and iu: "i < kv_n_stream u" using I i by simp_all
    obtain v where v: "kv_sweep_stream (rm_body (norm_p0 p0) (norm_p1 p1)) i u = Some v" "kv_wf v"
        "kv_maps u i (rm_any_cell p0 p1) v" "kv_capacity v = kv_capacity u"
      using rm_any_sweep.sweep_stream[OF wfu iu, of p0 p1] rm_any_cell_owner by blast
    have n: "kv_n_stream v = kv_n_stream kv" using v(3) I by (auto simp: kv_maps_def)
    have "cells_abs (kv_v_cells v ! t) =
        (if t < Suc i then map (rm_any_cell p0 p1) (cells_abs (kv_v_cells kv ! t)) else cells_abs (kv_v_cells kv ! t))"
      if "t < kv_n_stream kv" for t
    proof (cases "t = i")
      case True
      then show ?thesis using v(3) I i by (simp add: kv_maps_def)
    next
      case False
      then show ?thesis using kv_maps_other(1)[OF v(3) False] I that by auto
    qed
    then show "\<exists>v. kv_sweep_stream (rm_body (norm_p0 p0) (norm_p1 p1)) i u = Some v \<and> ?I (Suc i) v"
      using v n I by (intro exI[of _ v]) simp
  qed
  then show ?thesis by (auto simp: kv_seq_rm_def)
qed

text \<open>
  \<^verbatim>\<open>seq_cp\<close> to another stream: the target stream becomes a copy of the source sequence's cells, with
  positions and pending shifts.
\<close>

definition cross_cell :: "nat \<Rightarrow> nat \<Rightarrow> acell \<Rightarrow> acell" where
  "cross_cell src dst x = (if src \<in> a_seq x then ACell (a_pos x) {dst} (a_shift x) else no_cell)"

definition cross_pre :: "nat \<Rightarrow> acell \<Rightarrow> bool" where
  "cross_pre src x \<longleftrightarrow> (src \<in> a_seq x \<longrightarrow> 0 \<le> a_pos x - a_shift x \<and> a_pos x - a_shift x \<le> INT32_MAX)"

lemma acell_full_cross: "acell_full x \<Longrightarrow> dst < LLAMA_MAX_SEQ \<Longrightarrow> acell_full (cross_cell src dst x)"
  using acell_full_cases[of x] by (auto simp: cross_cell_def acell_full_def acell_ok_def)

lemma stream_cp_step:
  assumes i: "i < length xs" "i < length ys" "ys ! i = no_cell" and ok: "acells_full xs" "acells_ok ys"
    and pre: "cross_pre src (xs ! i)" and q: "src < LLAMA_MAX_SEQ" "dst < LLAMA_MAX_SEQ"
  shows "\<exists>hs'. stream_cp_body src dst (cells_of hs0 xs) i (cells_of hs ys) = Some (cells_of hs' (ys[i := cross_cell src dst (xs ! i)]))"
proof (cases "src \<in> a_seq (xs ! i)")
  case False
  then have "stream_cp_body src dst (cells_of hs0 xs) i (cells_of hs ys) = Some (cells_of hs ys)"
    using i q by (simp add: stream_cp_body_def cells_seq_has_of)
  moreover have "ys[i := cross_cell src dst (xs ! i)] = ys"
    using False i by (simp add: cross_cell_def list_update_same_conv)
  ultimately show ?thesis by metis
next
  case True
  let ?x = "xs ! i"
  define p where "p = a_pos ?x - a_shift ?x"
  have full: "acell_full ?x" using ok i by simp
  then have x: "0 \<le> a_pos ?x" "a_pos ?x \<le> INT32_MAX" "i32_ok (a_shift ?x)"
    using True acell_full_cases[OF full] by (auto simp: acell_full_def acell_ok_def)
  have p: "0 \<le> p" "p \<le> INT32_MAX" "p \<noteq> -1" using pre True by (auto simp: cross_pre_def p_def)
  have p32: "i32_ok p" using p by (simp add: i32_ok_def)
  define y1 where "y1 = ACell p {} 0"
  define y2 where "y2 = ACell p {dst} 0"
  have "acell_ok y1" "acell_ok y2" using p q by (simp_all add: y1_def y2_def acell_ok_def i32_ok_def)
  then have ok1: "acells_ok (ys[i := y1])" "acells_ok (ys[i := y2])"
    using set_list_update_subset_P[OF ok(2)] by auto
  have 1: "cells_pos_set i p (cells_of hs ys) = Some (cells_of hs (ys[i := y1]))"
    using cells_pos_set_of[OF i(2,3) p(3)] by (simp add: y1_def)
  have 2: "cells_seq_add i dst (cells_of hs (ys[i := y1])) = Some (cells_of hs (ys[i := y2]))"
    using cells_seq_add_of[of i "ys[i := y1]" dst hs] ok1 i p q by (simp add: y1_def y2_def acell_add_def)
  have rd: "cells_pos_get i (cells_of hs0 xs) = Some (a_pos ?x)" "cells_get_shift i (cells_of hs0 xs) = Some (a_shift ?x)"
    "cells_seq_has i src (cells_of hs0 xs) = Some True"
    using i x q True by (simp_all add: cells_pos_get_of cells_get_shift_of cells_seq_has_of)
  show ?thesis
  proof (cases "a_shift ?x = 0")
    case s0: True
    have "p = a_pos ?x" using s0 by (simp add: p_def)
    then have "cross_cell src dst ?x = y2" using True s0 by (simp add: cross_cell_def y2_def)
    then show ?thesis using 1 2 rd s0 p32 by (auto simp: stream_cp_body_def p_def)
  next
    case False
    have "a_pos y2 + a_shift ?x = a_pos ?x" by (simp add: y2_def p_def)
    moreover have "acell_move (a_shift ?x) y2 = cross_cell src dst ?x"
      using x True by (simp add: y2_def p_def acell_move_def cross_cell_def)
    moreover have "i32_ok (a_pos ?x)" using x by (simp add: i32_ok_def)
    ultimately have "cells_pos_add i (a_shift ?x) (cells_of hs (ys[i := y2])) =
        Some (a_pos ?x < 0, cells_of True (ys[i := cross_cell src dst ?x]))"
      using cells_pos_add_of[of i "ys[i := y2]" "a_shift ?x" hs] ok1(2) i x p by (simp add: y2_def)
    then show ?thesis using 1 2 rd p32 p False by (auto simp: stream_cp_body_def p_def)
  qed
qed

lemma stream_cp_loop:
  assumes ok: "acells_full xs" and pre: "\<forall>x \<in> set xs. cross_pre src x" and q: "src < LLAMA_MAX_SEQ" "dst < LLAMA_MAX_SEQ"
  shows "\<exists>hs'. for_each (stream_cp_body src dst (cells_of hs0 xs)) [0..<length xs] (cells_of hs (replicate (length xs) no_cell)) =
    Some (cells_of hs' (map (cross_cell src dst) xs))"
proof -
  let ?ys = "\<lambda>m. map (cross_cell src dst) (take m xs) @ replicate (length xs - m) no_cell"
  let ?I = "\<lambda>m u. \<exists>hs'. u = cells_of hs' (?ys m)"
  have "\<exists>u. for_each (stream_cp_body src dst (cells_of hs0 xs)) [0..<length xs] (cells_of hs (replicate (length xs) no_cell)) = Some u \<and>
      ?I (length xs) u"
  proof (rule for_each_upto_total[where I = ?I])
    show "?I 0 (cells_of hs (replicate (length xs) no_cell))" by auto
  next
    fix i u assume i: "i < length xs" and "?I i u"
    then obtain h where u: "u = cells_of h (?ys i)" by blast
    have "acells_full (?ys i)"
      using ok acell_full_cross[OF _ q(2)] by (auto dest: in_set_takeD)
    then have ok': "acells_ok (?ys i)" by (rule acells_full_ok)
    have nth: "?ys i ! i = no_cell" using i by (simp add: nth_append)
    have upd: "(?ys i)[i := cross_cell src dst (xs ! i)] = ?ys (Suc i)"
      using i by (simp add: list_update_append take_Suc_conv_app_nth replicate_diff_Suc)
    have "\<exists>h'. stream_cp_body src dst (cells_of hs0 xs) i (cells_of h (?ys i)) = Some (cells_of h' ((?ys i)[i := cross_cell src dst (xs ! i)]))"
      by (rule stream_cp_step[OF i _ nth ok ok' _ q]) (use i pre in auto)
    then show "\<exists>v. stream_cp_body src dst (cells_of hs0 xs) i u = Some v \<and> ?I (Suc i) v"
      unfolding u upd by blast
  qed
  then show ?thesis by auto
qed

lemma kv_get_size_ok: "kv_wf kv \<Longrightarrow> kv_get_size kv = Some (kv_capacity kv)"
  by (auto simp: kv_wf_def kv_get_size_def kv_capacity_def)

lemma kv_wf_cong:
  assumes "kv_wf kv" "kv_n_stream kv' = kv_n_stream kv" "kv_v_cells kv' = kv_v_cells kv" "kv_v_heads kv' = kv_v_heads kv"
    "kv_seq_to_stream kv' = kv_seq_to_stream kv"
  shows "kv_wf kv'" "kv_capacity kv' = kv_capacity kv"
  using assms by (auto simp: kv_wf_def stream_wf_def kv_capacity_def)

lemma kv_seq_cp_cross_ok:
  assumes wf: "kv_wf kv" and q: "has_seq kv src" "has_seq kv dst" and many: "kv_n_stream kv \<noteq> 1" and ne: "src \<noteq> dst"
    and size: "int (kv_capacity kv) \<le> INT32_MAX"
    and p: "p0 \<le> 0 \<or> int (kv_capacity kv) \<le> p0 + 1 \<and> p0 < INT32_MAX" "p1 \<le> 0 \<or> int (kv_capacity kv) \<le> p1 + 1 \<and> p1 < INT32_MAX"
    and pre: "\<forall>x \<in> set (cells_abs (kv_v_cells kv ! src)). cross_pre src x"
  shows "\<exists>kv'. kv_seq_cp (int src) (int dst) p0 p1 kv = Some kv' \<and> kv_wf kv' \<and> kv_capacity kv' = kv_capacity kv \<and>
    kv_n_stream kv' = kv_n_stream kv \<and>
    cells_abs (kv_v_cells kv' ! dst) = map (cross_cell src dst) (cells_abs (kv_v_cells kv ! src)) \<and>
    kv_v_heads kv' = (kv_v_heads kv)[dst := kv_v_heads kv ! src] \<and>
    (\<forall>t. t \<noteq> dst \<longrightarrow> kv_v_cells kv' ! t = kv_v_cells kv ! t) \<and>
    kv_sc_ssrc kv' = kv_sc_ssrc kv @ [src] \<and> kv_sc_sdst kv' = kv_sc_sdst kv @ [dst]"
proof -
  have str: "stream_of kv src = src" "stream_of kv dst = dst" using many by (simp_all add: stream_of_def)
  note st = kv_stream_ok[OF wf q(1), unfolded str] kv_stream_ok[OF wf q(2), unfolded str]
  obtain hs0 xs where c: "kv_v_cells kv ! src = cells_of hs0 xs" "acells_full xs" "length xs = kv_capacity kv"
      "kv_v_heads kv ! src \<le> kv_capacity kv"
    using kv_wfD[OF wf st(4)] by metis
  obtain hs1 ys where d: "kv_v_cells kv ! dst = cells_of hs1 ys" "length ys = kv_capacity kv"
    using kv_wfD[OF wf st(8)] by metis
  have pre': "\<forall>x \<in> set xs. cross_pre src x" using pre c(1) by simp
  let ?zs = "map (cross_cell src dst) xs"
  obtain hs' where l: "for_each (stream_cp_body src dst (cells_of hs0 xs)) [0..<length xs] (cells_of False (replicate (length xs) no_cell)) =
      Some (cells_of hs' ?zs)"
    using stream_cp_loop[OF c(2) pre' has_seq_max[OF q(1)] has_seq_max[OF q(2)]] by blast
  let ?kv1 = "kv_set_stream dst (cells_of hs' ?zs) (kv_v_heads kv ! src) kv"
  let ?kv = "?kv1\<lparr>kv_sc_ssrc := kv_sc_ssrc kv @ [src], kv_sc_sdst := kv_sc_sdst kv @ [dst]\<rparr>"
  have fz: "acells_full ?zs" using c(2) acell_full_cross[OF _ has_seq_max[OF q(2)]] by auto
  have own: "\<forall>z \<in> set ?zs. a_seq z \<subseteq> {dst}" by (auto simp: cross_cell_def)
  have len: "length ?zs = kv_capacity kv" using c(3) by simp
  have wf1: "kv_wf ?kv1" "kv_capacity ?kv1 = kv_capacity kv"
    using kv_wf_set_stream[OF wf st(8) fz len c(4)] own by blast+
  have wf': "kv_wf ?kv" "kv_capacity ?kv = kv_capacity kv"
    using kv_wf_cong[OF wf1(1), of ?kv] wf1(2) by simp_all
  have sz: "to_i32 (int (kv_capacity kv)) = int (kv_capacity kv)" using size by (intro to_i32_id) simp_all
  have "kv_seq_cp (int src) (int dst) p0 p1 kv = Some ?kv"
    using st ne kv_wf_lengths[OF wf st(4)] kv_wf_lengths[OF wf st(8)] c(1,3) d l p size
    by (auto simp: kv_seq_cp_def kv_get_size_ok[OF wf] sz cells_reset_eq i32_ok_def)
  then show ?thesis using wf' c(1) st(8) kv_wf_lengths[OF wf st(8)] by simp
qed

end
