(* ===== verification/KV_View.thy ===== *)
theory KV_View
  imports KV_Seq
begin

text \<open>
  The unified cache seen from outside: the positions it holds for each sequence. The cache interprets the
  locale \<open>seq_memory\<close> of \<^verbatim>\<open>Memory\<close>, and every sequence operation is an operation on this view.
\<close>

subsection \<open>The cache as a memory of positions\<close>

definition kv_view :: "kv_cache \<Rightarrow> nat \<Rightarrow> int set" where
  "kv_view kv q = (if has_seq kv q then seq_positions q (cells_abs (kv_v_cells kv ! stream_of kv q)) else {})"

lemma has_seq_cong [simp]: "has_seq (kv_set_stream s c h kv) = has_seq kv" "stream_of (kv_set_stream s c h kv) = stream_of kv"
  by (simp_all add: has_seq_def stream_of_def fun_eq_iff)

lemma kv_maps_seqs:
  assumes "kv_maps kv s f kv'"
  shows "has_seq kv' = has_seq kv" "stream_of kv' = stream_of kv" "kv_n_stream kv' = kv_n_stream kv"
  using assms by (auto simp: kv_maps_def)

text \<open>What a map over the cells of one stream does to the view.\<close>

lemma kv_maps_view:
  assumes "kv_maps kv s f kv'"
  shows "kv_view kv' q = (if has_seq kv q \<and> stream_of kv q = s
    then seq_positions q (map f (cells_abs (kv_v_cells kv ! s))) else kv_view kv q)"
  using kv_maps_seqs[OF assms] kv_maps_other(1)[OF assms, of "stream_of kv q"] assms
  by (auto simp: kv_view_def kv_maps_def)

lemma stream_of_inj: "kv_n_stream kv \<noteq> 1 \<Longrightarrow> stream_of kv q = stream_of kv r \<longleftrightarrow> q = r"
  by (simp add: stream_of_def)

lemma seq_positions_alt: "seq_positions q xs = {p. \<exists>x \<in> set xs. q \<in> a_seq x \<and> p = a_pos x}"
  by (auto simp: seq_positions_def)

lemma seq_positions_rm:
  "seq_positions r (map (rm_cell q p0 p1) xs) =
   (if r = q then seq_positions q xs - {norm_p0 p0..<norm_p1 p1} else seq_positions r xs)"
proof -
  have x: "r \<in> a_seq (rm_cell q p0 p1 x) \<longleftrightarrow> r \<in> a_seq x \<and> \<not> (r = q \<and> in_range p0 p1 x)" for x
    by (auto simp: rm_cell_def acell_rm_def)
  have p: "a_pos (rm_cell q p0 p1 x) = a_pos x" if "r \<in> a_seq (rm_cell q p0 p1 x)" for x
    using that by (auto simp: rm_cell_def acell_rm_def)
  have "seq_positions r (map (rm_cell q p0 p1) xs) = {a_pos x | x. x \<in> set xs \<and> r \<in> a_seq x \<and> \<not> (r = q \<and> in_range p0 p1 x)}"
    unfolding seq_positions_alt using x p by (auto simp: image_iff)
  also have "\<dots> = (if r = q then seq_positions q xs - {norm_p0 p0..<norm_p1 p1} else seq_positions r xs)"
    by (auto simp: seq_positions_def in_range_def)
  finally show ?thesis .
qed

lemma kv_view_range:
  assumes "kv_wf kv"
  shows "finite (kv_view kv q) \<and> kv_view kv q \<subseteq> {0..INT32_MAX}"
proof (cases "has_seq kv q")
  case True
  obtain hs xs where c: "kv_v_cells kv ! stream_of kv q = cells_of hs xs" "acells_full xs"
    using kv_wfD[OF assms kv_stream_ok(4)[OF assms True]] by metis
  have "0 \<le> a_pos x \<and> a_pos x \<le> INT32_MAX" if "x \<in> set xs" "q \<in> a_seq x" for x
    using c(2) that by (auto simp: acell_full_def acell_ok_def)
  then show ?thesis using True c by (auto simp: kv_view_def seq_positions_def)
qed (simp add: kv_view_def)

lemma kv_seq_rm_view:
  assumes "kv_wf kv" "has_seq kv q"
  shows "\<exists>kv'. kv_seq_rm (int q) p0 p1 kv = Some (True, kv') \<and> kv_wf kv' \<and> has_seq kv' = has_seq kv \<and>
    kv_view kv' = (kv_view kv)(q := kv_view kv q - {norm_p0 p0..<norm_p1 p1})"
proof -
  obtain kv' where k: "kv_seq_rm (int q) p0 p1 kv = Some (True, kv')" "kv_wf kv'"
      "kv_maps kv (stream_of kv q) (rm_cell q p0 p1) kv'"
    using kv_seq_rm_ok[OF assms] by blast
  have "kv_view kv' r = ((kv_view kv)(q := kv_view kv q - {norm_p0 p0..<norm_p1 p1})) r" for r
    using kv_maps_view[OF k(3), of r] assms(2) by (auto simp: seq_positions_rm kv_view_def)
  then show ?thesis using k kv_maps_seqs[OF k(3)] by blast
qed

interpretation kv_mem: seq_memory kv_wf has_seq kv_view kv_seq_rm kv_seq_pos_min kv_seq_pos_max
proof
  fix m :: kv_cache and q :: nat and p0 p1 :: int
  assume wf: "kv_wf m"
  show "finite (kv_view m q) \<and> kv_view m q \<subseteq> {0..INT32_MAX}" by (rule kv_view_range[OF wf])
  assume q: "has_seq m q"
  show "\<exists>m'. kv_seq_rm (int q) p0 p1 m = Some (True, m') \<and> kv_wf m' \<and> has_seq m' = has_seq m \<and>
      kv_view m' = (kv_view m)(q := kv_view m q - {norm_p0 p0..<norm_p1 p1})"
    by (rule kv_seq_rm_view[OF wf q])
  obtain hs xs where c: "kv_v_cells m ! stream_of m q = cells_of hs xs"
    using kv_wfD[OF wf kv_stream_ok(4)[OF wf q]] by metis
  have at: "vec_at (kv_v_cells m) (stream_of m q) = Some (cells_of hs xs)"
    using kv_wf_lengths[OF wf kv_stream_ok(4)[OF wf q]] c by simp
  show "kv_seq_pos_min (int q) m = Some (if kv_view m q = {} then -1 else Min (kv_view m q))"
    using kv_stream_ok(1)[OF wf q] at c q has_seq_max[OF q]
    by (simp add: kv_seq_pos_min_def kv_view_def cells_seq_pos_min_of)
  show "kv_seq_pos_max (int q) m = Some (if kv_view m q = {} then -1 else Max (kv_view m q))"
    using kv_stream_ok(1)[OF wf q] at c q has_seq_max[OF q]
    by (simp add: kv_seq_pos_max_def kv_view_def cells_seq_pos_max_of)
qed

lemma seq_positions_replicate [simp]: "seq_positions q (replicate n no_cell) = {}"
  by (auto simp: seq_positions_def)

text \<open>An empty cache: what the constructor makes and \<^verbatim>\<open>clear\<close> restores.\<close>

definition kv_blank :: "kv_cache \<Rightarrow> bool" where
  "kv_blank kv \<longleftrightarrow> (\<exists>n. kv_v_cells kv = replicate (kv_n_stream kv) (cells_of False (replicate n no_cell)) \<and>
     kv_v_heads kv = replicate (kv_n_stream kv) 0)"

lemma kv_blank_wf:
  assumes "kv_blank kv" "0 < kv_n_stream kv" "kv_n_stream kv \<le> LLAMA_MAX_SEQ"
    "kv_seq_to_stream kv = (if kv_n_stream kv = 1 then replicate LLAMA_MAX_SEQ 0 else [0..<kv_n_stream kv])"
  shows "kv_wf kv \<and> kv_view kv = (\<lambda>_. {})"
proof -
  obtain n where n: "kv_v_cells kv = replicate (kv_n_stream kv) (cells_of False (replicate n no_cell))"
      "kv_v_heads kv = replicate (kv_n_stream kv) 0"
    using assms(1) by (auto simp: kv_blank_def)
  have wf: "kv_wf kv"
    using assms n by (auto simp: kv_wf_def stream_wf_def kv_capacity_def intro!: exI[of _ False] exI[of _ "replicate n no_cell"])
  have "kv_view kv q = {}" for q
    using n kv_stream_ok(4)[OF wf, of q] by (simp add: kv_view_def)
  then show ?thesis using wf by auto
qed

lemma kv_clear_wf:
  assumes "kv_wf kv"
  shows "kv_wf (kv_clear kv) \<and> kv_view (kv_clear kv) = (\<lambda>_. {})"
proof (rule kv_blank_wf)
  have "map cells_reset (kv_v_cells kv) = replicate (kv_n_stream kv) (cells_of False (replicate (kv_capacity kv) no_cell))"
  proof (rule nth_equalityI)
    fix i assume "i < length (map cells_reset (kv_v_cells kv))"
    then have i: "i < kv_n_stream kv" using assms by (simp add: kv_wf_def)
    obtain hs xs where "kv_v_cells kv ! i = cells_of hs xs" "length xs = kv_capacity kv" "i < length (kv_v_cells kv)"
      using kv_wfD[OF assms i] by metis
    then show "map cells_reset (kv_v_cells kv) ! i = replicate (kv_n_stream kv) (cells_of False (replicate (kv_capacity kv) no_cell)) ! i"
      using i by (simp add: cells_reset_eq)
  qed (use assms in \<open>simp add: kv_wf_def\<close>)
  then show "kv_blank (kv_clear kv)"
    using assms by (auto simp: kv_blank_def kv_clear_def kv_wf_def map_replicate_const)
qed (use assms in \<open>auto simp: kv_clear_def kv_wf_def\<close>)

lemma seq_positions_keep:
  "seq_positions r (map (acell_keep q) xs) = (if r = q then seq_positions q xs else {})"
proof -
  have "r \<in> a_seq (acell_keep q x) \<longleftrightarrow> r = q \<and> q \<in> a_seq x" "q \<in> a_seq x \<Longrightarrow> a_pos (acell_keep q x) = a_pos x" for x
    by (auto simp: acell_keep_def)
  then show ?thesis by (auto simp: seq_positions_alt)
qed

lemma seq_positions_cp:
  "seq_positions r (map (cp_cell src dst p0 p1) xs) = (if r = dst
     then seq_positions dst xs \<union> (seq_positions src xs \<inter> {norm_p0 p0..<norm_p1 p1}) else seq_positions r xs)"
proof -
  have x: "r \<in> a_seq (cp_cell src dst p0 p1 x) \<longleftrightarrow> r \<in> a_seq x \<or> (r = dst \<and> src \<in> a_seq x \<and> in_range p0 p1 x)"
    "a_pos (cp_cell src dst p0 p1 x) = a_pos x" for x
    by (auto simp: cp_cell_def acell_add_def)
  have "seq_positions r (map (cp_cell src dst p0 p1) xs) =
      {p. \<exists>x \<in> set xs. (r \<in> a_seq x \<or> (r = dst \<and> src \<in> a_seq x \<and> in_range p0 p1 x)) \<and> p = a_pos x}"
    unfolding seq_positions_alt by (auto simp: x)
  also have "\<dots> = (if r = dst then seq_positions dst xs \<union> (seq_positions src xs \<inter> {norm_p0 p0..<norm_p1 p1}) else seq_positions r xs)"
    by (auto simp: seq_positions_alt in_range_def)
  finally show ?thesis .
qed

text \<open>The loop of \<^verbatim>\<open>seq_cp\<close> stops at the first cell in the range that both sequences have.\<close>

lemma cp_sweep_aborts:
  assumes full: "acells_full xs" and q: "src < LLAMA_MAX_SEQ" "dst < LLAMA_MAX_SEQ"
    and ex: "\<exists>x \<in> set xs. in_range p0 p1 x \<and> {src, dst} \<subseteq> a_seq x"
  shows "kv_sweep (seq_cp_body src dst (norm_p0 p0) (norm_p1 p1)) (cells_of hs xs) = None"
proof -
  let ?P = "\<lambda>x. in_range p0 p1 x \<and> {src, dst} \<subseteq> a_seq x"
  let ?body = "seq_cp_body src dst (norm_p0 p0) (norm_p1 p1)"
  define k where "k = first_index ?P xs"
  have k: "k < length xs" "?P (xs ! k)" using ex first_index_less_iff[of ?P xs] first_index_nth[of ?P xs] by (auto simp: k_def)
  have pre: "cp_pre src dst p0 p1 (xs ! i)" if "i < k" for i
    using first_index_least[of i ?P xs] that q by (auto simp: cp_pre_def k_def)
  let ?ys = "map (cp_cell src dst p0 p1) (take k xs) @ drop k xs"
  let ?I = "\<lambda>m u. u = (cells_of hs (map (cp_cell src dst p0 p1) (take m xs) @ drop m xs), length xs)"
  have full': "acells_full (map (cp_cell src dst p0 p1) (take m xs) @ drop m xs)" if "m \<le> k" for m
  proof -
    have "acell_full (cp_cell src dst p0 p1 (xs ! i))" if "i < m" for i
      using cp_sweep.full[of "xs ! i" src dst p0 p1] pre[of i] full that \<open>m \<le> k\<close> k(1) by simp
    then show ?thesis using full that k(1) by (auto simp: in_set_conv_nth dest: in_set_dropD)
  qed
  have "\<exists>u. for_each ?body [0..<k] (cells_of hs xs, length xs) = Some u \<and> ?I k u"
  proof (rule for_each_upto_total[where I = ?I])
    fix i u assume i: "i < k" and u: "?I i u"
    let ?zs = "map (cp_cell src dst p0 p1) (take i xs) @ drop i xs"
    have "acells_ok ?zs" by (rule acells_full_ok[OF full']) (use i in simp)
    moreover have "?zs ! i = xs ! i" using i k(1) by (simp add: nth_append)
    moreover have "?zs[i := cp_cell src dst p0 p1 (xs ! i)] = map (cp_cell src dst p0 p1) (take (Suc i) xs) @ drop (Suc i) xs"
      using i k(1) by (simp add: list_update_append take_Suc_conv_app_nth flip: Cons_nth_drop_Suc)
    ultimately show "\<exists>v. ?body i u = Some v \<and> ?I (Suc i) v"
      using cp_sweep.step[of i ?zs src dst p0 p1 hs "length xs"] u pre[OF i] full i k(1) by simp
  qed simp
  moreover have "?body k (cells_of hs ?ys, length xs) = None"
  proof -
    have nth: "?ys ! k = xs ! k" using k(1) by (simp add: nth_append)
    have "cells_seq_add k dst (cells_of hs ?ys) = None"
      using k q by (auto simp: cells_seq_add_def bind_eq_None_conv cpp_assert_def nth_append)
    then show ?thesis
      using nth k q by (simp add: seq_cp_body_def cells_pos_in_of cells_seq_has_of in_range_def)
  qed
  moreover have "[0..<length xs] = [0..<k] @ k # [Suc k..<length xs]"
    using k(1) by (metis upt_add_eq_append upt_conv_Cons less_imp_le_nat le_add_diff_inverse zero_le)
  ultimately show ?thesis by (auto simp: kv_sweep_def for_each_append)
qed

lemma seq_positions_cross:
  "seq_positions r (map (cross_cell src dst) xs) = (if r = dst then seq_positions src xs else {})"
proof -
  have "r \<in> a_seq (cross_cell src dst x) \<longleftrightarrow> r = dst \<and> src \<in> a_seq x" "src \<in> a_seq x \<Longrightarrow> a_pos (cross_cell src dst x) = a_pos x" for x
    by (auto simp: cross_cell_def)
  then show ?thesis by (auto simp: seq_positions_alt)
qed

text \<open>Moving the range \<open>[p0, p1)\<close> of a set of positions by \<open>d\<close>; negative positions drop out.\<close>

definition shift_range :: "int \<Rightarrow> int \<Rightarrow> int \<Rightarrow> int set \<Rightarrow> int set" where
  "shift_range p0 p1 d P = (P - {norm_p0 p0..<norm_p1 p1}) \<union> {p + d | p. p \<in> P \<and> p \<in> {norm_p0 p0..<norm_p1 p1} \<and> 0 \<le> p + d}"

lemma seq_positions_add:
  "seq_positions q (map (add_cell q p0 p1 d) xs) = shift_range p0 p1 d (seq_positions q xs)"
proof -
  have "q \<in> a_seq (add_cell q p0 p1 d x) \<longleftrightarrow> q \<in> a_seq x \<and> (in_range p0 p1 x \<longrightarrow> 0 \<le> a_pos x + d)"
    "q \<in> a_seq (add_cell q p0 p1 d x) \<Longrightarrow> a_pos (add_cell q p0 p1 d x) = (if in_range p0 p1 x then a_pos x + d else a_pos x)" for x
    by (auto simp: add_cell_def acell_move_def split: if_splits)
  then have "seq_positions q (map (add_cell q p0 p1 d) xs) =
      {p. \<exists>x \<in> set xs. q \<in> a_seq x \<and> (in_range p0 p1 x \<longrightarrow> 0 \<le> a_pos x + d) \<and> p = (if in_range p0 p1 x then a_pos x + d else a_pos x)}"
    unfolding seq_positions_alt by (auto 0 3)
  also have "\<dots> = shift_range p0 p1 d (seq_positions q xs)"
    by (auto simp: seq_positions_alt shift_range_def in_range_def)
  finally show ?thesis .
qed

lemma kv_seq_keep_view:
  assumes "kv_wf kv" "has_seq kv q"
  shows "\<exists>kv'. kv_seq_keep (int q) kv = Some kv' \<and> kv_wf kv' \<and>
    kv_view kv' = (if kv_n_stream kv = 1 then (\<lambda>_. {})(q := kv_view kv q) else kv_view kv)"
proof -
  obtain kv' where k: "kv_seq_keep (int q) kv = Some kv'" "kv_wf kv'" "kv_maps kv (stream_of kv q) (acell_keep q) kv'"
    using kv_seq_keep_ok[OF assms] by blast
  have "kv_view kv' r = (if kv_n_stream kv = 1 then (\<lambda>_. {})(q := kv_view kv q) else kv_view kv) r" for r
    using kv_maps_view[OF k(3), of r] assms(2) stream_of_inj[of kv r q]
    by (auto simp: seq_positions_keep kv_view_def stream_of_def)
  then show ?thesis using k by blast
qed

lemma kv_seq_add_view:
  assumes "kv_wf kv" "has_seq kv q"
    and "\<forall>x \<in> set (cells_abs (kv_v_cells kv ! stream_of kv q)). add_pre q p0 p1 d x"
  shows "\<exists>kv'. kv_seq_add (int q) p0 p1 d kv = Some kv' \<and> kv_wf kv' \<and> kv_view kv' q = shift_range p0 p1 d (kv_view kv q) \<and>
    (\<forall>r. r \<noteq> q \<and> (\<forall>x \<in> set (cells_abs (kv_v_cells kv ! stream_of kv q)). in_range p0 p1 x \<longrightarrow> \<not> {q, r} \<subseteq> a_seq x) \<longrightarrow>
      kv_view kv' r = kv_view kv r)"
proof -
  let ?xs = "cells_abs (kv_v_cells kv ! stream_of kv q)"
  obtain kv' where k: "kv_seq_add (int q) p0 p1 d kv = Some kv'" "kv_wf kv'"
      "kv_maps kv (stream_of kv q) (add_cell q p0 p1 d) kv'"
    using kv_seq_add_ok[OF assms] by blast
  have "kv_view kv' q = shift_range p0 p1 d (kv_view kv q)"
    using kv_maps_view[OF k(3), of q] assms(2) by (simp add: seq_positions_add kv_view_def)
  moreover have "kv_view kv' r = kv_view kv r"
    if r: "r \<noteq> q" "\<forall>x \<in> set ?xs. in_range p0 p1 x \<longrightarrow> \<not> {q, r} \<subseteq> a_seq x" for r
  proof -
    have "(r \<in> a_seq (add_cell q p0 p1 d x) \<longleftrightarrow> r \<in> a_seq x) \<and> (r \<in> a_seq x \<longrightarrow> a_pos (add_cell q p0 p1 d x) = a_pos x)"
      if "x \<in> set ?xs" for x
      using r that by (auto simp: add_cell_def acell_move_def)
    then have "seq_positions r (map (add_cell q p0 p1 d) ?xs) = seq_positions r ?xs"
      by (auto simp: seq_positions_alt)
    then show ?thesis using kv_maps_view[OF k(3), of r] by (auto simp: kv_view_def)
  qed
  ultimately show ?thesis using k by blast
qed

lemma kv_seq_cp_view:
  assumes wf: "kv_wf kv" "has_seq kv src" "has_seq kv dst" "src \<noteq> dst"
    and one: "kv_n_stream kv = 1 \<Longrightarrow> \<forall>x \<in> set (cells_abs (kv_v_cells kv ! 0)). in_range p0 p1 x \<longrightarrow> \<not> {src, dst} \<subseteq> a_seq x"
    and many: "kv_n_stream kv \<noteq> 1 \<Longrightarrow> p0 \<le> 0 \<and> p1 \<le> 0 \<and> int (kv_capacity kv) \<le> INT32_MAX \<and>
      (\<forall>x \<in> set (cells_abs (kv_v_cells kv ! src)). cross_pre src x)"
  shows "\<exists>kv'. kv_seq_cp (int src) (int dst) p0 p1 kv = Some kv' \<and> kv_wf kv' \<and>
    kv_view kv' = (kv_view kv)(dst := if kv_n_stream kv = 1
      then kv_view kv dst \<union> (kv_view kv src \<inter> {norm_p0 p0..<norm_p1 p1}) else kv_view kv src) \<and>
    (kv_n_stream kv \<noteq> 1 \<longrightarrow> kv_sc_ssrc kv' = kv_sc_ssrc kv @ [src] \<and> kv_sc_sdst kv' = kv_sc_sdst kv @ [dst])"
proof (cases "kv_n_stream kv = 1")
  case True
  have pre: "\<forall>x \<in> set (cells_abs (kv_v_cells kv ! 0)). cp_pre src dst p0 p1 x"
    using one[OF True] has_seq_max[OF wf(2)] has_seq_max[OF wf(3)] by (auto simp: cp_pre_def)
  obtain kv' where k: "kv_seq_cp (int src) (int dst) p0 p1 kv = Some kv'" "kv_wf kv'" "kv_maps kv 0 (cp_cell src dst p0 p1) kv'"
    using kv_seq_cp_shared_ok[OF wf(1-3) True wf(4) pre] by blast
  have "kv_view kv' r = ((kv_view kv)(dst := kv_view kv dst \<union> (kv_view kv src \<inter> {norm_p0 p0..<norm_p1 p1}))) r" for r
    using kv_maps_view[OF k(3), of r] wf(2,3) True by (auto simp: seq_positions_cp kv_view_def stream_of_def)
  then have "kv_view kv' = (kv_view kv)(dst := kv_view kv dst \<union> (kv_view kv src \<inter> {norm_p0 p0..<norm_p1 p1}))" by blast
  then show ?thesis using k True by (intro exI[of _ kv']) simp
next
  case False
  have p: "p0 \<le> 0 \<or> int (kv_capacity kv) \<le> p0 + 1 \<and> p0 < INT32_MAX" "p1 \<le> 0 \<or> int (kv_capacity kv) \<le> p1 + 1 \<and> p1 < INT32_MAX"
    "int (kv_capacity kv) \<le> INT32_MAX" "\<forall>x \<in> set (cells_abs (kv_v_cells kv ! src)). cross_pre src x"
    using many[OF False] by blast+
  obtain kv' where k: "kv_seq_cp (int src) (int dst) p0 p1 kv = Some kv'" "kv_wf kv'" "kv_n_stream kv' = kv_n_stream kv"
      "cells_abs (kv_v_cells kv' ! dst) = map (cross_cell src dst) (cells_abs (kv_v_cells kv ! src))"
      "\<forall>t. t \<noteq> dst \<longrightarrow> kv_v_cells kv' ! t = kv_v_cells kv ! t"
      "kv_sc_ssrc kv' = kv_sc_ssrc kv @ [src]" "kv_sc_sdst kv' = kv_sc_sdst kv @ [dst]"
    using kv_seq_cp_cross_ok[OF wf(1-3) False wf(4) p(3,1,2,4)] by metis
  have "kv_view kv' r = ((kv_view kv)(dst := kv_view kv src)) r" for r
    using k(3-5) wf(2,3) False by (auto simp: kv_view_def has_seq_def stream_of_def seq_positions_cross)
  then have "kv_view kv' = (kv_view kv)(dst := kv_view kv src)" by blast
  then show ?thesis using k(1,2,6,7) False by (intro exI[of _ kv']) simp
qed

lemma kv_seq_cp_shared_aborts:
  assumes wf: "kv_wf kv" "has_seq kv src" "has_seq kv dst" "src \<noteq> dst" and one: "kv_n_stream kv = 1"
    and shared: "\<exists>x \<in> set (cells_abs (kv_v_cells kv ! 0)). in_range p0 p1 x \<and> {src, dst} \<subseteq> a_seq x"
  shows "kv_seq_cp (int src) (int dst) p0 p1 kv = None"
proof -
  obtain hs xs where c: "kv_v_cells kv ! 0 = cells_of hs xs" "acells_full xs" "0 < length (kv_v_cells kv)"
    using kv_wfD[OF wf(1), of 0] one by (metis zero_less_one)
  then have "\<exists>x \<in> set xs. in_range p0 p1 x \<and> {src, dst} \<subseteq> a_seq x" using shared by simp
  then have "kv_sweep (seq_cp_body src dst (norm_p0 p0) (norm_p1 p1)) (cells_of hs xs) = None"
    using cp_sweep_aborts[OF c(2) has_seq_max[OF wf(2)] has_seq_max[OF wf(3)]] by blast
  then show ?thesis
    using kv_stream_ok(1)[OF wf(1,2)] kv_stream_ok(1)[OF wf(1,3)] one c wf(4) by (simp add: kv_seq_cp_def stream_of_def)
qed

text \<open>Removing a range from every sequence, dividing the positions of a sequence, and what no operation on sequences changes.\<close>

lemma kv_seq_rm_any_view:
  assumes wf: "kv_wf kv"
  shows "\<exists>kv'. kv_seq_rm (-1) p0 p1 kv = Some (True, kv') \<and> kv_wf kv' \<and> kv_view kv' = (\<lambda>q. kv_view kv q - {norm_p0 p0..<norm_p1 p1})"
proof -
  obtain kv' where k: "kv_seq_rm (-1) p0 p1 kv = Some (True, kv')" "kv_wf kv'" "kv_n_stream kv' = kv_n_stream kv"
      "\<forall>t < kv_n_stream kv. cells_abs (kv_v_cells kv' ! t) = map (rm_any_cell p0 p1) (cells_abs (kv_v_cells kv ! t))"
    using kv_seq_rm_any_ok[OF wf] by blast
  have pos: "seq_positions q (map (rm_any_cell p0 p1) xs) = seq_positions q xs - {norm_p0 p0..<norm_p1 p1}" for q xs
  proof -
    have "q \<in> a_seq (rm_any_cell p0 p1 x) \<longleftrightarrow> q \<in> a_seq x \<and> \<not> in_range p0 p1 x" for x by (simp add: rm_any_cell_def)
    moreover have "q \<in> a_seq (rm_any_cell p0 p1 x) \<Longrightarrow> a_pos (rm_any_cell p0 p1 x) = a_pos x" for x by (auto simp: rm_any_cell_def)
    ultimately show ?thesis unfolding seq_positions_alt by (auto simp: in_range_def image_iff)
  qed
  have "kv_view kv' q = kv_view kv q - {norm_p0 p0..<norm_p1 p1}" for q
    using k(3,4) kv_stream_ok(4)[OF wf, of q] by (auto simp: kv_view_def has_seq_def stream_of_def pos)
  then show ?thesis using k(1,2) by blast
qed

definition div_range :: "int \<Rightarrow> int \<Rightarrow> int \<Rightarrow> int set \<Rightarrow> int set" where
  "div_range p0 p1 d P = (P - {norm_p0 p0..<norm_p1 p1}) \<union> {trunc_div p d | p. p \<in> P \<and> p \<in> {norm_p0 p0..<norm_p1 p1}}"

lemma seq_positions_div:
  "seq_positions q (map (div_cell q p0 p1 d) xs) = div_range p0 p1 d (seq_positions q xs)"
proof -
  have "q \<in> a_seq (div_cell q p0 p1 d x) \<longleftrightarrow> q \<in> a_seq x"
    "q \<in> a_seq x \<Longrightarrow> a_pos (div_cell q p0 p1 d x) = (if in_range p0 p1 x then trunc_div (a_pos x) d else a_pos x)" for x
    by (auto simp: div_cell_def acell_div_def)
  then have "seq_positions q (map (div_cell q p0 p1 d) xs) =
      {p. \<exists>x \<in> set xs. q \<in> a_seq x \<and> p = (if in_range p0 p1 x then trunc_div (a_pos x) d else a_pos x)}"
    unfolding seq_positions_alt by (auto simp: image_iff)
  also have "\<dots> = div_range p0 p1 d (seq_positions q xs)"
    by (auto simp: seq_positions_alt div_range_def in_range_def)
  finally show ?thesis .
qed

lemma kv_seq_div_view:
  assumes "kv_wf kv" "has_seq kv q"
    and "\<forall>x \<in> set (cells_abs (kv_v_cells kv ! stream_of kv q)). div_pre q p0 p1 d x"
    and alone: "\<forall>x \<in> set (cells_abs (kv_v_cells kv ! stream_of kv q)). in_range p0 p1 x \<and> q \<in> a_seq x \<longrightarrow> a_seq x = {q}"
  shows "\<exists>kv'. kv_seq_div (int q) p0 p1 d kv = Some kv' \<and> kv_wf kv' \<and> kv_view kv' = (kv_view kv)(q := div_range p0 p1 d (kv_view kv q))"
proof -
  let ?xs = "cells_abs (kv_v_cells kv ! stream_of kv q)"
  obtain kv' where k: "kv_seq_div (int q) p0 p1 d kv = Some kv'" "kv_wf kv'" "kv_maps kv (stream_of kv q) (div_cell q p0 p1 d) kv'"
    using kv_seq_div_ok[OF assms(1-3)] by blast
  have "kv_view kv' q = div_range p0 p1 d (kv_view kv q)"
    using kv_maps_view[OF k(3), of q] assms(2) by (simp add: seq_positions_div kv_view_def)
  moreover have "kv_view kv' r = kv_view kv r" if "r \<noteq> q" for r
  proof -
    have "(r \<in> a_seq (div_cell q p0 p1 d x) \<longleftrightarrow> r \<in> a_seq x) \<and> (r \<in> a_seq x \<longrightarrow> a_pos (div_cell q p0 p1 d x) = a_pos x)"
      if "x \<in> set ?xs" for x using alone that \<open>r \<noteq> q\<close> by (auto simp: div_cell_def acell_div_def)
    then have "seq_positions r (map (div_cell q p0 p1 d) ?xs) = seq_positions r ?xs" by (auto simp: seq_positions_alt)
    then show ?thesis using kv_maps_view[OF k(3), of r] by (auto simp: kv_view_def)
  qed
  ultimately show ?thesis using k(1,2) by (intro exI[of _ kv'] conjI) (auto simp: fun_eq_iff)
qed

definition kv_conf :: "kv_cache \<Rightarrow> nat \<times> llama_swa_type \<times> nat" where
  "kv_conf kv = (kv_n_stream kv, kv_swa_type kv, kv_n_swa kv)"

lemma kv_conf_upd [simp]: "kv_conf (kv_set_stream s c h kv) = kv_conf kv" "kv_conf (kv\<lparr>kv_v_cells := cs\<rparr>) = kv_conf kv"
  "kv_conf (kv\<lparr>kv_sc_ssrc := ss, kv_sc_sdst := ds\<rparr>) = kv_conf kv"
  by (simp_all add: kv_conf_def kv_set_stream_def)

lemma kv_conf_sweep: "kv_sweep_stream body s kv = Some kv' \<Longrightarrow> kv_conf kv' = kv_conf kv"
  by (auto simp: kv_sweep_stream_def bind_eq_Some_conv)

lemma kv_conf_sweeps: "for_each (kv_sweep_stream body) ss kv = Some kv' \<Longrightarrow> kv_conf kv' = kv_conf kv"
  by (induction ss arbitrary: kv) (auto simp: bind_eq_Some_conv dest!: kv_conf_sweep)

lemma kv_conf_rm: "kv_seq_rm q p0 p1 kv = Some (b, kv') \<Longrightarrow> kv_conf kv' = kv_conf kv"
  by (auto simp: kv_seq_rm_def bind_eq_Some_conv dest: kv_conf_sweep kv_conf_sweeps split: if_splits)

lemma kv_conf_cp: "kv_seq_cp q r p0 p1 kv = Some kv' \<Longrightarrow> kv_conf kv' = kv_conf kv"
  unfolding kv_seq_cp_def bind_eq_Some_conv
  by (elim exE conjE) (clarsimp simp: bind_eq_Some_conv split: if_splits)

lemma kv_conf_add: "kv_seq_add q p0 p1 d kv = Some kv' \<Longrightarrow> kv_conf kv' = kv_conf kv"
  by (auto simp: kv_seq_add_def bind_eq_Some_conv split: if_splits)

lemma kv_conf_div: "kv_seq_div q p0 p1 d kv = Some kv' \<Longrightarrow> kv_conf kv' = kv_conf kv"
  by (auto simp: kv_seq_div_def bind_eq_Some_conv kv_conf_def split: if_splits)

lemma kv_new_ok:
  assumes "0 < n_seq_max" "n_seq_max \<le> LLAMA_MAX_SEQ"
    and new: "kv_new v_trans unified size_kv n_seq_max n_pad n_swa swa_type = Some kv"
  shows "kv_wf kv" "kv_view kv = (\<lambda>_. {})" "kv_n_stream kv = (if unified then 1 else n_seq_max)" "kv_capacity kv = size_kv"
    "kv_swa_type kv = swa_type" "kv_n_swa kv = n_swa"
proof -
  have kv: "kv_n_stream kv = (if unified then 1 else n_seq_max)"
      "kv_v_cells kv = replicate (kv_n_stream kv) (cells_of False (replicate size_kv no_cell))"
      "kv_v_heads kv = replicate (kv_n_stream kv) 0"
      "kv_seq_to_stream kv = (if 1 < kv_n_stream kv then [0..<kv_n_stream kv] else replicate LLAMA_MAX_SEQ 0)"
    using new by (auto simp: kv_new_def bind_eq_Some_conv cells_resize_eq)
  have "kv_wf kv \<and> kv_view kv = (\<lambda>_. {})"
    by (rule kv_blank_wf) (use kv assms(1,2) in \<open>auto simp: kv_blank_def\<close>)
  then show "kv_wf kv" "kv_view kv = (\<lambda>_. {})" by blast+
  show "kv_n_stream kv = (if unified then 1 else n_seq_max)" by (rule kv(1))
  show "kv_capacity kv = size_kv" using kv(1,2) assms by (simp add: kv_capacity_def)
  show "kv_swa_type kv = swa_type" "kv_n_swa kv = n_swa" using new by (auto simp: kv_new_def bind_eq_Some_conv)
qed

subsection \<open>Properties\<close>

text \<open>
  Construction: the constructor returns exactly when the size is a multiple of the padding; the
  cache is then well-formed and holds nothing, with one stream when unified and one per sequence otherwise.
  Clearing a well-formed cache gives an empty well-formed cache.
\<close>

theorem kv_new_clear_empty:
  assumes "0 < n_seq_max" "n_seq_max \<le> LLAMA_MAX_SEQ"
  shows "(kv_new v_trans unified size_kv n_seq_max n_pad n_swa swa_type \<noteq> None \<longleftrightarrow> n_pad \<noteq> 0 \<and> size_kv mod n_pad = 0) \<and>
    (\<forall>kv. kv_new v_trans unified size_kv n_seq_max n_pad n_swa swa_type = Some kv \<longrightarrow>
       kv_wf kv \<and> kv_view kv = (\<lambda>_. {}) \<and> kv_n_stream kv = (if unified then 1 else n_seq_max) \<and> kv_capacity kv = size_kv) \<and>
    (\<forall>kv. kv_wf kv \<longrightarrow> kv_wf (kv_clear kv) \<and> kv_view (kv_clear kv) = (\<lambda>_. {}))"
proof (intro conjI allI impI)
  show "kv_new v_trans unified size_kv n_seq_max n_pad n_swa swa_type \<noteq> None \<longleftrightarrow> n_pad \<noteq> 0 \<and> size_kv mod n_pad = 0"
    by (auto simp: kv_new_def cpp_assert_def)
next
  fix kv assume new: "kv_new v_trans unified size_kv n_seq_max n_pad n_swa swa_type = Some kv"
  show "kv_wf kv" "kv_view kv = (\<lambda>_. {})" "kv_n_stream kv = (if unified then 1 else n_seq_max)" "kv_capacity kv = size_kv"
    using kv_new_ok[OF assms new] by blast+
next
  fix kv assume "kv_wf kv"
  then show "kv_wf (kv_clear kv)" "kv_view (kv_clear kv) = (\<lambda>_. {})" using kv_clear_wf by blast+
qed

theorem kv_new_clear_empty_witness:
  "\<exists>kv. kv_new False False 8 2 4 0 SWA_NONE = Some kv \<and> kv_wf kv \<and> kv_n_stream kv = 2 \<and> kv_capacity kv = 8 \<and>
     kv_view (kv_clear kv) = (\<lambda>_. {})"
proof -
  have n: "0 < (2::nat)" "(2::nat) \<le> LLAMA_MAX_SEQ" by simp_all
  note t = kv_new_clear_empty[OF n, of False False 8 4 0 SWA_NONE]
  from t obtain kv where "kv_new False False 8 2 4 0 SWA_NONE = Some kv" by fastforce
  with t show ?thesis by auto
qed

text \<open>The cache used as a concrete input: four cells, one of them shared by two sequences, one with a pending shift.\<close>

definition demo_cache :: kv_cache where
  "demo_cache = \<lparr>kv_n_seq_max = 4, kv_n_stream = 1, kv_n_pad = 1, kv_n_swa = 0, kv_swa_type = SWA_NONE,
     kv_v_trans = False, kv_v_heads = [3],
     kv_v_cells = [cells_of True [ACell 0 {0, 1} 0, ACell 1 {0} 0, ACell 7 {1} 2, no_cell]],
     kv_seq_to_stream = replicate LLAMA_MAX_SEQ 0, kv_sc_ssrc = [], kv_sc_sdst = []\<rparr>"

lemma demo_cache_wf: "kv_wf demo_cache" "kv_n_stream demo_cache = 1"
  "has_seq demo_cache q \<longleftrightarrow> q < 256" "stream_of demo_cache q = 0"
  "cells_abs (kv_v_cells demo_cache ! 0) = [ACell 0 {0, 1} 0, ACell 1 {0} 0, ACell 7 {1} 2, no_cell]"
proof -
  have "acells_full [ACell 0 {0, 1} 0, ACell 1 {0} 0, ACell 7 {1} 2, no_cell]"
    by (simp add: acell_full_def acell_ok_def i32_ok_def)
  then have "stream_wf demo_cache 0"
    unfolding stream_wf_def by (intro exI[of _ True] exI[of _ "[ACell 0 {0, 1} 0, ACell 1 {0} 0, ACell 7 {1} 2, no_cell]"])
      (simp add: demo_cache_def kv_capacity_def)
  then show "kv_wf demo_cache" by (simp add: kv_wf_def) (simp add: demo_cache_def)
qed (simp_all add: demo_cache_def has_seq_def stream_of_def)

lemma demo_cache_view: "kv_view demo_cache 0 = {0, 1}" "kv_view demo_cache (Suc 0) = {0, 7}"
  by (auto simp: kv_view_def demo_cache_wf seq_positions_alt)

text \<open>
  C14. \<^verbatim>\<open>seq_rm\<close> refines the removal of a half-open range of positions from one sequence: it always returns
  true, keeps the cache well-formed, leaves every other sequence alone, and the range ends -1 stand for 0
  and \<^verbatim>\<open>INT32_MAX\<close>. Cutting the tail from \<open>p\<close> on leaves the prefix, with its last position below \<open>p\<close>.
\<close>

theorem kv_seq_rm_refines:
  assumes "kv_wf kv" "has_seq kv q"
  shows "(\<exists>kv'. kv_seq_rm (int q) p0 p1 kv = Some (True, kv') \<and> kv_wf kv' \<and>
      kv_view kv' = (kv_view kv)(q := kv_view kv q - {norm_p0 p0..<norm_p1 p1})) \<and>
    (0 \<le> p \<and> INT32_MAX \<notin> kv_view kv q \<longrightarrow>
      (\<exists>kv' x. kv_seq_rm (int q) p (-1) kv = Some (True, kv') \<and> kv_view kv' q = {y \<in> kv_view kv q. y < p} \<and>
        kv_seq_pos_max (int q) kv' = Some x \<and> x < p))"
  using kv_seq_rm_view[OF assms, of p0 p1] kv_mem.truncate[OF assms, of p] by blast

theorem kv_seq_rm_refines_witness:
  "\<exists>kv'. kv_seq_rm 0 1 (-1) demo_cache = Some (True, kv') \<and> kv_view kv' 0 = {0} \<and> kv_view kv' 1 = {0, 7}"
proof -
  have "{0, 1} - {norm_p0 1..<norm_p1 (-1)} = {0}" by (auto simp: norm_p0_def norm_p1_def)
  then show ?thesis
    using kv_seq_rm_refines[OF demo_cache_wf(1), of 0 1 "-1" 0] by (auto simp: demo_cache_wf demo_cache_view)
qed

text \<open>
  C18. \<^verbatim>\<open>seq_keep\<close> empties every other sequence when the cache has one stream; with several streams it
  changes the contents of no sequence at all.
\<close>

theorem kv_seq_keep_refines:
  assumes "kv_wf kv" "has_seq kv q"
  shows "\<exists>kv'. kv_seq_keep (int q) kv = Some kv' \<and> kv_wf kv' \<and>
    kv_view kv' = (if kv_n_stream kv = 1 then (\<lambda>_. {})(q := kv_view kv q) else kv_view kv)"
  by (rule kv_seq_keep_view[OF assms])

theorem kv_seq_keep_refines_witness:
  "\<exists>kv'. kv_seq_keep 1 demo_cache = Some kv' \<and> kv_view kv' 0 = {} \<and> kv_view kv' 1 = {0, 7}"
  using kv_seq_keep_refines[OF demo_cache_wf(1), of 1] by (auto simp: demo_cache_wf demo_cache_view)

text \<open>
  C19. \<^verbatim>\<open>seq_add\<close> moves the positions of a sequence in the range by the shift and drops those that become
  negative, as long as no moved position or pending shift leaves the 32 bit range; a sequence that shares
  no moved cell keeps its positions.
\<close>

theorem kv_seq_add_refines:
  assumes "kv_wf kv" "has_seq kv q"
    and "\<forall>x \<in> set (cells_abs (kv_v_cells kv ! stream_of kv q)). add_pre q p0 p1 d x"
  shows "\<exists>kv'. kv_seq_add (int q) p0 p1 d kv = Some kv' \<and> kv_wf kv' \<and> kv_view kv' q = shift_range p0 p1 d (kv_view kv q) \<and>
    (\<forall>r. r \<noteq> q \<and> (\<forall>x \<in> set (cells_abs (kv_v_cells kv ! stream_of kv q)). in_range p0 p1 x \<longrightarrow> \<not> {q, r} \<subseteq> a_seq x) \<longrightarrow>
      kv_view kv' r = kv_view kv r)"
  by (rule kv_seq_add_view[OF assms])

theorem kv_seq_add_refines_witness:
  "\<exists>kv'. kv_seq_add 1 5 (-1) (-6) demo_cache = Some kv' \<and> kv_view kv' 1 = {0, 1} \<and> kv_view kv' 0 = {0, 1}"
proof -
  have pre: "\<forall>x \<in> set (cells_abs (kv_v_cells demo_cache ! stream_of demo_cache 1)). add_pre 1 5 (-1) (-6) x"
    by (simp add: demo_cache_wf add_pre_def in_range_def norm_p0_def norm_p1_def i32_ok_def)
  have "shift_range 5 (-1) (-6) {0, 7} = {0, 1}"
    by (auto simp: shift_range_def norm_p0_def norm_p1_def)
  then show ?thesis
    using kv_seq_add_refines[OF demo_cache_wf(1) _ pre]
    by (auto simp: demo_cache_wf demo_cache_view in_range_def norm_p0_def norm_p1_def)
qed

text \<open>
  C16. \<^verbatim>\<open>seq_cp\<close>. In a cache with one stream the target gains the source's positions in the range, by sharing
  the cells, as long as no such cell is the target's already. With several streams the target stream becomes
  a copy of the whole source sequence, whatever it held before, and the copy of the tensor data is queued;
  the range must cover the cache.
\<close>

theorem kv_seq_cp_refines:
  assumes wf: "kv_wf kv" "has_seq kv src" "has_seq kv dst" "src \<noteq> dst"
    and one: "kv_n_stream kv = 1 \<Longrightarrow> \<forall>x \<in> set (cells_abs (kv_v_cells kv ! 0)). in_range p0 p1 x \<longrightarrow> \<not> {src, dst} \<subseteq> a_seq x"
    and many: "kv_n_stream kv \<noteq> 1 \<Longrightarrow> p0 \<le> 0 \<and> p1 \<le> 0 \<and> int (kv_capacity kv) \<le> INT32_MAX \<and>
      (\<forall>x \<in> set (cells_abs (kv_v_cells kv ! src)). cross_pre src x)"
  shows "\<exists>kv'. kv_seq_cp (int src) (int dst) p0 p1 kv = Some kv' \<and> kv_wf kv' \<and>
    kv_view kv' = (kv_view kv)(dst := if kv_n_stream kv = 1
      then kv_view kv dst \<union> (kv_view kv src \<inter> {norm_p0 p0..<norm_p1 p1}) else kv_view kv src) \<and>
    (kv_n_stream kv \<noteq> 1 \<longrightarrow> kv_sc_ssrc kv' = kv_sc_ssrc kv @ [src] \<and> kv_sc_sdst kv' = kv_sc_sdst kv @ [dst])"
  using assms by (rule kv_seq_cp_view)

theorem kv_seq_cp_refines_witness:
  "\<exists>kv'. kv_seq_cp 1 2 3 (-1) demo_cache = Some kv' \<and> kv_view kv' 2 = {7} \<and> kv_view kv' 1 = {0, 7}"
proof -
  have "kv_view demo_cache 2 = {}" by (auto simp: kv_view_def demo_cache_wf seq_positions_alt)
  moreover have "{0, 7} \<inter> {norm_p0 3..<norm_p1 (-1)} = {7}" by (auto simp: norm_p0_def norm_p1_def)
  moreover have "\<exists>kv'. kv_seq_cp (int 1) (int 2) 3 (-1) demo_cache = Some kv' \<and> kv_wf kv' \<and>
      kv_view kv' = (kv_view demo_cache)(2 := if kv_n_stream demo_cache = 1
        then kv_view demo_cache 2 \<union> (kv_view demo_cache 1 \<inter> {norm_p0 3..<norm_p1 (-1)}) else kv_view demo_cache 1) \<and>
      (kv_n_stream demo_cache \<noteq> 1 \<longrightarrow> kv_sc_ssrc kv' = kv_sc_ssrc demo_cache @ [1] \<and> kv_sc_sdst kv' = kv_sc_sdst demo_cache @ [2])"
    by (rule kv_seq_cp_refines[OF demo_cache_wf(1)]) (simp_all add: demo_cache_wf)
  ultimately show ?thesis by (auto simp: demo_cache_wf demo_cache_view)
qed

text \<open>
  C17. \<^verbatim>\<open>seq_cp\<close> fails an assertion when it would share a cell with a sequence that has it already (so a second
  identical copy in a cache with one stream aborts), and, with several streams, when a positive range end
  asks for less than the whole cache.
\<close>

theorem kv_seq_cp_aborts:
  assumes wf: "kv_wf kv" "has_seq kv src" "has_seq kv dst" "src \<noteq> dst"
  shows "(kv_n_stream kv = 1 \<and> (\<exists>x \<in> set (cells_abs (kv_v_cells kv ! 0)). in_range p0 p1 x \<and> {src, dst} \<subseteq> a_seq x)
      \<longrightarrow> kv_seq_cp (int src) (int dst) p0 p1 kv = None) \<and>
    (kv_n_stream kv \<noteq> 1 \<and> int (kv_capacity kv) \<le> INT32_MAX \<and> (0 < p0 \<and> p0 + 1 < int (kv_capacity kv) \<or> 0 < p1 \<and> p1 + 1 < int (kv_capacity kv))
      \<longrightarrow> kv_seq_cp (int src) (int dst) p0 p1 kv = None)"
proof (intro conjI impI; elim conjE)
  assume "kv_n_stream kv = 1" "\<exists>x \<in> set (cells_abs (kv_v_cells kv ! 0)). in_range p0 p1 x \<and> {src, dst} \<subseteq> a_seq x"
  then show "kv_seq_cp (int src) (int dst) p0 p1 kv = None" by (rule kv_seq_cp_shared_aborts[OF wf])
next
  assume many: "kv_n_stream kv \<noteq> 1" and sz: "int (kv_capacity kv) \<le> INT32_MAX"
    and p: "0 < p0 \<and> p0 + 1 < int (kv_capacity kv) \<or> 0 < p1 \<and> p1 + 1 < int (kv_capacity kv)"
  have "to_i32 (int (kv_capacity kv)) = int (kv_capacity kv)" using sz by (intro to_i32_id) simp_all
  then show "kv_seq_cp (int src) (int dst) p0 p1 kv = None"
    using kv_stream_ok(1,4)[OF wf(1,2)] kv_stream_ok(1,4)[OF wf(1,3)] many wf(4) p kv_wf_lengths[OF wf(1)]
    by (auto simp: kv_seq_cp_def stream_of_def kv_get_size_ok[OF wf(1)] cpp_assert_def)
qed

theorem kv_seq_cp_aborts_witness: "kv_seq_cp 0 1 0 (-1) demo_cache = None"
  using kv_seq_cp_aborts[OF demo_cache_wf(1), of 0 1 0 "-1"]
  by (simp add: demo_cache_wf in_range_def norm_p0_def norm_p1_def)

end
