(* ===== verification/KV_Inputs.thy ===== *)
theory KV_Inputs
  imports KV_Cache
begin

text \<open>
  The rest of \<^verbatim>\<open>llama-kv-cache.cpp\<close>: preparing the micro-batches of a batch, the memory context that
  walks through them, the index, shift and mask inputs of the compute graph, and saving and restoring
  the cell metadata. Tensor data is not modelled: writes into an input tensor are writes into a list or
  a function from element index to value.
\<close>

unbundle bit_operations_syntax

subsection \<open>prepare\<close>

record prep_state =
  ps_sinfo :: slot_info
  ps_v_heads_old :: "nat list"
  ps_v_cells :: "kv_cells list"

definition prep_save :: "slot_info \<Rightarrow> kv_cache \<Rightarrow> prep_state option" where
  "prep_save si kv = do {
     cs \<leftarrow> map_opt (\<lambda>s. do {
         st \<leftarrow> vec_at (si_strm si) s;
         c \<leftarrow> vec_at (kv_v_cells kv) st;
         idxs \<leftarrow> vec_at (si_idxs si) s;
         cells_cp idxs c }) [0..<si_n_stream si];
     Some \<lparr>ps_sinfo = si, ps_v_heads_old = kv_v_heads kv, ps_v_cells = cs\<rparr> }"

text \<open>The first loop: \<open>success\<close>, the slots found, the recovery stack and the cache.\<close>

fun prep_place :: "llama_ubatch list \<Rightarrow> slot_info list \<Rightarrow> prep_state list \<Rightarrow> kv_cache
    \<Rightarrow> (bool \<times> slot_info list \<times> prep_state list \<times> kv_cache) option" where
  "prep_place [] res states kv = Some (True, res, states, kv)"
| "prep_place (ub # ubs) res states kv = do {
     si \<leftarrow> kv_find_slot ub False kv;
     if si_empty si then Some (False, res, states, kv) else do {
     state \<leftarrow> prep_save si kv;
     kv \<leftarrow> kv_apply_ubatch si ub kv;
     prep_place ubs (res @ [si]) (states @ [state]) kv } }"

definition prep_restore1 :: "prep_state \<Rightarrow> nat \<Rightarrow> kv_cache \<Rightarrow> kv_cache option" where
  "prep_restore1 ps s kv = do {
     st \<leftarrow> vec_at (si_strm (ps_sinfo ps)) s;
     c \<leftarrow> vec_at (kv_v_cells kv) st;
     idxs \<leftarrow> vec_at (si_idxs (ps_sinfo ps)) s;
     old \<leftarrow> vec_at (ps_v_cells ps) s;
     c \<leftarrow> cells_set idxs old c;
     h \<leftarrow> vec_at (ps_v_heads_old ps) s;
     heads \<leftarrow> vec_set st h (kv_v_heads kv);
     Some (kv\<lparr>kv_v_cells := (kv_v_cells kv)[st := c], kv_v_heads := heads\<rparr>) }"

definition prep_restore :: "prep_state \<Rightarrow> kv_cache \<Rightarrow> kv_cache option" where
  "prep_restore ps = for_each (prep_restore1 ps) [0..<si_n_stream (ps_sinfo ps)]"

definition kv_prepare :: "llama_ubatch list \<Rightarrow> kv_cache \<Rightarrow> (slot_info list \<times> kv_cache) option" where
  "kv_prepare ubs kv = do {
     (success, res, states, kv) \<leftarrow> prep_place ubs [] [] kv;
     cpp_assert (states \<noteq> [] \<or> \<not> success);
     kv \<leftarrow> for_each prep_restore (rev states) kv;
     Some (if success then res else [], kv) }"

subsection \<open>The memory context\<close>

record kv_context =
  kx_status :: llama_memory_status
  kx_do_shift :: bool
  kx_sc_ssrc :: "nat list"
  kx_sc_sdst :: "nat list"
  kx_i_cur :: nat
  kx_sinfos :: "slot_info list"
  kx_ubatches :: "llama_ubatch list"
  kx_n_kv :: nat

definition kx_fail :: "llama_memory_status \<Rightarrow> kv_context" where
  "kx_fail status = \<lparr>kx_status = status, kx_do_shift = False, kx_sc_ssrc = [], kx_sc_sdst = [], kx_i_cur = 0,
     kx_sinfos = [], kx_ubatches = [], kx_n_kv = 0\<rparr>"

definition kx_full :: "kv_cache \<Rightarrow> kv_context option" where
  "kx_full kv = do {
     n \<leftarrow> kv_get_size kv;
     Some ((kx_fail MS_SUCCESS)\<lparr>kx_n_kv := n,
       kx_sinfos := [\<lparr>si_s0 = 0, si_s1 = kv_n_stream kv - 1, si_strm = [0..<kv_n_stream kv],
                     si_idxs = replicate (kv_n_stream kv) [0]\<rparr>]\<rparr>) }"

definition kx_update :: "bool \<Rightarrow> nat list \<Rightarrow> nat list \<Rightarrow> kv_context option" where
  "kx_update do_shift ssrc sdst = do {
     cpp_assert (do_shift \<or> length ssrc = length sdst);
     Some ((kx_fail (if \<not> do_shift \<and> ssrc = [] then MS_NO_UPDATE else MS_SUCCESS))
       \<lparr>kx_do_shift := do_shift, kx_sc_ssrc := ssrc, kx_sc_sdst := sdst\<rparr>) }"

definition kx_batch :: "slot_info list \<Rightarrow> llama_ubatch list \<Rightarrow> kv_context" where
  "kx_batch sinfos ubatches = (kx_fail MS_SUCCESS)\<lparr>kx_sinfos := sinfos, kx_ubatches := ubatches\<rparr>"

text \<open>
  \<^verbatim>\<open>init_batch\<close>: the splitting loop is \<open>split_loop\<close> with more fuel than there are tokens.
\<close>

definition kv_init_batch :: "llama_batch_allocr \<Rightarrow> nat \<Rightarrow> kv_cache \<Rightarrow> (kv_context \<times> llama_batch_allocr \<times> kv_cache) option" where
  "kv_init_batch a n_ubatch kv = do {
     a \<leftarrow> Some (ba_split_reset a);
     (ubs, a) \<leftarrow> split_loop (if kv_n_stream kv = 1 then ba_split_simple n_ubatch else ba_split_equal n_ubatch True)
        (Suc (ba_get_n_tokens a)) a;
     if ba_n_used a < ba_get_n_tokens a then Some (kx_fail MS_FAILED_PREPARE, a, kv) else do {
     (sinfos, kv) \<leftarrow> kv_prepare ubs kv;
     Some (if sinfos = [] then kx_fail MS_FAILED_PREPARE else kx_batch sinfos ubs, a, kv) } }"

definition kv_init_full :: "kv_cache \<Rightarrow> kv_context option" where
  "kv_init_full kv = kx_full kv"

definition kv_get_has_shift :: "kv_cache \<Rightarrow> bool" where
  "kv_get_has_shift kv = fold (\<lambda>c r. r \<or> cells_get_has_shift c) (kv_v_cells kv) False"

definition kv_init_update :: "kv_cache \<Rightarrow> (kv_context \<times> kv_cache) option" where
  "kv_init_update kv = do {
     x \<leftarrow> kx_update (kv_get_has_shift kv) (kv_sc_ssrc kv) (kv_sc_sdst kv);
     Some (x, kv\<lparr>kv_sc_ssrc := [], kv_sc_sdst := []\<rparr>) }"

text \<open>
  \<^verbatim>\<open>update\<close>, without the tensor work: \<open>has_rope\<close> is \<^verbatim>\<open>rope_type != LLAMA_ROPE_TYPE_NONE\<close> and \<open>compute_ok\<close>
  whether the K-shift graph was allocated and computed.
\<close>

definition kv_update :: "bool \<Rightarrow> bool \<Rightarrow> bool \<Rightarrow> nat list \<Rightarrow> nat list \<Rightarrow> kv_cache \<Rightarrow> (bool \<times> kv_cache) option" where
  "kv_update has_rope compute_ok do_shift ssrc sdst kv = do {
     cpp_assert (length ssrc = length sdst);
     _ \<leftarrow> (if ssrc = [] then Some () else do {
         cpp_assert (kv_n_stream kv > 1);
         for_each (\<lambda>i _. do {
             s \<leftarrow> vec_at ssrc i;
             d \<leftarrow> vec_at sdst i;
             cpp_assert (s < kv_n_stream kv);
             cpp_assert (d < kv_n_stream kv);
             cpp_assert (s \<noteq> d) }) [0..<length ssrc] () });
     if \<not> do_shift then Some (False, kv)
     else if has_rope \<and> \<not> compute_ok then Some (False, kv)
     else Some (has_rope, kv\<lparr>kv_v_cells := map cells_reset_shift (kv_v_cells kv)\<rparr>) }"

definition kx_next :: "kv_context \<Rightarrow> (bool \<times> kv_context) option" where
  "kx_next x = do {
     cpp_assert (kx_status x = MS_SUCCESS);
     i \<leftarrow> Some (kx_i_cur x + 1);
     Some (i < length (kx_ubatches x), x\<lparr>kx_i_cur := i\<rparr>) }"

definition ggml_pad :: "32 word \<Rightarrow> 32 word \<Rightarrow> 32 word" where
  "ggml_pad x n = (x + n - 1) AND NOT (n - 1)"

definition kv_get_n_kv :: "slot_info \<Rightarrow> kv_cache \<Rightarrow> nat option" where
  "kv_get_n_kv si kv = for_each (\<lambda>s result. do {
     st \<leftarrow> vec_at (si_strm si) s;
     c \<leftarrow> vec_at (kv_v_cells kv) st;
     Some (max (min (cells_size c) (max (kv_n_pad kv)
        (unat (ggml_pad (of_nat (cells_used_max_p1 c)) (of_nat (kv_n_pad kv)))))) result) }) [0..<si_n_stream si] 0"

definition kx_apply :: "bool \<Rightarrow> bool \<Rightarrow> kv_context \<Rightarrow> kv_cache \<Rightarrow> (kv_context \<times> kv_cache) option" where
  "kx_apply has_rope compute_ok x kv = do {
     cpp_assert (\<not> llama_memory_status_is_fail (kx_status x));
     if kx_ubatches x = [] then do {
       (_, kv) \<leftarrow> kv_update has_rope compute_ok (kx_do_shift x) (kx_sc_ssrc x) (kx_sc_sdst x) kv;
       Some (x, kv) }
     else do {
       si \<leftarrow> vec_at (kx_sinfos x) (kx_i_cur x);
       ub \<leftarrow> vec_at (kx_ubatches x) (kx_i_cur x);
       kv \<leftarrow> kv_apply_ubatch si ub kv;
       n \<leftarrow> kv_get_n_kv si kv;
       Some (x\<lparr>kx_n_kv := n\<rparr>, kv) } }"

definition kx_get_ubatch :: "kv_context \<Rightarrow> llama_ubatch option" where
  "kx_get_ubatch x = do { cpp_assert (kx_status x = MS_SUCCESS); vec_at (kx_ubatches x) (kx_i_cur x) }"

definition kv_get_padding :: "bool \<Rightarrow> nat" where
  "kv_get_padding flash_attn = (if flash_attn then 256 else 32)"

subsection \<open>Graph inputs\<close>

text \<open>\<^verbatim>\<open>sinfo.strm[s]*get_size()\<close> is a 32 bit product.\<close>

definition kv_k_idxs :: "llama_ubatch \<Rightarrow> slot_info \<Rightarrow> kv_cache \<Rightarrow> nat list option" where
  "kv_k_idxs ub si kv = do {
     n \<leftarrow> si_size si;
     cpp_assert (ub_n_tokens ub = n * si_n_stream si);
     kv_size \<leftarrow> kv_get_size kv;
     map_opt (\<lambda>(s, i). do {
         st \<leftarrow> vec_at (si_strm si) s;
         idxs \<leftarrow> vec_at (si_idxs si) s;
         idx \<leftarrow> vec_at idxs i;
         Some (st * kv_size mod 2 ^ 32 + idx) }) (List.product [0..<si_n_stream si] [0..<n]) }"

definition kv_v_idxs :: "nat \<Rightarrow> llama_ubatch \<Rightarrow> slot_info \<Rightarrow> kv_cache \<Rightarrow> nat list option" where
  "kv_v_idxs n_embd_v_gqa ub si kv = (if \<not> kv_v_trans kv then kv_k_idxs ub si kv else do {
     n \<leftarrow> si_size si;
     cpp_assert (ub_n_tokens ub = n * si_n_stream si);
     kv_size \<leftarrow> kv_get_size kv;
     map_opt (\<lambda>(s, i, j). do {
         st \<leftarrow> vec_at (si_strm si) s;
         idxs \<leftarrow> vec_at (si_idxs si) s;
         idx \<leftarrow> vec_at idxs i;
         Some (st * kv_size * n_embd_v_gqa + j * kv_size + idx) })
       (List.product [0..<si_n_stream si] (List.product [0..<n] [0..<n_embd_v_gqa])) })"

definition kv_k_shift :: "kv_cache \<Rightarrow> int list option" where
  "kv_k_shift kv = map_option concat (map_opt (\<lambda>s. do {
     c \<leftarrow> vec_at (kv_v_cells kv) s;
     map_opt (\<lambda>i. do {
         e \<leftarrow> cells_is_empty i c;
         if e then Some 0 else cells_get_shift i c }) [0..<cells_size c] }) [0..<kv_n_stream kv])"

text \<open>An entry of the attention mask: minus infinity, or a bias (the alibi distance, negated, or 0).\<close>

datatype mask_val = NegInf | Bias int

definition kq_mask_cell :: "kv_cache \<Rightarrow> bool \<Rightarrow> bool \<Rightarrow> kv_cells \<Rightarrow> nat \<Rightarrow> int \<Rightarrow> nat \<Rightarrow> mask_val option" where
  "kq_mask_cell kv use_alibi causal_attn c seq_id p1 j = do {
     e \<leftarrow> cells_is_empty j c;
     if e then Some NegInf else do {
     has \<leftarrow> cells_seq_has j seq_id c;
     if \<not> has then Some NegInf else do {
     p0 \<leftarrow> cells_pos_get j c;
     if causal_attn \<and> p0 > p1 then Some NegInf else do {
     masked \<leftarrow> kv_is_masked_swa kv p0 p1;
     if masked then Some NegInf
     else Some (Bias (if use_alibi then - \<bar>p0 - p1\<bar> else 0)) }}} }"

definition GGML_KQ_MASK_PAD :: nat where
  "GGML_KQ_MASK_PAD = 64"

definition pad_nat :: "nat \<Rightarrow> nat \<Rightarrow> nat" where
  "pad_nat x n = (x + n - 1) div n * n"

text \<open>
  The mask tensor has \<open>n_kv\<close> columns, \<^verbatim>\<open>n_tps\<close> rows padded to 64, and one such block per stream of the
  micro-batch; \<open>data\<close> is its flat contents. A cell that is skipped keeps minus infinity.
\<close>

definition kv_kq_mask :: "nat \<Rightarrow> nat \<Rightarrow> bool \<Rightarrow> llama_ubatch \<Rightarrow> bool \<Rightarrow> kv_cache \<Rightarrow> (nat \<Rightarrow> mask_val) option" where
  "kv_kq_mask n_kv n_stream use_alibi ub causal_attn kv = do {
     cpp_assert (n_stream \<noteq> 0 \<and> ub_n_tokens ub mod n_stream = 0);
     n_tps \<leftarrow> Some (ub_n_tokens ub div n_stream);
     n_tps_pad \<leftarrow> Some (pad_nat n_tps GGML_KQ_MASK_PAD);
     for_each (\<lambda>(s, ii) data. do {
         i \<leftarrow> Some (s * n_tps + ii);
         row \<leftarrow> vec_at (ub_seq_id ub) i;
         seq_id \<leftarrow> vec_at row 0;
         cpp_assert (0 \<le> seq_id);
         st \<leftarrow> vec_at (kv_seq_to_stream kv) (nat seq_id);
         c \<leftarrow> vec_at (kv_v_cells kv) st;
         p1 \<leftarrow> vec_at (ub_pos ub) i;
         for_each (\<lambda>j data. do {
             v \<leftarrow> kq_mask_cell kv use_alibi causal_attn c (nat seq_id) p1 j;
             Some (if v = NegInf then data else data(n_kv * (s * n_tps_pad + ii) + j := v)) }) [0..<n_kv] data })
       (List.product [0..<n_stream] [0..<n_tps]) (\<lambda>_. NegInf) }"

subsection \<open>Saving and restoring\<close>

text \<open>
  Every metadata item is a 4 byte integer, so the byte stream is a list of integers. Tensor data is a
  parameter of \<open>kv_state_write\<close> and \<open>kv_state_read\<close>. A read past the end of the stream throws, as do
  the explicit errors: \<open>Inl\<close> carries the cache as the exception leaves it.
\<close>

fun cell_ranges :: "nat \<Rightarrow> nat \<Rightarrow> bool list \<Rightarrow> nat \<Rightarrow> (nat \<times> nat) list" where
  "cell_ranges n begin [] i = (if begin \<noteq> n then [(begin, n)] else [])"
| "cell_ranges n begin (b # bs) i =
     (if b then cell_ranges n (if begin = n then i else begin) bs (i + 1)
      else if begin \<noteq> n then (begin, i) # cell_ranges n n bs (i + 1)
      else cell_ranges n n bs (i + 1))"

definition cell_selected :: "int \<Rightarrow> kv_cells \<Rightarrow> nat \<Rightarrow> bool option" where
  "cell_selected seq_id c i = do {
     e \<leftarrow> cells_is_empty i c;
     if e then Some False
     else if seq_id = -1 then Some True
     else do { cpp_assert (0 \<le> seq_id); cells_seq_has i (nat seq_id) c } }"

definition state_write_cell :: "nat \<Rightarrow> int \<Rightarrow> kv_cells \<Rightarrow> nat \<Rightarrow> int list option" where
  "state_write_cell n_seq_max seq_id c i = do {
     hs \<leftarrow> map_opt (\<lambda>cur. if int cur = seq_id \<or> seq_id = -1 then cells_seq_has i cur c else Some False) [0..<n_seq_max];
     ids \<leftarrow> Some (map fst (filter snd (zip (map int [0..<n_seq_max]) hs)));
     pos \<leftarrow> cells_pos_get i c;
     Some (pos # int (length ids) # ids) }"

definition state_write_meta :: "nat \<Rightarrow> kv_cells \<Rightarrow> (nat \<times> nat) list \<Rightarrow> int \<Rightarrow> int list option" where
  "state_write_meta n_seq_max c cr seq_id = map_option concat
     (map_opt (state_write_cell n_seq_max seq_id c) (concat (map (\<lambda>(b, e). [b..<e]) cr)))"

definition state_write_stream :: "(nat \<Rightarrow> (nat \<times> nat) list \<Rightarrow> int list) \<Rightarrow> int \<Rightarrow> kv_cache \<Rightarrow> nat \<Rightarrow> int list option" where
  "state_write_stream write_data seq_id kv s = do {
     c \<leftarrow> vec_at (kv_v_cells kv) s;
     sel \<leftarrow> map_opt (cell_selected seq_id c) [0..<cells_size c];
     cell_count \<leftarrow> Some (length (filter (\<lambda>b. b) sel));
     cr \<leftarrow> Some (cell_ranges (cells_size c) (cells_size c) sel 0);
     cpp_assert (cell_count = sum_list (map (\<lambda>(b, e). e - b) cr));
     if cell_count = 0 then Some [0] else do {
     meta \<leftarrow> state_write_meta (kv_n_seq_max kv) c cr seq_id;
     Some (int cell_count # meta @ write_data s cr) } }"

definition kv_state_write :: "(nat \<Rightarrow> (nat \<times> nat) list \<Rightarrow> int list) \<Rightarrow> int \<Rightarrow> kv_cache \<Rightarrow> int list option" where
  "kv_state_write write_data seq_id kv = do {
     parts \<leftarrow> map_opt (state_write_stream write_data seq_id kv) [0..<kv_n_stream kv];
     Some (int (kv_n_stream kv) # concat parts) }"

datatype kv_error = Read_Past_End | N_Stream_Mismatch | Restore_Failed

text \<open>
  The cells of a single sequence: position, count (which must be 1) and a sequence id that is dropped.
  \<open>Inr None\<close> is \<^verbatim>\<open>return false\<close>.
\<close>

fun read_seq_cells :: "nat \<Rightarrow> int list \<Rightarrow> kv_error + (int list \<times> int list) option" where
  "read_seq_cells 0 io = Inr (Some ([], io))"
| "read_seq_cells (Suc n) io = (case io of
     pos # n_seq_id # io \<Rightarrow> if to_u32 n_seq_id \<noteq> 1 then Inr None else (case io of
         _ # io \<Rightarrow> (case read_seq_cells n io of
             Inr (Some (ps, io)) \<Rightarrow> Inr (Some (pos # ps, io))
           | r \<Rightarrow> r)
       | [] \<Rightarrow> Inl Read_Past_End)
   | _ \<Rightarrow> Inl Read_Past_End)"

definition seq_restore_ubatch :: "nat \<Rightarrow> int \<Rightarrow> int list \<Rightarrow> llama_ubatch option" where
  "seq_restore_ubatch n_pos_per_embd dest_seq_id ps = do {
     (ub, _) \<leftarrow> ba_ubatch_reserve (length ps) 1 (batch_allocr_new n_pos_per_embd);
     Some (ub\<lparr>ub_seq_id_unq := (ub_seq_id_unq ub)[0 := dest_seq_id], ub_pos := ps,
              ub_n_seq_id := map (\<lambda>_. 1) ps, ub_seq_id := map (\<lambda>_. [dest_seq_id]) ps\<rparr>) }"

type_synonym 'a io_result = "((kv_error \<times> kv_cache) + 'a) option"

definition state_read_seq :: "nat \<Rightarrow> nat \<Rightarrow> nat \<Rightarrow> int \<Rightarrow> int list \<Rightarrow> kv_cache \<Rightarrow> (bool \<times> kv_cache \<times> int list) io_result" where
  "state_read_seq n_pos_per_embd strm cell_count dest_seq_id io kv = do {
     (_, kv) \<leftarrow> kv_seq_rm dest_seq_id (-1) (-1) kv;
     (case read_seq_cells cell_count io of
        Inl e \<Rightarrow> Some (Inl (e, kv))
      | Inr None \<Rightarrow> Some (Inr (False, kv, io))
      | Inr (Some (ps, io)) \<Rightarrow> do {
          ub \<leftarrow> seq_restore_ubatch n_pos_per_embd dest_seq_id ps;
          si \<leftarrow> kv_find_slot ub True kv;
          if si_empty si then Some (Inr (False, kv, io)) else do {
          kv \<leftarrow> kv_apply_ubatch si ub kv;
          head_cur \<leftarrow> si_head si;
          heads \<leftarrow> vec_set strm head_cur (kv_v_heads kv);
          kv \<leftarrow> Some (kv\<lparr>kv_v_heads := heads\<rparr>);
          c \<leftarrow> vec_at (kv_v_cells kv) strm;
          cpp_assert (head_cur + cell_count \<le> cells_size c);
          p0 \<leftarrow> cells_pos_get head_cur c;
          cpp_assert (p0 = hd ps);
          p1 \<leftarrow> cells_pos_get (head_cur + cell_count - 1) c;
          cpp_assert (p1 = last ps);
          b0 \<leftarrow> cells_seq_has head_cur (nat dest_seq_id) c;
          cpp_assert b0;
          b1 \<leftarrow> cells_seq_has (head_cur + cell_count - 1) (nat dest_seq_id) c;
          cpp_assert b1;
          Some (Inr (True, kv, io)) }}) }"

text \<open>Sequence ids of cell \<open>i\<close> in a whole cache; \<open>Inr False\<close> is an id out of range.\<close>

fun read_cell_seqs :: "nat \<Rightarrow> nat \<Rightarrow> nat \<Rightarrow> int list \<Rightarrow> kv_cells \<Rightarrow> ((kv_error + bool \<times> int list) \<times> kv_cells) option" where
  "read_cell_seqs n_seq_max i 0 io c = Some (Inr (True, io), c)"
| "read_cell_seqs n_seq_max i (Suc j) io c = (case io of
     [] \<Rightarrow> Some (Inl Read_Past_End, c)
   | seq_id # io \<Rightarrow> if seq_id < 0 \<or> to_u32 seq_id \<ge> int n_seq_max then Some (Inr (False, io), c) else do {
       c \<leftarrow> cells_seq_add i (nat seq_id) c;
       read_cell_seqs n_seq_max i j io c })"

fun read_all_cells :: "nat \<Rightarrow> nat \<Rightarrow> nat \<Rightarrow> int list \<Rightarrow> kv_cells \<Rightarrow> ((kv_error + bool \<times> int list) \<times> kv_cells) option" where
  "read_all_cells n_seq_max i 0 io c = Some (Inr (True, io), c)"
| "read_all_cells n_seq_max i (Suc n) io c = (case io of
     p # k # io \<Rightarrow> do {
       c \<leftarrow> cells_pos_set i p c;
       (r, c) \<leftarrow> read_cell_seqs n_seq_max i (nat (to_u32 k)) io c;
       (case r of
          Inr (True, io) \<Rightarrow> read_all_cells n_seq_max (i + 1) n io c
        | _ \<Rightarrow> Some (r, c)) }
   | _ \<Rightarrow> Some (Inl Read_Past_End, c))"

definition state_read_all :: "nat \<Rightarrow> nat \<Rightarrow> int list \<Rightarrow> kv_cache \<Rightarrow> (bool \<times> kv_cache \<times> int list) io_result" where
  "state_read_all strm cell_count io kv = do {
     c \<leftarrow> vec_at (kv_v_cells kv) strm;
     if cell_count > cells_size c then Some (Inr (False, kv, io)) else do {
     kv \<leftarrow> Some (kv_clear kv);
     c \<leftarrow> vec_at (kv_v_cells kv) strm;
     (r, c) \<leftarrow> read_all_cells (kv_n_seq_max kv) 0 cell_count io c;
     kv \<leftarrow> Some (kv\<lparr>kv_v_cells := (kv_v_cells kv)[strm := c]\<rparr>);
     (case r of
        Inl e \<Rightarrow> Some (Inl (e, kv))
      | Inr (False, io) \<Rightarrow> Some (Inr (False, kv, io))
      | Inr (True, io) \<Rightarrow> Some (Inr (True, kv\<lparr>kv_v_heads := (kv_v_heads kv)[strm := 0]\<rparr>, io))) } }"

definition state_read_meta :: "nat \<Rightarrow> nat \<Rightarrow> nat \<Rightarrow> int \<Rightarrow> int list \<Rightarrow> kv_cache \<Rightarrow> (bool \<times> kv_cache \<times> int list) io_result" where
  "state_read_meta n_pos_per_embd strm cell_count dest_seq_id io kv =
     (if dest_seq_id \<noteq> -1 then state_read_seq n_pos_per_embd strm cell_count dest_seq_id io kv
      else state_read_all strm cell_count io kv)"

text \<open>
  \<open>read_data\<close> stands for \<^verbatim>\<open>state_read_data\<close>: from the cache, the stream, the cell count and the input to its verdict
  and the rest of the input.
\<close>

definition state_read_stream :: "(kv_cache \<Rightarrow> nat \<Rightarrow> nat \<Rightarrow> int list \<Rightarrow> bool \<times> int list) \<Rightarrow> nat \<Rightarrow> int \<Rightarrow> nat
    \<Rightarrow> int list \<Rightarrow> kv_cache \<Rightarrow> (kv_cache \<times> int list) io_result" where
  "state_read_stream read_data n_pos_per_embd seq_id s io kv = (case io of
     [] \<Rightarrow> Some (Inl (Read_Past_End, kv))
   | n # io \<Rightarrow> (let cell_count = nat (to_u32 n) in if cell_count = 0 then Some (Inr (kv, io)) else do {
       strm \<leftarrow> (if seq_id = -1 then Some s else vec_at (kv_seq_to_stream kv) (nat seq_id));
       r \<leftarrow> state_read_meta n_pos_per_embd strm cell_count seq_id io kv;
       (case r of
          Inl e \<Rightarrow> Some (Inl e)
        | Inr (ok, kv, io) \<Rightarrow>
            (let (ok, io) = (if ok then read_data kv strm cell_count io else (False, io)) in
             if ok then Some (Inr (kv, io)) else do {
             kv \<leftarrow> (if seq_id = -1 then Some (kv_clear kv) else map_option snd (kv_seq_rm seq_id (-1) (-1) kv));
             Some (Inl (Restore_Failed, kv)) })) }))"

fun state_read_streams :: "(kv_cache \<Rightarrow> nat \<Rightarrow> nat \<Rightarrow> int list \<Rightarrow> bool \<times> int list) \<Rightarrow> nat \<Rightarrow> int \<Rightarrow> nat list
    \<Rightarrow> int list \<Rightarrow> kv_cache \<Rightarrow> (kv_cache \<times> int list) io_result" where
  "state_read_streams read_data n_pos seq_id [] io kv = Some (Inr (kv, io))"
| "state_read_streams read_data n_pos seq_id (s # ss) io kv = do {
     r \<leftarrow> state_read_stream read_data n_pos seq_id s io kv;
     (case r of
        Inl e \<Rightarrow> Some (Inl e)
      | Inr (kv, io) \<Rightarrow> state_read_streams read_data n_pos seq_id ss io kv) }"

definition kv_state_read :: "(kv_cache \<Rightarrow> nat \<Rightarrow> nat \<Rightarrow> int list \<Rightarrow> bool \<times> int list) \<Rightarrow> nat \<Rightarrow> int
    \<Rightarrow> int list \<Rightarrow> kv_cache \<Rightarrow> (kv_cache \<times> int list) io_result" where
  "kv_state_read read_data n_pos_per_embd seq_id io kv = do {
     cpp_assert (seq_id = -1 \<or> (seq_id \<ge> 0 \<and> nat seq_id < length (kv_seq_to_stream kv)));
     (case io of
        [] \<Rightarrow> Some (Inl (Read_Past_End, kv))
      | n # io \<Rightarrow> if to_u32 n \<noteq> int (kv_n_stream kv) then Some (Inl (N_Stream_Mismatch, kv))
          else state_read_streams read_data n_pos_per_embd seq_id [0..<kv_n_stream kv] io kv) }"

end
