(* ===== verification/KV_Slots.thy ===== *)
theory KV_Slots
  imports KV_View KV_Inputs
begin

text \<open>
  The slot search of the KV cache. For the search that \<^verbatim>\<open>prepare\<close> makes, cell by cell from the head on, the
  lemmas give the result as a filter of the cell indices in the order of the search; for the contiguous
  search of \<^verbatim>\<open>state_read\<close>, that the result is a run of usable cells and that a run is found when there is one.
\<close>

subsection \<open>Which cells may be used\<close>

text \<open>The cell is empty, or its only owner has moved past the window.\<close>

definition usable :: "kv_cache \<Rightarrow> acell list \<Rightarrow> acell \<Rightarrow> bool" where
  "usable kv xs x \<longleftrightarrow> a_pos x = -1 \<or>
     (\<exists>s. a_seq x = {s} \<and> kv_is_masked_swa kv (a_pos x) (Max (seq_positions s xs) + 1) = Some True)"

text \<open>The search never overflows a position and never divides by an empty window.\<close>

definition swa_ok :: "kv_cache \<Rightarrow> bool" where
  "swa_ok kv \<longleftrightarrow> (kv_swa_type kv = SWA_CHUNKED \<longrightarrow> kv_n_swa kv \<noteq> 0)"

definition pos_room :: "acell list \<Rightarrow> bool" where
  "pos_room xs \<longleftrightarrow> (\<forall>x \<in> set xs. a_pos x < INT32_MAX)"

lemma kv_is_masked_swa_total:
  "swa_ok kv \<Longrightarrow> 0 \<le> p0 \<Longrightarrow> 0 \<le> p1 \<Longrightarrow> \<exists>b. kv_is_masked_swa kv p0 p1 = Some b"
  by (cases "kv_swa_type kv") (auto simp: kv_is_masked_swa_def is_masked_swa_def swa_ok_def Let_def)

lemma can_use_cell_of:
  assumes i: "i < length xs" and ok: "acells_full xs" and kv: "swa_ok kv" "pos_room xs"
  shows "can_use_cell kv (cells_of hs xs) i = Some (usable kv xs (xs ! i))"
proof -
  let ?x = "xs ! i"
  have x: "acell_full ?x" using ok i by simp
  have e: "cells_is_empty i (cells_of hs xs) = Some (a_pos ?x = -1)"
    by (rule cells_is_empty_of[OF i acells_full_ok[OF ok]])
  consider "a_pos ?x = -1" | "a_pos ?x \<noteq> -1" "card (a_seq ?x) \<noteq> 1" | s where "a_pos ?x \<noteq> -1" "a_seq ?x = {s}"
    by (metis card_1_singletonE)
  then show ?thesis
  proof cases
    case 1
    then show ?thesis using e by (simp add: can_use_cell_def usable_def)
  next
    case 2
    then show ?thesis using e i by (auto simp: can_use_cell_def usable_def cells_seq_count_of)
  next
    case 3
    have s: "s < LLAMA_MAX_SEQ" "0 \<le> a_pos ?x" using x 3 by (auto simp: acell_full_def acell_ok_def)
    have ne: "a_pos ?x \<in> seq_positions s xs" using 3 i by (auto simp: seq_positions_def)
    then have fin: "finite (seq_positions s xs)" "seq_positions s xs \<noteq> {}" by (auto simp: seq_positions_def)
    define m where "m = Max (seq_positions s xs)"
    have m: "0 \<le> m" "m < INT32_MAX"
      using Max_ge[OF fin(1) ne] s(2) Max_in[OF fin] kv(2) by (auto simp: seq_positions_def pos_room_def m_def)
    obtain b where b: "kv_is_masked_swa kv (a_pos ?x) (m + 1) = Some b"
      using kv_is_masked_swa_total[OF kv(1) s(2), of "m + 1"] m(1) by auto
    have "usable kv xs ?x = b" using 3 b by (auto simp: usable_def m_def)
    then show ?thesis
      using e i 3 s m fin b
      by (simp flip: m_def add: can_use_cell_def cells_seq_count_of cells_pos_get_of cells_seq_get_of cells_seq_pos_max_of i32_ok_def)
  qed
qed

lemma usable_empty_only:
  assumes "kv_swa_type kv = SWA_NONE"
  shows "usable kv xs x \<longleftrightarrow> a_pos x = -1"
  using assms by (auto simp: usable_def kv_is_masked_swa_def is_masked_swa_def bind_eq_Some_conv)

subsection \<open>Cell by cell\<close>

text \<open>The order in which the search from \<open>h\<close> visits \<open>n\<close> cells.\<close>

definition scan_order :: "nat \<Rightarrow> nat \<Rightarrow> nat list" where
  "scan_order h n = rotate h [0..<n]"

lemma scan_order_simps [simp]: "length (scan_order h n) = n" "distinct (scan_order h n)" "set (scan_order h n) = {..<n}"
  by (auto simp: scan_order_def)

lemma scan_order_nth: "t < n \<Longrightarrow> scan_order h n ! t = (h + t) mod n"
  by (simp add: scan_order_def nth_rotate)

lemma scan_order_snoc: "t < n \<Longrightarrow> take (Suc t) (scan_order h n) = take t (scan_order h n) @ [(h + t) mod n]"
  by (simp add: take_Suc_conv_app_nth scan_order_nth)

text \<open>The first \<open>k\<close> usable cells in that order, or none if there are fewer.\<close>

definition first_free :: "(nat \<Rightarrow> bool) \<Rightarrow> nat \<Rightarrow> nat \<Rightarrow> nat \<Rightarrow> nat list option" where
  "first_free P h n k = (let fs = filter P (scan_order h n) in if k \<le> length fs then Some (take k fs) else None)"

lemma first_free_prefix:
  assumes "length (filter P (take t (scan_order h n))) = k"
  shows "first_free P h n k = Some (filter P (take t (scan_order h n)))"
proof -
  let ?L = "scan_order h n"
  have "filter P ?L = filter P (take t ?L) @ filter P (drop t ?L)"
    by (metis append_take_drop_id filter_append)
  then show ?thesis using assms by (simp add: first_free_def)
qed

lemma slot_scan_single:
  assumes use: "\<And>i. i < cells_size c \<Longrightarrow> can_use_cell kv c i = Some (P i)" and k: "0 < k"
  shows "t < cells_size c \<Longrightarrow> h \<le> cells_size c \<Longrightarrow> h mod cells_size c = (h0 + t) mod cells_size c \<Longrightarrow>
    ids = filter P (take t (scan_order h0 (cells_size c))) \<Longrightarrow> length ids < k \<Longrightarrow>
    slot_scan kv c False k 1 (h, t, ids) = Some (first_free P h0 (cells_size c) k)"
proof (induction "cells_size c - t" arbitrary: t h ids rule: less_induct)
  case less
  let ?n = "cells_size c"
  have inner: "slot_scan kv c False k 1 (g, t, ids) = Some (first_free P h0 ?n k)" if g: "g < ?n" "g = (h0 + t) mod ?n" for g
  proof -
    let ?ids = "filter P (take (Suc t) (scan_order h0 ?n))"
    have ids': "?ids = ids @ (if P g then [g] else [])"
      using less.prems g by (simp add: scan_order_snoc)
    have test: "slot_test kv c False 1 (g, t, ids) = Some (g + 1, t + 1, ?ids)"
      using use[OF g(1)] ids' by simp
    have unf: "slot_scan kv c False k 1 (g, t, ids) = (if length ?ids = k then Some (Some ?ids)
        else if t + 1 \<ge> ?n then Some None else slot_scan kv c False k 1 (g + 1, t + 1, ?ids))"
      by (subst slot_scan.simps) (use g test in \<open>simp del: slot_test.simps\<close>)
    show ?thesis
    proof (cases "length ?ids = k")
      case True
      then show ?thesis using unf first_free_prefix[OF True] by simp
    next
      case False
      then have lt: "length ?ids < k" using ids' less.prems(5) by (auto split: if_splits)
      show ?thesis
      proof (cases "t + 1 \<ge> ?n")
        case True
        then have "take (Suc t) (scan_order h0 ?n) = scan_order h0 ?n" by simp
        then show ?thesis using unf False lt True by (simp add: first_free_def)
      next
        case f2: False
        have "(g + 1) mod ?n = (h0 + (t + 1)) mod ?n" using g(2) by (simp add: mod_Suc_eq)
        then have "slot_scan kv c False k 1 (g + 1, t + 1, ?ids) = Some (first_free P h0 ?n k)"
          using less.hyps[of "t + 1" "g + 1" ?ids] f2 g(1) lt less.prems(1) by auto
        then show ?thesis using unf False f2 by simp
      qed
    qed
  qed
  show ?case
  proof (cases "h = ?n")
    case True
    have "0 = (h0 + t) mod ?n" using less.prems(3) True by simp
    then have "slot_scan kv c False k 1 (0, t, ids) = Some (first_free P h0 ?n k)"
      using inner[of 0] less.prems(1) by auto
    moreover have "slot_scan kv c False k 1 (h, t, ids) = slot_scan kv c False k 1 (0, t, ids)"
      by (subst slot_scan.simps) (use True less.prems(1) in auto)
    ultimately show ?thesis by simp
  next
    case False
    then show ?thesis using inner[of h] less.prems by simp
  qed
qed

subsection \<open>Contiguous slots\<close>

lemma slot_test_cont:
  assumes "\<And>i. i < cells_size c \<Longrightarrow> can_use_cell kv c i = Some (P i)"
  shows "h + n \<le> cells_size c \<Longrightarrow>
    (\<forall>i \<in> {h..<h + n}. P i) \<and> slot_test kv c True n (h, t, ids) = Some (h + n, t + n, ids @ [h..<h + n]) \<or>
    (\<exists>u. h \<le> u \<and> u < h + n \<and> \<not> P u \<and> slot_test kv c True n (h, t, ids) = Some (u + 1, t + (u + 1 - h), ids @ [h..<u]))"
proof (induction n arbitrary: h t ids)
  case 0
  then show ?case by simp
next
  case (Suc n)
  have u: "can_use_cell kv c h = Some (P h)" using assms Suc.prems by simp
  show ?case
  proof (cases "P h")
    case False
    then show ?thesis using u by (intro disjI2 exI[of _ h]) simp
  next
    case True
    have le: "h + 1 + n \<le> cells_size c" using Suc.prems by simp
    have st: "slot_test kv c True (Suc n) (h, t, ids) = slot_test kv c True n (h + 1, t + 1, ids @ [h])"
      using u True by simp
    have ap: "ids @ [h..<v] = (ids @ [h]) @ [h + 1..<v]" if "h < v" for v using that by (simp add: upt_conv_Cons)
    from Suc.IH[OF le, of "t + 1" "ids @ [h]"] show ?thesis
    proof (elim disjE conjE exE)
      assume a: "\<forall>i \<in> {h + 1..<h + 1 + n}. P i"
        "slot_test kv c True n (h + 1, t + 1, ids @ [h]) = Some (h + 1 + n, t + 1 + n, (ids @ [h]) @ [h + 1..<h + 1 + n])"
      have "\<forall>i \<in> {h..<h + Suc n}. P i" using a(1) True by (auto simp: Suc_le_eq le_eq_less_or_eq)
      then show ?thesis using a(2) st ap[of "h + Suc n"] by simp
    next
      fix v assume v: "h + 1 \<le> v" "v < h + 1 + n" "\<not> P v"
        "slot_test kv c True n (h + 1, t + 1, ids @ [h]) = Some (v + 1, t + 1 + (v + 1 - (h + 1)), (ids @ [h]) @ [h + 1..<v])"
      then show ?thesis using st ap[of v] by (intro disjI2 exI[of _ v]) auto
    qed
  qed
qed

definition free_run :: "(nat \<Rightarrow> bool) \<Rightarrow> nat \<Rightarrow> nat \<Rightarrow> nat \<Rightarrow> bool" where
  "free_run P n k i \<longleftrightarrow> i + k \<le> n \<and> (\<forall>j \<in> {i..<i + k}. P j)"

text \<open>No run starts in the part of the vector that the search has behind it.\<close>

definition scan_inv :: "(nat \<Rightarrow> bool) \<Rightarrow> nat \<Rightarrow> nat \<Rightarrow> nat \<Rightarrow> nat \<Rightarrow> nat \<Rightarrow> bool" where
  "scan_inv P n k h0 h t \<longleftrightarrow> h \<le> n \<and>
     (h0 \<le> h \<and> t = h - h0 \<and> (\<forall>i \<in> {h0..<h}. \<not> free_run P n k i) \<or>
      t = n - h0 + h \<and> (\<forall>i \<in> {h0..<n} \<union> {..<h}. \<not> free_run P n k i) \<or>
      (\<forall>i. \<not> free_run P n k i))"

lemma scan_inv_wrap:
  assumes "scan_inv P n k h0 h t" "n < h + k" "h0 \<le> n"
  shows "scan_inv P n k h0 0 (t + (n - h))"
proof -
  have no: "\<not> free_run P n k i" if "h \<le> i" for i using that assms(2) by (simp add: free_run_def)
  from assms(1) show ?thesis unfolding scan_inv_def
  proof (elim conjE disjE)
    assume a: "h \<le> n" "h0 \<le> h" "t = h - h0" "\<forall>i \<in> {h0..<h}. \<not> free_run P n k i"
    have "\<forall>i \<in> {h0..<n}. \<not> free_run P n k i" using a(4) no by (metis atLeastLessThan_iff not_le)
    then show "0 \<le> n \<and> (h0 \<le> 0 \<and> t + (n - h) = 0 - h0 \<and> (\<forall>i \<in> {h0..<0}. \<not> free_run P n k i) \<or>
      t + (n - h) = n - h0 + 0 \<and> (\<forall>i \<in> {h0..<n} \<union> {..<0}. \<not> free_run P n k i) \<or> (\<forall>i. \<not> free_run P n k i))"
      using a(1-3) by auto
  next
    assume a: "\<forall>i \<in> {h0..<n} \<union> {..<h}. \<not> free_run P n k i"
    have "\<forall>i. \<not> free_run P n k i" using a no by (metis UnI2 lessThan_iff not_le)
    then show "0 \<le> n \<and> (h0 \<le> 0 \<and> t + (n - h) = 0 - h0 \<and> (\<forall>i \<in> {h0..<0}. \<not> free_run P n k i) \<or>
      t + (n - h) = n - h0 + 0 \<and> (\<forall>i \<in> {h0..<n} \<union> {..<0}. \<not> free_run P n k i) \<or> (\<forall>i. \<not> free_run P n k i))" by blast
  qed auto
qed

lemma scan_inv_skip:
  assumes inv: "scan_inv P n k h0 h t" and u: "h \<le> u" "u < h + k" "h + k \<le> n" "\<not> P u"
  shows "scan_inv P n k h0 (u + 1) (t + (u + 1 - h))"
proof -
  have no: "\<not> free_run P n k i" if "h \<le> i" "i \<le> u" for i
  proof -
    have "u \<in> {i..<i + k}" using that u by auto
    then show ?thesis using u(4) by (auto simp: free_run_def)
  qed
  from inv show ?thesis unfolding scan_inv_def
  proof (elim conjE disjE)
    assume a: "h0 \<le> h" "t = h - h0" "\<forall>i \<in> {h0..<h}. \<not> free_run P n k i"
    then have "\<forall>i \<in> {h0..<u + 1}. \<not> free_run P n k i" using no by (metis Suc_eq_plus1 atLeastLessThan_iff less_Suc_eq_le not_le)
    then show "u + 1 \<le> n \<and> (h0 \<le> u + 1 \<and> t + (u + 1 - h) = u + 1 - h0 \<and> (\<forall>i \<in> {h0..<u + 1}. \<not> free_run P n k i) \<or>
      t + (u + 1 - h) = n - h0 + (u + 1) \<and> (\<forall>i \<in> {h0..<n} \<union> {..<u + 1}. \<not> free_run P n k i) \<or> (\<forall>i. \<not> free_run P n k i))"
      using a u by auto
  next
    assume a: "t = n - h0 + h" "\<forall>i \<in> {h0..<n} \<union> {..<h}. \<not> free_run P n k i"
    then have "\<forall>i \<in> {h0..<n} \<union> {..<u + 1}. \<not> free_run P n k i"
      using no by (metis Suc_eq_plus1 Un_iff lessThan_iff less_Suc_eq_le not_le)
    then show "u + 1 \<le> n \<and> (h0 \<le> u + 1 \<and> t + (u + 1 - h) = u + 1 - h0 \<and> (\<forall>i \<in> {h0..<u + 1}. \<not> free_run P n k i) \<or>
      t + (u + 1 - h) = n - h0 + (u + 1) \<and> (\<forall>i \<in> {h0..<n} \<union> {..<u + 1}. \<not> free_run P n k i) \<or> (\<forall>i. \<not> free_run P n k i))"
      using a(1) u by auto
  qed (use u in auto)
qed

lemma scan_inv_all:
  assumes "scan_inv P n k h0 h t" "n \<le> t" "h0 \<le> n" "0 < k"
  shows "\<not> free_run P n k i"
proof (cases "i < n")
  case True
  from assms(1) show ?thesis unfolding scan_inv_def
  proof (elim conjE disjE)
    assume a: "h \<le> n" "h0 \<le> h" "t = h - h0" "\<forall>i \<in> {h0..<h}. \<not> free_run P n k i"
    then have "h0 = 0" "h = n" using assms(2) True by linarith+
    then show ?thesis using a(4) True by simp
  next
    assume a: "t = n - h0 + h" "\<forall>i \<in> {h0..<n} \<union> {..<h}. \<not> free_run P n k i"
    then have "h0 \<le> h" using assms(2,3) by linarith
    then show ?thesis using a(2) True by (metis Un_iff atLeastLessThan_iff lessThan_iff not_le order.strict_trans1 less_le_trans)
  qed auto
next
  case False
  then show ?thesis using assms(4) by (simp add: free_run_def)
qed

lemma slot_scan_cont:
  assumes use: "\<And>i. i < cells_size c \<Longrightarrow> can_use_cell kv c i = Some (P i)" and k: "0 < k" "k \<le> cells_size c" and h0: "h0 \<le> cells_size c"
  shows "scan_inv P (cells_size c) k h0 h t \<Longrightarrow>
    (\<exists>i. slot_scan kv c True k k (h, t, []) = Some (Some [i..<i + k]) \<and> free_run P (cells_size c) k i) \<or>
    slot_scan kv c True k k (h, t, []) = Some None \<and> (\<forall>i. \<not> free_run P (cells_size c) k i)"
proof (induction "(cells_size c - t, if cells_size c < h + k then 1 else (0::nat))" arbitrary: h t
    rule: wf_induct_rule[OF wf_lex_prod[OF wf_less_than wf_less_than]])
  case 1
  let ?n = "cells_size c"
  note inv = 1(2)
  have IH: "(\<exists>i. slot_scan kv c True k k (h', t', []) = Some (Some [i..<i + k]) \<and> free_run P ?n k i) \<or>
      slot_scan kv c True k k (h', t', []) = Some None \<and> (\<forall>i. \<not> free_run P ?n k i)"
    if "scan_inv P ?n k h0 h' t'" "?n - t' < ?n - t \<or> ?n - t' = ?n - t \<and> ?n < h + k \<and> \<not> ?n < h' + k" for h' t'
    using 1(1)[of t' h'] that by auto
  have hn: "h \<le> ?n" using inv by (simp add: scan_inv_def)
  show ?case
  proof (cases "?n < h + k")
    case True
    have "slot_scan kv c True k k (h, t, []) = slot_scan kv c True k k (0, t + (?n - h), [])"
      by (subst slot_scan.simps) (use True k hn in auto)
    moreover have "?n - (t + (?n - h)) < ?n - t \<or> ?n - (t + (?n - h)) = ?n - t \<and> ?n < h + k \<and> \<not> ?n < 0 + k"
      using True k by linarith
    ultimately show ?thesis using IH[OF scan_inv_wrap[OF inv True h0]] by simp
  next
    case False
    from slot_test_cont[of c kv P h k t "[]", OF use] False
    consider "\<forall>i \<in> {h..<h + k}. P i" "slot_test kv c True k (h, t, []) = Some (h + k, t + k, [h..<h + k])"
      | u where "h \<le> u" "u < h + k" "\<not> P u" "slot_test kv c True k (h, t, []) = Some (u + 1, t + (u + 1 - h), [h..<u])"
      by auto
    then show ?thesis
    proof cases
      case 1
      have "slot_scan kv c True k k (h, t, []) = Some (Some [h..<h + k])"
        by (subst slot_scan.simps) (use 1 False k hn in simp)
      moreover have "free_run P ?n k h" using 1(1) False by (simp add: free_run_def)
      ultimately show ?thesis by blast
    next
      case 2
      let ?t = "t + (u + 1 - h)"
      have inv': "scan_inv P ?n k h0 (u + 1) ?t" by (rule scan_inv_skip[OF inv]) (use 2 False in auto)
      have unf: "slot_scan kv c True k k (h, t, []) = (if ?n \<le> ?t then Some None else slot_scan kv c True k k (u + 1, ?t, []))"
      proof -
        have "length [h..<u] \<noteq> k" using 2(1,2) by simp
        then show ?thesis by (subst slot_scan.simps) (use 2(4) False k hn in \<open>simp del: length_upt\<close>)
      qed
      show ?thesis
      proof (cases "?n \<le> ?t")
        case True
        then show ?thesis using unf scan_inv_all[OF inv' True h0 k(1)] by simp
      next
        case nt: False
        then have "?n - ?t < ?n - t" using 2(1) by linarith
        from IH[OF inv' disjI1[OF this]] show ?thesis unfolding unf using nt by presburger
      qed
    qed
  qed
qed

subsection \<open>The search of one stream\<close>

abbreviation stream_cells :: "kv_cache \<Rightarrow> nat \<Rightarrow> acell list" where
  "stream_cells kv s \<equiv> cells_abs (kv_v_cells kv ! s)"

definition usable_at :: "kv_cache \<Rightarrow> nat \<Rightarrow> nat \<Rightarrow> bool" where
  "usable_at kv s i \<longleftrightarrow> usable kv (stream_cells kv s) (stream_cells kv s ! i)"

text \<open>The search starts at the head, or at 0 when the head is far beyond what is used.\<close>

definition slot_start :: "kv_cache \<Rightarrow> nat \<Rightarrow> nat \<Rightarrow> nat" where
  "slot_start kv k s = (if kv_v_heads kv ! s > cells_get_used (kv_v_cells kv ! s) + 2 * k then 0 else kv_v_heads kv ! s)"

definition find_ok :: "kv_cache \<Rightarrow> bool" where
  "find_ok kv \<longleftrightarrow> kv_wf kv \<and> swa_ok kv \<and> (\<forall>s < kv_n_stream kv. pos_room (stream_cells kv s))"

lemma find_okD:
  assumes "find_ok kv" "s < kv_n_stream kv"
  shows "s < length (kv_v_cells kv)" "s < length (kv_v_heads kv)" "cells_size (kv_v_cells kv ! s) = kv_capacity kv"
    "slot_start kv k s \<le> kv_capacity kv" "i < kv_capacity kv \<Longrightarrow> can_use_cell kv (kv_v_cells kv ! s) i = Some (usable_at kv s i)"
proof -
  obtain hs xs where c: "kv_v_cells kv ! s = cells_of hs xs" "acells_full xs" "length xs = kv_capacity kv"
      "s < length (kv_v_cells kv)" "s < length (kv_v_heads kv)" "kv_v_heads kv ! s \<le> kv_capacity kv"
    using kv_wfD[of kv s] assms unfolding find_ok_def by metis
  then show "s < length (kv_v_cells kv)" "s < length (kv_v_heads kv)" "cells_size (kv_v_cells kv ! s) = kv_capacity kv"
    "slot_start kv k s \<le> kv_capacity kv" by (auto simp: slot_start_def)
  have "swa_ok kv" "pos_room xs" using assms c(1) by (auto simp: find_ok_def)
  then show "can_use_cell kv (kv_v_cells kv ! s) i = Some (usable_at kv s i)" if "i < kv_capacity kv"
    using can_use_cell_of[of i xs kv hs] c that by (simp add: usable_at_def)
qed

lemma first_free_too_many: "n < k \<Longrightarrow> first_free P h n k = None"
  using length_filter_le[of P "scan_order h n"] by (auto simp: first_free_def Let_def)

lemma find_slot_stream_single:
  assumes ok: "find_ok kv" "s < kv_n_stream kv" and k: "0 < k"
  shows "find_slot_stream kv False k s = Some (first_free (usable_at kv s) (slot_start kv k s) (kv_capacity kv) k)"
proof (cases "kv_capacity kv < k")
  case True
  then show ?thesis using find_okD[OF ok] by (simp add: find_slot_stream_def first_free_too_many)
next
  case False
  let ?c = "kv_v_cells kv ! s"
  have "slot_scan kv ?c False k 1 (slot_start kv k s, 0, []) = Some (first_free (usable_at kv s) (slot_start kv k s) (cells_size ?c) k)"
    by (rule slot_scan_single) (use find_okD[OF ok] False k in auto)
  then show ?thesis using False find_okD[OF ok] by (simp add: find_slot_stream_def slot_start_def)
qed

lemma find_slot_stream_cont:
  assumes ok: "find_ok kv" "s < kv_n_stream kv" and k: "0 < k"
  shows "(\<exists>i. find_slot_stream kv True k s = Some (Some [i..<i + k]) \<and> free_run (usable_at kv s) (kv_capacity kv) k i) \<or>
    find_slot_stream kv True k s = Some None \<and> (\<forall>i. \<not> free_run (usable_at kv s) (kv_capacity kv) k i)"
proof (cases "kv_capacity kv < k")
  case True
  then show ?thesis using find_okD[OF ok] by (auto simp: find_slot_stream_def free_run_def)
next
  case False
  let ?c = "kv_v_cells kv ! s"
  have "(\<exists>i. slot_scan kv ?c True k k (slot_start kv k s, 0, []) = Some (Some [i..<i + k]) \<and> free_run (usable_at kv s) (cells_size ?c) k i) \<or>
    slot_scan kv ?c True k k (slot_start kv k s, 0, []) = Some None \<and> (\<forall>i. \<not> free_run (usable_at kv s) (cells_size ?c) k i)"
    by (rule slot_scan_cont[where ?h0.0 = "slot_start kv k s"]) (use find_okD[OF ok] False k in \<open>auto simp: scan_inv_def\<close>)
  then show ?thesis using False find_okD[OF ok] by (simp add: find_slot_stream_def slot_start_def)
qed

lemma first_free_sound:
  assumes "first_free P h n k = Some ids"
  shows "length ids = k" "distinct ids" "\<forall>i \<in> set ids. i < n \<and> P i"
proof -
  have ids: "ids = take k (filter P (scan_order h n))" "k \<le> length (filter P (scan_order h n))"
    using assms by (auto simp: first_free_def Let_def split: if_splits)
  then show "length ids = k" "distinct ids" by simp_all
  show "\<forall>i \<in> set ids. i < n \<and> P i" unfolding ids(1) by (auto dest!: in_set_takeD)
qed

lemma first_free_None_iff: "first_free P h n k = None \<longleftrightarrow> card {i. i < n \<and> P i} < k"
proof -
  have "length (filter P (scan_order h n)) = card (set (filter P (scan_order h n)))"
    by (rule distinct_card[symmetric]) simp
  also have "set (filter P (scan_order h n)) = {i. i < n \<and> P i}" by auto
  finally show ?thesis by (auto simp: first_free_def Let_def)
qed

subsection \<open>The search for a micro-batch\<close>

text \<open>The streams of a micro-batch: one for each of its sequences, or the only one.\<close>

definition ub_n_parts :: "kv_cache \<Rightarrow> llama_ubatch \<Rightarrow> nat" where
  "ub_n_parts kv ub = (if kv_n_stream kv > 1 then ub_n_seqs_unq ub else 1)"

definition ub_stream :: "kv_cache \<Rightarrow> llama_ubatch \<Rightarrow> nat \<Rightarrow> nat" where
  "ub_stream kv ub s = stream_of kv (nat (ub_seq_id_unq ub ! s))"

text \<open>A micro-batch that the cache can take: as the splitters make them for it, with sequences it knows.\<close>

definition ub_shape :: "kv_cache \<Rightarrow> llama_ubatch \<Rightarrow> nat \<Rightarrow> bool" where
  "ub_shape kv ub n \<longleftrightarrow> 0 < n \<and> 0 < ub_n_parts kv ub \<and> ub_n_tokens ub = ub_n_parts kv ub * n \<and>
     (\<forall>s < ub_n_parts kv ub. s < length (ub_seq_id_unq ub) \<and> 0 \<le> ub_seq_id_unq ub ! s \<and> has_seq kv (nat (ub_seq_id_unq ub ! s)) \<and>
       (kv_n_stream kv > 1 \<longrightarrow> s * n < length (ub_n_seq_id ub) \<and> ub_n_seq_id ub ! (s * n) = 1 \<and>
          s * n < length (ub_seq_id ub) \<and> ub_seq_id ub ! (s * n) \<noteq> [] \<and> ub_seq_id ub ! (s * n) ! 0 = ub_seq_id_unq ub ! s))"

lemma ub_stream_less:
  assumes "kv_wf kv" "ub_shape kv ub n" "s < ub_n_parts kv ub"
  shows "ub_stream kv ub s < kv_n_stream kv" "nat (ub_seq_id_unq ub ! s) < length (kv_seq_to_stream kv)"
    "kv_seq_to_stream kv ! nat (ub_seq_id_unq ub ! s) = ub_stream kv ub s"
  using assms kv_stream_ok[OF assms(1), of "nat (ub_seq_id_unq ub ! s)"] by (auto simp: ub_shape_def ub_stream_def)

lemma find_slot_loop_spec:
  assumes wf: "kv_wf kv" and ub: "ub_shape kv ub n"
    and R: "\<And>s. s < ub_n_parts kv ub \<Longrightarrow> find_slot_stream kv cont n (ub_stream kv ub s) = Some (R s)"
  shows "m \<le> ub_n_parts kv ub \<Longrightarrow> length (si_strm res) = ub_n_parts kv ub \<Longrightarrow> length (si_idxs res) = ub_n_parts kv ub \<Longrightarrow>
    m < ub_n_parts kv ub \<or> si_s0 res \<le> si_s1 res \<Longrightarrow>
    \<exists>si. find_slot_loop kv cont ub n [m..<ub_n_parts kv ub] res = Some si \<and>
      (if \<exists>s. m \<le> s \<and> s < ub_n_parts kv ub \<and> R s = None then si = no_slot
       else si_strm si = take m (si_strm res) @ map (ub_stream kv ub) [m..<ub_n_parts kv ub] \<and>
         si_idxs si = take m (si_idxs res) @ map (\<lambda>s. the (R s)) [m..<ub_n_parts kv ub])"
proof (induction "ub_n_parts kv ub - m" arbitrary: m res)
  case 0
  then show ?case by (auto simp: no_slot_def)
next
  case (Suc d)
  let ?N = "ub_n_parts kv ub" and ?st = "ub_stream kv ub m"
  have m: "m < ?N" using Suc.hyps(2) by simp
  have upt: "[m..<?N] = m # [Suc m..<?N]" using m by (simp add: upt_conv_Cons)
  have u: "m < length (ub_seq_id_unq ub)" "0 \<le> ub_seq_id_unq ub ! m"
    using ub m by (auto simp: ub_shape_def)
  have chk: "kv_n_stream kv > 1 \<Longrightarrow> m * n < length (ub_n_seq_id ub) \<and> ub_n_seq_id ub ! (m * n) = 1 \<and>
          m * n < length (ub_seq_id ub) \<and> ub_seq_id ub ! (m * n) \<noteq> [] \<and> ub_seq_id ub ! (m * n) ! 0 = ub_seq_id_unq ub ! m"
    using ub m by (auto simp: ub_shape_def)
  let ?res = "\<lambda>idxs. res\<lparr>si_s0 := min (si_s0 res) ?st, si_s1 := max (si_s1 res) ?st,
               si_strm := (si_strm res)[m := ?st], si_idxs := (si_idxs res)[m := idxs]\<rparr>"
  have step: "find_slot_loop kv cont ub n [m..<?N] res =
      (case R m of None \<Rightarrow> Some no_slot | Some idxs \<Rightarrow> find_slot_loop kv cont ub n [Suc m..<?N] (?res idxs))"
    unfolding upt using u chk ub_stream_less[OF wf ub m] R[OF m] by auto
  show ?case
  proof (cases "R m")
    case None
    then show ?thesis using step m by auto
  next
    case (Some idxs)
    obtain si where si: "find_slot_loop kv cont ub n [Suc m..<?N] (?res idxs) = Some si"
      "if \<exists>s. Suc m \<le> s \<and> s < ?N \<and> R s = None then si = no_slot
       else si_strm si = take (Suc m) (si_strm (?res idxs)) @ map (ub_stream kv ub) [Suc m..<?N] \<and>
         si_idxs si = take (Suc m) (si_idxs (?res idxs)) @ map (\<lambda>s. the (R s)) [Suc m..<?N]"
    proof -
      have pre: "d = ?N - Suc m" "Suc m \<le> ?N" "length (si_strm (?res idxs)) = ?N" "length (si_idxs (?res idxs)) = ?N"
        "Suc m < ?N \<or> si_s0 (?res idxs) \<le> si_s1 (?res idxs)"
        using Suc.hyps(2) Suc.prems m by auto
      from Suc.hyps(1)[OF pre] that show ?thesis by blast
    qed
    have ex: "(\<exists>s. m \<le> s \<and> s < ?N \<and> R s = None) \<longleftrightarrow> (\<exists>s. Suc m \<le> s \<and> s < ?N \<and> R s = None)"
      using Some by (metis Suc_le_eq le_eq_less_or_eq option.distinct(1) Suc_leD)
    show ?thesis
      using si step Some Suc.prems(2,3) m
      by (intro exI[of _ si]) (simp add: ex upt take_Suc_conv_app_nth split: if_splits)
  qed
qed

lemma kv_find_slot_spec:
  assumes wf: "kv_wf kv" and ub: "ub_shape kv ub n"
    and R: "\<And>s. s < ub_n_parts kv ub \<Longrightarrow> find_slot_stream kv cont n (ub_stream kv ub s) = Some (R s)"
  shows "\<exists>si. kv_find_slot ub cont kv = Some si \<and>
      (if \<exists>s < ub_n_parts kv ub. R s = None then si = no_slot
       else si_strm si = map (ub_stream kv ub) [0..<ub_n_parts kv ub] \<and> si_idxs si = map (\<lambda>s. the (R s)) [0..<ub_n_parts kv ub])"
proof -
  let ?N = "ub_n_parts kv ub"
  have N: "0 < ?N" "0 < n" using ub by (auto simp: ub_shape_def)
  let ?r = "\<lparr>si_s0 = LLAMA_MAX_SEQ, si_s1 = 0, si_strm = replicate ?N 0, si_idxs = replicate ?N []\<rparr>"
  have "kv_find_slot ub cont kv = find_slot_loop kv cont ub n [0..<?N] ?r"
    using ub N unfolding kv_find_slot_def ub_shape_def ub_n_parts_def by auto
  moreover have "\<exists>si. find_slot_loop kv cont ub n [0..<?N] ?r = Some si \<and>
      (if \<exists>s. 0 \<le> s \<and> s < ?N \<and> R s = None then si = no_slot
       else si_strm si = take 0 (si_strm ?r) @ map (ub_stream kv ub) [0..<?N] \<and> si_idxs si = take 0 (si_idxs ?r) @ map (\<lambda>s. the (R s)) [0..<?N])"
    by (rule find_slot_loop_spec[OF wf ub R]) (use N in auto)
  ultimately show ?thesis by (simp only: zero_le simp_thms take_0 append_Nil)
qed

text \<open>What a slot that was found looks like, for either kind of search.\<close>

definition slot_valid :: "kv_cache \<Rightarrow> llama_ubatch \<Rightarrow> nat \<Rightarrow> slot_info \<Rightarrow> bool" where
  "slot_valid kv ub n si \<longleftrightarrow> si_strm si = map (ub_stream kv ub) [0..<ub_n_parts kv ub] \<and> length (si_idxs si) = ub_n_parts kv ub \<and>
     (\<forall>s < ub_n_parts kv ub. length (si_idxs si ! s) = n \<and> distinct (si_idxs si ! s) \<and>
        (\<forall>i \<in> set (si_idxs si ! s). i < kv_capacity kv \<and> usable_at kv (ub_stream kv ub s) i))"

lemma slot_valid_nonempty: "slot_valid kv ub n si \<Longrightarrow> 0 < ub_n_parts kv ub \<Longrightarrow> \<not> si_empty si"
  by (auto simp: slot_valid_def si_empty_def)

text \<open>A cell with a micro-batch of one token of sequence 0, for the concrete inputs below.\<close>

definition one_token_ubatch :: "int \<Rightarrow> int \<Rightarrow> llama_ubatch" where
  "one_token_ubatch q p = \<lparr>ub_equal_seqs = True, ub_n_tokens = 1, ub_n_seq_tokens = 1, ub_n_seqs = 1, ub_n_seqs_unq = 1,
     ub_token = Some [5], ub_embd = None, ub_pos = [p], ub_n_seq_id = [1], ub_seq_id = [[q]], ub_seq_id_unq = [q],
     ub_seq_idx = [0], ub_output = [1]\<rparr>"

lemma demo_find_ok: "find_ok demo_cache" "kv_capacity demo_cache = 4" "kv_swa_type demo_cache = SWA_NONE"
  by (simp_all add: find_ok_def demo_cache_wf pos_room_def) (simp_all add: demo_cache_def swa_ok_def kv_capacity_def)

lemma demo_ub_shape: "ub_shape demo_cache (one_token_ubatch 0 p) 1" "ub_n_parts demo_cache (one_token_ubatch 0 p) = 1"
  "ub_stream demo_cache (one_token_ubatch 0 p) 0 = 0"
  by (simp_all add: ub_shape_def ub_n_parts_def demo_cache_wf one_token_ubatch_def ub_stream_def)

lemma demo_usable: "usable_at demo_cache 0 i \<longleftrightarrow> i = 3" if "i < 4"
  using that by (auto simp: usable_at_def usable_empty_only demo_find_ok demo_cache_wf less_Suc_eq numeral_eq_Suc)

lemma find_slot_ok:
  assumes kv: "find_ok kv" and ub: "ub_shape kv ub n"
  shows "\<exists>si. kv_find_slot ub False kv = Some si \<and>
    (si_empty si \<longleftrightarrow> (\<exists>s < ub_n_parts kv ub. card {i. i < kv_capacity kv \<and> usable_at kv (ub_stream kv ub s) i} < n)) \<and>
    (\<not> si_empty si \<longrightarrow> slot_valid kv ub n si)"
proof -
  have wf: "kv_wf kv" using kv by (simp add: find_ok_def)
  have n: "0 < n" "0 < ub_n_parts kv ub" using ub by (auto simp: ub_shape_def)
  define R where "R s = first_free (usable_at kv (ub_stream kv ub s)) (slot_start kv n (ub_stream kv ub s)) (kv_capacity kv) n" for s
  have R: "find_slot_stream kv False n (ub_stream kv ub s) = Some (R s)" if "s < ub_n_parts kv ub" for s
    unfolding R_def using find_slot_stream_single[OF kv ub_stream_less(1)[OF wf ub that] n(1)] .
  obtain si where si: "kv_find_slot ub False kv = Some si" "if \<exists>s < ub_n_parts kv ub. R s = None then si = no_slot
       else si_strm si = map (ub_stream kv ub) [0..<ub_n_parts kv ub] \<and> si_idxs si = map (\<lambda>s. the (R s)) [0..<ub_n_parts kv ub]"
    using kv_find_slot_spec[OF wf ub R] by blast
  have none: "R s = None \<longleftrightarrow> card {i. i < kv_capacity kv \<and> usable_at kv (ub_stream kv ub s) i} < n" for s
    by (simp add: R_def first_free_None_iff)
  show ?thesis
  proof (cases "\<exists>s < ub_n_parts kv ub. R s = None")
    case True
    then show ?thesis using si none by (auto simp: si_empty_def no_slot_def)
  next
    case False
    have "length (the (R s)) = n \<and> distinct (the (R s)) \<and> (\<forall>i \<in> set (the (R s)). i < kv_capacity kv \<and> usable_at kv (ub_stream kv ub s) i)"
      if "s < ub_n_parts kv ub" for s
    proof -
      obtain ids where ids: "R s = Some ids" using False \<open>s < ub_n_parts kv ub\<close> by fastforce
      show ?thesis using first_free_sound[OF ids[unfolded R_def]] ids by simp
    qed
    then have "slot_valid kv ub n si" using si False by (simp add: slot_valid_def)
    then show ?thesis using si(1) False none slot_valid_nonempty[OF _ n(2)] by auto
  qed
qed

subsection \<open>Properties\<close>

text \<open>
  C15. The slot search of \<^verbatim>\<open>prepare\<close> (not contiguous) always returns. It fails exactly when the stream of some
  sequence of the micro-batch has fewer usable cells (empty, or masked by the sliding window for the only
  owner) than tokens to place; otherwise it gives each stream as many distinct usable cells as it needs.
\<close>

theorem find_slot_complete:
  assumes kv: "find_ok kv" and ub: "ub_shape kv ub n"
  shows "\<exists>si. kv_find_slot ub False kv = Some si \<and>
    (si_empty si \<longleftrightarrow> (\<exists>s < ub_n_parts kv ub. card {i. i < kv_capacity kv \<and> usable_at kv (ub_stream kv ub s) i} < n)) \<and>
    (\<not> si_empty si \<longrightarrow> slot_valid kv ub n si)"
  using find_slot_ok[OF assms] .


theorem find_slot_complete_witness:
  "\<exists>si. kv_find_slot (one_token_ubatch 0 2) False demo_cache = Some si \<and> si_idxs si = [[3]]"
proof -
  obtain si where si: "kv_find_slot (one_token_ubatch 0 2) False demo_cache = Some si" "slot_valid demo_cache (one_token_ubatch 0 2) 1 si"
  proof -
    have "usable_at demo_cache 0 3" using demo_usable[of 3] by simp
    then show ?thesis
      using find_slot_complete[OF demo_find_ok(1) demo_ub_shape(1), of 2] that by (fastforce simp: demo_ub_shape demo_find_ok)
  qed
  then obtain i where i: "si_idxs si = [[i]]" "i < 4" "usable_at demo_cache 0 i"
    by (auto simp: slot_valid_def demo_ub_shape demo_find_ok length_Suc_conv)
  then show ?thesis using si(1) demo_usable[OF i(2)] by simp
qed

text \<open>
  The contiguous search (used when a saved sequence is restored) always returns. It fails exactly when
  some stream of the micro-batch has no run of as many neighbouring usable cells as there are tokens to
  place, wherever its head stands; otherwise it gives each stream such a run.
\<close>

theorem find_slot_cont_complete:
  assumes kv: "find_ok kv" and ub: "ub_shape kv ub n"
  shows "\<exists>si. kv_find_slot ub True kv = Some si \<and>
    (si_empty si \<longleftrightarrow> (\<exists>s < ub_n_parts kv ub. \<forall>i. \<not> free_run (usable_at kv (ub_stream kv ub s)) (kv_capacity kv) n i)) \<and>
    (\<not> si_empty si \<longrightarrow> slot_valid kv ub n si \<and> (\<forall>s < ub_n_parts kv ub. \<exists>i. si_idxs si ! s = [i..<i + n]))"
proof -
  have wf: "kv_wf kv" using kv by (simp add: find_ok_def)
  have n: "0 < n" "0 < ub_n_parts kv ub" using ub by (auto simp: ub_shape_def)
  let ?run = "\<lambda>s. free_run (usable_at kv (ub_stream kv ub s)) (kv_capacity kv) n"
  have "\<exists>r. find_slot_stream kv True n (ub_stream kv ub s) = Some r \<and>
      (r = None \<longleftrightarrow> (\<forall>i. \<not> ?run s i)) \<and> (\<forall>ids. r = Some ids \<longrightarrow> (\<exists>i. ids = [i..<i + n] \<and> ?run s i))" if "s < ub_n_parts kv ub" for s
    using find_slot_stream_cont[OF kv ub_stream_less(1)[OF wf ub that] n(1)] by auto
  then obtain R where R: "\<And>s. s < ub_n_parts kv ub \<Longrightarrow> find_slot_stream kv True n (ub_stream kv ub s) = Some (R s)"
      "\<And>s. s < ub_n_parts kv ub \<Longrightarrow> R s = None \<longleftrightarrow> (\<forall>i. \<not> ?run s i)"
      "\<And>s ids. s < ub_n_parts kv ub \<Longrightarrow> R s = Some ids \<Longrightarrow> \<exists>i. ids = [i..<i + n] \<and> ?run s i"
    by metis
  obtain si where si: "kv_find_slot ub True kv = Some si" "if \<exists>s < ub_n_parts kv ub. R s = None then si = no_slot
       else si_strm si = map (ub_stream kv ub) [0..<ub_n_parts kv ub] \<and> si_idxs si = map (\<lambda>s. the (R s)) [0..<ub_n_parts kv ub]"
    using kv_find_slot_spec[OF wf ub R(1)] by blast
  show ?thesis
  proof (cases "\<exists>s < ub_n_parts kv ub. R s = None")
    case True
    then have "si_empty si" using si(2) by (simp add: si_empty_def no_slot_def)
    then show ?thesis using si(1) R(2) True by blast
  next
    case False
    have run: "\<exists>i. si_idxs si ! s = [i..<i + n] \<and> ?run s i" if "s < ub_n_parts kv ub" for s
    proof -
      obtain ids where ids: "R s = Some ids" using False \<open>s < ub_n_parts kv ub\<close> by fastforce
      then show ?thesis using R(3)[OF that ids] si(2) False that by auto
    qed
    have "length (si_idxs si ! s) = n \<and> distinct (si_idxs si ! s) \<and>
        (\<forall>i \<in> set (si_idxs si ! s). i < kv_capacity kv \<and> usable_at kv (ub_stream kv ub s) i)" if "s < ub_n_parts kv ub" for s
      using run[OF that] by (auto simp: free_run_def)
    then have "slot_valid kv ub n si" using si False unfolding slot_valid_def by auto
    then show ?thesis using si(1) False R(2) run slot_valid_nonempty[OF _ n(2)] by blast
  qed
qed

theorem find_slot_cont_complete_witness:
  "\<exists>si. kv_find_slot (one_token_ubatch 0 2) True demo_cache = Some si \<and> \<not> si_empty si"
proof -
  have "free_run (usable_at demo_cache 0) 4 1 3" using demo_usable by (auto simp: free_run_def)
  then show ?thesis
    using find_slot_cont_complete[OF demo_find_ok(1) demo_ub_shape(1), of 2] by (auto simp: demo_ub_shape demo_find_ok)
qed

end
