(* ===== verification/KV_Apply.thy ===== *)
theory KV_Apply
  imports KV_Slots
begin

text \<open>
  Placing a micro-batch in its slot (\<^verbatim>\<open>apply_ubatch\<close>) and the dry run of \<^verbatim>\<open>prepare\<close>. A token becomes a cell
  with its position and its sequences; what the sliding window lets it overwrite, and everything of the
  same sequence before that, leaves the cache.
\<close>

subsection \<open>One token\<close>

definition ub_row :: "llama_ubatch \<Rightarrow> nat \<Rightarrow> int list" where
  "ub_row ub i = take (nat (ub_n_seq_id ub ! i)) (ub_seq_id ub ! i)"

definition ub_cell :: "llama_ubatch \<Rightarrow> nat \<Rightarrow> acell" where
  "ub_cell ub i = ACell (ub_pos ub ! i) (nat ` set (ub_row ub i)) 0"

definition ub_tok_ok :: "llama_ubatch \<Rightarrow> nat \<Rightarrow> bool" where
  "ub_tok_ok ub i \<longleftrightarrow> i < length (ub_pos ub) \<and> i < length (ub_n_seq_id ub) \<and> i < length (ub_seq_id ub) \<and>
     0 \<le> ub_pos ub ! i \<and> ub_pos ub ! i < INT32_MAX \<and> 0 < ub_n_seq_id ub ! i \<and>
     nat (ub_n_seq_id ub ! i) \<le> length (ub_seq_id ub ! i) \<and>
     distinct (ub_row ub i) \<and> (\<forall>q \<in> set (ub_row ub i). 0 \<le> q \<and> q < int LLAMA_MAX_SEQ)"

lemma ub_cell_full: "ub_tok_ok ub i \<Longrightarrow> acell_full (ub_cell ub i)"
  by (auto simp: ub_tok_ok_def ub_cell_def acell_full_def acell_ok_def i32_ok_def ub_row_def)

text \<open>What overwriting a cell adds to \<^verbatim>\<open>seq_pos_max_rm\<close>.\<close>

definition note_overwrite :: "acell \<Rightarrow> (nat \<Rightarrow> int) \<Rightarrow> nat \<Rightarrow> int" where
  "note_overwrite x rm q = (if q \<in> a_seq x then max (rm q) (a_pos x) else rm q)"

definition vacant :: "acell \<Rightarrow> bool" where
  "vacant x \<longleftrightarrow> a_pos x = -1 \<or> (\<exists>q. a_seq x = {q})"

lemma apply_seq_ids:
  assumes idx: "idx < length xs" and full: "acells_full xs" and ok: "ub_tok_ok ub i"
  shows "for_each (\<lambda>s c. do {
         row \<leftarrow> vec_at (ub_seq_id ub) i;
         sid \<leftarrow> vec_at row s;
         cpp_assert (0 \<le> sid);
         cells_seq_add idx (nat sid) c }) [0..<nat (ub_n_seq_id ub ! i)] (cells_of hs (xs[idx := ACell (ub_pos ub ! i) {} 0]))
    = Some (cells_of hs (xs[idx := ub_cell ub i]))"
proof -
  let ?n = "nat (ub_n_seq_id ub ! i)" and ?row = "ub_seq_id ub ! i" and ?p = "ub_pos ub ! i"
  let ?c = "\<lambda>m. ACell ?p (nat ` set (take m ?row)) 0"
  let ?f = "\<lambda>s c. do { row \<leftarrow> vec_at (ub_seq_id ub) i; sid \<leftarrow> vec_at row s; cpp_assert (0 \<le> sid); cells_seq_add idx (nat sid) c }"
  have "\<exists>u. for_each ?f [0..<?n] (cells_of hs (xs[idx := ACell ?p {} 0])) = Some u \<and> u = cells_of hs (xs[idx := ?c ?n])"
  proof (rule for_each_upto_total)
    show "cells_of hs (xs[idx := ACell ?p {} 0]) = cells_of hs (xs[idx := ?c 0])" by simp
  next
    fix m u assume m: "m < ?n" and u: "u = cells_of hs (xs[idx := ?c m])"
    have m': "m < length ?row" using m ok by (simp add: ub_tok_ok_def)
    have row: "ub_row ub i ! m = ?row ! m" "m < length (ub_row ub i)" using m ok by (auto simp: ub_row_def ub_tok_ok_def)
    then have in_row: "?row ! m \<in> set (ub_row ub i)" by (metis nth_mem)
    have q: "0 \<le> ?row ! m" "nat (?row ! m) < LLAMA_MAX_SEQ" using ok in_row by (auto simp: ub_tok_ok_def)
    have sub: "set (take m ?row) \<subseteq> set (ub_row ub i)" 
      using set_take_subset_set_take[of m ?n ?row] m by (simp add: ub_row_def)
    have new: "nat (?row ! m) \<notin> nat ` set (take m ?row)"
    proof
      assume "nat (?row ! m) \<in> nat ` set (take m ?row)"
      then obtain r where r: "r \<in> set (take m ?row)" "nat (?row ! m) = nat r" by auto
      have "0 \<le> r" using r(1) sub ok by (auto simp: ub_tok_ok_def)
      then have "?row ! m = r" using r(2) q(1) by simp
      moreover have "distinct (take (Suc m) ?row)"
      proof -
        have "take (Suc m) ?row = take (Suc m) (ub_row ub i)" using m by (simp add: ub_row_def min_def)
        then show ?thesis using ok by (simp add: ub_tok_ok_def distinct_take)
      qed
      ultimately show False using r(1) m' by (simp add: take_Suc_conv_app_nth)
    qed
    have "nat ` set (take m ?row) \<subseteq> {..<LLAMA_MAX_SEQ}" using sub ok by (force simp: ub_tok_ok_def)
    then have "acell_ok (?c m)" using ok by (auto simp: acell_ok_def ub_tok_ok_def i32_ok_def)
    then have oks: "acells_ok (xs[idx := ?c m])" using set_list_update_subset_P[OF acells_full_ok[OF full]] by blast
    have "cells_seq_add idx (nat (?row ! m)) (cells_of hs (xs[idx := ?c m])) = Some (cells_of hs (xs[idx := ?c (Suc m)]))"
      using cells_seq_add_of[of idx "xs[idx := ?c m]" "nat (?row ! m)" hs] oks idx q(2) new ok m'
      by (simp add: acell_add_def take_Suc_conv_app_nth ub_tok_ok_def)
    then show "\<exists>v. ?f m u = Some v \<and> v = cells_of hs (xs[idx := ?c (Suc m)])"
      using u ok q(1) m' by (simp add: ub_tok_ok_def)
  qed
  then show ?thesis by (simp add: ub_cell_def ub_row_def)
qed

lemma apply_token_ok:
  assumes idx: "idx < length xs" and full: "acells_full xs" and v: "vacant (xs ! idx)" and ok: "ub_tok_ok ub i"
  shows "apply_token ub i idx (cells_of hs xs, rm) = Some (cells_of hs (xs[idx := ub_cell ub i]), note_overwrite (xs ! idx) rm)"
proof -
  let ?x = "xs ! idx" and ?p = "ub_pos ub ! i"
  have x: "acell_full ?x" using full idx by simp
  have e: "cells_is_empty idx (cells_of hs xs) = Some (a_pos ?x = -1)" by (rule cells_is_empty_of[OF idx acells_full_ok[OF full]])
  have p: "?p \<noteq> -1" "vec_at (ub_pos ub) i = Some ?p" "vec_at (ub_n_seq_id ub) i = Some (ub_n_seq_id ub ! i)"
    using ok by (auto simp: ub_tok_ok_def)
  note ids = apply_seq_ids[OF idx full ok, of hs]
  show ?thesis
  proof (cases "a_pos ?x = -1")
    case True
    then have n: "?x = no_cell" using acell_full_cases[OF x] by auto
    have "note_overwrite ?x rm = rm" using n by (auto simp: note_overwrite_def)
    moreover have "cells_pos_set idx ?p (cells_of hs xs) = Some (cells_of hs (xs[idx := ACell ?p {} 0]))"
      by (rule cells_pos_set_of[OF idx n p(1)])
    ultimately show ?thesis using e True p ids by (simp add: apply_token_def)
  next
    case False
    then obtain q where q: "a_seq ?x = {q}" using v by (auto simp: vacant_def)
    have qm: "q < LLAMA_MAX_SEQ" using x q False by (auto simp: acell_full_def acell_ok_def)
    have rm': "rm(q := max (rm q) (a_pos ?x)) = note_overwrite ?x rm" using q by (auto simp: note_overwrite_def)
    have 1: "cells_rm idx (cells_of hs xs) = Some (cells_of hs (xs[idx := no_cell]))"
      by (rule cells_rm_of[OF idx acells_full_ok[OF full] False])
    have 2: "cells_pos_set idx ?p (cells_of hs (xs[idx := no_cell])) = Some (cells_of hs (xs[idx := ACell ?p {} 0]))"
      using cells_pos_set_of[of idx "xs[idx := no_cell]" ?p hs] idx p(1) by simp
    have 3: "cells_seq_count idx (cells_of hs xs) = Some 1" "cells_seq_get idx (cells_of hs xs) = Some (int q)"
      "cells_pos_get idx (cells_of hs xs) = Some (a_pos ?x)"
      using idx False q qm by (simp_all add: cells_seq_count_of cells_seq_get_of cells_pos_get_of)
    show ?thesis using e False p ids 1 2 3 by (simp add: apply_token_def rm')
  qed
qed

subsection \<open>One stream\<close>

fun place :: "llama_ubatch \<Rightarrow> nat \<Rightarrow> nat list \<Rightarrow> acell list \<Rightarrow> acell list" where
  "place ub i [] xs = xs"
| "place ub i (idx # ids) xs = place ub (Suc i) ids (xs[idx := ub_cell ub i])"

abbreviation overwrites :: "acell list \<Rightarrow> nat list \<Rightarrow> (nat \<Rightarrow> int) \<Rightarrow> nat \<Rightarrow> int" where
  "overwrites xs ids rm \<equiv> fold (\<lambda>idx. note_overwrite (xs ! idx)) ids rm"

lemma place_append: "place ub i (as @ bs) xs = place ub (i + length as) bs (place ub i as xs)"
  by (induction ub i as xs rule: place.induct) simp_all

lemma length_place [simp]: "length (place ub i ids xs) = length xs"
  by (induction ub i ids xs rule: place.induct) simp_all

lemma place_other: "j \<notin> set ids \<Longrightarrow> place ub i ids xs ! j = xs ! j"
  by (induction ub i ids xs rule: place.induct) simp_all

lemma place_nth:
  "distinct ids \<Longrightarrow> k < length ids \<Longrightarrow> ids ! k < length xs \<Longrightarrow> place ub i ids xs ! (ids ! k) = ub_cell ub (i + k)"
proof (induction ub i ids xs arbitrary: k rule: place.induct)
  case (2 ub i idx ids xs)
  then show ?case by (cases k) (simp_all add: place_other)
qed simp

lemma place_full:
  assumes "acells_full xs" "\<forall>k < length ids. ub_tok_ok ub (i + k)"
  shows "acells_full (place ub i ids xs)"
  using assms
proof (induction ub i ids xs rule: place.induct)
  case (2 ub i idx ids xs)
  have "acell_full (ub_cell ub i)" using 2(3) by (intro ub_cell_full) force
  then have "acells_full (xs[idx := ub_cell ub i])" by (rule set_list_update_subset_P[OF 2(2)])
  moreover have "\<forall>k < length ids. ub_tok_ok ub (Suc i + k)"
  proof (intro allI impI)
    fix k assume "k < length ids"
    then show "ub_tok_ok ub (Suc i + k)" using 2(3)[rule_format, of "Suc k"] by simp
  qed
  ultimately show ?case using 2(1) by simp
qed simp

lemma Max_insert_max: "finite S \<Longrightarrow> Max (insert (max a b) S) = Max (insert a (insert b S))" for a b :: int
  by (cases "S = {}") (simp_all add: max.assoc)

lemma overwrites_Max:
  "overwrites xs ids rm q = Max (insert (rm q) {a_pos (xs ! idx) | idx. idx \<in> set ids \<and> q \<in> a_seq (xs ! idx)})"
proof (induction ids arbitrary: rm)
  case (Cons idx ids)
  let ?S = "{a_pos (xs ! i) | i. i \<in> set ids \<and> q \<in> a_seq (xs ! i)}"
  have "{a_pos (xs ! i) | i. i \<in> set (idx # ids) \<and> q \<in> a_seq (xs ! i)} = (if q \<in> a_seq (xs ! idx) then insert (a_pos (xs ! idx)) ?S else ?S)"
    by auto
  moreover have fin: "finite ?S" by simp
  moreover have "Max (insert (max a b) ?S) = Max (insert a (insert b ?S))" for a b :: int
    by (rule Max_insert_max[OF fin])
  ultimately show ?case using Cons[of "note_overwrite (xs ! idx) rm"] by (simp add: note_overwrite_def)
qed simp

lemma apply_stream_ok:
  assumes s: "s < length (si_strm si)" "s < length (si_idxs si)" "si_strm si ! s < length (kv_v_cells kv)"
    and c: "kv_v_cells kv ! (si_strm si ! s) = cells_of hs xs" "acells_full xs"
    and ids: "length (si_idxs si ! s) = n" "distinct (si_idxs si ! s)" "\<forall>i \<in> set (si_idxs si ! s). i < length xs \<and> vacant (xs ! i)"
    and tok: "\<forall>k < n. ub_tok_ok ub (s * n + k)"
  shows "apply_stream si ub n s (kv, rm) =
    Some (kv\<lparr>kv_v_cells := (kv_v_cells kv)[si_strm si ! s := cells_of hs (place ub (s * n) (si_idxs si ! s) xs)]\<rparr>,
      overwrites xs (si_idxs si ! s) rm)"
proof -
  let ?ids = "si_idxs si ! s"
  let ?body = "\<lambda>ii (c, rm). do { idxs \<leftarrow> vec_at (si_idxs si) s; idx \<leftarrow> vec_at idxs ii; apply_token ub (s * n + ii) idx (c, rm) }"
  let ?I = "\<lambda>m u. u = (cells_of hs (place ub (s * n) (take m ?ids) xs), overwrites xs (take m ?ids) rm)"
  have "\<exists>u. for_each ?body [0..<n] (cells_of hs xs, rm) = Some u \<and> ?I n u"
  proof (rule for_each_upto_total[where I = ?I])
    fix m u assume m: "m < n" and u: "?I m u"
    let ?xs = "place ub (s * n) (take m ?ids) xs"
    have idx: "?ids ! m \<in> set ?ids" "?ids ! m < length xs" "vacant (xs ! (?ids ! m))" using ids m by auto
    have snoc: "take (Suc m) ?ids = take m ?ids @ [?ids ! m]" using ids m by (simp add: take_Suc_conv_app_nth)
    have "distinct (take (Suc m) ?ids)" using ids(2) by simp
    then have "?ids ! m \<notin> set (take m ?ids)" unfolding snoc by simp
    then have nth: "?xs ! (?ids ! m) = xs ! (?ids ! m)" by (rule place_other)
    have full: "acells_full ?xs" by (rule place_full[OF c(2)]) (use tok m in auto)
    have "apply_token ub (s * n + m) (?ids ! m) (cells_of hs ?xs, overwrites xs (take m ?ids) rm) =
        Some (cells_of hs (?xs[?ids ! m := ub_cell ub (s * n + m)]), note_overwrite (?xs ! (?ids ! m)) (overwrites xs (take m ?ids) rm))"
      by (rule apply_token_ok) (use idx nth full tok m in auto)
    then show "\<exists>v. ?body m u = Some v \<and> ?I (Suc m) v"
      using u s(2) ids(1) m nth by (simp add: snoc place_append)
  qed simp
  then show ?thesis using s c(1) ids(1) by (simp add: apply_stream_def)
qed

subsection \<open>All streams of the slot\<close>

text \<open>
  A micro-batch the cache can place: its streams differ, its tokens are well-formed, and with several streams
  each token belongs to the sequence of its stream only.
\<close>

definition ub_ok :: "kv_cache \<Rightarrow> llama_ubatch \<Rightarrow> nat \<Rightarrow> bool" where
  "ub_ok kv ub n \<longleftrightarrow> ub_shape kv ub n \<and> distinct (map (ub_stream kv ub) [0..<ub_n_parts kv ub]) \<and>
     (\<forall>i < ub_n_tokens ub. ub_tok_ok ub i) \<and>
     (1 < kv_n_stream kv \<longrightarrow> (\<forall>s < ub_n_parts kv ub. \<forall>k < n. a_seq (ub_cell ub (s * n + k)) \<subseteq> {ub_stream kv ub s}))"

text \<open>The greatest position of a sequence that a slot overwrites, or -1: \<^verbatim>\<open>seq_pos_max_rm\<close>.\<close>

definition overwritten :: "kv_cache \<Rightarrow> slot_info \<Rightarrow> nat \<Rightarrow> nat \<Rightarrow> int" where
  "overwritten kv si m = fold (\<lambda>s. overwrites (stream_cells kv (si_strm si ! s)) (si_idxs si ! s)) [0..<m] (\<lambda>_. -1)"

lemma Max_insert_Max: "finite S \<Longrightarrow> finite T \<Longrightarrow> Max (insert (Max (insert a S)) T) = Max (insert a (S \<union> T))" for a :: int
  by (cases "T = {}"; cases "S = {}") (simp_all add: Max_Un max.assoc)

lemma overwritten_Max:
  "overwritten kv si m q = Max (insert (-1) {a_pos x | x s idx. s < m \<and> idx \<in> set (si_idxs si ! s) \<and>
      x = stream_cells kv (si_strm si ! s) ! idx \<and> q \<in> a_seq x})"
proof (induction m)
  case 0
  then show ?case by (simp add: overwritten_def)
next
  case (Suc m)
  let ?S = "\<lambda>m. {a_pos x | x s idx. s < m \<and> idx \<in> set (si_idxs si ! s) \<and> x = stream_cells kv (si_strm si ! s) ! idx \<and> q \<in> a_seq x}"
  let ?T = "{a_pos (stream_cells kv (si_strm si ! m) ! idx) | idx. idx \<in> set (si_idxs si ! m) \<and> q \<in> a_seq (stream_cells kv (si_strm si ! m) ! idx)}"
  have "?S m \<subseteq> (\<lambda>(s, idx). a_pos (stream_cells kv (si_strm si ! s) ! idx)) ` (SIGMA s:{..<m}. set (si_idxs si ! s))" by force
  then have fin: "finite (?S m)" by (rule finite_subset) auto
  have "?S (Suc m) = ?S m \<union> ?T" by (auto simp: less_Suc_eq)
  moreover have "overwritten kv si (Suc m) q = Max (insert (overwritten kv si m q) ?T)"
    by (simp add: overwritten_def overwrites_Max)
  ultimately show ?case using Suc Max_insert_Max[OF fin, of ?T "-1"] by simp
qed

lemma overwritten_props:
  shows "-1 \<le> overwritten kv si m q"
    and "s < m \<Longrightarrow> idx \<in> set (si_idxs si ! s) \<Longrightarrow> q \<in> a_seq (stream_cells kv (si_strm si ! s) ! idx) \<Longrightarrow>
      a_pos (stream_cells kv (si_strm si ! s) ! idx) \<le> overwritten kv si m q"
    and "overwritten kv si m q \<noteq> -1 \<Longrightarrow> \<exists>s idx. s < m \<and> idx \<in> set (si_idxs si ! s) \<and>
      q \<in> a_seq (stream_cells kv (si_strm si ! s) ! idx) \<and> overwritten kv si m q = a_pos (stream_cells kv (si_strm si ! s) ! idx)"
proof -
  let ?S = "{a_pos x | x s idx. s < m \<and> idx \<in> set (si_idxs si ! s) \<and> x = stream_cells kv (si_strm si ! s) ! idx \<and> q \<in> a_seq x}"
  have "?S \<subseteq> (\<lambda>(s, idx). a_pos (stream_cells kv (si_strm si ! s) ! idx)) ` (SIGMA s:{..<m}. set (si_idxs si ! s))" by force
  then have fin: "finite (insert (-1) ?S)" by (simp add: finite_subset)
  have eq: "overwritten kv si m q = Max (insert (-1) ?S)" by (rule overwritten_Max)
  show "-1 \<le> overwritten kv si m q" unfolding eq by (rule Max_ge[OF fin]) simp
  show "a_pos (stream_cells kv (si_strm si ! s) ! idx) \<le> overwritten kv si m q"
    if "s < m" "idx \<in> set (si_idxs si ! s)" "q \<in> a_seq (stream_cells kv (si_strm si ! s) ! idx)"
    unfolding eq by (rule Max_ge[OF fin]) (use that in blast)
  have "overwritten kv si m q \<in> insert (-1) ?S" unfolding eq by (rule Max_in[OF fin]) simp
  then show "\<exists>s idx. s < m \<and> idx \<in> set (si_idxs si ! s) \<and>
      q \<in> a_seq (stream_cells kv (si_strm si ! s) ! idx) \<and> overwritten kv si m q = a_pos (stream_cells kv (si_strm si ! s) ! idx)"
    if "overwritten kv si m q \<noteq> -1" using that by blast
qed

lemma usable_vacant: "usable kv xs x \<Longrightarrow> vacant x"
  by (auto simp: usable_def vacant_def)

lemma slot_validD:
  assumes "slot_valid kv ub n si" "s < ub_n_parts kv ub"
  shows "si_strm si ! s = ub_stream kv ub s" "s < length (si_strm si)" "s < length (si_idxs si)" "length (si_idxs si ! s) = n"
    "distinct (si_idxs si ! s)" "\<forall>i \<in> set (si_idxs si ! s). i < kv_capacity kv \<and> vacant (stream_cells kv (ub_stream kv ub s) ! i)"
  using assms usable_vacant[of kv "stream_cells kv (ub_stream kv ub s)"] by (simp_all add: slot_valid_def usable_at_def)

text \<open>The cells of part \<open>s\<close> after placing.\<close>

definition placed_cells :: "kv_cache \<Rightarrow> slot_info \<Rightarrow> llama_ubatch \<Rightarrow> nat \<Rightarrow> nat \<Rightarrow> acell list" where
  "placed_cells kv si ub n s = place ub (s * n) (si_idxs si ! s) (stream_cells kv (si_strm si ! s))"

definition placed :: "kv_cache \<Rightarrow> slot_info \<Rightarrow> llama_ubatch \<Rightarrow> nat \<Rightarrow> nat \<Rightarrow> kv_cache \<Rightarrow> bool" where
  "placed kv si ub n m u \<longleftrightarrow> kv_wf u \<and> u = kv\<lparr>kv_v_cells := kv_v_cells u\<rparr> \<and> length (kv_v_cells u) = length (kv_v_cells kv) \<and>
     kv_capacity u = kv_capacity kv \<and>
     (\<forall>s < m. kv_v_cells u ! (si_strm si ! s) =
        cells_of (kc_has_shift (kv_v_cells kv ! (si_strm si ! s))) (placed_cells kv si ub n s)) \<and>
     (\<forall>t. t \<notin> (\<lambda>s. si_strm si ! s) ` {..<m} \<longrightarrow> kv_v_cells u ! t = kv_v_cells kv ! t)"

lemma placed_fields:
  assumes "placed kv si ub n m u"
  shows "kv_n_stream u = kv_n_stream kv" "kv_v_heads u = kv_v_heads kv" "kv_seq_to_stream u = kv_seq_to_stream kv"
    "kv_n_swa u = kv_n_swa kv" "kv_swa_type u = kv_swa_type kv"
proof -
  obtain cs where u: "u = kv\<lparr>kv_v_cells := cs\<rparr>" using assms unfolding placed_def by blast
  show "kv_n_stream u = kv_n_stream kv" "kv_v_heads u = kv_v_heads kv" "kv_seq_to_stream u = kv_seq_to_stream kv"
    "kv_n_swa u = kv_n_swa kv" "kv_swa_type u = kv_swa_type kv" unfolding u by simp_all
qed

lemma part_token:
  assumes "ub_ok kv ub n" "s < ub_n_parts kv ub" "k < n"
  shows "s * n + k < ub_n_tokens ub" "ub_tok_ok ub (s * n + k)"
proof -
  have "s * n + k < (s + 1) * n" using assms(3) by simp
  also have "\<dots> \<le> ub_n_parts kv ub * n" using assms(2) by (intro mult_le_mono1) simp
  finally show "s * n + k < ub_n_tokens ub" using assms(1) by (simp add: ub_ok_def ub_shape_def)
  then show "ub_tok_ok ub (s * n + k)" using assms(1) by (simp add: ub_ok_def)
qed

lemma placed_owner:
  assumes "\<forall>x \<in> set xs. a_seq x \<subseteq> {t}" "\<forall>k < length ids. a_seq (ub_cell ub (i + k)) \<subseteq> {t}"
  shows "\<forall>x \<in> set (place ub i ids xs). a_seq x \<subseteq> {t}"
  using assms
proof (induction ub i ids xs rule: place.induct)
  case (2 ub i idx ids xs)
  have h: "a_seq (ub_cell ub i) \<subseteq> {t}" using 2(3) by force
  have "\<forall>x \<in> set (xs[idx := ub_cell ub i]). a_seq x \<subseteq> {t}" by (rule set_list_update_subset_P[OF 2(2) h])
  moreover have "\<forall>k < length ids. a_seq (ub_cell ub (Suc i + k)) \<subseteq> {t}"
  proof (intro allI impI)
    fix k assume "k < length ids"
    then show "a_seq (ub_cell ub (Suc i + k)) \<subseteq> {t}" using 2(3)[rule_format, of "Suc k"] by simp
  qed
  ultimately show ?case using 2(1) by simp
qed simp

lemma placed_step:
  assumes wf: "kv_wf kv" and ub: "ub_ok kv ub n" and si: "slot_valid kv ub n si"
    and m: "m < ub_n_parts kv ub" and u: "placed kv si ub n m u"
  shows "\<exists>v. apply_stream si ub n m (u, overwritten kv si m) = Some (v, overwritten kv si (Suc m)) \<and> placed kv si ub n (Suc m) v"
proof -
  let ?N = "ub_n_parts kv ub" and ?t = "si_strm si ! m"
  have sh: "ub_shape kv ub n" using ub by (simp add: ub_ok_def)
  have strm: "si_strm si = map (ub_stream kv ub) [0..<?N]" using si by (simp add: slot_valid_def)
  have t: "?t = ub_stream kv ub m" "?t < kv_n_stream kv" using slot_validD(1)[OF si m] ub_stream_less(1)[OF wf sh m] by simp_all
  have dist: "distinct (si_strm si)" "length (si_strm si) = ?N" using ub strm by (simp_all add: ub_ok_def)
  have fresh: "?t \<notin> (\<lambda>s. si_strm si ! s) ` {..<m}"
    using dist m by (auto simp: nth_eq_iff_index_eq)
  obtain hs xs where c: "kv_v_cells kv ! ?t = cells_of hs xs" "acells_full xs" "length xs = kv_capacity kv"
      "?t < length (kv_v_cells kv)" "?t < length (kv_v_heads kv)" "kv_v_heads kv ! ?t \<le> kv_capacity kv"
      "1 < kv_n_stream kv \<longrightarrow> (\<forall>x \<in> set xs. a_seq x \<subseteq> {?t})"
    using kv_wfD[OF wf t(2)] .
  have cu: "kv_v_cells u ! ?t = cells_of hs xs" using u fresh c(1) by (simp add: placed_def)
  have uw: "kv_wf u" "kv_n_stream u = kv_n_stream kv" "kv_v_heads u = kv_v_heads kv" "length (kv_v_cells u) = length (kv_v_cells kv)"
      "kv_capacity u = kv_capacity kv"
    using u placed_fields[OF u] by (simp_all add: placed_def)
  let ?ids = "si_idxs si ! m" and ?ys = "placed_cells kv si ub n m"
  have ys: "?ys = place ub (m * n) ?ids xs" using c(1) by (simp add: placed_cells_def)
  note sv = slot_validD[OF si m]
  have tok: "\<forall>k < n. ub_tok_ok ub (m * n + k)" using part_token(2)[OF ub m] by blast
  let ?v = "u\<lparr>kv_v_cells := (kv_v_cells u)[?t := cells_of hs ?ys]\<rparr>"
  have ap: "apply_stream si ub n m (u, overwritten kv si m) = Some (?v, overwrites xs ?ids (overwritten kv si m))"
    unfolding ys by (rule apply_stream_ok) (use sv tok cu c t(1) uw in auto)
  moreover have "overwrites xs ?ids (overwritten kv si m) = overwritten kv si (Suc m)"
    using c(1) by (simp add: overwritten_def)
  moreover have "placed kv si ub n (Suc m) ?v"
  proof -
    have v: "?v = kv_set_stream ?t (cells_of hs ?ys) (kv_v_heads u ! ?t) u"
      using kv_set_stream_cells_only[of ?t u] c(5) uw(3) by simp
    have fy: "acells_full ?ys" unfolding ys by (rule place_full[OF c(2)]) (use tok sv(4) in simp)
    have ly: "length ?ys = kv_capacity u" using c(3) uw(5) ys by simp
    have own: "\<forall>x \<in> set ?ys. a_seq x \<subseteq> {?t}" if "1 < kv_n_stream u"
      unfolding ys by (rule placed_owner) (use that uw(2) c(7) ub m sv(4) t(1) in \<open>simp_all add: ub_ok_def\<close>)
    have "?t < kv_n_stream u" "kv_v_heads u ! ?t \<le> kv_capacity u" using t(2) uw c(6) by simp_all
    then have "kv_wf ?v" "kv_capacity ?v = kv_capacity u"
      unfolding v using kv_wf_set_stream[OF uw(1) _ fy ly] own by blast+
    moreover obtain cs where ucs: "u = kv\<lparr>kv_v_cells := cs\<rparr>" using u unfolding placed_def by blast
    then have "?v = kv\<lparr>kv_v_cells := kv_v_cells ?v\<rparr>" by simp
    moreover have "kv_v_cells ?v ! (si_strm si ! s) = cells_of (kc_has_shift (kv_v_cells kv ! (si_strm si ! s))) (placed_cells kv si ub n s)"
      if "s < Suc m" for s
    proof (cases "s = m")
      case True
      then show ?thesis using c(1,4) uw(4) by simp
    next
      case False
      then have sm: "s < m" using that by simp
      then have "si_strm si ! s \<noteq> ?t" using fresh by (metis imageI lessThan_iff)
      then show ?thesis using u sm by (simp add: placed_def)
    qed
    moreover have "kv_v_cells ?v ! t = kv_v_cells kv ! t" if "t \<notin> (\<lambda>s. si_strm si ! s) ` {..<Suc m}" for t
    proof -
      have "t \<noteq> ?t" "t \<notin> (\<lambda>s. si_strm si ! s) ` {..<m}" using that by auto
      then show ?thesis using u by (simp add: placed_def)
    qed
    ultimately show ?thesis using uw(4,5) unfolding placed_def by simp
  qed
  ultimately show ?thesis by metis
qed

lemma apply_streams_ok:
  assumes wf: "kv_wf kv" and ub: "ub_ok kv ub n" and si: "slot_valid kv ub n si"
  shows "\<exists>u. for_each (apply_stream si ub n) [0..<ub_n_parts kv ub] (kv, \<lambda>_. -1) = Some (u, overwritten kv si (ub_n_parts kv ub)) \<and>
    placed kv si ub n (ub_n_parts kv ub) u"
proof -
  let ?I = "\<lambda>m (u, rm). placed kv si ub n m u \<and> rm = overwritten kv si m"
  have "\<exists>u. for_each (apply_stream si ub n) [0..<ub_n_parts kv ub] (kv, \<lambda>_. -1) = Some u \<and> ?I (ub_n_parts kv ub) u"
  proof (rule for_each_upto_total[where I = ?I])
    show "?I 0 (kv, \<lambda>_. -1)" using wf by (simp add: placed_def overwritten_def)
  next
    fix m u assume m: "m < ub_n_parts kv ub" and u: "?I m u"
    obtain u0 where u0: "u = (u0, overwritten kv si m)" "placed kv si ub n m u0" using u by (cases u) auto
    then show "\<exists>v. apply_stream si ub n m u = Some v \<and> ?I (Suc m) v"
      using placed_step[OF wf ub si m u0(2)] by auto
  qed
  then show ?thesis by auto
qed

subsection \<open>The view after placing\<close>

definition ub_positions :: "llama_ubatch \<Rightarrow> nat \<Rightarrow> int set" where
  "ub_positions ub q = {ub_pos ub ! i | i. i < ub_n_tokens ub \<and> q \<in> a_seq (ub_cell ub i)}"

lemma ub_cell_pos [simp]: "a_pos (ub_cell ub i) = ub_pos ub ! i"
  by (simp add: ub_cell_def)

lemma seq_positions_nth: "seq_positions q xs = {a_pos (xs ! j) | j. j < length xs \<and> q \<in> a_seq (xs ! j)}"
  by (force simp: seq_positions_alt in_set_conv_nth)

lemma place_positions:
  assumes ids: "distinct ids" "\<forall>j \<in> set ids. j < length xs" and R: "\<And>j. j \<in> set ids \<Longrightarrow> q \<in> a_seq (xs ! j) \<Longrightarrow> a_pos (xs ! j) \<le> R"
  shows "{p \<in> seq_positions q (place ub i ids xs). R < p} =
    {p \<in> seq_positions q xs \<union> {ub_pos ub ! (i + k) | k. k < length ids \<and> q \<in> a_seq (ub_cell ub (i + k))}. R < p}"
proof -
  let ?new = "{ub_pos ub ! (i + k) | k. k < length ids \<and> q \<in> a_seq (ub_cell ub (i + k))}"
  have nth: "k < length ids \<Longrightarrow> place ub i ids xs ! (ids ! k) = ub_cell ub (i + k)" for k
    using place_nth[OF ids(1)] ids(2) by simp
  have "seq_positions q (place ub i ids xs) = ?new \<union> {a_pos (xs ! j) | j. j < length xs \<and> j \<notin> set ids \<and> q \<in> a_seq (xs ! j)}" (is "?l = ?r")
  proof
    show "?l \<subseteq> ?r"
    proof
      fix p assume "p \<in> ?l"
      then obtain j where j: "j < length xs" "q \<in> a_seq (place ub i ids xs ! j)" "p = a_pos (place ub i ids xs ! j)"
        by (auto simp: seq_positions_nth)
      show "p \<in> ?r"
      proof (cases "j \<in> set ids")
        case True
        then obtain k where "k < length ids" "j = ids ! k" by (auto simp: in_set_conv_nth)
        then have "p \<in> ?new" using j nth by auto
        then show ?thesis by blast
      next
        case False
        then show ?thesis using j by (auto simp: place_other)
      qed
    qed
  next
    show "?r \<subseteq> ?l"
    proof
      fix p assume "p \<in> ?r"
      then consider k where "k < length ids" "q \<in> a_seq (ub_cell ub (i + k))" "p = ub_pos ub ! (i + k)"
        | j where "j < length xs" "j \<notin> set ids" "q \<in> a_seq (xs ! j)" "p = a_pos (xs ! j)" by blast
      then show "p \<in> ?l"
      proof cases
        case 1
        have "ids ! k < length xs" using 1(1) ids(2) by simp
        then show ?thesis using 1 nth[OF 1(1)] by (auto simp: seq_positions_nth intro!: exI[of _ "ids ! k"])
      next
        case 2
        then show ?thesis by (auto simp: seq_positions_nth place_other intro!: exI[of _ j])
      qed
    qed
  qed
  then show ?thesis using R by (fastforce simp: seq_positions_nth)
qed

lemma part_index: "i < N * n \<Longrightarrow> 0 < n \<Longrightarrow> i div n < N \<and> i mod n < n \<and> i div n * n + i mod n = i" for n :: nat
  by (simp add: less_mult_imp_div_less)

text \<open>The positions of a sequence are those of the tokens in the part of its stream.\<close>

lemma ub_positions_part:
  assumes wf: "kv_wf kv" and ub: "ub_ok kv ub n" and s: "s < ub_n_parts kv ub" and q: "stream_of kv q = ub_stream kv ub s"
  shows "ub_positions ub q = {ub_pos ub ! (s * n + k) | k. k < n \<and> q \<in> a_seq (ub_cell ub (s * n + k))}"
proof -
  have sh: "0 < n" "ub_n_tokens ub = ub_n_parts kv ub * n" using ub by (auto simp: ub_ok_def ub_shape_def)
  have same: "i div n = s" if i: "i < ub_n_tokens ub" "q \<in> a_seq (ub_cell ub i)" for i
  proof (cases "1 < kv_n_stream kv")
    case True
    let ?r = "i div n"
    have r: "?r < ub_n_parts kv ub" "i mod n < n" "?r * n + i mod n = i" using part_index[of i _ n] i(1) sh by auto
    then have "q = ub_stream kv ub ?r" using ub True i(2) unfolding ub_ok_def by (metis singletonD subsetD)
    then have "ub_stream kv ub ?r = ub_stream kv ub s" using q True by (simp add: stream_of_def)
    then show ?thesis using ub r(1) s by (auto simp: ub_ok_def distinct_map inj_on_def)
  next
    case False
    then have "ub_n_parts kv ub = 1" by (simp add: ub_n_parts_def)
    then show ?thesis using i(1) sh s by (simp add: div_less)
  qed
  show ?thesis
  proof (intro equalityI subsetI)
    fix p assume "p \<in> ub_positions ub q"
    then obtain i where i: "i < ub_n_tokens ub" "q \<in> a_seq (ub_cell ub i)" "p = ub_pos ub ! i" by (auto simp: ub_positions_def)
    have "s * n + i mod n = i" using same[OF i(1,2)] by (metis div_mult_mod_eq)
    then show "p \<in> {ub_pos ub ! (s * n + k) | k. k < n \<and> q \<in> a_seq (ub_cell ub (s * n + k))}"
      using i sh(1) by (auto intro!: exI[of _ "i mod n"])
  next
    fix p assume "p \<in> {ub_pos ub ! (s * n + k) | k. k < n \<and> q \<in> a_seq (ub_cell ub (s * n + k))}"
    then show "p \<in> ub_positions ub q" using part_token(1)[OF ub s] by (auto simp: ub_positions_def)
  qed
qed

lemma ub_positions_none:
  assumes wf: "kv_wf kv" and ub: "ub_ok kv ub n" and q: "\<not> has_seq kv q \<or> (\<forall>s < ub_n_parts kv ub. stream_of kv q \<noteq> ub_stream kv ub s)"
  shows "ub_positions ub q = {}"
proof -
  have sh: "0 < n" "ub_n_tokens ub = ub_n_parts kv ub * n" "0 < ub_n_parts kv ub" using ub by (auto simp: ub_ok_def ub_shape_def)
  have False if i: "i < ub_n_tokens ub" "q \<in> a_seq (ub_cell ub i)" for i
  proof (cases "1 < kv_n_stream kv")
    case True
    let ?r = "i div n"
    have r: "?r < ub_n_parts kv ub" "i mod n < n" "?r * n + i mod n = i" using part_index[of i _ n] i(1) sh by auto
    then have "q = ub_stream kv ub ?r" using ub True i(2) unfolding ub_ok_def by (metis singletonD subsetD)
    moreover have "has_seq kv (nat (ub_seq_id_unq ub ! ?r))" using ub r(1) by (simp add: ub_ok_def ub_shape_def)
    ultimately show False using q r(1) True by (auto simp: ub_stream_def stream_of_def)
  next
    case False
    then have one: "kv_n_stream kv = 1" using wf by (simp add: kv_wf_def)
    have "acell_full (ub_cell ub i)" by (rule ub_cell_full) (use ub i in \<open>simp add: ub_ok_def\<close>)
    then have "q < LLAMA_MAX_SEQ" using i(2) by (auto simp: acell_full_def acell_ok_def)
    then show False using q one sh(3) by (auto simp: has_seq_def stream_of_def ub_stream_def)
  qed
  then show ?thesis by (auto simp: ub_positions_def)
qed

lemma placed_view:
  assumes wf: "kv_wf kv" and ub: "ub_ok kv ub n" and si: "slot_valid kv ub n si" and u: "placed kv si ub n (ub_n_parts kv ub) u"
  shows "{p \<in> kv_view u q. overwritten kv si (ub_n_parts kv ub) q < p} =
    {p \<in> kv_view kv q \<union> ub_positions ub q. overwritten kv si (ub_n_parts kv ub) q < p}"
proof -
  let ?N = "ub_n_parts kv ub" and ?R = "overwritten kv si (ub_n_parts kv ub) q"
  have seqs: "has_seq u = has_seq kv" "stream_of u = stream_of kv" using placed_fields[OF u] by (simp_all add: has_seq_def stream_of_def fun_eq_iff)
  have strm: "si_strm si = map (ub_stream kv ub) [0..<?N]" using si by (simp add: slot_valid_def)
  consider "\<not> has_seq kv q" | "has_seq kv q" "\<forall>s < ?N. stream_of kv q \<noteq> ub_stream kv ub s"
    | s where "has_seq kv q" "s < ?N" "stream_of kv q = ub_stream kv ub s" by blast
  then show ?thesis
  proof cases
    case 1
    then show ?thesis using ub_positions_none[OF wf ub] seqs by (simp add: kv_view_def)
  next
    case 2
    then have "stream_of kv q \<notin> (\<lambda>s. si_strm si ! s) ` {..<?N}" using strm by auto
    then have "kv_v_cells u ! stream_of kv q = kv_v_cells kv ! stream_of kv q" using u by (simp add: placed_def)
    then show ?thesis using 2 ub_positions_none[OF wf ub] seqs by (simp add: kv_view_def)
  next
    case 3
    have t: "si_strm si ! s = stream_of kv q" using slot_validD(1)[OF si 3(2)] 3(3) by simp
    let ?xs = "stream_cells kv (stream_of kv q)" and ?ids = "si_idxs si ! s"
    note sv = slot_validD[OF si 3(2)]
    obtain hs xs where c: "kv_v_cells kv ! stream_of kv q = cells_of hs xs" "length xs = kv_capacity kv"
      using kv_wfD[OF wf kv_stream_ok(4)[OF wf 3(1)]] by metis
    have cu: "stream_cells u (stream_of kv q) = place ub (s * n) ?ids ?xs"
      using u 3(2) t by (auto simp: placed_def placed_cells_def)
    have "{p \<in> seq_positions q (place ub (s * n) ?ids ?xs). ?R < p} =
        {p \<in> seq_positions q ?xs \<union> {ub_pos ub ! (s * n + k) | k. k < length ?ids \<and> q \<in> a_seq (ub_cell ub (s * n + k))}. ?R < p}"
    proof (rule place_positions)
      show "a_pos (?xs ! j) \<le> ?R" if "j \<in> set ?ids" "q \<in> a_seq (?xs ! j)" for j
        using overwritten_props(2)[of s ?N j si q kv] 3(2) that t by simp
    qed (use sv c in auto)
    then show ?thesis using 3 sv(4) cu seqs ub_positions_part[OF wf ub 3(2,3)] by (simp add: kv_view_def)
  qed
qed

subsection \<open>Purging and heads\<close>

text \<open>The fields that no operation changes.\<close>

definition kv_same :: "kv_cache \<Rightarrow> kv_cache \<Rightarrow> bool" where
  "kv_same kv kv' \<longleftrightarrow> kv_n_stream kv' = kv_n_stream kv \<and> kv_seq_to_stream kv' = kv_seq_to_stream kv \<and> kv_n_swa kv' = kv_n_swa kv \<and>
     kv_swa_type kv' = kv_swa_type kv \<and> kv_n_pad kv' = kv_n_pad kv \<and> kv_n_seq_max kv' = kv_n_seq_max kv \<and> kv_v_trans kv' = kv_v_trans kv \<and>
     kv_capacity kv' = kv_capacity kv"

lemma kv_same_refl [simp]: "kv_same kv kv"
  by (simp add: kv_same_def)

lemma kv_same_trans: "kv_same a b \<Longrightarrow> kv_same b c \<Longrightarrow> kv_same a c"
  by (simp add: kv_same_def)

lemma kv_same_seqs: "kv_same kv kv' \<Longrightarrow> has_seq kv' = has_seq kv \<and> stream_of kv' = stream_of kv"
  by (simp add: kv_same_def has_seq_def stream_of_def fun_eq_iff)

lemma kv_maps_same: "kv_maps kv s f kv' \<Longrightarrow> kv_capacity kv' = kv_capacity kv \<Longrightarrow> kv_same kv kv'"
  by (auto simp: kv_maps_def kv_same_def kv_set_stream_def)

lemma placed_same: "placed kv si ub n m u \<Longrightarrow> kv_same kv u"
proof -
  assume a: "placed kv si ub n m u"
  then obtain cs where "u = kv\<lparr>kv_v_cells := cs\<rparr>" "kv_capacity u = kv_capacity kv" unfolding placed_def by blast
  then show ?thesis by (simp add: kv_same_def)
qed

lemma apply_purge_ok:
  assumes wf: "kv_wf u" and rm: "rm q \<noteq> -1 \<Longrightarrow> has_seq u q \<and> 0 \<le> rm q \<and> rm q < INT32_MAX"
  shows "\<exists>v. apply_purge rm q u = Some v \<and> kv_wf v \<and> kv_same u v \<and> kv_view v = (kv_view u)(q := {p \<in> kv_view u q. rm q < p})"
proof (cases "rm q = -1")
  case True
  then have "{p \<in> kv_view u q. rm q < p} = kv_view u q" using kv_view_range[OF wf, of q] by force
  then show ?thesis using True wf by (simp add: apply_purge_def)
next
  case False
  note q = rm[OF False]
  define pmin where "pmin = (if kv_view u q = {} then -1 else Min (kv_view u q))"
  have pm: "kv_seq_pos_min (int q) u = Some pmin" using kv_mem.pos_min[OF wf] q by (simp add: pmin_def)
  have ks: "kv_stream u (int q) = Some (stream_of u q)" using kv_stream_ok(1)[OF wf] q by simp
  have low: "pmin \<le> p" if "p \<in> kv_view u q" for p
    using kv_view_range[OF wf, of q] that by (auto simp: pmin_def)
  show ?thesis
  proof (cases "pmin \<le> rm q")
    case True
    obtain v where v: "kv_seq_rm (int q) pmin (rm q + 1) u = Some (True, v)" "kv_wf v"
        "kv_maps u (stream_of u q) (rm_cell q pmin (rm q + 1)) v" "kv_capacity v = kv_capacity u"
      using kv_seq_rm_ok[OF wf, of q pmin "rm q + 1"] q by blast
    have "kv_view v = (kv_view u)(q := kv_view u q - {norm_p0 pmin..<norm_p1 (rm q + 1)})"
      using kv_seq_rm_view[OF wf, of q pmin "rm q + 1"] q v(1) by auto
    moreover have "kv_view u q - {norm_p0 pmin..<norm_p1 (rm q + 1)} = {p \<in> kv_view u q. rm q < p}"
      using low q kv_view_range[OF wf, of q] by (force simp: norm_p0_def norm_p1_def)
    moreover have "apply_purge rm q u = Some v"
      using False ks pm True v(1) q by (auto simp: apply_purge_def kv_seq_pos_min_def i32_ok_def bind_eq_Some_conv)
    ultimately show ?thesis using v kv_maps_same by auto
  next
    case f: False
    have "{p \<in> kv_view u q. rm q < p} = kv_view u q" using low f by force
    moreover have "apply_purge rm q u = Some u"
      using False ks pm f by (auto simp: apply_purge_def kv_seq_pos_min_def bind_eq_Some_conv)
    ultimately show ?thesis using wf by simp
  qed
qed

lemma purge_loop_ok:
  assumes wf: "kv_wf u" and rm: "\<And>q. rm q \<noteq> -1 \<Longrightarrow> has_seq u q \<and> 0 \<le> rm q \<and> rm q < INT32_MAX"
  shows "\<exists>v. for_each (apply_purge rm) [0..<LLAMA_MAX_SEQ] u = Some v \<and> kv_wf v \<and> kv_same u v \<and>
    (\<forall>q. kv_view v q = {p \<in> kv_view u q. rm q < p})"
proof -
  let ?I = "\<lambda>m v. kv_wf v \<and> kv_same u v \<and> (\<forall>q. kv_view v q = (if q < m then {p \<in> kv_view u q. rm q < p} else kv_view u q))"
  have "\<exists>v. for_each (apply_purge rm) [0..<LLAMA_MAX_SEQ] u = Some v \<and> ?I LLAMA_MAX_SEQ v"
  proof (rule for_each_upto_total[where I = ?I])
    fix m v assume v: "?I m v"
    have r: "rm m \<noteq> -1 \<Longrightarrow> has_seq v m \<and> 0 \<le> rm m \<and> rm m < INT32_MAX" using rm kv_same_seqs[of u v] v by simp
    obtain w where w: "apply_purge rm m v = Some w" "kv_wf w" "kv_same v w" "kv_view w = (kv_view v)(m := {p \<in> kv_view v m. rm m < p})"
      using apply_purge_ok[of v rm m] v r by blast
    have "kv_view w q = (if q < Suc m then {p \<in> kv_view u q. rm q < p} else kv_view u q)" for q
      using w(4) v by (auto simp: less_Suc_eq)
    then show "\<exists>w. apply_purge rm m v = Some w \<and> ?I (Suc m) w" using w v kv_same_trans by blast
  qed (use wf in simp)
  then obtain v where v: "for_each (apply_purge rm) [0..<LLAMA_MAX_SEQ] u = Some v" "?I LLAMA_MAX_SEQ v" by blast
  moreover have "kv_view v q = {p \<in> kv_view u q. rm q < p}" for q
  proof (cases "q < LLAMA_MAX_SEQ")
    case False
    then show ?thesis using v(2) by (simp add: kv_view_def has_seq_def)
  qed (use v(2) in simp)
  ultimately show ?thesis by blast
qed

lemma kv_wf_head:
  assumes "kv_wf u" "h \<le> kv_capacity u"
  shows "kv_wf (u\<lparr>kv_v_heads := (kv_v_heads u)[t := h]\<rparr>)"
proof -
  have "stream_wf (u\<lparr>kv_v_heads := (kv_v_heads u)[t := h]\<rparr>) s" if "s < kv_n_stream u" for s
  proof -
    obtain hs xs where "kv_v_cells u ! s = cells_of hs xs" "acells_full xs" "length xs = kv_capacity u" "s < length (kv_v_heads u)"
        "kv_v_heads u ! s \<le> kv_capacity u" "1 < kv_n_stream u \<longrightarrow> (\<forall>x \<in> set xs. a_seq x \<subseteq> {s})"
      using kv_wfD[OF assms(1) \<open>s < kv_n_stream u\<close>] by metis
    then show ?thesis using assms(2) unfolding stream_wf_def
      by (intro exI[of _ hs] exI[of _ xs]) (cases "s = t"; simp add: kv_capacity_def)
  qed
  then show ?thesis using assms(1) by (simp add: kv_wf_def)
qed

lemma heads_loop_ok:
  assumes wf: "kv_wf u" and si: "length (si_idxs si) = length (si_strm si)" "\<forall>t \<in> set (si_strm si). t < kv_n_stream u"
    "\<forall>ids \<in> set (si_idxs si). ids \<noteq> [] \<and> (\<forall>i \<in> set ids. i < kv_capacity u)"
  shows "\<exists>h. for_each (apply_head si) [0..<si_n_stream si] u = Some (u\<lparr>kv_v_heads := h\<rparr>) \<and> kv_wf (u\<lparr>kv_v_heads := h\<rparr>) \<and>
    length h = length (kv_v_heads u) \<and> (\<forall>t. t \<notin> set (si_strm si) \<longrightarrow> h ! t = kv_v_heads u ! t)"
proof -
  let ?P = "\<lambda>h. kv_wf (u\<lparr>kv_v_heads := h\<rparr>) \<and> length h = length (kv_v_heads u) \<and> (\<forall>t. t \<notin> set (si_strm si) \<longrightarrow> h ! t = kv_v_heads u ! t)"
  let ?I = "\<lambda>m v. \<exists>h. v = u\<lparr>kv_v_heads := h\<rparr> \<and> ?P h"
  have "\<exists>v. for_each (apply_head si) [0..<si_n_stream si] u = Some v \<and> ?I (si_n_stream si) v"
  proof (rule for_each_upto_total[where I = ?I])
    show "?I 0 u" using wf by (intro exI[of _ "kv_v_heads u"]) simp
  next
    fix m v assume m: "m < si_n_stream si" and "?I m v"
    then obtain h where h: "v = u\<lparr>kv_v_heads := h\<rparr>" "?P h" by blast
    let ?t = "si_strm si ! m" and ?ids = "si_idxs si ! m"
    have tm: "?t \<in> set (si_strm si)" "?ids \<in> set (si_idxs si)" using m si(1) by (simp_all add: si_n_stream_def)
    then have t: "?t < length (kv_v_heads u)" "?ids \<noteq> []" "last ?ids < kv_capacity u"
      using si(2,3) wf by (auto simp: kv_wf_def)
    let ?h = "h[?t := last ?ids + 1]"
    have "apply_head si m v = Some (u\<lparr>kv_v_heads := ?h\<rparr>)"
      using m t h si(1) by (simp add: apply_head_def si_n_stream_def)
    moreover have "kv_wf (u\<lparr>kv_v_heads := ?h\<rparr>)"
      using kv_wf_head[of "u\<lparr>kv_v_heads := h\<rparr>" "last ?ids + 1" ?t] h(2) t(3) by (simp add: kv_capacity_def)
    moreover have "\<forall>t. t \<notin> set (si_strm si) \<longrightarrow> ?h ! t = kv_v_heads u ! t" using h(2) tm(1) by (metis nth_list_update_neq)
    ultimately show "\<exists>w. apply_head si m v = Some w \<and> ?I (Suc m) w" using h(2) by auto
  qed
  then show ?thesis by blast
qed

text \<open>Positions leave room in all streams exactly when they do in the view: every used cell has an owner.\<close>

lemma pos_room_view:
  assumes wf: "kv_wf kv"
  shows "(\<forall>s < kv_n_stream kv. pos_room (stream_cells kv s)) \<longleftrightarrow> (\<forall>q. kv_view kv q \<subseteq> {..<INT32_MAX})"
proof
  assume "\<forall>s < kv_n_stream kv. pos_room (stream_cells kv s)"
  then show "\<forall>q. kv_view kv q \<subseteq> {..<INT32_MAX}"
    using kv_stream_ok(4)[OF wf] by (auto simp: kv_view_def seq_positions_def pos_room_def)
next
  assume v: "\<forall>q. kv_view kv q \<subseteq> {..<INT32_MAX}"
  show "\<forall>s < kv_n_stream kv. pos_room (stream_cells kv s)"
  proof (intro allI impI)
    fix s assume s: "s < kv_n_stream kv"
    obtain hs xs where c: "kv_v_cells kv ! s = cells_of hs xs" "acells_full xs"
        "1 < kv_n_stream kv \<longrightarrow> (\<forall>x \<in> set xs. a_seq x \<subseteq> {s})"
      using kv_wfD[OF wf s] by metis
    have "a_pos x < INT32_MAX" if x: "x \<in> set xs" for x
    proof (cases "x = no_cell")
      case False
      then obtain q where q: "q \<in> a_seq x" using c(2) x acell_full_cases by blast
      have "q < LLAMA_MAX_SEQ" using c(2) x q by (auto simp: acell_full_def acell_ok_def)
      then have "has_seq kv q \<and> stream_of kv q = s"
        using c(3) x q s wf by (cases "kv_n_stream kv = 1") (auto simp: has_seq_def stream_of_def kv_wf_def)
      then have "a_pos x \<in> kv_view kv q" using c(1) x q by (auto simp: kv_view_def seq_positions_def)
      then show ?thesis using v by auto
    qed simp
    then show "pos_room (stream_cells kv s)" using c(1) by (simp add: pos_room_def)
  qed
qed

lemma overwritten_owner:
  assumes kv: "find_ok kv" and ub: "ub_ok kv ub n" and si: "slot_valid kv ub n si"
    and r: "overwritten kv si (ub_n_parts kv ub) q \<noteq> -1"
  shows "has_seq kv q \<and> 0 \<le> overwritten kv si (ub_n_parts kv ub) q \<and> overwritten kv si (ub_n_parts kv ub) q < INT32_MAX"
proof -
  have wf: "kv_wf kv" using kv by (simp add: find_ok_def)
  have sh: "ub_shape kv ub n" using ub by (simp add: ub_ok_def)
  obtain s idx where s: "s < ub_n_parts kv ub" "idx \<in> set (si_idxs si ! s)" "q \<in> a_seq (stream_cells kv (si_strm si ! s) ! idx)"
      "overwritten kv si (ub_n_parts kv ub) q = a_pos (stream_cells kv (si_strm si ! s) ! idx)"
    using overwritten_props(3)[OF r] by blast
  note sv = slot_validD[OF si s(1)]
  have t: "ub_stream kv ub s < kv_n_stream kv" by (rule ub_stream_less(1)[OF wf sh s(1)])
  obtain hs xs where c: "kv_v_cells kv ! ub_stream kv ub s = cells_of hs xs" "acells_full xs" "length xs = kv_capacity kv"
      "1 < kv_n_stream kv \<longrightarrow> (\<forall>x \<in> set xs. a_seq x \<subseteq> {ub_stream kv ub s})"
    using kv_wfD[OF wf t] by metis
  have x: "xs ! idx \<in> set xs" "q \<in> a_seq (xs ! idx)" using s(2,3) sv c by auto
  have "pos_room xs" using kv t c(1) by (auto simp: find_ok_def)
  then have "a_pos (xs ! idx) < INT32_MAX" "0 \<le> a_pos (xs ! idx)" "q < LLAMA_MAX_SEQ"
    using x c(2) by (auto simp: pos_room_def acell_full_def acell_ok_def)
  moreover have "kv_n_stream kv \<noteq> 1 \<longrightarrow> q < kv_n_stream kv" using x c(4) t wf by (auto simp: kv_wf_def)
  ultimately show ?thesis using s(4) sv(1) c(1) by (simp add: has_seq_def)
qed

lemma apply_ubatch_spec:
  assumes kv: "find_ok kv" and ub: "ub_ok kv ub n" and si: "slot_valid kv ub n si"
  shows "\<exists>kv'. kv_apply_ubatch si ub kv = Some kv' \<and> find_ok kv' \<and> kv_same kv kv' \<and>
    (\<forall>q. kv_view kv' q = {p \<in> kv_view kv q \<union> ub_positions ub q. overwritten kv si (ub_n_parts kv ub) q < p})"
proof -
  let ?N = "ub_n_parts kv ub" and ?R = "overwritten kv si (ub_n_parts kv ub)"
  have wf: "kv_wf kv" using kv by (simp add: find_ok_def)
  have sh: "0 < n" "0 < ?N" "ub_n_tokens ub = ?N * n" "ub_shape kv ub n" using ub by (auto simp: ub_ok_def ub_shape_def)
  have N: "si_n_stream si = ?N" "length (si_idxs si) = ?N" using si by (simp_all add: slot_valid_def si_n_stream_def)
  have ne: "si_idxs si \<noteq> []" using N(2) sh(2) by auto
  then have "hd (si_idxs si) = si_idxs si ! 0" by (rule hd_conv_nth)
  then have size: "si_size si = Some n"
    using N ne slot_validD(4)[OF si sh(2)] by (simp add: si_size_def si_n_stream_def)
  obtain u where u: "for_each (apply_stream si ub n) [0..<?N] (kv, \<lambda>_. -1) = Some (u, ?R)" "placed kv si ub n ?N u"
    using apply_streams_ok[OF wf ub si] by blast
  have wu: "kv_wf u" "kv_same kv u" using u(2) placed_same by (auto simp: placed_def)
  obtain v where v: "for_each (apply_purge ?R) [0..<LLAMA_MAX_SEQ] u = Some v" "kv_wf v" "kv_same u v"
      "\<forall>q. kv_view v q = {p \<in> kv_view u q. ?R q < p}"
    using purge_loop_ok[OF wu(1), of ?R] overwritten_owner[OF kv ub si] kv_same_seqs[OF wu(2)] by auto
  have same: "kv_same kv v" by (rule kv_same_trans[OF wu(2) v(3)])
  have "\<exists>h. for_each (apply_head si) [0..<si_n_stream si] v = Some (v\<lparr>kv_v_heads := h\<rparr>) \<and> kv_wf (v\<lparr>kv_v_heads := h\<rparr>) \<and>
    length h = length (kv_v_heads v) \<and> (\<forall>t. t \<notin> set (si_strm si) \<longrightarrow> h ! t = kv_v_heads v ! t)"
  proof (rule heads_loop_ok[OF v(2)])
    show "length (si_idxs si) = length (si_strm si)" using N by (simp add: si_n_stream_def)
    show "\<forall>t \<in> set (si_strm si). t < kv_n_stream v"
      using ub_stream_less(1)[OF wf sh(4)] si same by (auto simp: slot_valid_def kv_same_def)
    show "\<forall>ids \<in> set (si_idxs si). ids \<noteq> [] \<and> (\<forall>i \<in> set ids. i < kv_capacity v)"
      using slot_validD(4,6)[OF si] N(2) sh(1) same by (fastforce simp: in_set_conv_nth kv_same_def)
  qed
  then obtain h where h: "for_each (apply_head si) [0..<?N] v = Some (v\<lparr>kv_v_heads := h\<rparr>)" "kv_wf (v\<lparr>kv_v_heads := h\<rparr>)"
    using N(1) by auto
  let ?w = "v\<lparr>kv_v_heads := h\<rparr>"
  have ap: "kv_apply_ubatch si ub kv = Some ?w"
    using size N sh(3) u(1) v(1) h(1) by (simp add: kv_apply_ubatch_def)
  have view: "kv_view ?w q = {p \<in> kv_view kv q \<union> ub_positions ub q. ?R q < p}" for q
  proof -
    have "kv_view ?w q = kv_view v q" by (auto simp: kv_view_def has_seq_def stream_of_def)
    then show ?thesis using v(4) placed_view[OF wf ub si u(2), of q] by simp
  qed
  have sw: "kv_same kv ?w" using same by (simp add: kv_same_def kv_capacity_def)
  have "ub_positions ub q \<subseteq> {..<INT32_MAX}" for q using ub by (auto simp: ub_positions_def ub_ok_def ub_tok_ok_def)
  then have "kv_view ?w q \<subseteq> {..<INT32_MAX}" for q
    using kv pos_room_view[OF wf] by (fastforce simp: view find_ok_def)
  then have "find_ok ?w" using pos_room_view[OF h(2)] h(2) kv sw by (simp add: find_ok_def swa_ok_def kv_same_def)
  then show ?thesis using ap view sw by blast
qed

subsection \<open>Properties\<close>

definition demo_slot :: slot_info where
  "demo_slot = \<lparr>si_s0 = 0, si_s1 = 0, si_strm = [0], si_idxs = [[3]]\<rparr>"

lemma demo_ub_ok: "ub_ok demo_cache (one_token_ubatch 0 2) 1" "slot_valid demo_cache (one_token_ubatch 0 2) 1 demo_slot"
  "ub_positions (one_token_ubatch 0 2) 0 = {2}" "overwritten demo_cache demo_slot 1 q = -1"
proof -
  have tok: "ub_n_tokens (one_token_ubatch 0 2) = 1" "ub_tok_ok (one_token_ubatch 0 2) 0" "a_seq (ub_cell (one_token_ubatch 0 2) 0) = {0}"
    "ub_pos (one_token_ubatch 0 2) = [2]"
    by (simp_all add: one_token_ubatch_def ub_tok_ok_def ub_row_def ub_cell_def)
  show "ub_ok demo_cache (one_token_ubatch 0 2) 1" unfolding ub_ok_def demo_ub_shape by (simp add: tok demo_ub_shape[simplified] demo_cache_wf)
  show "slot_valid demo_cache (one_token_ubatch 0 2) 1 demo_slot"
    using demo_usable[of 3] by (simp add: slot_valid_def demo_ub_shape demo_slot_def demo_find_ok)
  show "ub_positions (one_token_ubatch 0 2) 0 = {2}" by (auto simp: ub_positions_def tok)
  show "overwritten demo_cache demo_slot 1 q = -1"
    by (simp add: overwritten_def demo_slot_def demo_cache_wf note_overwrite_def)
qed

text \<open>
  C20. Placing a micro-batch in the slot found for it always succeeds (no assertion fails) and keeps the cache
  well-formed. Afterwards each sequence holds its old positions and those of its new tokens, less everything
  up to the greatest of its positions that the slot overwrote.
\<close>

theorem apply_ubatch_view:
  assumes "find_ok kv" "ub_ok kv ub n" "slot_valid kv ub n si"
  shows "\<exists>kv'. kv_apply_ubatch si ub kv = Some kv' \<and> find_ok kv' \<and> kv_same kv kv' \<and>
    (\<forall>q. kv_view kv' q = {p \<in> kv_view kv q \<union> ub_positions ub q. overwritten kv si (ub_n_parts kv ub) q < p})"
  by (rule apply_ubatch_spec[OF assms])

theorem apply_ubatch_view_witness:
  "\<exists>kv'. kv_apply_ubatch demo_slot (one_token_ubatch 0 2) demo_cache = Some kv' \<and> kv_view kv' 0 = {0, 1, 2}"
proof -
  have "{p \<in> {0, 1} \<union> {2}. (-1 :: int) < p} = {0, 1, 2}" by auto
  then show ?thesis
    using apply_ubatch_view[OF demo_find_ok(1) demo_ub_ok(1,2)] by (auto simp: demo_ub_ok demo_cache_view demo_ub_shape simp flip: One_nat_def)
qed

text \<open>
  The invariant stated in \<^verbatim>\<open>apply_ubatch\<close>: if every sequence holds all positions between its first and its
  last, and the new tokens of a sequence continue it (or start it) without a gap, then this is so afterwards,
  also when the sliding window let the slot overwrite old tokens.
\<close>

theorem apply_ubatch_contiguous:
  assumes "find_ok kv" "ub_ok kv ub n" "slot_valid kv ub n si"
    and cont: "\<forall>q. \<exists>a b c. a \<le> b \<and> b \<le> c \<and> kv_view kv q = {a..<b} \<and> ub_positions ub q = {b..<c}"
  shows "\<exists>kv'. kv_apply_ubatch si ub kv = Some kv' \<and> (\<forall>q. \<exists>a b. kv_view kv' q = {a..<b})"
proof -
  let ?R = "overwritten kv si (ub_n_parts kv ub)"
  obtain kv' where k: "kv_apply_ubatch si ub kv = Some kv'" "\<And>q. kv_view kv' q = {p \<in> kv_view kv q \<union> ub_positions ub q. ?R q < p}"
    using apply_ubatch_spec[OF assms(1-3)] by blast
  have "\<exists>a b. kv_view kv' q = {a..<b}" for q
  proof -
    obtain a b c where "a \<le> b" "b \<le> c" "kv_view kv q = {a..<b}" "ub_positions ub q = {b..<c}" using cont by metis
    then have "kv_view kv' q = {max a (?R q + 1)..<c}" using k(2)[of q] by auto
    then show ?thesis by blast
  qed
  then show ?thesis using k(1) by blast
qed

text \<open>A full cache of two cells with a window of two: the older token may be overwritten.\<close>

definition window_cache :: kv_cache where
  "window_cache = \<lparr>kv_n_seq_max = 1, kv_n_stream = 1, kv_n_pad = 1, kv_n_swa = 2, kv_swa_type = SWA_STANDARD,
     kv_v_trans = False, kv_v_heads = [2], kv_v_cells = [cells_of False [ACell 4 {0} 0, ACell 5 {0} 0]],
     kv_seq_to_stream = replicate LLAMA_MAX_SEQ 0, kv_sc_ssrc = [], kv_sc_sdst = []\<rparr>"

definition window_slot :: slot_info where
  "window_slot = \<lparr>si_s0 = 0, si_s1 = 0, si_strm = [0], si_idxs = [[0]]\<rparr>"

lemma window_cache_facts: "find_ok window_cache" "ub_ok window_cache (one_token_ubatch 0 6) 1"
  "slot_valid window_cache (one_token_ubatch 0 6) 1 window_slot" "kv_view window_cache q = (if q = 0 then {4, 5} else {})"
  "ub_positions (one_token_ubatch 0 6) q = (if q = 0 then {6} else {})"
proof -
  let ?xs = "[ACell 4 {0} 0, ACell 5 {0} 0]"
  have fields: "kv_n_stream window_cache = 1" "stream_cells window_cache 0 = ?xs" "kv_capacity window_cache = 2"
    "has_seq window_cache q \<longleftrightarrow> q < 256" "stream_of window_cache q = 0" "has_seq window_cache 0" for q
    by (simp_all add: window_cache_def has_seq_def stream_of_def kv_capacity_def)
  have "acells_full ?xs" by (simp add: acell_full_def acell_ok_def i32_ok_def)
  then have "stream_wf window_cache 0"
    unfolding stream_wf_def by (intro exI[of _ False] exI[of _ ?xs]) (simp add: window_cache_def kv_capacity_def)
  then have "kv_wf window_cache" by (simp add: kv_wf_def) (simp add: window_cache_def)
  then show "find_ok window_cache"
    by (simp add: find_ok_def fields pos_room_def) (simp add: window_cache_def swa_ok_def)
  have tok: "ub_n_tokens (one_token_ubatch 0 6) = 1" "ub_tok_ok (one_token_ubatch 0 6) 0" "a_seq (ub_cell (one_token_ubatch 0 6) 0) = {0}"
    "ub_pos (one_token_ubatch 0 6) = [6]"
    by (simp_all add: one_token_ubatch_def ub_tok_ok_def ub_row_def ub_cell_def)
  have sh: "ub_shape window_cache (one_token_ubatch 0 6) 1" "ub_n_parts window_cache (one_token_ubatch 0 6) = 1"
      "ub_stream window_cache (one_token_ubatch 0 6) 0 = 0"
    by (simp_all add: ub_shape_def ub_n_parts_def fields one_token_ubatch_def ub_stream_def)
  then show "ub_ok window_cache (one_token_ubatch 0 6) 1" by (simp add: ub_ok_def tok fields)
  have "seq_positions 0 ?xs = {4, 5}" by (auto simp: seq_positions_alt)
  then have "usable_at window_cache 0 0"
    by (simp add: usable_at_def fields usable_def kv_is_masked_swa_def is_masked_swa_def) (simp add: window_cache_def)
  then show "slot_valid window_cache (one_token_ubatch 0 6) 1 window_slot"
    by (simp add: slot_valid_def sh window_slot_def fields)
  show "kv_view window_cache q = (if q = 0 then {4, 5} else {})" by (auto simp: kv_view_def fields seq_positions_alt)
  show "ub_positions (one_token_ubatch 0 6) q = (if q = 0 then {6} else {})" by (auto simp: ub_positions_def tok)
qed

theorem apply_ubatch_contiguous_witness:
  "\<exists>kv'. kv_apply_ubatch window_slot (one_token_ubatch 0 6) window_cache = Some kv' \<and> (\<forall>q. \<exists>a b. kv_view kv' q = {a..<b})"
proof -
  have i: "{4, 5 :: int} = {4..<6}" "{6 :: int} = {6..<7}" by auto
  have "\<exists>a b c. a \<le> b \<and> b \<le> c \<and> kv_view window_cache q = {a..<b} \<and> ub_positions (one_token_ubatch 0 6) q = {b..<c}" for q
  proof (cases "q = 0")
    case True
    then show ?thesis unfolding window_cache_facts if_P[OF True] i by (intro exI[of _ 4] exI[of _ 6] exI[of _ 7]) simp
  next
    case False
    then show ?thesis unfolding window_cache_facts if_not_P[OF False] by (intro exI[of _ 0]) simp
  qed
  then show ?thesis using apply_ubatch_contiguous[OF window_cache_facts(1-3)] by blast
qed

end
