(* ===== verification/KV_Prepare.thy ===== *)
theory KV_Prepare
  imports KV_Apply
begin

text \<open>
  \<^verbatim>\<open>prepare\<close> places the micro-batches of a batch one after the other to see whether they fit, and puts the cells
  back. Without a sliding window the cells used are empty before; with one stream the dry run then leaves the
  cache exactly as it was, with several streams it may move a head.
\<close>

subsection \<open>Empty slots\<close>

text \<open>A cache without sliding window, and a micro-batch that goes to one stream of it.\<close>

definition plain :: "kv_cache \<Rightarrow> bool" where
  "plain kv \<longleftrightarrow> find_ok kv \<and> kv_swa_type kv = SWA_NONE"

lemma find_ok_room:
  assumes "find_ok kv"
  shows "\<forall>q. INT32_MAX \<notin> kv_view kv q"
proof
  fix q
  have "kv_wf kv" using assms by (simp add: find_ok_def)
  show "INT32_MAX \<notin> kv_view kv q"
  proof (cases "has_seq kv q")
    case True
    have "pos_room (stream_cells kv (stream_of kv q))"
      using assms kv_stream_ok(4)[OF \<open>kv_wf kv\<close> True] by (simp add: find_ok_def)
    then show ?thesis using True by (force simp: kv_view_def seq_positions_def pos_room_def)
  qed (simp add: kv_view_def)
qed

definition narrow :: "kv_cache \<Rightarrow> llama_ubatch \<Rightarrow> bool" where
  "narrow kv ub \<longleftrightarrow> ub_ok kv ub (ub_n_tokens ub) \<and> ub_n_parts kv ub = 1"

abbreviation the_stream :: "kv_cache \<Rightarrow> llama_ubatch \<Rightarrow> nat" where
  "the_stream kv ub \<equiv> ub_stream kv ub 0"

lemma plainE:
  assumes "plain kv" "t < kv_n_stream kv"
  obtains hs xs where "kv_v_cells kv ! t = cells_of hs xs" "acells_full xs" "length xs = kv_capacity kv"
    "t < length (kv_v_cells kv)" "t < length (kv_v_heads kv)"
  using kv_wfD[of kv t] assms unfolding plain_def find_ok_def by metis

lemma narrowD:
  assumes "plain kv" "narrow kv ub"
  shows "ub_ok kv ub (ub_n_tokens ub)" "ub_n_parts kv ub = 1" "0 < ub_n_tokens ub" "the_stream kv ub < kv_n_stream kv"
proof -
  show ok: "ub_ok kv ub (ub_n_tokens ub)" "ub_n_parts kv ub = 1" using assms(2) by (simp_all add: narrow_def)
  then show "0 < ub_n_tokens ub" by (simp add: ub_ok_def ub_shape_def)
  show "the_stream kv ub < kv_n_stream kv"
    using ub_stream_less(1)[of kv ub "ub_n_tokens ub" 0] ok assms(1) by (simp add: ub_ok_def plain_def find_ok_def)
qed

definition free_cells :: "kv_cache \<Rightarrow> nat \<Rightarrow> nat set" where
  "free_cells kv t = {i. i < kv_capacity kv \<and> a_pos (stream_cells kv t ! i) = -1}"

text \<open>The slot lies in empty cells.\<close>

lemma plain_slot:
  assumes kv: "plain kv" and ub: "narrow kv ub" and si: "slot_valid kv ub (ub_n_tokens ub) si"
  obtains ids where "si_strm si = [the_stream kv ub]" "si_idxs si = [ids]" "length ids = ub_n_tokens ub" "distinct ids"
    "set ids \<subseteq> free_cells kv (the_stream kv ub)"
proof -
  note p = narrowD[OF kv ub]
  have strm: "si_strm si = [the_stream kv ub]" using si p by (simp add: slot_valid_def)
  obtain ids where ids: "si_idxs si = [ids]" using si p by (auto simp: slot_valid_def length_Suc_conv)
  have "length ids = ub_n_tokens ub" "distinct ids" using slot_validD(4,5)[OF si, of 0] p ids by simp_all
  moreover have "set ids \<subseteq> free_cells kv (the_stream kv ub)"
    using si p ids kv by (auto simp: slot_valid_def free_cells_def usable_at_def usable_empty_only plain_def)
  ultimately show ?thesis using that[OF strm ids] by blast
qed

lemma free_no_cell:
  assumes "plain kv" "t < kv_n_stream kv" "i \<in> free_cells kv t"
  shows "stream_cells kv t ! i = no_cell"
proof -
  obtain hs xs where c: "kv_v_cells kv ! t = cells_of hs xs" "acells_full xs" "length xs = kv_capacity kv" using plainE[OF assms(1,2)] by metis
  then have "a_pos (xs ! i) = -1" "xs ! i \<in> set xs" using assms(3) by (auto simp: free_cells_def)
  then show ?thesis using c acell_full_cases by fastforce
qed

lemma plain_overwritten:
  assumes kv: "plain kv" "t < kv_n_stream kv" and si: "si_strm si = [t]" "si_idxs si = [ids]" "set ids \<subseteq> free_cells kv t"
  shows "overwritten kv si 1 q = -1"
proof (rule ccontr)
  assume n: "overwritten kv si 1 q \<noteq> -1"
  obtain s idx where s: "s < 1" "idx \<in> set (si_idxs si ! s)" "q \<in> a_seq (stream_cells kv (si_strm si ! s) ! idx)"
    using overwritten_props(3)[OF n] by blast
  then have "stream_cells kv t ! idx = no_cell" using free_no_cell[OF kv, of idx] si by auto
  then show False using s si(1) by simp
qed

lemma plain_apply:
  assumes kv: "plain kv" and ub: "narrow kv ub" and si: "slot_valid kv ub (ub_n_tokens ub) si"
    and t: "t = the_stream kv ub" and c: "kv_v_cells kv ! t = cells_of hs xs" and ids: "si_idxs si = [ids]"
  shows "kv_apply_ubatch si ub kv = Some (kv_set_stream t (cells_of hs (place ub 0 ids xs)) (last ids + 1) kv)"
proof -
  let ?n = "ub_n_tokens ub"
  note p = narrowD[OF kv ub, folded t]
  have wf: "kv_wf kv" using kv by (simp add: plain_def find_ok_def)
  obtain ids' where i': "si_strm si = [t]" "si_idxs si = [ids']" "length ids' = ?n" "distinct ids'" "set ids' \<subseteq> free_cells kv t"
    using plain_slot[OF kv ub si, folded t] .
  have i: "si_strm si = [t]" "length ids = ?n" "set ids \<subseteq> free_cells kv t" using i' ids by auto
  have ow: "overwritten kv si 1 = (\<lambda>_. -1)" using plain_overwritten[OF kv p(4) i(1) ids i(3)] by blast
  have len: "t < length (kv_v_cells kv)" "t < length (kv_v_heads kv)" using kv_wf_lengths[OF wf p(4)] by simp_all
  obtain u where u: "for_each (apply_stream si ub ?n) [0..<1] (kv, \<lambda>_. -1) = Some (u, \<lambda>_. -1)" "placed kv si ub ?n 1 u"
    using apply_streams_ok[OF wf p(1) si] p(2) ow by auto
  let ?cs = "(kv_v_cells kv)[t := cells_of hs (place ub 0 ids xs)]"
  have cs: "kv_v_cells u = ?cs"
  proof (rule nth_equalityI)
    show "length (kv_v_cells u) = length ?cs" using u(2) by (simp add: placed_def)
    show "kv_v_cells u ! j = ?cs ! j" if "j < length (kv_v_cells u)" for j
      using u(2) i(1) ids c len(1) by (cases "j = t") (auto simp: placed_def placed_cells_def)
  qed
  obtain cs' where "u = kv\<lparr>kv_v_cells := cs'\<rparr>" using u(2) unfolding placed_def by blast
  then have ueq: "u = kv\<lparr>kv_v_cells := ?cs\<rparr>" using cs by simp
  have purge: "for_each (apply_purge (\<lambda>_. -1)) ms u = Some u" for ms by (induction ms) (simp_all add: apply_purge_def)
  have "ids \<noteq> []" using i(2) p(3) by auto
  then have "for_each (apply_head si) [0..<1] u = Some (kv_set_stream t (cells_of hs (place ub 0 ids xs)) (last ids + 1) kv)"
    using i(1) ids ueq len by (simp add: apply_head_def kv_set_stream_def)
  then show ?thesis
    using u(1) purge i ids by (simp add: kv_apply_ubatch_def si_size_def si_n_stream_def)
qed

text \<open>
  Placing a micro-batch and putting the saved cells back gives the old cache, but for the head of the
  stream, which becomes that of stream 0.
\<close>

lemma plain_restore:
  assumes kv: "plain kv" and ub: "narrow kv ub" and si: "slot_valid kv ub (ub_n_tokens ub) si" and t: "t = the_stream kv ub"
  shows "\<exists>ps kv'. prep_save si kv = Some ps \<and> kv_apply_ubatch si ub kv = Some kv' \<and>
    prep_restore ps kv' = Some (kv\<lparr>kv_v_heads := (kv_v_heads kv)[t := kv_v_heads kv ! 0]\<rparr>) \<and>
    plain kv' \<and> kv_same kv kv' \<and> free_cells kv' t = free_cells kv t - set (hd (si_idxs si))"
proof -
  note p = narrowD[OF kv ub, folded t]
  have ok: "find_ok kv" using kv by (simp add: plain_def)
  obtain ids where i: "si_strm si = [t]" "si_idxs si = [ids]" "length ids = ub_n_tokens ub" "distinct ids" "set ids \<subseteq> free_cells kv t"
    using plain_slot[OF kv ub si, folded t] .
  obtain hs xs where c: "kv_v_cells kv ! t = cells_of hs xs" "acells_full xs" "length xs = kv_capacity kv"
      "t < length (kv_v_cells kv)" "t < length (kv_v_heads kv)"
    using plainE[OF kv p(4)] .
  have free: "j < length xs \<and> xs ! j = no_cell" if "j \<in> set ids" for j
  proof -
    have "j \<in> free_cells kv t" using that i(5) by blast
    then show ?thesis using free_no_cell[OF kv p(4)] c by (auto simp: free_cells_def)
  qed
  obtain r where r: "cells_cp ids (cells_of hs xs) = Some r" "kc_pos r = map (\<lambda>i. a_pos (xs ! i)) ids" "kc_seq r = map (\<lambda>i. a_seq (xs ! i)) ids"
    using cells_cp_of[of ids xs hs] free by auto
  let ?ps = "\<lparr>ps_sinfo = si, ps_v_heads_old = kv_v_heads kv, ps_v_cells = [r]\<rparr>"
  have save: "prep_save si kv = Some ?ps" using i c r(1) by (simp add: prep_save_def si_n_stream_def)
  let ?ys = "place ub 0 ids xs"
  let ?kv = "kv_set_stream t (cells_of hs ?ys) (last ids + 1) kv"
  have ap: "kv_apply_ubatch si ub kv = Some ?kv" by (rule plain_apply[OF kv ub si t c(1) i(2)])
  have tok: "\<forall>k < length ids. ub_tok_ok ub (0 + k)" using p(1) i(3) by (simp add: ub_ok_def)
  have "cells_set ids r (cells_of hs ?ys) = Some (cells_of hs (put_all ids (map (\<lambda>i. xs ! i) ids) ?ys))"
  proof (rule cells_set_of)
    show "acells_ok ?ys" by (rule acells_full_ok[OF place_full[OF c(2) tok]])
    show "a_shift (?ys ! j) = 0" if "j \<in> set ids" for j
    proof -
      obtain k where k: "k < length ids" "j = ids ! k" using \<open>j \<in> set ids\<close> by (auto simp: in_set_conv_nth)
      have "ids ! k < length xs" using free[OF \<open>j \<in> set ids\<close>] k by simp
      then show ?thesis using place_nth[OF i(4) k(1), of xs ub 0] k(2) by (simp add: ub_cell_def)
    qed
  qed (use free r in \<open>auto simp: comp_def\<close>)
  also have "put_all ids (map (\<lambda>i. xs ! i) ids) ?ys = xs" by (rule put_all_restore) (simp_all add: place_other)
  finally have set: "cells_set ids r (cells_of hs ?ys) = Some (cells_of hs xs)" .
  have "(kv_v_cells kv)[t := cells_of hs xs] = kv_v_cells kv" using c(1) by (metis list_update_id)
  moreover have "0 < length (kv_v_heads kv)" using c(5) by linarith
  ultimately have rest: "prep_restore ?ps ?kv = Some (kv\<lparr>kv_v_heads := (kv_v_heads kv)[t := kv_v_heads kv ! 0]\<rparr>)"
    using i(1,2) c(4,5) set by (simp add: prep_restore_def prep_restore1_def si_n_stream_def kv_set_stream_def)
  obtain kv' where k: "kv_apply_ubatch si ub kv = Some kv'" "find_ok kv'" "kv_same kv kv'" using apply_ubatch_spec[OF ok p(1) si] by blast
  then have kv': "find_ok ?kv" "kv_same kv ?kv" using ap by simp_all
  then have "plain ?kv" using kv by (simp add: plain_def kv_same_def)
  moreover have "free_cells ?kv t = free_cells kv t - set (hd (si_idxs si))"
  proof -
    have "a_pos (?ys ! j) = -1 \<longleftrightarrow> a_pos (xs ! j) = -1 \<and> j \<notin> set ids" if "j < length xs" for j
    proof (cases "j \<in> set ids")
      case True
      then obtain k where k: "k < length ids" "j = ids ! k" by (auto simp: in_set_conv_nth)
      then have "?ys ! j = ub_cell ub k" using place_nth[OF i(4) k(1), of xs ub 0] that by simp
      moreover have "0 \<le> ub_pos ub ! k" using tok k(1) by (simp add: ub_tok_ok_def)
      ultimately show ?thesis using True by simp
    qed (simp add: place_other)
    then show ?thesis using c i(2) kv'(2) by (auto simp: free_cells_def kv_same_def)
  qed
  ultimately show ?thesis using save ap rest kv'(2) by blast
qed

lemma plain_view:
  assumes kv: "plain kv" and ub: "narrow kv ub" and si: "slot_valid kv ub (ub_n_tokens ub) si" and ap: "kv_apply_ubatch si ub kv = Some kv'"
  shows "kv_view kv' q = kv_view kv q \<union> ub_positions ub q"
proof -
  note p = narrowD[OF kv ub]
  have ok: "find_ok kv" using kv by (simp add: plain_def)
  obtain ids where i: "si_strm si = [the_stream kv ub]" "si_idxs si = [ids]" "set ids \<subseteq> free_cells kv (the_stream kv ub)"
    using plain_slot[OF kv ub si] by metis
  have "kv_view kv' q = {p \<in> kv_view kv q \<union> ub_positions ub q. -1 < p}"
    using apply_ubatch_spec[OF ok p(1) si] ap plain_overwritten[OF kv p(4) i] p(2) by auto
  moreover have "kv_view kv q \<subseteq> {0..INT32_MAX}" using kv_view_range[of kv q] ok by (simp add: find_ok_def)
  moreover have "ub_positions ub q \<subseteq> {0..}" using p(1) by (auto simp: ub_positions_def ub_ok_def ub_tok_ok_def)
  ultimately show ?thesis by force
qed

lemma plain_find:
  assumes kv: "plain kv" and ub: "narrow kv ub"
  shows "\<exists>si. kv_find_slot ub False kv = Some si \<and> (si_empty si \<longleftrightarrow> card (free_cells kv (the_stream kv ub)) < ub_n_tokens ub) \<and>
    (\<not> si_empty si \<longrightarrow> slot_valid kv ub (ub_n_tokens ub) si)"
proof -
  have "{i. i < kv_capacity kv \<and> usable_at kv (the_stream kv ub) i} = free_cells kv (the_stream kv ub)"
    using kv by (auto simp: free_cells_def usable_at_def usable_empty_only plain_def)
  then show ?thesis
    using find_slot_ok[of kv ub "ub_n_tokens ub"] kv narrowD[OF kv ub] by (simp add: plain_def ub_ok_def)
qed

lemma ub_ok_same:
  assumes "kv_same kv kv'"
  shows "ub_ok kv' ub n = ub_ok kv ub n"
proof -
  have s: "has_seq kv' = has_seq kv" "stream_of kv' = stream_of kv" "kv_n_stream kv' = kv_n_stream kv"
    using kv_same_seqs[OF assms] assms by (auto simp: kv_same_def)
  then have "ub_n_parts kv' = ub_n_parts kv" "ub_stream kv' = ub_stream kv" by (auto simp: ub_n_parts_def ub_stream_def fun_eq_iff)
  then show ?thesis using s by (simp add: ub_ok_def ub_shape_def)
qed

subsection \<open>The dry run\<close>

abbreviation place_all :: "slot_info list \<Rightarrow> llama_ubatch list \<Rightarrow> kv_cache \<Rightarrow> kv_cache option" where
  "place_all sis ubs \<equiv> for_each (\<lambda>(si, ub). kv_apply_ubatch si ub) (zip sis ubs)"

lemma prep_place_ok:
  assumes "plain kv" "kv_n_stream kv = 1" "\<forall>ub \<in> set ubs. ub_ok kv ub (ub_n_tokens ub)"
  shows "\<exists>b sis pss kv'. prep_place ubs res sts kv = Some (b, res @ sis, sts @ pss, kv') \<and>
    for_each prep_restore (rev pss) kv' = Some kv \<and> length pss = length sis \<and> (\<forall>si \<in> set sis. si_strm si = [0]) \<and>
    (b \<longleftrightarrow> sum_list (map ub_n_tokens ubs) \<le> card (free_cells kv 0)) \<and>
    (b \<longrightarrow> length sis = length ubs \<and> place_all sis ubs kv = Some kv' \<and>
      (\<forall>q. kv_view kv' q = kv_view kv q \<union> (\<Union>ub \<in> set ubs. ub_positions ub q)))"
  using assms
proof (induction ubs arbitrary: kv res sts)
  case Nil
  then show ?case by (intro exI[of _ True] exI[of _ "[]"] exI[of _ kv]) simp
next
  case (Cons ub ubs)
  let ?n = "ub_n_tokens ub"
  have ub: "narrow kv ub" using Cons.prems(2,3) by (simp add: narrow_def ub_n_parts_def)
  have t: "the_stream kv ub = 0" using Cons.prems(2) by (simp add: ub_stream_def stream_of_def)
  obtain si where si: "kv_find_slot ub False kv = Some si" "si_empty si \<longleftrightarrow> card (free_cells kv 0) < ?n" "\<not> si_empty si \<longrightarrow> slot_valid kv ub ?n si"
    using plain_find[OF Cons.prems(1) ub] unfolding t by blast
  show ?case
  proof (cases "si_empty si")
    case True
    then show ?thesis using si by (intro exI[of _ False] exI[of _ "[]"] exI[of _ kv]) simp
  next
    case False
    then have sv: "slot_valid kv ub ?n si" using si(3) by simp
    have same_head: "kv\<lparr>kv_v_heads := (kv_v_heads kv)[0 := kv_v_heads kv ! 0]\<rparr> = kv" by simp
    obtain ps kv1 where k: "prep_save si kv = Some ps" "kv_apply_ubatch si ub kv = Some kv1" "prep_restore ps kv1 = Some kv" "plain kv1"
        "kv_same kv kv1" "free_cells kv1 0 = free_cells kv 0 - set (hd (si_idxs si))"
      using plain_restore[OF Cons.prems(1) ub sv t[symmetric]] unfolding same_head by metis
    obtain ids where ids: "si_idxs si = [ids]" "length ids = ?n" "distinct ids" "set ids \<subseteq> free_cells kv 0" "si_strm si = [0]"
      using plain_slot[OF Cons.prems(1) ub sv] unfolding t by metis
    have card: "card (free_cells kv1 0) = card (free_cells kv 0) - ?n" "?n \<le> card (free_cells kv 0)"
      using k(6) ids si(2) False distinct_card[OF ids(3)] by (simp_all add: card_Diff_subset)
    have ubs: "\<forall>ub \<in> set ubs. ub_ok kv1 ub (ub_n_tokens ub)" "kv_n_stream kv1 = 1"
      using Cons.prems(2,3) ub_ok_same[OF k(5)] k(5) by (simp_all add: kv_same_def)
    obtain b sis pss kv2 where r: "prep_place ubs (res @ [si]) (sts @ [ps]) kv1 = Some (b, (res @ [si]) @ sis, (sts @ [ps]) @ pss, kv2)"
        "for_each prep_restore (rev pss) kv2 = Some kv1" "length pss = length sis \<and> (\<forall>si \<in> set sis. si_strm si = [0])"
        "b \<longleftrightarrow> sum_list (map ub_n_tokens ubs) \<le> card (free_cells kv1 0)"
        "b \<longrightarrow> length sis = length ubs \<and> place_all sis ubs kv1 = Some kv2 \<and>
          (\<forall>q. kv_view kv2 q = kv_view kv1 q \<union> (\<Union>ub \<in> set ubs. ub_positions ub q))"
      using Cons.IH[OF k(4) ubs(2,1), of "res @ [si]" "sts @ [ps]"] by metis
    have "prep_place (ub # ubs) res sts kv = Some (b, res @ si # sis, sts @ ps # pss, kv2)"
      using si(1) False k(1,2) r(1) by simp
    moreover have "for_each prep_restore (rev (ps # pss)) kv2 = Some kv" using r(2) k(3) by (simp add: for_each_append)
    moreover have "b \<longleftrightarrow> sum_list (map ub_n_tokens (ub # ubs)) \<le> card (free_cells kv 0)" using r(4) card by auto
    moreover have "b \<longrightarrow> length (si # sis) = length (ub # ubs) \<and> place_all (si # sis) (ub # ubs) kv = Some kv2 \<and>
        (\<forall>q. kv_view kv2 q = kv_view kv q \<union> (\<Union>ub \<in> set (ub # ubs). ub_positions ub q))"
      using r(5) k(2) plain_view[OF Cons.prems(1) ub sv k(2)] by auto
    ultimately show ?thesis using r(3) ids(5) by (intro exI[of _ b] exI[of _ "si # sis"] exI[of _ "ps # pss"] exI[of _ kv2]) simp
  qed
qed

lemma kv_prepare_ok:
  assumes "plain kv" "kv_n_stream kv = 1" "\<forall>ub \<in> set ubs. ub_ok kv ub (ub_n_tokens ub)" "ubs \<noteq> []"
  shows "\<exists>sis. kv_prepare ubs kv = Some (sis, kv) \<and> (\<forall>si \<in> set sis. si_strm si = [0]) \<and>
    (sis \<noteq> [] \<longleftrightarrow> sum_list (map ub_n_tokens ubs) \<le> card (free_cells kv 0)) \<and>
    (sis \<noteq> [] \<longrightarrow> length sis = length ubs \<and>
      (\<exists>kv'. place_all sis ubs kv = Some kv' \<and> (\<forall>q. kv_view kv' q = kv_view kv q \<union> (\<Union>ub \<in> set ubs. ub_positions ub q))))"
proof -
  obtain b sis pss kv' where r: "prep_place ubs [] [] kv = Some (b, [] @ sis, [] @ pss, kv')"
      "for_each prep_restore (rev pss) kv' = Some kv" "length pss = length sis \<and> (\<forall>si \<in> set sis. si_strm si = [0])"
      "b \<longleftrightarrow> sum_list (map ub_n_tokens ubs) \<le> card (free_cells kv 0)"
      "b \<longrightarrow> length sis = length ubs \<and> place_all sis ubs kv = Some kv' \<and>
        (\<forall>q. kv_view kv' q = kv_view kv q \<union> (\<Union>ub \<in> set ubs. ub_positions ub q))"
    using prep_place_ok[OF assms(1-3), of "[]" "[]"] by metis
  have ne: "b \<Longrightarrow> pss \<noteq> []" "b \<Longrightarrow> sis \<noteq> []" using r(3,5) assms(4) by auto
  have "kv_prepare ubs kv = Some (if b then sis else [], kv)"
    using r(1,2) ne(1) by (cases b) (auto simp: kv_prepare_def)
  then show ?thesis using r(3-5) ne(2) by (intro exI[of _ "if b then sis else []"]) auto
qed

subsection \<open>Properties\<close>

text \<open>
  C21. In a cache with one stream and no sliding window, \<^verbatim>\<open>prepare\<close> is a dry run: it leaves the cache exactly as it
  was, whether it succeeds or not. It succeeds exactly when the tokens of all micro-batches together fit in
  the empty cells; and then placing the micro-batches in the slots it returned, one after the other, succeeds
  and adds exactly their positions.
\<close>

theorem prepare_dry_run:
  assumes "plain kv" "kv_n_stream kv = 1" "\<forall>ub \<in> set ubs. ub_ok kv ub (ub_n_tokens ub)" "ubs \<noteq> []"
  shows "\<exists>sis. kv_prepare ubs kv = Some (sis, kv) \<and>
    (sis \<noteq> [] \<longleftrightarrow> sum_list (map ub_n_tokens ubs) \<le> card (free_cells kv 0)) \<and>
    (sis \<noteq> [] \<longrightarrow> length sis = length ubs \<and>
      (\<exists>kv'. place_all sis ubs kv = Some kv' \<and> (\<forall>q. kv_view kv' q = kv_view kv q \<union> (\<Union>ub \<in> set ubs. ub_positions ub q))))"
  using kv_prepare_ok[OF assms] by blast

theorem prepare_dry_run_witness:
  "\<exists>sis. kv_prepare [one_token_ubatch 0 2] demo_cache = Some (sis, demo_cache) \<and> length sis = 1"
proof -
  have p: "plain demo_cache" using demo_find_ok demo_cache_wf by (simp add: plain_def)
  have u: "\<forall>ub \<in> set [one_token_ubatch 0 2]. ub_ok demo_cache ub (ub_n_tokens ub)"
    using demo_ub_ok(1) by (simp add: one_token_ubatch_def)
  have "free_cells demo_cache 0 = {3}"
    using demo_usable by (auto simp: free_cells_def demo_find_ok demo_cache_wf usable_at_def usable_empty_only)
  then show ?thesis
    using prepare_dry_run[OF p demo_cache_wf(2) u] by (auto simp: one_token_ubatch_def)
qed

text \<open>
  With several streams \<^verbatim>\<open>prepare\<close> does not put the heads back: the old head is looked up by the number of the
  part in the micro-batch instead of its stream. A dry run of one micro-batch of sequence \<open>q\<close> that fits leaves
  the cells as they were and the head of stream \<open>q\<close> at the head of stream 0.
\<close>

theorem prepare_moves_head:
  assumes "plain kv" "narrow kv ub" "ub_n_tokens ub \<le> card (free_cells kv (ub_stream kv ub 0))"
  shows "\<exists>si. kv_prepare [ub] kv = Some ([si], kv\<lparr>kv_v_heads := (kv_v_heads kv)[ub_stream kv ub 0 := kv_v_heads kv ! 0]\<rparr>)"
proof -
  obtain si where si: "kv_find_slot ub False kv = Some si" "\<not> si_empty si" "slot_valid kv ub (ub_n_tokens ub) si"
    using plain_find[OF assms(1,2)] assms(3) by (metis leD)
  then show ?thesis using plain_restore[OF assms(1,2) si(3) refl] by (auto simp: kv_prepare_def)
qed

definition two_stream_cache :: kv_cache where
  "two_stream_cache = \<lparr>kv_n_seq_max = 2, kv_n_stream = 2, kv_n_pad = 1, kv_n_swa = 0, kv_swa_type = SWA_NONE,
     kv_v_trans = False, kv_v_heads = [1, 0],
     kv_v_cells = [cells_of False [ACell 0 {0} 0, no_cell], cells_of False [no_cell, no_cell]],
     kv_seq_to_stream = [0, 1], kv_sc_ssrc = [], kv_sc_sdst = []\<rparr>"

theorem prepare_moves_head_witness:
  "\<exists>si kv'. kv_prepare [one_token_ubatch 1 0] two_stream_cache = Some ([si], kv') \<and>
     kv_v_heads two_stream_cache = [1, 0] \<and> kv_v_heads kv' = [1, 1]"
proof -
  let ?kv = two_stream_cache and ?ub = "one_token_ubatch 1 0"
  have fields: "kv_n_stream ?kv = 2" "kv_v_cells ?kv ! 0 = cells_of False [ACell 0 {0} 0, no_cell]" "kv_v_cells ?kv ! Suc 0 = cells_of False [no_cell, no_cell]"
      "kv_capacity ?kv = 2" "kv_v_heads ?kv = [1, 0]" "has_seq ?kv q \<longleftrightarrow> q < 2" "stream_of ?kv q = q" for q
    by (auto simp: two_stream_cache_def kv_capacity_def has_seq_def stream_of_def)
  have "stream_wf ?kv 0" unfolding stream_wf_def fields
    by (intro exI[of _ False] exI[of _ "[ACell 0 {0} 0, no_cell]"]) (simp add: fields acell_full_def acell_ok_def i32_ok_def)
  moreover have "stream_wf ?kv (Suc 0)" unfolding stream_wf_def fields
    by (intro exI[of _ False] exI[of _ "[no_cell, no_cell]"]) (simp add: fields)
  ultimately have "\<forall>s < kv_n_stream ?kv. stream_wf ?kv s" by (auto simp: fields less_2_cases_iff)
  then have "kv_wf ?kv" unfolding kv_wf_def by (auto simp: two_stream_cache_def upt_rec)
  moreover have "\<forall>s < 2. pos_room (stream_cells ?kv s)" by (auto simp: less_2_cases_iff fields pos_room_def)
  ultimately have p: "plain ?kv" unfolding plain_def find_ok_def swa_ok_def by (simp add: two_stream_cache_def)
  have parts: "ub_n_parts ?kv ?ub = 1" "ub_stream ?kv ?ub 0 = 1" by (simp_all add: ub_n_parts_def ub_stream_def fields one_token_ubatch_def)
  have n: "narrow ?kv ?ub"
    unfolding narrow_def ub_ok_def ub_shape_def parts by (auto simp: fields one_token_ubatch_def ub_tok_ok_def ub_row_def ub_cell_def ub_stream_def)
  have "free_cells ?kv 1 = {0, 1}" by (auto simp: free_cells_def fields less_2_cases_iff)
  then have "ub_n_tokens ?ub \<le> card (free_cells ?kv (ub_stream ?kv ?ub 0))" by (simp add: parts) (simp add: one_token_ubatch_def)
  from prepare_moves_head[OF p n this] show ?thesis by (auto simp: parts fields)
qed

end
