(* ===== verification/Decode.thy ===== *)
theory Decode
  imports KV_Prepare "HOL-Library.Multiset"
begin

text \<open>
  \<^verbatim>\<open>llama_context::decode\<close> of \<^verbatim>\<open>llama-context.cpp\<close> with the unified KV cache as its memory: initialising the batch,
  reserving memory for its micro-batches, running them, cleaning up after a failed one, and the bookkeeping
  that finds the logits of a token again. The computation of a micro-batch is a parameter: it gives one row
  of logits per output token or a failure status. Embedding outputs, timing and graph reservation are left
  out.
\<close>

subsection \<open>Definitions\<close>

datatype ggml_status = GGML_STATUS_ALLOC_FAILED | GGML_STATUS_FAILED | GGML_STATUS_SUCCESS | GGML_STATUS_ABORTED

record 'r llama_context =
  lc_kv :: kv_cache
  lc_balloc :: llama_batch_allocr
  lc_n_outputs :: nat
  lc_output_ids :: "int list"
  lc_output_swaps :: "(nat \<times> nat) list"
  lc_logits :: "'r list"

text \<open>
  Parameters: \<open>lp_n_seq_max\<close> is \<^verbatim>\<open>kv_unified ? LLAMA_MAX_SEQ : n_seq_max\<close>; \<open>lp_shift\<close> whether the model uses
  rotary positions and whether the shift graph was computed; \<open>lp_reserve\<close> whether the output buffer could
  be allocated; \<open>lp_compute\<close> runs the graph of a micro-batch with that many outputs on the cache as it is then.
\<close>

record 'r decode_params =
  lp_n_vocab :: nat
  lp_n_embd :: nat
  lp_n_seq_max :: nat
  lp_n_batch :: nat
  lp_n_ubatch :: nat
  lp_causal_attn :: bool
  lp_shift :: "bool \<times> bool"
  lp_reserve :: bool
  lp_compute :: "nat \<Rightarrow> llama_ubatch \<Rightarrow> kv_cache \<Rightarrow> ggml_status + 'r list"

text \<open>A sequence id out of range, which would abort, is not asked for: \<open>init\<close> stays below \<open>lp_n_seq_max\<close>.\<close>

definition kv_mem_view :: "kv_cache \<Rightarrow> mem_view" where
  "kv_mem_view kv = \<lparr>mv_seq_pos_min = (\<lambda>s. case kv_seq_pos_min (int s) kv of Some p \<Rightarrow> p | None \<Rightarrow> -1),
     mv_seq_pos_max = (\<lambda>s. case kv_seq_pos_max (int s) kv of Some p \<Rightarrow> p | None \<Rightarrow> -1)\<rparr>"

definition memory_update :: "bool \<times> bool \<Rightarrow> kv_cache \<Rightarrow> (bool \<times> kv_cache) option" where
  "memory_update shift kv = do {
     (x, kv) \<leftarrow> kv_init_update kv;
     (case kx_status x of
        MS_SUCCESS \<Rightarrow> do { (_, kv) \<leftarrow> kx_apply (fst shift) (snd shift) x kv; Some (True, kv) }
      | _ \<Rightarrow> Some (False, kv)) }"

text \<open>The loop that asks for a memory context, once more after an update: \<open>Inl\<close> is the return code of \<open>decode\<close>.\<close>

function decode_slots :: "bool \<Rightarrow> bool \<times> bool \<Rightarrow> nat \<Rightarrow> llama_batch_allocr \<Rightarrow> kv_cache
    \<Rightarrow> ((int + kv_context) \<times> llama_batch_allocr \<times> kv_cache) option" where
  "decode_slots did_optimize shift n_ubatch a kv = do {
     (x, a, kv) \<leftarrow> kv_init_batch a n_ubatch kv;
     (case kx_status x of
        MS_SUCCESS \<Rightarrow> Some (Inr x, a, kv)
      | MS_NO_UPDATE \<Rightarrow> Some (Inl (-2), a, kv)
      | MS_FAILED_PREPARE \<Rightarrow> if did_optimize then Some (Inl 1, a, kv) else do {
          (updated, kv) \<leftarrow> memory_update shift kv;
          if updated then decode_slots True shift n_ubatch a kv else Some (Inl 1, a, kv) }
      | MS_FAILED_COMPUTE \<Rightarrow> Some (Inl (-2), a, kv)) }"
  by pat_completeness auto
termination
  by (relation "measure (\<lambda>(did, _). if did then 0 else 1)") auto

declare decode_slots.simps [simp del]

definition ubatch_n_outputs :: "nat \<Rightarrow> nat \<Rightarrow> llama_ubatch \<Rightarrow> nat" where
  "ubatch_n_outputs n_outputs_all n_tokens_all ub = (if n_outputs_all = n_tokens_all then ub_n_tokens ub
     else length (filter (\<lambda>l. l \<noteq> 0) (take (ub_n_tokens ub) (ub_output ub))))"

text \<open>After a failed micro-batch: the least position of each first sequence, and everything from there on goes.\<close>

definition fail_pos_min :: "llama_ubatch \<Rightarrow> (nat \<Rightarrow> int) option" where
  "fail_pos_min ub = for_each (\<lambda>i pm. do {
     row \<leftarrow> vec_at (ub_seq_id ub) i;
     seq_id \<leftarrow> vec_at row 0;
     cpp_assert (0 \<le> seq_id \<and> seq_id < int LLAMA_MAX_SEQ);
     p \<leftarrow> vec_at (ub_pos ub) i;
     Some (pm(nat seq_id := min (pm (nat seq_id)) p)) }) [0..<ub_n_tokens ub] (\<lambda>_. INT32_MAX)"

definition fail_cleanup :: "llama_ubatch \<Rightarrow> kv_cache \<Rightarrow> kv_cache option" where
  "fail_cleanup ub kv = do {
     pos_min \<leftarrow> fail_pos_min ub;
     for_each (\<lambda>s kv. if pos_min s = INT32_MAX then Some kv
       else map_option snd (kv_seq_rm (int s) (pos_min s) (-1) kv)) [0..<LLAMA_MAX_SEQ] kv }"

definition fail_code :: "ggml_status \<Rightarrow> int option" where
  "fail_code st = (case st of GGML_STATUS_ABORTED \<Rightarrow> Some 2 | GGML_STATUS_ALLOC_FAILED \<Rightarrow> Some (-2)
     | GGML_STATUS_FAILED \<Rightarrow> Some (-3) | GGML_STATUS_SUCCESS \<Rightarrow> None)"

text \<open>
  The loop over the micro-batches, with the rows of logits written so far. It runs once for each micro-batch,
  so their number is fuel enough.
\<close>

primrec decode_loop :: "nat \<Rightarrow> 'r decode_params \<Rightarrow> nat \<Rightarrow> nat \<Rightarrow> kv_context \<Rightarrow> kv_cache \<Rightarrow> 'r list
    \<Rightarrow> (int \<times> nat \<times> kv_context \<times> kv_cache \<times> 'r list) option" where
  "decode_loop 0 lp n_outputs_all n_tokens_all x kv rows = None"
| "decode_loop (Suc fuel) lp n_outputs_all n_tokens_all x kv rows = do {
     ub \<leftarrow> kx_get_ubatch x;
     n_outputs \<leftarrow> Some (ubatch_n_outputs n_outputs_all n_tokens_all ub);
     (x, kv) \<leftarrow> kx_apply (fst (lp_shift lp)) (snd (lp_shift lp)) x kv;
     (case lp_compute lp n_outputs ub kv of
        Inl status \<Rightarrow> do {
          kv \<leftarrow> fail_cleanup ub kv;
          code \<leftarrow> fail_code status;
          Some (code, n_outputs, x, kv, rows) }
      | Inr res \<Rightarrow> do {
          cpp_assert (length rows + n_outputs \<le> n_outputs_all);
          rows \<leftarrow> Some (rows @ take n_outputs res);
          (more, x) \<leftarrow> kx_next x;
          if more then decode_loop fuel lp n_outputs_all n_tokens_all x kv rows else Some (0, n_outputs, x, kv, rows) }) }"

subsection \<open>Output bookkeeping\<close>

definition list_swap :: "nat \<Rightarrow> nat \<Rightarrow> 'a list \<Rightarrow> 'a list" where
  "list_swap i j xs = xs[i := xs ! j, j := xs ! i]"

definition sort_min :: "nat list \<Rightarrow> nat \<Rightarrow> nat" where
  "sort_min ids i = fold (\<lambda>j j_min. if ids ! j < ids ! j_min then j else j_min) [Suc i..<length ids] i"

definition sort_step :: "nat \<Rightarrow> nat list \<times> (nat \<times> nat) list \<Rightarrow> nat list \<times> (nat \<times> nat) list" where
  "sort_step i = (\<lambda>(ids, swaps). let j = sort_min ids i in
     if j = i then (ids, swaps) else (list_swap i j ids, swaps @ [(i, j)]))"

definition sort_outputs :: "nat list \<Rightarrow> nat list \<times> (nat \<times> nat) list" where
  "sort_outputs ids = fold sort_step [0..<length ids - 1] (ids, [])"

definition set_output_ids :: "nat list \<Rightarrow> int list \<Rightarrow> int list option" where
  "set_output_ids out_ids output_ids = for_each (\<lambda>i oi. do { t \<leftarrow> vec_at out_ids i; vec_set t (int i) oi }) [0..<length out_ids] output_ids"

definition output_mapping :: "nat list \<Rightarrow> int list \<Rightarrow> (int list \<times> nat list \<times> (nat \<times> nat) list) option" where
  "output_mapping out_ids output_ids = do {
     oi \<leftarrow> set_output_ids out_ids output_ids;
     if out_ids = [0..<length out_ids] then Some (oi, out_ids, []) else do {
     (ids, swaps) \<leftarrow> Some (sort_outputs out_ids);
     oi \<leftarrow> set_output_ids ids (map (\<lambda>_. -1) oi);
     Some (oi, ids, swaps) } }"

definition output_reorder :: "'r llama_context \<Rightarrow> 'r llama_context" where
  "output_reorder c = c\<lparr>lc_logits := fold (\<lambda>(i, j). list_swap i j) (lc_output_swaps c) (lc_logits c), lc_output_swaps := []\<rparr>"

text \<open>The row of logits of token \<open>i\<close>; errors are \<open>None\<close>.\<close>

definition get_logits_ith :: "int \<Rightarrow> 'r llama_context \<Rightarrow> 'r option" where
  "get_logits_ith i c = (let c = output_reorder c in do {
     j \<leftarrow> (if i < 0 then Some (int (lc_n_outputs c) + i)
           else if nat i \<ge> length (lc_output_ids c) then None
           else Some (lc_output_ids c ! nat i));
     if j < 0 \<or> j \<ge> int (lc_n_outputs c) then None
     else vec_at (lc_logits c) (nat j) })"

definition output_reserve :: "'r decode_params \<Rightarrow> 'r llama_context \<Rightarrow> 'r llama_context" where
  "output_reserve lp c = (let ids = (if lc_output_ids c = [] then replicate (lp_n_batch lp) 0 else lc_output_ids c) in
     if lp_reserve lp then c\<lparr>lc_output_ids := map (\<lambda>_. -1) ids, lc_n_outputs := 0\<rparr>
     else c\<lparr>lc_output_ids := ids, lc_logits := []\<rparr>)"

text \<open>From the micro-batch loop to the end of \<^verbatim>\<open>decode\<close>.\<close>

definition decode_run :: "'r decode_params \<Rightarrow> nat \<Rightarrow> nat \<Rightarrow> llama_batch_allocr \<Rightarrow> kv_context \<Rightarrow> 'r llama_context \<Rightarrow> (int \<times> 'r llama_context) option" where
  "decode_run lp n_outputs_all n_tokens_all a x c = do {
     (code, n_outputs, x, kv, rows) \<leftarrow> decode_loop (length (kx_ubatches x)) lp n_outputs_all n_tokens_all x (lc_kv c) [];
     c \<leftarrow> Some (c\<lparr>lc_kv := kv, lc_logits := rows, lc_n_outputs := n_outputs\<rparr>);
     if code \<noteq> 0 then Some (code, c) else do {
     c \<leftarrow> Some (c\<lparr>lc_n_outputs := n_outputs_all\<rparr>);
     if n_outputs_all = 0 then Some (0, c) else do {
     cpp_assert (length (ba_out_ids a) = n_outputs_all);
     (oi, ids, swaps) \<leftarrow> output_mapping (ba_out_ids a) (lc_output_ids c);
     Some (0, c\<lparr>lc_output_ids := oi, lc_output_swaps := swaps, lc_balloc := a\<lparr>ba_out_ids := ids\<rparr>\<rparr>) }} }"

definition llama_decode :: "'r decode_params \<Rightarrow> llama_batch \<Rightarrow> 'r llama_context \<Rightarrow> (int \<times> 'r llama_context) option" where
  "llama_decode lp batch_inp c = do {
     cpp_assert ((b_token batch_inp = None) \<noteq> (b_embd batch_inp = None));
     if b_n_tokens batch_inp = 0 then Some (-1, c) else do {
     (ok, a) \<leftarrow> ba_init batch_inp (lp_n_vocab lp) (Some (kv_mem_view (lc_kv c))) (lp_n_embd lp) (lp_n_seq_max lp) False (lc_balloc c);
     c \<leftarrow> Some (c\<lparr>lc_balloc := a\<rparr>);
     if \<not> ok then Some (-1, c) else do {
     n_tokens_all \<leftarrow> Some (ba_get_n_tokens a);
     n_outputs_all \<leftarrow> Some (ba_n_outputs a);
     cpp_assert (n_tokens_all \<le> lp_n_batch lp);
     cpp_assert (lp_causal_attn lp \<or> lp_n_ubatch lp \<ge> n_tokens_all);
     c \<leftarrow> Some (c\<lparr>lc_output_swaps := []\<rparr>);
     (_, kv) \<leftarrow> memory_update (lp_shift lp) (lc_kv c);
     (r, a, kv) \<leftarrow> decode_slots False (lp_shift lp) (lp_n_ubatch lp) a kv;
     c \<leftarrow> Some (c\<lparr>lc_kv := kv, lc_balloc := a\<rparr>);
     (case r of
        Inl code \<Rightarrow> Some (code, c)
      | Inr x \<Rightarrow> do {
          c \<leftarrow> Some (output_reserve lp c);
          if \<not> lp_reserve lp \<and> 0 < n_outputs_all then Some (-2, c)
          else decode_run lp n_outputs_all n_tokens_all a x c }) }} }"

subsection \<open>Lemmas on the output order\<close>

abbreviation apply_swaps :: "(nat \<times> nat) list \<Rightarrow> 'a list \<Rightarrow> 'a list" where
  "apply_swaps sw \<equiv> fold (\<lambda>(i, j). list_swap i j) sw"

lemma length_list_swap [simp]: "length (list_swap i j xs) = length xs"
  by (simp add: list_swap_def)

lemma length_apply_swaps [simp]: "length (apply_swaps sw xs) = length xs"
  by (induction sw arbitrary: xs) auto

lemma list_swap_nth:
  "i < length xs \<Longrightarrow> j < length xs \<Longrightarrow> k < length xs \<Longrightarrow> list_swap i j xs ! k = (if k = i then xs ! j else if k = j then xs ! i else xs ! k)"
  by (auto simp: list_swap_def nth_list_update)

lemma list_swap_zip:
  assumes "length xs = length ys" "i < length xs" "j < length xs"
  shows "list_swap i j (zip xs ys) = zip (list_swap i j xs) (list_swap i j ys)"
  by (rule nth_equalityI) (use assms in \<open>auto simp: list_swap_nth\<close>)

lemma mset_list_swap: "i < length xs \<Longrightarrow> j < length xs \<Longrightarrow> mset (list_swap i j xs) = mset xs"
  using mset_swap[of j xs i] by (simp add: list_swap_def)

abbreviation swaps_in :: "nat \<Rightarrow> (nat \<times> nat) list \<Rightarrow> bool" where
  "swaps_in n sw \<equiv> \<forall>(i, j) \<in> set sw. i < n \<and> j < n"

lemma mset_apply_swaps: "swaps_in (length xs) sw \<Longrightarrow> mset (apply_swaps sw xs) = mset xs"
proof (induction sw arbitrary: xs)
  case (Cons p sw)
  then show ?case by (cases p) (auto simp: mset_list_swap)
qed simp

lemma apply_swaps_zip:
  "length xs = length ys \<Longrightarrow> swaps_in (length xs) sw \<Longrightarrow> apply_swaps sw (zip xs ys) = zip (apply_swaps sw xs) (apply_swaps sw ys)"
proof (induction sw arbitrary: xs ys)
  case (Cons p sw)
  then show ?case by (cases p) (auto simp: list_swap_zip)
qed simp

lemma sort_min_upto:
  fixes ids :: "nat list"
  assumes "i < m" "m \<le> length ids"
  shows "let j = fold (\<lambda>j j_min. if ids ! j < ids ! j_min then j else j_min) [Suc i..<m] i in
    i \<le> j \<and> j < m \<and> (\<forall>k \<in> {i..<m}. ids ! j \<le> ids ! k)"
  using assms
proof (induction m)
  case (Suc m)
  show ?case
  proof (cases "i = m")
    case False
    then have im: "i < m" using Suc.prems by simp
    then have up: "[Suc i..<Suc m] = [Suc i..<m] @ [m]" by simp
    let ?j = "fold (\<lambda>j j_min. if ids ! j < ids ! j_min then j else j_min) [Suc i..<m] i"
    have IH: "i \<le> ?j" "?j < m" "\<forall>k \<in> {i..<m}. ids ! ?j \<le> ids ! k" using Suc.IH im Suc.prems by (simp_all add: Let_def)
    have "\<forall>k \<in> {i..<Suc m}. ids ! (if ids ! m < ids ! ?j then m else ?j) \<le> ids ! k"
    proof
      fix k assume k: "k \<in> {i..<Suc m}"
      show "ids ! (if ids ! m < ids ! ?j then m else ?j) \<le> ids ! k"
      proof (cases "k = m")
        case True
        then show ?thesis by (auto simp: not_less)
      next
        case False
        then have "ids ! ?j \<le> ids ! k" using IH(3) k by simp
        then show ?thesis by simp
      qed
    qed
    then show ?thesis using IH(1,2) im unfolding up by (simp add: Let_def)
  qed simp
qed simp

lemma sort_min_spec:
  assumes "i < length ids"
  shows "i \<le> sort_min ids i" "sort_min ids i < length ids" "k \<in> {i..<length ids} \<Longrightarrow> ids ! sort_min ids i \<le> ids ! k"
  using sort_min_upto[OF assms order_refl] by (simp_all add: Let_def sort_min_def)

definition sort_inv :: "nat list \<Rightarrow> nat \<Rightarrow> nat list \<times> (nat \<times> nat) list \<Rightarrow> bool" where
  "sort_inv ids0 m = (\<lambda>(ids, sw). swaps_in (length ids0) sw \<and> ids = apply_swaps sw ids0 \<and>
     (\<forall>a b. a < m \<longrightarrow> a < b \<longrightarrow> b < length ids0 \<longrightarrow> ids ! a \<le> ids ! b))"

lemma sort_inv_step:
  assumes inv: "sort_inv ids0 m st" and m: "m < length ids0"
  shows "sort_inv ids0 (Suc m) (sort_step m st)"
proof -
  obtain ids sw where st: "st = (ids, sw)" by (cases st)
  have len: "length ids = length ids0" and sw: "swaps_in (length ids0) sw" "ids = apply_swaps sw ids0"
    and srt: "\<And>a b. a < m \<Longrightarrow> a < b \<Longrightarrow> b < length ids0 \<Longrightarrow> ids ! a \<le> ids ! b"
    using inv by (auto simp: sort_inv_def st)
  define j where "j = sort_min ids m"
  have j: "m \<le> j" "j < length ids0" "\<And>k. k \<in> {m..<length ids0} \<Longrightarrow> ids ! j \<le> ids ! k"
    using sort_min_spec[of m ids] m len by (simp_all add: j_def)
  define ids' where "ids' = list_swap m j ids"
  have nth: "k < length ids0 \<Longrightarrow> ids' ! k = (if k = m then ids ! j else if k = j then ids ! m else ids ! k)" for k
    using j m len by (simp add: ids'_def list_swap_nth)
  have "ids' ! a \<le> ids' ! b" if ab: "a < Suc m" "a < b" "b < length ids0" for a b
  proof (cases "a = m")
    case True
    then show ?thesis using ab j m by (auto simp: nth)
  next
    case False
    then have "a < m" using ab by simp
    then show ?thesis using ab j m srt by (auto simp: nth)
  qed
  then have srt': "\<forall>a b. a < Suc m \<longrightarrow> a < b \<longrightarrow> b < length ids0 \<longrightarrow> ids' ! a \<le> ids' ! b" by blast
  show ?thesis
  proof (cases "j = m")
    case True
    then have "ids' = ids" by (simp add: ids'_def list_swap_def)
    moreover have "sort_step m st = (ids, sw)" using True by (simp add: st sort_step_def Let_def flip: j_def)
    ultimately show ?thesis using sw srt' by (simp add: sort_inv_def)
  next
    case False
    then have "sort_step m st = (ids', sw @ [(m, j)])" by (simp add: st sort_step_def Let_def ids'_def flip: j_def)
    moreover have "ids' = apply_swaps (sw @ [(m, j)]) ids0" using sw(2) by (simp add: ids'_def)
    moreover have "swaps_in (length ids0) (sw @ [(m, j)])" using sw(1) j m by auto
    ultimately show ?thesis using srt' by (simp only: sort_inv_def prod.case)
  qed
qed

lemma sort_outputs_spec:
  assumes "sort_outputs ids = (ids', sw)"
  shows "swaps_in (length ids) sw" "ids' = apply_swaps sw ids" "sorted ids'" "mset ids' = mset ids"
proof -
  have "sort_inv ids m (fold sort_step [0..<m] (ids, []))" if "m \<le> length ids - 1" for m
    using that
  proof (induction m)
    case (Suc m)
    then show ?case using sort_inv_step[of ids m] by simp
  qed (simp add: sort_inv_def)
  then have inv: "sort_inv ids (length ids - 1) (ids', sw)" using assms unfolding sort_outputs_def by (metis order_refl)
  then show sw: "swaps_in (length ids) sw" "ids' = apply_swaps sw ids" by (simp_all add: sort_inv_def)
  have "ids' ! a \<le> ids' ! b" if "a \<le> b" "b < length ids'" for a b
    using inv that sw(2) by (cases "a = b") (auto simp: sort_inv_def)
  then show "sorted ids'" by (auto simp: sorted_iff_nth_mono)
  show "mset ids' = mset ids" using mset_apply_swaps[OF sw(1)] sw(2) by simp
qed

lemma set_output_ids_ok:
  assumes "distinct ids" "\<forall>t \<in> set ids. t < length oi"
  shows "\<exists>oi'. set_output_ids ids oi = Some oi' \<and> length oi' = length oi \<and> (\<forall>k < length ids. oi' ! (ids ! k) = int k) \<and>
    (\<forall>t. t \<notin> set ids \<longrightarrow> oi' ! t = oi ! t)"
proof -
  let ?I = "\<lambda>m u. length u = length oi \<and> (\<forall>k < m. u ! (ids ! k) = int k) \<and> (\<forall>t. t \<notin> set (take m ids) \<longrightarrow> u ! t = oi ! t)"
  have "\<exists>u. set_output_ids ids oi = Some u \<and> ?I (length ids) u"
    unfolding set_output_ids_def
  proof (rule for_each_upto_total[where I = ?I])
    fix m u assume m: "m < length ids" and I: "?I m u"
    have t: "ids ! m < length u" using I assms(2) m by simp
    have "u[ids ! m := int m] ! (ids ! k) = int k" if "k < Suc m" for k
      using I t that m assms(1) by (cases "k = m") (auto simp: nth_eq_iff_index_eq)
    then show "\<exists>v. (do { t \<leftarrow> vec_at ids m; vec_set t (int m) u }) = Some v \<and> ?I (Suc m) v"
      using I t m by (auto simp: take_Suc_conv_app_nth)
  qed simp
  then show ?thesis by auto
qed

lemma output_mapping_ok:
  assumes "distinct out_ids" "\<forall>t \<in> set out_ids. t < length oi0" "\<forall>t < length oi0. oi0 ! t = -1"
  shows "\<exists>oi ids sw. output_mapping out_ids oi0 = Some (oi, ids, sw) \<and> swaps_in (length out_ids) sw \<and> ids = apply_swaps sw out_ids \<and>
    sorted ids \<and> distinct ids \<and> set ids = set out_ids \<and> length oi = length oi0 \<and> (\<forall>k < length ids. oi ! (ids ! k) = int k) \<and>
    (\<forall>t < length oi0. t \<notin> set out_ids \<longrightarrow> oi ! t = -1)"
proof -
  obtain oi1 where oi1: "set_output_ids out_ids oi0 = Some oi1" "length oi1 = length oi0" "\<forall>k < length out_ids. oi1 ! (out_ids ! k) = int k"
      "\<forall>t. t \<notin> set out_ids \<longrightarrow> oi1 ! t = oi0 ! t"
    using set_output_ids_ok[OF assms(1,2)] by blast
  show ?thesis
  proof (cases "out_ids = [0..<length out_ids]")
    case True
    have "sorted out_ids" by (subst True) simp
    moreover have "output_mapping out_ids oi0 = Some (oi1, out_ids, [])" using oi1(1) True by (simp add: output_mapping_def)
    ultimately show ?thesis using oi1 assms(1,3) by (intro exI[of _ oi1] exI[of _ out_ids] exI[of _ "[]"]) simp
  next
    case False
    obtain ids sw where so: "sort_outputs out_ids = (ids, sw)" by (cases "sort_outputs out_ids")
    note sp = sort_outputs_spec[OF so]
    have ids: "distinct ids" "set ids = set out_ids" using sp(4) assms(1) by (metis mset_eq_imp_distinct_iff, metis mset_eq_setD)
    obtain oi2 where oi2: "set_output_ids ids (map (\<lambda>_. -1) oi1) = Some oi2" "length oi2 = length oi1" "\<forall>k < length ids. oi2 ! (ids ! k) = int k"
        "\<forall>t. t \<notin> set ids \<longrightarrow> oi2 ! t = map (\<lambda>_. -1) oi1 ! t"
      using set_output_ids_ok[of ids "map (\<lambda>_. -1) oi1"] ids assms(2) oi1(2) by auto
    have "output_mapping out_ids oi0 = Some (oi2, ids, sw)" using oi1(1) False so oi2(1) by (simp add: output_mapping_def)
    moreover have "\<forall>t < length oi0. t \<notin> set out_ids \<longrightarrow> oi2 ! t = -1" using oi2(4) ids(2) oi1(2) by simp
    ultimately show ?thesis using sp ids oi2 oi1(2) by (intro exI[of _ oi2] exI[of _ ids] exI[of _ sw]) simp
  qed
qed

lemma logits_found:
  assumes "distinct out_ids" "\<forall>t \<in> set out_ids. t < length oi0" "\<forall>t < length oi0. oi0 ! t = -1" "length rows = length out_ids"
  shows "\<exists>oi ids sw. output_mapping out_ids oi0 = Some (oi, ids, sw) \<and>
    (let c = \<lparr>lc_kv = kv, lc_balloc = a, lc_n_outputs = length out_ids, lc_output_ids = oi, lc_output_swaps = sw, lc_logits = rows\<rparr> in
      (\<forall>k < length out_ids. get_logits_ith (int (out_ids ! k)) c = Some (rows ! k)) \<and>
      (\<forall>t. t \<notin> set out_ids \<longrightarrow> get_logits_ith (int t) c = None) \<and>
      (\<forall>k < length out_ids. get_logits_ith (int k - int (length out_ids)) c = get_logits_ith (int (sort out_ids ! k)) c))"
proof -
  obtain oi ids sw where m: "output_mapping out_ids oi0 = Some (oi, ids, sw)" "swaps_in (length out_ids) sw" "ids = apply_swaps sw out_ids"
      "sorted ids" "distinct ids" "set ids = set out_ids" "length oi = length oi0" "\<forall>k < length ids. oi ! (ids ! k) = int k"
      "\<forall>t < length oi0. t \<notin> set out_ids \<longrightarrow> oi ! t = -1"
    using output_mapping_ok[OF assms(1-3)] by (elim exE conjE) (rule that; assumption)
  define c where "c = \<lparr>lc_kv = kv, lc_balloc = a, lc_n_outputs = length out_ids, lc_output_ids = oi, lc_output_swaps = sw, lc_logits = rows\<rparr>"
  define rows' where "rows' = apply_swaps sw rows"
  have len: "length ids = length out_ids" "length rows' = length out_ids" using m(3) assms(4) by (simp_all add: rows'_def)
  have at: "get_logits_ith (int (ids ! k)) c = Some (rows' ! k)" if k: "k < length out_ids" for k
  proof -
    have "ids ! k \<in> set out_ids" using k len m(6) nth_mem by metis
    then have "ids ! k < length oi" using assms(2) m(7) by simp
    then show ?thesis using m(8) k len by (simp add: get_logits_ith_def output_reorder_def c_def Let_def rows'_def)
  qed
  have "zip ids rows' = apply_swaps sw (zip out_ids rows)" using apply_swaps_zip[of out_ids rows sw] m(2,3) assms(4) by (simp add: rows'_def)
  then have "mset (zip ids rows') = mset (zip out_ids rows)" using mset_apply_swaps[of sw "zip out_ids rows"] m(2) assms(4) by simp
  then have zs: "set (zip ids rows') = set (zip out_ids rows)" by (rule mset_eq_setD)
  have "get_logits_ith (int (out_ids ! k)) c = Some (rows ! k)" if k: "k < length out_ids" for k
  proof -
    have "(out_ids ! k, rows ! k) \<in> set (zip ids rows')" unfolding zs using k assms(4) by (auto simp: in_set_zip)
    then obtain j where "j < length out_ids" "ids ! j = out_ids ! k" "rows' ! j = rows ! k" using len by (auto simp: in_set_zip)
    then show ?thesis using at[of j] by simp
  qed
  moreover have "get_logits_ith (int t) c = None" if "t \<notin> set out_ids" for t
    using m(7,9) that by (simp add: get_logits_ith_def output_reorder_def c_def Let_def)
  moreover have "get_logits_ith (int k - int (length out_ids)) c = get_logits_ith (int (sort out_ids ! k)) c" if k: "k < length out_ids" for k
  proof -
    have "sort out_ids = ids" using m(4-6) assms(1) by (metis sorted_list_of_set_sort_remdups sorted_list_of_set.idem_if_sorted_distinct distinct_remdups_id)
    moreover have "get_logits_ith (int k - int (length out_ids)) c = Some (rows' ! k)"
      using k len by (simp add: get_logits_ith_def output_reorder_def c_def Let_def rows'_def)
    ultimately show ?thesis using at[OF k] by simp
  qed
  ultimately show ?thesis using m(1) unfolding c_def Let_def by blast
qed

subsection \<open>Properties of the output order\<close>

text \<open>
  C27. Finding the logits of a token. Whatever the order in which the micro-batches produced the output rows,
  after the bookkeeping of \<^verbatim>\<open>decode\<close> (selection sort with remembered swaps, applied on first access)
  \<^verbatim>\<open>get_logits_ith\<close> returns for each output token of the batch the row that was computed for it, nothing for any
  other token, and for the index \<open>-1\<close>, \<open>-2\<close>, \dots the rows of the output tokens from the last backwards.
\<close>

theorem logits_of_token:
  assumes "distinct out_ids" "\<forall>t \<in> set out_ids. t < length oi0" "\<forall>t < length oi0. oi0 ! t = -1" "length rows = length out_ids"
  shows "\<exists>oi ids sw. output_mapping out_ids oi0 = Some (oi, ids, sw) \<and>
    (let c = \<lparr>lc_kv = kv, lc_balloc = a, lc_n_outputs = length out_ids, lc_output_ids = oi, lc_output_swaps = sw, lc_logits = rows\<rparr> in
      (\<forall>k < length out_ids. get_logits_ith (int (out_ids ! k)) c = Some (rows ! k)) \<and>
      (\<forall>t. t \<notin> set out_ids \<longrightarrow> get_logits_ith (int t) c = None) \<and>
      (\<forall>k < length out_ids. get_logits_ith (int k - int (length out_ids)) c = get_logits_ith (int (sort out_ids ! k)) c))"
  using logits_found[OF assms] .

theorem logits_of_token_witness:
  "\<exists>oi ids sw. output_mapping [3, 0, 1] [-1, -1, -1, -1] = Some (oi, ids, sw) \<and>
     get_logits_ith 0 \<lparr>lc_kv = demo_cache, lc_balloc = batch_allocr_new 1, lc_n_outputs = 3, lc_output_ids = oi, lc_output_swaps = sw,
       lc_logits = [''d'', ''a'', ''b'']\<rparr> = Some ''a''"
proof -
  have "\<forall>t < length [-1, -1, -1, -1 :: int]. [-1, -1, -1, -1] ! t = (-1 :: int)" by (simp add: less_Suc_eq numeral_eq_Suc All_less_Suc)
  then show ?thesis
    using logits_of_token[of "[3, 0, 1]" "[-1, -1, -1, -1]" "[''d'', ''a'', ''b'']" demo_cache "batch_allocr_new 1"]
    by (fastforce simp: Let_def numeral_3_eq_3 All_less_Suc)
qed

end
