(* ===== verification/Decode_Run.thy ===== *)
theory Decode_Run
  imports Decode
begin

text \<open>
  The batch allocator, the slot search and \<^verbatim>\<open>decode\<close> together, for a cache with one stream and no sliding
  window: the micro-batches that splitting makes are ones the cache can place, so a batch is decoded exactly
  when it is valid and fits in the empty cells.
\<close>

subsection \<open>Micro-batches of an accepted batch\<close>

definition batch_placeable :: "llama_batch \<Rightarrow> bool" where
  "batch_placeable b \<longleftrightarrow> (\<forall>i < n_tok b. distinct (tok_row b i) \<and> 0 \<le> tok_pos b i \<and> tok_pos b i < INT32_MAX)"

lemma unq_ids_hd:
  assumes "U \<noteq> {}" "U \<subseteq> {..<m}"
  shows "unq_ids U m \<noteq> []" "\<forall>q \<in> set (unq_ids U m). 0 \<le> q \<and> nat q < m"
  using assms by (auto simp: unq_ids_def filter_empty_conv)

lemma ubatch_rows_cell:
  assumes ub: "ubatch_rows a idxs ub" and n: "0 < n_pos_cur a" and k: "k < length idxs"
  shows "ub_pos ub ! k = tok_pos (ba_batch a) (idxs ! k)" "ub_row ub k = tok_row (ba_batch a) (idxs ! k)" "k < length (ub_pos ub)"
    "nat (ub_n_seq_id ub ! k) \<le> length (ub_seq_id ub ! k)" "k < length (ub_n_seq_id ub)" "k < length (ub_seq_id ub)"
    "a_seq (ub_cell ub k) = tok_seqs (ba_batch a) (idxs ! k)"
proof -
  let ?b = "ba_batch a"
  obtain m where m: "n_pos_cur a = Suc m" using n gr0_implies_Suc by blast
  have up: "[0..<Suc m] = 0 # [1..<Suc m]" by (simp add: upt_conv_Cons)
  obtain rest where pos: "ub_pos ub = map (tok_pos ?b) idxs @ rest"
    using ub unfolding ubatch_rows_def Let_def m up by (simp del: upt_Suc)
  show "ub_pos ub ! k = tok_pos ?b (idxs ! k)" "k < length (ub_pos ub)" using pos k by (simp_all add: nth_append)
  show r: "ub_row ub k = tok_row ?b (idxs ! k)" using ub k by (simp add: ubatch_rows_def Let_def ub_row_def)
  show "nat (ub_n_seq_id ub ! k) \<le> length (ub_seq_id ub ! k)" "k < length (ub_n_seq_id ub)" "k < length (ub_seq_id ub)"
    using ub k by (simp_all add: ubatch_rows_def Let_def)
  show "a_seq (ub_cell ub k) = tok_seqs ?b (idxs ! k)" using r by (simp add: ub_cell_def tok_seqs_def)
qed

lemma ubatch_rows_ok:
  assumes st: "ba_static a" and ub: "ubatch_rows a idxs ub" and idxs: "idxs \<noteq> []" "set idxs \<subseteq> {..<n_tok (ba_batch a)}"
    and n: "0 < n_pos_cur a" and b: "batch_placeable (ba_batch a)" and kv: "kv_wf kv" "kv_n_stream kv = 1"
  shows "ub_ok kv ub (ub_n_tokens ub)"
proof -
  let ?b = "ba_batch a" and ?m = "ba_n_seq_max a"
  have rows: "rows_ok ?m ?b" "?m \<le> LLAMA_MAX_SEQ" using st by (simp_all add: ba_static_def batch_full_def)
  have len: "ub_n_tokens ub = length idxs" using ub by (simp add: ubatch_rows_def Let_def)
  have parts: "ub_n_parts kv ub = 1" using kv(2) by (simp add: ub_n_parts_def)
  let ?U = "\<Union>i \<in> set idxs. tok_seqs ?b i"
  have U: "?U \<subseteq> {..<?m}" using rows_okD(5)[OF rows(1)] idxs(2) by blast
  have hd: "hd idxs \<in> set idxs" using idxs(1) by simp
  then have "tok_seqs ?b (hd idxs) \<noteq> {}" using idxs(2) by (intro rows_okD(6)[OF rows(1)]) blast
  note hd this
  then have "?U \<noteq> {}" using hd by blast
  then have unq: "ub_seq_id_unq ub \<noteq> []" "\<forall>q \<in> set (ub_seq_id_unq ub). 0 \<le> q \<and> nat q < ?m"
    using unq_ids_hd[OF _ U] ub by (simp_all add: ubatch_rows_def Let_def)
  have "ub_seq_id_unq ub ! 0 \<in> set (ub_seq_id_unq ub)" using unq(1) by (intro nth_mem) simp
  then have "0 \<le> ub_seq_id_unq ub ! 0 \<and> nat (ub_seq_id_unq ub ! 0) < LLAMA_MAX_SEQ" using unq(2) rows(2) by fastforce
  then have shape: "ub_shape kv ub (ub_n_tokens ub)"
    using kv len idxs(1) unq(1) unfolding ub_shape_def parts by (auto simp: has_seq_def)
  have "ub_tok_ok ub k" if k: "k < length idxs" for k
  proof -
    note c = ubatch_rows_cell[OF ub n k]
    have i: "idxs ! k < n_tok ?b" using idxs(2) k by (auto simp: subset_iff)
    note r = rows_okD[OF rows(1) i]
    have "0 < ub_n_seq_id ub ! k" by (rule ccontr) (use r(2) c(2) in \<open>simp add: ub_row_def\<close>)
    then show ?thesis using c r(3) rows(2) b i by (force simp: ub_tok_ok_def batch_placeable_def)
  qed
  then show ?thesis using shape kv(2) len by (simp add: ub_ok_def parts)
qed

lemma ubatch_rows_positions:
  assumes "ubatch_rows a idxs ub" "0 < n_pos_cur a"
  shows "ub_positions ub q = {tok_pos (ba_batch a) i | i. i \<in> set idxs \<and> q \<in> tok_seqs (ba_batch a) i}"
proof -
  have len: "ub_n_tokens ub = length idxs" using assms(1) by (simp add: ubatch_rows_def Let_def)
  show ?thesis
    using ubatch_rows_cell(1,7)[OF assms] len by (force simp: ub_positions_def in_set_conv_nth)
qed

lemma split_loop_nonempty:
  "split_loop split fuel a = Some (ubs, a') \<Longrightarrow> \<forall>ub \<in> set ubs. ub_n_tokens ub \<noteq> 0"
proof (induction fuel arbitrary: a ubs a')
  case (Suc fuel)
  then show ?case by (fastforce simp: bind_eq_Some_conv split: prod.splits if_splits)
qed simp

lemma split_reset_wf:
  assumes "ba_wf a"
  shows "ba_wf (ba_split_reset a)" "ba_used (ba_split_reset a) = replicate (n_tok (ba_batch (ba_split_reset a))) False"
  using assms by (simp_all add: ba_split_reset_def ba_get_n_tokens_def ba_wf_def Let_def)

text \<open>
  What \<^verbatim>\<open>init_batch\<close> makes of an accepted batch: micro-batches \<open>ubs\<close> whose rows \<open>idxss\<close> partition the tokens, and
  slots for them if all tokens fit in the empty cells.
\<close>

lemma init_batch_plain:
  assumes a: "ba_wf a" "0 < n_tok (ba_batch a)" "0 < n_pos_cur a" "batch_placeable (ba_batch a)"
    and kv: "plain kv" "kv_n_stream kv = 1"
  shows "\<exists>ubs a' idxss sis. kv_init_batch a n_ubatch kv =
      Some (if sis = [] then kx_fail MS_FAILED_PREPARE else kx_batch sis ubs, a', kv) \<and>
    list_all2 (ubatch_rows (ba_split_reset a)) idxss ubs \<and> distinct (concat idxss) \<and> set (concat idxss) = {..<n_tok (ba_batch a)} \<and>
    ba_out_ids a' = filter (tok_output (ba_batch a)) (concat idxss) \<and> ubs \<noteq> [] \<and>
    (sis \<noteq> [] \<longleftrightarrow> n_tok (ba_batch a) \<le> card (free_cells kv 0)) \<and>
    (sis \<noteq> [] \<longrightarrow> length sis = length ubs \<and> (\<forall>si \<in> set sis. si_strm si = [0]) \<and>
      (\<exists>kv'. place_all sis ubs kv = Some kv' \<and> (\<forall>q. kv_view kv' q = kv_view kv q \<union> batch_positions (ba_batch a) q)))"
proof -
  let ?a = "ba_split_reset a" and ?b = "ba_batch a"
  note r = split_reset_wf[OF a(1)]
  have same: "ba_batch ?a = ?b" "n_pos_cur ?a = n_pos_cur a" "ba_get_n_tokens ?a = n_tok ?b" "ba_out_ids ?a = []"
    by (simp_all add: ba_split_reset_def n_pos_cur_def ba_get_n_tokens_def)
  have "splits_all (ba_split_simple n_ubatch) ?a"
    by (rule simple_splits_all[OF r])
  then obtain ubs a' idxss where s: "split_loop (ba_split_simple n_ubatch) (Suc (ba_get_n_tokens ?a)) ?a = Some (ubs, a')"
      "list_all2 (ubatch_rows ?a) idxss ubs" "distinct (concat idxss)" "set (concat idxss) = {..<n_tok ?b}"
      "ba_n_used a' = n_tok ?b" "ba_out_ids a' = filter (tok_output ?b) (concat idxss)" and bb: "ba_batch a' = ?b"
    unfolding splits_all_def same by auto
  have st: "ba_static ?a" using r(1) by (rule ba_wf_static)
  have wf: "kv_wf kv" using kv(1) by (simp add: plain_def find_ok_def)
  have "0 \<in> set (concat idxss)" unfolding s(4) using a(2) by (simp only: lessThan_iff)
  then have ne: "ubs \<noteq> []" using s(2) by (cases idxss) auto
  have each: "\<exists>idxs. ubatch_rows ?a idxs ub \<and> idxs \<noteq> [] \<and> set idxs \<subseteq> {..<n_tok ?b}" if ub: "ub \<in> set ubs" for ub
  proof -
    obtain j where "j < length ubs" "ubs ! j = ub" using ub by (auto simp: in_set_conv_nth)
    then have "idxss ! j \<in> set idxss" "ubatch_rows ?a (idxss ! j) ub" using s(2) by (auto simp: list_all2_conv_all_nth)
    then obtain idxs where i: "idxs \<in> set idxss" "ubatch_rows ?a idxs ub" by blast
    moreover have "idxs \<noteq> []" using split_loop_nonempty[OF s(1)] ub i(2) by (auto simp: ubatch_rows_def Let_def)
    moreover have "set idxs \<subseteq> {..<n_tok ?b}" using s(4) i(1) by auto
    ultimately show ?thesis by blast
  qed
  have ok: "\<forall>ub \<in> set ubs. ub_ok kv ub (ub_n_tokens ub)"
  proof
    fix ub assume "ub \<in> set ubs"
    then obtain idxs where "ubatch_rows ?a idxs ub" "idxs \<noteq> []" "set idxs \<subseteq> {..<n_tok ?b}" using each by blast
    then show "ub_ok kv ub (ub_n_tokens ub)" using ubatch_rows_ok[OF st, of idxs ub kv] a(3,4) wf kv(2) same by simp
  qed
  obtain sis where sis: "kv_prepare ubs kv = Some (sis, kv)" "\<forall>si \<in> set sis. si_strm si = [0]"
      "sis \<noteq> [] \<longleftrightarrow> sum_list (map ub_n_tokens ubs) \<le> card (free_cells kv 0)"
      "sis \<noteq> [] \<longrightarrow> length sis = length ubs \<and>
        (\<exists>kv'. place_all sis ubs kv = Some kv' \<and> (\<forall>q. kv_view kv' q = kv_view kv q \<union> (\<Union>ub \<in> set ubs. ub_positions ub q)))"
    using kv_prepare_ok[OF kv ok ne] by blast
  have "map ub_n_tokens ubs = map length idxss"
    using s(2) by (induction rule: list_all2_induct) (simp_all add: ubatch_rows_def Let_def)
  then have sum: "sum_list (map ub_n_tokens ubs) = n_tok ?b"
    using distinct_card[OF s(3)] s(4) by (simp add: length_concat)
  have pos: "(\<Union>ub \<in> set ubs. ub_positions ub q) = batch_positions ?b q" for q
  proof -
    have "(\<Union>ub \<in> set ubs. ub_positions ub q) = (\<Union>idxs \<in> set idxss. {tok_pos ?b i | i. i \<in> set idxs \<and> q \<in> tok_seqs ?b i})"
      using s(2) by (induction rule: list_all2_induct) (use ubatch_rows_positions[of ?a] same a(3) in auto)
    also have "\<dots> = {tok_pos ?b i | i. i \<in> set (concat idxss) \<and> q \<in> tok_seqs ?b i}" by auto
    also have "\<dots> = batch_positions ?b q" unfolding s(4) lessThan_iff batch_positions_def ..
    finally show ?thesis .
  qed
  have "kv_init_batch a n_ubatch kv = Some (if sis = [] then kx_fail MS_FAILED_PREPARE else kx_batch sis ubs, a', kv)"
    using s(1,5) sis(1) kv(2) bb by (simp add: kv_init_batch_def ba_get_n_tokens_def[of a'] del: split_loop.simps)
  then show ?thesis using s ne sis(2-4) unfolding sum pos by blast
qed

subsection \<open>Running the micro-batches\<close>

lemma sweep_stream_length: "kv_sweep_stream body s kv = Some kv' \<Longrightarrow> length (kv_v_cells kv') = length (kv_v_cells kv)"
  by (auto simp: kv_sweep_stream_def kv_set_stream_def bind_eq_Some_conv)

lemma seq_rm_length:
  assumes "kv_seq_rm seq_id p0 p1 kv = Some (b, kv')"
  shows "length (kv_v_cells kv') = length (kv_v_cells kv)"
proof (cases "0 \<le> seq_id")
  case True
  then show ?thesis using assms by (auto simp: kv_seq_rm_def bind_eq_Some_conv sweep_stream_length)
next
  case False
  then have "for_each (kv_sweep_stream (rm_body (norm_p0 p0) (norm_p1 p1))) [0..<kv_n_stream kv] kv = Some kv'"
    using assms by (auto simp: kv_seq_rm_def bind_eq_Some_conv)
  then show ?thesis by (rule for_each_inv) (simp_all add: sweep_stream_length)
qed

lemma apply_ubatch_length:
  assumes "kv_apply_ubatch si ub kv = Some kv'"
  shows "length (kv_v_cells kv') = length (kv_v_cells kv)"
proof -
  obtain n kv1 rm kv2 where st: "for_each (apply_stream si ub n) [0..<si_n_stream si] (kv, \<lambda>_. -1) = Some (kv1, rm)"
      "for_each (apply_purge rm) [0..<LLAMA_MAX_SEQ] kv1 = Some kv2" "for_each (apply_head si) [0..<si_n_stream si] kv2 = Some kv'"
    using assms by (auto simp: kv_apply_ubatch_def bind_eq_Some_conv)
  have "length (kv_v_cells (fst (kv1, rm))) = length (kv_v_cells kv)"
    by (rule for_each_inv[OF st(1), where I = "\<lambda>u. length (kv_v_cells (fst u)) = length (kv_v_cells kv)"])
      (auto simp: apply_stream_def bind_eq_Some_conv)
  moreover have "length (kv_v_cells kv2) = length (kv_v_cells kv1)"
    by (rule for_each_inv[OF st(2), where I = "\<lambda>u. length (kv_v_cells u) = length (kv_v_cells kv1)"])
      (auto simp: apply_purge_def bind_eq_Some_conv seq_rm_length split: if_splits)
  moreover have "length (kv_v_cells kv') = length (kv_v_cells kv2)"
    by (rule for_each_inv[OF st(3), where I = "\<lambda>u. length (kv_v_cells u) = length (kv_v_cells kv2)"])
      (auto simp: apply_head_def bind_eq_Some_conv)
  ultimately show ?thesis by simp
qed

text \<open>The rows of a micro-batch that ask for logits, and what is assumed of the graph computation: a row for each of them.\<close>

definition ub_outs :: "llama_ubatch \<Rightarrow> nat list" where
  "ub_outs ub = filter (\<lambda>k. ub_output ub ! k \<noteq> 0) [0..<ub_n_tokens ub]"

definition computes :: "'r decode_params \<Rightarrow> (int \<Rightarrow> int list \<Rightarrow> 'r \<Rightarrow> bool) \<Rightarrow> bool" where
  "computes lp R \<longleftrightarrow> (\<forall>ub kv. \<exists>res. lp_compute lp (length (ub_outs ub)) ub kv = Inr res \<and>
     list_all2 (\<lambda>k. R (ub_pos ub ! k) (ub_row ub k)) (ub_outs ub) res)"

lemma ubatch_rows_outs:
  assumes "ubatch_rows a idxs ub"
  shows "map (\<lambda>k. idxs ! k) (ub_outs ub) = filter (tok_output (ba_batch a)) idxs"
    "length (filter (\<lambda>l. l \<noteq> 0) (take (ub_n_tokens ub) (ub_output ub))) = length (ub_outs ub)"
proof -
  have len: "ub_n_tokens ub = length idxs" and out: "map (\<lambda>l. l \<noteq> 0) (ub_output ub) = map (tok_output (ba_batch a)) idxs"
    using assms by (simp_all add: ubatch_rows_def Let_def)
  have lo: "length (ub_output ub) = length idxs" using out map_eq_imp_length_eq by blast
  have eq: "ub_output ub ! k \<noteq> 0 \<longleftrightarrow> tok_output (ba_batch a) (idxs ! k)" if "k < length idxs" for k
    using arg_cong[OF out, of "\<lambda>l. l ! k"] that lo by simp
  have "filter (tok_output (ba_batch a)) (map (\<lambda>k. idxs ! k) [0..<length idxs]) =
      map (\<lambda>k. idxs ! k) (filter (\<lambda>k. ub_output ub ! k \<noteq> 0) [0..<length idxs])"
    unfolding filter_map o_def by (rule arg_cong[where f = "map ((!) idxs)"], rule filter_cong[OF refl]) (use eq in auto)
  then show "map (\<lambda>k. idxs ! k) (ub_outs ub) = filter (tok_output (ba_batch a)) idxs" by (simp add: ub_outs_def len map_nth)
  have "filter (\<lambda>l. l \<noteq> 0) (map (\<lambda>k. ub_output ub ! k) [0..<length idxs]) = map (\<lambda>k. ub_output ub ! k) (ub_outs ub)"
    by (simp add: filter_map o_def ub_outs_def len)
  then show "length (filter (\<lambda>l. l \<noteq> 0) (take (ub_n_tokens ub) (ub_output ub))) = length (ub_outs ub)"
    using map_nth[of "ub_output ub"] by (simp add: lo len)
qed

lemma ubatch_rows_logits:
  assumes "ubatch_rows a idxs ub" "0 < n_pos_cur a" "list_all2 (\<lambda>k. R (ub_pos ub ! k) (ub_row ub k)) (ub_outs ub) res"
  shows "list_all2 (\<lambda>i. R (tok_pos (ba_batch a) i) (tok_row (ba_batch a) i)) (filter (tok_output (ba_batch a)) idxs) res"
proof -
  have len: "ub_n_tokens ub = length idxs" using assms(1) by (simp add: ubatch_rows_def Let_def)
  have "list_all2 (\<lambda>k. R (tok_pos (ba_batch a) (idxs ! k)) (tok_row (ba_batch a) (idxs ! k))) (ub_outs ub) res"
    using assms(3) by (rule list.rel_mono_strong) (use ubatch_rows_cell(1,2)[OF assms(1,2)] in \<open>auto simp: ub_outs_def len\<close>)
  then show ?thesis unfolding ubatch_rows_outs(1)[OF assms(1), symmetric] list_all2_map1 .
qed

definition all_rows :: "llama_batch_allocr \<Rightarrow> nat list list \<Rightarrow> nat list" where
  "all_rows a idxss = filter (tok_output (ba_batch a)) (concat idxss)"

lemma decode_loop_ok:
  assumes comp: "computes lp R" and n: "0 < n_pos_cur a"
  shows "list_all2 (ubatch_rows a) idxss ubs \<Longrightarrow> length sis = length ubs \<Longrightarrow> \<forall>si \<in> set sis. si_strm si = [0] \<Longrightarrow>
    place_all sis ubs kv = Some kv' \<Longrightarrow> kv_v_cells kv \<noteq> [] \<Longrightarrow> ubs \<noteq> [] \<Longrightarrow> kx_status x = MS_SUCCESS \<Longrightarrow>
    kx_sinfos x = ps @ sis \<Longrightarrow> kx_ubatches x = pu @ ubs \<Longrightarrow> length ps = kx_i_cur x \<Longrightarrow> length pu = kx_i_cur x \<Longrightarrow>
    length rows + length (all_rows a idxss) \<le> n_outputs_all \<Longrightarrow>
    n_outputs_all = n_tokens_all \<longrightarrow> (\<forall>ub \<in> set ubs. length (ub_outs ub) = ub_n_tokens ub) \<Longrightarrow>
    \<exists>n x' rows'. decode_loop (length ubs) lp n_outputs_all n_tokens_all x kv rows = Some (0, n, x', kv', rows @ rows') \<and>
      list_all2 (\<lambda>i. R (tok_pos (ba_batch a) i) (tok_row (ba_batch a) i)) (all_rows a idxss) rows'"
proof (induction ubs arbitrary: idxss sis kv x ps pu rows)
  case (Cons ub ubs)
  obtain idxs idxss' where ix: "idxss = idxs # idxss'" "ubatch_rows a idxs ub" "list_all2 (ubatch_rows a) idxss' ubs"
    using Cons.prems(1) by (auto simp: list_all2_Cons2)
  obtain si sis' where si: "sis = si # sis'" "si_strm si = [0]" "length sis' = length ubs" "\<forall>si \<in> set sis'. si_strm si = [0]"
    using Cons.prems(2,3) by (cases sis) auto
  obtain kv1 where kv1: "kv_apply_ubatch si ub kv = Some kv1" "place_all sis' ubs kv1 = Some kv'"
    using Cons.prems(4) si(1) by (auto simp: bind_eq_Some_conv)
  have ne1: "kv_v_cells kv1 \<noteq> []" using apply_ubatch_length[OF kv1(1)] Cons.prems(5) by auto
  define x1 where "x1 = x\<lparr>kx_n_kv := the (kv_get_n_kv si kv1)\<rparr>"
  have "\<exists>n. kv_get_n_kv si kv1 = Some n" using ne1 si(2) by (auto simp: kv_get_n_kv_def si_n_stream_def)
  then have ap: "kx_apply (fst (lp_shift lp)) (snd (lp_shift lp)) x kv = Some (x1, kv1)"
    using Cons.prems(7-11) si(1) kv1(1) by (auto simp: kx_apply_def nth_append x1_def llama_memory_status_is_fail_def)
  have nout: "ubatch_n_outputs n_outputs_all n_tokens_all ub = length (ub_outs ub)"
    using Cons.prems(13) ubatch_rows_outs(2)[OF ix(2)] by (simp add: ubatch_n_outputs_def)
  obtain res where res: "lp_compute lp (length (ub_outs ub)) ub kv1 = Inr res" "list_all2 (\<lambda>k. R (ub_pos ub ! k) (ub_row ub k)) (ub_outs ub) res"
    using comp by (auto simp: computes_def)
  note rl = ubatch_rows_logits[OF ix(2) n res(2)]
  have lres: "length res = length (ub_outs ub)" using res(2) by (simp add: list_all2_lengthD)
  have lall: "length (all_rows a idxss) = length (ub_outs ub) + length (all_rows a idxss')"
    using arg_cong[OF ubatch_rows_outs(1)[OF ix(2)], of length] by (simp add: all_rows_def ix(1))
  have get: "kx_get_ubatch x = Some ub" using Cons.prems(7,9,11) by (simp add: kx_get_ubatch_def nth_append)
  have step: "decode_loop (length (ub # ubs)) lp n_outputs_all n_tokens_all x kv rows =
      (if ubs \<noteq> [] then decode_loop (length ubs) lp n_outputs_all n_tokens_all (x1\<lparr>kx_i_cur := kx_i_cur x + 1\<rparr>) kv1 (rows @ res)
       else Some (0, length (ub_outs ub), x1\<lparr>kx_i_cur := kx_i_cur x + 1\<rparr>, kv1, rows @ res))"
    using get ap res(1) lres lall Cons.prems(7,9,11,12) by (simp add: nout kx_next_def x1_def)
  show ?case
  proof (cases "ubs = []")
    case True
    then show ?thesis using step rl kv1(2) ix(1,3) si(3) by (auto simp: all_rows_def)
  next
    case False
    define x2 where "x2 = x1\<lparr>kx_i_cur := kx_i_cur x + 1\<rparr>"
    have x2: "kx_status x2 = MS_SUCCESS" "kx_sinfos x2 = (ps @ [si]) @ sis'" "kx_ubatches x2 = (pu @ [ub]) @ ubs"
        "length (ps @ [si]) = kx_i_cur x2" "length (pu @ [ub]) = kx_i_cur x2"
      using Cons.prems(7-11) si(1) by (simp_all add: x2_def x1_def)
    have "length (rows @ res) + length (all_rows a idxss') \<le> n_outputs_all" using Cons.prems(12) lall lres by simp
    moreover have "n_outputs_all = n_tokens_all \<longrightarrow> (\<forall>ub \<in> set ubs. length (ub_outs ub) = ub_n_tokens ub)" using Cons.prems(13) by simp
    ultimately obtain m x' rows' where r: "decode_loop (length ubs) lp n_outputs_all n_tokens_all x2 kv1 (rows @ res) = Some (0, m, x', kv', (rows @ res) @ rows')"
        "list_all2 (\<lambda>i. R (tok_pos (ba_batch a) i) (tok_row (ba_batch a) i)) (all_rows a idxss') rows'"
      using Cons.IH[OF ix(3) si(3,4) kv1(2) ne1 False x2] by blast
    have "list_all2 (\<lambda>i. R (tok_pos (ba_batch a) i) (tok_row (ba_batch a) i)) (all_rows a idxss) (res @ rows')"
      using list_all2_appendI[OF rl r(2)] by (simp add: all_rows_def ix(1))
    then show ?thesis using step False r(1) by (simp add: x2_def)
  qed
qed simp

subsection \<open>decode as a whole\<close>

definition no_pending :: "kv_cache \<Rightarrow> bool" where
  "no_pending kv \<longleftrightarrow> \<not> kv_get_has_shift kv \<and> kv_sc_ssrc kv = [] \<and> kv_sc_sdst kv = []"

lemma memory_update_none: "no_pending kv \<Longrightarrow> memory_update sh kv = Some (False, kv)"
  by (simp add: no_pending_def memory_update_def kv_init_update_def kx_update_def kx_fail_def)

text \<open>
  A call that can go through: a cache with one stream, no sliding window and no pending shift or copy, output
  buffers that are absent or sized for \<open>n_batch\<close> and can be reserved, a batch of at most \<open>n_batch\<close> tokens (at most
  \<open>n_ubatch\<close> without causal attention) of either token ids or embeddings, with arrays as long as announced
  and positions inside \<^verbatim>\<open>int32_t\<close>.
\<close>

definition decode_ready :: "'r decode_params \<Rightarrow> 'r llama_context \<Rightarrow> llama_batch \<Rightarrow> bool" where
  "decode_ready lp c b \<longleftrightarrow> plain (lc_kv c) \<and> kv_n_stream (lc_kv c) = 1 \<and> no_pending (lc_kv c) \<and>
     length (ba_seq_idx (lc_balloc c)) = LLAMA_MAX_SEQ \<and> (lc_output_ids c = [] \<or> length (lc_output_ids c) = lp_n_batch lp) \<and>
     lp_reserve lp \<and> 0 < lp_n_seq_max lp \<and> (lp_causal_attn lp \<or> n_tok b \<le> lp_n_ubatch lp) \<and> n_tok b \<le> lp_n_batch lp \<and>
     batch_fits (Some (kv_mem_view (lc_kv c))) (lp_n_seq_max lp) b \<and>
     batch_backed (ba_n_pos_per_embd (lc_balloc c)) (lp_n_embd lp) b \<and> (b_token b = None) \<noteq> (b_embd b = None)"

lemma outputs_length:
  assumes "batch_full m b"
  shows "length (filter (\<lambda>l. l \<noteq> 0) (take (n_tok b) (case b_logits b of Some ls \<Rightarrow> ls | None \<Rightarrow> []))) = length (filter (tok_output b) [0..<n_tok b])"
proof -
  obtain ls where ls: "b_logits b = Some ls" "n_tok b \<le> length ls" using assms by (auto simp: batch_full_def)
  have "take (n_tok b) ls = map (\<lambda>i. ls ! i) [0..<n_tok b]" by (rule nth_equalityI) (use ls(2) in auto)
  then show ?thesis using ls(1) by (simp add: filter_map o_def tok_output_def[abs_def])
qed

lemma perm_outputs:
  assumes "distinct xs" "set xs = {..<n}"
  shows "length (filter P xs) = length (filter P [0..<n])"
proof -
  have "mset xs = mset [0..<n]" using set_eq_iff_mset_eq_distinct[OF assms(1), of "[0..<n]"] assms(2) by (simp add: atLeast0LessThan)
  then have "mset (filter P xs) = mset (filter P [0..<n])" by simp
  then show ?thesis by (metis size_mset)
qed

lemma decode_all_outputs:
  assumes "list_all2 (ubatch_rows a) idxss ubs" "length (all_rows a idxss) = length (concat idxss)"
  shows "\<forall>ub \<in> set ubs. length (ub_outs ub) = ub_n_tokens ub"
proof
  fix ub assume "ub \<in> set ubs"
  then obtain j where j: "j < length ubs" "ubs ! j = ub" by (auto simp: in_set_conv_nth)
  then have i: "idxss ! j \<in> set idxss" "ubatch_rows a (idxss ! j) ub" using assms(1) by (auto simp: list_all2_conv_all_nth)
  have "filter (tok_output (ba_batch a)) (concat idxss) = concat idxss"
    using assms(2) unfolding all_rows_def by (metis filter_id_conv length_filter_less nat_neq_iff)
  then have "filter (tok_output (ba_batch a)) (idxss ! j) = idxss ! j" using i(1) by (auto simp: filter_id_conv)
  then have "length (ub_outs ub) = length (idxss ! j)" using ubatch_rows_outs(1)[OF i(2)] by (metis length_map)
  then show "length (ub_outs ub) = ub_n_tokens ub" using i(2) by (simp add: ubatch_rows_def Let_def)
qed

lemma decode_slots_plain:
  assumes "kv_init_batch a n_ubatch kv = Some (if sis = [] then kx_fail MS_FAILED_PREPARE else kx_batch sis ubs, a', kv)"
    "no_pending kv"
  shows "decode_slots False sh n_ubatch a kv = Some (if sis = [] then Inl 1 else Inr (kx_batch sis ubs), a', kv)"
  using assms memory_update_none[OF assms(2), of sh]
  by (subst decode_slots.simps) (auto simp: kx_fail_def kx_batch_def)

lemma decode_steps:
  assumes r: "decode_ready lp c b" and i: "ba_init b (lp_n_vocab lp) (Some (kv_mem_view (lc_kv c))) (lp_n_embd lp) (lp_n_seq_max lp) False (lc_balloc c) = Some (ok, a)"
    and n: "ok \<longrightarrow> n_tok (ba_batch a) = n_tok b"
    and s: "decode_slots False (lp_shift lp) (lp_n_ubatch lp) a (lc_kv c) = Some (res, a', lc_kv c)"
  shows "llama_decode lp b c = (if \<not> ok then Some (-1, c\<lparr>lc_balloc := a\<rparr>) else case res of
      Inl code \<Rightarrow> Some (code, c\<lparr>lc_output_swaps := [], lc_balloc := a'\<rparr>)
    | Inr x \<Rightarrow> decode_run lp (ba_n_outputs a) (n_tok b) a' x (c\<lparr>lc_output_swaps := [], lc_balloc := a',
        lc_output_ids := replicate (lp_n_batch lp) (-1), lc_n_outputs := 0\<rparr>))"
proof (cases ok)
  case False
  then show ?thesis using r i by (simp add: llama_decode_def decode_ready_def batch_backed_def)
next
  case True
  have ids: "lc_output_ids c \<noteq> [] \<Longrightarrow> map (\<lambda>_. -1 :: int) (lc_output_ids c) = replicate (lp_n_batch lp) (-1)"
    using r by (auto simp: decode_ready_def map_replicate_const)
  have g: "0 < b_n_tokens b" "(b_token b = None) \<noteq> (b_embd b = None)" "ba_get_n_tokens a = n_tok b" "n_tok b \<le> lp_n_batch lp"
      "lp_causal_attn lp \<or> n_tok b \<le> lp_n_ubatch lp" "lp_reserve lp" "no_pending (lc_kv c)"
    using r n True by (simp_all add: decode_ready_def batch_backed_def ba_get_n_tokens_def)
  show ?thesis
    using g i s True memory_update_none[OF g(7), of "lp_shift lp"]
    by (cases res) (simp_all add: llama_decode_def output_reserve_def Let_def ids)
qed

text \<open>The run of the micro-batches of an accepted batch that fits, and the logits found afterwards.\<close>

lemma decode_run_ok:
  assumes comp: "computes lp R" and n: "0 < n_pos_cur a" and nb: "n_tok (ba_batch a) \<le> lp_n_batch lp"
    and rows: "list_all2 (ubatch_rows a) idxss ubs" "distinct (concat idxss)" "set (concat idxss) = {..<n_tok (ba_batch a)}" "ubs \<noteq> []"
    and sis: "length sis = length ubs" "\<forall>si \<in> set sis. si_strm si = [0]" "place_all sis ubs (lc_kv c) = Some kv'" "kv_v_cells (lc_kv c) \<noteq> []"
    and out: "ba_out_ids a' = all_rows a idxss"
    and c: "lc_output_ids c = replicate (lp_n_batch lp) (-1)" "lc_output_swaps c = []"
    and no: "n_out = length (filter (tok_output (ba_batch a)) [0..<n_tok (ba_batch a)])"
  shows "\<exists>c'. decode_run lp n_out (n_tok (ba_batch a)) a' (kx_batch sis ubs) c = Some (0, c') \<and> lc_kv c' = kv' \<and>
    (\<forall>i < n_tok (ba_batch a). if tok_output (ba_batch a) i
       then \<exists>r. get_logits_ith (int i) c' = Some r \<and> R (tok_pos (ba_batch a) i) (tok_row (ba_batch a) i) r
       else get_logits_ith (int i) c' = None)"
proof -
  let ?b = "ba_batch a" and ?out = "all_rows a idxss" and ?oi = "replicate (lp_n_batch lp) (-1 :: int)"
  have lo: "length ?out = n_out" using perm_outputs[OF rows(2,3)] by (simp add: all_rows_def no)
  have lc: "length (concat idxss) = n_tok ?b" using distinct_card[OF rows(2)] rows(3) by simp
  have outs: "distinct ?out" "set ?out = {i. i < n_tok ?b \<and> tok_output ?b i}" using rows(2) rows(3)[unfolded set_eq_iff] by (auto simp: all_rows_def)
  have all: "n_out = n_tok ?b \<longrightarrow> (\<forall>ub \<in> set ubs. length (ub_outs ub) = ub_n_tokens ub)"
    using decode_all_outputs[OF rows(1)] lo lc by auto
  have x: "kx_status (kx_batch sis ubs) = MS_SUCCESS" "kx_sinfos (kx_batch sis ubs) = [] @ sis" "kx_ubatches (kx_batch sis ubs) = [] @ ubs"
      "length ([] :: slot_info list) = kx_i_cur (kx_batch sis ubs)" "length ([] :: llama_ubatch list) = kx_i_cur (kx_batch sis ubs)"
    by (simp_all add: kx_batch_def kx_fail_def)
  obtain m x' rs where lp: "decode_loop (length ubs) lp n_out (n_tok ?b) (kx_batch sis ubs) (lc_kv c) [] = Some (0, m, x', kv', rs)"
      "list_all2 (\<lambda>i. R (tok_pos ?b i) (tok_row ?b i)) ?out rs"
    using decode_loop_ok[OF comp n rows(1) sis(1-4) rows(4) x _ all, of "[]"] lo by auto
  have lr: "length rs = length ?out" using lp(2) by (simp add: list_all2_lengthD)
  have bnd: "\<forall>t \<in> set ?out. t < length ?oi" "\<forall>t < length ?oi. ?oi ! t = -1" using outs(2) nb by auto
  define c1 where "c1 = c\<lparr>lc_kv := kv', lc_logits := rs, lc_n_outputs := n_out\<rparr>"
  have run: "decode_run lp n_out (n_tok ?b) a' (kx_batch sis ubs) c = (if n_out = 0 then Some (0, c1) else do {
      (oi, ids, swaps) \<leftarrow> output_mapping ?out ?oi; Some (0, c1\<lparr>lc_output_ids := oi, lc_output_swaps := swaps, lc_balloc := a'\<lparr>ba_out_ids := ids\<rparr>\<rparr>) })"
    using lp(1) lo out c(1) x(3) by (simp add: decode_run_def c1_def)
  show ?thesis
  proof (cases "n_out = 0")
    case True
    then have "?out = []" using lo by simp
    then have "\<not> tok_output ?b i" if "i < n_tok ?b" for i using outs(2) that by auto
    moreover have "get_logits_ith (int i) c1 = None" for i using True by (simp add: get_logits_ith_def c1_def output_reorder_def Let_def c(1))
    ultimately show ?thesis using True run by (simp add: c1_def)
  next
    case False
    obtain oi ids sw where om: "output_mapping ?out ?oi = Some (oi, ids, sw)" and g: "let c = \<lparr>lc_kv = kv', lc_balloc = a', lc_n_outputs = length ?out,
          lc_output_ids = oi, lc_output_swaps = sw, lc_logits = rs\<rparr> in
        (\<forall>k < length ?out. get_logits_ith (int (?out ! k)) c = Some (rs ! k)) \<and> (\<forall>t. t \<notin> set ?out \<longrightarrow> get_logits_ith (int t) c = None) \<and>
        (\<forall>k < length ?out. get_logits_ith (int k - int (length ?out)) c = get_logits_ith (int (sort ?out ! k)) c)"
      using logits_found[OF outs(1) bnd lr, of kv' a'] by (elim exE conjE) (rule that; assumption)
    define c2 where "c2 = c1\<lparr>lc_output_ids := oi, lc_output_swaps := sw, lc_balloc := a'\<lparr>ba_out_ids := ids\<rparr>\<rparr>"
    have c2: "get_logits_ith i c2 = get_logits_ith i \<lparr>lc_kv = kv', lc_balloc = a', lc_n_outputs = length ?out,
          lc_output_ids = oi, lc_output_swaps = sw, lc_logits = rs\<rparr>" for i
      by (simp add: get_logits_ith_def output_reorder_def Let_def c2_def c1_def lo)
    note g = g[unfolded Let_def, folded c2]
    have "\<exists>r. get_logits_ith (int i) c2 = Some r \<and> R (tok_pos ?b i) (tok_row ?b i) r" if i: "i < n_tok ?b" "tok_output ?b i" for i
    proof -
      have "i \<in> set ?out" using outs(2) i by simp
      then obtain k where k: "k < length ?out" "?out ! k = i" by (auto simp: in_set_conv_nth)
      then have "R (tok_pos ?b i) (tok_row ?b i) (rs ! k)" using list_all2_nthD[OF lp(2)] by blast
      then show ?thesis using g k by auto
    qed
    moreover have "get_logits_ith (int i) c2 = None" if "\<not> tok_output ?b i" for i using g outs(2) that by simp
    moreover have "decode_run lp n_out (n_tok ?b) a' (kx_batch sis ubs) c = Some (0, c2)" "lc_kv c2 = kv'"
      using run om False by (simp_all add: c2_def c1_def)
    ultimately show ?thesis by auto
  qed
qed

text \<open>The completed batch \<open>b'\<close> that \<open>init\<close> accepts for \<open>b\<close>.\<close>

definition batch_ok :: "'r decode_params \<Rightarrow> kv_cache \<Rightarrow> llama_batch \<Rightarrow> llama_batch \<Rightarrow> bool" where
  "batch_ok lp kv b b' \<longleftrightarrow> lp_n_seq_max lp \<le> LLAMA_MAX_SEQ \<and> tokens_valid (lp_n_vocab lp) b \<and>
     (b_seq_id b = None \<or> seq_ids_valid (lp_n_seq_max lp) b) \<and>
     init_batch (Some (kv_mem_view kv)) (lp_n_seq_max lp) False b = Some b' \<and> batch_accepted (Some (kv_mem_view kv)) (lp_n_seq_max lp) b'"

lemma decode_init:
  assumes r: "decode_ready lp c b"
  shows "\<exists>ok a. ba_init b (lp_n_vocab lp) (Some (kv_mem_view (lc_kv c))) (lp_n_embd lp) (lp_n_seq_max lp) False (lc_balloc c) = Some (ok, a) \<and>
    (ok \<longleftrightarrow> batch_ok lp (lc_kv c) b (ba_batch a)) \<and> (\<forall>b'. batch_ok lp (lc_kv c) b b' \<longrightarrow> ok \<and> b' = ba_batch a) \<and>
    (ok \<longrightarrow> ba_wf a \<and> n_tok (ba_batch a) = n_tok b \<and> 0 < n_pos_cur a \<and>
       ba_n_outputs a = length (filter (tok_output (ba_batch a)) [0..<n_tok b]))"
proof -
  let ?m = "lp_n_seq_max lp" and ?mem = "Some (kv_mem_view (lc_kv c))"
  have bk: "batch_backed (ba_n_pos_per_embd (lc_balloc c)) (lp_n_embd lp) b" "0 < ?m" "length (ba_seq_idx (lc_balloc c)) = LLAMA_MAX_SEQ"
    and fits: "batch_fits ?mem ?m b"
    using r by (simp_all add: decode_ready_def)
  show ?thesis
  proof (cases "?m \<le> LLAMA_MAX_SEQ \<and> tokens_valid (lp_n_vocab lp) b \<and> (b_seq_id b = None \<or> seq_ids_valid ?m b)")
    case True
    obtain b' a where i: "init_batch ?mem ?m False b = Some b'"
        "ba_init b (lp_n_vocab lp) ?mem (lp_n_embd lp) ?m False (lc_balloc c) = Some (batch_accepted ?mem ?m b', a)" "ba_batch a = b'"
        "n_tok b' = n_tok b" "ba_n_pos_per_embd a = ba_n_pos_per_embd (lc_balloc c)"
        "ba_n_outputs a = length (filter (\<lambda>l. l \<noteq> 0) (take (n_tok b') (case b_logits b' of Some ls \<Rightarrow> ls | None \<Rightarrow> [])))"
        "batch_accepted ?mem ?m b' \<longrightarrow> ba_wf a"
      using ba_init_eq[OF bk _ _ _ fits, of "lp_n_vocab lp" False] True by auto
    have "0 < n_pos_cur a" using bk(1) i(5) by (simp add: n_pos_cur_def batch_backed_def)
    moreover have "ba_n_outputs a = length (filter (tok_output b') [0..<n_tok b])" if "ba_wf a"
      using outputs_length[of "ba_n_seq_max a" b'] that i(3,4,6) by (simp add: ba_wf_def Let_def)
    ultimately show ?thesis using i True by (auto simp: batch_ok_def)
  next
    case False
    then show ?thesis using ba_init_reject[OF bk(1) False] by (auto simp: batch_ok_def)
  qed
qed

subsection \<open>Properties\<close>

text \<open>
  C1. \<^verbatim>\<open>decode\<close> on a cache with one stream and no sliding window, from the batch to the logits, for a call that
  is \<open>decode_ready\<close> (no shift or copy pending, output buffers reserved, at most \<open>n_batch\<close> tokens, no position that
  leaves \<^verbatim>\<open>int32_t\<close>), when every graph computation succeeds (\<open>computes\<close>) and the batch, if \<open>init\<close> accepts it, has no
  negative position, no position \<^verbatim>\<open>INT32_MAX\<close> and no token that names a sequence twice (\<open>batch_placeable\<close>: \<open>init\<close> accepts
  such batches and placing them aborts). Then it returns. It returns -1 with an unchanged cache exactly for a batch that \<open>init\<close> rejects, 1 with an unchanged cache when the
  accepted batch has more tokens than there are empty cells, and otherwise 0. In the last case every sequence holds its
  old positions and those of the batch, and \<^verbatim>\<open>get_logits_ith\<close> returns for a token that asked for logits the row computed
  for its position and sequences, however the batch was split, and nothing for any other token.
\<close>

theorem decode_end_to_end:
  assumes "decode_ready lp c b" "computes lp R" "\<forall>b'. batch_ok lp (lc_kv c) b b' \<longrightarrow> batch_placeable b'"
  shows "\<exists>code c'. llama_decode lp b c = Some (code, c') \<and>
    ((\<forall>b'. \<not> batch_ok lp (lc_kv c) b b') \<longrightarrow> code = -1 \<and> lc_kv c' = lc_kv c) \<and>
    (\<forall>b'. batch_ok lp (lc_kv c) b b' \<longrightarrow>
      (if card (free_cells (lc_kv c) 0) < n_tok b then code = 1 \<and> lc_kv c' = lc_kv c
       else code = 0 \<and> (\<forall>q. kv_view (lc_kv c') q = kv_view (lc_kv c) q \<union> batch_positions b' q) \<and>
         (\<forall>i < n_tok b. if tok_output b' i
            then \<exists>r. get_logits_ith (int i) c' = Some r \<and> R (tok_pos b' i) (tok_row b' i) r
            else get_logits_ith (int i) c' = None)))"
proof -
  let ?kv = "lc_kv c"
  obtain ok a where i: "ba_init b (lp_n_vocab lp) (Some (kv_mem_view ?kv)) (lp_n_embd lp) (lp_n_seq_max lp) False (lc_balloc c) = Some (ok, a)"
      "ok \<longleftrightarrow> batch_ok lp ?kv b (ba_batch a)" "\<forall>b'. batch_ok lp ?kv b b' \<longrightarrow> ok \<and> b' = ba_batch a"
      "ok \<longrightarrow> ba_wf a \<and> n_tok (ba_batch a) = n_tok b \<and> 0 < n_pos_cur a \<and> ba_n_outputs a = length (filter (tok_output (ba_batch a)) [0..<n_tok b])"
    using decode_init[OF assms(1)] by (elim exE conjE) (rule that; assumption)
  have kv: "plain ?kv" "kv_n_stream ?kv = 1" "no_pending ?kv" "n_tok b \<le> lp_n_batch lp" "0 < n_tok b"
    using assms(1) by (simp_all add: decode_ready_def batch_backed_def)
  show ?thesis
  proof (cases ok)
    case False
    have "llama_decode lp b c = Some (-1, c\<lparr>lc_balloc := a\<rparr>)"
      using assms(1) i(1) False by (simp add: llama_decode_def decode_ready_def batch_backed_def)
    then show ?thesis using i(3) False by simp
  next
    case True
    note a = i(4)[rule_format, OF True]
    have a0: "ba_wf a" "0 < n_tok (ba_batch a)" "0 < n_pos_cur a" using a kv(5) by (simp_all only:)
    have p: "batch_placeable (ba_batch a)" using assms(3) i(2) True by blast
    have uniq: "batch_ok lp ?kv b b' \<longleftrightarrow> b' = ba_batch a" for b' using i(2,3) True by blast
    obtain ubs a' idxss sis where ib: "kv_init_batch a (lp_n_ubatch lp) ?kv = Some (if sis = [] then kx_fail MS_FAILED_PREPARE else kx_batch sis ubs, a', ?kv)"
        "list_all2 (ubatch_rows (ba_split_reset a)) idxss ubs" "distinct (concat idxss)" "set (concat idxss) = {..<n_tok (ba_batch a)}"
        "ba_out_ids a' = filter (tok_output (ba_batch a)) (concat idxss)" "ubs \<noteq> []" "sis \<noteq> [] \<longleftrightarrow> n_tok (ba_batch a) \<le> card (free_cells ?kv 0)"
        "sis \<noteq> [] \<longrightarrow> length sis = length ubs \<and> (\<forall>si \<in> set sis. si_strm si = [0]) \<and>
          (\<exists>kv'. place_all sis ubs ?kv = Some kv' \<and> (\<forall>q. kv_view kv' q = kv_view ?kv q \<union> batch_positions (ba_batch a) q))"
      using init_batch_plain[OF a0 p kv(1,2), of "lp_n_ubatch lp"] by (elim exE conjE) (rule that; assumption)
    have steps: "llama_decode lp b c = (case (if sis = [] then Inl 1 else Inr (kx_batch sis ubs)) of
        Inl code \<Rightarrow> Some (code, c\<lparr>lc_output_swaps := [], lc_balloc := a'\<rparr>)
      | Inr x \<Rightarrow> decode_run lp (ba_n_outputs a) (n_tok b) a' x (c\<lparr>lc_output_swaps := [], lc_balloc := a',
          lc_output_ids := replicate (lp_n_batch lp) (-1), lc_n_outputs := 0\<rparr>))"
      using decode_steps[OF assms(1) i(1) _ decode_slots_plain[OF ib(1) kv(3), of "lp_shift lp"]] a True by simp
    show ?thesis
    proof (cases "sis = []")
      case sis: True
      then show ?thesis using steps ib(7) a by (simp add: uniq not_le)
    next
      case sis: False
      obtain kv' where kv': "place_all sis ubs ?kv = Some kv'" "\<forall>q. kv_view kv' q = kv_view ?kv q \<union> batch_positions (ba_batch a) q"
        using ib(8) sis by blast
      have ne: "kv_v_cells ?kv \<noteq> []" using kv(1,2) by (auto simp: plain_def find_ok_def kv_wf_def)
      have s: "ba_batch (ba_split_reset a) = ba_batch a" "n_pos_cur (ba_split_reset a) = n_pos_cur a"
        by (simp_all add: ba_split_reset_def n_pos_cur_def)
      let ?c = "c\<lparr>lc_output_swaps := [], lc_balloc := a', lc_output_ids := replicate (lp_n_batch lp) (-1), lc_n_outputs := 0\<rparr>"
      obtain c' where c': "llama_decode lp b c = Some (0, c')" "lc_kv c' = kv'"
          "\<forall>i < n_tok b. if tok_output (ba_batch a) i
             then \<exists>r. get_logits_ith (int i) c' = Some r \<and> R (tok_pos (ba_batch a) i) (tok_row (ba_batch a) i) r
             else get_logits_ith (int i) c' = None"
        using decode_run_ok[OF assms(2), where a = "ba_split_reset a", unfolded s all_rows_def s, OF a0(3) _ ib(2-4,6), where c = ?c and sis = sis and kv' = kv'
            and a' = a' and n_out = "ba_n_outputs a"] ib(5,8) kv(4) kv'(1) ne sis steps a by auto
      then show ?thesis using kv'(2) ib(7) sis a by (simp add: uniq not_less)
    qed
  qed
qed

definition fresh_cache :: kv_cache where
  "fresh_cache = \<lparr>kv_n_seq_max = 1, kv_n_stream = 1, kv_n_pad = 1, kv_n_swa = 0, kv_swa_type = SWA_NONE,
     kv_v_trans = False, kv_v_heads = [0], kv_v_cells = [cells_of False [no_cell, no_cell, no_cell, no_cell]],
     kv_seq_to_stream = replicate LLAMA_MAX_SEQ 0, kv_sc_ssrc = [], kv_sc_sdst = []\<rparr>"

text \<open>Parameters whose computation returns the position of each output row.\<close>

definition echo_params :: "int decode_params" where
  "echo_params = \<lparr>lp_n_vocab = 10, lp_n_embd = 4, lp_n_seq_max = 1, lp_n_batch = 8, lp_n_ubatch = 2, lp_causal_attn = True,
     lp_shift = (True, True), lp_reserve = True, lp_compute = (\<lambda>n ub kv. Inr (map (\<lambda>k. ub_pos ub ! k) (ub_outs ub)))\<rparr>"

definition fresh_context :: "int llama_context" where
  "fresh_context = \<lparr>lc_kv = fresh_cache, lc_balloc = batch_allocr_new 1, lc_n_outputs = 0, lc_output_ids = [], lc_output_swaps = [], lc_logits = []\<rparr>"

lemma fresh_cache_plain: "plain fresh_cache" "kv_n_stream fresh_cache = 1" "no_pending fresh_cache" "kv_view fresh_cache q = {}"
  "card (free_cells fresh_cache 0) = 4"
proof -
  have f: "kv_n_stream fresh_cache = 1" "kv_v_cells fresh_cache ! 0 = cells_of False [no_cell, no_cell, no_cell, no_cell]" "kv_capacity fresh_cache = 4"
    "stream_of fresh_cache q = 0" for q by (simp_all add: fresh_cache_def kv_capacity_def stream_of_def)
  have "stream_wf fresh_cache 0" unfolding stream_wf_def f
    by (intro exI[of _ False] exI[of _ "[no_cell, no_cell, no_cell, no_cell]"]) (simp add: fresh_cache_def)
  then show wf: "plain fresh_cache"
    by (simp add: plain_def find_ok_def kv_wf_def f pos_room_def) (simp add: fresh_cache_def swa_ok_def kv_capacity_def)
  show "kv_n_stream fresh_cache = 1" by (rule f)
  show "no_pending fresh_cache" by (simp add: no_pending_def kv_get_has_shift_def fresh_cache_def cells_get_has_shift_def cells_of_def)
  show "kv_view fresh_cache q = {}" by (simp add: kv_view_def f seq_positions_alt)
  have "free_cells fresh_cache 0 = {..<4}" by (auto simp: free_cells_def f less_Suc_eq numeral_eq_Suc)
  then show "card (free_cells fresh_cache 0) = 4" by simp
qed

lemma example_rows: "i < 3 \<Longrightarrow> tok_row example_batch i = [0] \<and> tok_pos example_batch i = int i \<and> (tok_output example_batch i \<longleftrightarrow> i = 2)"
  by (auto simp: example_batch_def tok_row_def tok_pos_def batch_n_seq_id_def batch_pos_def tok_output_def less_Suc_eq numeral_3_eq_3)

lemma example_positions: "batch_positions example_batch 0 = {0..2}"
proof -
  have "batch_positions example_batch 0 = {int i | i. i < 3}"
    using example_rows by (force simp: batch_positions_def tok_seqs_def example_batch_def)
  also have "\<dots> = {0..2}"
  proof -
    have "\<exists>i. x = int i \<and> i < 3" if "0 \<le> x" "x \<le> 2" for x using that by (intro exI[of _ "nat x"]) simp
    then show ?thesis by auto
  qed
  finally show ?thesis .
qed

lemma fresh_mem: "mv_seq_pos_max (kv_mem_view fresh_cache) 0 = -1"
proof -
  have "kv_seq_pos_max (int 0) fresh_cache = Some (-1)"
    using kv_mem.pos_max[where m = fresh_cache and q = 0] fresh_cache_plain(1) fresh_cache_plain(4)[of 0] by (simp add: plain_def find_ok_def has_seq_def fresh_cache_def)
  then show ?thesis by (simp add: kv_mem_view_def)
qed

lemma fresh_accepts: "batch_ok echo_params fresh_cache example_batch b' \<longleftrightarrow> b' = example_batch"
proof -
  have n: "n_tok example_batch = 3" by (simp add: example_batch_def)
  note mv = fresh_mem
  have "tokens_valid 10 example_batch" by (auto simp: tokens_valid_def example_batch_def less_Suc_eq numeral_3_eq_3)
  moreover have "seq_ids_valid (Suc 0) example_batch" using example_rows by (auto simp: seq_ids_valid_def n)
  moreover have "init_batch (Some (kv_mem_view fresh_cache)) (Suc 0) False example_batch = Some example_batch"
    by (simp add: init_batch_def init_gen_pos_def init_gen_seq_id_def init_gen_n_seq_id_def init_gen_logits_def example_batch_def)
  moreover have "batch_accepted (Some (kv_mem_view fresh_cache)) (Suc 0) example_batch"
  proof -
    have "batch_coupled_ok (Some (kv_mem_view fresh_cache)) example_batch" using example_rows by (auto simp: batch_coupled_ok_def n tok_seqs_def)
    moreover have "\<forall>i < n_tok example_batch. -1 \<le> tok_pos example_batch i" using example_rows by (simp add: n)
    moreover have "Min {0..2::int} = 0" "Max {0..2::int} = 2" by (auto intro: Min_eqI Max_eqI)
    ultimately show ?thesis using mv by (simp add: batch_accepted_def seq_pos_ok_def example_positions starts_after_def)
  qed
  ultimately show ?thesis by (auto simp: batch_ok_def echo_params_def)
qed

theorem decode_end_to_end_witness:
  "\<exists>c'. llama_decode echo_params example_batch fresh_context = Some (0, c') \<and> kv_view (lc_kv c') 0 = {0..2} \<and>
     get_logits_ith 2 c' = Some 2 \<and> get_logits_ith 1 c' = None"
proof -
  have n: "n_tok example_batch = 3" by (simp add: example_batch_def)
  have "batch_fits (Some (kv_mem_view fresh_cache)) 1 example_batch"
    by (rule example_batch_fits) (simp add: pos_start_def fresh_mem)
  then have ready: "decode_ready echo_params fresh_context example_batch"
    using fresh_cache_plain example_batch_backed n
    by (simp add: decode_ready_def fresh_context_def echo_params_def batch_allocr_new_def) (simp add: example_batch_def)
  have comp: "computes echo_params (\<lambda>p row r. r = p)"
    by (simp add: computes_def echo_params_def list_all2_map2 list.rel_refl)
  have kv: "lc_kv fresh_context = fresh_cache" by (simp add: fresh_context_def)
  have "batch_placeable example_batch" using example_rows by (auto simp: batch_placeable_def n)
  then have "\<forall>b'. batch_ok echo_params (lc_kv fresh_context) example_batch b' \<longrightarrow> batch_placeable b'" by (simp add: kv fresh_accepts)
  from decode_end_to_end[OF ready comp this] show ?thesis
    using example_rows[of 2] example_rows[of 1]
    by (auto simp: kv fresh_accepts n fresh_cache_plain example_positions All_less_Suc numeral_3_eq_3 numeral_2_eq_2)
qed

end
