(* ===== verification/Decode_Fail.thy ===== *)
theory Decode_Fail
  imports Decode_Run
begin

text \<open>
  What \<^verbatim>\<open>decode\<close> leaves in the cache when the computation of a micro-batch fails: the sequence memory interface cuts
  every sequence that is the first one of some token, and the cache is back where it was before the micro-batch
  when tokens belong to one sequence each.
\<close>

definition fail_limit :: "llama_ubatch \<Rightarrow> nat \<Rightarrow> int" where
  "fail_limit ub q = Min (insert INT32_MAX {ub_pos ub ! i | i. i < ub_n_tokens ub \<and> hd (ub_row ub i) = int q})"

lemma fail_limit_less:
  "x < INT32_MAX \<Longrightarrow> x < fail_limit ub q \<longleftrightarrow> (\<forall>i < ub_n_tokens ub. hd (ub_row ub i) = int q \<longrightarrow> x < ub_pos ub ! i)"
  unfolding fail_limit_def by (subst Min_gr_iff) auto

lemma fail_limit_range:
  assumes "\<forall>i < ub_n_tokens ub. 0 \<le> ub_pos ub ! i"
  shows "0 \<le> fail_limit ub q" "fail_limit ub q \<noteq> INT32_MAX \<Longrightarrow> \<exists>i < ub_n_tokens ub. hd (ub_row ub i) = int q"
proof -
  let ?S = "insert INT32_MAX {ub_pos ub ! i | i. i < ub_n_tokens ub \<and> hd (ub_row ub i) = int q}"
  have "Min ?S \<in> ?S" by (rule Min_in) auto
  then show "0 \<le> fail_limit ub q" "fail_limit ub q \<noteq> INT32_MAX \<Longrightarrow> \<exists>i < ub_n_tokens ub. hd (ub_row ub i) = int q"
    using assms by (auto simp: fail_limit_def)
qed

lemma ub_tok_first:
  assumes "ub_tok_ok ub i"
  shows "ub_seq_id ub ! i \<noteq> []" "ub_seq_id ub ! i ! 0 = hd (ub_row ub i)" "0 \<le> hd (ub_row ub i)" "hd (ub_row ub i) < int LLAMA_MAX_SEQ"
proof -
  have n: "0 < nat (ub_n_seq_id ub ! i)" "nat (ub_n_seq_id ub ! i) \<le> length (ub_seq_id ub ! i)" using assms by (auto simp: ub_tok_ok_def)
  then show ne: "ub_seq_id ub ! i \<noteq> []" by auto
  then have row: "ub_row ub i \<noteq> []" using n(1) by (simp add: ub_row_def)
  show "ub_seq_id ub ! i ! 0 = hd (ub_row ub i)" using n ne by (simp add: ub_row_def hd_conv_nth)
  show "0 \<le> hd (ub_row ub i)" "hd (ub_row ub i) < int LLAMA_MAX_SEQ" using assms row by (auto simp: ub_tok_ok_def)
qed

lemma fail_pos_min_eq:
  assumes "\<forall>i < ub_n_tokens ub. ub_tok_ok ub i"
  shows "fail_pos_min ub = Some (fail_limit ub)"
proof -
  let ?P = "\<lambda>m q. {ub_pos ub ! i | i. i < m \<and> hd (ub_row ub i) = int q}"
  let ?I = "\<lambda>m pm. pm = (\<lambda>q. Min (insert INT32_MAX (?P m q)))"
  have "\<exists>pm. fail_pos_min ub = Some pm \<and> ?I (ub_n_tokens ub) pm"
    unfolding fail_pos_min_def
  proof (rule for_each_upto_total[where I = ?I])
    fix m pm assume m: "m < ub_n_tokens ub" and I: "?I m pm"
    note t = ub_tok_first[OF assms[rule_format, OF m]]
    have ok: "m < length (ub_seq_id ub)" "m < length (ub_pos ub)" using assms m by (auto simp: ub_tok_ok_def)
    let ?s = "nat (hd (ub_row ub m))"
    have P: "?P (Suc m) q = (if q = ?s then insert (ub_pos ub ! m) (?P m q) else ?P m q)" for q
      using t(3) by (auto simp: less_Suc_eq)
    have fin: "finite (?P m q)" for q by simp
    have mn: "Min (insert INT32_MAX (insert (ub_pos ub ! m) (?P m q))) = min (Min (insert INT32_MAX (?P m q))) (ub_pos ub ! m)" for q
      by (subst insert_commute, subst Min_insert) (simp_all only: finite_insert fin insert_not_empty min.commute not_False_eq_True)
    have "(pm(?s := min (pm ?s) (ub_pos ub ! m))) q = Min (insert INT32_MAX (?P (Suc m) q))" for q
      unfolding P I by (cases "q = ?s") (simp_all only: fun_upd_same fun_upd_other if_True if_False mn not_False_eq_True simp_thms)
    then have "pm(?s := min (pm ?s) (ub_pos ub ! m)) = (\<lambda>q. Min (insert INT32_MAX (?P (Suc m) q)))" by (rule ext)
    then show "\<exists>pm'. (do {
        row \<leftarrow> vec_at (ub_seq_id ub) m; seq_id \<leftarrow> vec_at row 0; cpp_assert (0 \<le> seq_id \<and> seq_id < int LLAMA_MAX_SEQ);
        p \<leftarrow> vec_at (ub_pos ub) m; Some (pm(nat seq_id := min (pm (nat seq_id)) p)) }) = Some pm' \<and> ?I (Suc m) pm'"
      using t ok by simp
  qed simp
  then show ?thesis by (auto simp: fail_limit_def[abs_def])
qed

lemma fail_cleanup_ok:
  assumes ub: "\<forall>i < ub_n_tokens ub. ub_tok_ok ub i \<and> has_seq kv (nat (hd (ub_row ub i)))"
    and kv: "kv_wf kv" "\<forall>q. INT32_MAX \<notin> kv_view kv q"
  shows "\<exists>kv'. fail_cleanup ub kv = Some kv' \<and> kv_wf kv' \<and>
    (\<forall>q. kv_view kv' q = {p \<in> kv_view kv q. \<forall>i < ub_n_tokens ub. hd (ub_row ub i) = int q \<longrightarrow> p < ub_pos ub ! i})"
proof -
  have toks: "\<forall>i < ub_n_tokens ub. ub_tok_ok ub i" "\<forall>i < ub_n_tokens ub. 0 \<le> ub_pos ub ! i" using ub by (auto simp: ub_tok_ok_def)
  have "\<forall>q < LLAMA_MAX_SEQ. fail_limit ub q \<noteq> INT32_MAX \<longrightarrow> has_seq kv q \<and> 0 \<le> fail_limit ub q"
    using fail_limit_range[OF toks(2)] ub by (metis nat_int)
  from kv_mem.truncate_each[OF kv(1) this kv(2)]
  obtain kv' where kv': "fail_cleanup ub kv = Some kv'" "kv_wf kv'"
      "kv_view kv' = (\<lambda>q. if q < LLAMA_MAX_SEQ then {x \<in> kv_view kv q. x < fail_limit ub q} else kv_view kv q)"
    by (auto simp: fail_cleanup_def fail_pos_min_eq[OF toks(1)])
  have lt: "p < INT32_MAX" if "p \<in> kv_view kv q" for p q
    using that kv(2) kv_mem.view_range[OF kv(1), of q] by (auto simp: less_le)
  have "hd (ub_row ub i) \<noteq> int q" if "i < ub_n_tokens ub" "\<not> q < LLAMA_MAX_SEQ" for i q
    using ub_tok_first(4)[of ub i] toks(1) that by auto
  then have "kv_view kv' q = {p \<in> kv_view kv q. \<forall>i < ub_n_tokens ub. hd (ub_row ub i) = int q \<longrightarrow> p < ub_pos ub ! i}" for q
    using fail_limit_less[OF lt, of _ q] unfolding kv'(3) by auto
  then show ?thesis using kv'(1,2) by blast
qed

subsection \<open>Properties\<close>

text \<open>
  C25. After a failed micro-batch \<^verbatim>\<open>decode\<close> removes, for the first sequence of each of its tokens, everything from the
  position of the token on, and nothing else: a sequence that is never the first of a token keeps all its
  positions, those of the failed micro-batch included.
\<close>

theorem fail_cleanup_exact:
  assumes "kv_wf kv" "\<forall>q. INT32_MAX \<notin> kv_view kv q"
    "\<forall>i < ub_n_tokens ub. ub_tok_ok ub i \<and> has_seq kv (nat (hd (ub_row ub i)))"
  shows "\<exists>kv'. fail_cleanup ub kv = Some kv' \<and> kv_wf kv' \<and>
    (\<forall>q. kv_view kv' q = {p \<in> kv_view kv q. \<forall>i < ub_n_tokens ub. hd (ub_row ub i) = int q \<longrightarrow> p < ub_pos ub ! i}) \<and>
    (\<forall>q. (\<forall>i < ub_n_tokens ub. hd (ub_row ub i) \<noteq> int q) \<longrightarrow> kv_view kv' q = kv_view kv q)"
  using fail_cleanup_ok[OF assms(3,1,2)] by auto

text \<open>A token at position 0 of both sequences, as it stands in \<^const>\<open>demo_cache\<close>: sequence 1 keeps it.\<close>

definition shared_ubatch :: llama_ubatch where
  "shared_ubatch = (one_token_ubatch 0 0)\<lparr>ub_n_seq_id := [2], ub_seq_id := [[0, 1]], ub_seq_id_unq := [0, 1]\<rparr>"

theorem fail_cleanup_exact_witness:
  "\<exists>kv'. fail_cleanup shared_ubatch demo_cache = Some kv' \<and> kv_view kv' 0 = {} \<and> kv_view kv' (Suc 0) = {0, 7}"
proof -
  have t: "ub_n_tokens shared_ubatch = 1" "ub_row shared_ubatch 0 = [0, 1]" "ub_pos shared_ubatch = [0]" "ub_tok_ok shared_ubatch 0"
    by (simp_all add: shared_ubatch_def one_token_ubatch_def ub_row_def ub_tok_ok_def)
  have "\<forall>q. INT32_MAX \<notin> kv_view demo_cache q"
    by (auto simp: kv_view_def demo_cache_wf seq_positions_alt)
  from fail_cleanup_exact[OF demo_cache_wf(1) this, of shared_ubatch] show ?thesis
    by (auto simp: t demo_cache_wf demo_cache_view)
qed

text \<open>
  C26. In a cache with one stream and no sliding window, a failed micro-batch leaves no trace when each of its
  tokens belongs to one sequence and comes after the positions the cache holds, as \<open>init\<close> requires (in a
  sliding-window cache the positions the slot overwrote are not brought back): after placing the micro-batch in the slot found for it and the
  clean-up, every sequence has exactly the positions it had before, and the cache is still well formed.
\<close>

theorem failed_ubatch_rolls_back:
  assumes "plain kv" "kv_n_stream kv = 1" "ub_ok kv ub (ub_n_tokens ub)" "slot_valid kv ub (ub_n_tokens ub) si"
    "\<forall>i < ub_n_tokens ub. length (ub_row ub i) = 1" "\<forall>q. \<forall>p \<in> kv_view kv q. \<forall>p' \<in> ub_positions ub q. p < p'"
  shows "\<exists>kv1 kv2. kv_apply_ubatch si ub kv = Some kv1 \<and> fail_cleanup ub kv1 = Some kv2 \<and> kv_wf kv2 \<and> kv_view kv2 = kv_view kv"
proof -
  have ok: "find_ok kv" using assms(1) by (simp add: plain_def)
  have nw: "narrow kv ub" using assms(2,3) by (simp add: narrow_def ub_n_parts_def)
  obtain kv1 where kv1: "kv_apply_ubatch si ub kv = Some kv1" "find_ok kv1" "kv_same kv kv1"
    using apply_ubatch_spec[OF ok assms(3,4)] by blast
  have v1: "kv_view kv1 q = kv_view kv q \<union> ub_positions ub q" for q by (rule plain_view[OF assms(1) nw assms(4) kv1(1)])
  have toks: "ub_tok_ok ub i" if "i < ub_n_tokens ub" for i using assms(3) that by (simp add: ub_ok_def)
  have row: "ub_row ub i = [hd (ub_row ub i)]" if "i < ub_n_tokens ub" for i using assms(5) that by (metis length_0_conv length_Suc_conv list.sel(1) One_nat_def)
  have seq: "a_seq (ub_cell ub i) = {nat (hd (ub_row ub i))}" if "i < ub_n_tokens ub" for i
    unfolding ub_cell_def by (subst row[OF that]) simp
  have hs: "has_seq kv1 q \<longleftrightarrow> q < LLAMA_MAX_SEQ" for q
    using kv_same_seqs[OF kv1(3)] ok assms(2) by (auto simp: has_seq_def find_ok_def kv_wf_def)
  have room: "\<forall>q. INT32_MAX \<notin> kv_view kv1 q" using find_ok_room[OF kv1(2)] .
  have ub: "\<forall>i < ub_n_tokens ub. ub_tok_ok ub i \<and> has_seq kv1 (nat (hd (ub_row ub i)))"
    using toks ub_tok_first(3,4) hs by (auto simp: nat_less_iff)
  obtain kv2 where kv2: "fail_cleanup ub kv1 = Some kv2" "kv_wf kv2"
      "\<forall>q. kv_view kv2 q = {p \<in> kv_view kv1 q. \<forall>i < ub_n_tokens ub. hd (ub_row ub i) = int q \<longrightarrow> p < ub_pos ub ! i}"
    using fail_cleanup_ok[OF ub _ room] kv1(2) by (auto simp: find_ok_def)
  have at: "ub_positions ub q = {ub_pos ub ! i | i. i < ub_n_tokens ub \<and> hd (ub_row ub i) = int q}" for q
    using seq ub_tok_first(3) toks by (force simp: ub_positions_def)
  have "kv_view kv2 q = kv_view kv q" for q
    using kv2(3) v1[of q] at[of q] assms(6) by fastforce
  then show ?thesis using kv1(1) kv2(1,2) by (auto simp: fun_eq_iff)
qed

theorem failed_ubatch_rolls_back_witness:
  "\<exists>kv1 kv2. kv_apply_ubatch demo_slot (one_token_ubatch 0 2) demo_cache = Some kv1 \<and>
     fail_cleanup (one_token_ubatch 0 2) kv1 = Some kv2 \<and> kv_view kv2 0 = {0, 1}"
proof -
  let ?ub = "one_token_ubatch 0 2"
  have p: "plain demo_cache" using demo_find_ok by (simp add: plain_def)
  have t: "ub_n_tokens ?ub = 1" "ub_row ?ub 0 = [0]" by (simp_all add: one_token_ubatch_def ub_row_def)
  have "ub_positions ?ub q = (if q = 0 then {2} else {})" for q
    by (auto simp: ub_positions_def t(1) ub_cell_def t(2)) (simp_all add: one_token_ubatch_def)
  then have "\<forall>q. \<forall>p \<in> kv_view demo_cache q. \<forall>p' \<in> ub_positions ?ub q. p < p'" using demo_cache_view(1) by auto
  from failed_ubatch_rolls_back[OF p demo_cache_wf(2) _ _ _ this, of demo_slot] show ?thesis
    using demo_ub_ok(1,2) t demo_cache_view by fastforce
qed

end
