(* ===== verification/KV_ISWA.thy ===== *)
theory KV_ISWA
  imports KV_Prepare
begin

text \<open>
  \<^verbatim>\<open>llama_kv_cache_iswa\<close> of \<^verbatim>\<open>llama-kv-cache-iswa.cpp\<close>: two unified caches, one for the dense layers and one for the
  sliding-window layers, driven together. The layer filters and the sharing of tensors between layers belong to
  the tensors and are left out.
\<close>

subsection \<open>Definitions\<close>

record kv_iswa =
  iw_unified :: bool
  iw_base :: kv_cache
  iw_swa :: kv_cache

text \<open>The size of the sliding-window cache, in 32 bit arithmetic.\<close>

definition iswa_size :: "nat \<Rightarrow> bool \<Rightarrow> bool \<Rightarrow> nat \<Rightarrow> nat \<Rightarrow> nat \<Rightarrow> nat \<Rightarrow> nat" where
  "iswa_size n_swa swa_full unified kv_size n_seq_max n_ubatch n_pad = (if swa_full then kv_size
     else min kv_size (unat (ggml_pad (of_nat n_swa * of_nat (if unified then n_seq_max else 1) + of_nat n_ubatch) (of_nat n_pad))))"

definition iswa_new :: "llama_hparams \<Rightarrow> bool \<Rightarrow> bool \<Rightarrow> bool \<Rightarrow> nat \<Rightarrow> nat \<Rightarrow> nat \<Rightarrow> nat \<Rightarrow> kv_iswa option" where
  "iswa_new hp v_trans swa_full unified kv_size n_seq_max n_ubatch n_pad = do {
     base \<leftarrow> kv_new v_trans unified kv_size n_seq_max n_pad 0 SWA_NONE;
     swa \<leftarrow> kv_new v_trans unified (iswa_size (hp_n_swa hp) swa_full unified kv_size n_seq_max n_ubatch n_pad) n_seq_max n_pad
        (hp_n_swa hp) (hp_swa_type hp);
     Some \<lparr>iw_unified = unified, iw_base = base, iw_swa = swa\<rparr> }"

definition iswa_clear :: "kv_iswa \<Rightarrow> kv_iswa" where
  "iswa_clear w = w\<lparr>iw_base := kv_clear (iw_base w), iw_swa := kv_clear (iw_swa w)\<rparr>"

definition iswa_seq_rm :: "int \<Rightarrow> int \<Rightarrow> int \<Rightarrow> kv_iswa \<Rightarrow> (bool \<times> kv_iswa) option" where
  "iswa_seq_rm seq_id p0 p1 w = do {
     (r0, base) \<leftarrow> kv_seq_rm seq_id p0 p1 (iw_base w);
     (r1, swa) \<leftarrow> kv_seq_rm seq_id p0 p1 (iw_swa w);
     Some (r0 \<and> r1, w\<lparr>iw_base := base, iw_swa := swa\<rparr>) }"

text \<open>The four operations without a result apply the same operation to both caches, the dense one first.\<close>

definition iswa_both :: "(kv_cache \<Rightarrow> kv_cache option) \<Rightarrow> kv_iswa \<Rightarrow> kv_iswa option" where
  "iswa_both f w = do {
     base \<leftarrow> f (iw_base w);
     swa \<leftarrow> f (iw_swa w);
     Some (w\<lparr>iw_base := base, iw_swa := swa\<rparr>) }"

definition iswa_seq_cp :: "int \<Rightarrow> int \<Rightarrow> int \<Rightarrow> int \<Rightarrow> kv_iswa \<Rightarrow> kv_iswa option" where
  "iswa_seq_cp seq_id_src seq_id_dst p0 p1 = iswa_both (kv_seq_cp seq_id_src seq_id_dst p0 p1)"

definition iswa_seq_keep :: "int \<Rightarrow> kv_iswa \<Rightarrow> kv_iswa option" where
  "iswa_seq_keep seq_id = iswa_both (kv_seq_keep seq_id)"

definition iswa_seq_add :: "int \<Rightarrow> int \<Rightarrow> int \<Rightarrow> int \<Rightarrow> kv_iswa \<Rightarrow> kv_iswa option" where
  "iswa_seq_add seq_id p0 p1 shift = iswa_both (kv_seq_add seq_id p0 p1 shift)"

definition iswa_seq_div :: "int \<Rightarrow> int \<Rightarrow> int \<Rightarrow> int \<Rightarrow> kv_iswa \<Rightarrow> kv_iswa option" where
  "iswa_seq_div seq_id p0 p1 d = iswa_both (kv_seq_div seq_id p0 p1 d)"

definition iswa_seq_pos_min :: "int \<Rightarrow> kv_iswa \<Rightarrow> int option" where
  "iswa_seq_pos_min seq_id w = kv_seq_pos_min seq_id (iw_swa w)"

definition iswa_seq_pos_max :: "int \<Rightarrow> kv_iswa \<Rightarrow> int option" where
  "iswa_seq_pos_max seq_id w = kv_seq_pos_max seq_id (iw_swa w)"

definition iswa_get_can_shift :: "kv_iswa \<Rightarrow> bool option" where
  "iswa_get_can_shift w = do { a \<leftarrow> kv_get_size (iw_base w); b \<leftarrow> kv_get_size (iw_swa w); Some (a = b) }"

text \<open>The memory context. The error constructor leaves the two inner contexts null.\<close>

record iswa_context =
  ic_i_next :: nat
  ic_ubatches :: "llama_ubatch list"
  ic_base :: "kv_context option"
  ic_swa :: "kv_context option"
  ic_status :: llama_memory_status

definition ic_fail :: "llama_memory_status \<Rightarrow> iswa_context" where
  "ic_fail status = \<lparr>ic_i_next = 0, ic_ubatches = [], ic_base = None, ic_swa = None, ic_status = status\<rparr>"

definition ic_pair :: "llama_ubatch list \<Rightarrow> kv_context \<Rightarrow> kv_context \<Rightarrow> iswa_context" where
  "ic_pair ubs xb xs = \<lparr>ic_i_next = 0, ic_ubatches = ubs, ic_base = Some xb, ic_swa = Some xs,
     ic_status = llama_memory_status_combine (kx_status xb) (kx_status xs)\<rparr>"

definition iswa_init_full :: "kv_iswa \<Rightarrow> iswa_context option" where
  "iswa_init_full w = do { xb \<leftarrow> kv_init_full (iw_base w); xs \<leftarrow> kv_init_full (iw_swa w); Some (ic_pair [] xb xs) }"

definition iswa_init_update :: "kv_iswa \<Rightarrow> (iswa_context \<times> kv_iswa) option" where
  "iswa_init_update w = do {
     (xb, base) \<leftarrow> kv_init_update (iw_base w);
     (xs, swa) \<leftarrow> kv_init_update (iw_swa w);
     Some (ic_pair [] xb xs, w\<lparr>iw_base := base, iw_swa := swa\<rparr>) }"

text \<open>One of the two attempts of \<^verbatim>\<open>init_batch\<close>; \<open>None\<close> inside means that it gave up.\<close>

definition iswa_attempt :: "(llama_batch_allocr \<Rightarrow> (llama_ubatch \<times> llama_batch_allocr) option) \<Rightarrow> llama_batch_allocr \<Rightarrow> kv_iswa
    \<Rightarrow> (iswa_context option \<times> llama_batch_allocr \<times> kv_iswa) option" where
  "iswa_attempt split a w = do {
     a \<leftarrow> Some (ba_split_reset a);
     (ubs, a) \<leftarrow> split_loop split (Suc (ba_get_n_tokens a)) a;
     if ba_n_used a < ba_get_n_tokens a then Some (None, a, w) else do {
     (sinfos_base, base) \<leftarrow> kv_prepare ubs (iw_base w);
     w \<leftarrow> Some (w\<lparr>iw_base := base\<rparr>);
     if sinfos_base = [] then Some (None, a, w) else do {
     (sinfos_swa, swa) \<leftarrow> kv_prepare ubs (iw_swa w);
     w \<leftarrow> Some (w\<lparr>iw_swa := swa\<rparr>);
     if sinfos_swa = [] then Some (None, a, w) else do {
     cpp_assert (length sinfos_base = length sinfos_swa);
     Some (Some (ic_pair ubs (kx_batch sinfos_base ubs) (kx_batch sinfos_swa ubs)), a, w) }}} }"

definition iswa_init_batch :: "llama_batch_allocr \<Rightarrow> nat \<Rightarrow> kv_iswa \<Rightarrow> (iswa_context \<times> llama_batch_allocr \<times> kv_iswa) option" where
  "iswa_init_batch a n_ubatch w = do {
     (r, a, w) \<leftarrow> (if iw_unified w then iswa_attempt (ba_split_simple n_ubatch) a w else Some (None, a, w));
     (case r of
        Some x \<Rightarrow> Some (x, a, w)
      | None \<Rightarrow> do {
          (r, a, w) \<leftarrow> iswa_attempt (ba_split_equal n_ubatch (\<not> iw_unified w)) a w;
          Some (case r of Some x \<Rightarrow> x | None \<Rightarrow> ic_fail MS_FAILED_PREPARE, a, w) }) }"

definition ic_next :: "iswa_context \<Rightarrow> (bool \<times> iswa_context) option" where
  "ic_next x = do {
     cpp_assert (ic_status x = MS_SUCCESS);
     xb \<leftarrow> ic_base x;
     (_, xb) \<leftarrow> kx_next xb;
     xs \<leftarrow> ic_swa x;
     (_, xs) \<leftarrow> kx_next xs;
     i \<leftarrow> Some (ic_i_next x + 1);
     Some (i < length (ic_ubatches x), x\<lparr>ic_base := Some xb, ic_swa := Some xs, ic_i_next := i\<rparr>) }"

definition ic_apply :: "bool \<Rightarrow> bool \<Rightarrow> iswa_context \<Rightarrow> kv_iswa \<Rightarrow> (iswa_context \<times> kv_iswa) option" where
  "ic_apply has_rope compute_ok x w = do {
     cpp_assert (\<not> llama_memory_status_is_fail (ic_status x));
     xb \<leftarrow> ic_base x;
     (xb, base) \<leftarrow> kx_apply has_rope compute_ok xb (iw_base w);
     xs \<leftarrow> ic_swa x;
     (xs, swa) \<leftarrow> kx_apply has_rope compute_ok xs (iw_swa w);
     Some (x\<lparr>ic_base := Some xb, ic_swa := Some xs\<rparr>, w\<lparr>iw_base := base, iw_swa := swa\<rparr>) }"

definition ic_get_ubatch :: "iswa_context \<Rightarrow> llama_ubatch option" where
  "ic_get_ubatch x = do { cpp_assert (ic_status x = MS_SUCCESS); vec_at (ic_ubatches x) (ic_i_next x) }"

text \<open>Saving and restoring; \<open>part_only\<close> is the flag that leaves the dense cache out.\<close>

definition iswa_state_write :: "(nat \<Rightarrow> (nat \<times> nat) list \<Rightarrow> int list) \<Rightarrow> (nat \<Rightarrow> (nat \<times> nat) list \<Rightarrow> int list) \<Rightarrow> bool \<Rightarrow> int \<Rightarrow> kv_iswa
    \<Rightarrow> int list option" where
  "iswa_state_write write_base write_swa part_only seq_id w = do {
     b \<leftarrow> (if part_only then Some [] else kv_state_write write_base seq_id (iw_base w));
     s \<leftarrow> kv_state_write write_swa seq_id (iw_swa w);
     Some (b @ s) }"

definition iswa_state_read :: "(kv_cache \<Rightarrow> nat \<Rightarrow> nat \<Rightarrow> int list \<Rightarrow> bool \<times> int list) \<Rightarrow> (kv_cache \<Rightarrow> nat \<Rightarrow> nat \<Rightarrow> int list \<Rightarrow> bool \<times> int list)
    \<Rightarrow> nat \<Rightarrow> bool \<Rightarrow> int \<Rightarrow> int list \<Rightarrow> kv_iswa \<Rightarrow> ((kv_error \<times> kv_iswa) + (kv_iswa \<times> int list)) option" where
  "iswa_state_read read_base read_swa n_pos part_only seq_id io w = do {
     r \<leftarrow> (if part_only then Some (Inr (iw_base w, io)) else kv_state_read read_base n_pos seq_id io (iw_base w));
     (case r of
        Inl (e, base) \<Rightarrow> Some (Inl (e, w\<lparr>iw_base := base\<rparr>))
      | Inr (base, io) \<Rightarrow> do {
          w \<leftarrow> Some (w\<lparr>iw_base := base\<rparr>);
          r \<leftarrow> kv_state_read read_swa n_pos seq_id io (iw_swa w);
          Some (case r of
              Inl (e, swa) \<Rightarrow> Inl (e, w\<lparr>iw_swa := swa\<rparr>)
            | Inr (swa, io) \<Rightarrow> Inr (w\<lparr>iw_swa := swa\<rparr>, io)) }) }"

subsection \<open>The dense cache holds what the sliding-window cache holds\<close>

lemma find_ok_of_view:
  assumes wf: "kv_wf kv" and swa: "swa_ok kv" and room: "\<forall>q. INT32_MAX \<notin> kv_view kv q"
  shows "find_ok kv"
proof -
  have "pos_room (stream_cells kv s)" if s: "s < kv_n_stream kv" for s
  proof -
    obtain hs xs where c: "kv_v_cells kv ! s = cells_of hs xs" "acells_full xs" "1 < kv_n_stream kv \<Longrightarrow> \<forall>x \<in> set xs. a_seq x \<subseteq> {s}"
      using wf s unfolding kv_wf_def stream_wf_def by blast
    have "a_pos x < INT32_MAX" if x: "x \<in> set xs" for x
    proof (cases "a_pos x = INT32_MAX")
      case True
      have full: "acell_full x" using c(2) x by simp
      then obtain q where q: "q \<in> a_seq x" "q < LLAMA_MAX_SEQ" using True by (auto simp: acell_full_def acell_ok_def)
      have "has_seq kv q \<and> stream_of kv q = s"
      proof (cases "kv_n_stream kv = 1")
        case True
        then show ?thesis using wf q(2) s by (auto simp: has_seq_def stream_of_def kv_wf_def)
      next
        case False
        then have "q = s" using c(3) x q(1) s by auto
        then show ?thesis using wf False s by (auto simp: has_seq_def stream_of_def kv_wf_def)
      qed
      then have "INT32_MAX \<in> kv_view kv q" using x q(1) True c(1) by (auto simp: kv_view_def seq_positions_alt)
      then show ?thesis using room by blast
    qed (use c(2) x in \<open>auto simp: acell_full_def acell_ok_def i32_ok_def\<close>)
    then show ?thesis using c(1) by (simp add: pos_room_def)
  qed
  then show ?thesis using wf swa by (simp add: find_ok_def)
qed

lemma dense_overwritten:
  assumes kv: "find_ok kv" "kv_swa_type kv = SWA_NONE" and ub: "ub_ok kv ub n" and si: "slot_valid kv ub n si"
  shows "overwritten kv si (ub_n_parts kv ub) q = -1"
proof (rule ccontr)
  assume "overwritten kv si (ub_n_parts kv ub) q \<noteq> -1"
  then obtain s idx where s: "s < ub_n_parts kv ub" "idx \<in> set (si_idxs si ! s)" "q \<in> a_seq (stream_cells kv (si_strm si ! s) ! idx)"
    using overwritten_props(3) by blast
  let ?t = "ub_stream kv ub s"
  have t: "?t < kv_n_stream kv" using ub_stream_less(1)[of kv ub n s] kv(1) ub s(1) by (simp add: find_ok_def ub_ok_def)
  have i: "idx < kv_capacity kv" "usable_at kv ?t idx" using si s by (auto simp: slot_valid_def)
  have "idx \<in> free_cells kv ?t" using i kv(2) by (simp add: free_cells_def usable_at_def usable_empty_only)
  then have "stream_cells kv ?t ! idx = no_cell" using free_no_cell[of kv ?t idx] kv t by (simp add: plain_def)
  then show False using s slot_validD(1)[OF si s(1)] by simp
qed

definition iswa_wf :: "kv_iswa \<Rightarrow> bool" where
  "iswa_wf w \<longleftrightarrow> find_ok (iw_base w) \<and> find_ok (iw_swa w) \<and> kv_swa_type (iw_base w) = SWA_NONE \<and>
     kv_n_stream (iw_base w) = kv_n_stream (iw_swa w) \<and> (\<forall>q. kv_view (iw_swa w) q \<subseteq> kv_view (iw_base w) q)"

definition iswa_view :: "kv_iswa \<Rightarrow> nat \<Rightarrow> int set" where
  "iswa_view w = kv_view (iw_swa w)"

definition iswa_has_seq :: "kv_iswa \<Rightarrow> nat \<Rightarrow> bool" where
  "iswa_has_seq w = has_seq (iw_swa w)"

lemma iswa_wfD:
  assumes "iswa_wf w"
  shows "find_ok (iw_base w)" "find_ok (iw_swa w)" "kv_wf (iw_base w)" "kv_wf (iw_swa w)" "kv_view (iw_swa w) q \<subseteq> kv_view (iw_base w) q"
    "has_seq (iw_base w) = has_seq (iw_swa w)"
  using assms by (auto simp: iswa_wf_def find_ok_def has_seq_def kv_wf_def fun_eq_iff)

text \<open>Operations on one cache keep the configuration; with the view they keep \<open>find_ok\<close>.\<close>

definition kv_shrinks :: "kv_cache \<Rightarrow> kv_cache \<Rightarrow> bool" where
  "kv_shrinks kv kv' \<longleftrightarrow> kv_wf kv' \<and> kv_n_stream kv' = kv_n_stream kv \<and> kv_swa_type kv' = kv_swa_type kv \<and> kv_n_swa kv' = kv_n_swa kv \<and>
     (\<forall>q. kv_view kv' q \<subseteq> kv_view kv q)"

lemma kv_shrinks_find_ok:
  assumes "find_ok kv" "kv_shrinks kv kv'"
  shows "find_ok kv'"
proof (rule find_ok_of_view)
  show "\<forall>q. INT32_MAX \<notin> kv_view kv' q" using find_ok_room[OF assms(1)] assms(2) unfolding kv_shrinks_def by blast
qed (use assms in \<open>auto simp: kv_shrinks_def swa_ok_def find_ok_def\<close>)

lemma kv_rm_shrinks:
  assumes "kv_wf kv" "has_seq kv q"
  shows "\<exists>kv'. kv_seq_rm (int q) p0 p1 kv = Some (True, kv') \<and> kv_shrinks kv kv' \<and> kv_view kv' = (kv_view kv)(q := kv_view kv q - {norm_p0 p0..<norm_p1 p1})"
proof -
  obtain kv' where k: "kv_seq_rm (int q) p0 p1 kv = Some (True, kv')" "kv_maps kv (stream_of kv q) (rm_cell q p0 p1) kv'"
    using kv_seq_rm_ok[OF assms] by blast
  then show ?thesis using kv_seq_rm_view[OF assms, of p0 p1] by (auto simp: kv_shrinks_def kv_maps_def kv_set_stream_def)
qed

lemma kv_keep_shrinks:
  assumes "kv_wf kv" "has_seq kv q"
  shows "\<exists>kv'. kv_seq_keep (int q) kv = Some kv' \<and> kv_shrinks kv kv' \<and>
    kv_view kv' = (if kv_n_stream kv = 1 then (\<lambda>_. {})(q := kv_view kv q) else kv_view kv)"
proof -
  obtain kv' where k: "kv_seq_keep (int q) kv = Some kv'" "kv_maps kv (stream_of kv q) (acell_keep q) kv'"
    using kv_seq_keep_ok[OF assms] by blast
  then show ?thesis using kv_seq_keep_view[OF assms] by (auto simp: kv_shrinks_def kv_maps_def kv_set_stream_def)
qed

lemma kv_clear_shrinks: "kv_wf kv \<Longrightarrow> kv_shrinks kv (kv_clear kv) \<and> kv_view (kv_clear kv) = (\<lambda>_. {})"
  using kv_clear_wf[of kv] by (simp add: kv_shrinks_def kv_clear_def)

lemma iswa_wf_both:
  assumes "iswa_wf w" "kv_shrinks (iw_base w) base" "kv_shrinks (iw_swa w) swa" "\<forall>q. kv_view swa q \<subseteq> kv_view base q"
  shows "iswa_wf (w\<lparr>iw_base := base, iw_swa := swa\<rparr>)"
  using assms kv_shrinks_find_ok by (auto simp: iswa_wf_def kv_shrinks_def)

lemma iswa_rm_view:
  assumes w: "iswa_wf w" and q: "iswa_has_seq w q"
  shows "\<exists>w'. iswa_seq_rm (int q) p0 p1 w = Some (True, w') \<and> iswa_wf w' \<and> iswa_has_seq w' = iswa_has_seq w \<and>
    kv_view (iw_base w') = (kv_view (iw_base w))(q := kv_view (iw_base w) q - {norm_p0 p0..<norm_p1 p1}) \<and>
    iswa_view w' = (iswa_view w)(q := iswa_view w q - {norm_p0 p0..<norm_p1 p1})"
proof -
  note d = iswa_wfD[OF w]
  have q': "has_seq (iw_base w) q" "has_seq (iw_swa w) q" using q d(6) by (simp_all add: iswa_has_seq_def)
  obtain base where b: "kv_seq_rm (int q) p0 p1 (iw_base w) = Some (True, base)" "kv_shrinks (iw_base w) base"
      "kv_view base = (kv_view (iw_base w))(q := kv_view (iw_base w) q - {norm_p0 p0..<norm_p1 p1})"
    using kv_rm_shrinks[OF d(3) q'(1)] by blast
  obtain swa where s: "kv_seq_rm (int q) p0 p1 (iw_swa w) = Some (True, swa)" "kv_shrinks (iw_swa w) swa"
      "kv_view swa = (kv_view (iw_swa w))(q := kv_view (iw_swa w) q - {norm_p0 p0..<norm_p1 p1})"
    using kv_rm_shrinks[OF d(4) q'(2)] by blast
  have "\<forall>r. kv_view swa r \<subseteq> kv_view base r" unfolding b(3) s(3) using d(5) by auto
  then have "iswa_wf (w\<lparr>iw_base := base, iw_swa := swa\<rparr>)" by (rule iswa_wf_both[OF w b(2) s(2)])
  moreover have "has_seq swa = has_seq (iw_swa w)" using s(2) d(4) by (auto simp: kv_shrinks_def has_seq_def kv_wf_def fun_eq_iff)
  ultimately show ?thesis using b s by (simp add: iswa_seq_rm_def iswa_view_def iswa_has_seq_def)
qed

interpretation iswa_mem: seq_memory iswa_wf iswa_has_seq iswa_view iswa_seq_rm iswa_seq_pos_min iswa_seq_pos_max
proof
  fix m :: kv_iswa and q :: nat and p0 p1 :: int
  assume w: "iswa_wf m"
  note d = iswa_wfD[OF w]
  show "finite (iswa_view m q) \<and> iswa_view m q \<subseteq> {0..INT32_MAX}" unfolding iswa_view_def by (rule kv_mem.view_range[OF d(4)])
  assume q: "iswa_has_seq m q"
  show "\<exists>m'. iswa_seq_rm (int q) p0 p1 m = Some (True, m') \<and> iswa_wf m' \<and> iswa_has_seq m' = iswa_has_seq m \<and>
      iswa_view m' = (iswa_view m)(q := iswa_view m q - {norm_p0 p0..<norm_p1 p1})"
    using iswa_rm_view[OF w q] by blast
  show "iswa_seq_pos_min (int q) m = Some (if iswa_view m q = {} then -1 else Min (iswa_view m q))"
    using kv_mem.pos_min[OF d(4)] q by (simp add: iswa_seq_pos_min_def iswa_view_def iswa_has_seq_def)
  show "iswa_seq_pos_max (int q) m = Some (if iswa_view m q = {} then -1 else Max (iswa_view m q))"
    using kv_mem.pos_max[OF d(4)] q by (simp add: iswa_seq_pos_max_def iswa_view_def iswa_has_seq_def)
qed

subsection \<open>Reachable states\<close>

text \<open>The current micro-batch of a batch context and slots for it in both caches, as \<^verbatim>\<open>init_batch\<close> finds them.\<close>

definition ic_slots_ok :: "iswa_context \<Rightarrow> kv_iswa \<Rightarrow> llama_ubatch \<Rightarrow> bool" where
  "ic_slots_ok x w ub \<longleftrightarrow> (\<exists>n xb xs sb ss. ic_base x = Some xb \<and> ic_swa x = Some xs \<and>
     vec_at (kx_ubatches xb) (kx_i_cur xb) = Some ub \<and> vec_at (kx_ubatches xs) (kx_i_cur xs) = Some ub \<and>
     vec_at (kx_sinfos xb) (kx_i_cur xb) = Some sb \<and> vec_at (kx_sinfos xs) (kx_i_cur xs) = Some ss \<and>
     ub_ok (iw_base w) ub n \<and> ub_ok (iw_swa w) ub n \<and> slot_valid (iw_base w) ub n sb \<and> slot_valid (iw_swa w) ub n ss)"

text \<open>
  What \<^verbatim>\<open>seq_cp\<close> needs of a cache with several streams, and \<^verbatim>\<open>seq_add\<close> and \<^verbatim>\<open>seq_div\<close> of every cache: the copy takes the whole
  sequence; the cells that move belong to the sequence alone and stay in \<^verbatim>\<open>int32_t\<close>.
\<close>

definition cp_whole :: "kv_cache \<Rightarrow> nat \<Rightarrow> int \<Rightarrow> int \<Rightarrow> bool" where
  "cp_whole kv src p0 p1 \<longleftrightarrow> (kv_n_stream kv \<noteq> 1 \<longrightarrow> p0 \<le> 0 \<and> p1 \<le> 0 \<and> int (kv_capacity kv) \<le> INT32_MAX \<and>
     (\<forall>x \<in> set (cells_abs (kv_v_cells kv ! src)). cross_pre src x))"

definition moves_alone :: "kv_cache \<Rightarrow> nat \<Rightarrow> int \<Rightarrow> int \<Rightarrow> bool" where
  "moves_alone kv q p0 p1 \<longleftrightarrow> (\<forall>x \<in> set (cells_abs (kv_v_cells kv ! stream_of kv q)). in_range p0 p1 x \<and> q \<in> a_seq x \<longrightarrow> a_seq x = {q})"

definition add_fits :: "kv_cache \<Rightarrow> nat \<Rightarrow> int \<Rightarrow> int \<Rightarrow> int \<Rightarrow> bool" where
  "add_fits kv q p0 p1 d \<longleftrightarrow> moves_alone kv q p0 p1 \<and> INT32_MAX \<notin> shift_range p0 p1 d (kv_view kv q) \<and>
     (\<forall>x \<in> set (cells_abs (kv_v_cells kv ! stream_of kv q)). add_pre q p0 p1 d x)"

definition div_fits :: "kv_cache \<Rightarrow> nat \<Rightarrow> int \<Rightarrow> int \<Rightarrow> int \<Rightarrow> bool" where
  "div_fits kv q p0 p1 d \<longleftrightarrow> moves_alone kv q p0 p1 \<and> 0 < d \<and> (\<forall>x \<in> set (cells_abs (kv_v_cells kv ! stream_of kv q)). div_pre q p0 p1 d x)"

inductive iswa_reach :: "kv_iswa \<Rightarrow> bool" where
  new: "iswa_new hp v_trans swa_full unified kv_size n_seq_max n_ubatch n_pad = Some w \<Longrightarrow> 0 < n_seq_max \<Longrightarrow> n_seq_max \<le> LLAMA_MAX_SEQ \<Longrightarrow>
    (hp_swa_type hp = SWA_CHUNKED \<longrightarrow> hp_n_swa hp \<noteq> 0) \<Longrightarrow> iswa_reach w"
| clear: "iswa_reach w \<Longrightarrow> iswa_reach (iswa_clear w)"
| rm: "iswa_reach w \<Longrightarrow> iswa_has_seq w q \<Longrightarrow> iswa_seq_rm (int q) p0 p1 w = Some (b, w') \<Longrightarrow> iswa_reach w'"
| keep: "iswa_reach w \<Longrightarrow> iswa_has_seq w q \<Longrightarrow> iswa_seq_keep (int q) w = Some w' \<Longrightarrow> iswa_reach w'"
| rm_any: "iswa_reach w \<Longrightarrow> iswa_seq_rm (-1) p0 p1 w = Some (b, w') \<Longrightarrow> iswa_reach w'"
| cp: "iswa_reach w \<Longrightarrow> iswa_has_seq w src \<Longrightarrow> iswa_has_seq w dst \<Longrightarrow> src \<noteq> dst \<Longrightarrow> cp_whole (iw_base w) src p0 p1 \<Longrightarrow> cp_whole (iw_swa w) src p0 p1 \<Longrightarrow>
    iswa_seq_cp (int src) (int dst) p0 p1 w = Some w' \<Longrightarrow> iswa_reach w'"
| add: "iswa_reach w \<Longrightarrow> iswa_has_seq w q \<Longrightarrow> add_fits (iw_base w) q p0 p1 d \<Longrightarrow> add_fits (iw_swa w) q p0 p1 d \<Longrightarrow>
    iswa_seq_add (int q) p0 p1 d w = Some w' \<Longrightarrow> iswa_reach w'"
| div: "iswa_reach w \<Longrightarrow> iswa_has_seq w q \<Longrightarrow> div_fits (iw_base w) q p0 p1 d \<Longrightarrow> div_fits (iw_swa w) q p0 p1 d \<Longrightarrow>
    iswa_seq_div (int q) p0 p1 d w = Some w' \<Longrightarrow> iswa_reach w'"
| place: "iswa_reach w \<Longrightarrow> ic_slots_ok x w ub \<Longrightarrow> ic_apply has_rope compute_ok x w = Some (x', w') \<Longrightarrow> iswa_reach w'"

lemma iswa_new_wf:
  assumes "iswa_new hp v_trans swa_full unified kv_size n_seq_max n_ubatch n_pad = Some w" "0 < n_seq_max" "n_seq_max \<le> LLAMA_MAX_SEQ"
    "hp_swa_type hp = SWA_CHUNKED \<longrightarrow> hp_n_swa hp \<noteq> 0"
  shows "iswa_wf w" "kv_view (iw_base w) = (\<lambda>_. {})" "iswa_view w = (\<lambda>_. {})"
proof -
  obtain base swa n where w: "kv_new v_trans unified kv_size n_seq_max n_pad 0 SWA_NONE = Some base"
      "kv_new v_trans unified n n_seq_max n_pad (hp_n_swa hp) (hp_swa_type hp) = Some swa" "iw_base w = base" "iw_swa w = swa"
    using assms(1) by (auto simp: iswa_new_def bind_eq_Some_conv)
  note b = kv_new_ok[OF assms(2,3) w(1)] and s = kv_new_ok[OF assms(2,3) w(2)]
  have "find_ok base" "find_ok swa" using b s assms(4) by (auto intro!: find_ok_of_view simp: swa_ok_def)
  then show "iswa_wf w" using b s w(3,4) by (simp add: iswa_wf_def)
  show "kv_view (iw_base w) = (\<lambda>_. {})" "iswa_view w = (\<lambda>_. {})" using b s w(3,4) by (simp_all add: iswa_view_def)
qed

lemma iswa_clear_wf:
  assumes "iswa_wf w"
  shows "iswa_wf (iswa_clear w)"
  unfolding iswa_clear_def
  by (rule iswa_wf_both[OF assms]) (use iswa_wfD[OF assms] kv_clear_shrinks in auto)

lemma iswa_keep_wf:
  assumes w: "iswa_wf w" and q: "iswa_has_seq w q" and k: "iswa_seq_keep (int q) w = Some w'"
  shows "iswa_wf w'"
proof -
  note d = iswa_wfD[OF w]
  have q': "has_seq (iw_base w) q" "has_seq (iw_swa w) q" using q d(6) by (simp_all add: iswa_has_seq_def)
  have n: "kv_n_stream (iw_base w) = kv_n_stream (iw_swa w)" using w by (simp add: iswa_wf_def)
  obtain base swa where bs: "kv_seq_keep (int q) (iw_base w) = Some base" "kv_seq_keep (int q) (iw_swa w) = Some swa"
      "w' = w\<lparr>iw_base := base, iw_swa := swa\<rparr>"
    using k by (auto simp: iswa_seq_keep_def iswa_both_def bind_eq_Some_conv)
  then have b: "kv_shrinks (iw_base w) base" "kv_view base = (if kv_n_stream (iw_base w) = 1 then (\<lambda>_. {})(q := kv_view (iw_base w) q) else kv_view (iw_base w))"
    and s: "kv_shrinks (iw_swa w) swa" "kv_view swa = (if kv_n_stream (iw_swa w) = 1 then (\<lambda>_. {})(q := kv_view (iw_swa w) q) else kv_view (iw_swa w))"
    using kv_keep_shrinks[OF d(3) q'(1)] kv_keep_shrinks[OF d(4) q'(2)] by auto
  show ?thesis unfolding bs(3) by (rule iswa_wf_both[OF w b(1) s(1)]) (use d(5) n in \<open>auto simp: b(2) s(2)\<close>)
qed

text \<open>Operations whose views may grow: the configuration stays and the dense view stays above the window view.\<close>

lemma iswa_wf_step:
  assumes w: "iswa_wf w" and base: "kv_wf base" "kv_conf base = kv_conf (iw_base w)" and swa: "kv_wf swa" "kv_conf swa = kv_conf (iw_swa w)"
    and view: "\<forall>q. kv_view swa q \<subseteq> kv_view base q" "\<forall>q. INT32_MAX \<notin> kv_view base q"
  shows "iswa_wf (w\<lparr>iw_base := base, iw_swa := swa\<rparr>)"
proof -
  note d = iswa_wfD[OF w]
  have "swa_ok base" "swa_ok swa" using d(1,2) base(2) swa(2) by (auto simp: find_ok_def swa_ok_def kv_conf_def)
  moreover have "\<forall>q. INT32_MAX \<notin> kv_view swa q" using view by blast
  ultimately have "find_ok base" "find_ok swa" using find_ok_of_view base(1) swa(1) view(2) by auto
  then show ?thesis using w base(2) swa(2) view(1) by (simp add: iswa_wf_def kv_conf_def)
qed

lemma iswa_rm_any_wf:
  assumes w: "iswa_wf w" and r: "iswa_seq_rm (-1) p0 p1 w = Some (b, w')"
  shows "iswa_wf w'"
proof -
  note d = iswa_wfD[OF w]
  obtain base where b: "kv_seq_rm (-1) p0 p1 (iw_base w) = Some (True, base)" "kv_wf base"
      "kv_view base = (\<lambda>q. kv_view (iw_base w) q - {norm_p0 p0..<norm_p1 p1})" using kv_seq_rm_any_view[OF d(3)] by blast
  obtain swa where s: "kv_seq_rm (-1) p0 p1 (iw_swa w) = Some (True, swa)" "kv_wf swa"
      "kv_view swa = (\<lambda>q. kv_view (iw_swa w) q - {norm_p0 p0..<norm_p1 p1})" using kv_seq_rm_any_view[OF d(4)] by blast
  have "iswa_wf (w\<lparr>iw_base := base, iw_swa := swa\<rparr>)"
    by (rule iswa_wf_step[OF w b(2) kv_conf_rm[OF b(1)] s(2) kv_conf_rm[OF s(1)]])
      (use d(5) find_ok_room[OF d(1)] in \<open>auto simp: b(3) s(3)\<close>)
  then show ?thesis using r b(1) s(1) by (simp add: iswa_seq_rm_def)
qed

text \<open>A copy that returns has found no cell that both sequences share.\<close>

lemma kv_cp_Some_view:
  assumes wf: "kv_wf kv" "has_seq kv src" "has_seq kv dst" "src \<noteq> dst" and c: "cp_whole kv src p0 p1"
    and r: "kv_seq_cp (int src) (int dst) p0 p1 kv = Some kv'"
  shows "kv_wf kv'" "kv_view kv' = (kv_view kv)(dst := if kv_n_stream kv = 1
      then kv_view kv dst \<union> (kv_view kv src \<inter> {norm_p0 p0..<norm_p1 p1}) else kv_view kv src)"
proof -
  have "\<forall>x \<in> set (cells_abs (kv_v_cells kv ! 0)). in_range p0 p1 x \<longrightarrow> \<not> {src, dst} \<subseteq> a_seq x" if "kv_n_stream kv = 1"
  proof (rule ccontr)
    assume "\<not> ?thesis"
    then have "\<exists>x \<in> set (cells_abs (kv_v_cells kv ! 0)). in_range p0 p1 x \<and> {src, dst} \<subseteq> a_seq x" by blast
    from kv_seq_cp_shared_aborts[OF wf that this] show False using r by simp
  qed
  from kv_seq_cp_view[OF wf this] c r show "kv_wf kv'" "kv_view kv' = (kv_view kv)(dst := if kv_n_stream kv = 1
      then kv_view kv dst \<union> (kv_view kv src \<inter> {norm_p0 p0..<norm_p1 p1}) else kv_view kv src)"
    by (auto simp: cp_whole_def)
qed

lemma iswa_cp_wf:
  assumes w: "iswa_wf w" and q: "iswa_has_seq w src" "iswa_has_seq w dst" "src \<noteq> dst" and c: "cp_whole (iw_base w) src p0 p1" "cp_whole (iw_swa w) src p0 p1"
    and r: "iswa_seq_cp (int src) (int dst) p0 p1 w = Some w'"
  shows "iswa_wf w'"
proof -
  note d = iswa_wfD[OF w]
  have q': "has_seq (iw_base w) src" "has_seq (iw_base w) dst" "has_seq (iw_swa w) src" "has_seq (iw_swa w) dst"
    using q d(6) by (simp_all add: iswa_has_seq_def)
  obtain base swa where bs: "kv_seq_cp (int src) (int dst) p0 p1 (iw_base w) = Some base" "kv_seq_cp (int src) (int dst) p0 p1 (iw_swa w) = Some swa"
      "w' = w\<lparr>iw_base := base, iw_swa := swa\<rparr>"
    using r by (auto simp: iswa_seq_cp_def iswa_both_def bind_eq_Some_conv)
  note b = kv_cp_Some_view[OF d(3) q'(1,2) q(3) c(1) bs(1)] and s = kv_cp_Some_view[OF d(4) q'(3,4) q(3) c(2) bs(2)]
  have n: "kv_n_stream (iw_base w) = kv_n_stream (iw_swa w)" using w by (simp add: iswa_wf_def)
  show ?thesis unfolding bs(3)
    by (rule iswa_wf_step[OF w b(1) kv_conf_cp[OF bs(1)] s(1) kv_conf_cp[OF bs(2)]])
      (use d(5) find_ok_room[OF d(1)] n in \<open>auto simp: b(2) s(2)\<close>)
qed

lemma shift_range_mono: "P \<subseteq> Q \<Longrightarrow> shift_range p0 p1 d P \<subseteq> shift_range p0 p1 d Q"
  by (auto simp: shift_range_def)

lemma div_range_mono: "P \<subseteq> Q \<Longrightarrow> div_range p0 p1 d P \<subseteq> div_range p0 p1 d Q"
  by (auto simp: div_range_def)

lemma div_range_room:
  assumes "0 < d" "P \<subseteq> {0..INT32_MAX}" "INT32_MAX \<notin> P"
  shows "INT32_MAX \<notin> div_range p0 p1 d P"
proof -
  have "trunc_div p d < INT32_MAX" if "p \<in> P" for p
  proof -
    have p: "0 \<le> p" "p < INT32_MAX" using assms(2,3) that by (auto simp: order.strict_iff_order)
    then have "trunc_div p d = p div d" using assms(1) by (cases "p = 0") (simp_all add: trunc_div_def)
    also have "\<dots> \<le> p" using p(1) assms(1) zdiv_mono2[of p 1 d] by simp
    finally show ?thesis using p(2) by simp
  qed
  then show ?thesis using assms(3) by (force simp: div_range_def)
qed

lemma kv_add_alone:
  assumes wf: "kv_wf kv" "has_seq kv q" and a: "add_fits kv q p0 p1 d" and r: "kv_seq_add (int q) p0 p1 d kv = Some kv'"
  shows "kv_wf kv'" "kv_view kv' = (kv_view kv)(q := shift_range p0 p1 d (kv_view kv q))"
proof -
  have alone: "\<forall>x \<in> set (cells_abs (kv_v_cells kv ! stream_of kv q)). in_range p0 p1 x \<longrightarrow> \<not> {q, t} \<subseteq> a_seq x" if "t \<noteq> q" for t
    using a that by (auto simp: add_fits_def moves_alone_def)
  have k: "kv_wf kv'" "kv_view kv' q = shift_range p0 p1 d (kv_view kv q)"
    "\<forall>t. t \<noteq> q \<and> (\<forall>x \<in> set (cells_abs (kv_v_cells kv ! stream_of kv q)). in_range p0 p1 x \<longrightarrow> \<not> {q, t} \<subseteq> a_seq x) \<longrightarrow> kv_view kv' t = kv_view kv t"
    using kv_seq_add_view[OF wf, of p0 p1 d] a r by (auto simp: add_fits_def)
  show "kv_wf kv'" by (rule k(1))
  show "kv_view kv' = (kv_view kv)(q := shift_range p0 p1 d (kv_view kv q))"
    using k(2,3) alone by (simp add: fun_eq_iff)
qed

lemma iswa_add_wf:
  assumes w: "iswa_wf w" and q: "iswa_has_seq w q" and a: "add_fits (iw_base w) q p0 p1 d" "add_fits (iw_swa w) q p0 p1 d"
    and r: "iswa_seq_add (int q) p0 p1 d w = Some w'"
  shows "iswa_wf w'"
proof -
  note d = iswa_wfD[OF w]
  have q': "has_seq (iw_base w) q" "has_seq (iw_swa w) q" using q d(6) by (simp_all add: iswa_has_seq_def)
  obtain base swa where bs: "kv_seq_add (int q) p0 p1 d (iw_base w) = Some base" "kv_seq_add (int q) p0 p1 d (iw_swa w) = Some swa"
      "w' = w\<lparr>iw_base := base, iw_swa := swa\<rparr>"
    using r by (auto simp: iswa_seq_add_def iswa_both_def bind_eq_Some_conv)
  note b = kv_add_alone[OF d(3) q'(1) a(1) bs(1)] and s = kv_add_alone[OF d(4) q'(2) a(2) bs(2)]
  have "INT32_MAX \<notin> shift_range p0 p1 d (kv_view (iw_base w) q)" using a(1) by (simp add: add_fits_def)
  then show ?thesis unfolding bs(3)
    by (intro iswa_wf_step[OF w b(1) kv_conf_add[OF bs(1)] s(1) kv_conf_add[OF bs(2)]])
      (use d(5) find_ok_room[OF d(1)] shift_range_mono[OF d(5)] in \<open>auto simp: b(2) s(2)\<close>)
qed

lemma kv_div_alone:
  assumes "kv_wf kv" "has_seq kv q" "div_fits kv q p0 p1 d" "kv_seq_div (int q) p0 p1 d kv = Some kv'"
  shows "kv_wf kv'" "kv_view kv' = (kv_view kv)(q := div_range p0 p1 d (kv_view kv q))"
  using kv_seq_div_view[OF assms(1,2), of p0 p1 d] assms(3,4) by (auto simp: div_fits_def moves_alone_def)

lemma iswa_div_wf:
  assumes w: "iswa_wf w" and q: "iswa_has_seq w q" and a: "div_fits (iw_base w) q p0 p1 d" "div_fits (iw_swa w) q p0 p1 d"
    and r: "iswa_seq_div (int q) p0 p1 d w = Some w'"
  shows "iswa_wf w'"
proof -
  note d = iswa_wfD[OF w]
  have q': "has_seq (iw_base w) q" "has_seq (iw_swa w) q" using q d(6) by (simp_all add: iswa_has_seq_def)
  obtain base swa where bs: "kv_seq_div (int q) p0 p1 d (iw_base w) = Some base" "kv_seq_div (int q) p0 p1 d (iw_swa w) = Some swa"
      "w' = w\<lparr>iw_base := base, iw_swa := swa\<rparr>"
    using r by (auto simp: iswa_seq_div_def iswa_both_def bind_eq_Some_conv)
  note b = kv_div_alone[OF d(3) q'(1) a(1) bs(1)] and s = kv_div_alone[OF d(4) q'(2) a(2) bs(2)]
  have "INT32_MAX \<notin> div_range p0 p1 d (kv_view (iw_base w) q)"
    using div_range_room a(1) kv_mem.view_range[OF d(3), of q] find_ok_room[OF d(1)] by (simp add: div_fits_def)
  then show ?thesis unfolding bs(3)
    by (intro iswa_wf_step[OF w b(1) kv_conf_div[OF bs(1)] s(1) kv_conf_div[OF bs(2)]])
      (use d(5) find_ok_room[OF d(1)] div_range_mono[OF d(5)] in \<open>auto simp: b(2) s(2)\<close>)
qed

lemma kx_apply_batch:
  assumes "vec_at (kx_ubatches x) (kx_i_cur x) = Some ub" "vec_at (kx_sinfos x) (kx_i_cur x) = Some si" "kx_apply r ok x kv = Some (x', kv')"
  shows "kv_apply_ubatch si ub kv = Some kv'"
  using assms by (auto simp: kx_apply_def bind_eq_Some_conv vec_at_def split: if_splits)

lemma iswa_apply_wf:
  assumes w: "iswa_wf w" and x: "ic_slots_ok x w ub" and ap: "ic_apply r ok x w = Some (x', w')"
  shows "iswa_wf w' \<and> kv_view (iw_base w') q = kv_view (iw_base w) q \<union> ub_positions ub q \<and>
    kv_view (iw_swa w') q \<subseteq> kv_view (iw_swa w) q \<union> ub_positions ub q"
proof -
  note d = iswa_wfD[OF w]
  obtain n xb xs sb ss where s: "ic_base x = Some xb" "ic_swa x = Some xs"
      "vec_at (kx_ubatches xb) (kx_i_cur xb) = Some ub" "vec_at (kx_ubatches xs) (kx_i_cur xs) = Some ub"
      "vec_at (kx_sinfos xb) (kx_i_cur xb) = Some sb" "vec_at (kx_sinfos xs) (kx_i_cur xs) = Some ss"
      "ub_ok (iw_base w) ub n" "ub_ok (iw_swa w) ub n" "slot_valid (iw_base w) ub n sb" "slot_valid (iw_swa w) ub n ss"
    using x unfolding ic_slots_ok_def by blast
  obtain xb' xs' base swa where a: "kx_apply r ok xb (iw_base w) = Some (xb', base)" "kx_apply r ok xs (iw_swa w) = Some (xs', swa)"
      "w' = w\<lparr>iw_base := base, iw_swa := swa\<rparr>"
    using ap s(1,2) by (auto simp: ic_apply_def bind_eq_Some_conv)
  have ab: "kv_apply_ubatch sb ub (iw_base w) = Some base" by (rule kx_apply_batch[OF s(3,5) a(1)])
  have as: "kv_apply_ubatch ss ub (iw_swa w) = Some swa" by (rule kx_apply_batch[OF s(4,6) a(2)])
  have ty: "kv_swa_type (iw_base w) = SWA_NONE" using w by (simp add: iswa_wf_def)
  have b: "find_ok base" "kv_same (iw_base w) base"
      "\<forall>q. kv_view base q = {p \<in> kv_view (iw_base w) q \<union> ub_positions ub q. overwritten (iw_base w) sb (ub_n_parts (iw_base w) ub) q < p}"
    using apply_ubatch_spec[OF d(1) s(7,9)] ab by auto
  have sw: "find_ok swa" "kv_same (iw_swa w) swa"
      "\<forall>q. kv_view swa q = {p \<in> kv_view (iw_swa w) q \<union> ub_positions ub q. overwritten (iw_swa w) ss (ub_n_parts (iw_swa w) ub) q < p}"
    using apply_ubatch_spec[OF d(2) s(8,10)] as by auto
  have "-1 < p" if "p \<in> kv_view (iw_base w) q \<union> ub_positions ub q" for p q
    using that kv_mem.view_range[OF d(3), of q] s(7) by (auto simp: ub_positions_def ub_ok_def ub_tok_ok_def)
  then have vb: "kv_view base q = kv_view (iw_base w) q \<union> ub_positions ub q" for q
    using b(3) dense_overwritten[OF d(1) ty s(7,9)] by auto
  have vs: "kv_view swa q \<subseteq> kv_view (iw_swa w) q \<union> ub_positions ub q" for q using sw(3) by auto
  have "kv_view swa q \<subseteq> kv_view base q" for q using vs[of q] vb[of q] d(5)[of q] by auto
  then show ?thesis using b(1,2) sw(1,2) w vb vs by (auto simp: a(3) iswa_wf_def kv_same_def)
qed

lemma iswa_reach_wf: "iswa_reach w \<Longrightarrow> iswa_wf w"
proof (induction rule: iswa_reach.induct)
  case new
  then show ?case by (rule iswa_new_wf)
next
  case (clear w)
  show ?case by (rule iswa_clear_wf[OF clear.IH])
next
  case (rm w q p0 p1 b w')
  then show ?case using iswa_rm_view[OF rm.IH rm.hyps(2), of p0 p1] by auto
next
  case (keep w q w')
  show ?case by (rule iswa_keep_wf[OF keep.IH keep.hyps(2,3)])
next
  case (rm_any w p0 p1 b w')
  show ?case by (rule iswa_rm_any_wf[OF rm_any.IH rm_any.hyps(2)])
next
  case (cp w src dst p0 p1 w')
  show ?case by (rule iswa_cp_wf[OF cp.IH cp.hyps(2-7)])
next
  case (add w q p0 p1 d w')
  show ?case by (rule iswa_add_wf[OF add.IH add.hyps(2-5)])
next
  case (div w q p0 p1 d w')
  show ?case by (rule iswa_div_wf[OF div.IH div.hyps(2-5)])
next
  case (place w x ub has_rope compute_ok x' w')
  then show ?case using iswa_apply_wf by blast
qed

subsection \<open>The size of the sliding-window cache\<close>

lemma unat_and_not_mask: "unat (x AND NOT (mask k)) = unat x div 2 ^ k * 2 ^ k" for x :: "32 word"
proof -
  have eq: "x AND NOT (mask k) = push_bit k (drop_bit k x)"
    by (rule bit_word_eqI) (auto simp: bit_simps)
  have x: "unat x < 2 ^ 32" using unsigned_less[of x] by simp
  then have le: "unat x div 2 ^ k * 2 ^ k < 2 ^ 32" by (rule le_less_trans[OF div_times_less_eq_dividend])
  show ?thesis
  proof (cases "k < 32")
    case True
    have "(2 :: nat) ^ k < 2 ^ 32" using True by (intro power_strict_increasing) simp_all
    then have "unat (of_nat (2 ^ k) :: 32 word) = 2 ^ k" by (simp only: unat_of_nat) simp
    then have "unat ((2::32 word) ^ k) = 2 ^ k" by simp
    then show ?thesis using le by (simp add: eq push_bit_eq_mult unat_word_ariths unat_drop_bit_eq drop_bit_eq_div mod_mult_left_eq)
  next
    case False
    then have "unat x < 2 ^ k" using x power_increasing[of 32 k "2::nat"] by simp
    then show ?thesis using False by (simp add: eq push_bit_eq_mult word_exp_length_eq_0 unat_word_ariths)
  qed
qed

lemma ggml_pad_nat:
  assumes "n = 2 ^ k" "x + n - 1 < 2 ^ 32" "k < 32"
  shows "unat (ggml_pad (of_nat x) (of_nat n)) = (x + n - 1) div n * n"
proof -
  have n: "0 < n" using assms by simp
  have "(of_nat n :: 32 word) - 1 = mask k" using assms(1) by (simp add: mask_eq_exp_minus_1)
  moreover have "(of_nat x :: 32 word) + of_nat n - 1 = of_nat (x + n - 1)" using n by (simp add: of_nat_diff)
  moreover have "unat (of_nat (x + n - 1) :: 32 word) = x + n - 1" using assms(2) by (simp add: unat_of_nat take_bit_nat_eq_self)
  ultimately show ?thesis using assms(1) by (simp add: ggml_pad_def unat_and_not_mask)
qed

lemma iswa_size_dvd:
  assumes n: "n_pad = 2 ^ k" "k < 32" "n_pad dvd kv_size" and fit: "n_swa * (if unified then n_seq_max else 1) + n_ubatch + n_pad \<le> 2 ^ 32"
  shows "iswa_size n_swa swa_full unified kv_size n_seq_max n_ubatch n_pad = (if swa_full then kv_size else
      min kv_size ((n_swa * (if unified then n_seq_max else 1) + n_ubatch + n_pad - 1) div n_pad * n_pad))"
    "n_pad dvd iswa_size n_swa swa_full unified kv_size n_seq_max n_ubatch n_pad"
proof -
  let ?x = "n_swa * (if unified then n_seq_max else 1) + n_ubatch"
  have "0 < n_pad" using n(1) by simp
  then have "?x + n_pad - 1 < 2 ^ 32" using fit by linarith
  then have "unat (ggml_pad (of_nat ?x) (of_nat n_pad)) = (?x + n_pad - 1) div n_pad * n_pad" by (rule ggml_pad_nat[OF n(1) _ n(2)])
  then show sz: "iswa_size n_swa swa_full unified kv_size n_seq_max n_ubatch n_pad = (if swa_full then kv_size else
      min kv_size ((?x + n_pad - 1) div n_pad * n_pad))" by (simp add: iswa_size_def)
  show "n_pad dvd iswa_size n_swa swa_full unified kv_size n_seq_max n_ubatch n_pad"
    unfolding sz using n(3) by (simp add: min_def)
qed

subsection \<open>Properties\<close>

text \<open>The pair of caches after its first token: the micro-batch goes to cell 0 of both.\<close>

definition first_slot :: slot_info where
  "first_slot = \<lparr>si_s0 = 0, si_s1 = 0, si_strm = [0], si_idxs = [[0]]\<rparr>"

lemma fresh_first_slot:
  assumes new: "kv_new v_trans True n 1 n_pad n_swa ty = Some kv" and n: "0 < n"
  shows "ub_ok kv (one_token_ubatch 0 0) 1" "slot_valid kv (one_token_ubatch 0 0) 1 first_slot"
proof -
  have k: "kv_n_stream kv = 1" "kv_capacity kv = n" using kv_new_ok(3,4)[OF _ _ new] by simp_all
  have c: "kv_v_cells kv = [cells_of False (replicate n no_cell)]"
    using new by (auto simp: kv_new_def bind_eq_Some_conv cells_resize_eq)
  have sh: "ub_shape kv (one_token_ubatch 0 0) 1" "ub_n_parts kv (one_token_ubatch 0 0) = 1" "ub_stream kv (one_token_ubatch 0 0) 0 = 0"
    by (simp_all add: ub_shape_def ub_n_parts_def k one_token_ubatch_def ub_stream_def has_seq_def stream_of_def)
  have tok: "ub_n_tokens (one_token_ubatch 0 0) = 1" "ub_tok_ok (one_token_ubatch 0 0) 0"
    by (simp_all add: one_token_ubatch_def ub_tok_ok_def ub_row_def)
  show "ub_ok kv (one_token_ubatch 0 0) 1" unfolding ub_ok_def using sh tok by (simp add: k)
  show "slot_valid kv (one_token_ubatch 0 0) 1 first_slot"
    using n by (simp add: slot_valid_def first_slot_def sh k usable_at_def usable_def c)
qed

lemma one_token_placed: "\<exists>w. iswa_reach w \<and> kv_view (iw_base w) 0 = {0}"
proof -
  let ?ub = "one_token_ubatch 0 0" and ?kx = "kx_batch [first_slot] [one_token_ubatch 0 0]"
  obtain w where w: "iswa_new example_hparams False True True 4 1 1 1 = Some w"
    by (simp add: iswa_new_def iswa_size_def kv_new_def)
  note nw = iswa_new_wf[OF w]
  have r: "iswa_reach w" by (rule iswa_reach.new[OF w]) (simp_all add: example_hparams_def)
  have wf: "iswa_wf w" "kv_view (iw_base w) = (\<lambda>_. {})" using nw by (simp_all add: example_hparams_def)
  have new: "kv_new False True 4 1 1 0 SWA_NONE = Some (iw_base w)" "kv_new False True 4 1 1 (hp_n_swa example_hparams) (hp_swa_type example_hparams) = Some (iw_swa w)"
    using w by (auto simp: iswa_new_def iswa_size_def bind_eq_Some_conv)
  have cur: "vec_at (kx_ubatches ?kx) (kx_i_cur ?kx) = Some ?ub" "vec_at (kx_sinfos ?kx) (kx_i_cur ?kx) = Some first_slot"
    by (simp_all add: kx_batch_def kx_fail_def vec_at_def)
  have ok: "ic_slots_ok (ic_pair [?ub] ?kx ?kx) w ?ub"
    using fresh_first_slot[OF new(1)] fresh_first_slot[OF new(2)] cur unfolding ic_slots_ok_def ic_pair_def by auto
  obtain base swa where ap: "kv_apply_ubatch first_slot ?ub (iw_base w) = Some base" "kv_apply_ubatch first_slot ?ub (iw_swa w) = Some swa"
    using apply_ubatch_spec[OF iswa_wfD(1)[OF wf(1)] fresh_first_slot[OF new(1)]]
      apply_ubatch_spec[OF iswa_wfD(2)[OF wf(1)] fresh_first_slot[OF new(2)]] by auto
  have n: "kv_n_stream base = 1" "kv_n_stream swa = 1" "kv_wf base" "kv_wf swa"
    using apply_ubatch_spec[OF iswa_wfD(1)[OF wf(1)] fresh_first_slot[OF new(1)]]
      apply_ubatch_spec[OF iswa_wfD(2)[OF wf(1)] fresh_first_slot[OF new(2)]] ap kv_new_ok(3)[OF _ _ new(1)] kv_new_ok(3)[OF _ _ new(2)]
    by (auto simp: kv_same_def find_ok_def)
  then have "length (kv_v_cells base) = 1" "length (kv_v_cells swa) = 1" by (simp_all add: kv_wf_def)
  then obtain k k' where k: "kv_get_n_kv first_slot base = Some k" "kv_get_n_kv first_slot swa = Some k'"
    by (auto simp: kv_get_n_kv_def first_slot_def si_n_stream_def)
  have "\<exists>x' w'. ic_apply False True (ic_pair [?ub] ?kx ?kx) w = Some (x', w')"
    using ap k by (simp add: ic_apply_def ic_pair_def kx_apply_def kx_batch_def kx_fail_def vec_at_def
        llama_memory_status_combine_def llama_memory_status_is_fail_def Let_def)
  then obtain x' w' where a: "ic_apply False True (ic_pair [?ub] ?kx ?kx) w = Some (x', w')" by blast
  have "ub_positions ?ub 0 = {0}"
    by (auto simp: ub_positions_def one_token_ubatch_def ub_cell_def ub_row_def)
  then have "kv_view (iw_base w') 0 = {0}" using iswa_apply_wf[OF wf(1) ok a, of 0] wf(2) by simp
  then show ?thesis using iswa_reach.place[OF r ok a] by blast
qed

text \<open>
  C22. The comment in \<^verbatim>\<open>seq_pos_min\<close> is right for the following histories. Start from any pair the constructor
  returns (at most 256 sequences; a chunked window that is not empty), and let the steps be: \<^verbatim>\<open>clear\<close>; \<^verbatim>\<open>seq_rm\<close> of one
  sequence the caches know or of all of them (a negative id), any range; \<^verbatim>\<open>seq_keep\<close>; \<^verbatim>\<open>seq_cp\<close> between two different sequences,
  of any range with one stream and of the whole sequence with several; \<^verbatim>\<open>seq_add\<close> and \<^verbatim>\<open>seq_div\<close> where the cells that move
  belong to the sequence alone and stay inside \<^verbatim>\<open>int32_t\<close>; and \<^verbatim>\<open>apply\<close> of a micro-batch in slots that are
  valid in both caches, as a successful search finds them. Then each sequence has in the dense cache every position
  it has in the sliding-window cache, both caches are well formed, and \<^verbatim>\<open>seq_pos_min\<close> and \<^verbatim>\<open>seq_pos_max\<close> answer with
  positions that are in both. Not among the steps: \<^verbatim>\<open>state_read\<close> (a partial one restores only the window cache)
  and the dry run in \<^verbatim>\<open>prepare\<close>, whose purge of the window cache is not undone.
\<close>

theorem iswa_superset:
  assumes "iswa_reach w"
  shows "kv_wf (iw_base w) \<and> kv_wf (iw_swa w) \<and> (\<forall>q. kv_view (iw_swa w) q \<subseteq> kv_view (iw_base w) q) \<and>
    (\<forall>q. iswa_has_seq w q \<longrightarrow> (\<exists>lo hi. iswa_seq_pos_min (int q) w = Some lo \<and> iswa_seq_pos_max (int q) w = Some hi \<and>
       (if kv_view (iw_swa w) q = {} then lo = -1 \<and> hi = -1
        else {lo, hi} \<subseteq> kv_view (iw_swa w) q \<inter> kv_view (iw_base w) q \<and> (\<forall>p \<in> kv_view (iw_swa w) q. lo \<le> p \<and> p \<le> hi))))"
proof -
  have wf: "iswa_wf w" by (rule iswa_reach_wf[OF assms])
  note d = iswa_wfD[OF wf]
  have "\<exists>lo hi. iswa_seq_pos_min (int q) w = Some lo \<and> iswa_seq_pos_max (int q) w = Some hi \<and>
       (if kv_view (iw_swa w) q = {} then lo = -1 \<and> hi = -1
        else {lo, hi} \<subseteq> kv_view (iw_swa w) q \<inter> kv_view (iw_base w) q \<and> (\<forall>p \<in> kv_view (iw_swa w) q. lo \<le> p \<and> p \<le> hi))"
    if q: "iswa_has_seq w q" for q
  proof (cases "iswa_view w q = {}")
    case True
    then show ?thesis using iswa_mem.pos_min[OF wf q] iswa_mem.pos_max[OF wf q] by (simp add: iswa_view_def)
  next
    case False
    have f: "finite (iswa_view w q)" using iswa_mem.view_range[OF wf] by blast
    have "Min (iswa_view w q) \<in> iswa_view w q" "Max (iswa_view w q) \<in> iswa_view w q" using f False by simp_all
    moreover have "\<forall>p \<in> iswa_view w q. Min (iswa_view w q) \<le> p \<and> p \<le> Max (iswa_view w q)" using f by simp
    ultimately show ?thesis using iswa_mem.pos_min[OF wf q] iswa_mem.pos_max[OF wf q] False d(5)[of q] by (auto simp: iswa_view_def)
  qed
  then show ?thesis using d by blast
qed

theorem iswa_superset_witness:
  "\<exists>w. iswa_reach w \<and> kv_view (iw_base w) 0 = {0} \<and> kv_view (iw_swa w) 0 \<subseteq> {0} \<and>
     (\<forall>q. kv_view (iw_swa w) q \<subseteq> kv_view (iw_base w) q)"
proof -
  obtain w where w: "iswa_reach w" "kv_view (iw_base w) 0 = {0}" using one_token_placed by blast
  then show ?thesis using iswa_superset[OF w(1)] by metis
qed



text \<open>
  C24. Cutting the tail of a sequence cuts it in both caches and keeps the dense cache a superset. But when the
  cut removes all that is left in the window, \<^verbatim>\<open>seq_pos_max\<close> reports an empty sequence although the dense cache
  still has the prefix.
\<close>

theorem iswa_truncate:
  assumes "iswa_wf w" "iswa_has_seq w q" "0 \<le> p"
  shows "\<exists>w'. iswa_seq_rm (int q) p (-1) w = Some (True, w') \<and> iswa_wf w' \<and>
    kv_view (iw_base w') q = {x \<in> kv_view (iw_base w) q. x < p} \<and> kv_view (iw_swa w') q = {x \<in> kv_view (iw_swa w) q. x < p} \<and>
    (\<forall>r. r \<noteq> q \<longrightarrow> kv_view (iw_base w') r = kv_view (iw_base w) r \<and> kv_view (iw_swa w') r = kv_view (iw_swa w) r) \<and>
    ((\<forall>x \<in> kv_view (iw_swa w) q. p \<le> x) \<longrightarrow> iswa_seq_pos_max (int q) w' = Some (-1))"
proof -
  note d = iswa_wfD[OF assms(1)]
  obtain w' where w': "iswa_seq_rm (int q) p (-1) w = Some (True, w')" "iswa_wf w'" "iswa_has_seq w' = iswa_has_seq w"
      "kv_view (iw_base w') = (kv_view (iw_base w))(q := kv_view (iw_base w) q - {norm_p0 p..<norm_p1 (-1)})"
      "iswa_view w' = (iswa_view w)(q := iswa_view w q - {norm_p0 p..<norm_p1 (-1)})"
    using iswa_rm_view[OF assms(1,2), of p "-1"] by blast
  have cut: "P - {norm_p0 p..<norm_p1 (-1)} = {x \<in> P. x < p}" if "P \<subseteq> {0..INT32_MAX}" "INT32_MAX \<notin> P" for P
    using that assms(3) by (force simp: norm_p0_def norm_p1_def)
  have base: "kv_view (iw_base w') q = {x \<in> kv_view (iw_base w) q. x < p}"
    using cut[of "kv_view (iw_base w) q"] kv_mem.view_range[OF d(3)] find_ok_room[OF d(1)] by (simp add: w'(4))
  have swa: "kv_view (iw_swa w') q = {x \<in> kv_view (iw_swa w) q. x < p}"
    using cut[of "kv_view (iw_swa w) q"] kv_mem.view_range[OF d(4)] find_ok_room[OF d(2)] w'(5) by (simp add: iswa_view_def)
  have "\<forall>r. r \<noteq> q \<longrightarrow> kv_view (iw_base w') r = kv_view (iw_base w) r \<and> kv_view (iw_swa w') r = kv_view (iw_swa w) r"
    using w'(4,5) by (simp add: iswa_view_def)
  moreover have "(\<forall>x \<in> kv_view (iw_swa w) q. p \<le> x) \<longrightarrow> iswa_seq_pos_max (int q) w' = Some (-1)"
    using iswa_mem.pos_max[OF w'(2), of q] assms(2) w'(3) swa by (auto simp: iswa_view_def)
  ultimately show ?thesis using w'(1,2) base swa by blast
qed

definition dense_cache :: kv_cache where
  "dense_cache = window_cache\<lparr>kv_n_swa := 0, kv_swa_type := SWA_NONE, kv_v_heads := [3],
     kv_v_cells := [cells_of False [ACell 3 {0} 0, ACell 4 {0} 0, ACell 5 {0} 0]]\<rparr>"

lemma dense_cache_facts: "find_ok dense_cache" "kv_view dense_cache q = (if q = 0 then {3, 4, 5} else {})"
proof -
  let ?xs = "[ACell 3 {0} 0, ACell 4 {0} 0, ACell 5 {0} 0]"
  have f: "kv_n_stream dense_cache = 1" "kv_v_cells dense_cache = [cells_of False ?xs]" "kv_capacity dense_cache = 3" "kv_v_heads dense_cache = [3]"
    "kv_seq_to_stream dense_cache = replicate LLAMA_MAX_SEQ 0" "has_seq dense_cache q \<longleftrightarrow> q < 256" "stream_of dense_cache q = 0" for q
    by (simp_all add: dense_cache_def window_cache_def kv_capacity_def has_seq_def stream_of_def)
  have "stream_wf dense_cache 0" unfolding stream_wf_def
    by (intro exI[of _ False] exI[of _ ?xs]) (simp add: f acell_full_def acell_ok_def i32_ok_def)
  then have "kv_wf dense_cache" by (simp add: kv_wf_def f)
  then show "find_ok dense_cache" by (simp add: find_ok_def f pos_room_def swa_ok_def) (simp add: dense_cache_def window_cache_def)
  show "kv_view dense_cache q = (if q = 0 then {3, 4, 5} else {})" by (auto simp: kv_view_def f seq_positions_alt)
qed

theorem iswa_truncate_witness:
  "\<exists>w'. iswa_seq_rm 0 4 (-1) \<lparr>iw_unified = True, iw_base = dense_cache, iw_swa = window_cache\<rparr> = Some (True, w') \<and>
     kv_view (iw_base w') 0 = {3} \<and> iswa_seq_pos_max 0 w' = Some (-1)"
proof -
  let ?w = "\<lparr>iw_unified = True, iw_base = dense_cache, iw_swa = window_cache\<rparr>"
  have "kv_n_stream dense_cache = kv_n_stream window_cache" "kv_swa_type dense_cache = SWA_NONE" by (simp_all add: dense_cache_def)
  then have "iswa_wf ?w" using dense_cache_facts window_cache_facts by (simp add: iswa_wf_def)
  moreover have "iswa_has_seq ?w 0" by (simp add: iswa_has_seq_def has_seq_def window_cache_def)
  moreover have "{x \<in> {3, 4, 5 :: int}. x < 4} = {3}" by auto
  ultimately show ?thesis using iswa_truncate[of ?w 0 4] by (auto simp: dense_cache_facts window_cache_facts)
qed

end
