(* ===== verification/Recurrent.thy ===== *)
theory Recurrent
  imports KV_Inputs
begin

text \<open>
  \<^verbatim>\<open>llama_memory_recurrent\<close> of \<^verbatim>\<open>llama-memory-recurrent.cpp\<close>: one cell per sequence state. Cell \<open>s\<close> of the vector also
  holds, in \<^verbatim>\<open>tail\<close>, the number of the cell with the state of sequence \<open>s\<close>. Tensors and buffers are left out, as is the
  debug-only block of \<^verbatim>\<open>find_slot\<close> that only logs. \<open>None\<close> is a failed assertion, an access out of range or a signed
  overflow; the unsigned counters wrap.
\<close>

subsection \<open>State\<close>

record mem_cell =
  mc_pos :: int
  mc_src :: int
  mc_src0 :: int
  mc_tail :: int
  mc_seq_id :: "int set"

record rs_mem =
  rs_head :: nat
  rs_size :: nat
  rs_used :: nat
  rs_n :: nat
  rs_z :: int
  rs_cells :: "mem_cell list"

definition mc_new :: mem_cell where
  "mc_new = \<lparr>mc_pos = -1, mc_src = -1, mc_src0 = -1, mc_tail = -1, mc_seq_id = {}\<rparr>"

definition mc_is_empty :: "mem_cell \<Rightarrow> bool" where
  "mc_is_empty c \<longleftrightarrow> mc_seq_id c = {}"

definition u32_dec :: "nat \<Rightarrow> nat" where
  "u32_dec n = (if n = 0 then 2 ^ 32 - 1 else n - 1)"

definition rs_new :: "nat \<Rightarrow> rs_mem" where
  "rs_new mem_size = \<lparr>rs_head = 0, rs_size = mem_size, rs_used = 0, rs_n = 0, rs_z = -1, rs_cells = replicate mem_size mc_new\<rparr>"

definition rs_clear :: "rs_mem \<Rightarrow> rs_mem" where
  "rs_clear m = m\<lparr>rs_cells := map (\<lambda>c. c\<lparr>mc_pos := -1, mc_seq_id := {}, mc_src := -1, mc_tail := -1\<rparr>) (rs_cells m),
     rs_head := 0, rs_used := 0\<rparr>"

subsection \<open>Sequence operations\<close>

text \<open>The loop of \<^verbatim>\<open>seq_rm\<close>: cells, \<open>used\<close> and \<open>new_head\<close>.\<close>

definition rs_rm_body :: "nat \<Rightarrow> int \<Rightarrow> int \<Rightarrow> int \<Rightarrow> nat \<Rightarrow> mem_cell list \<times> nat \<times> nat \<Rightarrow> (mem_cell list \<times> nat \<times> nat) option" where
  "rs_rm_body n seq_id p0 p1 i = (\<lambda>(cells, used, new_head). do {
     c \<leftarrow> vec_at cells i;
     if \<not> (mc_pos c \<ge> p0 \<and> mc_pos c < p1) \<or> (0 \<le> seq_id \<and> seq_id \<notin> mc_seq_id c) then Some (cells, used, new_head)
     else (let c = c\<lparr>mc_seq_id := if seq_id < 0 then {} else mc_seq_id c - {seq_id}\<rparr> in
       if mc_is_empty c then Some (cells[i := c\<lparr>mc_pos := -1, mc_src := -1\<rparr>], if mc_pos c \<ge> 0 then u32_dec used else used,
         if new_head = n then i else new_head)
       else Some (cells[i := c], used, new_head)) })"

text \<open>The part before the loop: \<open>None\<close> inside is \<^verbatim>\<open>return false\<close>, otherwise the cells with the tail invalidated.\<close>

definition rs_rm_tail :: "int \<Rightarrow> int \<Rightarrow> int \<Rightarrow> mem_cell list \<Rightarrow> mem_cell list option option" where
  "rs_rm_tail seq_id p0 p1 cells = (if 0 \<le> seq_id then do {
       c \<leftarrow> vec_at cells (nat seq_id);
       if mc_tail c \<ge> 0 then do {
         cell \<leftarrow> vec_at cells (nat (mc_tail c));
         if (0 < p0 \<and> p0 < mc_pos cell) \<or> (0 < p1 \<and> p1 \<le> mc_pos cell) then Some None
         else if p0 \<le> mc_pos cell \<and> mc_pos cell < p1 then Some (Some (cells[nat seq_id := c\<lparr>mc_tail := -1\<rparr>]))
         else Some (Some cells) }
       else Some (Some cells) }
     else if p0 \<noteq> p1 \<and> (p0 \<noteq> 0 \<or> p1 \<noteq> INT32_MAX) then Some None
     else Some (Some cells))"

definition new_head_min :: "nat \<Rightarrow> nat \<Rightarrow> nat \<Rightarrow> nat" where
  "new_head_min n new_head h = (if new_head \<noteq> n \<and> new_head < h then new_head else h)"

definition rs_seq_rm :: "int \<Rightarrow> int \<Rightarrow> int \<Rightarrow> rs_mem \<Rightarrow> (bool \<times> rs_mem) option" where
  "rs_seq_rm seq_id p0 p1 m = do {
     p0 \<leftarrow> Some (norm_p0 p0);
     p1 \<leftarrow> Some (norm_p1 p1);
     if seq_id \<ge> int (rs_size m) then Some (False, m) else do {
     r \<leftarrow> rs_rm_tail seq_id p0 p1 (rs_cells m);
     (case r of
        None \<Rightarrow> Some (False, m)
      | Some cells \<Rightarrow> do {
          (cells, used, new_head) \<leftarrow> for_each (rs_rm_body (rs_size m) seq_id p0 p1) [0..<rs_size m] (cells, rs_used m, rs_size m);
          Some (True, m\<lparr>rs_cells := cells, rs_used := used, rs_head := new_head_min (rs_size m) new_head (rs_head m)\<rparr>) }) } }"

text \<open>Taking a sequence out of the cell of its tail, as \<^verbatim>\<open>seq_cp\<close> and \<^verbatim>\<open>find_slot\<close> do.\<close>

definition rs_drop_tail :: "int \<Rightarrow> rs_mem \<Rightarrow> rs_mem option" where
  "rs_drop_tail seq_id m = do {
     seq \<leftarrow> vec_at (rs_cells m) (nat seq_id);
     if mc_tail seq < 0 then Some m else do {
     t \<leftarrow> Some (nat (mc_tail seq));
     cell \<leftarrow> vec_at (rs_cells m) t;
     cells \<leftarrow> Some ((rs_cells m)[t := cell\<lparr>mc_seq_id := mc_seq_id cell - {seq_id}\<rparr>]);
     seq \<leftarrow> vec_at cells (nat seq_id);
     cells \<leftarrow> Some (cells[nat seq_id := seq\<lparr>mc_tail := -1\<rparr>]);
     cell \<leftarrow> vec_at cells t;
     Some (if mc_is_empty cell then m\<lparr>rs_cells := cells[t := cell\<lparr>mc_pos := -1, mc_src := -1\<rparr>], rs_used := u32_dec (rs_used m)\<rparr>
           else m\<lparr>rs_cells := cells\<rparr>) } }"

definition rs_seq_cp :: "int \<Rightarrow> int \<Rightarrow> int \<Rightarrow> int \<Rightarrow> rs_mem \<Rightarrow> rs_mem option" where
  "rs_seq_cp seq_id_src seq_id_dst p0 p1 m =
     (if seq_id_src = seq_id_dst then Some m
      else if to_u32 seq_id_dst < int (rs_size m) \<and> to_u32 seq_id_src < int (rs_size m) then do {
        m \<leftarrow> rs_drop_tail seq_id_dst m;
        src \<leftarrow> vec_at (rs_cells m) (nat seq_id_src);
        if mc_tail src < 0 then Some m else do {
        t \<leftarrow> Some (nat (mc_tail src));
        cell \<leftarrow> vec_at (rs_cells m) t;
        cells \<leftarrow> Some ((rs_cells m)[t := cell\<lparr>mc_seq_id := insert seq_id_dst (mc_seq_id cell)\<rparr>]);
        dst \<leftarrow> vec_at cells (nat seq_id_dst);
        Some (m\<lparr>rs_cells := cells[nat seq_id_dst := dst\<lparr>mc_tail := mc_tail src\<rparr>]\<rparr>) } }
      else Some m)"

definition rs_keep_body :: "nat \<Rightarrow> int \<Rightarrow> nat \<Rightarrow> mem_cell list \<times> nat \<times> nat \<Rightarrow> (mem_cell list \<times> nat \<times> nat) option" where
  "rs_keep_body n seq_id i = (\<lambda>(cells, used, new_head). do {
     c \<leftarrow> vec_at cells i;
     c \<leftarrow> Some (if int i \<noteq> seq_id then c\<lparr>mc_tail := -1\<rparr> else c);
     if seq_id \<notin> mc_seq_id c then Some (cells[i := c\<lparr>mc_pos := -1, mc_src := -1, mc_seq_id := {}\<rparr>],
       if mc_pos c \<ge> 0 then u32_dec used else used, if new_head = n then i else new_head)
     else Some (cells[i := c\<lparr>mc_seq_id := {seq_id}\<rparr>], used, new_head) })"

definition rs_seq_keep :: "int \<Rightarrow> rs_mem \<Rightarrow> rs_mem option" where
  "rs_seq_keep seq_id m = do {
     (cells, used, new_head) \<leftarrow> for_each (rs_keep_body (rs_size m) seq_id) [0..<rs_size m] (rs_cells m, rs_used m, rs_size m);
     Some (m\<lparr>rs_cells := cells, rs_used := used, rs_head := new_head_min (rs_size m) new_head (rs_head m)\<rparr>) }"

text \<open>\<^verbatim>\<open>seq_add\<close> and \<^verbatim>\<open>seq_div\<close> change the position of the tail cell when it is in the range.\<close>

definition rs_move_tail :: "(int \<Rightarrow> int option) \<Rightarrow> int \<Rightarrow> int \<Rightarrow> int \<Rightarrow> rs_mem \<Rightarrow> rs_mem option" where
  "rs_move_tail f seq_id p0 p1 m = (if 0 \<le> seq_id \<and> seq_id < int (rs_size m) then do {
       seq \<leftarrow> vec_at (rs_cells m) (nat seq_id);
       if mc_tail seq < 0 then Some m else do {
       cell \<leftarrow> vec_at (rs_cells m) (nat (mc_tail seq));
       if seq_id \<in> mc_seq_id cell \<and> p0 \<le> mc_pos cell \<and> mc_pos cell < p1 then do {
         p \<leftarrow> f (mc_pos cell);
         Some (m\<lparr>rs_cells := (rs_cells m)[nat (mc_tail seq) := cell\<lparr>mc_pos := p\<rparr>]\<rparr>) }
       else Some m } }
     else Some m)"

definition rs_seq_add :: "int \<Rightarrow> int \<Rightarrow> int \<Rightarrow> int \<Rightarrow> rs_mem \<Rightarrow> rs_mem option" where
  "rs_seq_add seq_id p0 p1 shift m = (if shift = 0 then Some m else
     if norm_p0 p0 = norm_p1 p1 then Some m
     else rs_move_tail (\<lambda>p. do { cpp_assert (i32_ok (p + shift)); Some (p + shift) }) seq_id (norm_p0 p0) (norm_p1 p1) m)"

definition rs_seq_div :: "int \<Rightarrow> int \<Rightarrow> int \<Rightarrow> int \<Rightarrow> rs_mem \<Rightarrow> rs_mem option" where
  "rs_seq_div seq_id p0 p1 d m = (if d = 1 then Some m else
     if norm_p0 p0 = norm_p1 p1 then Some m
     else rs_move_tail (\<lambda>p. do { cpp_assert (d \<noteq> 0); Some (trunc_div p d) }) seq_id (norm_p0 p0) (norm_p1 p1) m)"

definition rs_seq_pos_min :: "int \<Rightarrow> rs_mem \<Rightarrow> int" where
  "rs_seq_pos_min seq_id m = (let r = fold (\<lambda>c r. if seq_id \<in> mc_seq_id c then min r (mc_pos c) else r) (take (rs_size m) (rs_cells m)) INT32_MAX
     in if r = INT32_MAX then -1 else r)"

definition rs_seq_pos_max :: "int \<Rightarrow> rs_mem \<Rightarrow> int" where
  "rs_seq_pos_max seq_id m = fold (\<lambda>c r. if seq_id \<in> mc_seq_id c then max r (mc_pos c) else r) (take (rs_size m) (rs_cells m)) (-1)"

subsection \<open>find\_slot\<close>

text \<open>A loop that stops at the first step with result False, which is then the result.\<close>

primrec each_while :: "('a \<Rightarrow> 's \<Rightarrow> (bool \<times> 's) option) \<Rightarrow> 'a list \<Rightarrow> 's \<Rightarrow> (bool \<times> 's) option" where
  "each_while f [] s = Some (True, s)"
| "each_while f (x # xs) s = do { (b, s) \<leftarrow> f x s; if b then each_while f xs s else Some (False, s) }"

definition ub_seq_at :: "llama_ubatch \<Rightarrow> nat \<Rightarrow> nat \<Rightarrow> int option" where
  "ub_seq_at ub i j = do { row \<leftarrow> vec_at (ub_seq_id ub) i; vec_at row j }"

text \<open>Range check of the sequence ids; the further sequences of a set lose their own cells.\<close>

definition fs_check :: "llama_ubatch \<Rightarrow> rs_mem \<Rightarrow> (bool \<times> rs_mem) option" where
  "fs_check ub = each_while (\<lambda>s m. do {
     i \<leftarrow> Some (s * ub_n_seq_tokens ub);
     n_seq_id \<leftarrow> vec_at (ub_n_seq_id ub) i;
     each_while (\<lambda>j m. do {
       seq_id \<leftarrow> ub_seq_at ub i j;
       if seq_id < 0 \<or> seq_id \<ge> int (rs_size m) then Some (False, m)
       else if j > 0 then do { m \<leftarrow> rs_drop_tail seq_id m; Some (True, m) }
       else Some (True, m) }) [0..<nat (to_u32 n_seq_id)] m }) [0..<ub_n_seqs ub]"

primrec fs_first_empty :: "nat \<Rightarrow> nat \<Rightarrow> mem_cell list \<Rightarrow> nat \<Rightarrow> nat option" where
  "fs_first_empty n 0 cells k = Some k"
| "fs_first_empty n (Suc i) cells k = do {
     k \<leftarrow> Some (if k \<ge> n then k - n else k);
     c \<leftarrow> vec_at cells k;
     if mc_is_empty c then Some k else fs_first_empty n i cells (k + 1) }"

primrec fs_next_empty :: "nat \<Rightarrow> nat \<Rightarrow> mem_cell list \<Rightarrow> nat \<Rightarrow> nat option" where
  "fs_next_empty n 0 cells k = Some k"
| "fs_next_empty n (Suc j) cells k = do {
     k \<leftarrow> Some (if k + 1 \<ge> n then k + 1 - n else k + 1);
     c \<leftarrow> vec_at cells k;
     if mc_is_empty c then Some k else fs_next_empty n j cells k }"

text \<open>One round of the search for cells: cells, next empty cell, \<open>min\<close> and \<open>max\<close>.\<close>

definition fs_take :: "llama_ubatch \<Rightarrow> nat \<Rightarrow> nat \<Rightarrow> mem_cell list \<times> nat \<times> int \<times> int \<Rightarrow> (mem_cell list \<times> nat \<times> int \<times> int) option" where
  "fs_take ub n s = (\<lambda>(cells, next_empty, mi, ma). do {
     seq_id \<leftarrow> ub_seq_at ub (s * ub_n_seq_tokens ub) 0;
     seq_meta \<leftarrow> vec_at cells (nat seq_id);
     has_cell \<leftarrow> (if mc_tail seq_meta \<ge> 0 then do {
         cell \<leftarrow> vec_at cells (nat (mc_tail seq_meta));
         cpp_assert (seq_id \<in> mc_seq_id cell);
         Some (card (mc_seq_id cell) = 1) }
       else Some False);
     (cells, next_empty) \<leftarrow> (if has_cell then Some (cells, next_empty) else do {
         empty_cell \<leftarrow> vec_at cells next_empty;
         cpp_assert (mc_is_empty empty_cell);
         cells \<leftarrow> (if mc_tail seq_meta \<ge> 0 then do {
             orig \<leftarrow> vec_at cells (nat (mc_tail seq_meta));
             cells \<leftarrow> Some (cells[next_empty := empty_cell\<lparr>mc_pos := mc_pos orig, mc_src := mc_src orig,
                  mc_seq_id := insert seq_id (mc_seq_id empty_cell)\<rparr>]);
             orig \<leftarrow> vec_at cells (nat (mc_tail seq_meta));
             orig \<leftarrow> Some (orig\<lparr>mc_seq_id := mc_seq_id orig - {seq_id}\<rparr>);
             cpp_assert (\<not> mc_is_empty orig);
             Some (cells[nat (mc_tail seq_meta) := orig]) }
           else Some cells);
         seq_meta \<leftarrow> vec_at cells (nat seq_id);
         cells \<leftarrow> Some (cells[nat seq_id := seq_meta\<lparr>mc_tail := int next_empty\<rparr>]);
         next_empty \<leftarrow> (if s + 1 < ub_n_seqs ub then fs_next_empty n n cells next_empty else Some next_empty);
         Some (cells, next_empty) });
     seq_meta \<leftarrow> vec_at cells (nat seq_id);
     Some (cells, next_empty, min mi (mc_tail seq_meta), max ma (mc_tail seq_meta)) })"

definition swap_tail :: "int \<Rightarrow> int \<Rightarrow> mem_cell \<Rightarrow> mem_cell" where
  "swap_tail src_id dst_id c = c\<lparr>mc_tail := if mc_tail c = src_id then dst_id else if mc_tail c = dst_id then src_id else mc_tail c\<rparr>"

definition fs_gather :: "llama_ubatch \<Rightarrow> nat \<Rightarrow> int \<Rightarrow> nat \<Rightarrow> mem_cell list \<Rightarrow> mem_cell list option" where
  "fs_gather ub n mi s cells = do {
     seq_id \<leftarrow> ub_seq_at ub (s * ub_n_seq_tokens ub) 0;
     seq_meta \<leftarrow> vec_at cells (nat seq_id);
     dst_id \<leftarrow> Some (int s + mi);
     src_id \<leftarrow> Some (mc_tail seq_meta);
     if dst_id = src_id then Some cells else do {
     cpp_assert (0 \<le> dst_id \<and> 0 \<le> src_id);
     d \<leftarrow> vec_at cells (nat dst_id);
     s \<leftarrow> vec_at cells (nat src_id);
     cells \<leftarrow> Some (cells[nat dst_id := d\<lparr>mc_pos := mc_pos s, mc_src := mc_src s, mc_seq_id := mc_seq_id s\<rparr>,
        nat src_id := s\<lparr>mc_pos := mc_pos d, mc_src := mc_src d, mc_seq_id := mc_seq_id d\<rparr>]);
     Some (map (swap_tail src_id dst_id) cells) } }"

definition fs_update :: "llama_ubatch \<Rightarrow> int \<Rightarrow> nat \<Rightarrow> mem_cell list \<Rightarrow> mem_cell list option" where
  "fs_update ub mi s cells = do {
     i \<leftarrow> Some (s * ub_n_seq_tokens ub);
     last_pos \<leftarrow> vec_at (ub_pos ub) (i + ub_n_seq_tokens ub - 1);
     cell_id \<leftarrow> Some (int s + mi);
     cpp_assert (0 \<le> cell_id);
     cell \<leftarrow> vec_at cells (nat cell_id);
     cells \<leftarrow> Some (cells[nat cell_id := cell\<lparr>mc_pos := last_pos, mc_seq_id := {}\<rparr>]);
     n_seq_id \<leftarrow> vec_at (ub_n_seq_id ub) i;
     for_each (\<lambda>j cells. do {
       seq_id \<leftarrow> ub_seq_at ub i j;
       cell \<leftarrow> vec_at cells (nat cell_id);
       cells \<leftarrow> Some (cells[nat cell_id := cell\<lparr>mc_seq_id := insert seq_id (mc_seq_id cell)\<rparr>]);
       cpp_assert (0 \<le> seq_id);
       seq \<leftarrow> vec_at cells (nat seq_id);
       Some (cells[nat seq_id := seq\<lparr>mc_tail := cell_id\<rparr>]) }) [0..<nat n_seq_id] cells }"

text \<open>The zeroed state: the first cell of the range that is nobody's source; then the sources are staged.\<close>

definition fs_refcounts :: "mem_cell list \<Rightarrow> nat list option" where
  "fs_refcounts cells = for_each (\<lambda>c rc. if mc_src c \<ge> 0 then do { k \<leftarrow> vec_at rc (nat (mc_src c)); vec_set (nat (mc_src c)) (k + 1) rc } else Some rc)
     cells (replicate (length cells) 0)"

definition fs_zero :: "nat list \<Rightarrow> nat \<Rightarrow> nat \<Rightarrow> int" where
  "fs_zero rc mi ma = (case filter (\<lambda>i. i < length rc \<and> rc ! i = 0) [mi..<ma + 1] of [] \<Rightarrow> -1 | i # _ \<Rightarrow> int i)"

definition fs_stage :: "int \<Rightarrow> nat \<Rightarrow> mem_cell list \<Rightarrow> mem_cell list option" where
  "fs_stage z i cells = do {
     c \<leftarrow> vec_at cells i;
     c \<leftarrow> (if mc_src c < 0 then do { cpp_assert (z \<ge> 0); Some (c\<lparr>mc_src0 := z\<rparr>) } else Some (c\<lparr>mc_src0 := mc_src c\<rparr>));
     Some (cells[i := c\<lparr>mc_src := int i\<rparr>]) }"

definition rs_find_slot :: "llama_ubatch \<Rightarrow> rs_mem \<Rightarrow> (bool \<times> rs_mem) option" where
  "rs_find_slot ub m = do {
     n_seqs \<leftarrow> Some (ub_n_seqs ub);
     m \<leftarrow> Some (if rs_head m > (rs_used m + 2 * n_seqs) mod 2 ^ 32 then m\<lparr>rs_head := 0\<rparr> else m);
     cpp_assert (ub_equal_seqs ub);
     (ok, m) \<leftarrow> fs_check ub m;
     if \<not> ok then Some (False, m) else do {
     next_empty \<leftarrow> fs_first_empty (rs_size m) (rs_size m) (rs_cells m) (rs_head m);
     (cells, _, mi, ma) \<leftarrow> for_each (fs_take ub (rs_size m)) [0..<n_seqs] (rs_cells m, next_empty, int (rs_size m) - 1, 0);
     cells \<leftarrow> for_each (fs_gather ub (rs_size m) mi) [0..<n_seqs] cells;
     cells \<leftarrow> for_each (fs_update ub mi) [0..<n_seqs] cells;
     rc \<leftarrow> fs_refcounts cells;
     cpp_assert (0 \<le> mi \<and> ma < int (length cells));
     z \<leftarrow> Some (fs_zero rc (nat mi) (nat ma));
     cells \<leftarrow> for_each (fs_stage z) [nat mi..<nat ma + 1] cells;
     n \<leftarrow> Some (nat (to_u32 (ma - mi + 1)));
     Some (n \<ge> n_seqs, m\<lparr>rs_cells := cells, rs_z := z, rs_head := nat mi, rs_n := n,
        rs_used := length (filter (\<lambda>c. \<not> mc_is_empty c) cells)\<rparr>) } }"

definition rs_prepare :: "llama_ubatch list \<Rightarrow> rs_mem \<Rightarrow> (bool \<times> rs_mem) option" where
  "rs_prepare ubs m = do {
     (success, m') \<leftarrow> each_while rs_find_slot ubs m;
     Some (success, m'\<lparr>rs_cells := rs_cells m, rs_used := rs_used m, rs_head := rs_head m\<rparr>) }"

subsection \<open>The memory context\<close>

record rs_context =
  rx_status :: llama_memory_status
  rx_i_next :: nat
  rx_ubatches :: "llama_ubatch list"
  rx_is_full :: bool

definition rx_fail :: "llama_memory_status \<Rightarrow> rs_context" where
  "rx_fail status = \<lparr>rx_status = status, rx_i_next = 0, rx_ubatches = [], rx_is_full = False\<rparr>"

definition rs_init_full :: rs_context where
  "rs_init_full = (rx_fail MS_SUCCESS)\<lparr>rx_is_full := True\<rparr>"

definition rs_init_update :: rs_context where
  "rs_init_update = rx_fail MS_NO_UPDATE"

definition rs_init_batch :: "llama_batch_allocr \<Rightarrow> nat \<Rightarrow> bool \<Rightarrow> rs_mem \<Rightarrow> (rs_context \<times> llama_batch_allocr \<times> rs_mem) option" where
  "rs_init_batch a n_ubatch embd_all m = do {
     a \<leftarrow> Some (ba_split_reset a);
     (ubs, a) \<leftarrow> split_loop (if embd_all then ba_split_seq n_ubatch else ba_split_equal n_ubatch True) (Suc (ba_get_n_tokens a)) a;
     if ba_n_used a < ba_get_n_tokens a then Some (rx_fail MS_FAILED_PREPARE, a, m) else do {
     (ok, m) \<leftarrow> rs_prepare ubs m;
     Some (if ok then (rx_fail MS_SUCCESS)\<lparr>rx_ubatches := ubs\<rparr> else rx_fail MS_FAILED_PREPARE, a, m) } }"

definition rx_next :: "rs_context \<Rightarrow> (bool \<times> rs_context) option" where
  "rx_next x = do {
     cpp_assert (rx_status x = MS_SUCCESS);
     i \<leftarrow> Some (rx_i_next x + 1);
     Some (i < length (rx_ubatches x), x\<lparr>rx_i_next := i\<rparr>) }"

definition rx_apply :: "rs_context \<Rightarrow> rs_mem \<Rightarrow> rs_mem option" where
  "rx_apply x m = do {
     cpp_assert (\<not> llama_memory_status_is_fail (rx_status x));
     if rx_ubatches x = [] then do { cpp_assert (rx_status x = MS_NO_UPDATE); Some m }
     else do {
       ub \<leftarrow> vec_at (rx_ubatches x) (rx_i_next x);
       (_, m) \<leftarrow> rs_find_slot ub m;
       Some m } }"

definition rx_get_ubatch :: "rs_context \<Rightarrow> llama_ubatch option" where
  "rx_get_ubatch x = do { cpp_assert (rx_status x = MS_SUCCESS); vec_at (rx_ubatches x) (rx_i_next x) }"

definition rx_get_n_rs :: "rs_context \<Rightarrow> rs_mem \<Rightarrow> nat" where
  "rx_get_n_rs x m = (if rx_is_full x then rs_size m else rs_n m)"

definition rx_get_head :: "rs_context \<Rightarrow> rs_mem \<Rightarrow> nat" where
  "rx_get_head x m = (if rx_is_full x then 0 else rs_head m)"

definition rx_get_rs_z :: "rs_context \<Rightarrow> rs_mem \<Rightarrow> int" where
  "rx_get_rs_z x m = (if rx_is_full x then 0 else rs_z m)"

definition rx_s_copy :: "nat \<Rightarrow> rs_mem \<Rightarrow> int option" where
  "rx_s_copy i m = map_option mc_src0 (vec_at (rs_cells m) (i + rs_head m))"

subsection \<open>Saving and restoring\<close>

definition rs_write_cell :: "int \<Rightarrow> mem_cell \<Rightarrow> int list" where
  "rs_write_cell seq_id c = (let ids = (if seq_id = -1 then sorted_list_of_set (mc_seq_id c) else []) in
     mc_pos c # int (length ids) # ids)"

definition rs_state_write :: "((nat \<times> nat) list \<Rightarrow> int list) \<Rightarrow> int \<Rightarrow> rs_mem \<Rightarrow> int list option" where
  "rs_state_write write_data seq_id m = do {
     sel \<leftarrow> Some (map (\<lambda>c. (seq_id = -1 \<and> \<not> mc_is_empty c) \<or> seq_id \<in> mc_seq_id c) (rs_cells m));
     cell_count \<leftarrow> Some (length (filter (\<lambda>b. b) sel));
     cr \<leftarrow> Some (cell_ranges (rs_size m) (rs_size m) sel 0);
     cpp_assert (cell_count = sum_list (map (\<lambda>(b, e). e - b) cr));
     meta \<leftarrow> map_opt (\<lambda>i. map_option (rs_write_cell seq_id) (vec_at (rs_cells m) i)) (concat (map (\<lambda>(b, e). [b..<e]) cr));
     Some (int cell_count # concat meta @ write_data cr) }"

text \<open>The cells of one sequence: positions with a count that must be 0. \<open>Inr None\<close> is \<^verbatim>\<open>return false\<close>.\<close>

fun rs_read_seq :: "nat \<Rightarrow> int list \<Rightarrow> kv_error + (int list \<times> int list) option" where
  "rs_read_seq 0 io = Inr (Some ([], io))"
| "rs_read_seq (Suc n) io = (case io of
     pos # n_seq_id # io \<Rightarrow> if to_u32 n_seq_id \<noteq> 0 then Inr None else (case rs_read_seq n io of
         Inr (Some (ps, io)) \<Rightarrow> Inr (Some (pos # ps, io))
       | r \<Rightarrow> r)
   | _ \<Rightarrow> Inl Read_Past_End)"

text \<open>The sequence ids of cell \<open>i\<close>; the first component tells whether reading went on to the end.\<close>

fun rs_read_ids :: "nat \<Rightarrow> nat \<Rightarrow> int list \<Rightarrow> mem_cell list \<Rightarrow> ((kv_error + bool \<times> int list) \<times> mem_cell list) option" where
  "rs_read_ids i 0 io cells = Some (Inr (True, io), cells)"
| "rs_read_ids i (Suc n) io cells = (case io of
     [] \<Rightarrow> Some (Inl Read_Past_End, cells)
   | seq_id # io \<Rightarrow> if seq_id < 0 then Some (Inr (False, io), cells) else do {
       c \<leftarrow> vec_at cells i;
       cells \<leftarrow> Some (cells[i := c\<lparr>mc_seq_id := insert seq_id (mc_seq_id c)\<rparr>]);
       seq \<leftarrow> vec_at cells (nat seq_id);
       if mc_tail seq \<noteq> -1 then Some (Inr (False, io), cells)
       else rs_read_ids i n io (cells[nat seq_id := seq\<lparr>mc_tail := int i\<rparr>]) })"

fun rs_read_cells :: "nat \<Rightarrow> nat \<Rightarrow> int list \<Rightarrow> mem_cell list \<Rightarrow> ((kv_error + bool \<times> int list) \<times> mem_cell list) option" where
  "rs_read_cells i 0 io cells = Some (Inr (True, io), cells)"
| "rs_read_cells i (Suc n) io cells = (case io of
     pos # n_seq_id # io \<Rightarrow> do {
       c \<leftarrow> vec_at cells i;
       (r, cells) \<leftarrow> rs_read_ids i (nat (to_u32 n_seq_id)) io (cells[i := c\<lparr>mc_pos := pos\<rparr>]);
       (case r of
          Inr (True, io) \<Rightarrow> rs_read_cells (i + 1) n io cells
        | _ \<Rightarrow> Some (r, cells)) }
   | _ \<Rightarrow> Some (Inl Read_Past_End, cells))"

type_synonym rs_io = "((kv_error \<times> rs_mem) + (bool \<times> rs_mem \<times> int list)) option"

definition rs_keep_restored :: "nat \<Rightarrow> rs_mem \<Rightarrow> rs_mem option" where
  "rs_keep_restored cell_count m = do {
     cells \<leftarrow> for_each (\<lambda>i cells. do { c \<leftarrow> vec_at cells (rs_head m + i); Some (cells[rs_head m + i := c\<lparr>mc_src := int (rs_head m + i)\<rparr>]) })
        [0..<cell_count] (rs_cells m);
     Some (m\<lparr>rs_cells := cells\<rparr>) }"

definition rs_restore_seq :: "nat \<Rightarrow> nat \<Rightarrow> int \<Rightarrow> int list \<Rightarrow> rs_mem \<Rightarrow> rs_io" where
  "rs_restore_seq n_pos_per_embd cell_count dest_seq_id io m = do {
     (_, m) \<leftarrow> rs_seq_rm dest_seq_id (-1) (-1) m;
     if cell_count = 0 then Some (Inr (True, m, io)) else
     (case rs_read_seq cell_count io of
        Inl e \<Rightarrow> Some (Inl (e, m))
      | Inr None \<Rightarrow> Some (Inr (False, m, io))
      | Inr (Some (ps, io)) \<Rightarrow> do {
          (ub, _) \<leftarrow> ba_ubatch_reserve cell_count 1 (batch_allocr_new n_pos_per_embd);
          ub \<leftarrow> Some (ub\<lparr>ub_pos := ps, ub_n_seq_id := (ub_n_seq_id ub)[0 := 1], ub_seq_id := (ub_seq_id ub)[0 := [dest_seq_id]]\<rparr>);
          (ok, m) \<leftarrow> rs_find_slot ub m;
          if \<not> ok then Some (Inr (False, m, io)) else do {
          cpp_assert (rs_head m + cell_count \<le> rs_size m);
          c0 \<leftarrow> vec_at (rs_cells m) (rs_head m);
          c1 \<leftarrow> vec_at (rs_cells m) (rs_head m + cell_count - 1);
          cpp_assert (mc_pos c0 = hd ps);
          cpp_assert (mc_pos c1 = last ps);
          cpp_assert (dest_seq_id \<in> mc_seq_id c0);
          cpp_assert (dest_seq_id \<in> mc_seq_id c1);
          m \<leftarrow> rs_keep_restored cell_count m;
          Some (Inr (True, m, io)) } }) }"

definition rs_restore_all :: "nat \<Rightarrow> int list \<Rightarrow> rs_mem \<Rightarrow> rs_io" where
  "rs_restore_all cell_count io m = (if cell_count > rs_size m then Some (Inr (False, m, io)) else do {
     m \<leftarrow> Some (rs_clear m);
     (r, cells) \<leftarrow> rs_read_cells 0 cell_count io (rs_cells m);
     m \<leftarrow> Some (m\<lparr>rs_cells := cells\<rparr>);
     (case r of
        Inl e \<Rightarrow> Some (Inl (e, m))
      | Inr (False, io) \<Rightarrow> Some (Inr (False, m, io))
      | Inr (True, io) \<Rightarrow> do {
          m \<leftarrow> rs_keep_restored cell_count (m\<lparr>rs_head := 0, rs_used := cell_count\<rparr>);
          Some (Inr (True, m, io)) }) })"

definition rs_state_read :: "(rs_mem \<Rightarrow> nat \<Rightarrow> int list \<Rightarrow> bool \<times> int list) \<Rightarrow> nat \<Rightarrow> int \<Rightarrow> int list \<Rightarrow> rs_mem
    \<Rightarrow> ((kv_error \<times> rs_mem) + (rs_mem \<times> int list)) option" where
  "rs_state_read read_data n_pos_per_embd seq_id io m = (case io of
     [] \<Rightarrow> Some (Inl (Read_Past_End, m))
   | n # io \<Rightarrow> do {
       cell_count \<leftarrow> Some (nat (to_u32 n));
       r \<leftarrow> (if seq_id \<noteq> -1 then rs_restore_seq n_pos_per_embd cell_count seq_id io m else rs_restore_all cell_count io m);
       (case r of
          Inl e \<Rightarrow> Some (Inl e)
        | Inr (ok, m, io) \<Rightarrow>
            (let (ok, io) = (if ok then read_data m cell_count io else (False, io)) in
             if ok then Some (Inr (m, io)) else do {
             m \<leftarrow> (if seq_id = -1 then Some (rs_clear m) else map_option snd (rs_seq_rm seq_id (-1) (-1) m));
             Some (Inl (Restore_Failed, m)) })) })"

end
