(* ===== verification/Recurrent_Inv.thy ===== *)
theory Recurrent_Inv
  imports Recurrent
begin

text \<open>
  The invariant of the recurrent memory: \<^verbatim>\<open>tail\<close> and the sequence sets of the cells are inverse to each other, which the
  debug block of \<^verbatim>\<open>find_slot\<close> checks, and \<open>used\<close> counts the cells in use. Every sequence operation keeps it.
\<close>

subsection \<open>The invariant\<close>

definition mc_ok :: "nat \<Rightarrow> nat \<Rightarrow> mem_cell \<Rightarrow> bool" where
  "mc_ok n i c \<longleftrightarrow> -1 \<le> mc_tail c \<and> mc_tail c < int n \<and>
     (if mc_seq_id c = {} then mc_pos c = -1 \<and> mc_src c = -1 else 0 \<le> mc_pos c \<and> mc_pos c \<le> INT32_MAX \<and> mc_src c = int i)"

definition tails_ok :: "mem_cell list \<Rightarrow> bool" where
  "tails_ok cs \<longleftrightarrow> (\<forall>i < length cs. \<forall>q. q \<in> mc_seq_id (cs ! i) \<longleftrightarrow> 0 \<le> q \<and> q < int (length cs) \<and> mc_tail (cs ! nat q) = int i)"

definition n_nonempty :: "mem_cell list \<Rightarrow> nat" where
  "n_nonempty cs = length (filter (\<lambda>c. mc_seq_id c \<noteq> {}) cs)"

definition cells_wf :: "mem_cell list \<Rightarrow> bool" where
  "cells_wf cs \<longleftrightarrow> int (length cs) \<le> INT32_MAX \<and> (\<forall>i < length cs. mc_ok (length cs) i (cs ! i)) \<and> tails_ok cs"

definition rs_wf :: "rs_mem \<Rightarrow> bool" where
  "rs_wf m \<longleftrightarrow> length (rs_cells m) = rs_size m \<and> rs_head m \<le> rs_size m \<and> rs_used m = n_nonempty (rs_cells m) \<and> cells_wf (rs_cells m)"

text \<open>The last position of each sequence that has a state.\<close>

definition cells_pos :: "mem_cell list \<Rightarrow> nat \<Rightarrow> int option" where
  "cells_pos cs q = (if q < length cs \<and> 0 \<le> mc_tail (cs ! q) then Some (mc_pos (cs ! nat (mc_tail (cs ! q)))) else None)"

definition rs_pos :: "rs_mem \<Rightarrow> nat \<Rightarrow> int option" where
  "rs_pos m = cells_pos (rs_cells m)"

lemma cells_wf_tail:
  assumes "cells_wf cs" "q < length cs" "0 \<le> mc_tail (cs ! q)"
  shows "nat (mc_tail (cs ! q)) < length cs" "int q \<in> mc_seq_id (cs ! nat (mc_tail (cs ! q)))"
    "0 \<le> mc_pos (cs ! nat (mc_tail (cs ! q)))" "mc_pos (cs ! nat (mc_tail (cs ! q))) \<le> INT32_MAX"
proof -
  let ?t = "nat (mc_tail (cs ! q))"
  have "mc_tail (cs ! q) < int (length cs)" using assms(1,2) by (auto simp: cells_wf_def mc_ok_def)
  then show t: "?t < length cs" using assms(3) by linarith
  then show q: "int q \<in> mc_seq_id (cs ! ?t)" using assms by (auto simp: cells_wf_def tails_ok_def)
  have "mc_ok (length cs) ?t (cs ! ?t)" using assms(1) t by (simp add: cells_wf_def)
  then show "0 \<le> mc_pos (cs ! ?t)" "mc_pos (cs ! ?t) \<le> INT32_MAX" using q by (auto simp: mc_ok_def split: if_splits)
qed

lemma cells_wf_seq:
  assumes "cells_wf cs" "i < length cs" "q \<in> mc_seq_id (cs ! i)"
  shows "0 \<le> q" "q < int (length cs)" "mc_tail (cs ! nat q) = int i"
  using assms by (auto simp: cells_wf_def tails_ok_def)

lemma cells_wf_finite: "cells_wf cs \<Longrightarrow> i < length cs \<Longrightarrow> finite (mc_seq_id (cs ! i))"
proof -
  assume "cells_wf cs" "i < length cs"
  then have "mc_seq_id (cs ! i) \<subseteq> {0..<int (length cs)}" using cells_wf_seq by auto
  then show ?thesis by (rule finite_subset) simp
qed

lemma rs_wfD:
  assumes "rs_wf m"
  shows "length (rs_cells m) = rs_size m" "rs_head m \<le> rs_size m" "rs_used m = n_nonempty (rs_cells m)" "cells_wf (rs_cells m)"
  using assms by (simp_all add: rs_wf_def)

lemma n_nonempty_update:
  assumes "i < length cs"
  shows "n_nonempty (cs[i := c]) = n_nonempty cs - (if mc_seq_id (cs ! i) \<noteq> {} then 1 else 0) + (if mc_seq_id c \<noteq> {} then 1 else 0)"
proof -
  have "n_nonempty (take i cs @ cs ! i # drop (Suc i) cs) =
      n_nonempty (take i cs) + (if mc_seq_id (cs ! i) \<noteq> {} then 1 else 0) + n_nonempty (drop (Suc i) cs)"
    by (simp add: n_nonempty_def)
  then have "n_nonempty cs = n_nonempty (take i cs) + (if mc_seq_id (cs ! i) \<noteq> {} then 1 else 0) + n_nonempty (drop (Suc i) cs)"
    using id_take_nth_drop[OF assms] by simp
  moreover have "n_nonempty (cs[i := c]) = n_nonempty (take i cs) + (if mc_seq_id c \<noteq> {} then 1 else 0) + n_nonempty (drop (Suc i) cs)"
    using assms by (simp add: upd_conv_take_nth_drop n_nonempty_def)
  ultimately show ?thesis by simp
qed

lemma n_nonempty_pos: "i < length cs \<Longrightarrow> mc_seq_id (cs ! i) \<noteq> {} \<Longrightarrow> 0 < n_nonempty cs"
  by (auto simp: n_nonempty_def filter_empty_conv intro!: bexI[of _ "cs ! i"])

subsection \<open>Dropping the state of a sequence\<close>

definition drop_seq :: "int \<Rightarrow> mem_cell \<Rightarrow> mem_cell" where
  "drop_seq q c = (let c = c\<lparr>mc_seq_id := mc_seq_id c - {q}\<rparr> in if mc_is_empty c then c\<lparr>mc_pos := -1, mc_src := -1\<rparr> else c)"

definition drop_cells :: "nat \<Rightarrow> nat \<Rightarrow> mem_cell list \<Rightarrow> mem_cell list" where
  "drop_cells q t cs = (let cs = cs[q := (cs ! q)\<lparr>mc_tail := -1\<rparr>] in cs[t := drop_seq (int q) (cs ! t)])"

lemma drop_seq_simps [simp]:
  "mc_seq_id (drop_seq q c) = mc_seq_id c - {q}" "mc_tail (drop_seq q c) = mc_tail c" "mc_src0 (drop_seq q c) = mc_src0 c"
  "mc_pos (drop_seq q c) = (if mc_seq_id c \<subseteq> {q} then -1 else mc_pos c)" "mc_src (drop_seq q c) = (if mc_seq_id c \<subseteq> {q} then -1 else mc_src c)"
  by (auto simp: drop_seq_def Let_def mc_is_empty_def)

lemma drop_cells_nth:
  assumes "q < length cs" "t < length cs" "i < length cs"
  shows "mc_seq_id (drop_cells q t cs ! i) = (if i = t then mc_seq_id (cs ! i) - {int q} else mc_seq_id (cs ! i))"
    "mc_tail (drop_cells q t cs ! i) = (if i = q then -1 else mc_tail (cs ! i))"
    "mc_pos (drop_cells q t cs ! i) = (if i = t \<and> mc_seq_id (cs ! i) \<subseteq> {int q} then -1 else mc_pos (cs ! i))"
    "mc_src (drop_cells q t cs ! i) = (if i = t \<and> mc_seq_id (cs ! i) \<subseteq> {int q} then -1 else mc_src (cs ! i))"
  using assms by (auto simp: drop_cells_def Let_def nth_list_update)

lemma length_drop_cells [simp]: "length (drop_cells q t cs) = length cs"
  by (simp add: drop_cells_def Let_def)

lemma drop_cells_wf:
  assumes wf: "cells_wf cs" and q: "q < length cs" and t: "mc_tail (cs ! q) = int t"
  shows "cells_wf (drop_cells q t cs)" "cells_pos (drop_cells q t cs) = (cells_pos cs)(q := None)"
    "n_nonempty (drop_cells q t cs) = (if mc_seq_id (cs ! t) = {int q} then n_nonempty cs - 1 else n_nonempty cs)"
proof -
  have tq: "t < length cs" "int q \<in> mc_seq_id (cs ! t)" using cells_wf_tail[OF wf q] t by auto
  let ?d = "drop_cells q t cs"
  note n = drop_cells_nth[OF q tq(1)]
  have "mc_ok (length ?d) i (?d ! i)" if i: "i < length cs" for i
  proof -
    have "mc_ok (length cs) i (cs ! i)" using wf i by (simp add: cells_wf_def)
    then show ?thesis unfolding mc_ok_def n[OF i] by (auto split: if_splits)
  qed
  moreover have "tails_ok ?d"
    unfolding tails_ok_def
  proof (intro allI impI)
    fix i r assume "i < length ?d"
    then have i: "i < length cs" by simp
    have iff: "r \<in> mc_seq_id (cs ! i) \<longleftrightarrow> 0 \<le> r \<and> r < int (length cs) \<and> mc_tail (cs ! nat r) = int i" using wf i by (simp add: cells_wf_def tails_ok_def)
    show "r \<in> mc_seq_id (?d ! i) \<longleftrightarrow> 0 \<le> r \<and> r < int (length ?d) \<and> mc_tail (?d ! nat r) = int i"
    proof (cases "0 \<le> r \<and> r < int (length cs)")
      case True
      then have r: "nat r < length cs" by linarith
      then show ?thesis using iff t True unfolding n(1)[OF i] n(2)[OF r] by (auto simp: nat_eq_iff)
    qed (use iff n(1)[OF i] in auto)
  qed
  ultimately show "cells_wf ?d" using wf by (simp add: cells_wf_def)
  show "cells_pos ?d = (cells_pos cs)(q := None)"
  proof
    fix r
    show "cells_pos ?d r = ((cells_pos cs)(q := None)) r"
    proof (cases "r < length cs \<and> r \<noteq> q \<and> 0 \<le> mc_tail (cs ! r)")
      case True
      then have r: "nat (mc_tail (cs ! r)) < length cs" "int r \<in> mc_seq_id (cs ! nat (mc_tail (cs ! r)))" using cells_wf_tail[OF wf] by auto
      then have "mc_pos (?d ! nat (mc_tail (cs ! r))) = mc_pos (cs ! nat (mc_tail (cs ! r)))" using True by (auto simp: n(3))
      then show ?thesis using True by (simp add: cells_pos_def n(2))
    qed (use n(2) in \<open>auto simp: cells_pos_def\<close>)
  qed
  have "n_nonempty ?d = n_nonempty (cs[q := (cs ! q)\<lparr>mc_tail := -1\<rparr>]) - (if mc_seq_id (cs ! t) \<noteq> {} then 1 else 0)
      + (if mc_seq_id (cs ! t) - {int q} \<noteq> {} then 1 else 0)"
    unfolding drop_cells_def Let_def using tq(1) q by (subst n_nonempty_update) (simp_all add: nth_list_update)
  moreover have "n_nonempty (cs[q := (cs ! q)\<lparr>mc_tail := -1\<rparr>]) = n_nonempty cs"
    using q n_nonempty_pos[of q cs] by (subst n_nonempty_update) auto
  ultimately show "n_nonempty ?d = (if mc_seq_id (cs ! t) = {int q} then n_nonempty cs - 1 else n_nonempty cs)"
    using tq(2) n_nonempty_pos[OF tq(1)] by auto
qed

lemma u32_dec_pos: "0 < n \<Longrightarrow> u32_dec n = n - 1"
  by (simp add: u32_dec_def)

lemma fold_one:
  assumes "distinct xs" "t \<in> set xs" "\<And>i a. i \<in> set xs \<Longrightarrow> i \<noteq> t \<Longrightarrow> g i a = a"
  shows "fold g xs a = g t a"
proof -
  obtain ys zs where xs: "xs = ys @ t # zs" using split_list[OF assms(2)] by blast
  have id: "fold g ws b = b" if "set ws \<subseteq> set xs - {t}" for ws b using that assms(3) by (induction ws arbitrary: b) auto
  have "set ys \<subseteq> set xs - {t}" "set zs \<subseteq> set xs - {t}" using assms(1) xs by auto
  then show ?thesis using id[of ys] id[of zs] by (simp add: xs)
qed

lemma fold_none: "(\<And>i a. i \<in> set xs \<Longrightarrow> g i a = a) \<Longrightarrow> fold g xs a = a"
  by (induction xs arbitrary: a) auto

lemma rs_drop_tail_ok:
  assumes wf: "rs_wf m" and q: "q < rs_size m"
  shows "\<exists>m'. rs_drop_tail (int q) m = Some m' \<and> rs_wf m' \<and> rs_size m' = rs_size m \<and> rs_head m' = rs_head m \<and> rs_pos m' = (rs_pos m)(q := None)"
proof -
  note d = rs_wfD[OF wf]
  let ?cs = "rs_cells m"
  show ?thesis
  proof (cases "0 \<le> mc_tail (?cs ! q)")
    case False
    then have "rs_pos m q = None" by (simp add: rs_pos_def cells_pos_def)
    then show ?thesis using False wf q d(1) by (auto simp: rs_drop_tail_def)
  next
    case True
    define t where "t = nat (mc_tail (?cs ! q))"
    have t: "mc_tail (?cs ! q) = int t" using True by (simp add: t_def)
    have q': "q < length ?cs" using q d(1) by simp
    note w = drop_cells_wf[OF d(4) q' t]
    have tl: "t < length ?cs" "int q \<in> mc_seq_id (?cs ! t)" using cells_wf_tail[OF d(4) q' True] by (simp_all add: t_def)
    have used: "0 < n_nonempty ?cs" using n_nonempty_pos[OF tl(1)] tl(2) by auto
    let ?m = "m\<lparr>rs_cells := drop_cells q t ?cs, rs_used := if mc_seq_id (?cs ! t) = {int q} then rs_used m - 1 else rs_used m\<rparr>"
    have "rs_drop_tail (int q) m = Some ?m"
    proof (cases "mc_seq_id (?cs ! t) = {int q}")
      case True
      have "?cs[t := (?cs ! t)\<lparr>mc_seq_id := {}\<rparr>, q := (?cs[t := (?cs ! t)\<lparr>mc_seq_id := {}\<rparr>] ! q)\<lparr>mc_tail := -1\<rparr>,
          t := (?cs[t := (?cs ! t)\<lparr>mc_seq_id := {}\<rparr>, q := (?cs[t := (?cs ! t)\<lparr>mc_seq_id := {}\<rparr>] ! q)\<lparr>mc_tail := -1\<rparr>] ! t)\<lparr>mc_pos := -1, mc_src := -1\<rparr>] = drop_cells q t ?cs"
        by (rule nth_equalityI) (use True q' tl in \<open>auto simp: nth_list_update drop_cells_def drop_seq_def Let_def mc_is_empty_def\<close>)
      moreover have "mc_is_empty (?cs[t := (?cs ! t)\<lparr>mc_seq_id := {}\<rparr>, q := (?cs[t := (?cs ! t)\<lparr>mc_seq_id := {}\<rparr>] ! q)\<lparr>mc_tail := -1\<rparr>] ! t)"
        using q' tl by (auto simp: nth_list_update mc_is_empty_def)
      ultimately show ?thesis using True t q' tl used d(3) by (simp add: rs_drop_tail_def u32_dec_pos)
    next
      case False
      let ?c1 = "?cs[t := (?cs ! t)\<lparr>mc_seq_id := mc_seq_id (?cs ! t) - {int q}\<rparr>]"
      have "?c1[q := (?c1 ! q)\<lparr>mc_tail := -1\<rparr>] = drop_cells q t ?cs"
        by (rule nth_equalityI) (use False q' tl in \<open>auto simp: nth_list_update drop_cells_def drop_seq_def Let_def mc_is_empty_def\<close>)
      moreover have "\<not> mc_is_empty (?c1[q := (?c1 ! q)\<lparr>mc_tail := -1\<rparr>] ! t)"
        using q' tl False by (auto simp: nth_list_update mc_is_empty_def)
      ultimately show ?thesis using False t q' tl by (simp add: rs_drop_tail_def)
    qed
    moreover have "rs_wf ?m" using w d by (simp add: rs_wf_def)
    ultimately show ?thesis using w(2) by (simp add: rs_pos_def)
  qed
qed

text \<open>The loop of \<^verbatim>\<open>seq_rm\<close> for one sequence.\<close>

definition rm_hit :: "int \<Rightarrow> int \<Rightarrow> int \<Rightarrow> mem_cell \<Rightarrow> bool" where
  "rm_hit q p0 p1 c \<longleftrightarrow> p0 \<le> mc_pos c \<and> mc_pos c < p1 \<and> q \<in> mc_seq_id c"

definition rm_acc :: "nat \<Rightarrow> int \<Rightarrow> int \<Rightarrow> int \<Rightarrow> nat \<Rightarrow> mem_cell \<Rightarrow> nat \<times> nat \<Rightarrow> nat \<times> nat" where
  "rm_acc n q p0 p1 i c = (\<lambda>(u, h). if rm_hit q p0 p1 c \<and> mc_seq_id c = {q}
     then (if 0 \<le> mc_pos c then u32_dec u else u, if h = n then i else h) else (u, h))"

lemma rs_rm_loop:
  assumes "0 \<le> q"
  shows "for_each (rs_rm_body n q p0 p1) [0..<length cs] (cs, u, h) =
    Some (map (\<lambda>c. if rm_hit q p0 p1 c then drop_seq q c else c) cs, fold (\<lambda>i. rm_acc n q p0 p1 i (cs ! i)) [0..<length cs] (u, h))"
  by (rule for_each_rewrite[where C = "\<lambda>xs. xs" and P = "\<lambda>_. True" and g = "rm_acc n q p0 p1" and a = "(u, h)"])
    (use assms in \<open>auto simp: rs_rm_body_def rm_hit_def rm_acc_def drop_seq_def Let_def mc_is_empty_def list_update_id split: prod.splits\<close>)

lemma rs_head_min_le: "h \<le> n \<Longrightarrow> new_head_min n k h \<le> n"
  by (auto simp: new_head_min_def)

lemma rs_seq_rm_ok:
  assumes wf: "rs_wf m" and q: "q < rs_size m"
  shows "\<exists>ok m'. rs_seq_rm (int q) p0 p1 m = Some (ok, m') \<and> rs_wf m' \<and> rs_size m' = rs_size m \<and>
    (case rs_pos m q of
       None \<Rightarrow> ok \<and> rs_pos m' = rs_pos m
     | Some p \<Rightarrow> (ok \<longleftrightarrow> \<not> (0 < norm_p0 p0 \<and> norm_p0 p0 < p \<or> 0 < norm_p1 p1 \<and> norm_p1 p1 \<le> p)) \<and>
         rs_pos m' = (if ok \<and> norm_p0 p0 \<le> p \<and> p < norm_p1 p1 then (rs_pos m)(q := None) else rs_pos m))"
proof -
  note d = rs_wfD[OF wf]
  let ?cs = "rs_cells m" and ?lo = "norm_p0 p0" and ?hi = "norm_p1 p1"
  have q': "q < length ?cs" using q d(1) by simp
  have miss: "rs_seq_rm (int q) p0 p1 m = Some (True, m)"
    if r: "rs_rm_tail (int q) ?lo ?hi ?cs = Some (Some ?cs)" and no: "\<forall>c \<in> set ?cs. \<not> rm_hit (int q) ?lo ?hi c"
  proof -
    have "map (\<lambda>c. if rm_hit (int q) ?lo ?hi c then drop_seq (int q) c else c) ?cs = ?cs" using no by (simp add: map_idI)
    moreover have "fold (\<lambda>i. rm_acc (rs_size m) (int q) ?lo ?hi i (?cs ! i)) [0..<length ?cs] (rs_used m, rs_size m) = (rs_used m, rs_size m)"
      by (rule fold_none) (use no in \<open>auto simp: rm_acc_def\<close>)
    ultimately show ?thesis
      using r q rs_rm_loop[of "int q" "rs_size m" ?lo ?hi ?cs "rs_used m" "rs_size m"] d(1) by (simp add: rs_seq_rm_def new_head_min_def)
  qed
  show ?thesis
  proof (cases "0 \<le> mc_tail (?cs ! q)")
    case False
    have "rm_hit (int q) ?lo ?hi c \<Longrightarrow> c \<notin> set ?cs" for c
      using cells_wf_seq(3)[OF d(4), of _ "int q"] False by (auto simp: rm_hit_def in_set_conv_nth)
    then have "rs_seq_rm (int q) p0 p1 m = Some (True, m)" using False q' by (intro miss) (auto simp: rs_rm_tail_def)
    moreover have "rs_pos m q = None" using False by (simp add: rs_pos_def cells_pos_def)
    ultimately show ?thesis using wf by auto
  next
    case True
    define t where "t = nat (mc_tail (?cs ! q))"
    have t: "mc_tail (?cs ! q) = int t" "t < length ?cs" "int q \<in> mc_seq_id (?cs ! t)" "0 \<le> mc_pos (?cs ! t)"
      using cells_wf_tail[OF d(4) q' True] True by (auto simp: t_def)
    let ?pos = "mc_pos (?cs ! t)"
    have pos: "rs_pos m q = Some ?pos" using q' t by (simp add: rs_pos_def cells_pos_def)
    have own: "int q \<in> mc_seq_id (?cs ! i) \<longleftrightarrow> i = t" if "i < length ?cs" for i
      using cells_wf_seq(3)[OF d(4) that, of "int q"] t that by auto
    consider (part) "0 < ?lo \<and> ?lo < ?pos \<or> 0 < ?hi \<and> ?hi \<le> ?pos" | (out) "\<not> (0 < ?lo \<and> ?lo < ?pos \<or> 0 < ?hi \<and> ?hi \<le> ?pos)" "\<not> (?lo \<le> ?pos \<and> ?pos < ?hi)"
      | (hit) "\<not> (0 < ?lo \<and> ?lo < ?pos \<or> 0 < ?hi \<and> ?hi \<le> ?pos)" "?lo \<le> ?pos" "?pos < ?hi" by blast
    then show ?thesis
    proof cases
      case part
      then have "rs_seq_rm (int q) p0 p1 m = Some (False, m)" using q q' t by (simp add: rs_seq_rm_def rs_rm_tail_def)
      then show ?thesis using part wf pos by auto
    next
      case out
      have "rs_rm_tail (int q) ?lo ?hi ?cs = Some (Some ?cs)" using q' t out by (auto simp: rs_rm_tail_def)
      moreover have "\<forall>c \<in> set ?cs. \<not> rm_hit (int q) ?lo ?hi c" using own out(2) by (auto simp: rm_hit_def in_set_conv_nth)
      ultimately have "rs_seq_rm (int q) p0 p1 m = Some (True, m)" by (rule miss)
      then show ?thesis using out wf pos by auto
    next
      case hit
      let ?c1 = "?cs[q := (?cs ! q)\<lparr>mc_tail := -1\<rparr>]"
      have c1: "mc_seq_id (?c1 ! i) = mc_seq_id (?cs ! i)" "mc_pos (?c1 ! i) = mc_pos (?cs ! i)" if "i < length ?cs" for i
        using that q' by (auto simp: nth_list_update)
      have hit_iff: "rm_hit (int q) ?lo ?hi (?c1 ! i) \<longleftrightarrow> i = t" if "i < length ?cs" for i
        using that own[OF that] hit c1[OF that] by (auto simp: rm_hit_def)
      have cells: "map (\<lambda>c. if rm_hit (int q) ?lo ?hi c then drop_seq (int q) c else c) ?c1 = drop_cells q t ?cs"
        by (rule nth_equalityI) (use hit_iff t(2) q' in \<open>auto simp: drop_cells_def Let_def nth_list_update\<close>)
      have acc: "fold (\<lambda>i. rm_acc (rs_size m) (int q) ?lo ?hi i (?c1 ! i)) [0..<length ?c1] (rs_used m, rs_size m) =
          rm_acc (rs_size m) (int q) ?lo ?hi t (?c1 ! t) (rs_used m, rs_size m)"
        by (rule fold_one) (use t(2) hit_iff in \<open>auto simp: rm_acc_def\<close>)
      have used: "0 < rs_used m" using n_nonempty_pos[OF t(2)] t(3) d(3) by auto
      define k where "k = (if mc_seq_id (?cs ! t) = {int q} then t else rs_size m)"
      have k: "rm_acc (rs_size m) (int q) ?lo ?hi t (?c1 ! t) (rs_used m, rs_size m) =
          (if mc_seq_id (?cs ! t) = {int q} then rs_used m - 1 else rs_used m, k)"
        using hit_iff[OF t(2)] c1[OF t(2)] t(4) used by (simp add: rm_acc_def u32_dec_pos k_def)
      let ?m = "m\<lparr>rs_cells := drop_cells q t ?cs, rs_used := if mc_seq_id (?cs ! t) = {int q} then rs_used m - 1 else rs_used m,
          rs_head := new_head_min (rs_size m) k (rs_head m)\<rparr>"
      have "rs_rm_tail (int q) ?lo ?hi ?cs = Some (Some ?c1)" using hit q' t by (auto simp: rs_rm_tail_def)
      then have "rs_seq_rm (int q) p0 p1 m = Some (True, ?m)"
        using q rs_rm_loop[of "int q" "rs_size m" ?lo ?hi ?c1 "rs_used m" "rs_size m"] cells acc k d(1) by (simp add: rs_seq_rm_def)
      moreover have "rs_wf ?m" using drop_cells_wf[OF d(4) q' t(1)] d by (simp add: rs_wf_def rs_head_min_le)
      ultimately show ?thesis using hit pos drop_cells_wf(2)[OF d(4) q' t(1)] by (intro exI[of _ True] exI[of _ ?m]) (simp add: rs_pos_def)
    qed
  qed
qed

end
