(* ===== verification/Recurrent_Seq.thy ===== *)
theory Recurrent_Seq
  imports Recurrent_Inv
begin

text \<open>
  The sequence operations of the recurrent memory as operations on the map from sequences to their last position.
\<close>

subsection \<open>seq\_cp\<close>

definition join_cells :: "nat \<Rightarrow> nat \<Rightarrow> mem_cell list \<Rightarrow> mem_cell list" where
  "join_cells q t cs = (let cs = cs[t := (cs ! t)\<lparr>mc_seq_id := insert (int q) (mc_seq_id (cs ! t))\<rparr>] in cs[q := (cs ! q)\<lparr>mc_tail := int t\<rparr>])"

lemma join_cells_nth:
  assumes "q < length cs" "t < length cs" "i < length cs"
  shows "mc_seq_id (join_cells q t cs ! i) = (if i = t then insert (int q) (mc_seq_id (cs ! i)) else mc_seq_id (cs ! i))"
    "mc_tail (join_cells q t cs ! i) = (if i = q then int t else mc_tail (cs ! i))"
    "mc_pos (join_cells q t cs ! i) = mc_pos (cs ! i)"
    "mc_src (join_cells q t cs ! i) = mc_src (cs ! i)"
  using assms by (auto simp: join_cells_def Let_def nth_list_update)

lemma length_join_cells [simp]: "length (join_cells q t cs) = length cs"
  by (simp add: join_cells_def Let_def)

lemma n_nonempty_cong:
  assumes "length cs = length ds" "\<And>i. i < length cs \<Longrightarrow> mc_seq_id (cs ! i) = {} \<longleftrightarrow> mc_seq_id (ds ! i) = {}"
  shows "n_nonempty cs = n_nonempty ds"
  unfolding n_nonempty_def length_filter_conv_card using assms by (metis (lifting))

lemma join_cells_wf:
  assumes wf: "cells_wf cs" and q: "q < length cs" and t: "t < length cs" and free: "mc_tail (cs ! q) < 0" and used: "mc_seq_id (cs ! t) \<noteq> {}"
  shows "cells_wf (join_cells q t cs)" "cells_pos (join_cells q t cs) = (cells_pos cs)(q := Some (mc_pos (cs ! t)))"
    "n_nonempty (join_cells q t cs) = n_nonempty cs"
proof -
  let ?d = "join_cells q t cs"
  note n = join_cells_nth[OF q t]
  have "mc_ok (length ?d) i (?d ! i)" if i: "i < length cs" for i
  proof -
    have "mc_ok (length cs) i (cs ! i)" using wf i by (simp add: cells_wf_def)
    then show ?thesis unfolding mc_ok_def n[OF i] using used t by (auto split: if_splits)
  qed
  moreover have "tails_ok ?d"
    unfolding tails_ok_def
  proof (intro allI impI)
    fix i r assume "i < length ?d"
    then have i: "i < length cs" by simp
    have iff: "r \<in> mc_seq_id (cs ! i) \<longleftrightarrow> 0 \<le> r \<and> r < int (length cs) \<and> mc_tail (cs ! nat r) = int i" using wf i by (simp add: cells_wf_def tails_ok_def)
    show "r \<in> mc_seq_id (?d ! i) \<longleftrightarrow> 0 \<le> r \<and> r < int (length ?d) \<and> mc_tail (?d ! nat r) = int i"
    proof (cases "0 \<le> r \<and> r < int (length cs)")
      case True
      then have r: "nat r < length cs" by linarith
      then show ?thesis using iff free True q unfolding n(1)[OF i] n(2)[OF r] by (auto simp: nat_eq_iff)
    qed (use iff n(1)[OF i] q in auto)
  qed
  ultimately show "cells_wf ?d" using wf by (simp add: cells_wf_def)
  show "cells_pos ?d = (cells_pos cs)(q := Some (mc_pos (cs ! t)))"
  proof
    fix r show "cells_pos ?d r = ((cells_pos cs)(q := Some (mc_pos (cs ! t)))) r"
      using q t n(2,3) cells_wf_tail(1)[OF wf, of r] by (auto simp: cells_pos_def split: if_splits)
  qed
  show "n_nonempty ?d = n_nonempty cs" by (rule n_nonempty_cong) (use n(1) used in auto)
qed

lemma rs_pos_tail: "rs_wf m \<Longrightarrow> q < rs_size m \<Longrightarrow> rs_pos m q = None \<longleftrightarrow> mc_tail (rs_cells m ! q) < 0"
  by (auto simp: rs_pos_def cells_pos_def rs_wf_def)

lemma rs_size_u32: "rs_wf m \<Longrightarrow> q < rs_size m \<Longrightarrow> to_u32 (int q) = int q"
  by (auto simp: rs_wf_def cells_wf_def to_u32_def)

lemma rs_seq_cp_ok:
  assumes wf: "rs_wf m" and a: "a < rs_size m" and b: "b < rs_size m"
  shows "\<exists>m'. rs_seq_cp (int a) (int b) p0 p1 m = Some m' \<and> rs_wf m' \<and> rs_size m' = rs_size m \<and> rs_pos m' = (rs_pos m)(b := rs_pos m a)"
proof (cases "a = b")
  case True
  then show ?thesis using wf by (auto simp: rs_seq_cp_def)
next
  case ab: False
  obtain m1 where m1: "rs_drop_tail (int b) m = Some m1" "rs_wf m1" "rs_size m1 = rs_size m" "rs_pos m1 = (rs_pos m)(b := None)"
    using rs_drop_tail_ok[OF wf b] by auto
  note d = rs_wfD[OF m1(2)] and u = rs_size_u32[OF wf a] rs_size_u32[OF wf b]
  have ab': "a < length (rs_cells m1)" "b < length (rs_cells m1)" using a b m1(3) d(1) by auto
  show ?thesis
  proof (cases "mc_tail (rs_cells m1 ! a) < 0")
    case True
    then have "rs_pos m a = None" using rs_pos_tail[OF m1(2), of a] a m1 ab by simp
    then show ?thesis using True ab ab' m1 u a b by (simp add: rs_seq_cp_def)
  next
    case False
    define t where "t = nat (mc_tail (rs_cells m1 ! a))"
    have t: "mc_tail (rs_cells m1 ! a) = int t" "t < length (rs_cells m1)" "mc_seq_id (rs_cells m1 ! t) \<noteq> {}"
      using cells_wf_tail[OF d(4) ab'(1)] False by (auto simp: t_def)
    have free: "mc_tail (rs_cells m1 ! b) < 0" using rs_pos_tail[OF m1(2), of b] b m1 by simp
    note j = join_cells_wf[OF d(4) ab'(2) t(2) free t(3)]
    have "rs_seq_cp (int a) (int b) p0 p1 m = Some (m1\<lparr>rs_cells := join_cells b t (rs_cells m1)\<rparr>)"
      using ab ab' m1 u a b t by (simp add: rs_seq_cp_def join_cells_def Let_def)
    moreover have "rs_pos m1 a = Some (mc_pos (rs_cells m1 ! t))" using ab' t(1) by (simp add: rs_pos_def cells_pos_def)
    then have "rs_pos m a = Some (mc_pos (rs_cells m1 ! t))" using ab m1(4) by simp
    moreover have "rs_wf (m1\<lparr>rs_cells := join_cells b t (rs_cells m1)\<rparr>)" using j d by (simp add: rs_wf_def)
    ultimately show ?thesis using j(2) m1(3,4) by (simp add: rs_pos_def)
  qed
qed

subsection \<open>seq\_keep\<close>

lemma for_each_index:
  assumes "\<And>i ys a. i < n \<Longrightarrow> length ys = n \<Longrightarrow> body i (ys, a) = Some (ys[i := f i (ys ! i)], g i (ys ! i) a)" and n: "length xs = n"
  shows "for_each body [0..<n] (xs, a) = Some (map (\<lambda>i. f i (xs ! i)) [0..<n], fold (\<lambda>i. g i (xs ! i)) [0..<n] a)"
proof -
  have "for_each body [0..<k] (xs, a) = Some (map (\<lambda>i. f i (xs ! i)) [0..<k] @ drop k xs, fold (\<lambda>i. g i (xs ! i)) [0..<k] a)" if "k \<le> n" for k
    using that
  proof (induction k)
    case (Suc k)
    let ?ys = "map (\<lambda>i. f i (xs ! i)) [0..<k] @ drop k xs"
    have "?ys ! k = xs ! k" "?ys[k := v] = map (\<lambda>i. f i (xs ! i)) [0..<k] @ v # drop (Suc k) xs" for v
      using Suc.prems n by (simp_all add: nth_append list_update_append Cons_nth_drop_Suc[symmetric])
    then show ?case using Suc assms(1)[of k ?ys] n by (simp add: for_each_append)
  qed simp
  from this[of n] n show ?thesis by simp
qed

definition keep_cell :: "int \<Rightarrow> nat \<Rightarrow> mem_cell \<Rightarrow> mem_cell" where
  "keep_cell q i c = (let c = (if int i \<noteq> q then c\<lparr>mc_tail := -1\<rparr> else c) in
     if q \<in> mc_seq_id c then c\<lparr>mc_seq_id := {q}\<rparr> else c\<lparr>mc_pos := -1, mc_src := -1, mc_seq_id := {}\<rparr>)"

definition keep_acc :: "nat \<Rightarrow> int \<Rightarrow> nat \<Rightarrow> mem_cell \<Rightarrow> nat \<times> nat \<Rightarrow> nat \<times> nat" where
  "keep_acc n q i c = (\<lambda>(u, h). if q \<in> mc_seq_id c then (u, h) else (if 0 \<le> mc_pos c then u32_dec u else u, if h = n then i else h))"

lemma rs_keep_loop:
  assumes "length cs = n"
  shows "for_each (rs_keep_body n q) [0..<n] (cs, u, h) = Some (map (\<lambda>i. keep_cell q i (cs ! i)) [0..<n], fold (\<lambda>i. keep_acc n q i (cs ! i)) [0..<n] (u, h))"
  by (rule for_each_index) (use assms in \<open>auto simp: rs_keep_body_def keep_cell_def keep_acc_def Let_def split: prod.splits\<close>)

lemma keep_acc_used:
  "length (filter (\<lambda>i. q \<notin> mc_seq_id (cs ! i) \<and> 0 \<le> mc_pos (cs ! i)) is') \<le> u \<Longrightarrow>
    fst (fold (\<lambda>i. keep_acc n q i (cs ! i)) is' (u, h)) = u - length (filter (\<lambda>i. q \<notin> mc_seq_id (cs ! i) \<and> 0 \<le> mc_pos (cs ! i)) is')"
  by (induction is' arbitrary: u h) (auto simp: keep_acc_def u32_dec_def)

lemma keep_cell_simps [simp]:
  "mc_seq_id (keep_cell q i c) = mc_seq_id c \<inter> {q}" "mc_tail (keep_cell q i c) = (if int i = q then mc_tail c else -1)"
  "mc_pos (keep_cell q i c) = (if q \<in> mc_seq_id c then mc_pos c else -1)" "mc_src (keep_cell q i c) = (if q \<in> mc_seq_id c then mc_src c else -1)"
  by (auto simp: keep_cell_def Let_def)

lemma n_nonempty_upto: "n_nonempty cs = length (filter (\<lambda>i. mc_seq_id (cs ! i) \<noteq> {}) [0..<length cs])"
proof -
  have "filter (\<lambda>c. mc_seq_id c \<noteq> {}) (map ((!) cs) [0..<length cs]) = map ((!) cs) (filter (\<lambda>i. mc_seq_id (cs ! i) \<noteq> {}) [0..<length cs])"
    by (simp add: filter_map comp_def)
  then show ?thesis by (simp add: n_nonempty_def map_nth)
qed

lemma keep_cells_wf:
  assumes wf: "cells_wf cs" and q: "q < length cs"
  defines "ks \<equiv> map (\<lambda>i. keep_cell (int q) i (cs ! i)) [0..<length cs]"
  shows "cells_wf ks" "cells_pos ks = (\<lambda>r. if r = q then cells_pos cs q else None)"
    "n_nonempty ks = n_nonempty cs - length (filter (\<lambda>i. int q \<notin> mc_seq_id (cs ! i) \<and> 0 \<le> mc_pos (cs ! i)) [0..<length cs])"
    "length (filter (\<lambda>i. int q \<notin> mc_seq_id (cs ! i) \<and> 0 \<le> mc_pos (cs ! i)) [0..<length cs]) \<le> n_nonempty cs"
proof -
  have len [simp]: "length ks = length cs" and nth: "i < length cs \<Longrightarrow> ks ! i = keep_cell (int q) i (cs ! i)" for i by (simp_all add: ks_def)
  have ok: "mc_ok (length cs) i (cs ! i)" if "i < length cs" for i using wf that by (simp add: cells_wf_def)
  have nonempty: "0 \<le> mc_pos (cs ! i) \<longleftrightarrow> mc_seq_id (cs ! i) \<noteq> {}" if "i < length cs" for i using ok[OF that] by (auto simp: mc_ok_def split: if_splits)
  have "mc_ok (length ks) i (ks ! i)" if "i < length cs" for i
    using ok[OF that] nth[OF that] by (auto simp: mc_ok_def split: if_splits)
  moreover have "tails_ok ks"
    unfolding tails_ok_def
  proof (intro allI impI)
    fix i r assume "i < length ks"
    then have i: "i < length cs" by simp
    have iff: "int q \<in> mc_seq_id (cs ! i) \<longleftrightarrow> mc_tail (cs ! q) = int i" using wf i q by (simp add: cells_wf_def tails_ok_def)
    show "r \<in> mc_seq_id (ks ! i) \<longleftrightarrow> 0 \<le> r \<and> r < int (length ks) \<and> mc_tail (ks ! nat r) = int i"
      using iff q nth[OF i] nth[of "nat r"] by (auto split: if_splits)
  qed
  ultimately show "cells_wf ks" using wf by (simp add: cells_wf_def)
  show "cells_pos ks = (\<lambda>r. if r = q then cells_pos cs q else None)"
  proof
    fix r show "cells_pos ks r = (if r = q then cells_pos cs q else None)"
      using q nth cells_wf_tail[OF wf q] by (auto simp: cells_pos_def split: if_splits)
  qed
  let ?A = "filter (\<lambda>i. mc_seq_id (cs ! i) \<noteq> {}) [0..<length cs]"
  have k1: "filter (\<lambda>i. mc_seq_id (ks ! i) \<noteq> {}) [0..<length cs] = filter (\<lambda>i. int q \<in> mc_seq_id (cs ! i)) ?A"
    unfolding filter_filter by (rule filter_cong) (auto simp: nth)
  have k2: "filter (\<lambda>i. int q \<notin> mc_seq_id (cs ! i) \<and> 0 \<le> mc_pos (cs ! i)) [0..<length cs] = filter (\<lambda>i. \<not> int q \<in> mc_seq_id (cs ! i)) ?A"
    unfolding filter_filter by (rule filter_cong) (use nonempty in auto)
  have k3: "length (filter (\<lambda>i. int q \<in> mc_seq_id (cs ! i)) ?A) + length (filter (\<lambda>i. \<not> int q \<in> mc_seq_id (cs ! i)) ?A) = length ?A"
    by (rule sum_length_filter_compl)
  show "n_nonempty ks = n_nonempty cs - length (filter (\<lambda>i. int q \<notin> mc_seq_id (cs ! i) \<and> 0 \<le> mc_pos (cs ! i)) [0..<length cs])"
    "length (filter (\<lambda>i. int q \<notin> mc_seq_id (cs ! i) \<and> 0 \<le> mc_pos (cs ! i)) [0..<length cs]) \<le> n_nonempty cs"
    unfolding n_nonempty_upto len k1 k2 using k3 by linarith+
qed

lemma rs_seq_keep_ok:
  assumes wf: "rs_wf m" and q: "q < rs_size m"
  shows "\<exists>m'. rs_seq_keep (int q) m = Some m' \<and> rs_wf m' \<and> rs_size m' = rs_size m \<and> rs_pos m' = (\<lambda>r. if r = q then rs_pos m q else None)"
proof -
  note d = rs_wfD[OF wf]
  let ?n = "rs_size m" and ?cs = "rs_cells m"
  have q': "q < length ?cs" using q d(1) by simp
  note k = keep_cells_wf[OF d(4) q', unfolded d(1)]
  obtain u h where uh: "fold (\<lambda>i. keep_acc ?n (int q) i (?cs ! i)) [0..<?n] (rs_used m, ?n) = (u, h)" by fastforce
  have u: "u = n_nonempty (map (\<lambda>i. keep_cell (int q) i (?cs ! i)) [0..<?n])"
    using keep_acc_used[of "int q" ?cs "[0..<?n]" "rs_used m" ?n ?n] k(3,4) uh d(3) by simp
  let ?m = "m\<lparr>rs_cells := map (\<lambda>i. keep_cell (int q) i (?cs ! i)) [0..<?n], rs_used := u, rs_head := new_head_min ?n h (rs_head m)\<rparr>"
  have "rs_seq_keep (int q) m = Some ?m" using rs_keep_loop[OF d(1)] uh by (simp add: rs_seq_keep_def)
  moreover have "rs_wf ?m" using k(1) u d by (simp add: rs_wf_def rs_head_min_le)
  ultimately show ?thesis using k(2) by (simp add: rs_pos_def cong: if_cong)
qed

subsection \<open>clear, seq\_add and construction\<close>

lemma cells_wf_blank:
  assumes "int (length cs) \<le> INT32_MAX" "\<forall>c \<in> set cs. mc_tail c = -1 \<and> mc_seq_id c = {} \<and> mc_pos c = -1 \<and> mc_src c = -1"
  shows "cells_wf cs" "cells_pos cs = (\<lambda>_. None)" "n_nonempty cs = 0"
  using assms by (auto simp: cells_wf_def mc_ok_def tails_ok_def cells_pos_def n_nonempty_def fun_eq_iff nat_less_iff)

lemma rs_new_ok: "int n \<le> INT32_MAX \<Longrightarrow> rs_wf (rs_new n) \<and> rs_size (rs_new n) = n \<and> rs_pos (rs_new n) = (\<lambda>_. None)"
  using cells_wf_blank[of "replicate n mc_new"] by (auto simp: rs_wf_def rs_new_def rs_pos_def mc_new_def)

lemma rs_clear_ok: "rs_wf m \<Longrightarrow> rs_wf (rs_clear m) \<and> rs_size (rs_clear m) = rs_size m \<and> rs_pos (rs_clear m) = (\<lambda>_. None)"
  using cells_wf_blank[of "rs_cells (rs_clear m)"] by (auto simp: rs_wf_def rs_clear_def rs_pos_def cells_wf_def)

text \<open>\<^verbatim>\<open>seq_add\<close> moves the whole tail cell, so the sequences that share it move together.\<close>

definition rs_shares :: "rs_mem \<Rightarrow> nat \<Rightarrow> nat \<Rightarrow> bool" where
  "rs_shares m q r \<longleftrightarrow> r < rs_size m \<and> mc_tail (rs_cells m ! r) = mc_tail (rs_cells m ! q)"

lemma cells_wf_set_pos:
  assumes wf: "cells_wf cs" and t: "t < length cs" "mc_seq_id (cs ! t) \<noteq> {}" and p: "0 \<le> p" "p \<le> INT32_MAX"
  shows "cells_wf (cs[t := (cs ! t)\<lparr>mc_pos := p\<rparr>])"
    "cells_pos (cs[t := (cs ! t)\<lparr>mc_pos := p\<rparr>]) r = (if r < length cs \<and> mc_tail (cs ! r) = int t then Some p else cells_pos cs r)"
    "n_nonempty (cs[t := (cs ! t)\<lparr>mc_pos := p\<rparr>]) = n_nonempty cs"
proof -
  let ?d = "cs[t := (cs ! t)\<lparr>mc_pos := p\<rparr>]"
  have n: "mc_seq_id (?d ! i) = mc_seq_id (cs ! i)" "mc_tail (?d ! i) = mc_tail (cs ! i)" "mc_src (?d ! i) = mc_src (cs ! i)"
    "mc_pos (?d ! i) = (if i = t then p else mc_pos (cs ! i))" if "i < length cs" for i
    using that t(1) by (auto simp: nth_list_update)
  have "mc_ok (length ?d) i (?d ! i)" if "i < length cs" for i
  proof -
    have "mc_ok (length cs) i (cs ! i)" using wf that by (simp add: cells_wf_def)
    then show ?thesis unfolding mc_ok_def n[OF that] using t p by (auto split: if_splits)
  qed
  moreover have "tails_ok ?d"
    unfolding tails_ok_def
  proof (intro allI impI)
    fix i r assume "i < length ?d"
    then have i: "i < length cs" by simp
    have "r \<in> mc_seq_id (cs ! i) \<longleftrightarrow> 0 \<le> r \<and> r < int (length cs) \<and> mc_tail (cs ! nat r) = int i" using wf i by (simp add: cells_wf_def tails_ok_def)
    then show "r \<in> mc_seq_id (?d ! i) \<longleftrightarrow> 0 \<le> r \<and> r < int (length ?d) \<and> mc_tail (?d ! nat r) = int i"
      using n(2)[of "nat r"] n(1)[OF i] by (auto simp: nat_less_iff)
  qed
  ultimately show "cells_wf ?d" using wf by (simp add: cells_wf_def)
  show "cells_pos ?d r = (if r < length cs \<and> mc_tail (cs ! r) = int t then Some p else cells_pos cs r)"
    using n(2)[of r] n(4) cells_wf_tail(1)[OF wf, of r] by (auto simp: cells_pos_def nat_eq_iff)
  show "n_nonempty ?d = n_nonempty cs" by (rule n_nonempty_cong) (use n(1) in auto)
qed

lemma rs_move_ok:
  assumes wf: "rs_wf m" and q: "q < rs_size m"
    and f: "\<And>p. rs_pos m q = Some p \<Longrightarrow> p0 \<le> p \<Longrightarrow> p < p1 \<Longrightarrow> f p = Some (g p) \<and> 0 \<le> g p \<and> g p \<le> INT32_MAX"
  shows "\<exists>m'. rs_move_tail f (int q) p0 p1 m = Some m' \<and> rs_wf m' \<and> rs_size m' = rs_size m \<and>
    (\<forall>r. rs_pos m' r = (if rs_shares m q r then map_option (\<lambda>p. if p0 \<le> p \<and> p < p1 then g p else p) (rs_pos m r) else rs_pos m r))"
proof -
  note d = rs_wfD[OF wf]
  let ?cs = "rs_cells m"
  have q': "q < length ?cs" using q d(1) by simp
  have same: "rs_pos m r = rs_pos m q" if "rs_shares m q r" for r using that q d(1) by (simp add: rs_shares_def rs_pos_def cells_pos_def)
  show ?thesis
  proof (cases "rs_pos m q")
    case None
    then have "rs_move_tail f (int q) p0 p1 m = Some m" using rs_pos_tail[OF wf q] q q' by (simp add: rs_move_tail_def)
    then show ?thesis using wf same None by auto
  next
    case (Some p)
    define t where "t = nat (mc_tail (?cs ! q))"
    have "0 \<le> mc_tail (?cs ! q)" using rs_pos_tail[OF wf q] Some by simp
    then have t: "mc_tail (?cs ! q) = int t" "t < length ?cs" "int q \<in> mc_seq_id (?cs ! t)" "p = mc_pos (?cs ! t)"
      using cells_wf_tail[OF d(4) q'] Some by (auto simp: t_def rs_pos_def cells_pos_def split: if_splits)
    show ?thesis
    proof (cases "p0 \<le> p \<and> p < p1")
      case False
      then have "rs_move_tail f (int q) p0 p1 m = Some m" using t q q' by (auto simp: rs_move_tail_def)
      then show ?thesis using wf same Some False by auto
    next
      case True
      note g = f[OF Some] 
      have ne: "mc_seq_id (?cs ! t) \<noteq> {}" using t(3) by auto
      have gp: "0 \<le> g p" "g p \<le> INT32_MAX" "f p = Some (g p)" using g True by auto
      note w = cells_wf_set_pos[OF d(4) t(2) ne gp(1,2)]
      let ?m = "m\<lparr>rs_cells := ?cs[t := (?cs ! t)\<lparr>mc_pos := g p\<rparr>]\<rparr>"
      have "rs_move_tail f (int q) p0 p1 m = Some ?m" using True t q q' gp(3) by (simp add: rs_move_tail_def)
      moreover have "rs_wf ?m" using w(1,3) d by (simp add: rs_wf_def)
      moreover have "rs_pos ?m r = (if rs_shares m q r then map_option (\<lambda>p. if p0 \<le> p \<and> p < p1 then g p else p) (rs_pos m r) else rs_pos m r)" for r
        using same[of r] Some True w(2) t(1) d(1) by (auto simp: rs_pos_def rs_shares_def)
      ultimately show ?thesis by auto
    qed
  qed
qed

end
