(* ===== verification/Recurrent_Slot.thy ===== *)
theory Recurrent_Slot
  imports Recurrent_Seq
begin

text \<open>
  \<^verbatim>\<open>find_slot\<close> for a micro-batch of one sequence in a well-formed memory: it succeeds, gives the sequence a cell of its own and names the cell
  with the state to start from.
\<close>

definition one_seq_ub :: "nat \<Rightarrow> int \<Rightarrow> llama_ubatch \<Rightarrow> bool" where
  "one_seq_ub q p ub \<longleftrightarrow> ub_equal_seqs ub \<and> ub_n_seqs ub = 1 \<and> 0 < ub_n_seq_tokens ub \<and> ub_n_seq_tokens ub \<le> length (ub_pos ub) \<and>
     ub_pos ub ! (ub_n_seq_tokens ub - 1) = p \<and> 0 < length (ub_n_seq_id ub) \<and> ub_n_seq_id ub ! 0 = 1 \<and>
     0 < length (ub_seq_id ub) \<and> ub_seq_id ub ! 0 = [int q]"

subsection \<open>The search for an empty cell\<close>

lemma empty_cell_exists:
  assumes wf: "cells_wf cs" and q: "q < length cs" and not_own: "\<And>t. mc_tail (cs ! q) = int t \<Longrightarrow> mc_seq_id (cs ! t) \<noteq> {int q}"
  shows "\<exists>i < length cs. mc_seq_id (cs ! i) = {}"
proof (rule ccontr)
  assume "\<not> ?thesis"
  then have full: "mc_seq_id (cs ! i) \<noteq> {}" if "i < length cs" for i using that by blast
  let ?f = "\<lambda>r. nat (mc_tail (cs ! r))"
  have surj: "\<exists>r < length cs. mc_tail (cs ! r) = int i" if "i < length cs" for i
  proof -
    obtain r where "r \<in> mc_seq_id (cs ! i)" using full[OF \<open>i < length cs\<close>] by blast
    then show ?thesis using cells_wf_seq[OF wf \<open>i < length cs\<close>] by (intro exI[of _ "nat r"]) (auto simp: nat_less_iff)
  qed
  have "{..<length cs} \<subseteq> ?f ` {..<length cs}" using surj by (force simp: image_iff)
  then have inj: "inj_on ?f {..<length cs}" by (intro finite_surj_inj) auto
  have t: "0 \<le> mc_tail (cs ! q)"
  proof (rule ccontr)
    assume neg: "\<not> ?thesis"
    obtain r where r: "r < length cs" "mc_tail (cs ! r) = 0" using surj[of 0] q by (cases cs) auto
    then have "r = q" using inj neg q by (auto simp: inj_on_def)
    then show False using neg r by simp
  qed
  have "r = int q" if r: "r \<in> mc_seq_id (cs ! ?f q)" for r
  proof -
    have "nat r < length cs" "0 \<le> r" "mc_tail (cs ! nat r) = mc_tail (cs ! q)" using cells_wf_seq[OF wf _ r] cells_wf_tail(1)[OF wf q t] t by auto
    then have "nat r = q" using inj q by (auto dest!: inj_onD[of _ _ "nat r" q])
    then show ?thesis using \<open>0 \<le> r\<close> by simp
  qed
  then have "mc_seq_id (cs ! ?f q) = {int q}" using cells_wf_tail(2)[OF wf q t] by blast
  then show False using not_own[of "?f q"] t by simp
qed

lemma fs_first_empty_total:
  assumes "length cs = n" "0 < n" "k \<le> n"
  shows "\<exists>c. fs_first_empty n i cs k = Some c"
  using assms by (induction i arbitrary: k) (auto simp: Let_def)

lemma fs_first_empty_finds:
  assumes "length cs = n" "0 < n" "k \<le> n" "\<exists>j < i. mc_is_empty (cs ! ((k + j) mod n))"
  shows "\<exists>c < n. fs_first_empty n i cs k = Some c \<and> mc_is_empty (cs ! c)"
  using assms(3,4)
proof (induction i arbitrary: k)
  case (Suc i)
  define k' where "k' = (if k \<ge> n then k - n else k)"
  have k': "k' < n" "k' = k mod n" using Suc.prems(1) assms(2) by (auto simp: k'_def le_less)
  show ?case
  proof (cases "mc_is_empty (cs ! k')")
    case True
    then show ?thesis using k' assms(1) by (auto simp: k'_def[symmetric])
  next
    case False
    obtain j where j: "j < Suc i" "mc_is_empty (cs ! ((k + j) mod n))" using Suc.prems(2) by blast
    have "j \<noteq> 0" using j(2) False k'(2) by (cases j) auto
    then obtain l where l: "j = Suc l" by (cases j) auto
    have "(k' + 1 + l) mod n = (k + j) mod n" unfolding k'(2) l using mod_add_left_eq[of k n "Suc l"] by simp
    then have "\<exists>l < i. mc_is_empty (cs ! ((k' + 1 + l) mod n))" using j l by (intro exI[of _ l]) simp
    then obtain c where "c < n" "fs_first_empty n i cs (k' + 1) = Some c" "mc_is_empty (cs ! c)" using Suc.IH[of "k' + 1"] k'(1) by auto
    then show ?thesis using False k' assms(1) by (simp add: k'_def[symmetric])
  qed
qed simp

lemma fs_first_empty_ok:
  assumes "length cs = n" "k \<le> n" "e < n" "mc_is_empty (cs ! e)"
  shows "\<exists>c < n. fs_first_empty n n cs k = Some c \<and> mc_is_empty (cs ! c)"
proof -
  let ?j = "(e + n - k mod n) mod n"
  have "k mod n < n" using assms(3) by simp
  have "(k + ?j) mod n = (k mod n + (e + n - k mod n)) mod n"
    using mod_add_eq[of k n "e + n - k mod n"] mod_add_left_eq[of k n "e + n - k mod n"] mod_add_right_eq[of k "e + n - k mod n" n] by metis
  also have "k mod n + (e + n - k mod n) = e + n" using \<open>k mod n < n\<close> by linarith
  also have "(e + n) mod n = e" using assms(3) by simp
  finally show ?thesis using assms by (intro fs_first_empty_finds exI[of _ ?j]) auto
qed

subsection \<open>The cells after the search\<close>

text \<open>Cell \<open>c\<close> becomes the cell of sequence \<open>q\<close> alone, at position \<open>p\<close>.\<close>

definition slot_cells :: "nat \<Rightarrow> nat \<Rightarrow> int \<Rightarrow> mem_cell list \<Rightarrow> mem_cell list \<Rightarrow> bool" where
  "slot_cells q c p cs ds \<longleftrightarrow> length ds = length cs \<and> (\<forall>i < length cs.
     mc_seq_id (ds ! i) = (if i = c then {int q} else mc_seq_id (cs ! i) - {int q}) \<and> mc_tail (ds ! i) = (if i = q then int c else mc_tail (cs ! i)) \<and>
     mc_pos (ds ! i) = (if i = c then p else mc_pos (cs ! i)) \<and> mc_src (ds ! i) = (if i = c then int c else mc_src (cs ! i)))"

lemma slot_cells_wf:
  assumes wf: "cells_wf cs" and ds: "slot_cells q c p cs ds" and q: "q < length cs" and c: "c < length cs" and p: "0 \<le> p" "p \<le> INT32_MAX"
    and only: "mc_seq_id (cs ! c) \<subseteq> {int q}" "\<And>i. i < length cs \<Longrightarrow> i \<noteq> c \<Longrightarrow> mc_seq_id (cs ! i) \<noteq> {int q}"
  shows "cells_wf ds" "cells_pos ds = (cells_pos cs)(q := Some p)"
    "\<forall>r < length cs. r \<noteq> q \<longrightarrow> mc_tail (ds ! r) = mc_tail (cs ! r) \<and> mc_tail (cs ! r) \<noteq> int c"
proof -
  have n: "mc_seq_id (ds ! i) = (if i = c then {int q} else mc_seq_id (cs ! i) - {int q})"
    "mc_tail (ds ! i) = (if i = q then int c else mc_tail (cs ! i))" "mc_pos (ds ! i) = (if i = c then p else mc_pos (cs ! i))"
    "mc_src (ds ! i) = (if i = c then int c else mc_src (cs ! i))" if "i < length cs" for i
    using ds that by (auto simp: slot_cells_def)
  have iff: "r \<in> mc_seq_id (cs ! i) \<longleftrightarrow> 0 \<le> r \<and> r < int (length cs) \<and> mc_tail (cs ! nat r) = int i" if "i < length cs" for i r
    using wf that by (simp add: cells_wf_def tails_ok_def)
  have other: "mc_tail (cs ! r) \<noteq> int c" if "r < length cs" "r \<noteq> q" for r
    using iff[OF c, of "int r"] only(1) that by auto
  have l: "length ds = length cs" using ds by (simp add: slot_cells_def)
  have "mc_ok (length ds) i (ds ! i)" if i: "i < length cs" for i
  proof -
    have "mc_ok (length cs) i (cs ! i)" using wf i by (simp add: cells_wf_def)
    then show ?thesis unfolding mc_ok_def n[OF i] l using only(2)[OF i] p c by (auto split: if_splits)
  qed
  moreover have "tails_ok ds"
    unfolding tails_ok_def l
  proof (intro allI impI)
    fix i r assume i: "i < length cs"
    show "r \<in> mc_seq_id (ds ! i) \<longleftrightarrow> 0 \<le> r \<and> r < int (length cs) \<and> mc_tail (ds ! nat r) = int i"
    proof (cases "0 \<le> r \<and> r < int (length cs)")
      case True
      then have r: "nat r < length cs" by linarith
      then show ?thesis using iff[OF i, of r] True other[OF r] q unfolding n(1)[OF i] n(2)[OF r] by (auto simp: nat_eq_iff)
    qed (use iff[OF i, of r] n(1)[OF i] q in auto)
  qed
  ultimately show "cells_wf ds" using wf l by (simp add: cells_wf_def)
  show "cells_pos ds = (cells_pos cs)(q := Some p)"
  proof
    fix r show "cells_pos ds r = ((cells_pos cs)(q := Some p)) r"
      using q c n(2,3) other[of r] cells_wf_tail(1)[OF wf, of r] l by (auto simp: cells_pos_def nat_eq_iff split: if_splits)
  qed
  show "\<forall>r < length cs. r \<noteq> q \<longrightarrow> mc_tail (ds ! r) = mc_tail (cs ! r) \<and> mc_tail (cs ! r) \<noteq> int c" using n(2) other by simp
qed

lemma refcounts_step:
  "\<forall>c \<in> set xs. mc_src c < int (length rc) \<Longrightarrow>
    \<exists>rc'. for_each (\<lambda>c rc. if mc_src c \<ge> 0 then do { k \<leftarrow> vec_at rc (nat (mc_src c)); vec_set (nat (mc_src c)) (k + 1) rc } else Some rc) xs rc = Some rc' \<and>
      length rc' = length rc \<and> (\<forall>j < length rc. rc' ! j = rc ! j + length (filter (\<lambda>c. mc_src c = int j) xs))"
proof (induction xs arbitrary: rc)
  case (Cons c xs)
  show ?case
  proof (cases "mc_src c \<ge> 0")
    case True
    let ?rc = "rc[nat (mc_src c) := rc ! nat (mc_src c) + 1]"
    obtain rc' where "for_each (\<lambda>c rc. if mc_src c \<ge> 0 then do { k \<leftarrow> vec_at rc (nat (mc_src c)); vec_set (nat (mc_src c)) (k + 1) rc } else Some rc) xs ?rc = Some rc'"
      "length rc' = length rc" "\<forall>j < length rc. rc' ! j = ?rc ! j + length (filter (\<lambda>c. mc_src c = int j) xs)"
      using Cons.IH[of ?rc] Cons.prems by auto
    moreover have "nat (mc_src c) < length rc" using True Cons.prems by auto
    ultimately show ?thesis using True by (auto simp: nth_list_update nat_eq_iff)
  next
    case False
    then show ?thesis using Cons.IH[of rc] Cons.prems by auto
  qed
qed simp

lemma fs_refcounts_ok:
  assumes "\<forall>c \<in> set cs. mc_src c < int (length cs)"
  shows "\<exists>rc. fs_refcounts cs = Some rc \<and> length rc = length cs \<and> (\<forall>j < length cs. rc ! j = 0 \<longleftrightarrow> (\<forall>c \<in> set cs. mc_src c \<noteq> int j))"
  using refcounts_step[of cs "replicate (length cs) 0"] assms by (auto simp: fs_refcounts_def filter_empty_conv)

subsection \<open>The stages of find\_slot for one sequence\<close>

lemma one_seq_at: "one_seq_ub q p ub \<Longrightarrow> ub_seq_at ub 0 0 = Some (int q)"
  by (simp add: one_seq_ub_def ub_seq_at_def)

lemma fs_check_one: "one_seq_ub q p ub \<Longrightarrow> q < rs_size m \<Longrightarrow> fs_check ub m = Some (True, m)"
  using one_seq_at[of q p ub] by (simp add: fs_check_def one_seq_ub_def)

lemma fs_take_one:
  assumes one: "one_seq_ub q p ub" and wf: "cells_wf cs" and n: "length cs = n" and q: "q < n"
    and e: "(\<forall>t. mc_tail (cs ! q) = int t \<longrightarrow> mc_seq_id (cs ! t) \<noteq> {int q}) \<longrightarrow> e < n \<and> mc_is_empty (cs ! e)"
  shows "\<exists>ds e' c. fs_take ub n 0 (cs, e, int n - 1, 0) = Some (ds, e', int c, int c) \<and> length ds = n \<and> c < n \<and>
    mc_seq_id (cs ! c) \<subseteq> {int q} \<and> (\<forall>i < n. i \<noteq> c \<longrightarrow> mc_seq_id (cs ! i) \<noteq> {int q}) \<and> mc_src (ds ! c) = mc_tail (cs ! q) \<and>
    (\<forall>i < n. mc_tail (ds ! i) = (if i = q then int c else mc_tail (cs ! i))) \<and>
    (\<forall>i < n. i \<noteq> c \<longrightarrow> mc_seq_id (ds ! i) = mc_seq_id (cs ! i) - {int q} \<and> mc_pos (ds ! i) = mc_pos (cs ! i) \<and> mc_src (ds ! i) = mc_src (cs ! i)) \<and>
    (c = e \<and> mc_is_empty (cs ! e) \<or> mc_tail (cs ! q) = int c)"
proof (cases "mc_tail (cs ! q) < 0")
  case True
  have "mc_seq_id (cs ! i) \<noteq> {int q}" "int q \<notin> mc_seq_id (cs ! i)" if "i < n" for i
    using cells_wf_seq(3)[OF wf, of i "int q"] that n True by auto
  moreover have "e < n \<and> mc_is_empty (cs ! e)" using e True by auto
  moreover have "mc_ok n e (cs ! e)" "mc_ok n q (cs ! q)" using calculation wf n q by (auto simp: cells_wf_def)
  ultimately show ?thesis
    using True one one_seq_at[OF one] n q
    by (intro exI[of _ "cs[q := (cs ! q)\<lparr>mc_tail := int e\<rparr>]"] exI[of _ e])
      (auto simp: fs_take_def one_seq_ub_def nth_list_update mc_is_empty_def mc_ok_def)
next
  case False
  define t where "t = nat (mc_tail (cs ! q))"
  have t: "mc_tail (cs ! q) = int t" "t < n" "int q \<in> mc_seq_id (cs ! t)"
    using cells_wf_tail[OF wf] q n False by (auto simp: t_def)
  have src: "mc_src (cs ! t) = int t" using wf t n by (auto simp: cells_wf_def mc_ok_def split: if_splits)
  have own: "int q \<in> mc_seq_id (cs ! i) \<longleftrightarrow> i = t" if "i < n" for i using cells_wf_seq(3)[OF wf, of i "int q"] that n t by auto
  show ?thesis
  proof (cases "mc_seq_id (cs ! t) = {int q}")
    case True
    then show ?thesis
      using one one_seq_at[OF one] n q t own src
      by (intro exI[of _ cs] exI[of _ e] exI[of _ t]) (auto simp: fs_take_def one_seq_ub_def)
  next
    case False
    then have e': "e < n" "mc_seq_id (cs ! e) = {}" using e t by (auto simp: mc_is_empty_def)
    have et: "e \<noteq> t" using e' t by auto
    have card: "card (mc_seq_id (cs ! t)) \<noteq> 1" using False t(3) by (auto simp: card_1_singleton_iff)
    let ?c1 = "cs[e := (cs ! e)\<lparr>mc_pos := mc_pos (cs ! t), mc_src := mc_src (cs ! t), mc_seq_id := {int q}\<rparr>,
      t := (cs ! t)\<lparr>mc_seq_id := mc_seq_id (cs ! t) - {int q}\<rparr>]"
    have "mc_seq_id (cs ! t) - {int q} \<noteq> {}" using False t(3) by auto
    then have "fs_take ub n 0 (cs, e, int n - 1, 0) = Some (?c1[q := (?c1 ! q)\<lparr>mc_tail := int e\<rparr>], e, int e, int e)"
      using one one_seq_at[OF one] n q t card e' et by (simp add: fs_take_def one_seq_ub_def mc_is_empty_def)
    moreover have "mc_seq_id (cs ! i) \<noteq> {int q}" if "i < n" for i using own[OF that] False by auto
    moreover have "mc_seq_id (cs ! i) - {int q} = mc_seq_id (cs ! i)" if "i < n" "i \<noteq> t" for i using own[OF that(1)] that(2) by auto
    ultimately show ?thesis
      using n q t e' et src by (intro exI[of _ "?c1[q := (?c1 ! q)\<lparr>mc_tail := int e\<rparr>]"] exI[of _ e]) (auto simp: nth_list_update mc_is_empty_def)
  qed
qed

lemma fs_update_one:
  assumes "one_seq_ub q p ub" "q < length cs" "c < length cs"
  shows "\<exists>ds. fs_update ub (int c) 0 cs = Some ds \<and> length ds = length cs \<and>
    (\<forall>i < length cs. mc_seq_id (ds ! i) = (if i = c then {int q} else mc_seq_id (cs ! i)) \<and> mc_tail (ds ! i) = (if i = q then int c else mc_tail (cs ! i)) \<and>
      mc_pos (ds ! i) = (if i = c then p else mc_pos (cs ! i)) \<and> mc_src (ds ! i) = mc_src (cs ! i))"
  using assms one_seq_at[OF assms(1)] by (auto simp: fs_update_def one_seq_ub_def nth_list_update)

lemma fs_stage_one:
  assumes "c < length cs" "mc_src (cs ! c) < 0 \<Longrightarrow> 0 \<le> z"
  shows "fs_stage z c cs = Some (cs[c := (cs ! c)\<lparr>mc_src0 := if mc_src (cs ! c) < 0 then z else mc_src (cs ! c), mc_src := int c\<rparr>])"
  using assms by (simp add: fs_stage_def)

definition slot_spec :: "nat \<Rightarrow> int \<Rightarrow> nat \<Rightarrow> rs_mem \<Rightarrow> rs_mem \<Rightarrow> bool" where
  "slot_spec q p c m m' \<longleftrightarrow> rs_size m' = rs_size m \<and> rs_pos m' = (rs_pos m)(q := Some p) \<and> rs_n m' = 1 \<and> rs_head m' = c \<and> c < rs_size m \<and>
     mc_tail (rs_cells m' ! q) = int c \<and>
     (\<forall>r < rs_size m. r \<noteq> q \<longrightarrow> mc_tail (rs_cells m' ! r) = mc_tail (rs_cells m ! r) \<and> mc_tail (rs_cells m ! r) \<noteq> int c) \<and>
     rx_s_copy 0 m' = Some (if rs_pos m q = None then int c else mc_tail (rs_cells m ! q)) \<and>
     rs_z m' = (if mc_tail (rs_cells m ! q) = int c then -1 else int c)"

lemma find_slot_one_ok:
  assumes wf: "rs_wf m" and q: "q < rs_size m" and one: "one_seq_ub q p ub" and p: "0 \<le> p" "p \<le> INT32_MAX"
  shows "\<exists>m' c. rs_find_slot ub m = Some (True, m') \<and> rs_wf m' \<and> slot_spec q p c m m'"
proof -
  note d = rs_wfD[OF wf]
  let ?n = "rs_size m" and ?cs = "rs_cells m"
  define h where "h = (if rs_head m > (rs_used m + 2) mod 2 ^ 32 then 0 else rs_head m)"
  define m0 where "m0 = m\<lparr>rs_head := h\<rparr>"
  have m0: "(if rs_head m > (rs_used m + 2 * ub_n_seqs ub) mod 2 ^ 32 then m\<lparr>rs_head := 0\<rparr> else m) = m0"
    using one by (simp add: one_seq_ub_def m0_def h_def)
  have q': "q < length ?cs" and h: "h \<le> ?n" using q d by (auto simp: h_def)
  obtain e where e: "fs_first_empty ?n ?n ?cs h = Some e" using fs_first_empty_total[OF d(1) _ h, of ?n] q by auto
  have free: "(\<forall>t. mc_tail (?cs ! q) = int t \<longrightarrow> mc_seq_id (?cs ! t) \<noteq> {int q}) \<longrightarrow> e < ?n \<and> mc_is_empty (?cs ! e)"
  proof
    assume not_own: "\<forall>t. mc_tail (?cs ! q) = int t \<longrightarrow> mc_seq_id (?cs ! t) \<noteq> {int q}"
    obtain i where "i < ?n" "mc_is_empty (?cs ! i)" using empty_cell_exists[OF d(4) q'] not_own d(1) by (auto simp: mc_is_empty_def)
    then show "e < ?n \<and> mc_is_empty (?cs ! e)" using fs_first_empty_ok[OF d(1) h] e by auto
  qed
  obtain c1 e' c where take: "fs_take ub ?n 0 (?cs, e, int ?n - 1, 0) = Some (c1, e', int c, int c)" and len1: "length c1 = ?n" and c: "c < ?n"
    and only: "mc_seq_id (?cs ! c) \<subseteq> {int q}" "\<forall>i < ?n. i \<noteq> c \<longrightarrow> mc_seq_id (?cs ! i) \<noteq> {int q}" and src: "mc_src (c1 ! c) = mc_tail (?cs ! q)"
    and tail1: "\<forall>i < ?n. mc_tail (c1 ! i) = (if i = q then int c else mc_tail (?cs ! i))"
    and rest: "\<forall>i < ?n. i \<noteq> c \<longrightarrow> mc_seq_id (c1 ! i) = mc_seq_id (?cs ! i) - {int q} \<and> mc_pos (c1 ! i) = mc_pos (?cs ! i) \<and> mc_src (c1 ! i) = mc_src (?cs ! i)"
    using fs_take_one[OF one d(4,1) q free] by (elim exE conjE) (rule that; assumption)
  have gather: "fs_gather ub ?n (int c) 0 c1 = Some c1" using one_seq_at[OF one] tail1 q len1 by (simp add: fs_gather_def)
  obtain c2 where upd: "fs_update ub (int c) 0 c1 = Some c2" and len2: "length c2 = ?n"
    and n2: "\<forall>i < ?n. mc_seq_id (c2 ! i) = (if i = c then {int q} else mc_seq_id (c1 ! i)) \<and> mc_tail (c2 ! i) = (if i = q then int c else mc_tail (c1 ! i)) \<and>
      mc_pos (c2 ! i) = (if i = c then p else mc_pos (c1 ! i)) \<and> mc_src (c2 ! i) = mc_src (c1 ! i)"
    using fs_update_one[OF one, of c1 c] q c len1 by auto
  have ok: "mc_ok ?n i (?cs ! i)" if "i < ?n" for i using d that by (simp add: cells_wf_def)
  have srcs: "mc_src (c2 ! i) = (if i = c then mc_tail (?cs ! q) else mc_src (?cs ! i))" if "i < ?n" for i using n2 rest src that by auto
  have "mc_src (c2 ! i) < int ?n" if "i < ?n" for i using srcs[OF that] ok[OF that] ok[OF q] that by (auto simp: mc_ok_def split: if_splits)
  then have "\<forall>x \<in> set c2. mc_src x < int (length c2)" using len2 by (auto simp: in_set_conv_nth)
  then obtain rc where rc: "fs_refcounts c2 = Some rc" "length rc = ?n" "rc ! c = 0 \<longleftrightarrow> (\<forall>x \<in> set c2. mc_src x \<noteq> int c)"
    using fs_refcounts_ok[of c2] len2 c by auto
  have "mc_src (?cs ! i) \<noteq> int c" if "i < ?n" "i \<noteq> c" for i using ok[OF that(1)] that by (auto simp: mc_ok_def split: if_splits)
  then have "mc_src (c2 ! i) = int c \<longleftrightarrow> i = c \<and> mc_tail (?cs ! q) = int c" if "i < ?n" for i using srcs[OF that] that by simp
  then have rc0: "rc ! c = 0 \<longleftrightarrow> mc_tail (?cs ! q) \<noteq> int c" unfolding rc(3) all_set_conv_all_nth len2 using c by auto
  define z where "z = (if mc_tail (?cs ! q) = int c then -1 else int c)"
  have z: "fs_zero rc c c = z" using rc0 rc(2) c by (simp add: fs_zero_def z_def)
  let ?c3 = "c2[c := (c2 ! c)\<lparr>mc_src0 := if mc_src (c2 ! c) < 0 then z else mc_src (c2 ! c), mc_src := int c\<rparr>]"
  have stage: "fs_stage z c c2 = Some ?c3" by (rule fs_stage_one) (use srcs c len2 in \<open>auto simp: z_def\<close>)
  let ?m = "m0\<lparr>rs_cells := ?c3, rs_z := z, rs_head := c, rs_n := 1, rs_used := length (filter (\<lambda>c. \<not> mc_is_empty c) ?c3)\<rparr>"
  have n: "ub_n_seqs ub = 1" "ub_equal_seqs ub" using one by (auto simp: one_seq_ub_def)
  have f: "rs_cells m0 = ?cs" "rs_size m0 = ?n" "rs_head m0 = h" by (simp_all add: m0_def)
  have "rs_find_slot ub m = Some (True, ?m)"
    unfolding rs_find_slot_def bind.bind_lunit m0
    using fs_check_one[OF one, of m0] q c len2 by (simp add: f e take gather upd rc(1) z stage n)
  moreover have sc: "slot_cells q c p ?cs ?c3" using n2 rest tail1 len2 d(1) c by (auto simp: slot_cells_def nth_list_update)
  have c': "c < length ?cs" and only': "i < length ?cs \<Longrightarrow> i \<noteq> c \<Longrightarrow> mc_seq_id (?cs ! i) \<noteq> {int q}" for i using c only(2) d(1) by auto
  note w = slot_cells_wf[OF d(4) sc q' c' p only(1) only']
  have "rs_wf ?m" using w(1) c d(1) len2 by (simp add: rs_wf_def m0_def n_nonempty_def mc_is_empty_def)
  moreover have "slot_spec q p c m ?m"
    unfolding slot_spec_def
  proof (intro conjI)
    show "rs_pos ?m = (rs_pos m)(q := Some p)" using w(2) by (simp add: rs_pos_def)
    show "mc_tail (rs_cells ?m ! q) = int c" using sc q' by (simp add: slot_cells_def)
    show "\<forall>r < ?n. r \<noteq> q \<longrightarrow> mc_tail (rs_cells ?m ! r) = mc_tail (?cs ! r) \<and> mc_tail (?cs ! r) \<noteq> int c" using w(3) d(1) by simp
    show "rx_s_copy 0 ?m = Some (if rs_pos m q = None then int c else mc_tail (?cs ! q))"
      using srcs[OF c] c len2 rs_pos_tail[OF wf q] by (simp add: rx_s_copy_def z_def)
  qed (use c in \<open>simp_all add: m0_def z_def\<close>)
  ultimately show ?thesis by blast
qed

end
