(* ===== verification/Recurrent_Reach.thy ===== *)
theory Recurrent_Reach
  imports Recurrent_Slot KV_Slots
begin

text \<open>
  The reachable states of the recurrent memory and the properties of its operations.
\<close>

text \<open>
  The histories considered: construction; \<^verbatim>\<open>clear\<close>; \<^verbatim>\<open>seq_rm\<close>, \<^verbatim>\<open>seq_cp\<close> and \<^verbatim>\<open>seq_keep\<close> with ids of sequences that exist; \<^verbatim>\<open>seq_add\<close>
  that leaves the position of the sequence between 0 and the largest one; \<^verbatim>\<open>seq_div\<close> by a positive number; and \<^verbatim>\<open>find_slot\<close> for
  micro-batches of one sequence. Not considered: \<^verbatim>\<open>seq_rm\<close> of all sequences (a negative id), which leaves dangling tails as
  \<open>rs_rm_all_dangles\<close> below shows; a \<^verbatim>\<open>seq_add\<close> to a negative position or out of \<^verbatim>\<open>int32_t\<close>; a \<^verbatim>\<open>seq_div\<close> by a negative number;
  micro-batches of several sequences; and \<^verbatim>\<open>state_read\<close>.
\<close>

inductive rs_reach :: "nat \<Rightarrow> rs_mem \<Rightarrow> bool" for n where
  new: "int n \<le> INT32_MAX \<Longrightarrow> rs_reach n (rs_new n)"
| clear: "rs_reach n m \<Longrightarrow> rs_reach n (rs_clear m)"
| rm: "rs_reach n m \<Longrightarrow> q < n \<Longrightarrow> rs_seq_rm (int q) p0 p1 m = Some (ok, m') \<Longrightarrow> rs_reach n m'"
| cp: "rs_reach n m \<Longrightarrow> a < n \<Longrightarrow> b < n \<Longrightarrow> rs_seq_cp (int a) (int b) p0 p1 m = Some m' \<Longrightarrow> rs_reach n m'"
| keep: "rs_reach n m \<Longrightarrow> q < n \<Longrightarrow> rs_seq_keep (int q) m = Some m' \<Longrightarrow> rs_reach n m'"
| add: "rs_reach n m \<Longrightarrow> q < n \<Longrightarrow> \<forall>p. rs_pos m q = Some p \<longrightarrow> 0 \<le> p + d \<and> p + d \<le> INT32_MAX \<Longrightarrow>
    rs_seq_add (int q) p0 p1 d m = Some m' \<Longrightarrow> rs_reach n m'"
| div: "rs_reach n m \<Longrightarrow> q < n \<Longrightarrow> 0 < d \<Longrightarrow> rs_seq_div (int q) p0 p1 d m = Some m' \<Longrightarrow> rs_reach n m'"
| slot: "rs_reach n m \<Longrightarrow> q < n \<Longrightarrow> one_seq_ub q p ub \<Longrightarrow> 0 \<le> p \<Longrightarrow> p \<le> INT32_MAX \<Longrightarrow>
    rs_find_slot ub m = Some (ok, m') \<Longrightarrow> rs_reach n m'"

lemma rs_add_ok:
  assumes wf: "rs_wf m" and q: "q < rs_size m" and d: "\<forall>p. rs_pos m q = Some p \<longrightarrow> 0 \<le> p + d \<and> p + d \<le> INT32_MAX"
  shows "\<exists>m'. rs_seq_add (int q) p0 p1 d m = Some m' \<and> rs_wf m' \<and> rs_size m' = rs_size m \<and>
    (\<forall>r. rs_pos m' r = (if rs_shares m q r then map_option (\<lambda>p. if norm_p0 p0 \<le> p \<and> p < norm_p1 p1 then p + d else p) (rs_pos m r) else rs_pos m r))"
proof (cases "d = 0 \<or> norm_p0 p0 = norm_p1 p1")
  case True
  then have "rs_seq_add (int q) p0 p1 d m = Some m" by (auto simp: rs_seq_add_def)
  moreover have "(if norm_p0 p0 \<le> p \<and> p < norm_p1 p1 then p + d else p) = p" for p using True by auto
  ultimately show ?thesis using wf by (simp add: option.map_ident)
next
  case False
  have "\<exists>m'. rs_move_tail (\<lambda>p. do { cpp_assert (i32_ok (p + d)); Some (p + d) }) (int q) (norm_p0 p0) (norm_p1 p1) m = Some m' \<and> rs_wf m' \<and>
      rs_size m' = rs_size m \<and> (\<forall>r. rs_pos m' r = (if rs_shares m q r
        then map_option (\<lambda>p. if norm_p0 p0 \<le> p \<and> p < norm_p1 p1 then p + d else p) (rs_pos m r) else rs_pos m r))"
    by (rule rs_move_ok[OF wf q]) (use d in \<open>auto simp: i32_ok_def\<close>)
  then show ?thesis using False by (simp add: rs_seq_add_def)
qed

lemma rs_pos_range: "rs_wf m \<Longrightarrow> rs_pos m q = Some p \<Longrightarrow> 0 \<le> p \<and> p \<le> INT32_MAX"
  using rs_wfD[of m] cells_wf_tail[of "rs_cells m" q]
  by (auto simp: rs_pos_def cells_pos_def cells_wf_def mc_ok_def split: if_splits)

lemma rs_div_ok:
  assumes wf: "rs_wf m" and q: "q < rs_size m" and d: "0 < d"
  shows "\<exists>m'. rs_seq_div (int q) p0 p1 d m = Some m' \<and> rs_wf m' \<and> rs_size m' = rs_size m"
proof (cases "d = 1 \<or> norm_p0 p0 = norm_p1 p1")
  case True
  then show ?thesis using wf by (auto simp: rs_seq_div_def)
next
  case False
  have "trunc_div p d = p div d \<and> 0 \<le> p div d \<and> p div d \<le> INT32_MAX" if "rs_pos m q = Some p" for p
  proof -
    have p: "0 \<le> p" "p \<le> INT32_MAX" using rs_pos_range[OF wf that] by auto
    then have "p div d \<le> p" using d zdiv_mono2[of p 1 d] by simp
    then show ?thesis using p d by (cases "p = 0") (simp_all add: trunc_div_def pos_imp_zdiv_nonneg_iff)
  qed
  then have "\<exists>m'. rs_move_tail (\<lambda>p. do { cpp_assert (d \<noteq> 0); Some (trunc_div p d) }) (int q) (norm_p0 p0) (norm_p1 p1) m = Some m' \<and> rs_wf m' \<and>
      rs_size m' = rs_size m \<and> (\<forall>r. rs_pos m' r = (if rs_shares m q r
        then map_option (\<lambda>p. if norm_p0 p0 \<le> p \<and> p < norm_p1 p1 then p div d else p) (rs_pos m r) else rs_pos m r))"
    by (intro rs_move_ok[OF wf q]) (use d in auto)
  then show ?thesis using False by (auto simp: rs_seq_div_def)
qed

lemma rs_reach_wf: "rs_reach n m \<Longrightarrow> rs_wf m \<and> rs_size m = n"
proof (induction rule: rs_reach.induct)
  case (rm m q p0 p1 ok m')
  then show ?case using rs_seq_rm_ok[of m q p0 p1] by auto
next
  case (cp m a b p0 p1 m')
  then show ?case using rs_seq_cp_ok[of m a b p0 p1] by auto
next
  case (keep m q m')
  then show ?case using rs_seq_keep_ok[of m q] by auto
next
  case (add m q d p0 p1 m')
  then show ?case using rs_add_ok[of m q d p0 p1] by auto
next
  case (div m q d p0 p1 m')
  then show ?case using rs_div_ok[of m q d p0 p1] by auto
next
  case (slot m q p ub ok m')
  then show ?case using find_slot_one_ok[of m q p ub] by (auto simp: slot_spec_def)
qed (use rs_new_ok rs_clear_ok in auto)

lemma rs_pos_SomeE:
  assumes wf: "rs_wf m" and "rs_pos m q = Some p"
  obtains t where "mc_tail (rs_cells m ! q) = int t" "t < rs_size m" "int q \<in> mc_seq_id (rs_cells m ! t)" "p = mc_pos (rs_cells m ! t)" "0 \<le> p"
proof -
  note d = rs_wfD[OF wf]
  have q: "q < length (rs_cells m)" "0 \<le> mc_tail (rs_cells m ! q)" "p = mc_pos (rs_cells m ! nat (mc_tail (rs_cells m ! q)))"
    using assms(2) by (auto simp: rs_pos_def cells_pos_def split: if_splits)
  then show thesis using that[of "nat (mc_tail (rs_cells m ! q))"] cells_wf_tail[OF d(4) q(1,2)] d(1) by auto
qed

lemma rs_pos_max_eq:
  assumes wf: "rs_wf m" and q: "q < rs_size m"
  shows "rs_seq_pos_max (int q) m = (case rs_pos m q of None \<Rightarrow> -1 | Some p \<Rightarrow> p)"
proof -
  note d = rs_wfD[OF wf]
  let ?g = "\<lambda>i r. if int q \<in> mc_seq_id (rs_cells m ! i) then max r (mc_pos (rs_cells m ! i)) else r"
  have "fold (\<lambda>c r. if int q \<in> mc_seq_id c then max r (mc_pos c) else r) (map ((!) (rs_cells m)) [0..<rs_size m]) (-1) = fold ?g [0..<rs_size m] (-1)"
    by (simp add: fold_map comp_def)
  then have eq: "rs_seq_pos_max (int q) m = fold ?g [0..<rs_size m] (-1)" using d(1) map_nth[of "rs_cells m"] by (simp add: rs_seq_pos_max_def)
  show ?thesis
  proof (cases "rs_pos m q")
    case None
    then have "int q \<notin> mc_seq_id (rs_cells m ! i)" if "i < rs_size m" for i
      using cells_wf_seq(3)[OF d(4), of i "int q"] rs_pos_tail[OF wf q] that d(1) by auto
    then have "fold ?g [0..<rs_size m] (-1) = -1" by (intro fold_none) auto
    then show ?thesis using eq None by simp
  next
    case (Some p)
    obtain t where t: "mc_tail (rs_cells m ! q) = int t" "t < rs_size m" "int q \<in> mc_seq_id (rs_cells m ! t)" "p = mc_pos (rs_cells m ! t)" "0 \<le> p"
      using rs_pos_SomeE[OF wf Some] .
    have own: "int q \<in> mc_seq_id (rs_cells m ! i) \<Longrightarrow> i < rs_size m \<Longrightarrow> i = t" for i
      using cells_wf_seq(3)[OF d(4), of i "int q"] t(1) d(1) by simp
    have "fold ?g [0..<rs_size m] (-1) = ?g t (-1)"
      using t(2) own by (intro fold_one[where g = ?g]) auto
    then show ?thesis using eq t Some by simp
  qed
qed

text \<open>\<^verbatim>\<open>seq_rm\<close> of all sequences empties the cells but not the tails.\<close>

definition wipe_cell :: "mem_cell \<Rightarrow> mem_cell" where
  "wipe_cell c = (if 0 \<le> mc_pos c \<and> mc_pos c < INT32_MAX then c\<lparr>mc_seq_id := {}, mc_pos := -1, mc_src := -1\<rparr> else c)"

lemma rs_rm_all:
  assumes "length (rs_cells m) = rs_size m"
  shows "\<exists>u h. rs_seq_rm (-1) (-1) (-1) m = Some (True, m\<lparr>rs_cells := map wipe_cell (rs_cells m), rs_used := u, rs_head := new_head_min (rs_size m) h (rs_head m)\<rparr>)"
proof -
  let ?g = "\<lambda>i c (u, h). if 0 \<le> mc_pos c \<and> mc_pos c < INT32_MAX then (u32_dec u, if h = rs_size m then i else h) else (u, h)"
  have "for_each (rs_rm_body (rs_size m) (-1) 0 INT32_MAX) [0..<rs_size m] (rs_cells m, rs_used m, rs_size m) =
      Some (map wipe_cell (rs_cells m), fold (\<lambda>i. ?g i (rs_cells m ! i)) [0..<rs_size m] (rs_used m, rs_size m))"
    by (rule for_each_rewrite[where C = "\<lambda>xs. xs" and P = "\<lambda>_. True"])
      (use assms in \<open>auto simp: rs_rm_body_def wipe_cell_def Let_def mc_is_empty_def split: prod.splits\<close>)
  then show ?thesis
    by (cases "fold (\<lambda>i. ?g i (rs_cells m ! i)) [0..<rs_size m] (rs_used m, rs_size m)") (auto simp: rs_seq_rm_def rs_rm_tail_def norm_p0_def norm_p1_def)
qed

lemma dangling_tail_fails:
  assumes one: "one_seq_ub q p ub" and q: "q < rs_size m" and len: "length (rs_cells m) = rs_size m" and h: "rs_head m \<le> rs_size m"
    and t: "mc_tail (rs_cells m ! q) = int t" "t < rs_size m" "int q \<notin> mc_seq_id (rs_cells m ! t)"
  shows "rs_find_slot ub m = None"
proof -
  define m0 where "m0 = (if rs_head m > (rs_used m + 2 * ub_n_seqs ub) mod 2 ^ 32 then m\<lparr>rs_head := 0\<rparr> else m)"
  have f: "rs_cells m0 = rs_cells m" "rs_size m0 = rs_size m" "rs_head m0 \<le> rs_size m" using h by (auto simp: m0_def)
  obtain e where e: "fs_first_empty (rs_size m) (rs_size m) (rs_cells m) (rs_head m0) = Some e"
    using fs_first_empty_total[OF len _ f(3)] q by fastforce
  have take: "fs_take ub (rs_size m) 0 (rs_cells m, e, int (rs_size m) - 1, 0) = None"
    using one one_seq_at[OF one] q len t by (simp add: fs_take_def)
  have n: "ub_n_seqs ub = 1" "ub_equal_seqs ub" using one by (auto simp: one_seq_ub_def)
  show ?thesis
    unfolding rs_find_slot_def bind.bind_lunit m0_def[symmetric]
    using fs_check_one[OF one, of m0] q by (simp add: f(1,2) e take n)
qed

text \<open>A memory of two cells after a micro-batch of one token of sequence 1 at position 7.\<close>

lemma demo_one_seq: "one_seq_ub 1 7 (one_token_ubatch 1 7)"
  by (simp add: one_seq_ub_def one_token_ubatch_def)

lemma demo_reach:
  obtains m where "rs_find_slot (one_token_ubatch 1 7) (rs_new 2) = Some (True, m)" "rs_reach 2 m" "rs_pos m = [1 \<mapsto> 7]"
proof -
  have n: "rs_wf (rs_new 2)" "rs_pos (rs_new 2) = (\<lambda>_. None)" "rs_size (rs_new 2) = 2" using rs_new_ok[of 2] by auto
  obtain m c where m: "rs_find_slot (one_token_ubatch 1 7) (rs_new 2) = Some (True, m)" "slot_spec 1 7 c (rs_new 2) m"
    using find_slot_one_ok[OF n(1) _ demo_one_seq] n(3) by auto
  have "rs_reach 2 m" by (rule rs_reach.slot[OF rs_reach.new _ demo_one_seq _ _ m(1)]) simp_all
  then show thesis using that m n(2) by (simp add: slot_spec_def)
qed

text \<open>
  C28. In every state of the recurrent memory that construction, \<^verbatim>\<open>clear\<close>, \<^verbatim>\<open>seq_rm\<close>, \<^verbatim>\<open>seq_cp\<close> and \<^verbatim>\<open>seq_keep\<close> of existing
  sequences, \<^verbatim>\<open>seq_add\<close> that stays in the range of a position, \<^verbatim>\<open>seq_div\<close> by a positive number and placing micro-batches of one
  sequence lead to (\<open>rs_reach\<close>; removing all sequences at once is excluded and breaks it), the two indices agree: a cell lists a sequence exactly when the tail of
  the sequence names the cell, so each sequence has at most one cell. A cell in use has a position and names itself as the
  source of its state, an unused one has neither, and \<open>used\<close> counts the cells in use. \<^verbatim>\<open>seq_pos_max\<close> is the position of
  the tail cell.
\<close>

theorem rs_tails_invariant:
  assumes "rs_reach n m" "i < n"
  shows "(\<forall>q. q \<in> mc_seq_id (rs_cells m ! i) \<longleftrightarrow> 0 \<le> q \<and> q < int n \<and> mc_tail (rs_cells m ! nat q) = int i) \<and>
    (if mc_is_empty (rs_cells m ! i) then mc_pos (rs_cells m ! i) = -1 \<and> mc_src (rs_cells m ! i) = -1
      else 0 \<le> mc_pos (rs_cells m ! i) \<and> mc_src (rs_cells m ! i) = int i) \<and>
    rs_used m = length (filter (\<lambda>c. \<not> mc_is_empty c) (rs_cells m)) \<and>
    rs_seq_pos_max (int i) m = (if mc_tail (rs_cells m ! i) < 0 then -1 else mc_pos (rs_cells m ! nat (mc_tail (rs_cells m ! i))))"
proof (intro conjI)
  have wf: "rs_wf m" and n: "rs_size m = n" using rs_reach_wf[OF assms(1)] by auto
  note d = rs_wfD[OF wf]
  have i: "i < rs_size m" "i < length (rs_cells m)" using assms(2) n d(1) by auto
  show "\<forall>q. q \<in> mc_seq_id (rs_cells m ! i) \<longleftrightarrow> 0 \<le> q \<and> q < int n \<and> mc_tail (rs_cells m ! nat q) = int i"
    using d(1,4) i n by (simp add: cells_wf_def tails_ok_def)
  have "mc_ok (length (rs_cells m)) i (rs_cells m ! i)" using d(4) i by (simp add: cells_wf_def)
  then show "if mc_is_empty (rs_cells m ! i) then mc_pos (rs_cells m ! i) = -1 \<and> mc_src (rs_cells m ! i) = -1
      else 0 \<le> mc_pos (rs_cells m ! i) \<and> mc_src (rs_cells m ! i) = int i"
    by (simp add: mc_ok_def mc_is_empty_def split: if_splits)
  show "rs_used m = length (filter (\<lambda>c. \<not> mc_is_empty c) (rs_cells m))" using d(3) by (simp add: n_nonempty_def mc_is_empty_def)
  show "rs_seq_pos_max (int i) m = (if mc_tail (rs_cells m ! i) < 0 then -1 else mc_pos (rs_cells m ! nat (mc_tail (rs_cells m ! i))))"
    using rs_pos_max_eq[OF wf i(1)] i by (simp add: rs_pos_def cells_pos_def)
qed

theorem rs_tails_invariant_witness:
  "\<exists>m. rs_find_slot (one_token_ubatch 1 7) (rs_new 2) = Some (True, m) \<and> 0 \<le> mc_tail (rs_cells m ! 1) \<and> rs_seq_pos_max 1 m = 7 \<and>
    rs_used m = length (filter (\<lambda>c. \<not> mc_is_empty c) (rs_cells m))"
proof -
  obtain m where m: "rs_find_slot (one_token_ubatch 1 7) (rs_new 2) = Some (True, m)" "rs_reach 2 m" "rs_pos m = [1 \<mapsto> 7]" using demo_reach .
  then have "rs_pos m 1 = Some 7" by simp
  then have "0 \<le> mc_tail (rs_cells m ! 1)" "mc_pos (rs_cells m ! nat (mc_tail (rs_cells m ! 1))) = 7"
    by (auto simp: rs_pos_def cells_pos_def split: if_splits)
  then show ?thesis using rs_tails_invariant[OF m(2), of 1] m(1) by auto
qed

text \<open>
  C30. On the map from sequences to the position of their state, \<^verbatim>\<open>seq_cp\<close> copies the entry of the source to the target
  whatever the range, \<^verbatim>\<open>seq_keep\<close> drops all entries but one, and \<^verbatim>\<open>seq_rm\<close> drops the entry when the range covers it and refuses,
  with no change, a range that starts behind 0 and before the position or ends at or before it; each leads to a reachable state.
\<close>

theorem rs_seq_ops_refine:
  assumes "rs_reach n m" "a < n" "b < n"
  shows "(\<exists>m'. rs_seq_cp (int a) (int b) p0 p1 m = Some m' \<and> rs_reach n m' \<and> rs_pos m' = (rs_pos m)(b := rs_pos m a)) \<and>
    (\<exists>m'. rs_seq_keep (int a) m = Some m' \<and> rs_reach n m' \<and> rs_pos m' = (\<lambda>r. if r = a then rs_pos m a else None)) \<and>
    (\<exists>ok m'. rs_seq_rm (int a) p0 p1 m = Some (ok, m') \<and> rs_reach n m' \<and>
      (case rs_pos m a of
         None \<Rightarrow> ok \<and> rs_pos m' = rs_pos m
       | Some p \<Rightarrow> (ok \<longleftrightarrow> \<not> (0 < norm_p0 p0 \<and> norm_p0 p0 < p \<or> 0 < norm_p1 p1 \<and> norm_p1 p1 \<le> p)) \<and>
           rs_pos m' = (if ok \<and> norm_p0 p0 \<le> p \<and> p < norm_p1 p1 then (rs_pos m)(a := None) else rs_pos m)))"
proof (intro conjI)
  have wf: "rs_wf m" "a < rs_size m" "b < rs_size m" using rs_reach_wf[OF assms(1)] assms(2,3) by auto
  show "\<exists>m'. rs_seq_cp (int a) (int b) p0 p1 m = Some m' \<and> rs_reach n m' \<and> rs_pos m' = (rs_pos m)(b := rs_pos m a)"
    using rs_seq_cp_ok[OF wf] rs_reach.cp[OF assms] by blast
  show "\<exists>m'. rs_seq_keep (int a) m = Some m' \<and> rs_reach n m' \<and> rs_pos m' = (\<lambda>r. if r = a then rs_pos m a else None)"
    using rs_seq_keep_ok[OF wf(1,2)] rs_reach.keep[OF assms(1,2)] by blast
  show "\<exists>ok m'. rs_seq_rm (int a) p0 p1 m = Some (ok, m') \<and> rs_reach n m' \<and>
      (case rs_pos m a of
         None \<Rightarrow> ok \<and> rs_pos m' = rs_pos m
       | Some p \<Rightarrow> (ok \<longleftrightarrow> \<not> (0 < norm_p0 p0 \<and> norm_p0 p0 < p \<or> 0 < norm_p1 p1 \<and> norm_p1 p1 \<le> p)) \<and>
           rs_pos m' = (if ok \<and> norm_p0 p0 \<le> p \<and> p < norm_p1 p1 then (rs_pos m)(a := None) else rs_pos m))"
    using rs_seq_rm_ok[OF wf(1,2), of p0 p1] rs_reach.rm[OF assms(1,2), of p0 p1] by blast
qed

theorem rs_seq_ops_refine_witness:
  "\<exists>m m' m''. rs_find_slot (one_token_ubatch 1 7) (rs_new 2) = Some (True, m) \<and> rs_seq_cp 1 0 0 (-1) m = Some m' \<and>
    rs_pos m' = [1 \<mapsto> 7, 0 \<mapsto> 7] \<and> rs_seq_rm 1 3 (-1) m = Some (False, m'') \<and> rs_pos m'' = [1 \<mapsto> 7]"
proof -
  obtain m where m: "rs_find_slot (one_token_ubatch 1 7) (rs_new 2) = Some (True, m)" "rs_reach 2 m" "rs_pos m = [1 \<mapsto> 7]" using demo_reach .
  show ?thesis
    using rs_seq_ops_refine[OF m(2), of 1 0 0 "-1"] rs_seq_ops_refine[OF m(2), of 1 0 3 "-1"] m(1,3) by (auto simp: norm_p0_def norm_p1_def)
qed

text \<open>
  C29. In the states of \<open>rs_reach\<close> (the histories above, without a \<^verbatim>\<open>seq_rm\<close> of all sequences at once) \<^verbatim>\<open>find_slot\<close> for a
  micro-batch of one existing sequence succeeds, however many sequences there are: the sequence gets the
  cell \<open>head\<close> for itself with the last position of the micro-batch and no other sequence loses its state. The state to start from
  is the cell the sequence had before; a sequence without one starts from its new cell, which is the one marked for zeroing.
\<close>

theorem rs_find_slot_one:
  assumes "rs_reach n m" "q < n" "one_seq_ub q p ub" "0 \<le> p" "p \<le> INT32_MAX"
  shows "\<exists>m' c. rs_find_slot ub m = Some (True, m') \<and> rs_reach n m' \<and> c < n \<and> rs_head m' = c \<and> rs_n m' = 1 \<and>
    mc_seq_id (rs_cells m' ! c) = {int q} \<and> mc_tail (rs_cells m' ! q) = int c \<and> rs_pos m' = (rs_pos m)(q := Some p) \<and>
    (\<forall>r < n. r \<noteq> q \<longrightarrow> mc_tail (rs_cells m' ! r) = mc_tail (rs_cells m ! r) \<and> mc_tail (rs_cells m ! r) \<noteq> int c) \<and>
    rx_s_copy 0 m' = Some (if rs_pos m q = None then int c else mc_tail (rs_cells m ! q)) \<and> (rs_pos m q = None \<longrightarrow> rs_z m' = int c)"
proof -
  have wf: "rs_wf m" "q < rs_size m" "rs_size m = n" using rs_reach_wf[OF assms(1)] assms(2) by auto
  obtain m' c where m': "rs_find_slot ub m = Some (True, m')" "rs_wf m'" "slot_spec q p c m m'" using find_slot_one_ok[OF wf(1,2) assms(3-5)] by blast
  have s: "rs_size m' = n" "c < n" "mc_tail (rs_cells m' ! q) = int c" "\<forall>r < n. r \<noteq> q \<longrightarrow> mc_tail (rs_cells m' ! r) = mc_tail (rs_cells m ! r) \<and> mc_tail (rs_cells m ! r) \<noteq> int c"
    using m'(3) wf(3) by (auto simp: slot_spec_def)
  have iff: "r \<in> mc_seq_id (rs_cells m' ! c) \<longleftrightarrow> 0 \<le> r \<and> r < int n \<and> mc_tail (rs_cells m' ! nat r) = int c" for r
    using rs_wfD(1,4)[OF m'(2)] s(1,2) by (simp add: cells_wf_def tails_ok_def)
  have "r \<in> mc_seq_id (rs_cells m' ! c) \<longleftrightarrow> r = int q" for r
    using s(3,4) assms(2) unfolding iff by (cases "nat r = q") (auto simp: nat_less_iff)
  then have "mc_seq_id (rs_cells m' ! c) = {int q}" by auto
  moreover have "rs_reach n m'" by (rule rs_reach.slot[OF assms m'(1)])
  moreover have "rs_pos m q = None \<Longrightarrow> mc_tail (rs_cells m ! q) \<noteq> int c" using rs_pos_tail[OF wf(1,2)] by auto
  ultimately show ?thesis using m' s by (intro exI[of _ m'] exI[of _ c]) (simp add: slot_spec_def)
qed

theorem rs_find_slot_one_witness:
  "\<exists>m c. rs_find_slot (one_token_ubatch 1 7) (rs_new 2) = Some (True, m) \<and> rs_pos m = [1 \<mapsto> 7] \<and> rs_head m = c \<and>
    rx_s_copy 0 m = Some (int c) \<and> rs_z m = int c"
proof -
  have "int 2 \<le> INT32_MAX" by simp
  note r = rs_new_ok[OF this] rs_find_slot_one[OF rs_reach.new[OF this] _ demo_one_seq]
  show ?thesis using r(1) r(2) by auto
qed

text \<open>
  C31. Removing all sequences with a negative id empties every cell but leaves the tails, which still name the emptied cells: the
  memory then reports no position for such a sequence, and the next micro-batch of the sequence fails an assertion of \<^verbatim>\<open>find_slot\<close>.
\<close>

theorem rs_rm_all_dangles:
  assumes "rs_reach n m" "rs_pos m q = Some p" "p < INT32_MAX" "one_seq_ub q p' ub"
  shows "\<exists>m' t. rs_seq_rm (-1) (-1) (-1) m = Some (True, m') \<and> mc_tail (rs_cells m' ! q) = int t \<and> mc_is_empty (rs_cells m' ! t) \<and>
    rs_seq_pos_max (int q) m' = -1 \<and> rs_find_slot ub m' = None"
proof -
  have wf: "rs_wf m" "rs_size m = n" using rs_reach_wf[OF assms(1)] by auto
  note d = rs_wfD[OF wf(1)]
  have q: "q < n" using assms(2) d(1) wf(2) by (auto simp: rs_pos_def cells_pos_def split: if_splits)
  obtain t where t: "mc_tail (rs_cells m ! q) = int t" "t < n" "int q \<in> mc_seq_id (rs_cells m ! t)" "p = mc_pos (rs_cells m ! t)" "0 \<le> p"
    using rs_pos_SomeE[OF wf(1) assms(2)] wf(2) by metis
  obtain u h where rm: "rs_seq_rm (-1) (-1) (-1) m = Some (True, m\<lparr>rs_cells := map wipe_cell (rs_cells m), rs_used := u, rs_head := new_head_min (rs_size m) h (rs_head m)\<rparr>)"
    (is "_ = Some (True, ?m)") using rs_rm_all[OF d(1)] by blast
  have own: "int q \<in> mc_seq_id c \<Longrightarrow> c \<in> set (rs_cells m) \<Longrightarrow> c = rs_cells m ! t" for c
    using cells_wf_seq(3)[OF d(4), of _ "int q"] t(1) by (auto simp: in_set_conv_nth)
  have tail: "mc_tail (rs_cells ?m ! q) = int t" and emp: "mc_seq_id (rs_cells ?m ! t) = {}"
    using q t assms(3) d(1) wf(2) by (auto simp: wipe_cell_def)
  have no: "int q \<notin> mc_seq_id (wipe_cell c)" if "c \<in> set (rs_cells m)" for c
    using own[OF _ that] t assms(3) by (auto simp: wipe_cell_def)
  have "fold (\<lambda>c r. if int q \<in> mc_seq_id c then max r (mc_pos c) else r) (take n (map wipe_cell (rs_cells m))) (-1) = (-1::int)"
    by (rule fold_none) (use no in \<open>auto dest!: in_set_takeD\<close>)
  then have "rs_seq_pos_max (int q) ?m = -1" using wf(2) by (simp add: rs_seq_pos_max_def)
  moreover have "rs_find_slot ub ?m = None"
    by (rule dangling_tail_fails[OF assms(4) _ _ _ tail]) (use q t emp d wf(2) in \<open>auto simp: new_head_min_def\<close>)
  ultimately show ?thesis using rm tail emp by (auto simp: mc_is_empty_def)
qed

theorem rs_rm_all_dangles_witness:
  "\<exists>m m'. rs_find_slot (one_token_ubatch 1 7) (rs_new 2) = Some (True, m) \<and> rs_seq_rm (-1) (-1) (-1) m = Some (True, m') \<and>
    rs_find_slot (one_token_ubatch 1 7) m' = None"
proof -
  obtain m where m: "rs_find_slot (one_token_ubatch 1 7) (rs_new 2) = Some (True, m)" "rs_reach 2 m" "rs_pos m = [1 \<mapsto> 7]" using demo_reach .
  show ?thesis using rs_rm_all_dangles[OF m(2) _ _ demo_one_seq] m(1,3) by auto
qed

end
