(* ===== verification/Hybrid.thy ===== *)
theory Hybrid
  imports KV_ISWA Recurrent_Reach
begin

text \<open>
  \<^verbatim>\<open>llama_memory_hybrid\<close> of \<^verbatim>\<open>llama-memory-hybrid.cpp\<close>: a unified cache for the attention layers and a recurrent memory for the
  others, driven together. The layer filters belong to the tensors and are left out.
\<close>

subsection \<open>Definitions\<close>

record hy_mem =
  hy_attn :: kv_cache
  hy_recr :: rs_mem

definition hy_new :: "bool \<Rightarrow> nat \<Rightarrow> nat \<Rightarrow> nat \<Rightarrow> llama_swa_type \<Rightarrow> nat \<Rightarrow> nat \<Rightarrow> bool \<Rightarrow> hy_mem option" where
  "hy_new v_trans kv_size n_pad n_swa swa_type rs_sz n_seq_max unified = do {
     attn \<leftarrow> kv_new v_trans unified kv_size n_seq_max n_pad n_swa swa_type;
     Some \<lparr>hy_attn = attn, hy_recr = rs_new rs_sz\<rparr> }"

definition hy_clear :: "hy_mem \<Rightarrow> hy_mem" where
  "hy_clear h = h\<lparr>hy_attn := kv_clear (hy_attn h), hy_recr := rs_clear (hy_recr h)\<rparr>"

definition hy_seq_rm :: "int \<Rightarrow> int \<Rightarrow> int \<Rightarrow> hy_mem \<Rightarrow> (bool \<times> hy_mem) option" where
  "hy_seq_rm seq_id p0 p1 h = do {
     (ok, recr) \<leftarrow> rs_seq_rm seq_id p0 p1 (hy_recr h);
     h \<leftarrow> Some (h\<lparr>hy_recr := recr\<rparr>);
     if \<not> ok then Some (False, h) else do {
     (r, attn) \<leftarrow> kv_seq_rm seq_id p0 p1 (hy_attn h);
     Some (r, h\<lparr>hy_attn := attn\<rparr>) } }"

text \<open>The four operations without a result: the cache first, then the recurrent memory.\<close>

definition hy_both :: "(kv_cache \<Rightarrow> kv_cache option) \<Rightarrow> (rs_mem \<Rightarrow> rs_mem option) \<Rightarrow> hy_mem \<Rightarrow> hy_mem option" where
  "hy_both f g h = do {
     attn \<leftarrow> f (hy_attn h);
     recr \<leftarrow> g (hy_recr h);
     Some (h\<lparr>hy_attn := attn, hy_recr := recr\<rparr>) }"

definition hy_seq_cp :: "int \<Rightarrow> int \<Rightarrow> int \<Rightarrow> int \<Rightarrow> hy_mem \<Rightarrow> hy_mem option" where
  "hy_seq_cp seq_id_src seq_id_dst p0 p1 = hy_both (kv_seq_cp seq_id_src seq_id_dst p0 p1) (rs_seq_cp seq_id_src seq_id_dst p0 p1)"

definition hy_seq_keep :: "int \<Rightarrow> hy_mem \<Rightarrow> hy_mem option" where
  "hy_seq_keep seq_id = hy_both (kv_seq_keep seq_id) (rs_seq_keep seq_id)"

definition hy_seq_add :: "int \<Rightarrow> int \<Rightarrow> int \<Rightarrow> int \<Rightarrow> hy_mem \<Rightarrow> hy_mem option" where
  "hy_seq_add seq_id p0 p1 shift = hy_both (kv_seq_add seq_id p0 p1 shift) (rs_seq_add seq_id p0 p1 shift)"

definition hy_seq_div :: "int \<Rightarrow> int \<Rightarrow> int \<Rightarrow> int \<Rightarrow> hy_mem \<Rightarrow> hy_mem option" where
  "hy_seq_div seq_id p0 p1 d = hy_both (kv_seq_div seq_id p0 p1 d) (rs_seq_div seq_id p0 p1 d)"

definition hy_seq_pos_min :: "int \<Rightarrow> hy_mem \<Rightarrow> int option" where
  "hy_seq_pos_min seq_id h = do { p \<leftarrow> kv_seq_pos_min seq_id (hy_attn h); Some (max p (rs_seq_pos_min seq_id (hy_recr h))) }"

definition hy_seq_pos_max :: "int \<Rightarrow> hy_mem \<Rightarrow> int option" where
  "hy_seq_pos_max seq_id h = do { p \<leftarrow> kv_seq_pos_max seq_id (hy_attn h); Some (min p (rs_seq_pos_max seq_id (hy_recr h))) }"

record hy_context =
  hx_i_next :: nat
  hx_ubatches :: "llama_ubatch list"
  hx_attn :: "kv_context option"
  hx_recr :: "rs_context option"
  hx_status :: llama_memory_status

definition hx_fail :: "llama_memory_status \<Rightarrow> hy_context" where
  "hx_fail status = \<lparr>hx_i_next = 0, hx_ubatches = [], hx_attn = None, hx_recr = None, hx_status = status\<rparr>"

definition hx_pair :: "llama_ubatch list \<Rightarrow> kv_context \<Rightarrow> rs_context \<Rightarrow> hy_context" where
  "hx_pair ubs xa xr = \<lparr>hx_i_next = 0, hx_ubatches = ubs, hx_attn = Some xa, hx_recr = Some xr,
     hx_status = llama_memory_status_combine (kx_status xa) (rx_status xr)\<rparr>"

definition hy_init_full :: "hy_mem \<Rightarrow> hy_context option" where
  "hy_init_full h = do { xa \<leftarrow> kv_init_full (hy_attn h); Some (hx_pair [] xa rs_init_full) }"

definition hy_init_update :: "hy_mem \<Rightarrow> (hy_context \<times> hy_mem) option" where
  "hy_init_update h = do {
     (xa, attn) \<leftarrow> kv_init_update (hy_attn h);
     Some (hx_pair [] xa rs_init_update, h\<lparr>hy_attn := attn\<rparr>) }"

definition hy_init_batch :: "llama_batch_allocr \<Rightarrow> nat \<Rightarrow> bool \<Rightarrow> hy_mem \<Rightarrow> (hy_context \<times> llama_batch_allocr \<times> hy_mem) option" where
  "hy_init_batch a n_ubatch embd_all h = do {
     a \<leftarrow> Some (ba_split_reset a);
     (ubs, a) \<leftarrow> split_loop (if embd_all then ba_split_seq n_ubatch else ba_split_equal n_ubatch True) (Suc (ba_get_n_tokens a)) a;
     if ba_n_used a < ba_get_n_tokens a then Some (hx_fail MS_FAILED_PREPARE, a, h) else do {
     (ok, recr) \<leftarrow> rs_prepare ubs (hy_recr h);
     h \<leftarrow> Some (h\<lparr>hy_recr := recr\<rparr>);
     if \<not> ok then Some (hx_fail MS_FAILED_PREPARE, a, h) else do {
     (heads, attn) \<leftarrow> kv_prepare ubs (hy_attn h);
     h \<leftarrow> Some (h\<lparr>hy_attn := attn\<rparr>);
     if heads = [] then Some (hx_fail MS_FAILED_PREPARE, a, h)
     else Some (hx_pair ubs (kx_batch heads ubs) ((rx_fail MS_SUCCESS)\<lparr>rx_ubatches := ubs\<rparr>), a, h) }} }"

definition hx_next :: "hy_context \<Rightarrow> (bool \<times> hy_context) option" where
  "hx_next x = do {
     cpp_assert (hx_status x = MS_SUCCESS);
     xa \<leftarrow> hx_attn x;
     (_, xa) \<leftarrow> kx_next xa;
     xr \<leftarrow> hx_recr x;
     (_, xr) \<leftarrow> rx_next xr;
     i \<leftarrow> Some (hx_i_next x + 1);
     Some (i < length (hx_ubatches x), x\<lparr>hx_attn := Some xa, hx_recr := Some xr, hx_i_next := i\<rparr>) }"

definition hx_apply :: "bool \<Rightarrow> bool \<Rightarrow> hy_context \<Rightarrow> hy_mem \<Rightarrow> (hy_context \<times> hy_mem) option" where
  "hx_apply has_rope compute_ok x h = do {
     cpp_assert (\<not> llama_memory_status_is_fail (hx_status x));
     xa \<leftarrow> hx_attn x;
     (xa, attn) \<leftarrow> kx_apply has_rope compute_ok xa (hy_attn h);
     xr \<leftarrow> hx_recr x;
     recr \<leftarrow> rx_apply xr (hy_recr h);
     Some (x\<lparr>hx_attn := Some xa\<rparr>, h\<lparr>hy_attn := attn, hy_recr := recr\<rparr>) }"

definition hx_get_ubatch :: "hy_context \<Rightarrow> llama_ubatch option" where
  "hx_get_ubatch x = do { cpp_assert (hx_status x = MS_SUCCESS); vec_at (hx_ubatches x) (hx_i_next x) }"

definition hy_state_write :: "(nat \<Rightarrow> (nat \<times> nat) list \<Rightarrow> int list) \<Rightarrow> ((nat \<times> nat) list \<Rightarrow> int list) \<Rightarrow> bool \<Rightarrow> int \<Rightarrow> hy_mem \<Rightarrow> int list option" where
  "hy_state_write write_attn write_recr part_only seq_id h = do {
     a \<leftarrow> (if part_only then Some [] else kv_state_write write_attn seq_id (hy_attn h));
     r \<leftarrow> rs_state_write write_recr seq_id (hy_recr h);
     Some (a @ r) }"

definition hy_state_read :: "(kv_cache \<Rightarrow> nat \<Rightarrow> nat \<Rightarrow> int list \<Rightarrow> bool \<times> int list) \<Rightarrow> (rs_mem \<Rightarrow> nat \<Rightarrow> int list \<Rightarrow> bool \<times> int list)
    \<Rightarrow> nat \<Rightarrow> bool \<Rightarrow> int \<Rightarrow> int list \<Rightarrow> hy_mem \<Rightarrow> ((kv_error \<times> hy_mem) + (hy_mem \<times> int list)) option" where
  "hy_state_read read_attn read_recr n_pos part_only seq_id io h = do {
     r \<leftarrow> (if part_only then Some (Inr (hy_attn h, io)) else kv_state_read read_attn n_pos seq_id io (hy_attn h));
     (case r of
        Inl (e, attn) \<Rightarrow> Some (Inl (e, h\<lparr>hy_attn := attn\<rparr>))
      | Inr (attn, io) \<Rightarrow> do {
          h \<leftarrow> Some (h\<lparr>hy_attn := attn\<rparr>);
          r \<leftarrow> rs_state_read read_recr n_pos seq_id io (hy_recr h);
          Some (case r of
              Inl (e, recr) \<Rightarrow> Inl (e, h\<lparr>hy_recr := recr\<rparr>)
            | Inr (recr, io) \<Rightarrow> Inr (h\<lparr>hy_recr := recr\<rparr>, io)) }) }"

subsection \<open>The two memories in step\<close>

text \<open>The state of a sequence is the one after the last token that the cache holds of it.\<close>

definition in_step :: "hy_mem \<Rightarrow> nat \<Rightarrow> bool" where
  "in_step h q \<longleftrightarrow> (case rs_pos (hy_recr h) q of
     None \<Rightarrow> kv_view (hy_attn h) q = {}
   | Some p \<Rightarrow> p \<in> kv_view (hy_attn h) q \<and> (\<forall>x \<in> kv_view (hy_attn h) q. x \<le> p))"

definition hy_seq :: "hy_mem \<Rightarrow> nat \<Rightarrow> bool" where
  "hy_seq h q \<longleftrightarrow> has_seq (hy_attn h) q \<and> q < rs_size (hy_recr h)"

definition hy_wf :: "hy_mem \<Rightarrow> bool" where
  "hy_wf h \<longleftrightarrow> find_ok (hy_attn h) \<and> kv_swa_type (hy_attn h) = SWA_NONE \<and> rs_wf (hy_recr h) \<and> (\<forall>q. in_step h q)"

lemma hy_wfD:
  assumes "hy_wf h"
  shows "find_ok (hy_attn h)" "kv_wf (hy_attn h)" "kv_swa_type (hy_attn h) = SWA_NONE" "rs_wf (hy_recr h)" "in_step h q"
  using assms by (auto simp: hy_wf_def find_ok_def)

lemma hy_view_bounds:
  assumes "hy_wf h" "x \<in> kv_view (hy_attn h) q"
  shows "0 \<le> x" "x < INT32_MAX"
proof -
  have "x \<in> {0..INT32_MAX}" using kv_mem.view_range[OF hy_wfD(2)[OF assms(1)], of q] assms(2) by blast
  moreover have "x \<noteq> INT32_MAX" using find_ok_room[OF hy_wfD(1)[OF assms(1)]] assms(2) by metis
  ultimately show "0 \<le> x" "x < INT32_MAX" by auto
qed

lemma in_step_pos_max:
  assumes h: "hy_wf h" and q: "hy_seq h q"
  shows "hy_seq_pos_max (int q) h = Some (case rs_pos (hy_recr h) q of None \<Rightarrow> -1 | Some p \<Rightarrow> p)"
proof -
  note d = hy_wfD[OF h]
  have a: "kv_seq_pos_max (int q) (hy_attn h) = Some (if kv_view (hy_attn h) q = {} then -1 else Max (kv_view (hy_attn h) q))"
    using kv_mem.pos_max[OF d(2)] q by (simp add: hy_seq_def)
  have r: "rs_seq_pos_max (int q) (hy_recr h) = (case rs_pos (hy_recr h) q of None \<Rightarrow> -1 | Some p \<Rightarrow> p)"
    using rs_pos_max_eq[OF d(4)] q by (simp add: hy_seq_def)
  show ?thesis
  proof (cases "rs_pos (hy_recr h) q")
    case None
    then show ?thesis using a r d(5)[of q] by (simp add: hy_seq_pos_max_def in_step_def)
  next
    case (Some p)
    then have p: "p \<in> kv_view (hy_attn h) q" "\<forall>x \<in> kv_view (hy_attn h) q. x \<le> p" using d(5)[of q] by (simp_all add: in_step_def)
    then have "Max (kv_view (hy_attn h) q) = p" using kv_mem.view_range[OF d(2), of q] by (intro Max_eqI) auto
    then show ?thesis using a r p Some by (auto simp: hy_seq_pos_max_def)
  qed
qed

lemma hy_rm_refused:
  assumes h: "hy_wf h" and q: "hy_seq h q" and p: "rs_pos (hy_recr h) q = Some p"
    and part: "0 < norm_p0 p0 \<and> norm_p0 p0 < p \<or> 0 < norm_p1 p1 \<and> norm_p1 p1 \<le> p"
  shows "hy_seq_rm (int q) p0 p1 h = Some (False, h)"
proof -
  note d = hy_wfD[OF h]
  have q': "q < rs_size (hy_recr h)" using q by (simp add: hy_seq_def)
  obtain t where t: "mc_tail (rs_cells (hy_recr h) ! q) = int t" "t < rs_size (hy_recr h)" "p = mc_pos (rs_cells (hy_recr h) ! t)"
    using rs_pos_SomeE[OF d(4) p] by metis
  have "rs_rm_tail (int q) (norm_p0 p0) (norm_p1 p1) (rs_cells (hy_recr h)) = Some None"
    using part t q' rs_wfD(1)[OF d(4)] by (simp add: rs_rm_tail_def)
  then show ?thesis using q' by (simp add: hy_seq_rm_def rs_seq_rm_def)
qed

lemma rs_rm_accepted:
  assumes m: "rs_wf m" "q < rs_size m"
    and whole: "\<forall>p. rs_pos m q = Some p \<longrightarrow> \<not> (0 < norm_p0 p0 \<and> norm_p0 p0 < p \<or> 0 < norm_p1 p1 \<and> norm_p1 p1 \<le> p)"
  shows "\<exists>m'. rs_seq_rm (int q) p0 p1 m = Some (True, m') \<and> rs_wf m' \<and> rs_size m' = rs_size m \<and>
    rs_pos m' = (if \<exists>p. rs_pos m q = Some p \<and> norm_p0 p0 \<le> p \<and> p < norm_p1 p1 then (rs_pos m)(q := None) else rs_pos m)"
proof (cases "rs_pos m q")
  case None
  then show ?thesis using rs_seq_rm_ok[OF m, of p0 p1] by auto
next
  case (Some p)
  then show ?thesis using rs_seq_rm_ok[OF m, of p0 p1] whole by auto
qed

lemma hy_rm_accepted:
  assumes h: "hy_wf h" and q: "hy_seq h q"
    and whole: "\<forall>p. rs_pos (hy_recr h) q = Some p \<longrightarrow> \<not> (0 < norm_p0 p0 \<and> norm_p0 p0 < p \<or> 0 < norm_p1 p1 \<and> norm_p1 p1 \<le> p)"
  shows "\<exists>h'. hy_seq_rm (int q) p0 p1 h = Some (True, h') \<and> find_ok (hy_attn h') \<and> kv_swa_type (hy_attn h') = SWA_NONE \<and> rs_wf (hy_recr h') \<and>
    hy_seq h' = hy_seq h \<and> kv_view (hy_attn h') = (kv_view (hy_attn h))(q := kv_view (hy_attn h) q - {norm_p0 p0..<norm_p1 p1}) \<and>
    rs_pos (hy_recr h') = (if \<exists>p. rs_pos (hy_recr h) q = Some p \<and> norm_p0 p0 \<le> p \<and> p < norm_p1 p1 then (rs_pos (hy_recr h))(q := None) else rs_pos (hy_recr h))"
proof -
  note d = hy_wfD[OF h]
  have q': "q < rs_size (hy_recr h)" "has_seq (hy_attn h) q" using q by (simp_all add: hy_seq_def)
  obtain m where m: "rs_seq_rm (int q) p0 p1 (hy_recr h) = Some (True, m)" "rs_wf m" "rs_size m = rs_size (hy_recr h)"
      "rs_pos m = (if \<exists>p. rs_pos (hy_recr h) q = Some p \<and> norm_p0 p0 \<le> p \<and> p < norm_p1 p1 then (rs_pos (hy_recr h))(q := None) else rs_pos (hy_recr h))"
    using rs_rm_accepted[OF d(4) q'(1) whole] by (elim exE conjE) (rule that; assumption)
  obtain kv where kv: "kv_seq_rm (int q) p0 p1 (hy_attn h) = Some (True, kv)" "kv_shrinks (hy_attn h) kv"
      "kv_view kv = (kv_view (hy_attn h))(q := kv_view (hy_attn h) q - {norm_p0 p0..<norm_p1 p1})"
    using kv_rm_shrinks[OF d(2) q'(2)] by blast
  have "find_ok kv" by (rule kv_shrinks_find_ok[OF d(1) kv(2)])
  moreover have "has_seq kv = has_seq (hy_attn h)" using kv(2) by (auto simp: kv_shrinks_def has_seq_def fun_eq_iff)
  ultimately show ?thesis using m kv d(3) by (simp add: hy_seq_rm_def hy_seq_def kv_shrinks_def fun_eq_iff)
qed

lemma hy_rm_ok:
  assumes h: "hy_wf h" and q: "hy_seq h q" and last: "\<forall>p. rs_pos (hy_recr h) q = Some p \<longrightarrow> norm_p0 p0 = p \<longrightarrow> p = 0"
  shows "\<exists>ok h'. hy_seq_rm (int q) p0 p1 h = Some (ok, h') \<and> hy_wf h' \<and> hy_seq h' = hy_seq h \<and>
    (if ok then kv_view (hy_attn h') = (kv_view (hy_attn h))(q := kv_view (hy_attn h) q - {norm_p0 p0..<norm_p1 p1}) else h' = h)"
proof (cases "\<exists>p. rs_pos (hy_recr h) q = Some p \<and> (0 < norm_p0 p0 \<and> norm_p0 p0 < p \<or> 0 < norm_p1 p1 \<and> norm_p1 p1 \<le> p)")
  case True
  then have "hy_seq_rm (int q) p0 p1 h = Some (False, h)" using hy_rm_refused[OF h q] by auto
  then show ?thesis using h by (intro exI[of _ False] exI[of _ h]) simp
next
  case False
  then have whole: "\<forall>p. rs_pos (hy_recr h) q = Some p \<longrightarrow> \<not> (0 < norm_p0 p0 \<and> norm_p0 p0 < p \<or> 0 < norm_p1 p1 \<and> norm_p1 p1 \<le> p)" by blast
  obtain h' where r: "hy_seq_rm (int q) p0 p1 h = Some (True, h')" "find_ok (hy_attn h')" "kv_swa_type (hy_attn h') = SWA_NONE" "rs_wf (hy_recr h')"
      "hy_seq h' = hy_seq h" and v: "kv_view (hy_attn h') = (kv_view (hy_attn h))(q := kv_view (hy_attn h) q - {norm_p0 p0..<norm_p1 p1})"
    and s: "rs_pos (hy_recr h') = (if \<exists>p. rs_pos (hy_recr h) q = Some p \<and> norm_p0 p0 \<le> p \<and> p < norm_p1 p1 then (rs_pos (hy_recr h))(q := None) else rs_pos (hy_recr h))"
    using hy_rm_accepted[OF h q whole] by (elim exE conjE) (rule that; assumption)
  have "in_step h' r" for r
  proof (cases "r = q")
    case False
    then have "kv_view (hy_attn h') r = kv_view (hy_attn h) r" "rs_pos (hy_recr h') r = rs_pos (hy_recr h) r" using v s by simp_all
    then show ?thesis using hy_wfD(5)[OF h, of r] by (simp add: in_step_def split: option.splits)
  next
    case True
    show ?thesis
    proof (cases "rs_pos (hy_recr h) q")
      case None
      then show ?thesis using hy_wfD(5)[OF h, of q] v s True by (simp add: in_step_def)
    next
      case (Some p)
      then have st: "p \<in> kv_view (hy_attn h) q" "\<forall>x \<in> kv_view (hy_attn h) q. x \<le> p" using hy_wfD(5)[OF h, of q] by (simp_all add: in_step_def)
      have pos: "0 \<le> x" if "x \<in> kv_view (hy_attn h) q" for x using hy_view_bounds[OF h that] by simp
      have n: "0 \<le> norm_p0 p0" "0 \<le> norm_p1 p1" by (simp_all add: norm_p0_def norm_p1_def)
      show ?thesis
      proof (cases "norm_p0 p0 \<le> p \<and> p < norm_p1 p1")
        case hit: True
        then have "norm_p0 p0 = 0" using whole Some last n by auto
        then have "kv_view (hy_attn h) q - {norm_p0 p0..<norm_p1 p1} = {}" using st hit pos by force
        then show ?thesis using v s Some hit True by (simp add: in_step_def)
      next
        case miss: False
        then have "kv_view (hy_attn h) q \<inter> {norm_p0 p0..<norm_p1 p1} = {}" using st whole Some n pos by force
        then have "kv_view (hy_attn h) q - {norm_p0 p0..<norm_p1 p1} = kv_view (hy_attn h) q" by blast
        then show ?thesis using v s Some miss True st by (simp add: in_step_def)
      qed
    qed
  qed
  then have "hy_wf h'" using r by (simp add: hy_wf_def)
  then show ?thesis using r v by auto
qed

subsection \<open>Reachable states\<close>

text \<open>The current micro-batch, of one sequence, with a slot for it as \<^verbatim>\<open>init_batch\<close> finds it; its last position is its greatest and no
  position of the sequence is beyond it.\<close>

definition hx_slot_ok :: "hy_context \<Rightarrow> hy_mem \<Rightarrow> llama_ubatch \<Rightarrow> nat \<Rightarrow> int \<Rightarrow> bool" where
  "hx_slot_ok x h ub q p \<longleftrightarrow> (\<exists>n xa xr si. hx_attn x = Some xa \<and> hx_recr x = Some xr \<and>
     vec_at (kx_ubatches xa) (kx_i_cur xa) = Some ub \<and> vec_at (kx_sinfos xa) (kx_i_cur xa) = Some si \<and>
     vec_at (rx_ubatches xr) (rx_i_next xr) = Some ub \<and> ub_ok (hy_attn h) ub n \<and> slot_valid (hy_attn h) ub n si) \<and>
     hy_seq h q \<and> one_seq_ub q p ub \<and> p \<in> ub_positions ub q \<and> (\<forall>r. r \<noteq> q \<longrightarrow> ub_positions ub r = {}) \<and>
     (\<forall>y \<in> ub_positions ub q \<union> kv_view (hy_attn h) q. y \<le> p)"

inductive hy_reach :: "hy_mem \<Rightarrow> bool" where
  new: "hy_new v_trans kv_size n_pad n_swa SWA_NONE rs_sz n_seq_max unified = Some h \<Longrightarrow> 0 < n_seq_max \<Longrightarrow> n_seq_max \<le> LLAMA_MAX_SEQ \<Longrightarrow>
    int rs_sz \<le> INT32_MAX \<Longrightarrow> hy_reach h"
| clear: "hy_reach h \<Longrightarrow> hy_reach (hy_clear h)"
| rm: "hy_reach h \<Longrightarrow> hy_seq h q \<Longrightarrow> \<forall>p. rs_pos (hy_recr h) q = Some p \<longrightarrow> norm_p0 p0 = p \<longrightarrow> p = 0 \<Longrightarrow>
    hy_seq_rm (int q) p0 p1 h = Some (ok, h') \<Longrightarrow> hy_reach h'"
| place: "hy_reach h \<Longrightarrow> hx_slot_ok x h ub q p \<Longrightarrow> hx_apply has_rope compute_ok x h = Some (x', h') \<Longrightarrow> hy_reach h'"

lemma hy_new_wf:
  assumes new: "hy_new v_trans kv_size n_pad n_swa SWA_NONE rs_sz n_seq_max unified = Some h" and n: "0 < n_seq_max" "n_seq_max \<le> LLAMA_MAX_SEQ"
    "int rs_sz \<le> INT32_MAX"
  shows "hy_wf h" "kv_view (hy_attn h) = (\<lambda>_. {})" "rs_size (hy_recr h) = rs_sz" "kv_n_stream (hy_attn h) = (if unified then 1 else n_seq_max)"
proof -
  obtain attn where a: "kv_new v_trans unified kv_size n_seq_max n_pad n_swa SWA_NONE = Some attn" "h = \<lparr>hy_attn = attn, hy_recr = rs_new rs_sz\<rparr>"
    using new by (auto simp: hy_new_def bind_eq_Some_conv)
  note k = kv_new_ok[OF n(1,2) a(1)] and r = rs_new_ok[OF n(3)]
  have "find_ok attn" using k by (intro find_ok_of_view) (simp_all add: swa_ok_def)
  then show "hy_wf h" using a(2) k r by (simp add: hy_wf_def in_step_def)
  show "kv_view (hy_attn h) = (\<lambda>_. {})" "rs_size (hy_recr h) = rs_sz" "kv_n_stream (hy_attn h) = (if unified then 1 else n_seq_max)"
    using a(2) k r by simp_all
qed

lemma hy_apply_ok:
  assumes h: "hy_wf h" and x: "hx_slot_ok x h ub q p" and ap: "hx_apply has_rope compute_ok x h = Some (x', h')"
  shows "hy_wf h' \<and> hy_seq h' = hy_seq h \<and> kv_view (hy_attn h') = (kv_view (hy_attn h))(q := kv_view (hy_attn h) q \<union> ub_positions ub q) \<and>
    rs_pos (hy_recr h') = (rs_pos (hy_recr h))(q := Some p)"
proof -
  note d = hy_wfD[OF h]
  obtain n xa xr si where s: "hx_attn x = Some xa" "hx_recr x = Some xr" "vec_at (kx_ubatches xa) (kx_i_cur xa) = Some ub"
      "vec_at (kx_sinfos xa) (kx_i_cur xa) = Some si" "vec_at (rx_ubatches xr) (rx_i_next xr) = Some ub" "ub_ok (hy_attn h) ub n"
      "slot_valid (hy_attn h) ub n si"
    using x unfolding hx_slot_ok_def by (elim exE conjE) (rule that; assumption)
  have o: "hy_seq h q" "one_seq_ub q p ub" "p \<in> ub_positions ub q" "\<forall>r. r \<noteq> q \<longrightarrow> ub_positions ub r = {}"
      "\<forall>y \<in> ub_positions ub q \<union> kv_view (hy_attn h) q. y \<le> p"
    using x unfolding hx_slot_ok_def by blast+
  obtain xa' attn m where a: "kx_apply has_rope compute_ok xa (hy_attn h) = Some (xa', attn)" "rx_apply xr (hy_recr h) = Some m"
      "h' = h\<lparr>hy_attn := attn, hy_recr := m\<rparr>"
    using ap s(1,2) by (auto simp: hx_apply_def bind_eq_Some_conv)
  have k: "find_ok attn" "kv_same (hy_attn h) attn"
      "\<forall>q. kv_view attn q = {p \<in> kv_view (hy_attn h) q \<union> ub_positions ub q. overwritten (hy_attn h) si (ub_n_parts (hy_attn h) ub) q < p}"
    using apply_ubatch_spec[OF d(1) s(6,7)] kx_apply_batch[OF s(3,4) a(1)] by auto
  have tok: "0 \<le> y \<and> y < INT32_MAX" if "y \<in> ub_positions ub r" for y r using that s(6) by (auto simp: ub_positions_def ub_ok_def ub_tok_ok_def)
  have "-1 < y" if "y \<in> kv_view (hy_attn h) r \<union> ub_positions ub r" for y r using that hy_view_bounds(1)[OF h, of y r] tok[of y r] by force
  then have v: "kv_view attn r = kv_view (hy_attn h) r \<union> ub_positions ub r" for r using k(3) dense_overwritten[OF d(1,3) s(6,7)] by auto
  have p: "0 \<le> p" "p \<le> INT32_MAX" using tok[OF o(3)] by auto
  have q: "q < rs_size (hy_recr h)" using o(1) by (simp add: hy_seq_def)
  obtain m' c where m: "rs_find_slot ub (hy_recr h) = Some (True, m')" "rs_wf m'" "slot_spec q p c (hy_recr h) m'"
    using find_slot_one_ok[OF d(4) q o(2) p] by blast
  have "m = m'" using a(2) s(5) m(1) by (auto simp: rx_apply_def bind_eq_Some_conv vec_at_def split: if_splits)
  then have m: "rs_wf m" "rs_pos m = (rs_pos (hy_recr h))(q := Some p)" "rs_size m = rs_size (hy_recr h)" using m by (simp_all add: slot_spec_def)
  have view: "kv_view attn = (kv_view (hy_attn h))(q := kv_view (hy_attn h) q \<union> ub_positions ub q)" using v o(4) by (auto simp: fun_eq_iff)
  have "in_step h' r" for r
    using d(5)[of r] o(3,5) by (auto simp: in_step_def a(3) m(2) view split: option.splits)
  then show ?thesis using k(1,2) d(3) m view by (simp add: hy_wf_def a(3) kv_same_def hy_seq_def has_seq_def fun_eq_iff)
qed

lemma hy_reach_wf: "hy_reach h \<Longrightarrow> hy_wf h"
proof (induction rule: hy_reach.induct)
  case (clear h)
  then have d: "find_ok (hy_attn h)" "kv_wf (hy_attn h)" "kv_swa_type (hy_attn h) = SWA_NONE" "rs_wf (hy_recr h)" using hy_wfD by auto
  have "kv_shrinks (hy_attn h) (kv_clear (hy_attn h))" "kv_view (kv_clear (hy_attn h)) = (\<lambda>_. {})" using kv_clear_shrinks[OF d(2)] by auto
  moreover from this have "find_ok (kv_clear (hy_attn h))" using kv_shrinks_find_ok[OF d(1)] by blast
  ultimately show ?case using rs_clear_ok[OF d(4)] d(3) by (simp add: hy_wf_def hy_clear_def in_step_def kv_shrinks_def)
next
  case (rm h q p0 p1 ok h')
  then show ?case using hy_rm_ok[OF rm.IH rm.hyps(2), of p0 p1] by auto
next
  case (place h x ub q p has_rope compute_ok x' h')
  then show ?case using hy_apply_ok by blast
qed (use hy_new_wf in blast)

subsection \<open>Properties\<close>

text \<open>A hybrid memory with four cells and two states, after two tokens of sequence 1.\<close>

definition two_token_ubatch :: llama_ubatch where
  "two_token_ubatch = \<lparr>ub_equal_seqs = True, ub_n_tokens = 2, ub_n_seq_tokens = 2, ub_n_seqs = 1, ub_n_seqs_unq = 1,
     ub_token = Some [5, 6], ub_embd = None, ub_pos = [0, 1], ub_n_seq_id = [1, 1], ub_seq_id = [[1], [1]], ub_seq_id_unq = [1],
     ub_seq_idx = [-1, 0], ub_output = [0, 1]\<rparr>"

definition pair_slot :: slot_info where
  "pair_slot = \<lparr>si_s0 = 0, si_s1 = 0, si_strm = [0], si_idxs = [[0, 1]]\<rparr>"

lemma demo_positions: "ub_positions two_token_ubatch r = (if r = 1 then {0, 1} else {})"
proof -
  have "ub_row two_token_ubatch i = [1]" if "i < 2" for i using that by (auto simp: two_token_ubatch_def ub_row_def less_2_cases_iff)
  then have "ub_positions two_token_ubatch r = (\<lambda>i. [0, 1] ! i) ` {i. i < 2 \<and> r = 1}"
    unfolding ub_positions_def by (auto simp: ub_cell_def) (auto simp: two_token_ubatch_def ub_row_def less_2_cases_iff)
  moreover have "{i::nat. i < 2} = {0, 1}" by auto
  ultimately show ?thesis by simp
qed

lemma demo_hybrid:
  obtains h where "hy_reach h" "hy_seq h 1" "kv_view (hy_attn h) = (\<lambda>_. {})(1 := {0, 1})" "rs_pos (hy_recr h) = [1 \<mapsto> 1]"
proof -
  obtain h0 where new: "hy_new False 4 1 0 SWA_NONE 2 2 True = Some h0" by (simp add: hy_new_def kv_new_def)
  let ?kv = "hy_attn h0"
  have n: "hy_wf h0" "kv_view ?kv = (\<lambda>_. {})" "rs_size (hy_recr h0) = 2" "kv_n_stream ?kv = 1" using hy_new_wf[OF new] by simp_all
  have r0: "rs_pos (hy_recr h0) = (\<lambda>_. None)" using new rs_new_ok[of 2] by (auto simp: hy_new_def bind_eq_Some_conv)
  have cells: "kv_v_cells ?kv = [cells_of False (replicate 4 no_cell)]" using new by (auto simp: hy_new_def kv_new_def bind_eq_Some_conv cells_resize_eq)
  then have cap: "kv_capacity ?kv = 4" "stream_of ?kv q = 0" for q using n(4) by (simp_all add: kv_capacity_def stream_of_def)
  have seq: "hy_seq h0 1" using n by (simp add: hy_seq_def has_seq_def)
  have tok: "ub_tok_ok two_token_ubatch i" if "i < 2" for i using that by (auto simp: ub_tok_ok_def two_token_ubatch_def ub_row_def less_2_cases_iff)
  have parts: "ub_n_parts ?kv two_token_ubatch = 1" using n(4) by (simp add: ub_n_parts_def)
  have ub: "ub_ok ?kv two_token_ubatch 2"
    unfolding ub_ok_def ub_shape_def parts using tok n(4) by (simp add: two_token_ubatch_def has_seq_def)
  have si: "slot_valid ?kv two_token_ubatch 2 pair_slot"
    unfolding slot_valid_def parts using hy_wfD(3)[OF n(1)] cells cap by (simp add: pair_slot_def ub_stream_def usable_at_def usable_empty_only)
  define x where "x = hx_pair [two_token_ubatch] (kx_batch [pair_slot] [two_token_ubatch]) ((rx_fail MS_SUCCESS)\<lparr>rx_ubatches := [two_token_ubatch]\<rparr>)"
  have one: "one_seq_ub 1 1 two_token_ubatch" by (simp add: one_seq_ub_def two_token_ubatch_def)
  have ok: "hx_slot_ok x h0 two_token_ubatch 1 1"
    unfolding hx_slot_ok_def using seq one ub si by (auto simp: demo_positions n(2) x_def hx_pair_def kx_batch_def kx_fail_def rx_fail_def)
  obtain kv' where kv': "kv_apply_ubatch pair_slot two_token_ubatch ?kv = Some kv'" "find_ok kv'" "kv_same ?kv kv'"
    using apply_ubatch_spec[OF hy_wfD(1)[OF n(1)] ub si] by blast
  have "length (kv_v_cells kv') = 1" using kv'(2,3) n(4) by (simp add: find_ok_def kv_wf_def kv_same_def)
  then obtain k where k: "kv_get_n_kv pair_slot kv' = Some k" by (auto simp: kv_get_n_kv_def pair_slot_def si_n_stream_def)
  obtain m' c where "rs_find_slot two_token_ubatch (hy_recr h0) = Some (True, m')"
    using find_slot_one_ok[OF hy_wfD(4)[OF n(1)] _ one] n(3) by auto
  then obtain x' h where ap: "hx_apply True True x h0 = Some (x', h)"
    using kv'(1) k by (simp add: hx_apply_def x_def hx_pair_def kx_batch_def kx_fail_def rx_fail_def kx_apply_def rx_apply_def
        llama_memory_status_is_fail_def llama_memory_status_combine_def)
  have "hy_reach h" using hy_reach.place[OF hy_reach.new[OF new] ok ap] by simp
  then show thesis using that hy_apply_ok[OF n(1) ok ap] seq by (simp add: demo_positions n(2) r0)
qed

text \<open>
  C34. Take a hybrid memory with dense attention layers that construction, \<^verbatim>\<open>clear\<close>, placing micro-batches of one sequence whose
  last token is its newest, and removals like the one below lead to (\<open>hy_reach\<close>; not \<^verbatim>\<open>seq_cp\<close>, \<^verbatim>\<open>seq_keep\<close>, \<^verbatim>\<open>seq_add\<close>, \<^verbatim>\<open>seq_div\<close>,
  \<^verbatim>\<open>state_read\<close> or micro-batches of several sequences). Removing a range from one sequence keeps the two memories in step: when the recurrent memory refuses
  the range nothing has changed, as the comment in \<^verbatim>\<open>seq_rm\<close> promises; otherwise the cache loses the range, the recurrent
  state is that after the last remaining token, and \<^verbatim>\<open>seq_pos_max\<close> is its position. The range must not start at the last
  position of the sequence, unless that is position 0: the removal excluded here is accepted by the code and leaves the two
  memories out of step, as the next property shows.
\<close>

theorem hybrid_rm_in_step:
  assumes "hy_reach h" "hy_seq h q" "\<forall>p. rs_pos (hy_recr h) q = Some p \<longrightarrow> norm_p0 p0 = p \<longrightarrow> p = 0"
  shows "\<exists>ok h'. hy_seq_rm (int q) p0 p1 h = Some (ok, h') \<and> hy_reach h' \<and> in_step h' q \<and>
    (if ok then kv_view (hy_attn h') = (kv_view (hy_attn h))(q := kv_view (hy_attn h) q - {norm_p0 p0..<norm_p1 p1}) else h' = h) \<and>
    hy_seq_pos_max (int q) h' = Some (case rs_pos (hy_recr h') q of None \<Rightarrow> -1 | Some p \<Rightarrow> p)"
proof -
  obtain ok h' where r: "hy_seq_rm (int q) p0 p1 h = Some (ok, h')" "hy_wf h'" "hy_seq h' = hy_seq h"
      "if ok then kv_view (hy_attn h') = (kv_view (hy_attn h))(q := kv_view (hy_attn h) q - {norm_p0 p0..<norm_p1 p1}) else h' = h"
    using hy_rm_ok[OF hy_reach_wf[OF assms(1)] assms(2,3), of p1] by (elim exE conjE) (rule that; assumption)
  have "hy_reach h'" using hy_reach.rm[OF assms r(1)] by simp
  then show ?thesis using r in_step_pos_max[OF r(2), of q] assms(2) hy_wfD(5)[OF r(2)] by auto
qed

theorem hybrid_rm_in_step_witness:
  "\<exists>h h' h''. hy_reach h \<and> kv_view (hy_attn h) 1 = {0, 1} \<and> hy_seq_rm 1 0 1 h = Some (False, h) \<and>
    hy_seq_rm 1 0 (-1) h = Some (True, h') \<and> kv_view (hy_attn h') 1 = {} \<and> in_step h' 1"
proof -
  obtain h where h: "hy_reach h" "hy_seq h 1" "kv_view (hy_attn h) = (\<lambda>_. {})(1 := {0, 1})" "rs_pos (hy_recr h) = [1 \<mapsto> 1]" using demo_hybrid .
  have a: "norm_p0 0 = 0" "norm_p1 1 = 1" "norm_p1 (-1) = INT32_MAX" by (simp_all add: norm_p0_def norm_p1_def)
  have last: "\<forall>p. rs_pos (hy_recr h) 1 = Some p \<longrightarrow> norm_p0 0 = p \<longrightarrow> p = 0" using a by simp
  have no: "hy_seq_rm (int 1) 0 1 h = Some (False, h)" by (rule hy_rm_refused[OF hy_reach_wf[OF h(1)] h(2)]) (use h(4) a in auto)
  obtain ok h' where r: "hy_seq_rm (int 1) 0 (-1) h = Some (ok, h')" "in_step h' 1"
      "if ok then kv_view (hy_attn h') = (kv_view (hy_attn h))(1 := kv_view (hy_attn h) 1 - {norm_p0 0..<norm_p1 (-1)}) else h' = h"
    using hybrid_rm_in_step[OF h(1,2) last, of "-1"] by (elim exE conjE) (rule that; assumption)
  have "ok" using r(1) hy_rm_accepted[OF hy_reach_wf[OF h(1)] h(2), of 0 "-1"] h(4) a by auto
  then show ?thesis using h r no a by auto
qed

text \<open>
  C35. A range that starts at the last position of a sequence, as a client asks for to drop one token, is accepted although the
  recurrent state cannot be taken back by a token: the whole state is dropped, the cache keeps the earlier tokens, and the
  memory reports the sequence as empty.
\<close>

theorem hybrid_rm_last_token:
  assumes "hy_reach h" "hy_seq h q" "rs_pos (hy_recr h) q = Some p" "0 < p"
  shows "\<exists>h'. hy_seq_rm (int q) p (-1) h = Some (True, h') \<and> kv_view (hy_attn h') q = kv_view (hy_attn h) q - {p} \<and>
    rs_pos (hy_recr h') q = None \<and> hy_seq_pos_max (int q) h' = Some (-1)"
proof -
  have wf: "hy_wf h" by (rule hy_reach_wf[OF assms(1)])
  have st: "p \<in> kv_view (hy_attn h) q" "\<forall>x \<in> kv_view (hy_attn h) q. x \<le> p" using hy_wfD(5)[OF wf, of q] assms(3) by (simp_all add: in_step_def)
  have n: "norm_p0 p = p" "norm_p1 (-1) = INT32_MAX" "p < INT32_MAX" using hy_view_bounds[OF wf st(1)] by (simp_all add: norm_p0_def norm_p1_def)
  obtain h' where r: "hy_seq_rm (int q) p (-1) h = Some (True, h')" "find_ok (hy_attn h')" "rs_wf (hy_recr h')" "hy_seq h' = hy_seq h"
      "kv_view (hy_attn h') = (kv_view (hy_attn h))(q := kv_view (hy_attn h) q - {p..<INT32_MAX})" "rs_pos (hy_recr h') q = None"
    using hy_rm_accepted[OF wf assms(2), of p "-1"] assms(3) n by auto
  have "kv_view (hy_attn h) q - {p..<INT32_MAX} = kv_view (hy_attn h) q - {p}" using st n(3) by fastforce
  moreover have "hy_seq h' q" using r(4) assms(2) by simp
  then have q: "has_seq (hy_attn h') q" "q < rs_size (hy_recr h')" by (simp_all add: hy_seq_def)
  have "kv_wf (hy_attn h')" using r(2) by (simp add: find_ok_def)
  then obtain y where "kv_seq_pos_max (int q) (hy_attn h') = Some y" "-1 \<le> y"
    using kv_mem.pos_max[of "hy_attn h'" q] kv_mem.view_range[of "hy_attn h'" q] q(1) Max_in[of "kv_view (hy_attn h') q"] by fastforce
  then have "hy_seq_pos_max (int q) h' = Some (-1)" using rs_pos_max_eq[OF r(3) q(2)] r(6) by (simp add: hy_seq_pos_max_def)
  ultimately show ?thesis using r by auto
qed

theorem hybrid_rm_last_token_witness:
  "\<exists>h h'. hy_reach h \<and> kv_view (hy_attn h) 1 = {0, 1} \<and> hy_seq_rm 1 1 (-1) h = Some (True, h') \<and> kv_view (hy_attn h') 1 = {0} \<and>
    hy_seq_pos_max 1 h' = Some (-1)"
proof -
  obtain h where h: "hy_reach h" "hy_seq h 1" "kv_view (hy_attn h) = (\<lambda>_. {})(1 := {0, 1})" "rs_pos (hy_recr h) = [1 \<mapsto> 1]" using demo_hybrid .
  obtain h' where "hy_seq_rm 1 1 (-1) h = Some (True, h')" "kv_view (hy_attn h') 1 = {0, 1} - {1}" "hy_seq_pos_max 1 h' = Some (-1)"
    using hybrid_rm_last_token[OF h(1,2), of 1] h(3,4) by auto
  moreover have "{0, 1} - {1} = {0::int}" by auto
  ultimately show ?thesis using h(1,3) by (intro exI[of _ h] exI[of _ h']) simp
qed

end
