(* ===== verification/Grammar.thy ===== *)
theory Grammar
  imports Prelude "HOL-Library.Word"
begin

unbundle bit_operations_syntax

text \<open>
  \<^verbatim>\<open>llama-grammar.h\<close> and the matching part of \<^verbatim>\<open>llama-grammar.cpp\<close>: a grammar is a vector of rules, a rule a flat vector of
  elements, and a parse in progress a set of stacks of pointers into the rules. A pointer is the pair of a rule and an index,
  and a stack is a list whose head is \<^verbatim>\<open>back()\<close>. \<open>Abort\<close> is a failed assertion, \<^verbatim>\<open>GGML_ABORT\<close> or an access out of range, \<open>Throw\<close> an exception; the recursion of
  \<open>advance_stack\<close> and \<open>detect_left_recursion\<close> has fuel, and \<open>Fuel_Out\<close> says that it was not enough.
\<close>

subsection \<open>Data\<close>

datatype llama_gretype = GRE_END | GRE_ALT | GRE_RULE_REF | GRE_CHAR | GRE_CHAR_NOT | GRE_CHAR_RNG_UPPER | GRE_CHAR_ALT | GRE_CHAR_ANY

record grammar_element =
  ge_type :: llama_gretype
  ge_value :: "32 word"

record partial_utf8 =
  pu_value :: "32 word"
  pu_n_remain :: int

type_synonym grammar_rule = "grammar_element list"
type_synonym grammar_rules = "grammar_rule list"
type_synonym grammar_pos = "nat \<times> nat"
type_synonym grammar_stack = "grammar_pos list"

text \<open>\<^verbatim>\<open>code_points\<close> is a pointer into the decoded token, which ends in 0.\<close>

record grammar_candidate =
  gc_index :: nat
  gc_cps :: "32 word list"
  gc_at :: nat
  gc_partial :: partial_utf8

datatype 'a run = Fuel_Out | Abort | Return 'a | Throw

primrec run_bind :: "'a run \<Rightarrow> ('a \<Rightarrow> 'b run) \<Rightarrow> 'b run" where
  "run_bind Fuel_Out f = Fuel_Out"
| "run_bind Abort f = Abort"
| "run_bind (Return x) f = f x"
| "run_bind Throw f = Throw"

definition opt_run :: "'a option \<Rightarrow> ('a \<Rightarrow> 'b run) \<Rightarrow> 'b run" where
  "opt_run x f = (case x of None \<Rightarrow> Abort | Some y \<Rightarrow> f y)"

primrec run_each :: "('a \<Rightarrow> 's \<Rightarrow> 's run) \<Rightarrow> 'a list \<Rightarrow> 's \<Rightarrow> 's run" where
  "run_each f [] s = Return s"
| "run_each f (x # xs) s = run_bind (f x s) (run_each f xs)"

definition gelem :: "llama_gretype \<Rightarrow> 32 word \<Rightarrow> grammar_element" where
  "gelem t v = \<lparr>ge_type = t, ge_value = v\<rparr>"

definition elem_at :: "grammar_rules \<Rightarrow> grammar_pos \<Rightarrow> grammar_element option" where
  "elem_at rules p = do { rule \<leftarrow> vec_at rules (fst p); vec_at rule (snd p) }"

definition next_pos :: "grammar_pos \<Rightarrow> grammar_pos" where
  "next_pos p = (fst p, snd p + 1)"

subsection \<open>Decoding UTF-8\<close>

text \<open>A C string is the list of its bytes; reading the terminating 0 is reaching the end of the list.\<close>

type_synonym bytes = "8 word list"

definition utf8_len :: "8 word \<Rightarrow> nat" where
  "utf8_len b = [1, 1, 1, 1, 1, 1, 1, 1, 1, 1, 1, 1, 2, 2, 3, 4] ! unat (drop_bit 4 b)"

definition utf8_cont :: "32 word \<Rightarrow> 8 word \<Rightarrow> 32 word" where
  "utf8_cont value b = push_bit 6 value + ucast (b AND 0x3F)"

fun decode_rest :: "nat \<Rightarrow> bytes \<Rightarrow> 32 word \<Rightarrow> 32 word \<times> bytes" where
  "decode_rest (Suc n) (b # bs) value = decode_rest n bs (utf8_cont value b)"
| "decode_rest n bs value = (value, bs)"

definition decode_utf8_char :: "8 word \<Rightarrow> bytes \<Rightarrow> 32 word \<times> bytes" where
  "decode_utf8_char b bs = decode_rest (utf8_len b - 1) bs (ucast (b AND (push_bit (8 - utf8_len b) 1 - 1)))"

text \<open>The decoder of token pieces continues a partial sequence and may end in one.\<close>

definition utf8_len_strict :: "8 word \<Rightarrow> int" where
  "utf8_len_strict b = [1, 1, 1, 1, 1, 1, 1, 1, 0, 0, 0, 0, 2, 2, 3, 4] ! unat (drop_bit 4 b)"

fun dec_resume :: "bytes \<Rightarrow> 32 word \<Rightarrow> int \<Rightarrow> (bytes \<times> 32 word \<times> int) option" where
  "dec_resume [] value n = Some ([], value, n)"
| "dec_resume (b # bs) value n = (if n > 0 then
     if drop_bit 6 b \<noteq> 2 then None else dec_resume bs (utf8_cont value b) (n - 1)
   else Some (b # bs, value, n))"

fun dec_tail :: "bytes \<Rightarrow> 32 word \<Rightarrow> int \<Rightarrow> bytes \<times> 32 word \<times> int" where
  "dec_tail [] value n = ([], value, n)"
| "dec_tail (b # bs) value n = (if n > 0 then dec_tail bs (utf8_cont value b) (n - 1) else (b # bs, value, n))"

lemma dec_tail_length: "dec_tail bs w n = (bs', v, m) \<Longrightarrow> length bs' \<le> length bs"
  by (induction bs w n rule: dec_tail.induct) (auto split: if_splits)

function dec_loop :: "bytes \<Rightarrow> 32 word \<Rightarrow> int \<Rightarrow> 32 word list \<Rightarrow> 32 word list \<times> partial_utf8" where
  "dec_loop [] value n cps = (cps @ [0], \<lparr>pu_value = value, pu_n_remain = n\<rparr>)"
| "dec_loop (b # bs) value n cps = (let n = utf8_len_strict b - 1 in
     if n < 0 then ([0], \<lparr>pu_value = 0, pu_n_remain = n\<rparr>)
     else (case dec_tail bs (ucast (b AND (push_bit (nat (7 - n)) 1 - 1))) n of
       (bs, value, n) \<Rightarrow> dec_loop bs value n (if n = 0 then cps @ [value] else cps)))"
  by pat_completeness auto
termination
  by (relation "measure (\<lambda>(bs, _). length bs)") (auto dest!: dec_tail_length[OF sym])

definition decode_utf8 :: "bytes \<Rightarrow> partial_utf8 \<Rightarrow> 32 word list \<times> partial_utf8" where
  "decode_utf8 src start = (case dec_resume (takeWhile (\<lambda>b. b \<noteq> 0) src) (pu_value start) (pu_n_remain start) of
     None \<Rightarrow> ([0], \<lparr>pu_value = 0, pu_n_remain = -1\<rparr>)
   | Some (bs, value, n) \<Rightarrow> dec_loop bs value n (if pu_n_remain start > 0 \<and> n = 0 then [value] else []))"

subsection \<open>Matching\<close>

definition is_end_of_sequence :: "grammar_element \<Rightarrow> bool" where
  "is_end_of_sequence e \<longleftrightarrow> ge_type e = GRE_END \<or> ge_type e = GRE_ALT"

definition is_positive_char :: "grammar_element \<Rightarrow> bool" where
  "is_positive_char e \<longleftrightarrow> ge_type e = GRE_CHAR \<or> ge_type e = GRE_CHAR_ANY"

text \<open>The loop over a character class; the result is \<open>found\<close> and the number of elements passed.\<close>

fun match_loop :: "grammar_element list \<Rightarrow> 32 word \<Rightarrow> bool \<Rightarrow> nat \<Rightarrow> (bool \<times> nat) option" where
  "match_loop (e # e1 # es) chr found k =
     (if ge_type e1 = GRE_CHAR_RNG_UPPER then
        let found = (found \<or> (ge_value e \<le> chr \<and> chr \<le> ge_value e1)) in
        (case es of
           [] \<Rightarrow> None
         | x # _ \<Rightarrow> if ge_type x = GRE_CHAR_ALT then match_loop es chr found (k + 2) else Some (found, k + 2))
      else
        let found = (if ge_type e = GRE_CHAR_ANY then True else found \<or> ge_value e = chr) in
        if ge_type e1 = GRE_CHAR_ALT then match_loop (e1 # es) chr found (k + 1) else Some (found, k + 1))"
| "match_loop _ chr found k = None"

definition match_char :: "grammar_rules \<Rightarrow> grammar_pos \<Rightarrow> 32 word \<Rightarrow> (bool \<times> grammar_pos) option" where
  "match_char rules p chr = do {
     rule \<leftarrow> vec_at rules (fst p);
     e \<leftarrow> vec_at rule (snd p);
     cpp_assert (is_positive_char e \<or> ge_type e = GRE_CHAR_NOT);
     (found, k) \<leftarrow> match_loop (drop (snd p) rule) chr False 0;
     Some (found = is_positive_char e, (fst p, snd p + k)) }"

fun partial_loop :: "grammar_element list \<Rightarrow> 32 word \<Rightarrow> 32 word \<Rightarrow> bool \<Rightarrow> bool option" where
  "partial_loop (e # e1 # es) low high positive =
     (if ge_type e1 = GRE_CHAR_RNG_UPPER then
        if ge_value e \<le> high \<and> low \<le> ge_value e1 then Some positive
        else (case es of
           [] \<Rightarrow> None
         | x # _ \<Rightarrow> if ge_type x = GRE_CHAR_ALT then partial_loop es low high positive else Some (\<not> positive))
      else if ge_type e = GRE_CHAR_ANY then Some True
      else if low \<le> ge_value e \<and> ge_value e \<le> high then Some positive
      else if ge_type e1 = GRE_CHAR_ALT then partial_loop (e1 # es) low high positive else Some (\<not> positive))"
| "partial_loop _ low high positive = None"

definition partial_low :: "partial_utf8 \<Rightarrow> 32 word" where
  "partial_low pu = push_bit (nat (pu_n_remain pu * 6)) (pu_value pu)"

definition partial_high :: "partial_utf8 \<Rightarrow> 32 word" where
  "partial_high pu = partial_low pu OR (push_bit (nat (pu_n_remain pu * 6)) 1 - 1)"

definition match_partial_char :: "grammar_rules \<Rightarrow> grammar_pos \<Rightarrow> partial_utf8 \<Rightarrow> bool option" where
  "match_partial_char rules p pu = do {
     rule \<leftarrow> vec_at rules (fst p);
     e \<leftarrow> vec_at rule (snd p);
     cpp_assert (is_positive_char e \<or> ge_type e = GRE_CHAR_NOT);
     if pu_n_remain pu < 0 \<or> (pu_n_remain pu = 1 \<and> pu_value pu < 2) then Some False else
     (let low = partial_low pu;
          low' = (if low = 0 then if pu_n_remain pu = 2 then push_bit 11 1 else if pu_n_remain pu = 3 then push_bit 16 1 else low else low)
      in partial_loop (drop (snd p) rule) low' (partial_high pu) (is_positive_char e)) }"

subsection \<open>Stacks\<close>

text \<open>Putting a position on a stack unless it is the end of its sequence.\<close>

definition push_pos :: "grammar_rules \<Rightarrow> grammar_pos \<Rightarrow> grammar_stack \<Rightarrow> grammar_stack option" where
  "push_pos rules p st = do { e \<leftarrow> elem_at rules p; Some (if is_end_of_sequence e then st else p # st) }"

definition add_stack :: "grammar_stack \<Rightarrow> grammar_stack list \<Rightarrow> grammar_stack list" where
  "add_stack st sts = (if st \<in> set sts then sts else sts @ [st])"

text \<open>Where the alternates of a rule start: the loop that scans to the end of an alternate and goes on behind \<^verbatim>\<open>ALT\<close>.\<close>

fun alt_next :: "nat \<Rightarrow> grammar_rule \<Rightarrow> nat list option" where
  "alt_next i [] = None"
| "alt_next i (e # es) = (if ge_type e = GRE_END then Some []
     else if ge_type e = GRE_ALT then map_option (Cons (i + 1)) (alt_next (i + 1) es) else alt_next (i + 1) es)"

definition alt_starts :: "grammar_rule \<Rightarrow> nat list option" where
  "alt_starts rule = map_option (Cons 0) (alt_next 0 rule)"

primrec advance_stack :: "nat \<Rightarrow> grammar_rules \<Rightarrow> grammar_stack \<Rightarrow> grammar_stack list \<Rightarrow> grammar_stack list run" where
  "advance_stack 0 rules stack new_stacks = Fuel_Out"
| "advance_stack (Suc n) rules stack new_stacks = (case stack of
     [] \<Rightarrow> Return (add_stack [] new_stacks)
   | pos # st \<Rightarrow> opt_run (elem_at rules pos) (\<lambda>e.
       if ge_type e = GRE_RULE_REF then
         opt_run (vec_at rules (unat (ge_value e))) (\<lambda>rule. opt_run (alt_starts rule) (\<lambda>subs.
           run_each (\<lambda>sub new_stacks. opt_run (push_pos rules (next_pos pos) st) (\<lambda>st1.
             opt_run (push_pos rules (unat (ge_value e), sub) st1) (\<lambda>st2. advance_stack n rules st2 new_stacks))) subs new_stacks))
       else if ge_type e \<in> {GRE_CHAR, GRE_CHAR_NOT, GRE_CHAR_ANY} then Return (add_stack stack new_stacks)
       else Abort))"

definition accept_stack :: "nat \<Rightarrow> grammar_rules \<Rightarrow> 32 word \<Rightarrow> grammar_stack \<Rightarrow> grammar_stack list \<Rightarrow> grammar_stack list run" where
  "accept_stack fuel rules chr stack stacks_new = (case stack of
     [] \<Rightarrow> Return stacks_new
   | pos # st \<Rightarrow> opt_run (match_char rules pos chr) (\<lambda>(found, pos').
       if found then opt_run (push_pos rules pos' st) (\<lambda>new_stack. advance_stack fuel rules new_stack stacks_new)
       else Return stacks_new))"

definition grammar_accept :: "nat \<Rightarrow> grammar_rules \<Rightarrow> grammar_stack list \<Rightarrow> 32 word \<Rightarrow> grammar_stack list run" where
  "grammar_accept fuel rules stacks chr = run_each (accept_stack fuel rules chr) stacks []"

subsection \<open>Candidates\<close>

definition gc_point :: "grammar_candidate \<Rightarrow> 32 word option" where
  "gc_point tok = vec_at (gc_cps tok) (gc_at tok)"

definition gc_move :: "nat \<Rightarrow> grammar_candidate \<Rightarrow> grammar_candidate" where
  "gc_move k tok = tok\<lparr>gc_at := k\<rparr>"

text \<open>The candidates an empty stack rejects, and one step of the loop over the candidates of another stack.\<close>

definition reject_at_end :: "grammar_candidate list \<Rightarrow> grammar_candidate list option" where
  "reject_at_end cands = do {
     cps \<leftarrow> map_opt gc_point cands;
     Some (map fst (filter (\<lambda>(tok, c). c \<noteq> 0 \<or> pu_n_remain (gc_partial tok) \<noteq> 0) (zip cands cps))) }"

definition classify :: "grammar_rules \<Rightarrow> grammar_pos \<Rightarrow> grammar_candidate \<Rightarrow> grammar_candidate list \<times> grammar_candidate list
    \<Rightarrow> (grammar_candidate list \<times> grammar_candidate list) option" where
  "classify rules pos tok = (\<lambda>(rejects, next_cands). do {
     c \<leftarrow> gc_point tok;
     if c = 0 then
       if pu_n_remain (gc_partial tok) \<noteq> 0 then do {
         ok \<leftarrow> match_partial_char rules pos (gc_partial tok);
         Some (if ok then rejects else rejects @ [tok], next_cands) }
       else Some (rejects, next_cands)
     else do {
       (found, _) \<leftarrow> match_char rules pos c;
       Some (if found then (rejects, next_cands @ [gc_move (gc_at tok + 1) tok]) else (rejects @ [tok], next_cands)) } })"

text \<open>\<open>reject_candidates\<close> runs the candidates through the stacks, each time keeping the rejected ones.\<close>

definition reject_candidates :: "(grammar_stack \<Rightarrow> grammar_candidate list \<Rightarrow> grammar_candidate list run) \<Rightarrow> grammar_stack list
    \<Rightarrow> grammar_candidate list \<Rightarrow> grammar_candidate list run" where
  "reject_candidates for_stack stacks cands = (if stacks = [] then Abort else if cands = [] then Return []
     else run_each for_stack stacks cands)"

primrec reject_for_stack :: "nat \<Rightarrow> nat \<Rightarrow> grammar_rules \<Rightarrow> grammar_stack \<Rightarrow> grammar_candidate list \<Rightarrow> grammar_candidate list run" where
  "reject_for_stack 0 fuel rules stack cands = Fuel_Out"
| "reject_for_stack (Suc n) fuel rules stack cands = (case stack of
     [] \<Rightarrow> opt_run (reject_at_end cands) Return
   | pos # st \<Rightarrow> opt_run (for_each (classify rules pos) cands ([], [])) (\<lambda>(rejects, next_cands).
       opt_run (match_char rules pos 0) (\<lambda>(_, pos').
       opt_run (push_pos rules pos' st) (\<lambda>stack_after.
       run_bind (advance_stack fuel rules stack_after []) (\<lambda>next_stacks.
       run_bind (reject_candidates (reject_for_stack n fuel rules) next_stacks next_cands) (\<lambda>next_rejects.
       Return (rejects @ map (\<lambda>tok. gc_move (gc_at tok - 1) tok) next_rejects)))))))"

subsection \<open>Initialisation\<close>

fun copy_rule :: "grammar_rule \<Rightarrow> grammar_rule option" where
  "copy_rule [] = None"
| "copy_rule (e # es) = (if ge_type e = GRE_END then Some [gelem GRE_END 0] else map_option (Cons e) (copy_rule es))"

record lr_state =
  lr_visited :: "bool list"
  lr_in_progress :: "bool list"
  lr_may_be_empty :: "bool list"

text \<open>Whether a rule has an empty alternate, by the scan with \<open>at_rule_start\<close>.\<close>

fun has_empty_alt :: "bool \<Rightarrow> grammar_rule \<Rightarrow> bool" where
  "has_empty_alt at_rule_start [] = False"
| "has_empty_alt at_rule_start (e # es) = (if is_end_of_sequence e then at_rule_start \<or> has_empty_alt True es else has_empty_alt False es)"

text \<open>The loop over the elements: \<open>detect\<close> is the recursive call.\<close>

fun detect_elems :: "(nat \<Rightarrow> lr_state \<Rightarrow> (bool \<times> lr_state) run) \<Rightarrow> grammar_rule \<Rightarrow> bool \<Rightarrow> lr_state \<Rightarrow> (bool \<times> lr_state) run" where
  "detect_elems detect [] recurse s = Return (False, s)"
| "detect_elems detect (e # es) recurse s =
     (if ge_type e = GRE_RULE_REF \<and> recurse then
        run_bind (detect (unat (ge_value e)) s) (\<lambda>(found, s).
          if found then Return (True, s)
          else opt_run (vec_at (lr_may_be_empty s) (unat (ge_value e))) (\<lambda>emp. detect_elems detect es (recurse \<and> emp) s))
      else detect_elems detect es (is_end_of_sequence e) s)"

primrec detect_left_recursion :: "nat \<Rightarrow> grammar_rules \<Rightarrow> nat \<Rightarrow> lr_state \<Rightarrow> (bool \<times> lr_state) run" where
  "detect_left_recursion 0 rules i s = Fuel_Out"
| "detect_left_recursion (Suc n) rules i s =
     opt_run (vec_at (lr_in_progress s) i) (\<lambda>busy. if busy then Return (True, s) else
     opt_run (vec_at rules i) (\<lambda>rule.
     let s1 = s\<lparr>lr_in_progress := (lr_in_progress s)[i := True],
                lr_may_be_empty := if has_empty_alt True rule then (lr_may_be_empty s)[i := True] else lr_may_be_empty s\<rparr> in
     run_bind (detect_elems (detect_left_recursion n rules) rule True s1) (\<lambda>(found, s).
       if found then Return (True, s)
       else Return (False, s\<lparr>lr_in_progress := (lr_in_progress s)[i := False], lr_visited := (lr_visited s)[i := True]\<rparr>))))"

text \<open>The loop over all rules; the result tells whether left recursion was found.\<close>

definition lr_init :: "nat \<Rightarrow> lr_state" where
  "lr_init n = \<lparr>lr_visited = replicate n False, lr_in_progress = replicate n False, lr_may_be_empty = replicate n False\<rparr>"

fun lr_rules :: "nat \<Rightarrow> grammar_rules \<Rightarrow> nat list \<Rightarrow> lr_state \<Rightarrow> (bool \<times> lr_state) run" where
  "lr_rules fuel rules [] s = Return (False, s)"
| "lr_rules fuel rules (i # is) s = opt_run (vec_at (lr_visited s) i) (\<lambda>v. if v then lr_rules fuel rules is s
     else run_bind (detect_left_recursion fuel rules i s) (\<lambda>(found, s). if found then Return (True, s) else lr_rules fuel rules is s))"

text \<open>The check of a grammar: whether left recursion is found.\<close>

definition left_recursive :: "grammar_rules \<Rightarrow> bool run" where
  "left_recursive rules = run_bind (lr_rules (Suc (length rules)) rules [0..<length rules] (lr_init (length rules))) (\<lambda>(found, _). Return found)"

definition initial_stacks :: "nat \<Rightarrow> grammar_rules \<Rightarrow> nat \<Rightarrow> grammar_stack list run" where
  "initial_stacks fuel rules start = opt_run (vec_at rules start) (\<lambda>rule. opt_run (alt_starts rule) (\<lambda>subs.
     run_each (\<lambda>sub stacks. opt_run (push_pos rules (start, sub) []) (\<lambda>stack. advance_stack fuel rules stack stacks)) subs []))"

record llama_grammar =
  gr_rules :: grammar_rules
  gr_stacks :: "grammar_stack list"
  gr_partial :: partial_utf8
  gr_lazy :: bool
  gr_awaiting_trigger :: bool
  gr_trigger_buffer :: bytes
  gr_trigger_tokens :: "int list"

text \<open>\<^verbatim>\<open>llama_grammar_init_impl\<close> on given rules; \<open>Return None\<close> is the null pointer.\<close>

definition grammar_init :: "nat \<Rightarrow> grammar_rules \<Rightarrow> nat \<Rightarrow> bool \<Rightarrow> int list \<Rightarrow> llama_grammar option run" where
  "grammar_init fuel rules start lazy tokens = opt_run (map_opt copy_rule rules) (\<lambda>rules.
     run_bind (left_recursive rules) (\<lambda>found.
       if found then Return None
       else run_bind (initial_stacks fuel rules start) (\<lambda>stacks.
         Return (Some \<lparr>gr_rules = rules, gr_stacks = stacks, gr_partial = \<lparr>pu_value = 0, pu_n_remain = 0\<rparr>, gr_lazy = lazy,
           gr_awaiting_trigger = lazy, gr_trigger_buffer = [], gr_trigger_tokens = tokens\<rparr>))))"

subsection \<open>Sampling\<close>

text \<open>\<^verbatim>\<open>ollama_vocab\<close>: the pieces of the tokens and the end-of-generation tokens.\<close>

record ollama_vocab =
  ov_pieces :: "32 word \<rightharpoonup> bytes"
  ov_eog_ids :: "32 word set"

definition ov_token_to_piece :: "ollama_vocab \<Rightarrow> 32 word \<Rightarrow> bytes option" where
  "ov_token_to_piece v token = ov_pieces v token"

definition ov_add_token_pieces :: "(32 word \<times> bytes) list \<Rightarrow> ollama_vocab \<Rightarrow> ollama_vocab" where
  "ov_add_token_pieces tps v = fold (\<lambda>(t, piece) v. v\<lparr>ov_pieces := (ov_pieces v)(t \<mapsto> piece)\<rparr>) tps v"

definition ov_is_eog :: "ollama_vocab \<Rightarrow> 32 word \<Rightarrow> bool" where
  "ov_is_eog v token \<longleftrightarrow> token \<in> ov_eog_ids v"

definition ov_set_eog_tokens :: "32 word list \<Rightarrow> ollama_vocab \<Rightarrow> ollama_vocab" where
  "ov_set_eog_tokens tokens v = fold (\<lambda>t v. v\<lparr>ov_eog_ids := insert t (ov_eog_ids v)\<rparr>) tokens v"

text \<open>\<^verbatim>\<open>llama_grammar_accept_str\<close>; the result False is the exception, thrown after the state has changed.\<close>

definition accept_str :: "nat \<Rightarrow> bytes \<Rightarrow> llama_grammar \<Rightarrow> (bool \<times> llama_grammar) run" where
  "accept_str fuel piece g = (case decode_utf8 piece (gr_partial g) of (cps, pu) \<Rightarrow>
     run_bind (run_each (\<lambda>c stacks. grammar_accept fuel (gr_rules g) stacks c) (butlast cps) (gr_stacks g)) (\<lambda>stacks.
       Return (stacks \<noteq> [], g\<lparr>gr_stacks := stacks, gr_partial := pu\<rparr>)))"

text \<open>\<^verbatim>\<open>llama_grammar_accept_impl\<close>. The trigger patterns are parameters: each tells whether it matches the buffer, and from where on.\<close>

definition accept_impl :: "nat \<Rightarrow> ollama_vocab \<Rightarrow> (bytes \<Rightarrow> nat option) list \<Rightarrow> 32 word \<Rightarrow> llama_grammar \<Rightarrow> (bool \<times> llama_grammar) run" where
  "accept_impl fuel vocab patterns token g = (case ov_token_to_piece vocab token of
     None \<Rightarrow> Return (False, g)
   | Some piece \<Rightarrow>
       if gr_awaiting_trigger g then
         if sint token \<in> set (gr_trigger_tokens g) then accept_str fuel piece (g\<lparr>gr_awaiting_trigger := False, gr_trigger_buffer := []\<rparr>)
         else (let buffer = gr_trigger_buffer g @ piece in
           case filter (\<lambda>m. m \<noteq> None) (map (\<lambda>pattern. pattern buffer) patterns) of
             Some start # _ \<Rightarrow> accept_str fuel (drop start buffer) (g\<lparr>gr_awaiting_trigger := False, gr_trigger_buffer := []\<rparr>)
           | _ \<Rightarrow> Return (True, g\<lparr>gr_trigger_buffer := buffer\<rparr>))
       else if ov_is_eog vocab token then if [] \<in> set (gr_stacks g) then Return (True, g) else Abort
       else accept_str fuel piece g)"

text \<open>\<^verbatim>\<open>llama_grammar_apply_impl\<close>: a token is masked at once, kept, or a candidate. \<open>None\<close> is the exception of an unknown token.\<close>

datatype token_verdict = Mask | Keep | Candidate bytes

definition token_verdict_of :: "ollama_vocab \<Rightarrow> bool \<Rightarrow> 32 word \<Rightarrow> token_verdict option" where
  "token_verdict_of vocab allow_eog token = map_option (\<lambda>piece.
     if ov_is_eog vocab token then if allow_eog then Keep else Mask
     else if piece = [] \<or> hd piece = 0 then Mask else Candidate piece) (ov_token_to_piece vocab token)"

definition candidates_of :: "partial_utf8 \<Rightarrow> token_verdict list \<Rightarrow> grammar_candidate list" where
  "candidates_of pu vs = concat (map (\<lambda>i. case vs ! i of
     Candidate piece \<Rightarrow> (case decode_utf8 piece pu of (cps, p) \<Rightarrow> [\<lparr>gc_index = i, gc_cps = cps, gc_at = 0, gc_partial = p\<rparr>])
   | _ \<Rightarrow> []) [0..<length vs])"

definition cands_depth :: "grammar_candidate list \<Rightarrow> nat" where
  "cands_depth cands = Suc (foldr (\<lambda>tok. max (length (gc_cps tok))) cands 0)"

definition apply_impl :: "nat \<Rightarrow> ollama_vocab \<Rightarrow> 'l \<Rightarrow> llama_grammar \<Rightarrow> (32 word \<times> 'l) list \<Rightarrow> (32 word \<times> 'l) list option run" where
  "apply_impl fuel vocab neg_inf g cur = (if gr_awaiting_trigger g then Return (Some cur) else
     case map_opt (token_verdict_of vocab ([] \<in> set (gr_stacks g))) (map fst cur) of
       None \<Rightarrow> Return None
     | Some vs \<Rightarrow> (let cands = candidates_of (gr_partial g) vs in
         run_bind (reject_candidates (reject_for_stack (cands_depth cands) fuel (gr_rules g)) (gr_stacks g) cands) (\<lambda>rejects.
           Return (Some (map (\<lambda>i. (fst (cur ! i), if vs ! i = Mask \<or> i \<in> gc_index ` set rejects then neg_inf else snd (cur ! i))) [0..<length cur])))))"

text \<open>A loop over two lists is two loops.\<close>

lemma run_each_append: "run_each f (xs @ ys) s = run_bind (run_each f xs s) (run_each f ys)"
proof (induction xs arbitrary: s)
  case (Cons x xs)
  then show ?case by (cases "f x s") auto
qed simp

end
