(* ===== verification/Grammar_Parse.thy ===== *)
theory Grammar_Parse
  imports Grammar "HOL-Library.AList"
begin

unbundle bit_operations_syntax

text \<open>
  The GBNF parser of \<^verbatim>\<open>llama-grammar.cpp\<close> (\<^verbatim>\<open>llama_grammar_parser\<close>) and the initialisation from a grammar text. A pointer
  into the text is the list of the bytes left before the terminating 0. \<open>Throw\<close> is an exception; its message is not modelled.
  The recursion of sequences, groups and alternates has fuel.
\<close>

subsection \<open>Lexical functions\<close>

definition is_digit_char :: "8 word \<Rightarrow> bool" where
  "is_digit_char c \<longleftrightarrow> 48 \<le> c \<and> c \<le> 57"

definition is_word_char :: "8 word \<Rightarrow> bool" where
  "is_word_char c \<longleftrightarrow> (97 \<le> c \<and> c \<le> 122) \<or> (65 \<le> c \<and> c \<le> 90) \<or> c = 45 \<or> is_digit_char c"

definition hex_digit :: "8 word \<Rightarrow> 32 word option" where
  "hex_digit c = (if 97 \<le> c \<and> c \<le> 102 then Some (ucast c - 97 + 10) else if 65 \<le> c \<and> c \<le> 70 then Some (ucast c - 65 + 10)
     else if 48 \<le> c \<and> c \<le> 57 then Some (ucast c - 48) else None)"

fun parse_hex :: "bytes \<Rightarrow> nat \<Rightarrow> 32 word \<Rightarrow> (32 word \<times> bytes) option" where
  "parse_hex src 0 val = Some (val, src)"
| "parse_hex [] (Suc n) val = None"
| "parse_hex (c # cs) (Suc n) val = (case hex_digit c of None \<Rightarrow> None | Some d \<Rightarrow> parse_hex cs n (push_bit 4 val + d))"

text \<open>A comment runs to the end of the line.\<close>

function parse_space :: "bytes \<Rightarrow> bool \<Rightarrow> bytes" where
  "parse_space [] newline_ok = []"
| "parse_space (c # cs) newline_ok =
     (if c = 35 then parse_space (dropWhile (\<lambda>c. c \<noteq> 13 \<and> c \<noteq> 10) cs) newline_ok
      else if c = 32 \<or> c = 9 \<or> (newline_ok \<and> (c = 13 \<or> c = 10)) then parse_space cs newline_ok
      else c # cs)"
  by pat_completeness auto
termination
  by (relation "measure (\<lambda>(cs, _). length cs)") (auto simp: le_imp_less_Suc length_dropWhile_le)

definition parse_name :: "bytes \<Rightarrow> (bytes \<times> bytes) option" where
  "parse_name src = (if takeWhile is_word_char src = [] then None else Some (takeWhile is_word_char src, dropWhile is_word_char src))"

definition parse_int :: "bytes \<Rightarrow> (bytes \<times> bytes) option" where
  "parse_int src = (if takeWhile is_digit_char src = [] then None else Some (takeWhile is_digit_char src, dropWhile is_digit_char src))"

text \<open>\<^verbatim>\<open>std::stoul\<close> on digits, which throws when the number does not fit in 64 bits, and its conversion to \<^verbatim>\<open>int\<close>.\<close>

definition digits_value :: "bytes \<Rightarrow> int" where
  "digits_value ds = foldl (\<lambda>n d. 10 * n + (uint d - 48)) 0 ds"

definition stoul_int :: "bytes \<Rightarrow> int option" where
  "stoul_int ds = (if digits_value ds < 2 ^ 64 then Some (sint (word_of_int (digits_value ds) :: 32 word)) else None)"

definition parse_char :: "bytes \<Rightarrow> (32 word \<times> bytes) option" where
  "parse_char src = (case src of
     [] \<Rightarrow> None
   | c # cs \<Rightarrow> if c = 92 then (case cs of
         [] \<Rightarrow> None
       | e # es \<Rightarrow>
           if e = 120 then parse_hex es 2 0
           else if e = 117 then parse_hex es 4 0
           else if e = 85 then parse_hex es 8 0
           else if e = 116 then Some (9, es)
           else if e = 114 then Some (13, es)
           else if e = 110 then Some (10, es)
           else if e \<in> {92, 34, 91, 93} then Some (ucast e, es)
           else None)
     else Some (decode_utf8_char c cs))"

subsection \<open>Symbols and rules\<close>

text \<open>\<^verbatim>\<open>symbol_ids\<close> is an association list with distinct keys.\<close>

record grammar_parser =
  gp_symbol_ids :: "(bytes \<times> 32 word) list"
  gp_rules :: grammar_rules

fun dec_digits :: "nat \<Rightarrow> bytes" where
  "dec_digits n = (if n < 10 then [word_of_nat (48 + n)] else dec_digits (n div 10) @ [word_of_nat (48 + n mod 10)])"

declare dec_digits.simps [simp del]

definition get_symbol_id :: "bytes \<Rightarrow> grammar_parser \<Rightarrow> 32 word \<times> grammar_parser" where
  "get_symbol_id name p = (let next_id = word_of_nat (length (gp_symbol_ids p)) in
     case map_of (gp_symbol_ids p) name of
       Some i \<Rightarrow> (i, p)
     | None \<Rightarrow> (next_id, p\<lparr>gp_symbol_ids := gp_symbol_ids p @ [(name, next_id)]\<rparr>))"

definition generate_symbol_id :: "bytes \<Rightarrow> grammar_parser \<Rightarrow> 32 word \<times> grammar_parser" where
  "generate_symbol_id base_name p = (let next_id = word_of_nat (length (gp_symbol_ids p)) in
     (next_id, p\<lparr>gp_symbol_ids := AList.update (base_name @ [95] @ dec_digits (unat next_id)) next_id (gp_symbol_ids p)\<rparr>))"

definition vec_resize :: "nat \<Rightarrow> grammar_rules \<Rightarrow> grammar_rules" where
  "vec_resize n rules = take n rules @ replicate (n - length rules) []"

text \<open>\<^verbatim>\<open>rule_id + 1\<close> is 32 bit arithmetic.\<close>

definition add_rule :: "32 word \<Rightarrow> grammar_rule \<Rightarrow> grammar_parser \<Rightarrow> grammar_parser run" where
  "add_rule rule_id rule p = (let rules = (if length (gp_rules p) \<le> unat rule_id then vec_resize (unat (rule_id + 1)) (gp_rules p) else gp_rules p) in
     if unat rule_id < length rules then Return (p\<lparr>gp_rules := rules[unat rule_id := rule]\<rparr>) else Abort)"

subsection \<open>Repetitions\<close>

text \<open>The rules of the optional part of a repetition; the state is \<open>last_rec_rule_id\<close> and the parser.\<close>

definition rec_rule_of :: "grammar_rule \<Rightarrow> int \<Rightarrow> nat \<Rightarrow> 32 word \<Rightarrow> 32 word \<Rightarrow> grammar_rule" where
  "rec_rule_of prev max_times i rec_rule_id last_rec =
     prev @ (if i > 0 \<or> max_times < 0 then [gelem GRE_RULE_REF (if max_times < 0 then rec_rule_id else last_rec)] else [])
       @ [gelem GRE_ALT 0, gelem GRE_END 0]"

definition rep_step :: "bytes \<Rightarrow> grammar_rule \<Rightarrow> int \<Rightarrow> nat \<Rightarrow> 32 word \<times> grammar_parser \<Rightarrow> (32 word \<times> grammar_parser) run" where
  "rep_step rule_name prev max_times i = (\<lambda>(last_rec, p). case generate_symbol_id rule_name p of (rec_rule_id, p) \<Rightarrow>
     run_bind (add_rule rec_rule_id (rec_rule_of prev max_times i rec_rule_id last_rec) p) (\<lambda>p. Return (rec_rule_id, p)))"

definition handle_repetitions :: "bytes \<Rightarrow> nat \<Rightarrow> int \<Rightarrow> int \<Rightarrow> grammar_rule \<times> grammar_parser \<Rightarrow> (grammar_rule \<times> grammar_parser) run" where
  "handle_repetitions rule_name last_sym_start min_times max_times = (\<lambda>(rule, p).
     if last_sym_start = length rule then Throw else
     let prev = drop last_sym_start rule;
         rule = (if min_times = 0 then take last_sym_start rule else rule @ concat (replicate (nat (min_times - 1)) prev));
         n_opt = (if max_times < 0 then 1 else max_times - min_times) in
     if n_opt > INT32_MAX then Abort else
     run_bind (run_each (rep_step rule_name prev max_times) [0..<nat n_opt] (0, p)) (\<lambda>(last_rec, p).
       Return (if n_opt > 0 then rule @ [gelem GRE_RULE_REF last_rec] else rule, p)))"

subsection \<open>Elements of a sequence\<close>

lemma parse_hex_length: "parse_hex src n v = Some (c, rest) \<Longrightarrow> length rest \<le> length src"
  by (induction src n v rule: parse_hex.induct) (auto split: option.splits)

lemma decode_rest_length: "length (snd (decode_rest n bs v)) \<le> length bs"
  by (induction n bs v rule: decode_rest.induct) auto

lemma parse_char_length: "parse_char src = Some (c, rest) \<Longrightarrow> length rest < length src"
proof -
  assume a: "parse_char src = Some (c, rest)"
  then obtain b bs where src: "src = b # bs" by (cases src) (auto simp: parse_char_def)
  show ?thesis
  proof (cases "b = 92")
    case True
    then obtain e es where bs: "bs = e # es" using a src by (cases bs) (auto simp: parse_char_def)
    then have "length rest \<le> length es" using a src True by (auto simp: parse_char_def dest: parse_hex_length split: if_splits)
    then show ?thesis using src bs by simp
  next
    case False
    then have "rest = snd (decode_utf8_char b bs)" using a src by (auto simp: parse_char_def)
    then show ?thesis using src decode_rest_length by (auto simp: decode_utf8_char_def less_Suc_eq_le)
  qed
qed

text \<open>A literal string up to its closing quote.\<close>

function literal :: "bytes \<Rightarrow> grammar_rule \<Rightarrow> (bytes \<times> grammar_rule) option" where
  "literal src rule = (case src of
     [] \<Rightarrow> None
   | c # cs \<Rightarrow> if c = 34 then Some (cs, rule) else (case parse_char src of
       None \<Rightarrow> None
     | Some (chr, rest) \<Rightarrow> literal rest (rule @ [gelem GRE_CHAR chr])))"
  by pat_completeness auto
termination
  by (relation "measure (\<lambda>(src, _). length src)") (auto dest: parse_char_length)

text \<open>The ranges of a character class up to the closing bracket.\<close>

definition class_start :: "llama_gretype \<Rightarrow> nat \<Rightarrow> 32 word \<Rightarrow> grammar_rule \<Rightarrow> grammar_rule" where
  "class_start start_type last_sym_start chr rule = rule @ [gelem (if last_sym_start < length rule then GRE_CHAR_ALT else start_type) chr]"

definition class_upper :: "bytes \<Rightarrow> grammar_rule \<Rightarrow> (bytes \<times> grammar_rule) option" where
  "class_upper pos rule = (case pos of
     c # cs \<Rightarrow> if c = 45 \<and> \<not> (cs \<noteq> [] \<and> hd cs = 93) then
         if cs = [] then None
         else map_option (\<lambda>(upper, rest). (rest, rule @ [gelem GRE_CHAR_RNG_UPPER upper])) (parse_char cs)
       else Some (pos, rule)
   | [] \<Rightarrow> Some (pos, rule))"

lemma class_upper_length: "class_upper pos rule = Some (rest, rule') \<Longrightarrow> length rest \<le> length pos"
  by (auto simp: class_upper_def dest: parse_char_length split: list.splits if_splits)

function char_class :: "llama_gretype \<Rightarrow> nat \<Rightarrow> bytes \<Rightarrow> grammar_rule \<Rightarrow> (bytes \<times> grammar_rule) option" where
  "char_class start_type last_sym_start src rule = (case src of
     [] \<Rightarrow> None
   | c # cs \<Rightarrow> if c = 93 then Some (cs, rule) else (case parse_char src of
       None \<Rightarrow> None
     | Some (chr, rest) \<Rightarrow> (case class_upper rest (class_start start_type last_sym_start chr rule) of
         None \<Rightarrow> None
       | Some (rest, rule) \<Rightarrow> char_class start_type last_sym_start rest rule)))"
  by pat_completeness auto
termination
  by (relation "measure (\<lambda>(_, _, src, _). length src)") (auto dest!: parse_char_length class_upper_length)

declare literal.simps [simp del] char_class.simps [simp del]

text \<open>The bounds of \<^verbatim>\<open>{m}\<close>, \<^verbatim>\<open>{m,}\<close> and \<^verbatim>\<open>{m,n}\<close>, behind the opening brace.\<close>

definition parse_bounds :: "bool \<Rightarrow> bytes \<Rightarrow> (int \<times> int \<times> bytes) option" where
  "parse_bounds is_nested src = do {
     let pos = parse_space src is_nested;
     (ds, pos) \<leftarrow> parse_int pos;
     min_times \<leftarrow> stoul_int ds;
     let pos = parse_space pos is_nested;
     if pos \<noteq> [] \<and> hd pos = 125 then Some (min_times, min_times, parse_space (tl pos) is_nested)
     else if pos \<noteq> [] \<and> hd pos = 44 then do {
       let pos = parse_space (tl pos) is_nested;
       (max_times, pos) \<leftarrow> (if pos \<noteq> [] \<and> is_digit_char (hd pos) then do {
           (ds, pos) \<leftarrow> parse_int pos;
           max_times \<leftarrow> stoul_int ds;
           Some (max_times, parse_space pos is_nested) }
         else Some (-1, pos));
       if pos \<noteq> [] \<and> hd pos = 125 then Some (min_times, max_times, parse_space (tl pos) is_nested) else None }
     else None }"

definition throw_opt :: "'a option \<Rightarrow> ('a \<Rightarrow> 'b run) \<Rightarrow> 'b run" where
  "throw_opt x f = (case x of None \<Rightarrow> Throw | Some y \<Rightarrow> f y)"

text \<open>
  The loop of \<^verbatim>\<open>parse_sequence\<close> keeps \<^verbatim>\<open>last_sym_start\<close>, the position, the rule and the parser. \<open>seq_item\<close> is one turn of it
  for an element other than a group; \<open>Return None\<close> is the \<^verbatim>\<open>break\<close>.
\<close>

type_synonym seq_state = "nat \<times> bytes \<times> grammar_rule \<times> grammar_parser"

definition seq_item :: "bytes \<Rightarrow> bool \<Rightarrow> 8 word \<Rightarrow> bytes \<Rightarrow> nat \<Rightarrow> grammar_rule \<Rightarrow> grammar_parser \<Rightarrow> seq_state option run" where
  "seq_item rule_name is_nested c cs last_sym_start rule p =
     (let rep = (\<lambda>min_times max_times pos. run_bind (handle_repetitions rule_name last_sym_start min_times max_times (rule, p))
            (\<lambda>(rule, p). Return (Some (last_sym_start, pos, rule, p)))) in
      if c = 34 then throw_opt (literal cs rule) (\<lambda>(pos, rule'). Return (Some (length rule, parse_space pos is_nested, rule', p)))
      else if c = 91 then
        (let neg = (cs \<noteq> [] \<and> hd cs = 94) in
         throw_opt (char_class (if neg then GRE_CHAR_NOT else GRE_CHAR) (length rule) (if neg then tl cs else cs) rule)
           (\<lambda>(pos, rule'). Return (Some (length rule, parse_space pos is_nested, rule', p))))
      else if is_word_char c then
        throw_opt (parse_name (c # cs)) (\<lambda>(name, pos). case get_symbol_id name p of (ref, p) \<Rightarrow>
          Return (Some (length rule, parse_space pos is_nested, rule @ [gelem GRE_RULE_REF ref], p)))
      else if c = 46 then Return (Some (length rule, parse_space cs is_nested, rule @ [gelem GRE_CHAR_ANY 0], p))
      else if c = 42 then rep 0 (-1) (parse_space cs is_nested)
      else if c = 43 then rep 1 (-1) (parse_space cs is_nested)
      else if c = 63 then rep 0 1 (parse_space cs is_nested)
      else if c = 123 then throw_opt (parse_bounds is_nested cs) (\<lambda>(min_times, max_times, pos). rep min_times max_times pos)
      else Return None)"

subsection \<open>Sequences, alternates, rules\<close>

text \<open>The loops of \<^verbatim>\<open>parse_sequence\<close> and \<^verbatim>\<open>parse_alternates\<close>; \<open>parse_group\<close> is the call of \<^verbatim>\<open>parse_alternates\<close> for a group.\<close>

type_synonym group_parser = "32 word \<Rightarrow> bytes \<Rightarrow> grammar_parser \<Rightarrow> (bytes \<times> grammar_parser) run"

primrec parse_sequence :: "nat \<Rightarrow> group_parser \<Rightarrow> bytes \<Rightarrow> bool \<Rightarrow> nat \<Rightarrow> bytes \<Rightarrow> grammar_rule \<Rightarrow> grammar_parser
    \<Rightarrow> (bytes \<times> grammar_rule \<times> grammar_parser) run" where
  "parse_sequence 0 parse_group rule_name is_nested last_sym_start src rule p = Fuel_Out"
| "parse_sequence (Suc n) parse_group rule_name is_nested last_sym_start src rule p = (case src of
     [] \<Rightarrow> Return ([], rule, p)
   | c # cs \<Rightarrow> if c = 40 then
       (case generate_symbol_id rule_name p of (sub_rule_id, p) \<Rightarrow>
        run_bind (parse_group sub_rule_id (parse_space cs True) p) (\<lambda>(pos, p).
          if pos \<noteq> [] \<and> hd pos = 41 then
            parse_sequence n parse_group rule_name is_nested (length rule) (parse_space (tl pos) is_nested) (rule @ [gelem GRE_RULE_REF sub_rule_id]) p
          else Throw))
     else run_bind (seq_item rule_name is_nested c cs last_sym_start rule p) (\<lambda>r. case r of
         None \<Rightarrow> Return (c # cs, rule, p)
       | Some (last_sym_start, pos, rule, p) \<Rightarrow> parse_sequence n parse_group rule_name is_nested last_sym_start pos rule p))"

primrec more_alternates :: "nat \<Rightarrow> nat \<Rightarrow> group_parser \<Rightarrow> bytes \<Rightarrow> 32 word \<Rightarrow> bool \<Rightarrow> bytes \<Rightarrow> grammar_rule \<Rightarrow> grammar_parser
    \<Rightarrow> (bytes \<times> grammar_parser) run" where
  "more_alternates 0 fuel parse_group rule_name rule_id is_nested pos rule p = Fuel_Out"
| "more_alternates (Suc n) fuel parse_group rule_name rule_id is_nested pos rule p =
     (if pos \<noteq> [] \<and> hd pos = 124 then
        (let rule = rule @ [gelem GRE_ALT 0] in
         run_bind (parse_sequence fuel parse_group rule_name is_nested (length rule) (parse_space (tl pos) True) rule p)
           (\<lambda>(pos, rule, p). more_alternates n fuel parse_group rule_name rule_id is_nested pos rule p))
      else run_bind (add_rule rule_id (rule @ [gelem GRE_END 0]) p) (\<lambda>p. Return (pos, p)))"

text \<open>\<open>depth\<close> bounds the nesting of groups, \<open>fuel\<close> the turns of the loops.\<close>

primrec parse_alternates :: "nat \<Rightarrow> nat \<Rightarrow> bytes \<Rightarrow> bool \<Rightarrow> group_parser" where
  "parse_alternates 0 fuel rule_name is_nested rule_id src p = Fuel_Out"
| "parse_alternates (Suc depth) fuel rule_name is_nested rule_id src p =
     (let parse_group = parse_alternates depth fuel rule_name True in
      run_bind (parse_sequence fuel parse_group rule_name is_nested 0 src [] p) (\<lambda>(pos, rule, p).
        more_alternates fuel fuel parse_group rule_name rule_id is_nested pos rule p))"

definition rule_end :: "bytes \<Rightarrow> bytes option" where
  "rule_end pos = (case pos of
     [] \<Rightarrow> Some []
   | c # cs \<Rightarrow> if c = 13 then Some (if cs \<noteq> [] \<and> hd cs = 10 then tl cs else cs) else if c = 10 then Some cs else None)"

definition parse_rule :: "nat \<Rightarrow> bytes \<Rightarrow> grammar_parser \<Rightarrow> (bytes \<times> grammar_parser) run" where
  "parse_rule fuel src p = throw_opt (parse_name src) (\<lambda>(name, pos).
     let pos = parse_space pos False in
     case get_symbol_id name p of (rule_id, p) \<Rightarrow>
       if take 3 pos = [58, 58, 61] then
         run_bind (parse_alternates fuel fuel name False rule_id (parse_space (drop 3 pos) True) p) (\<lambda>(pos, p).
           throw_opt (rule_end pos) (\<lambda>pos. Return (parse_space pos True, p)))
       else Throw)"

primrec parse_rules :: "nat \<Rightarrow> nat \<Rightarrow> bytes \<Rightarrow> grammar_parser \<Rightarrow> grammar_parser run" where
  "parse_rules 0 fuel pos p = Fuel_Out"
| "parse_rules (Suc n) fuel pos p = (if pos = [] then Return p
     else run_bind (parse_rule fuel pos p) (\<lambda>(pos, p). parse_rules n fuel pos p))"

text \<open>The validation: an undefined reference is an error if a symbol has its id, as the search for the name throws.\<close>

definition undefined_ref :: "grammar_parser \<Rightarrow> grammar_element \<Rightarrow> bool" where
  "undefined_ref p e \<longleftrightarrow> ge_type e = GRE_RULE_REF \<and> (unat (ge_value e) \<ge> length (gp_rules p) \<or> gp_rules p ! unat (ge_value e) = []) \<and>
     ge_value e \<in> snd ` set (gp_symbol_ids p)"

definition rules_valid :: "grammar_parser \<Rightarrow> bool" where
  "rules_valid p \<longleftrightarrow> (\<forall>rule \<in> set (gp_rules p). rule \<noteq> [] \<and> (\<forall>e \<in> set rule. \<not> undefined_ref p e))"

text \<open>\<^verbatim>\<open>parse\<close> on a new parser; \<open>None\<close> is the result false, with the rules cleared.\<close>

definition catch_throw :: "'a run \<Rightarrow> 'a option run" where
  "catch_throw r = (case r of Fuel_Out \<Rightarrow> Fuel_Out | Abort \<Rightarrow> Abort | Throw \<Rightarrow> Return None | Return x \<Rightarrow> Return (Some x))"

definition parse_fuel :: "bytes \<Rightarrow> nat" where
  "parse_fuel src = Suc (length src)"

definition parse_grammar :: "bytes \<Rightarrow> grammar_parser option run" where
  "parse_grammar src = (let fuel = parse_fuel src; src = takeWhile (\<lambda>c. c \<noteq> 0) src in
     catch_throw (run_bind (parse_rules fuel fuel (parse_space src True) \<lparr>gp_symbol_ids = [], gp_rules = []\<rparr>)
       (\<lambda>p. if rules_valid p then Return p else Throw)))"

text \<open>\<^verbatim>\<open>llama_grammar_init_impl\<close> on a text; the bytes of \<^verbatim>\<open>root\<close> are looked up before those of \<open>grammar_root\<close>.\<close>

definition root_name :: bytes where
  "root_name = [114, 111, 111, 116]"

definition grammar_init_str :: "nat \<Rightarrow> bytes \<Rightarrow> bytes \<Rightarrow> bool \<Rightarrow> int list \<Rightarrow> llama_grammar option run" where
  "grammar_init_str fuel grammar_str grammar_root lazy tokens = run_bind (parse_grammar grammar_str) (\<lambda>r. case r of
     None \<Rightarrow> Return None
   | Some p \<Rightarrow>
       if gp_rules p = [] then Return None
       else if map_of (gp_symbol_ids p) root_name = None then Return None
       else (case map_of (gp_symbol_ids p) grammar_root of
         None \<Rightarrow> Throw
       | Some start \<Rightarrow> grammar_init fuel (gp_rules p) (unat start) lazy tokens))"

end
