(* ===== verification/Grammar_Lang.thy ===== *)
theory Grammar_Lang
  imports Grammar
begin

text \<open>
  The language of a grammar, and the stacks as a representation of what may still follow: advancing a stack keeps its
  language, accepting a character takes it off.
\<close>

subsection \<open>Well-formed rules\<close>

definition chained :: "grammar_element \<Rightarrow> grammar_element \<Rightarrow> bool" where
  "chained e e1 \<longleftrightarrow> (ge_type e1 = GRE_CHAR_RNG_UPPER \<longrightarrow> ge_type e \<in> {GRE_CHAR, GRE_CHAR_NOT, GRE_CHAR_ALT}) \<and>
     (ge_type e1 = GRE_CHAR_ALT \<longrightarrow> ge_type e \<in> {GRE_CHAR, GRE_CHAR_NOT, GRE_CHAR_ALT, GRE_CHAR_RNG_UPPER})"

definition inner :: "grammar_element \<Rightarrow> bool" where
  "inner e \<longleftrightarrow> ge_type e = GRE_CHAR_RNG_UPPER \<or> ge_type e = GRE_CHAR_ALT"

definition rule_ok :: "nat \<Rightarrow> grammar_rule \<Rightarrow> bool" where
  "rule_ok n rule \<longleftrightarrow> rule \<noteq> [] \<and> \<not> inner (hd rule) \<and> successively chained rule \<and> ge_type (last rule) = GRE_END \<and>
     (\<forall>e \<in> set (butlast rule). ge_type e \<noteq> GRE_END) \<and> (\<forall>e \<in> set rule. ge_type e = GRE_RULE_REF \<longrightarrow> unat (ge_value e) < n)"

definition rules_ok :: "grammar_rules \<Rightarrow> bool" where
  "rules_ok rules \<longleftrightarrow> (\<forall>rule \<in> set rules. rule_ok (length rules) rule)"

definition is_char :: "grammar_element \<Rightarrow> bool" where
  "is_char e \<longleftrightarrow> ge_type e \<in> {GRE_CHAR, GRE_CHAR_NOT, GRE_CHAR_ANY}"

text \<open>A position where an element starts.\<close>

definition pos_ok :: "grammar_rules \<Rightarrow> grammar_pos \<Rightarrow> bool" where
  "pos_ok rules p \<longleftrightarrow> (\<exists>e. elem_at rules p = Some e \<and> \<not> inner e)"

definition top_ok :: "grammar_rules \<Rightarrow> grammar_pos \<Rightarrow> bool" where
  "top_ok rules p \<longleftrightarrow> (\<exists>e. elem_at rules p = Some e \<and> \<not> inner e \<and> \<not> is_end_of_sequence e)"

abbreviation stack_ok :: "grammar_rules \<Rightarrow> grammar_stack \<Rightarrow> bool" where
  "stack_ok rules st \<equiv> list_all (top_ok rules) st"

text \<open>A stack that matching can use: empty, or at a character class.\<close>

definition ready :: "grammar_rules \<Rightarrow> grammar_stack \<Rightarrow> bool" where
  "ready rules st \<longleftrightarrow> (case st of [] \<Rightarrow> True | p # _ \<Rightarrow> \<exists>e. elem_at rules p = Some e \<and> is_char e)"

lemma opt_run_simps [simp]: "opt_run None f = Abort" "opt_run (Some x) f = f x"
  by (simp_all add: opt_run_def)

lemma opt_run_Return: "opt_run x f = Return y \<longleftrightarrow> (\<exists>z. x = Some z \<and> f z = Return y)"
  by (cases x) auto

lemma run_bind_Return: "run_bind x f = Return y \<longleftrightarrow> (\<exists>z. x = Return z \<and> f z = Return y)"
  by (cases x) auto

lemma elem_at_Some: "elem_at rules p = Some e \<longleftrightarrow> fst p < length rules \<and> snd p < length (rules ! fst p) \<and> e = rules ! fst p ! snd p"
  by (auto simp: elem_at_def vec_at_Some_iff bind_eq_Some_conv)

lemma successively_drop: "successively P xs \<Longrightarrow> successively P (drop n xs)"
  by (metis append_take_drop_id successively_append_iff)

lemma rules_okD:
  assumes "rules_ok rules" "r < length rules"
  shows "rules ! r \<noteq> []" "successively chained (rules ! r)" "ge_type (last (rules ! r)) = GRE_END" "\<not> inner (hd (rules ! r))"
    "i < length (rules ! r) \<Longrightarrow> ge_type (rules ! r ! i) = GRE_END \<longleftrightarrow> i = length (rules ! r) - 1"
    "e \<in> set (rules ! r) \<Longrightarrow> ge_type e = GRE_RULE_REF \<Longrightarrow> unat (ge_value e) < length rules"
proof -
  have ok: "rule_ok (length rules) (rules ! r)" using assms by (simp add: rules_ok_def)
  then show "rules ! r \<noteq> []" "successively chained (rules ! r)" "ge_type (last (rules ! r)) = GRE_END" "\<not> inner (hd (rules ! r))"
    "e \<in> set (rules ! r) \<Longrightarrow> ge_type e = GRE_RULE_REF \<Longrightarrow> unat (ge_value e) < length rules"
    by (auto simp: rule_ok_def)
  show "i < length (rules ! r) \<Longrightarrow> ge_type (rules ! r ! i) = GRE_END \<longleftrightarrow> i = length (rules ! r) - 1"
  proof
    assume i: "i < length (rules ! r)" "ge_type (rules ! r ! i) = GRE_END"
    show "i = length (rules ! r) - 1"
    proof (rule ccontr)
      assume "\<not> ?thesis"
      then have "i < length (butlast (rules ! r))" using i by simp
      then have "rules ! r ! i \<in> set (butlast (rules ! r))" by (metis nth_butlast nth_mem)
      then show False using ok i(2) by (auto simp: rule_ok_def)
    qed
  next
    assume "i = length (rules ! r) - 1"
    then show "ge_type (rules ! r ! i) = GRE_END" using ok by (auto simp: rule_ok_def last_conv_nth)
  qed
qed

text \<open>The element behind one that is not the end of the rule exists; behind an end or a reference an element starts.\<close>

lemma next_ok:
  assumes ok: "rules_ok rules" and e: "elem_at rules p = Some e" "ge_type e \<noteq> GRE_END"
  obtains e' where "elem_at rules (next_pos p) = Some e'" "chained e e'"
proof -
  obtain r i where p: "p = (r, i)" by (cases p)
  have r: "r < length rules" "i < length (rules ! r)" "e = rules ! r ! i" using e(1) p by (auto simp: elem_at_Some)
  then have i: "Suc i < length (rules ! r)" using rules_okD(5)[OF ok r(1) r(2)] e(2) by auto
  have "successively chained (drop i (rules ! r))" by (rule successively_drop) (rule rules_okD(2)[OF ok r(1)])
  moreover have "drop i (rules ! r) = e # rules ! r ! Suc i # drop (Suc (Suc i)) (rules ! r)" using r i by (metis Cons_nth_drop_Suc)
  ultimately have "chained e (rules ! r ! Suc i)" by simp
  then show thesis using that i r(1) p by (simp add: elem_at_Some next_pos_def)
qed

lemma ref_next_ok:
  assumes "rules_ok rules" "elem_at rules p = Some e" "ge_type e \<in> {GRE_RULE_REF, GRE_ALT, GRE_CHAR_ANY}"
  shows "pos_ok rules (next_pos p)"
proof -
  have ne: "ge_type e \<noteq> GRE_END" using assms(3) by auto
  obtain e' where "elem_at rules (next_pos p) = Some e'" "chained e e'" using next_ok[OF assms(1,2) ne] .
  then show ?thesis using assms(3) by (auto simp: pos_ok_def chained_def inner_def)
qed

lemma push_pos_ok:
  assumes "pos_ok rules p" "stack_ok rules st"
  shows "\<exists>st'. push_pos rules p st = Some st' \<and> stack_ok rules st'"
  using assms by (auto simp: pos_ok_def push_pos_def top_ok_def)

subsection \<open>Character classes\<close>

lemma match_loop_ok:
  assumes "successively chained (e # es)" "ge_type (last (e # es)) = GRE_END" "ge_type e \<in> {GRE_CHAR, GRE_CHAR_NOT, GRE_CHAR_ALT, GRE_CHAR_ANY}"
  shows "\<exists>k. 0 < k \<and> k < length (e # es) \<and> \<not> inner ((e # es) ! k) \<and> (\<forall>chr found acc. \<exists>found'. match_loop (e # es) chr found acc = Some (found', acc + k))"
  using assms
proof (induction "length es" arbitrary: e es rule: less_induct)
  case less
  obtain e1 es1 where es: "es = e1 # es1" using less.prems(2,3) by (cases es) auto
  have ch: "chained e e1" "successively chained es" using less.prems(1) es by auto
  show ?case
  proof (cases "ge_type e1 = GRE_CHAR_RNG_UPPER")
    case rng: True
    obtain x xs where x: "es1 = x # xs" using less.prems(2) es rng by (cases es1) auto
    have cx: "chained e1 x" "successively chained (x # xs)" using ch(2) es x by auto
    show ?thesis
    proof (cases "ge_type x = GRE_CHAR_ALT")
      case True
      obtain k where k: "0 < k" "k < length (x # xs)" "\<not> inner ((x # xs) ! k)"
          "\<forall>chr found acc. \<exists>found'. match_loop (x # xs) chr found acc = Some (found', acc + k)"
        using less.hyps[of xs x] cx(2) less.prems(2) es x True by auto
      have "\<exists>found'. match_loop (e # es) chr found acc = Some (found', acc + (k + 2))" for chr found acc
        using k(4)[rule_format, of chr _ "acc + 2"] es x rng True by (simp add: Let_def ac_simps)
      then show ?thesis using k(1-3) es x by (intro exI[of _ "k + 2"]) auto
    next
      case False
      then show ?thesis using es x rng cx(1) by (intro exI[of _ 2]) (auto simp: Let_def inner_def chained_def)
    qed
  next
    case nrng: False
    show ?thesis
    proof (cases "ge_type e1 = GRE_CHAR_ALT")
      case True
      obtain k where k: "0 < k" "k < length (e1 # es1)" "\<not> inner ((e1 # es1) ! k)"
          "\<forall>chr found acc. \<exists>found'. match_loop (e1 # es1) chr found acc = Some (found', acc + k)"
        using less.hyps[of es1 e1] ch(2) less.prems(2) es True by auto
      have "\<exists>found'. match_loop (e # es) chr found acc = Some (found', acc + (k + 1))" for chr found acc
        using k(4)[rule_format, of chr _ "acc + 1"] es nrng True by (simp add: Let_def ac_simps)
      then show ?thesis using k(1-3) es by (intro exI[of _ "k + 1"]) auto
    next
      case False
      then show ?thesis using es nrng by (intro exI[of _ 1]) (auto simp: Let_def inner_def)
    qed
  qed
qed

lemma match_char_ok:
  assumes ok: "rules_ok rules" and e: "elem_at rules p = Some e" "is_char e"
  shows "\<exists>p'. pos_ok rules p' \<and> (\<forall>c. \<exists>found. match_char rules p c = Some (found, p'))"
proof -
  obtain r i where p: "p = (r, i)" by (cases p)
  have r: "r < length rules" "i < length (rules ! r)" "e = rules ! r ! i" using e(1) p by (auto simp: elem_at_Some)
  have d: "drop i (rules ! r) = e # drop (Suc i) (rules ! r)" using r by (metis Cons_nth_drop_Suc)
  have "successively chained (e # drop (Suc i) (rules ! r))" using successively_drop[OF rules_okD(2)[OF ok r(1)], of i] d by simp
  moreover have "ge_type (last (e # drop (Suc i) (rules ! r))) = GRE_END" using rules_okD(3)[OF ok r(1)] r(2) d by (metis last_drop)
  ultimately obtain k where k: "k < length (e # drop (Suc i) (rules ! r))" "\<not> inner ((e # drop (Suc i) (rules ! r)) ! k)"
      "\<forall>chr found acc. \<exists>found'. match_loop (e # drop (Suc i) (rules ! r)) chr found acc = Some (found', acc + k)"
    using match_loop_ok[of e "drop (Suc i) (rules ! r)"] e(2) by (auto simp: is_char_def)
  have "i + k < length (rules ! r)" "\<not> inner (rules ! r ! (i + k))" using k(1,2) r(2) d[symmetric] by auto
  then have "pos_ok rules (r, i + k)" using r(1) by (simp add: pos_ok_def elem_at_Some)
  moreover have "\<exists>found. match_char rules p c = Some (found, (r, i + k))" for c
  proof -
    obtain found where "match_loop (drop i (rules ! r)) c False 0 = Some (found, k)" using k(3) d by (metis add_0)
    then show ?thesis using r e(2) p by (auto simp: match_char_def is_char_def is_positive_char_def)
  qed
  ultimately show ?thesis by blast
qed

lemma alt_next_ok:
  assumes "es = drop i rule" "i \<le> length rule" "rule \<noteq> []" "ge_type (last rule) = GRE_END" "i < length rule"
  shows "\<exists>subs. alt_next i es = Some subs \<and> (\<forall>s \<in> set subs. 0 < s \<and> s < length rule \<and> ge_type (rule ! (s - 1)) = GRE_ALT)"
  using assms
proof (induction i es rule: alt_next.induct)
  case (1 i)
  then show ?case by simp
next
  case (2 i e es)
  have e: "e = rule ! i" "es = drop (Suc i) rule" using 2(3) 2(7) by (metis Cons_nth_drop_Suc list.inject)+
  show ?case
  proof (cases "ge_type e = GRE_END")
    case False
    then have i: "Suc i < length rule" using e(1) 2(6,7) by (metis Suc_lessI diff_Suc_1 last_conv_nth 2(5))
    then show ?thesis using 2(1,2)[of] False e 2(5,6) by (auto simp: less_Suc_eq_le)
  qed simp
qed

lemma alt_starts_ok:
  assumes ok: "rules_ok rules" and r: "r < length rules"
  shows "\<exists>subs. alt_starts (rules ! r) = Some subs \<and> 0 \<in> set subs \<and> (\<forall>s \<in> set subs. pos_ok rules (r, s))"
proof -
  note d = rules_okD[OF ok r]
  obtain subs where subs: "alt_next 0 (rules ! r) = Some subs"
      "\<forall>s \<in> set subs. 0 < s \<and> s < length (rules ! r) \<and> ge_type (rules ! r ! (s - 1)) = GRE_ALT"
    using alt_next_ok[of "rules ! r" 0 "rules ! r"] d(1,3) by auto
  have "pos_ok rules (r, 0)" using d(1,4) r by (auto simp: pos_ok_def elem_at_Some hd_conv_nth)
  moreover have "pos_ok rules (r, s)" if "s \<in> set subs" for s
  proof -
    have "pos_ok rules (next_pos (r, s - 1))" using subs(2) that r by (intro ref_next_ok[OF ok]) (auto simp: elem_at_Some)
    then show ?thesis using subs(2) that by (simp add: next_pos_def)
  qed
  ultimately show ?thesis using subs(1) by (auto simp: alt_starts_def)
qed

subsection \<open>The language\<close>

inductive seq_lang :: "grammar_rules \<Rightarrow> grammar_pos \<Rightarrow> 32 word list \<Rightarrow> bool" for rules where
  finish: "elem_at rules p = Some e \<Longrightarrow> is_end_of_sequence e \<Longrightarrow> seq_lang rules p []"
| char: "match_char rules p c = Some (True, p') \<Longrightarrow> seq_lang rules p' w \<Longrightarrow> seq_lang rules p (c # w)"
| ref: "elem_at rules p = Some e \<Longrightarrow> ge_type e = GRE_RULE_REF \<Longrightarrow> vec_at rules (unat (ge_value e)) = Some rule \<Longrightarrow> alt_starts rule = Some subs \<Longrightarrow>
    s \<in> set subs \<Longrightarrow> seq_lang rules (unat (ge_value e), s) u \<Longrightarrow> seq_lang rules (next_pos p) v \<Longrightarrow> seq_lang rules p (u @ v)"

definition grammar_lang :: "grammar_rules \<Rightarrow> nat \<Rightarrow> 32 word list \<Rightarrow> bool" where
  "grammar_lang rules start w \<longleftrightarrow> (\<exists>rule subs s. vec_at rules start = Some rule \<and> alt_starts rule = Some subs \<and> s \<in> set subs \<and> seq_lang rules (start, s) w)"

primrec stack_lang :: "grammar_rules \<Rightarrow> grammar_stack \<Rightarrow> 32 word list \<Rightarrow> bool" where
  "stack_lang rules [] w \<longleftrightarrow> w = []"
| "stack_lang rules (p # st) w \<longleftrightarrow> (\<exists>u v. w = u @ v \<and> seq_lang rules p u \<and> stack_lang rules st v)"

definition stacks_lang :: "grammar_rules \<Rightarrow> grammar_stack list \<Rightarrow> 32 word list \<Rightarrow> bool" where
  "stacks_lang rules sts w \<longleftrightarrow> (\<exists>st \<in> set sts. stack_lang rules st w)"

lemma match_char_is_char: "match_char rules p c = Some r \<Longrightarrow> \<exists>e. elem_at rules p = Some e \<and> is_char e"
  by (auto simp: match_char_def elem_at_def bind_eq_Some_conv is_char_def is_positive_char_def)

lemma seq_lang_end: "elem_at rules p = Some e \<Longrightarrow> is_end_of_sequence e \<Longrightarrow> seq_lang rules p w \<longleftrightarrow> w = []"
  by (auto simp: is_end_of_sequence_def is_char_def elim: seq_lang.cases dest!: match_char_is_char intro: seq_lang.finish)

lemma seq_lang_char:
  assumes "elem_at rules p = Some e" "is_char e"
  shows "seq_lang rules p w \<longleftrightarrow> (\<exists>c v p'. w = c # v \<and> match_char rules p c = Some (True, p') \<and> seq_lang rules p' v)"
proof
  assume "seq_lang rules p w"
  then show "\<exists>c v p'. w = c # v \<and> match_char rules p c = Some (True, p') \<and> seq_lang rules p' v"
    using assms by (cases rule: seq_lang.cases) (auto simp: is_end_of_sequence_def is_char_def)
qed (auto intro: seq_lang.char)

lemma seq_lang_ref:
  assumes "elem_at rules p = Some e" "ge_type e = GRE_RULE_REF"
  shows "seq_lang rules p w \<longleftrightarrow> (\<exists>u v. w = u @ v \<and> grammar_lang rules (unat (ge_value e)) u \<and> seq_lang rules (next_pos p) v)"
proof
  assume "seq_lang rules p w"
  then show "\<exists>u v. w = u @ v \<and> grammar_lang rules (unat (ge_value e)) u \<and> seq_lang rules (next_pos p) v"
    using assms by (cases rule: seq_lang.cases) (auto simp: is_end_of_sequence_def is_char_def grammar_lang_def dest!: match_char_is_char)
next
  assume "\<exists>u v. w = u @ v \<and> grammar_lang rules (unat (ge_value e)) u \<and> seq_lang rules (next_pos p) v"
  then show "seq_lang rules p w" using assms by (auto simp: grammar_lang_def intro: seq_lang.ref)
qed

lemma push_pos_lang:
  assumes "push_pos rules p st = Some st'"
  shows "stack_lang rules st' w \<longleftrightarrow> (\<exists>u v. w = u @ v \<and> seq_lang rules p u \<and> stack_lang rules st v)"
proof -
  obtain e where e: "elem_at rules p = Some e" "st' = (if is_end_of_sequence e then st else p # st)"
    using assms by (auto simp: push_pos_def bind_eq_Some_conv)
  show ?thesis
  proof (cases "is_end_of_sequence e")
    case True
    then show ?thesis using e seq_lang_end[OF e(1)] by simp
  next
    case False
    then show ?thesis using e(2) by simp
  qed
qed

lemma stack_lang_ref:
  assumes e: "elem_at rules p = Some e" "ge_type e = GRE_RULE_REF" and rule: "vec_at rules (unat (ge_value e)) = Some rule" "alt_starts rule = Some subs"
    and st1: "push_pos rules (next_pos p) st = Some st1" and st2: "\<forall>s \<in> set subs. push_pos rules (unat (ge_value e), s) st1 = Some (st2 s)"
  shows "stack_lang rules (p # st) w \<longleftrightarrow> (\<exists>s \<in> set subs. stack_lang rules (st2 s) w)"
proof -
  have "stack_lang rules (p # st) w \<longleftrightarrow> (\<exists>x y. w = x @ y \<and> grammar_lang rules (unat (ge_value e)) x \<and> stack_lang rules st1 y)"
    unfolding push_pos_lang[OF st1] by (simp add: seq_lang_ref[OF e]) (metis append.assoc)
  also have "\<dots> \<longleftrightarrow> (\<exists>s \<in> set subs. \<exists>x y. w = x @ y \<and> seq_lang rules (unat (ge_value e), s) x \<and> stack_lang rules st1 y)"
    using rule by (auto simp: grammar_lang_def)
  also have "\<dots> \<longleftrightarrow> (\<exists>s \<in> set subs. stack_lang rules (st2 s) w)" using push_pos_lang st2 by (metis (no_types, lifting))
  finally show ?thesis .
qed

subsection \<open>Advancing\<close>

lemma run_each_Return_inv:
  assumes "run_each f xs s = Return s'" "I [] s" "\<And>ys x s s'. x \<in> set xs \<Longrightarrow> I ys s \<Longrightarrow> f x s = Return s' \<Longrightarrow> I (ys @ [x]) s'"
  shows "I xs s'"
proof -
  have "run_each f zs s = Return s' \<Longrightarrow> I ys s \<Longrightarrow> set zs \<subseteq> set xs \<Longrightarrow> I (ys @ zs) s'" for zs ys s
  proof (induction zs arbitrary: ys s)
    case (Cons z zs)
    obtain s1 where s1: "f z s = Return s1" "run_each f zs s1 = Return s'" using Cons.prems(1) by (auto simp: run_bind_Return)
    have "I (ys @ [z]) s1" using Cons.prems(2,3) s1(1) by (intro assms(3)) auto
    then have "I ((ys @ [z]) @ zs) s'" using Cons.prems(3) by (intro Cons.IH[OF s1(2)]) simp_all
    then show ?case by simp
  qed simp
  from this[OF assms(1), of "[]"] assms(2) show ?thesis by simp
qed

lemma set_add_stack [simp]: "set (add_stack st sts) = insert st (set sts)"
  by (auto simp: add_stack_def)

text \<open>What a call of \<open>advance_stack\<close> may do to the stacks collected so far.\<close>

definition advances :: "grammar_rules \<Rightarrow> (32 word list \<Rightarrow> bool) \<Rightarrow> grammar_stack list \<Rightarrow> grammar_stack list \<Rightarrow> bool" where
  "advances rules L ns ns' \<longleftrightarrow> set ns \<subseteq> set ns' \<and> (\<forall>st \<in> set ns'. st \<in> set ns \<or> ready rules st \<and> stack_ok rules st) \<and>
     (\<forall>w. stacks_lang rules ns' w \<longleftrightarrow> stacks_lang rules ns w \<or> L w)"

lemma advances_trans: "advances rules L a b \<Longrightarrow> advances rules M b c \<Longrightarrow> advances rules (\<lambda>w. L w \<or> M w) a c"
  unfolding advances_def by blast

lemma advances_add: "ready rules st \<Longrightarrow> stack_ok rules st \<Longrightarrow> advances rules (stack_lang rules st) ns (add_stack st ns)"
  by (auto simp: advances_def stacks_lang_def)

lemma advances_each:
  assumes "run_each f xs ns = Return ns'" "\<And>x ns ns'. x \<in> set xs \<Longrightarrow> f x ns = Return ns' \<Longrightarrow> advances rules (L x) ns ns'"
  shows "advances rules (\<lambda>w. \<exists>x \<in> set xs. L x w) ns ns'"
proof (rule run_each_Return_inv[OF assms(1), where I = "\<lambda>ys s. advances rules (\<lambda>w. \<exists>x \<in> set ys. L x w) ns s"])
  show "advances rules (\<lambda>w. \<exists>x \<in> set []. L x w) ns ns" by (auto simp: advances_def)
  fix ys x s s' assume x: "x \<in> set xs" "advances rules (\<lambda>w. \<exists>x \<in> set ys. L x w) ns s" "f x s = Return s'"
  then have "advances rules (\<lambda>w. (\<exists>x \<in> set ys. L x w) \<or> L x w) ns s'" using advances_trans assms(2) by blast
  moreover have "(\<lambda>w. (\<exists>x \<in> set ys. L x w) \<or> L x w) = (\<lambda>w. \<exists>y \<in> set (ys @ [x]). L y w)" by auto
  ultimately show "advances rules (\<lambda>w. \<exists>y \<in> set (ys @ [x]). L y w) ns s'" by simp
qed

text \<open>The stacks that a reference at the top is replaced by.\<close>

definition ref_stack :: "grammar_rules \<Rightarrow> grammar_pos \<Rightarrow> grammar_stack \<Rightarrow> grammar_pos \<Rightarrow> grammar_stack" where
  "ref_stack rules p st q = the (push_pos rules q (the (push_pos rules (next_pos p) st)))"

lemma ref_stack_ok:
  assumes ok: "rules_ok rules" and e: "elem_at rules p = Some e" "ge_type e = GRE_RULE_REF" and st: "stack_ok rules st"
  obtains rule subs st1 where "vec_at rules (unat (ge_value e)) = Some rule" "alt_starts rule = Some subs" "0 \<in> set subs" "push_pos rules (next_pos p) st = Some st1"
    "stack_ok rules st1" "\<forall>s \<in> set subs. push_pos rules (unat (ge_value e), s) st1 = Some (ref_stack rules p st (unat (ge_value e), s)) \<and>
      stack_ok rules (ref_stack rules p st (unat (ge_value e), s))" "\<forall>s \<in> set subs. pos_ok rules (unat (ge_value e), s)"
proof -
  have p: "fst p < length rules" "e \<in> set (rules ! fst p)" using e(1) by (auto simp: elem_at_Some)
  have r: "unat (ge_value e) < length rules" by (rule rules_okD(6)[OF ok p e(2)])
  obtain subs where subs: "alt_starts (rules ! unat (ge_value e)) = Some subs" "0 \<in> set subs" "\<forall>s \<in> set subs. pos_ok rules (unat (ge_value e), s)"
    using alt_starts_ok[OF ok r] by blast
  obtain st1 where st1: "push_pos rules (next_pos p) st = Some st1" "stack_ok rules st1" using push_pos_ok[OF ref_next_ok[OF ok e(1)] st] e(2) by auto
  have "push_pos rules (unat (ge_value e), s) st1 = Some (ref_stack rules p st (unat (ge_value e), s)) \<and> stack_ok rules (ref_stack rules p st (unat (ge_value e), s))"
    if "s \<in> set subs" for s using push_pos_ok[of rules "(unat (ge_value e), s)" st1] subs(3) st1 that by (auto simp: ref_stack_def)
  then show thesis using that[of "rules ! unat (ge_value e)" subs st1] r subs st1 by auto
qed

lemma advance_ref:
  assumes "rules_ok rules" "elem_at rules p = Some e" "ge_type e = GRE_RULE_REF" "stack_ok rules st"
    "vec_at rules (unat (ge_value e)) = Some rule" "alt_starts rule = Some subs"
  shows "advance_stack (Suc n) rules (p # st) ns = run_each (\<lambda>s. advance_stack n rules (ref_stack rules p st (unat (ge_value e), s))) subs ns"
proof -
  obtain rule' subs' st1 where r: "vec_at rules (unat (ge_value e)) = Some rule'" "alt_starts rule' = Some subs'" "push_pos rules (next_pos p) st = Some st1"
      "\<forall>s \<in> set subs'. push_pos rules (unat (ge_value e), s) st1 = Some (ref_stack rules p st (unat (ge_value e), s)) \<and>
        stack_ok rules (ref_stack rules p st (unat (ge_value e), s))"
    using ref_stack_ok[OF assms(1-4)] by metis
  have "run_each f xs ns = run_each g xs ns" if "\<And>x. x \<in> set xs \<Longrightarrow> f x = g x" for f g :: "nat \<Rightarrow> grammar_stack list \<Rightarrow> grammar_stack list run" and xs ns
    using that
  proof (induction xs arbitrary: ns)
    case (Cons x xs)
    then have "run_each f xs = run_each g xs" by (auto simp: fun_eq_iff)
    then show ?case using Cons.prems by simp
  qed simp
  then show ?thesis using assms r by (auto simp: fun_eq_iff)
qed

lemma advance_stack_lang:
  assumes ok: "rules_ok rules"
  shows "stack_ok rules st \<Longrightarrow> advance_stack n rules st ns = Return ns' \<Longrightarrow> advances rules (stack_lang rules st) ns ns'"
proof (induction n arbitrary: st ns ns')
  case (Suc n)
  show ?case
  proof (cases st)
    case Nil
    then have "ns' = add_stack st ns" using Suc.prems(2) by simp
    then show ?thesis using advances_add[of rules st ns] Suc.prems(1) Nil by (simp add: ready_def del: stack_lang.simps)
  next
    case (Cons p st1)
    have st1: "stack_ok rules st1" and "top_ok rules p" using Suc.prems(1) Cons by simp_all
    then obtain e where e: "elem_at rules p = Some e" "\<not> inner e" "\<not> is_end_of_sequence e" unfolding top_ok_def by blast
    show ?thesis
    proof (cases "ge_type e = GRE_RULE_REF")
      case True
      obtain rule subs st2 where r: "vec_at rules (unat (ge_value e)) = Some rule" "alt_starts rule = Some subs" "push_pos rules (next_pos p) st1 = Some st2"
          "\<forall>s \<in> set subs. push_pos rules (unat (ge_value e), s) st2 = Some (ref_stack rules p st1 (unat (ge_value e), s)) \<and>
            stack_ok rules (ref_stack rules p st1 (unat (ge_value e), s))"
        using ref_stack_ok[OF ok e(1) True st1] by metis
      have "run_each (\<lambda>s. advance_stack n rules (ref_stack rules p st1 (unat (ge_value e), s))) subs ns = Return ns'"
        using Suc.prems(2) advance_ref[OF ok e(1) True st1 r(1,2)] Cons by simp
      then have "advances rules (\<lambda>w. \<exists>s \<in> set subs. stack_lang rules (ref_stack rules p st1 (unat (ge_value e), s)) w) ns ns'"
        by (rule advances_each) (use Suc.IH r(4) in blast)
      moreover have "stack_lang rules st = (\<lambda>w. \<exists>s \<in> set subs. stack_lang rules (ref_stack rules p st1 (unat (ge_value e), s)) w)"
        using stack_lang_ref[OF e(1) True r(1,2,3), of "\<lambda>s. ref_stack rules p st1 (unat (ge_value e), s)"] r(4) Cons by (auto simp: fun_eq_iff)
      ultimately show ?thesis by simp
    next
      case False
      then have c: "is_char e" using e(2,3) by (cases "ge_type e") (auto simp: inner_def is_end_of_sequence_def is_char_def)
      then have "ns' = add_stack st ns" using Suc.prems(2) Cons e(1) False by (auto simp: is_char_def)
      moreover have "ready rules st" using Cons e(1) c by (auto simp: ready_def)
      ultimately show ?thesis using advances_add[OF _ Suc.prems(1)] by simp
    qed
  qed
qed simp

subsection \<open>Accepting characters\<close>

definition stacks_ok :: "grammar_rules \<Rightarrow> grammar_stack list \<Rightarrow> bool" where
  "stacks_ok rules sts \<longleftrightarrow> (\<forall>st \<in> set sts. ready rules st \<and> stack_ok rules st)"

lemma stack_lang_char:
  assumes "match_char rules p c = Some (found, p')" "push_pos rules p' st = Some st'"
  shows "stack_lang rules (p # st) (c # w) \<longleftrightarrow> found \<and> stack_lang rules st' w"
proof -
  obtain e where e: "elem_at rules p = Some e" "is_char e" using match_char_is_char[OF assms(1)] by blast
  have "stack_lang rules (p # st) (c # w) \<longleftrightarrow> (\<exists>u v. c # w = (c # u) @ v \<and> seq_lang rules p (c # u) \<and> stack_lang rules st v)"
  proof
    assume "stack_lang rules (p # st) (c # w)"
    then obtain x v where x: "c # w = x @ v" "seq_lang rules p x" "stack_lang rules st v" by auto
    then obtain u where "x = c # u" using seq_lang_char[OF e, of x] by auto
    then show "\<exists>u v. c # w = (c # u) @ v \<and> seq_lang rules p (c # u) \<and> stack_lang rules st v" using x by blast
  qed (simp only: stack_lang.simps, blast)
  also have "\<dots> \<longleftrightarrow> found \<and> (\<exists>u v. w = u @ v \<and> seq_lang rules p' u \<and> stack_lang rules st v)"
  proof -
    have "seq_lang rules p (c # u) \<longleftrightarrow> found \<and> seq_lang rules p' u" for u unfolding seq_lang_char[OF e] using assms(1) by (cases p') auto
    then show ?thesis by auto
  qed
  finally show ?thesis using push_pos_lang[OF assms(2)] by simp
qed

lemma accept_stack_lang:
  assumes ok: "rules_ok rules" and st: "ready rules st" "stack_ok rules st" and a: "accept_stack fuel rules c st ns = Return ns'"
  shows "advances rules (\<lambda>w. stack_lang rules st (c # w)) ns ns'"
proof (cases st)
  case Nil
  then show ?thesis using a by (auto simp: accept_stack_def advances_def)
next
  case (Cons p st1)
  obtain found p' where m: "match_char rules p c = Some (found, p')" using a Cons by (auto simp: accept_stack_def opt_run_Return)
  obtain e where e: "elem_at rules p = Some e" "is_char e" using match_char_is_char[OF m] by blast
  have "pos_ok rules p'" using match_char_ok[OF ok e] m by (metis option.inject prod.inject)
  then obtain st' where st': "push_pos rules p' st1 = Some st'" "stack_ok rules st'" using push_pos_ok st(2) Cons by fastforce
  have L: "stack_lang rules st (c # w) \<longleftrightarrow> found \<and> stack_lang rules st' w" for w using stack_lang_char[OF m st'(1)] Cons by simp
  show ?thesis
  proof (cases found)
    case True
    then have "advance_stack fuel rules st' ns = Return ns'" using a Cons m st'(1) by (simp add: accept_stack_def)
    then show ?thesis using advance_stack_lang[OF ok st'(2)] L True by (simp add: advances_def)
  next
    case False
    then have "ns = ns'" using a Cons m by (simp add: accept_stack_def)
    then show ?thesis using L False by (simp add: advances_def)
  qed
qed

lemma advances_stacks_ok: "advances rules L [] ns \<Longrightarrow> stacks_ok rules ns"
  by (auto simp: advances_def stacks_ok_def)

lemma grammar_accept_lang:
  assumes "rules_ok rules" "stacks_ok rules sts" "grammar_accept fuel rules sts c = Return sts'"
  shows "stacks_ok rules sts'" "stacks_lang rules sts' w \<longleftrightarrow> stacks_lang rules sts (c # w)"
proof -
  have a: "advances rules (\<lambda>w. \<exists>st \<in> set sts. stack_lang rules st (c # w)) [] sts'"
    by (rule advances_each[OF assms(3)[unfolded grammar_accept_def]]) (use assms(1,2) accept_stack_lang in \<open>auto simp: stacks_ok_def\<close>)
  then show "stacks_ok rules sts'" by (rule advances_stacks_ok)
  show "stacks_lang rules sts' w \<longleftrightarrow> stacks_lang rules sts (c # w)" using a by (auto simp: advances_def stacks_lang_def)
qed

lemma accepts_lang:
  assumes "rules_ok rules"
  shows "stacks_ok rules sts \<Longrightarrow> run_each (\<lambda>c sts. grammar_accept fuel rules sts c) cs sts = Return sts' \<Longrightarrow>
    stacks_ok rules sts' \<and> (\<forall>w. stacks_lang rules sts' w \<longleftrightarrow> stacks_lang rules sts (cs @ w))"
proof (induction cs arbitrary: sts)
  case (Cons c cs)
  obtain s1 where s1: "grammar_accept fuel rules sts c = Return s1" "run_each (\<lambda>c sts. grammar_accept fuel rules sts c) cs s1 = Return sts'"
    using Cons.prems(2) by (auto simp: run_bind_Return)
  show ?case using Cons.IH[OF grammar_accept_lang(1)[OF assms Cons.prems(1) s1(1)] s1(2)] grammar_accept_lang(2)[OF assms Cons.prems(1) s1(1)] by simp
qed simp

lemma initial_stacks_lang:
  assumes ok: "rules_ok rules" and i: "initial_stacks fuel rules start = Return sts"
  shows "stacks_ok rules sts" "stacks_lang rules sts w \<longleftrightarrow> grammar_lang rules start w"
proof -
  obtain rule subs where r: "vec_at rules start = Some rule" "alt_starts rule = Some subs"
      and run: "run_each (\<lambda>sub stacks. opt_run (push_pos rules (start, sub) []) (\<lambda>stack. advance_stack fuel rules stack stacks)) subs [] = Return sts"
    using i by (auto simp: initial_stacks_def opt_run_Return)
  have start: "start < length rules" "rule = rules ! start" using r(1) by (auto simp: vec_at_Some_iff)
  have p: "pos_ok rules (start, s)" if "s \<in> set subs" for s using alt_starts_ok[OF ok start(1)] r(2) start(2) that by auto
  have a: "advances rules (\<lambda>w. \<exists>s \<in> set subs. seq_lang rules (start, s) w) [] sts"
  proof (rule advances_each[OF run])
    fix s ns ns' assume s: "s \<in> set subs" and f: "opt_run (push_pos rules (start, s) []) (\<lambda>stack. advance_stack fuel rules stack ns) = Return ns'"
    obtain st where st: "push_pos rules (start, s) [] = Some st" "stack_ok rules st" using push_pos_ok[OF p[OF s], of "[]"] by auto
    have "stack_lang rules st = seq_lang rules (start, s)" using push_pos_lang[OF st(1)] by (auto simp: fun_eq_iff)
    then show "advances rules (seq_lang rules (start, s)) ns ns'" using advance_stack_lang[OF ok st(2)] f st(1) by (metis opt_run_simps(2))
  qed
  then show "stacks_ok rules sts" by (rule advances_stacks_ok)
  show "stacks_lang rules sts w \<longleftrightarrow> grammar_lang rules start w" using a r by (auto simp: advances_def stacks_lang_def grammar_lang_def)
qed

text \<open>A stack derives the empty word only when it is empty: every other stack waits for a character.\<close>

lemma ready_empty: "ready rules st \<Longrightarrow> stack_lang rules st [] \<longleftrightarrow> st = []"
  by (auto simp: ready_def seq_lang_char split: list.splits)

end
