(* ===== verification/Grammar_Parse_Ok.thy ===== *)
theory Grammar_Parse_Ok
  imports Grammar_Parse Grammar_Lang
begin

text \<open>
  The GBNF parser never runs out of its fuel and hands over well-formed rules only: the invariant of the parser (rules are
  well-formed sequences, every reference is the id of a symbol) and the consumption of the text, which bounds the recursion.
\<close>

subsection \<open>Decimal numbers in generated names\<close>

lemma foldl_digits: "digits_value (ds @ [d]) = 10 * digits_value ds + (uint d - 48)"
  by (simp add: digits_value_def)

lemma uint_digit: "n < 10 \<Longrightarrow> uint (word_of_nat (48 + n) :: 8 word) = 48 + int n"
  by (simp add: unsigned_of_nat take_bit_eq_mod flip: of_nat_add)

lemma digits_value_dec: "digits_value (dec_digits n) = int n"
proof (induction n rule: dec_digits.induct)
  case (1 n)
  show ?case
  proof (cases "n < 10")
    case True
    have "digits_value [word_of_nat (48 + n)] = int n" using foldl_digits[of "[]" "word_of_nat (48 + n)"] uint_digit[OF True] by (simp add: digits_value_def)
    then show ?thesis using True by (simp add: dec_digits.simps[of n])
  next
    case False
    have "digits_value (dec_digits n) = 10 * int (n div 10) + int (n mod 10)"
      using 1 False foldl_digits[of "dec_digits (n div 10)"] uint_digit[of "n mod 10"] by (simp add: dec_digits.simps[of n])
    then show ?thesis by (simp add: of_nat_div of_nat_mod)
  qed
qed

lemma dec_digits_no_underscore: "95 \<notin> set (dec_digits n)"
proof (induction n rule: dec_digits.induct)
  case (1 n)
  have d: "(95 :: 8 word) \<noteq> word_of_nat (48 + k)" if "k < 10" for k
  proof
    assume "(95 :: 8 word) = word_of_nat (48 + k)"
    then have "uint (95 :: 8 word) = 48 + int k" using uint_digit[OF that] by metis
    then show False using that by simp
  qed
  show ?case using 1 d[of n] d[of "n mod 10"] by (simp add: dec_digits.simps[of n])
qed

lemma last_underscore:
  assumes "95 \<notin> set x" "95 \<notin> set y" "a @ [95] @ x = b @ [95] @ y"
  shows "x = (y :: bytes)"
proof -
  have "takeWhile (\<lambda>c. c \<noteq> 95) (rev (a @ [95] @ x)) = rev x" "takeWhile (\<lambda>c. c \<noteq> 95) (rev (b @ [95] @ y)) = rev y"
    using assms(1,2) by (auto simp: takeWhile_append)
  then have "rev x = rev y" unfolding assms(3) by metis
  then show ?thesis by simp
qed

subsection \<open>The invariant\<close>

text \<open>A sequence under construction: complete classes, no end, references in a set of symbols.\<close>

definition open_ok :: "32 word set \<Rightarrow> grammar_rule \<Rightarrow> bool" where
  "open_ok V rule \<longleftrightarrow> (rule \<noteq> [] \<longrightarrow> \<not> inner (hd rule)) \<and> successively chained rule \<and>
     (\<forall>e \<in> set rule. ge_type e \<noteq> GRE_END \<and> (ge_type e = GRE_RULE_REF \<longrightarrow> ge_value e \<in> V))"

lemma open_ok_empty [simp]: "open_ok V []"
  by (simp add: open_ok_def)

lemma chained_not_inner: "\<not> inner e \<Longrightarrow> chained e' e"
  by (auto simp: inner_def chained_def)

lemma open_ok_append:
  assumes "open_ok V a" "open_ok V b"
  shows "open_ok V (a @ b)"
proof -
  have "successively chained (a @ b)" using assms by (auto simp: open_ok_def successively_append_iff chained_not_inner)
  then show ?thesis using assms by (cases a) (auto simp: open_ok_def)
qed

lemma open_ok_mono: "open_ok V a \<Longrightarrow> V \<subseteq> W \<Longrightarrow> open_ok W a"
  by (auto simp: open_ok_def)

lemma open_ok_single: "open_ok V [gelem t v] \<longleftrightarrow> t \<notin> {GRE_CHAR_RNG_UPPER, GRE_CHAR_ALT, GRE_END} \<and> (t = GRE_RULE_REF \<longrightarrow> v \<in> V)"
  by (auto simp: open_ok_def inner_def gelem_def)

lemma open_ok_take:
  assumes "open_ok V a"
  shows "open_ok V (take n a)"
proof -
  have "successively chained (take n a)" using assms successively_append_iff[of chained "take n a" "drop n a"] by (simp add: open_ok_def)
  then show ?thesis using assms by (cases a; cases n) (auto simp: open_ok_def dest: in_set_takeD)
qed

lemma open_ok_drop: "open_ok V a \<Longrightarrow> (n < length a \<Longrightarrow> \<not> inner (a ! n)) \<Longrightarrow> open_ok V (drop n a)"
  unfolding open_ok_def by (auto simp: hd_drop_conv_nth dest: in_set_dropD intro: successively_drop)

lemma open_ok_concat: "open_ok V a \<Longrightarrow> open_ok V (concat (replicate n a))"
  by (induction n) (auto intro: open_ok_append)

abbreviation ids_of :: "grammar_parser \<Rightarrow> 32 word set" where
  "ids_of p \<equiv> snd ` set (gp_symbol_ids p)"

text \<open>Generated names end in their id, behind an underscore, which no name of the text has; ids are below the number of symbols.\<close>

definition keys_ok :: "(bytes \<times> 32 word) list \<Rightarrow> bool" where
  "keys_ok ids \<longleftrightarrow> distinct (map fst ids) \<and> (\<forall>k v. (k, v) \<in> set ids \<longrightarrow> 95 \<in> set k \<longrightarrow> (\<exists>b. k = b @ [95] @ dec_digits (unat v))) \<and>
     (\<forall>v \<in> snd ` set ids. unat v < length ids)"

definition shape_ok :: "32 word set \<Rightarrow> grammar_rule \<Rightarrow> bool" where
  "shape_ok V rule \<longleftrightarrow> rule = [] \<or> (\<exists>b. rule = b @ [gelem GRE_END 0] \<and> open_ok V b)"

definition parser_ok :: "grammar_parser \<Rightarrow> bool" where
  "parser_ok p \<longleftrightarrow> keys_ok (gp_symbol_ids p) \<and> (\<forall>rule \<in> set (gp_rules p). shape_ok (ids_of p) rule)"

lemma shape_ok_mono: "shape_ok V rule \<Longrightarrow> V \<subseteq> W \<Longrightarrow> shape_ok W rule"
  by (auto simp: shape_ok_def intro: open_ok_mono)

text \<open>A step from one parser state to another keeps the invariant and forgets no symbol.\<close>

definition extends :: "grammar_parser \<Rightarrow> grammar_parser \<Rightarrow> bool" where
  "extends p p' \<longleftrightarrow> parser_ok p' \<and> ids_of p \<subseteq> ids_of p'"

lemma extends_trans: "extends p q \<Longrightarrow> extends q r \<Longrightarrow> extends p r"
  by (auto simp: extends_def)

lemma extends_refl [simp]: "extends p p \<longleftrightarrow> parser_ok p"
  by (simp add: extends_def)

lemma parser_ok_ids:
  assumes "parser_ok p" "ids_of p \<subseteq> snd ` set ids" "keys_ok ids"
  shows "extends p (p\<lparr>gp_symbol_ids := ids\<rparr>)"
  using assms shape_ok_mono[OF _ assms(2)] by (simp add: parser_ok_def extends_def)

lemma get_symbol_id_ok:
  assumes "parser_ok p" "95 \<notin> set name" "get_symbol_id name p = (i, p')"
  shows "extends p p' \<and> i \<in> ids_of p' \<and> gp_rules p' = gp_rules p"
proof (cases "map_of (gp_symbol_ids p) name")
  case None
  then have k: "name \<notin> fst ` set (gp_symbol_ids p)" by (simp add: map_of_eq_None_iff)
  have p': "p' = p\<lparr>gp_symbol_ids := gp_symbol_ids p @ [(name, i)]\<rparr>" using assms(3) None by (auto simp: get_symbol_id_def Let_def)
  have "unat i \<le> length (gp_symbol_ids p)" using assms(3) None by (auto simp: get_symbol_id_def Let_def unat_of_nat)
  then have "keys_ok (gp_symbol_ids p @ [(name, i)])" using assms(1,2) k by (auto simp: parser_ok_def keys_ok_def less_Suc_eq)
  then have "extends p p'" unfolding p' by (intro parser_ok_ids[OF assms(1)]) auto
  then show ?thesis using p' by simp
next
  case (Some j)
  then have "(name, j) \<in> set (gp_symbol_ids p)" by (rule map_of_SomeD)
  then have "j \<in> ids_of p" by force
  then show ?thesis using assms(1,3) Some by (simp add: get_symbol_id_def Let_def)
qed

lemma length_update: "length (AList.update k v xs) = (if k \<in> fst ` set xs then length xs else Suc (length xs))"
  by (induction xs) auto

lemma generate_symbol_id_ok:
  assumes ok: "parser_ok p" and g: "generate_symbol_id base p = (i, p')"
  shows "extends p p' \<and> i \<in> ids_of p' \<and> gp_rules p' = gp_rules p"
proof -
  let ?k = "base @ [95] @ dec_digits (unat i)"
  have p': "p' = p\<lparr>gp_symbol_ids := AList.update ?k i (gp_symbol_ids p)\<rparr>" using g by (auto simp: generate_symbol_id_def Let_def)
  have d: "distinct (map fst (gp_symbol_ids p))" using ok by (simp add: parser_ok_def keys_ok_def)
  have mo: "map_of (AList.update ?k i (gp_symbol_ids p)) = (map_of (gp_symbol_ids p))(?k \<mapsto> i)" by (simp add: update_conv')
  have du: "distinct (map fst (AList.update ?k i (gp_symbol_ids p)))" using d by (rule distinct_update)
  have set': "(k, v) \<in> set (AList.update ?k i (gp_symbol_ids p)) \<longleftrightarrow> (if k = ?k then v = i else (k, v) \<in> set (gp_symbol_ids p))" for k v
    unfolding map_of_eq_Some_iff[OF du, symmetric] map_of_eq_Some_iff[OF d, symmetric] mo by auto
  have old: "v = i" if kv: "(?k, v) \<in> set (gp_symbol_ids p)" for v
  proof -
    have "95 \<in> set ?k" by simp
    then obtain b where "?k = b @ [95] @ dec_digits (unat v)" using ok kv unfolding parser_ok_def keys_ok_def by blast
    then have "dec_digits (unat i) = dec_digits (unat v)" by (rule last_underscore[OF dec_digits_no_underscore dec_digits_no_underscore])
    then show ?thesis by (metis digits_value_dec of_nat_eq_iff word_unat_eq_iff)
  qed
  have "extends p p'" unfolding p'
  proof (rule parser_ok_ids[OF ok])
    show "ids_of p \<subseteq> snd ` set (AList.update ?k i (gp_symbol_ids p))"
    proof
      fix v assume "v \<in> ids_of p"
      then obtain k where "(k, v) \<in> set (gp_symbol_ids p)" by auto
      then have "(k, v) \<in> set (AList.update ?k i (gp_symbol_ids p))" using set' old by auto
      then show "v \<in> snd ` set (AList.update ?k i (gp_symbol_ids p))" by force
    qed
    show "keys_ok (AList.update ?k i (gp_symbol_ids p))" unfolding keys_ok_def
    proof (intro conjI allI impI ballI du)
      have i: "unat i \<le> length (gp_symbol_ids p)" using g by (auto simp: generate_symbol_id_def Let_def unat_of_nat)
      have lt: "\<forall>v \<in> ids_of p. unat v < length (gp_symbol_ids p)" using ok by (simp add: parser_ok_def keys_ok_def)
      fix v assume "v \<in> snd ` set (AList.update ?k i (gp_symbol_ids p))"
      then obtain k where kv: "(k, v) \<in> set (AList.update ?k i (gp_symbol_ids p))" by auto
      show "unat v < length (AList.update ?k i (gp_symbol_ids p))"
      proof (cases "k = ?k")
        case True
        then have v: "v = i" using set'[of k v] kv by simp
        show ?thesis
        proof (cases "?k \<in> fst ` set (gp_symbol_ids p)")
          case True
          then obtain v' where "(?k, v') \<in> set (gp_symbol_ids p)" by auto
          then have "i \<in> ids_of p" using old by force
          then have "unat i < length (gp_symbol_ids p)" using lt by blast
          then show ?thesis using v by (simp add: length_update)
        qed (use i v in \<open>simp add: length_update\<close>)
      next
        case False
        then have "v \<in> ids_of p" using set'[of k v] kv by force
        then have "unat v < length (gp_symbol_ids p)" using lt by blast
        then show ?thesis by (simp add: length_update)
      qed
    next
      fix k v assume "(k, v) \<in> set (AList.update ?k i (gp_symbol_ids p))" "95 \<in> set k"
      then show "\<exists>b. k = b @ [95] @ dec_digits (unat v)" using set'[of k v] ok by (cases "k = ?k") (auto simp: parser_ok_def keys_ok_def)
    qed
  qed
  moreover have "(?k, i) \<in> set (AList.update ?k i (gp_symbol_ids p))" using set' by simp
  ultimately show ?thesis using p' by force
qed

lemma add_rule_ok:
  assumes "parser_ok p" "open_ok (ids_of p) b" "add_rule i (b @ [gelem GRE_END 0]) p = Return p'"
  shows "extends p p'"
proof -
  have "set (vec_resize n rules) \<subseteq> insert [] (set rules)" for n rules by (auto simp: vec_resize_def dest: in_set_takeD)
  then have "set (gp_rules p') \<subseteq> insert [] (insert (b @ [gelem GRE_END 0]) (set (gp_rules p)))" "gp_symbol_ids p' = gp_symbol_ids p"
    using assms(3) set_update_subset_insert by (fastforce simp: add_rule_def Let_def split: if_splits)+
  moreover have "shape_ok (ids_of p) (b @ [gelem GRE_END 0])" "shape_ok (ids_of p) []" using assms(2) by (auto simp: shape_ok_def)
  ultimately show ?thesis using assms(1) unfolding extends_def parser_ok_def by auto
qed

subsection \<open>Elements\<close>

lemma rep_step_ok:
  assumes "parser_ok p" "open_ok (ids_of p) prev" "last_rec \<in> ids_of p \<or> i = 0" "rep_step name prev max_times i (last_rec, p) = Return (r, p')"
  shows "extends p p' \<and> r \<in> ids_of p'"
proof -
  obtain p1 where g: "generate_symbol_id name p = (r, p1)" and a: "add_rule r (rec_rule_of prev max_times i r last_rec) p1 = Return p'"
    using assms(4) by (auto simp: rep_step_def run_bind_Return split: prod.splits)
  have e: "extends p p1" "r \<in> ids_of p1" using generate_symbol_id_ok[OF assms(1) g] by auto
  let ?ref = "if i > 0 \<or> max_times < 0 then [gelem GRE_RULE_REF (if max_times < 0 then r else last_rec)] else []"
  have "open_ok (ids_of p1) ?ref" using e assms(3) by (auto simp: open_ok_single extends_def)
  moreover have "open_ok (ids_of p1) prev" using e(1) assms(2) by (auto simp: extends_def intro: open_ok_mono)
  ultimately have "open_ok (ids_of p1) (prev @ ?ref @ [gelem GRE_ALT 0])" by (intro open_ok_append) (auto simp: open_ok_single)
  moreover have "rec_rule_of prev max_times i r last_rec = (prev @ ?ref @ [gelem GRE_ALT 0]) @ [gelem GRE_END 0]" by (simp add: rec_rule_of_def)
  ultimately have "extends p1 p'" using add_rule_ok[of p1 _ r p'] a e(1) by (simp add: extends_def)
  then show ?thesis using e extends_trans by (auto simp: extends_def)
qed

lemma rep_each_ok:
  assumes "parser_ok p" "open_ok (ids_of p) prev" "run_each (rep_step name prev max_times) [0..<n] (0, p) = Return (r, p')"
  shows "extends p p' \<and> (0 < n \<longrightarrow> r \<in> ids_of p')"
  using assms(3)
proof (induction n arbitrary: r p')
  case (Suc n)
  have ap: "run_each f (xs @ ys) s = run_bind (run_each f xs s) (run_each f ys)" for f :: "nat \<Rightarrow> 32 word \<times> grammar_parser \<Rightarrow> _" and xs ys s
  proof (induction xs arbitrary: s)
    case (Cons x xs)
    then show ?case by (cases "f x s") auto
  qed simp
  obtain r1 p1 where s: "run_each (rep_step name prev max_times) [0..<n] (0, p) = Return (r1, p1)" "rep_step name prev max_times n (r1, p1) = Return (r, p')"
    using Suc.prems by (auto simp: ap run_bind_Return)
  have i: "extends p p1 \<and> (0 < n \<longrightarrow> r1 \<in> ids_of p1)" by (rule Suc.IH[OF s(1)])
  then have "extends p1 p' \<and> r \<in> ids_of p'" using assms(2) by (intro rep_step_ok[OF _ _ _ s(2)]) (auto simp: extends_def intro: open_ok_mono)
  then show ?case using i extends_trans by blast
qed (use assms(1) in simp)

text \<open>The state of the loop of a sequence: the last symbol starts at a complete element.\<close>

definition seq_ok :: "nat \<Rightarrow> grammar_rule \<Rightarrow> grammar_parser \<Rightarrow> bool" where
  "seq_ok l rule p \<longleftrightarrow> parser_ok p \<and> open_ok (ids_of p) rule \<and> l \<le> length rule \<and> (l < length rule \<longrightarrow> \<not> inner (rule ! l))"

lemma seq_ok_append:
  assumes "parser_ok p" "open_ok (ids_of p) rule" "open_ok (ids_of p) x"
  shows "seq_ok (length rule) (rule @ x) p"
  using assms open_ok_append[OF assms(2,3)] by (auto simp: seq_ok_def open_ok_def nth_append hd_conv_nth)

lemma handle_repetitions_ok:
  assumes s: "seq_ok l rule p" and h: "handle_repetitions name l min_times max_times (rule, p) = Return (rule', p')"
  shows "seq_ok l rule' p' \<and> extends p p'"
proof -
  have ok: "parser_ok p" "open_ok (ids_of p) rule" "l < length rule" using s h by (auto simp: seq_ok_def handle_repetitions_def split: if_splits)
  define prev where "prev = drop l rule"
  define n_opt where "n_opt = (if max_times < 0 then 1 else max_times - min_times)"
  define base where "base = (if min_times = 0 then take l rule else rule @ concat (replicate (nat (min_times - 1)) prev))"
  obtain r where run: "run_each (rep_step name prev max_times) [0..<nat n_opt] (0, p) = Return (r, p')" and
      rule': "rule' = (if n_opt > 0 then base @ [gelem GRE_RULE_REF r] else base)"
    using h ok(3) by (auto simp: handle_repetitions_def Let_def prev_def n_opt_def base_def run_bind_Return split: if_splits)
  have pv: "open_ok (ids_of p) prev" unfolding prev_def by (rule open_ok_drop[OF ok(2)]) (use s in \<open>simp add: seq_ok_def\<close>)
  have e: "extends p p'" "0 < nat n_opt \<longrightarrow> r \<in> ids_of p'" using rep_each_ok[OF ok(1) pv run] by auto
  have "open_ok (ids_of p) base" using open_ok_take[OF ok(2)] open_ok_append[OF ok(2) open_ok_concat[OF pv]] by (simp add: base_def)
  then have b: "open_ok (ids_of p') base" using e(1) by (auto simp: extends_def intro: open_ok_mono)
  then have o: "open_ok (ids_of p') rule'" using e(2) rule' open_ok_append[OF b, of "[gelem GRE_RULE_REF r]"] by (simp add: open_ok_single)
  have "l \<le> length rule'" "l < length rule' \<longrightarrow> \<not> inner (rule' ! l)"
    using ok(3) s by (auto simp: rule' base_def nth_append seq_ok_def inner_def gelem_def)
  then show ?thesis using e(1) o by (simp add: seq_ok_def extends_def)
qed

lemma literal_ok: "literal src rule = Some (rest, rule') \<Longrightarrow> (\<exists>x. rule' = rule @ x \<and> open_ok V x) \<and> length rest < length src"
proof (induction src rule rule: literal.induct)
  case (1 src rule)
  obtain c cs where src: "src = c # cs" using 1(2) by (cases src) (auto simp: literal.simps)
  show ?case
  proof (cases "c = 34")
    case True
    then show ?thesis using 1(2) src by (auto simp: literal.simps[of "34 # cs"])
  next
    case False
    then obtain chr r where r: "parse_char src = Some (chr, r)" "literal r (rule @ [gelem GRE_CHAR chr]) = Some (rest, rule')"
      using 1(2) src by (auto simp: literal.simps[of "c # cs"] split: option.splits)
    obtain x where x: "rule' = (rule @ [gelem GRE_CHAR chr]) @ x" "open_ok V x" "length rest < length r" using 1(1)[OF src False r(1) refl r(2)] by blast
    have "open_ok V ([gelem GRE_CHAR chr] @ x)" by (rule open_ok_append) (use x(2) in \<open>simp_all add: open_ok_single\<close>)
    then show ?thesis using x parse_char_length[OF r(1)] by auto
  qed
qed

text \<open>Inside a class the part behind its start is empty or begins with the type of the class.\<close>

definition class_part :: "llama_gretype \<Rightarrow> grammar_rule \<Rightarrow> bool" where
  "class_part t x \<longleftrightarrow> x = [] \<or> (ge_type (hd x) = t \<and> successively chained x \<and> (\<forall>e \<in> set x. ge_type e \<in> {GRE_CHAR, GRE_CHAR_NOT, GRE_CHAR_RNG_UPPER, GRE_CHAR_ALT}))"

lemma class_part_open: "class_part t x \<Longrightarrow> t \<in> {GRE_CHAR, GRE_CHAR_NOT} \<Longrightarrow> open_ok V x"
  by (auto simp: class_part_def open_ok_def inner_def)

lemma class_part_snoc:
  assumes "class_part t x" "t \<in> {GRE_CHAR, GRE_CHAR_NOT}" "if x = [] then u = t else u = GRE_CHAR_ALT \<or> u = GRE_CHAR_RNG_UPPER \<and> ge_type (last x) \<noteq> GRE_CHAR_RNG_UPPER"
  shows "class_part t (x @ [gelem u v])"
proof (cases "x = []")
  case False
  have "ge_type (last x) \<in> {GRE_CHAR, GRE_CHAR_NOT, GRE_CHAR_RNG_UPPER, GRE_CHAR_ALT}" using assms(1) False by (auto simp: class_part_def)
  then have "chained (last x) (gelem u v)" using assms(3) False by (auto simp: chained_def gelem_def)
  then show ?thesis using assms(1,3) False by (auto simp: class_part_def successively_append_iff gelem_def)
qed (use assms in \<open>auto simp: class_part_def gelem_def\<close>)

lemma char_class_ok:
  "char_class t (length rule) src (rule @ x) = Some (rest, rule') \<Longrightarrow> class_part t x \<Longrightarrow> t \<in> {GRE_CHAR, GRE_CHAR_NOT} \<Longrightarrow>
    (\<exists>y. rule' = rule @ y \<and> class_part t y) \<and> length rest < length src"
proof (induction "length src" arbitrary: src x rule: less_induct)
  case less
  obtain c cs where src: "src = c # cs" using less.prems(1) by (cases src) (auto simp: char_class.simps)
  show ?case
  proof (cases "c = 93")
    case True
    then show ?thesis using less.prems src by (auto simp: char_class.simps[of _ _ "93 # cs"])
  next
    case False
    then obtain chr r r2 rule2 where r: "parse_char src = Some (chr, r)" "class_upper r (class_start t (length rule) chr (rule @ x)) = Some (r2, rule2)"
        "char_class t (length rule) r2 rule2 = Some (rest, rule')"
      using less.prems(1) src by (auto simp: char_class.simps[of _ _ "c # cs"] split: option.splits)
    let ?u = "if x = [] then t else GRE_CHAR_ALT"
    have s: "class_start t (length rule) chr (rule @ x) = rule @ (x @ [gelem ?u chr])" by (simp add: class_start_def)
    have p: "class_part t (x @ [gelem ?u chr])" by (rule class_part_snoc[OF less.prems(2,3)]) simp
    obtain y where y: "rule2 = rule @ y" "class_part t y"
    proof (cases "rule2 = rule @ (x @ [gelem ?u chr])")
      case True
      then show thesis using that p by blast
    next
      case False
      then obtain v where "rule2 = (rule @ (x @ [gelem ?u chr])) @ [gelem GRE_CHAR_RNG_UPPER v]"
        using r(2) unfolding s by (auto simp: class_upper_def split: list.splits if_splits)
      then have "rule2 = rule @ ((x @ [gelem ?u chr]) @ [gelem GRE_CHAR_RNG_UPPER v])" by simp
      moreover have "class_part t ((x @ [gelem ?u chr]) @ [gelem GRE_CHAR_RNG_UPPER v])"
        by (rule class_part_snoc[OF p less.prems(3)]) (use less.prems(3) in \<open>auto simp: gelem_def\<close>)
      ultimately show thesis using that by blast
    qed
    have len: "length r2 < length src" using parse_char_length[OF r(1)] class_upper_length[OF r(2)] by simp
    show ?thesis using less.hyps[OF len _ y(2) less.prems(3)] r(3) y(1) len by auto
  qed
qed

lemma parse_space_length: "length (parse_space src nl) \<le> length src"
  by (induction src nl rule: parse_space.induct) (auto intro: le_SucI order_trans[OF _ length_dropWhile_le])

lemma parse_name_ok: "parse_name src = Some (name, rest) \<Longrightarrow> 95 \<notin> set name \<and> length rest < length src"
proof -
  assume a: "parse_name src = Some (name, rest)"
  have "name \<noteq> []" "src = name @ rest" "\<forall>c \<in> set name. is_word_char c" using a by (auto simp: parse_name_def dest: set_takeWhileD split: if_splits)
  moreover have "\<not> is_word_char 95" by (simp add: is_word_char_def is_digit_char_def)
  ultimately show ?thesis by auto
qed

lemma parse_int_length: "parse_int src = Some (ds, rest) \<Longrightarrow> length rest < length src"
proof -
  assume a: "parse_int src = Some (ds, rest)"
  have "ds \<noteq> []" "src = ds @ rest" using a by (auto simp: parse_int_def split: if_splits)
  then show ?thesis by auto
qed

lemma parse_bounds_length: "parse_bounds nested src = Some (a, b, rest) \<Longrightarrow> length rest \<le> length src"
proof -
  assume a: "parse_bounds nested src = Some (a, b, rest)"
  then obtain ds pos where i: "parse_int (parse_space src nested) = Some (ds, pos)" by (auto simp: parse_bounds_def bind_eq_Some_conv)
  have l: "length pos \<le> length src" using parse_int_length[OF i] parse_space_length[of src nested] by simp
  have tl: "length (parse_space (tl x) nested) \<le> length src" if "length x \<le> length src" for x
    using parse_space_length[of "tl x" nested] that by simp
  have sp: "length (parse_space x nested) \<le> length src" if "length x \<le> length src" for x using parse_space_length[of x nested] that by simp
  define pos1 where "pos1 = parse_space pos nested"
  have l1: "length pos1 \<le> length src" using sp[OF l] by (simp add: pos1_def)
  consider "rest = parse_space (tl pos1) nested"
    | pos2 where "rest = parse_space (tl pos2) nested" "pos2 = parse_space (tl pos1) nested"
    | ds2 pos2 where "rest = parse_space (tl (parse_space pos2 nested)) nested" "parse_int (parse_space (tl pos1) nested) = Some (ds2, pos2)"
    using a i by (auto simp: parse_bounds_def pos1_def bind_eq_Some_conv Let_def split: if_splits)
  then show ?thesis
  proof cases
    case 1
    then show ?thesis using tl[OF l1] by simp
  next
    case 2
    then show ?thesis using tl[OF tl[OF l1]] by simp
  next
    case 3
    have "length pos2 \<le> length src" using parse_int_length[OF 3(2)] tl[OF l1] by simp
    then show ?thesis using 3(1) tl[OF sp] by simp
  qed
qed

lemma throw_opt_Return: "throw_opt x f = Return y \<longleftrightarrow> (\<exists>z. x = Some z \<and> f z = Return y)"
  by (cases x) (auto simp: throw_opt_def)

lemma throw_opt_Fuel: "throw_opt x f = Fuel_Out \<longleftrightarrow> (\<exists>z. x = Some z \<and> f z = Fuel_Out)"
  by (cases x) (auto simp: throw_opt_def)

lemma run_bind_Fuel: "run_bind x f = Fuel_Out \<longleftrightarrow> x = Fuel_Out \<or> (\<exists>z. x = Return z \<and> f z = Fuel_Out)"
  by (cases x) auto

text \<open>One turn of the loop.\<close>

lemma rep_turn_ok:
  assumes "seq_ok l rule p" "run_bind (handle_repetitions name l a b (rule, p)) (\<lambda>(rule, p). Return (Some (l, pos, rule, p))) = Return (Some (l', pos', rule', p'))"
  shows "seq_ok l' rule' p' \<and> extends p p' \<and> pos' = pos"
  using assms handle_repetitions_ok[OF assms(1)] by (auto simp: run_bind_Return)

lemma seq_item_ok:
  assumes s: "seq_ok l rule p" and i: "seq_item name nested c cs l rule p = Return (Some (l', pos, rule', p'))"
  shows "seq_ok l' rule' p' \<and> extends p p' \<and> length pos \<le> length cs"
proof -
  have ok: "parser_ok p" "open_ok (ids_of p) rule" using s by (simp_all add: seq_ok_def)
  have sp: "length x \<le> length cs \<Longrightarrow> length (parse_space x nested) \<le> length cs" for x using parse_space_length[of x nested] by simp
  consider (lit) "c = 34" | (cls) "c = 91" | (word) "c \<noteq> 34" "c \<noteq> 91" "is_word_char c" | (any) "c = 46" | (rep) "c \<notin> {34, 91, 46}" "\<not> is_word_char c" by blast
  then show ?thesis
  proof cases
    case lit
    then obtain pos1 where r: "literal cs rule = Some (pos1, rule')" "l' = length rule" "pos = parse_space pos1 nested" "p' = p"
      using i by (auto simp: seq_item_def Let_def throw_opt_Return)
    obtain x where "rule' = rule @ x" "open_ok (ids_of p) x" "length pos1 < length cs" using literal_ok[OF r(1)] by blast
    then show ?thesis using r seq_ok_append[OF ok] ok(1) sp by simp
  next
    case cls
    let ?t = "if cs \<noteq> [] \<and> hd cs = 94 then GRE_CHAR_NOT else GRE_CHAR" and ?src = "if cs \<noteq> [] \<and> hd cs = 94 then tl cs else cs"
    obtain pos1 where r: "char_class ?t (length rule) ?src (rule @ []) = Some (pos1, rule')" "l' = length rule" "pos = parse_space pos1 nested" "p' = p"
      using i cls by (auto simp: seq_item_def Let_def throw_opt_Return)
    have t: "?t \<in> {GRE_CHAR, GRE_CHAR_NOT}" by simp
    have "class_part ?t []" by (simp add: class_part_def)
    then obtain x where x: "rule' = rule @ x" "class_part ?t x" "length pos1 < length ?src" using char_class_ok[OF r(1) _ t] by blast
    have "length ?src \<le> length cs" by simp
    then have "length pos1 \<le> length cs" using x(3) by linarith
    then show ?thesis using r(2-4) x(1) seq_ok_append[OF ok class_part_open[OF x(2) t]] ok(1) sp by simp
  next
    case word
    then obtain nm pos1 where nm: "parse_name (c # cs) = Some (nm, pos1)" "(case get_symbol_id nm p of (ref, p) \<Rightarrow>
        Return (Some (length rule, parse_space pos1 nested, rule @ [gelem GRE_RULE_REF ref], p))) = Return (Some (l', pos, rule', p'))"
      using i by (auto simp: seq_item_def Let_def throw_opt_Return)
    then obtain ref where r: "parse_name (c # cs) = Some (nm, pos1)" "get_symbol_id nm p = (ref, p')" "l' = length rule" "pos = parse_space pos1 nested"
        "rule' = rule @ [gelem GRE_RULE_REF ref]" by (cases "get_symbol_id nm p") auto
    have n: "95 \<notin> set nm" "length pos1 \<le> length cs" using parse_name_ok[OF r(1)] by auto
    have e: "extends p p'" "ref \<in> ids_of p'" using get_symbol_id_ok[OF ok(1) n(1) r(2)] by auto
    have "open_ok (ids_of p') rule" using ok(2) e(1) by (auto simp: extends_def intro: open_ok_mono)
    then show ?thesis using seq_ok_append[of p' rule "[gelem GRE_RULE_REF ref]"] e r(3-5) sp[OF n(2)] by (simp add: open_ok_single extends_def)
  next
    case any
    have nw: "\<not> is_word_char 46" by (simp add: is_word_char_def is_digit_char_def)
    have r: "l' = length rule" "pos = parse_space cs nested" "rule' = rule @ [gelem GRE_CHAR_ANY 0]" "p' = p" using i any nw by (auto simp: seq_item_def Let_def)
    then show ?thesis using seq_ok_append[OF ok, of "[gelem GRE_CHAR_ANY 0]"] ok(1) sp[of cs] by (simp add: open_ok_single)
  next
    case rep
    obtain a b pos1 where r: "run_bind (handle_repetitions name l a b (rule, p)) (\<lambda>(rule, p). Return (Some (l, pos1, rule, p))) = Return (Some (l', pos, rule', p'))"
        "length pos1 \<le> length cs"
    proof (cases "c = 123")
      case True
      then obtain a b pos1 where "parse_bounds nested cs = Some (a, b, pos1)"
          "run_bind (handle_repetitions name l a b (rule, p)) (\<lambda>(rule, p). Return (Some (l, pos1, rule, p))) = Return (Some (l', pos, rule', p'))"
        using i rep by (auto simp: seq_item_def Let_def throw_opt_Return)
      then show thesis using that parse_bounds_length by blast
    next
      case False
      then obtain a b where "run_bind (handle_repetitions name l a b (rule, p)) (\<lambda>(rule, p). Return (Some (l, parse_space cs nested, rule, p))) =
          Return (Some (l', pos, rule', p'))"
        using i rep by (simp add: seq_item_def Let_def split: if_splits)
      then show thesis using that parse_space_length by blast
    qed
    then show ?thesis using rep_turn_ok[OF s r(1)] by simp
  qed
qed

lemma run_each_no_fuel: "(\<And>x s. f x s \<noteq> Fuel_Out) \<Longrightarrow> run_each f xs s \<noteq> Fuel_Out"
  by (induction xs arbitrary: s) (auto simp: run_bind_Fuel)

lemma add_rule_no_fuel [simp]: "add_rule i rule p \<noteq> Fuel_Out"
  by (simp add: add_rule_def Let_def)

lemma handle_repetitions_no_fuel: "handle_repetitions name l a b (rule, p) \<noteq> Fuel_Out"
proof -
  have "rep_step name prev b i s \<noteq> Fuel_Out" for prev i s
    by (cases s) (auto simp: rep_step_def run_bind_Fuel split: prod.splits)
  then show ?thesis using run_each_no_fuel[of "rep_step name _ b"] by (auto simp: handle_repetitions_def Let_def run_bind_Fuel)
qed

lemma seq_item_no_fuel: "seq_item name nested c cs l rule p \<noteq> Fuel_Out"
  using handle_repetitions_no_fuel by (auto simp: seq_item_def Let_def throw_opt_Fuel run_bind_Fuel split: prod.splits)

subsection \<open>Sequences, alternates and rules\<close>

text \<open>What the parser of a group has to promise.\<close>

definition group_ok :: "group_parser \<Rightarrow> bool" where
  "group_ok g \<longleftrightarrow> (\<forall>i src p pos p'. parser_ok p \<longrightarrow> g i src p = Return (pos, p') \<longrightarrow> extends p p' \<and> length pos \<le> length src)"

lemma group_okD: "group_ok g \<Longrightarrow> parser_ok p \<Longrightarrow> g i src p = Return (pos, p') \<Longrightarrow> extends p p' \<and> length pos \<le> length src"
  unfolding group_ok_def by blast

lemma open_extends: "open_ok (ids_of p) rule \<Longrightarrow> extends p p' \<Longrightarrow> open_ok (ids_of p') rule"
  by (auto simp: extends_def intro: open_ok_mono)

lemma parse_sequence_ok:
  assumes g: "group_ok grp"
  shows "seq_ok l rule p \<Longrightarrow> parse_sequence n grp name nested l src rule p = Return (pos, rule', p') \<Longrightarrow>
    extends p p' \<and> open_ok (ids_of p') rule' \<and> length pos \<le> length src"
proof (induction n arbitrary: l src rule p)
  case (Suc n)
  show ?case
  proof (cases src)
    case Nil
    then show ?thesis using Suc.prems by (auto simp: seq_ok_def)
  next
    case (Cons c cs)
    show ?thesis
    proof (cases "c = 40")
      case True
      obtain sub p1 where gen: "generate_symbol_id name p = (sub, p1)" by (cases "generate_symbol_id name p")
      obtain pos1 p2 where r: "grp sub (parse_space cs True) p1 = Return (pos1, p2)" "pos1 \<noteq> []"
          "parse_sequence n grp name nested (length rule) (parse_space (tl pos1) nested) (rule @ [gelem GRE_RULE_REF sub]) p2 = Return (pos, rule', p')"
        using Suc.prems(2) Cons True gen by (auto simp: run_bind_Return split: if_splits)
      have ok: "parser_ok p" "open_ok (ids_of p) rule" using Suc.prems(1) by (simp_all add: seq_ok_def)
      have e1: "extends p p1" "sub \<in> ids_of p1" using generate_symbol_id_ok[OF ok(1) gen] by auto
      have e2: "extends p1 p2" "length pos1 \<le> length (parse_space cs True)" using g r(1) e1(1) by (auto simp: group_ok_def extends_def)
      have "open_ok (ids_of p2) [gelem GRE_RULE_REF sub]" using e1(2) e2(1) by (auto simp: open_ok_single extends_def)
      then have "seq_ok (length rule) (rule @ [gelem GRE_RULE_REF sub]) p2"
        using open_extends[OF open_extends[OF ok(2) e1(1)] e2(1)] e2(1) by (intro seq_ok_append) (auto simp: extends_def)
      then have i: "extends p2 p' \<and> open_ok (ids_of p') rule' \<and> length pos \<le> length (parse_space (tl pos1) nested)" by (rule Suc.IH[OF _ r(3)])
      have "length pos \<le> length src" using i e2(2) parse_space_length[of "tl pos1" nested] parse_space_length[of cs True] Cons by (simp; linarith)
      then show ?thesis using i e1(1) e2(1) extends_trans by blast
    next
      case False
      obtain it where it: "seq_item name nested c cs l rule p = Return it" using Suc.prems(2) Cons False by (auto simp: run_bind_Return)
      show ?thesis
      proof (cases it)
        case None
        then show ?thesis using Suc.prems Cons False it by (auto simp: seq_ok_def)
      next
        case (Some st)
        obtain l1 pos1 rule1 p1 where st: "st = (l1, pos1, rule1, p1)" by (cases st)
        have s: "seq_ok l1 rule1 p1 \<and> extends p p1 \<and> length pos1 \<le> length cs" by (rule seq_item_ok[OF Suc.prems(1)]) (use it Some st in simp)
        have "parse_sequence n grp name nested l1 pos1 rule1 p1 = Return (pos, rule', p')" using Suc.prems(2) Cons False it Some st by simp
        then have "extends p1 p' \<and> open_ok (ids_of p') rule' \<and> length pos \<le> length pos1" using Suc.IH s by blast
        then show ?thesis using s Cons extends_trans by fastforce
      qed
    qed
  qed
qed simp

lemma more_alternates_ok:
  assumes g: "group_ok grp"
  shows "parser_ok p \<Longrightarrow> open_ok (ids_of p) rule \<Longrightarrow> more_alternates n fuel grp name i nested pos0 rule p = Return (pos, p') \<Longrightarrow>
    extends p p' \<and> length pos \<le> length pos0"
proof (induction n arbitrary: pos0 rule p)
  case (Suc n)
  show ?case
  proof (cases "pos0 \<noteq> [] \<and> hd pos0 = 124")
    case True
    let ?rule = "rule @ [gelem GRE_ALT 0]"
    obtain pos1 rule1 p1 where r: "parse_sequence fuel grp name nested (length ?rule) (parse_space (tl pos0) True) ?rule p = Return (pos1, rule1, p1)"
        "more_alternates n fuel grp name i nested pos1 rule1 p1 = Return (pos, p')"
      using Suc.prems(3) True by (auto simp: run_bind_Return Let_def)
    have "open_ok (ids_of p) ?rule" by (rule open_ok_append[OF Suc.prems(2)]) (simp add: open_ok_single)
    then have "seq_ok (length ?rule) ?rule p" using Suc.prems(1) by (simp add: seq_ok_def)
    then have s: "extends p p1" "open_ok (ids_of p1) rule1" "length pos1 \<le> length (parse_space (tl pos0) True)" using parse_sequence_ok[OF g _ r(1)] by auto
    then have "extends p1 p'" "length pos \<le> length pos1" using Suc.IH[OF _ s(2) r(2)] by (auto simp: extends_def)
    then show ?thesis using s parse_space_length[of "tl pos0" True] extends_trans by fastforce
  next
    case False
    then show ?thesis using Suc.prems(3) add_rule_ok[OF Suc.prems(1,2)] by (auto simp: run_bind_Return)
  qed
qed simp

lemma parse_alternates_ok: "group_ok (parse_alternates d fuel name nested)"
proof (induction d arbitrary: nested)
  case (Suc d)
  show ?case unfolding group_ok_def
  proof (intro allI impI)
    fix i src p pos p' assume p: "parser_ok p" and a: "parse_alternates (Suc d) fuel name nested i src p = Return (pos, p')"
    let ?g = "parse_alternates d fuel name True"
    obtain pos1 rule1 p1 where r: "parse_sequence fuel ?g name nested 0 src [] p = Return (pos1, rule1, p1)"
        "more_alternates fuel fuel ?g name i nested pos1 rule1 p1 = Return (pos, p')" using a by (auto simp: run_bind_Return Let_def)
    have "seq_ok 0 [] p" using p by (simp add: seq_ok_def)
    then have s: "extends p p1" "open_ok (ids_of p1) rule1" "length pos1 \<le> length src" using parse_sequence_ok[OF Suc.IH _ r(1)] by auto
    then have "extends p1 p'" "length pos \<le> length pos1" using more_alternates_ok[OF Suc.IH _ s(2) r(2)] by (auto simp: extends_def)
    then show "extends p p' \<and> length pos \<le> length src" using s extends_trans by fastforce
  qed
qed (simp add: group_ok_def)

lemma rule_end_length: "rule_end pos = Some rest \<Longrightarrow> length rest \<le> length pos"
  by (auto simp: rule_end_def split: list.splits if_splits)

lemma parse_rule_ok:
  assumes p: "parser_ok p" and r: "parse_rule fuel src p = Return (pos, p')"
  shows "extends p p' \<and> length pos < length src"
proof -
  obtain name pos1 where n: "parse_name src = Some (name, pos1)"
      "(case get_symbol_id name p of (rule_id, p) \<Rightarrow> if take 3 (parse_space pos1 False) = [58, 58, 61] then
         run_bind (parse_alternates fuel fuel name False rule_id (parse_space (drop 3 (parse_space pos1 False)) True) p) (\<lambda>(pos, p).
           throw_opt (rule_end pos) (\<lambda>pos. Return (parse_space pos True, p))) else Throw) = Return (pos, p')"
    using r by (auto simp: parse_rule_def throw_opt_Return Let_def)
  obtain i p1 where i: "get_symbol_id name p = (i, p1)" by (cases "get_symbol_id name p")
  let ?src = "parse_space (drop 3 (parse_space pos1 False)) True"
  obtain pos2 pos3 where a: "parse_alternates fuel fuel name False i ?src p1 = Return (pos2, p')" "rule_end pos2 = Some pos3" "pos = parse_space pos3 True"
    using n(2) i by (auto simp: run_bind_Return throw_opt_Return split: if_splits)
  have nm: "95 \<notin> set name" "length pos1 < length src" using parse_name_ok[OF n(1)] by auto
  have e1: "extends p p1" using get_symbol_id_ok[OF p nm(1) i] by simp
  have e2: "extends p1 p'" "length pos2 \<le> length ?src"
    using group_okD[OF parse_alternates_ok _ a(1)] e1 by (auto simp: extends_def)
  have "length ?src \<le> length pos1" using parse_space_length[of "drop 3 (parse_space pos1 False)" True] parse_space_length[of pos1 False] by simp
  moreover have "length pos \<le> length pos2" using a(2,3) rule_end_length[OF a(2)] parse_space_length[of pos3 True] by simp
  ultimately show ?thesis using e1 e2 nm(2) extends_trans by fastforce
qed

lemma parse_rules_ok: "parser_ok p \<Longrightarrow> parse_rules n fuel pos p = Return p' \<Longrightarrow> extends p p'"
proof (induction n arbitrary: pos p)
  case (Suc n)
  show ?case
  proof (cases "pos = []")
    case False
    then obtain pos1 p1 where r: "parse_rule fuel pos p = Return (pos1, p1)" "parse_rules n fuel pos1 p1 = Return p'"
      using Suc.prems(2) by (auto simp: run_bind_Return)
    have e: "extends p p1" using parse_rule_ok[OF Suc.prems(1) r(1)] by simp
    then have "extends p1 p'" using Suc.IH[OF _ r(2)] by (simp add: extends_def)
    then show ?thesis using e extends_trans by blast
  qed (use Suc.prems in simp)
qed simp

subsection \<open>Enough fuel\<close>

lemma parse_sequence_fuel:
  assumes g: "group_ok grp" "\<forall>i src' p. length src' < k \<longrightarrow> parser_ok p \<longrightarrow> grp i src' p \<noteq> Fuel_Out"
  shows "seq_ok l rule p \<Longrightarrow> length src < n \<Longrightarrow> length src \<le> k \<Longrightarrow> parse_sequence n grp name nested l src rule p \<noteq> Fuel_Out"
proof (induction n arbitrary: l src rule p)
  case (Suc n)
  show ?case
  proof (cases src)
    case (Cons c cs)
    have ok: "parser_ok p" "open_ok (ids_of p) rule" using Suc.prems(1) by (simp_all add: seq_ok_def)
    show ?thesis
    proof (cases "c = 40")
      case True
      obtain sub p1 where gen: "generate_symbol_id name p = (sub, p1)" by (cases "generate_symbol_id name p")
      have e1: "extends p p1" "sub \<in> ids_of p1" using generate_symbol_id_ok[OF ok(1) gen] by auto
      have "length (parse_space cs True) < k" using parse_space_length[of cs True] Suc.prems(3) Cons by simp
      then have nf: "grp sub (parse_space cs True) p1 \<noteq> Fuel_Out" using g(2) e1(1) by (simp add: extends_def)
      have "parse_sequence n grp name nested (length rule) (parse_space (tl pos) nested) (rule @ [gelem GRE_RULE_REF sub]) p2 \<noteq> Fuel_Out"
        if r: "grp sub (parse_space cs True) p1 = Return (pos, p2)" for pos p2
      proof (rule Suc.IH)
        have e2: "extends p1 p2" "length pos \<le> length (parse_space cs True)" using group_okD[OF g(1) _ r] e1(1) by (auto simp: extends_def)
        have "open_ok (ids_of p2) [gelem GRE_RULE_REF sub]" using e1(2) e2(1) by (auto simp: open_ok_single extends_def)
        then show "seq_ok (length rule) (rule @ [gelem GRE_RULE_REF sub]) p2"
          using open_extends[OF open_extends[OF ok(2) e1(1)] e2(1)] e2(1) by (intro seq_ok_append) (auto simp: extends_def)
        have "length (parse_space (tl pos) nested) \<le> length cs"
          using e2(2) parse_space_length[of "tl pos" nested] parse_space_length[of cs True] by (simp; linarith)
        then show "length (parse_space (tl pos) nested) < n" "length (parse_space (tl pos) nested) \<le> k" using Suc.prems Cons by simp_all
      qed
      then show ?thesis using nf Cons True gen by (auto simp: run_bind_Fuel split: if_splits)
    next
      case False
      have "parse_sequence n grp name nested l1 pos1 rule1 p1 \<noteq> Fuel_Out"
        if "seq_item name nested c cs l rule p = Return (Some (l1, pos1, rule1, p1))" for l1 pos1 rule1 p1
        by (rule Suc.IH) (use seq_item_ok[OF Suc.prems(1) that] Suc.prems Cons in auto)
      then show ?thesis using Cons False seq_item_no_fuel[of name nested c cs l rule p] by (auto simp: run_bind_Fuel split: option.splits)
    qed
  qed simp
qed simp

lemma more_alternates_fuel:
  assumes g: "group_ok grp" "\<forall>i src' p. length src' < k \<longrightarrow> parser_ok p \<longrightarrow> grp i src' p \<noteq> Fuel_Out" and f: "k < fuel"
  shows "parser_ok p \<Longrightarrow> open_ok (ids_of p) rule \<Longrightarrow> length pos < n \<Longrightarrow> length pos \<le> k \<Longrightarrow>
    more_alternates n fuel grp name i nested pos rule p \<noteq> Fuel_Out"
proof (induction n arbitrary: pos rule p)
  case (Suc n)
  show ?case
  proof (cases "pos \<noteq> [] \<and> hd pos = 124")
    case True
    let ?rule = "rule @ [gelem GRE_ALT 0]" and ?src = "parse_space (tl pos) True"
    have len: "length ?src < length pos" using parse_space_length[of "tl pos" True] True by (cases pos) auto
    have "open_ok (ids_of p) ?rule" by (rule open_ok_append[OF Suc.prems(2)]) (simp add: open_ok_single)
    then have s: "seq_ok (length ?rule) ?rule p" using Suc.prems(1) by (simp add: seq_ok_def)
    have nf: "parse_sequence fuel grp name nested (length ?rule) ?src ?rule p \<noteq> Fuel_Out"
      by (rule parse_sequence_fuel[OF g s]) (use len Suc.prems f in linarith)+
    have "more_alternates n fuel grp name i nested pos1 rule1 p1 \<noteq> Fuel_Out"
      if "parse_sequence fuel grp name nested (length ?rule) ?src ?rule p = Return (pos1, rule1, p1)" for pos1 rule1 p1
      by (rule Suc.IH) (use parse_sequence_ok[OF g(1) s that] Suc.prems len in \<open>auto simp: extends_def\<close>)
    then show ?thesis using nf True by (auto simp: run_bind_Fuel Let_def)
  qed (auto simp: run_bind_Fuel)
qed simp

lemma parse_alternates_fuel:
  "length src < d \<Longrightarrow> length src < fuel \<Longrightarrow> parser_ok p \<Longrightarrow> parse_alternates d fuel name nested i src p \<noteq> Fuel_Out"
proof (induction d arbitrary: src nested i p)
  case (Suc d)
  let ?g = "parse_alternates d fuel name True"
  have nf: "\<forall>i src' p. length src' < length src \<longrightarrow> parser_ok p \<longrightarrow> ?g i src' p \<noteq> Fuel_Out" using Suc.IH Suc.prems by auto
  have s: "seq_ok 0 [] p" using Suc.prems(3) by (simp add: seq_ok_def)
  have 1: "parse_sequence fuel ?g name nested 0 src [] p \<noteq> Fuel_Out" by (rule parse_sequence_fuel[OF parse_alternates_ok nf s]) (use Suc.prems in auto)
  have "more_alternates fuel fuel ?g name i nested pos rule p1 \<noteq> Fuel_Out" if "parse_sequence fuel ?g name nested 0 src [] p = Return (pos, rule, p1)" for pos rule p1
    by (rule more_alternates_fuel[OF parse_alternates_ok nf Suc.prems(2)]) (use parse_sequence_ok[OF parse_alternates_ok s that] Suc.prems in \<open>auto simp: extends_def\<close>)
  then show ?case using 1 by (auto simp: run_bind_Fuel Let_def)
qed simp

lemma parse_rule_fuel:
  assumes p: "parser_ok p" and len: "length src < fuel"
  shows "parse_rule fuel src p \<noteq> Fuel_Out"
proof -
  have "parse_alternates fuel fuel name False i (parse_space (drop 3 (parse_space pos1 False)) True) p1 \<noteq> Fuel_Out"
    if n: "parse_name src = Some (name, pos1)" and g: "get_symbol_id name p = (i, p1)" for name pos1 i p1
  proof -
    have nm: "95 \<notin> set name" "length pos1 < length src" using parse_name_ok[OF n] by auto
    have "length (parse_space (drop 3 (parse_space pos1 False)) True) \<le> length pos1"
      using parse_space_length[of "drop 3 (parse_space pos1 False)" True] parse_space_length[of pos1 False] by simp
    then show ?thesis using nm(2) len get_symbol_id_ok[OF p nm(1) g] by (intro parse_alternates_fuel) (auto simp: extends_def)
  qed
  then show ?thesis by (auto simp: parse_rule_def Let_def throw_opt_Fuel run_bind_Fuel split: prod.splits if_splits)
qed

lemma parse_rules_fuel: "parser_ok p \<Longrightarrow> length pos < n \<Longrightarrow> length pos < fuel \<Longrightarrow> parse_rules n fuel pos p \<noteq> Fuel_Out"
proof (induction n arbitrary: pos p)
  case (Suc n)
  have "parse_rules n fuel pos1 p1 \<noteq> Fuel_Out" if "parse_rule fuel pos p = Return (pos1, p1)" for pos1 p1
    by (rule Suc.IH) (use parse_rule_ok[OF Suc.prems(1) that] Suc.prems in \<open>auto simp: extends_def\<close>)
  then show ?case using parse_rule_fuel[OF Suc.prems(1,3)] by (auto simp: run_bind_Fuel)
qed simp

subsection \<open>Parsing a text\<close>

lemma open_rule_ok:
  assumes "open_ok V b" "\<forall>e \<in> set b. ge_type e = GRE_RULE_REF \<longrightarrow> unat (ge_value e) < n"
  shows "rule_ok n (b @ [gelem GRE_END 0])"
proof -
  have "successively chained (b @ [gelem GRE_END 0])" using assms(1) by (auto simp: open_ok_def successively_append_iff chained_def gelem_def)
  then show ?thesis using assms by (cases b) (auto simp: rule_ok_def open_ok_def inner_def gelem_def)
qed

lemma valid_rules_ok:
  assumes "parser_ok p" "rules_valid p"
  shows "rules_ok (gp_rules p)"
  unfolding rules_ok_def
proof
  fix rule assume r: "rule \<in> set (gp_rules p)"
  then obtain b where b: "rule = b @ [gelem GRE_END 0]" "open_ok (ids_of p) b" using assms by (auto simp: parser_ok_def shape_ok_def rules_valid_def)
  have "unat (ge_value e) < length (gp_rules p)" if "e \<in> set b" "ge_type e = GRE_RULE_REF" for e
  proof -
    have "ge_value e \<in> ids_of p" using b(2) that by (simp add: open_ok_def)
    moreover have "\<not> undefined_ref p e" using assms(2) r b(1) that(1) by (auto simp: rules_valid_def)
    ultimately show ?thesis using that(2) by (auto simp: undefined_ref_def not_le)
  qed
  then show "rule_ok (length (gp_rules p)) rule" using open_rule_ok[OF b(2)] b(1) by blast
qed

lemma parse_grammar_total:
  "parse_grammar src \<noteq> Fuel_Out \<and> parse_grammar src \<noteq> Throw"
proof -
  let ?src = "takeWhile (\<lambda>c. c \<noteq> 0) src" and ?p = "\<lparr>gp_symbol_ids = [], gp_rules = []\<rparr>"
  have "length (parse_space ?src True) < parse_fuel src" using parse_space_length[of ?src True] length_takeWhile_le[of "\<lambda>c. c \<noteq> 0" src] by (simp add: parse_fuel_def)
  then have "parse_rules (parse_fuel src) (parse_fuel src) (parse_space ?src True) ?p \<noteq> Fuel_Out"
    by (intro parse_rules_fuel) (simp_all add: parser_ok_def keys_ok_def)
  then show ?thesis by (auto simp: parse_grammar_def Let_def catch_throw_def run_bind_Fuel split: run.splits if_splits)
qed

lemma parse_grammar_ok:
  assumes "parse_grammar src = Return (Some p)"
  shows "parser_ok p \<and> rules_ok (gp_rules p)"
proof -
  have r: "parse_rules (parse_fuel src) (parse_fuel src) (parse_space (takeWhile (\<lambda>c. c \<noteq> 0) src) True) \<lparr>gp_symbol_ids = [], gp_rules = []\<rparr> = Return p" "rules_valid p"
    using assms by (auto simp: parse_grammar_def Let_def catch_throw_def run_bind_Return split: run.splits if_splits)
  have "parser_ok p" using parse_rules_ok[OF _ r(1)] by (simp add: parser_ok_def keys_ok_def extends_def)
  then show ?thesis using valid_rules_ok r(2) by blast
qed

end
