(* ===== verification/Grammar_Parse_Safe.thy ===== *)
theory Grammar_Parse_Safe
  imports Grammar_Parse_Ok "HOL-Library.Sublist"
begin

text \<open>
  When the GBNF parser cannot abort. It aborts only where a 32 bit number overflows: the difference of the bounds of a
  repetition, and the ids of symbols. Every symbol is paid for by the text that has been read, so a bound on the repetitions and
  on the length of the text excludes both.
\<close>

subsection \<open>What is left of the text\<close>

lemma parse_space_suffix: "suffix (parse_space src nl) src"
proof (induction src nl rule: parse_space.induct)
  case (2 c cs nl)
  have "suffix (dropWhile (\<lambda>c. c \<noteq> 13 \<and> c \<noteq> 10) cs) cs" by (rule suffix_dropWhile)
  then show ?case using 2 by (auto intro: suffix_order.trans suffix_ConsI)
qed simp

lemma space_suffix: "suffix x y \<Longrightarrow> suffix (parse_space x nl) y"
  using parse_space_suffix suffix_order.trans by blast

lemma tl_suffix: "suffix x y \<Longrightarrow> suffix (tl x) y"
  using suffix_tl suffix_order.trans by blast

lemma parse_hex_suffix: "parse_hex src n v = Some (c, rest) \<Longrightarrow> suffix rest src"
  by (induction src n v rule: parse_hex.induct) (auto split: option.splits intro: suffix_ConsI)

lemma decode_rest_suffix: "suffix (snd (decode_rest n bs v)) bs"
  by (induction n bs v rule: decode_rest.induct) (auto intro: suffix_ConsI)

lemma parse_char_suffix: "parse_char src = Some (c, rest) \<Longrightarrow> suffix rest src"
proof -
  assume a: "parse_char src = Some (c, rest)"
  then obtain b bs where src: "src = b # bs" by (cases src) (auto simp: parse_char_def)
  have "suffix rest bs"
  proof (cases "b = 92")
    case True
    then obtain e es where bs: "bs = e # es" using a src by (cases bs) (auto simp: parse_char_def)
    then have "suffix rest es" using a src True by (auto simp: parse_char_def dest: parse_hex_suffix split: if_splits)
    then show ?thesis using bs by (auto intro: suffix_ConsI)
  next
    case False
    then have "rest = snd (decode_utf8_char b bs)" using a src by (auto simp: parse_char_def)
    then show ?thesis using decode_rest_suffix by (simp add: decode_utf8_char_def)
  qed
  then show ?thesis using src by (auto intro: suffix_ConsI)
qed

lemma literal_suffix: "literal src rule = Some (rest, rule') \<Longrightarrow> suffix rest src"
proof (induction src rule rule: literal.induct)
  case (1 src rule)
  obtain c cs where src: "src = c # cs" using 1(2) by (cases src) (auto simp: literal.simps)
  show ?case
  proof (cases "c = 34")
    case True
    then show ?thesis using 1(2) src by (auto simp: literal.simps[of "34 # cs"] intro: suffix_ConsI)
  next
    case False
    then obtain chr r where r: "parse_char src = Some (chr, r)" "literal r (rule @ [gelem GRE_CHAR chr]) = Some (rest, rule')"
      using 1(2) src by (auto simp: literal.simps[of "c # cs"] split: option.splits)
    have "suffix rest r" using 1(1)[OF src False r(1) refl r(2)] .
    then show ?thesis using parse_char_suffix[OF r(1)] suffix_order.trans by blast
  qed
qed

lemma class_upper_suffix: "class_upper pos rule = Some (rest, rule') \<Longrightarrow> suffix rest pos"
  by (auto simp: class_upper_def dest: parse_char_suffix split: list.splits if_splits intro: suffix_ConsI)

lemma char_class_suffix: "char_class t l src rule = Some (rest, rule') \<Longrightarrow> suffix rest src"
proof (induction "length src" arbitrary: src rule rule: less_induct)
  case less
  obtain c cs where src: "src = c # cs" using less.prems by (cases src) (auto simp: char_class.simps)
  show ?case
  proof (cases "c = 93")
    case True
    then show ?thesis using less.prems src by (auto simp: char_class.simps[of _ _ "93 # cs"] intro: suffix_ConsI)
  next
    case False
    then obtain chr r r2 rule2 where r: "parse_char src = Some (chr, r)" "class_upper r (class_start t l chr rule) = Some (r2, rule2)"
        "char_class t l r2 rule2 = Some (rest, rule')"
      using less.prems src by (auto simp: char_class.simps[of _ _ "c # cs"] split: option.splits)
    have s: "suffix r2 src" using parse_char_suffix[OF r(1)] class_upper_suffix[OF r(2)] suffix_order.trans by blast
    have "length r2 < length src" using parse_char_length[OF r(1)] class_upper_length[OF r(2)] by simp
    then have "suffix rest r2" using less.hyps r(3) by blast
    then show ?thesis using s suffix_order.trans by blast
  qed
qed

lemma parse_name_suffix: "parse_name src = Some (name, rest) \<Longrightarrow> suffix rest src"
  by (auto simp: parse_name_def suffix_dropWhile split: if_splits)

lemma parse_int_suffix: "parse_int src = Some (ds, rest) \<Longrightarrow> suffix rest src"
  by (auto simp: parse_int_def suffix_dropWhile split: if_splits)

lemma parse_bounds_suffix: "parse_bounds nested src = Some (a, b, rest) \<Longrightarrow> suffix rest src"
proof -
  assume a: "parse_bounds nested src = Some (a, b, rest)"
  then obtain ds pos where i: "parse_int (parse_space src nested) = Some (ds, pos)" by (auto simp: parse_bounds_def bind_eq_Some_conv)
  define pos1 where "pos1 = parse_space pos nested"
  have l: "suffix pos src" using parse_int_suffix[OF i] parse_space_suffix suffix_order.trans by blast
  have l1: "suffix pos1 src" unfolding pos1_def using space_suffix[OF l] .
  consider "rest = parse_space (tl pos1) nested"
    | pos2 where "rest = parse_space (tl pos2) nested" "pos2 = parse_space (tl pos1) nested"
    | ds2 pos2 where "rest = parse_space (tl (parse_space pos2 nested)) nested" "parse_int (parse_space (tl pos1) nested) = Some (ds2, pos2)"
    using a i by (auto simp: parse_bounds_def pos1_def bind_eq_Some_conv Let_def split: if_splits)
  then show ?thesis
  proof cases
    case 3
    have "suffix pos2 src" using parse_int_suffix[OF 3(2)] space_suffix[OF tl_suffix[OF l1]] suffix_order.trans by blast
    then show ?thesis using 3(1) space_suffix tl_suffix by blast
  qed (use l1 space_suffix tl_suffix in blast)+
qed

lemma rule_end_suffix: "rule_end pos = Some rest \<Longrightarrow> suffix rest pos"
  by (auto simp: rule_end_def intro: suffix_ConsI tl_suffix split: list.splits if_splits)

subsection \<open>Symbols are paid for by the text\<close>

text \<open>No repetition that can be read in the text has bounds more than \<open>B\<close> apart.\<close>

definition reps_upto :: "nat \<Rightarrow> bytes \<Rightarrow> bool" where
  "reps_upto B src \<longleftrightarrow> (\<forall>rest nested a b pos. suffix (123 # rest) src \<longrightarrow> parse_bounds nested rest = Some (a, b, pos) \<longrightarrow> b < 0 \<or> b - a \<le> int B)"

lemma reps_upto_suffix: "reps_upto B src \<Longrightarrow> suffix pos src \<Longrightarrow> reps_upto B pos"
  unfolding reps_upto_def using suffix_order.trans by blast

lemma reps_upto_no_brace: "123 \<notin> set src \<Longrightarrow> reps_upto B src"
  by (auto simp: reps_upto_def dest!: set_mono_suffix)

definition weight :: "nat \<Rightarrow> grammar_parser \<Rightarrow> bytes \<Rightarrow> nat" where
  "weight B p src = length (gp_symbol_ids p) + B * length src"

text \<open>A step that reads text does not abort, and new symbols weigh at most what has been read.\<close>

definition paid :: "nat \<Rightarrow> bytes \<Rightarrow> grammar_parser \<Rightarrow> bytes \<Rightarrow> grammar_parser \<Rightarrow> bool" where
  "paid B src p pos p' \<longleftrightarrow> suffix pos src \<and> weight B p' pos \<le> weight B p src"

lemma paid_trans: "paid B src p pos p1 \<Longrightarrow> paid B pos p1 pos' p' \<Longrightarrow> paid B src p pos' p'"
  unfolding paid_def using suffix_order.trans by (meson order.trans)

lemma paid_suffix: "suffix pos src \<Longrightarrow> length (gp_symbol_ids p') \<le> length (gp_symbol_ids p) \<Longrightarrow> paid B src p pos p'"
  unfolding paid_def weight_def by (meson add_mono mult_le_mono2 suffix_length_le)

lemma paid_Cons:
  assumes "suffix pos cs" "length (gp_symbol_ids p') \<le> length (gp_symbol_ids p) + B"
  shows "paid B (c # cs) p pos p'"
proof -
  have "B * length pos \<le> B * length cs" using suffix_length_le[OF assms(1)] by (rule mult_le_mono2)
  then have "weight B p' pos \<le> weight B p (c # cs)" using assms(2) by (simp only: weight_def length_Cons mult_Suc_right)
  then show ?thesis using assms(1) by (simp add: paid_def suffix_ConsI)
qed

definition in_bounds :: "nat \<Rightarrow> grammar_parser \<Rightarrow> bytes \<Rightarrow> bool" where
  "in_bounds B p src \<longleftrightarrow> parser_ok p \<and> reps_upto B src \<and> weight B p src < 2 ^ 32"

lemma in_bounds_paid: "in_bounds B p src \<Longrightarrow> paid B src p pos p' \<Longrightarrow> parser_ok p' \<Longrightarrow> in_bounds B p' pos"
  using reps_upto_suffix by (auto simp: in_bounds_def paid_def)

lemma in_bounds_ids: "in_bounds B p src \<Longrightarrow> length (gp_symbol_ids p) < 2 ^ 32"
  by (simp add: in_bounds_def weight_def)

lemma id_Suc:
  assumes "parser_ok p" "i \<in> ids_of p" "length (gp_symbol_ids p) < 2 ^ 32"
  shows "i + 1 \<noteq> (0 :: 32 word)"
proof
  assume "i + 1 = 0"
  then have "i = -1" by (simp add: eq_neg_iff_add_eq_0)
  then have "unat i = 2 ^ 32 - 1" by (simp add: unsigned_minus_1_eq_mask mask_eq_exp_minus_1)
  moreover have "unat i < length (gp_symbol_ids p)" using assms(1,2) by (auto simp: parser_ok_def keys_ok_def)
  ultimately show False using assms(3) by simp
qed

lemma get_symbol_id_length: "get_symbol_id name p = (i, p') \<Longrightarrow> length (gp_symbol_ids p') \<le> Suc (length (gp_symbol_ids p))"
  by (auto simp: get_symbol_id_def Let_def split: option.splits)

lemma generate_symbol_id_length: "generate_symbol_id name p = (i, p') \<Longrightarrow> length (gp_symbol_ids p') \<le> Suc (length (gp_symbol_ids p))"
  by (auto simp: generate_symbol_id_def Let_def length_update)

lemma add_rule_Return:
  assumes "i + 1 \<noteq> 0"
  shows "\<exists>p'. add_rule i rule p = Return p' \<and> gp_symbol_ids p' = gp_symbol_ids p"
proof -
  have "unat (i + 1) = Suc (unat i)" using assms unatSuc[of i] by (simp add: add.commute)
  then show ?thesis by (auto simp: add_rule_def Let_def vec_resize_def)
qed

subsection \<open>Elements\<close>

lemma run_bind_Abort: "run_bind x f = Abort \<longleftrightarrow> x = Abort \<or> (\<exists>z. x = Return z \<and> f z = Abort)"
  by (cases x) auto

lemma throw_opt_Abort: "throw_opt x f = Abort \<longleftrightarrow> (\<exists>z. x = Some z \<and> f z = Abort)"
  by (cases x) (auto simp: throw_opt_def)

lemma rep_step_safe:
  assumes "parser_ok p" "Suc (length (gp_symbol_ids p)) < 2 ^ 32"
  shows "\<exists>r p'. rep_step name prev max_times i (last_rec, p) = Return (r, p') \<and> length (gp_symbol_ids p') \<le> Suc (length (gp_symbol_ids p))"
proof -
  obtain r p1 where g: "generate_symbol_id name p = (r, p1)" by (cases "generate_symbol_id name p")
  have g1: "parser_ok p1" "r \<in> ids_of p1" "length (gp_symbol_ids p1) \<le> Suc (length (gp_symbol_ids p))"
    using generate_symbol_id_ok[OF assms(1) g] generate_symbol_id_length[OF g] by (auto simp: extends_def)
  have "length (gp_symbol_ids p1) < 2 ^ 32" using g1(3) assms(2) by (rule le_less_trans)
  from add_rule_Return[OF id_Suc[OF g1(1,2) this]] obtain p' where "add_rule r (rec_rule_of prev max_times i r last_rec) p1 = Return p'"
      "gp_symbol_ids p' = gp_symbol_ids p1" by blast
  then show ?thesis using g g1(3) by (simp add: rep_step_def)
qed

lemma rep_each_safe:
  assumes "parser_ok p" "open_ok (ids_of p) prev" "length (gp_symbol_ids p) + n < 2 ^ 32"
  shows "\<exists>r p'. run_each (rep_step name prev max_times) [0..<n] (0, p) = Return (r, p') \<and> length (gp_symbol_ids p') \<le> length (gp_symbol_ids p) + n"
  using assms(3)
proof (induction n)
  case (Suc n)
  then obtain r p1 where r: "run_each (rep_step name prev max_times) [0..<n] (0, p) = Return (r, p1)" "length (gp_symbol_ids p1) \<le> length (gp_symbol_ids p) + n"
    by auto
  have "parser_ok p1" using rep_each_ok[OF assms(1,2) r(1)] by (simp add: extends_def)
  from rep_step_safe[OF this, of name prev max_times n r] r(2) Suc.prems obtain r' p' where
    "rep_step name prev max_times n (r, p1) = Return (r', p')" "length (gp_symbol_ids p') \<le> Suc (length (gp_symbol_ids p1))" by auto
  then show ?case using r by (auto simp: run_each_append)
qed simp

lemma handle_repetitions_safe:
  assumes s: "seq_ok l rule p" and B: "0 < B" "int B \<le> INT32_MAX" and ab: "b < 0 \<or> b - a \<le> int B"
    and len: "length (gp_symbol_ids p) + B < 2 ^ 32"
  shows "handle_repetitions name l a b (rule, p) \<noteq> Abort \<and>
    (\<forall>rule' p'. handle_repetitions name l a b (rule, p) = Return (rule', p') \<longrightarrow> length (gp_symbol_ids p') \<le> length (gp_symbol_ids p) + B)"
proof (cases "l = length rule")
  case False
  define n_opt where "n_opt = (if b < 0 then 1 else b - a)"
  have n: "n_opt \<le> int B" using ab B(1) by (auto simp: n_opt_def)
  have ok: "parser_ok p" "open_ok (ids_of p) rule" "l < length rule" "\<not> inner (rule ! l)" using s False by (auto simp: seq_ok_def)
  have pv: "open_ok (ids_of p) (drop l rule)" by (rule open_ok_drop[OF ok(2)]) (use ok(4) in simp)
  have nn: "nat n_opt \<le> B" using n by linarith
  then have "length (gp_symbol_ids p) + nat n_opt < 2 ^ 32" using len by linarith
  from rep_each_safe[OF ok(1) pv this] obtain r p' where
    r: "run_each (rep_step name (drop l rule) b) [0..<nat n_opt] (0, p) = Return (r, p')" "length (gp_symbol_ids p') \<le> length (gp_symbol_ids p) + nat n_opt" by blast
  have "\<exists>rule'. handle_repetitions name l a b (rule, p) = Return (rule', p')"
    unfolding handle_repetitions_def Let_def prod.case n_opt_def[symmetric] using r(1) n B(2) False by simp
  then show ?thesis using r(2) nn by auto
qed (simp add: handle_repetitions_def)

lemma seq_item_safe:
  assumes s: "seq_ok l rule p" and B: "0 < B" "int B \<le> INT32_MAX" and b: "in_bounds B p (c # cs)"
  shows "seq_item name nested c cs l rule p \<noteq> Abort \<and>
    (\<forall>l' pos rule' p'. seq_item name nested c cs l rule p = Return (Some (l', pos, rule', p')) \<longrightarrow> paid B (c # cs) p pos p')"
proof -
  have "B \<le> B * length (c # cs)" by simp
  then have "length (gp_symbol_ids p) + B \<le> weight B p (c # cs)" unfolding weight_def by simp
  then have len: "length (gp_symbol_ids p) + B < 2 ^ 32" using b unfolding in_bounds_def by linarith
  have reps: "run_bind (handle_repetitions name l x y (rule, p)) (\<lambda>(rule, p). Return (Some (l, pos, rule, p))) \<noteq> Abort \<and>
      (\<forall>l' pos' rule' p'. run_bind (handle_repetitions name l x y (rule, p)) (\<lambda>(rule, p). Return (Some (l, pos, rule, p))) = Return (Some (l', pos', rule', p')) \<longrightarrow>
        paid B (c # cs) p pos' p')" if "y < 0 \<or> y - x \<le> int B" "suffix pos cs" for x y pos
    using handle_repetitions_safe[OF s B that(1) len] paid_Cons[OF that(2)] by (auto simp: run_bind_Abort run_bind_Return)
  have sp: "suffix (parse_space cs nested) cs" by (rule parse_space_suffix)
  consider (lit) "c = 34" | (cls) "c = 91" | (word) "c \<noteq> 34" "c \<noteq> 91" "is_word_char c" | (any) "c = 46" | (brace) "c = 123" "\<not> is_word_char c"
    | (rep) "c \<notin> {34, 91, 46, 123}" "\<not> is_word_char c" by blast
  then show ?thesis
  proof cases
    case lit
    then show ?thesis
      by (auto simp: seq_item_def Let_def throw_opt_Return throw_opt_Abort intro!: paid_Cons space_suffix dest: literal_suffix)
  next
    case cls
    have "suffix x (if cs \<noteq> [] \<and> hd cs = 94 then tl cs else cs) \<Longrightarrow> suffix x cs" for x
      using suffix_order.trans[OF _ tl_suffix[OF suffix_order.refl]] by (cases "cs \<noteq> [] \<and> hd cs = 94") simp_all
    then show ?thesis using cls
      by (auto simp: seq_item_def Let_def throw_opt_Return throw_opt_Abort intro!: paid_Cons space_suffix dest!: char_class_suffix split: if_splits)
  next
    case word
    have "suffix pos cs" if "parse_name (c # cs) = Some (nm, pos)" for nm pos
      using that word(3) by (auto simp: parse_name_def suffix_dropWhile split: if_splits)
    moreover have "length (gp_symbol_ids p1) \<le> length (gp_symbol_ids p) + B" if "get_symbol_id nm p = (ref, p1)" for nm ref p1
      using get_symbol_id_length[OF that] B(1) by linarith
    ultimately have "paid B (c # cs) p (parse_space pos nested) p1" if "parse_name (c # cs) = Some (nm, pos)" "get_symbol_id nm p = (ref, p1)" for nm pos ref p1
      using that by (intro paid_Cons space_suffix)
    moreover have "seq_item name nested c cs l rule p = throw_opt (parse_name (c # cs)) (\<lambda>(nm, pos). case get_symbol_id nm p of (ref, p1) \<Rightarrow>
        Return (Some (length rule, parse_space pos nested, rule @ [gelem GRE_RULE_REF ref], p1)))" using word by (simp add: seq_item_def Let_def)
    ultimately show ?thesis
      by (cases "parse_name (c # cs)"; cases "get_symbol_id (fst (the (parse_name (c # cs)))) p") (auto simp: throw_opt_def)
  next
    case any
    have "\<not> is_word_char 46" by (simp add: is_word_char_def is_digit_char_def)
    then show ?thesis using any sp by (auto simp: seq_item_def Let_def intro!: paid_Cons)
  next
    case brace
    have "y < 0 \<or> y - x \<le> int B" "suffix pos cs" if "parse_bounds nested cs = Some (x, y, pos)" for x y pos
      using b brace(1) that parse_bounds_suffix[OF that] unfolding in_bounds_def reps_upto_def by blast+
    then have "\<forall>z. parse_bounds nested cs = Some z \<longrightarrow> (case z of (x, y, pos) \<Rightarrow>
        run_bind (handle_repetitions name l x y (rule, p)) (\<lambda>(rule, p). Return (Some (l, pos, rule, p))) \<noteq> Abort \<and>
      (\<forall>l' pos' rule' p'. run_bind (handle_repetitions name l x y (rule, p)) (\<lambda>(rule, p). Return (Some (l, pos, rule, p))) = Return (Some (l', pos', rule', p')) \<longrightarrow>
        paid B (c # cs) p pos' p'))" using reps by (auto split: prod.splits)
    moreover have "seq_item name nested c cs l rule p = throw_opt (parse_bounds nested cs) (\<lambda>(x, y, pos).
        run_bind (handle_repetitions name l x y (rule, p)) (\<lambda>(rule, p). Return (Some (l, pos, rule, p))))"
      using brace by (simp add: seq_item_def Let_def)
    ultimately show ?thesis by (auto simp: throw_opt_Abort throw_opt_Return split: prod.splits)
  next
    case rep
    have "c \<notin> {42, 43, 63} \<Longrightarrow> seq_item name nested c cs l rule p = Return None"
      using rep by (simp add: seq_item_def Let_def)
    then consider "c = 42" | "c = 43" | "c = 63" | "seq_item name nested c cs l rule p = Return None" by blast
    then show ?thesis
    proof cases
      case 1
      then show ?thesis using reps[OF _ sp, of "-1" 0] rep by (simp add: seq_item_def Let_def)
    next
      case 2
      then show ?thesis using reps[OF _ sp, of "-1" 1] rep by (simp add: seq_item_def Let_def)
    next
      case 3
      then show ?thesis using reps[OF _ sp, of 1 0] B(1) rep by (simp add: seq_item_def Let_def)
    qed simp
  qed
qed

subsection \<open>Sequences, alternates and rules\<close>

text \<open>What the parser of a group has to promise: it does not abort on a text in bounds, and pays for its symbols.\<close>

definition group_safe :: "nat \<Rightarrow> group_parser \<Rightarrow> bool" where
  "group_safe B g \<longleftrightarrow> (\<forall>i src p. i + 1 \<noteq> 0 \<longrightarrow> in_bounds B p src \<longrightarrow> g i src p \<noteq> Abort \<and>
     (\<forall>pos p'. g i src p = Return (pos, p') \<longrightarrow> paid B src p pos p'))"

lemma group_safeD:
  assumes "group_ok g" "group_safe B g" "i + 1 \<noteq> 0" "in_bounds B p src"
  shows "g i src p \<noteq> Abort" "g i src p = Return (pos, p') \<Longrightarrow> paid B src p pos p' \<and> in_bounds B p' pos \<and> extends p p'"
proof -
  show "g i src p \<noteq> Abort" using assms(2-4) unfolding group_safe_def by blast
  assume r: "g i src p = Return (pos, p')"
  then have paid: "paid B src p pos p'" using assms(2-4) unfolding group_safe_def by blast
  have "parser_ok p" using assms(4) by (simp add: in_bounds_def)
  then have "extends p p'" using group_okD[OF assms(1) _ r] by blast
  then show "paid B src p pos p' \<and> in_bounds B p' pos \<and> extends p p'" using in_bounds_paid[OF assms(4) paid] paid by (simp add: extends_def)
qed

lemma parse_sequence_safe:
  assumes g: "group_ok grp" "group_safe B grp" and B: "0 < B" "int B \<le> INT32_MAX"
  shows "seq_ok l rule p \<Longrightarrow> in_bounds B p src \<Longrightarrow> parse_sequence n grp name nested l src rule p \<noteq> Abort \<and>
    (\<forall>pos rule' p'. parse_sequence n grp name nested l src rule p = Return (pos, rule', p') \<longrightarrow> paid B src p pos p')"
proof (induction n arbitrary: l src rule p)
  case (Suc n)
  show ?case
  proof (cases src)
    case Nil
    then show ?thesis by (auto intro: paid_suffix)
  next
    case (Cons c cs)
    have ok: "parser_ok p" "open_ok (ids_of p) rule" using Suc.prems(1) by (simp_all add: seq_ok_def)
    show ?thesis
    proof (cases "c = 40")
      case True
      obtain sub p1 where gen: "generate_symbol_id name p = (sub, p1)" by (cases "generate_symbol_id name p")
      have e1: "extends p p1" "sub \<in> ids_of p1" using generate_symbol_id_ok[OF ok(1) gen] by auto
      let ?src = "parse_space cs True"
      have "length (gp_symbol_ids p1) \<le> length (gp_symbol_ids p) + B" using generate_symbol_id_length[OF gen] B(1) by linarith
      then have p1: "paid B src p ?src p1" unfolding Cons by (intro paid_Cons parse_space_suffix)
      have b1: "in_bounds B p1 ?src" using in_bounds_paid[OF Suc.prems(2) p1] e1(1) by (simp add: extends_def)
      have "sub + 1 \<noteq> 0" using id_Suc[OF _ e1(2) in_bounds_ids[OF b1]] e1(1) by (simp add: extends_def)
      note grp = group_safeD[OF g this b1]
      have rest: "parse_sequence n grp name nested (length rule) (parse_space (tl pos) nested) (rule @ [gelem GRE_RULE_REF sub]) p2 \<noteq> Abort \<and>
          (\<forall>pos' rule' p'. parse_sequence n grp name nested (length rule) (parse_space (tl pos) nested) (rule @ [gelem GRE_RULE_REF sub]) p2 = Return (pos', rule', p')
            \<longrightarrow> paid B src p pos' p')" if r: "grp sub ?src p1 = Return (pos, p2)" for pos p2
      proof -
        have e2: "paid B ?src p1 pos p2" "in_bounds B p2 pos" "extends p1 p2" using grp(2)[OF r] by auto
        have "open_ok (ids_of p2) [gelem GRE_RULE_REF sub]" using e1(2) e2(3) by (auto simp: open_ok_single extends_def)
        then have s: "seq_ok (length rule) (rule @ [gelem GRE_RULE_REF sub]) p2"
          using open_extends[OF open_extends[OF ok(2) e1(1)] e2(3)] e2(3) by (intro seq_ok_append) (auto simp: extends_def)
        have p3: "paid B pos p2 (parse_space (tl pos) nested) p2" by (intro paid_suffix space_suffix tl_suffix) simp_all
        have b3: "in_bounds B p2 (parse_space (tl pos) nested)" using in_bounds_paid[OF e2(2) p3] e2(3) by (simp add: extends_def)
        show ?thesis using Suc.IH[OF s b3] paid_trans[OF paid_trans[OF p1 e2(1)] p3] paid_trans by blast
      qed
      then show ?thesis using grp(1) Cons True gen by (auto simp: run_bind_Abort run_bind_Return split: if_splits)
    next
      case False
      note it = seq_item_safe[OF Suc.prems(1) B Suc.prems(2)[unfolded Cons], of name nested]
      have rest: "parse_sequence n grp name nested l1 pos1 rule1 p1 \<noteq> Abort \<and>
          (\<forall>pos rule' p'. parse_sequence n grp name nested l1 pos1 rule1 p1 = Return (pos, rule', p') \<longrightarrow> paid B src p pos p')"
        if r: "seq_item name nested c cs l rule p = Return (Some (l1, pos1, rule1, p1))" for l1 pos1 rule1 p1
      proof -
        have p1: "paid B src p pos1 p1" using it r Cons by blast
        have s: "seq_ok l1 rule1 p1" using seq_item_ok[OF Suc.prems(1) r] by blast
        then have "in_bounds B p1 pos1" using in_bounds_paid[OF Suc.prems(2) p1] by (simp add: seq_ok_def)
        then show ?thesis using Suc.IH[OF s] paid_trans[OF p1] by blast
      qed
      have "paid B src p src p" by (intro paid_suffix) simp_all
      then show ?thesis using it rest Cons False by (auto simp: run_bind_Abort run_bind_Return split: option.splits)
    qed
  qed
qed simp

lemma parse_sequence_bounds:
  assumes g: "group_ok grp" "group_safe B grp" and B: "0 < B" "int B \<le> INT32_MAX"
    and s: "seq_ok l rule p" "in_bounds B p src" and r: "parse_sequence n grp name nested l src rule p = Return (pos, rule', p')"
  shows "paid B src p pos p'" "in_bounds B p' pos" "extends p p'" "open_ok (ids_of p') rule'"
proof -
  show p: "paid B src p pos p'" using parse_sequence_safe[OF g B s] r by blast
  show "extends p p'" "open_ok (ids_of p') rule'" using parse_sequence_ok[OF g(1) s(1) r] by auto
  then show "in_bounds B p' pos" using in_bounds_paid[OF s(2) p] by (simp add: extends_def)
qed

lemma more_alternates_safe:
  assumes g: "group_ok grp" "group_safe B grp" and B: "0 < B" "int B \<le> INT32_MAX" and i: "i + 1 \<noteq> 0"
  shows "in_bounds B p pos0 \<Longrightarrow> open_ok (ids_of p) rule \<Longrightarrow> more_alternates n fuel grp name i nested pos0 rule p \<noteq> Abort \<and>
    (\<forall>pos p'. more_alternates n fuel grp name i nested pos0 rule p = Return (pos, p') \<longrightarrow> paid B pos0 p pos p')"
proof (induction n arbitrary: pos0 rule p)
  case (Suc n)
  show ?case
  proof (cases "pos0 \<noteq> [] \<and> hd pos0 = 124")
    case True
    let ?rule = "rule @ [gelem GRE_ALT 0]" and ?src = "parse_space (tl pos0) True"
    have p0: "paid B pos0 p ?src p" by (intro paid_suffix space_suffix tl_suffix) simp_all
    have pk: "parser_ok p" using Suc.prems(1) by (simp add: in_bounds_def)
    have b0: "in_bounds B p ?src" by (rule in_bounds_paid[OF Suc.prems(1) p0 pk])
    have "open_ok (ids_of p) ?rule" by (rule open_ok_append[OF Suc.prems(2)]) (simp add: open_ok_single)
    then have s: "seq_ok (length ?rule) ?rule p" using pk by (simp add: seq_ok_def)
    have "more_alternates n fuel grp name i nested pos1 rule1 p1 \<noteq> Abort \<and>
        (\<forall>pos p'. more_alternates n fuel grp name i nested pos1 rule1 p1 = Return (pos, p') \<longrightarrow> paid B pos0 p pos p')"
      if r: "parse_sequence fuel grp name nested (length ?rule) ?src ?rule p = Return (pos1, rule1, p1)" for pos1 rule1 p1
    proof -
      note q = parse_sequence_bounds[OF g B s b0 r]
      show ?thesis using Suc.IH[OF q(2,4)] paid_trans[OF paid_trans[OF p0 q(1)]] by blast
    qed
    then show ?thesis using parse_sequence_safe[OF g B s b0] True by (auto simp: run_bind_Abort run_bind_Return Let_def)
  next
    case False
    then show ?thesis using add_rule_Return[OF i, of "rule @ [gelem GRE_END 0]" p] by (auto intro: paid_suffix)
  qed
qed simp

lemma parse_alternates_safe:
  assumes B: "0 < B" "int B \<le> INT32_MAX"
  shows "group_safe B (parse_alternates d fuel name nested)"
proof (induction d arbitrary: nested)
  case (Suc d)
  let ?g = "parse_alternates d fuel name True"
  note g = parse_alternates_ok[of d fuel name True] Suc.IH[of True]
  show ?case unfolding group_safe_def
  proof (intro allI impI)
    fix i src p assume i: "i + 1 \<noteq> (0 :: 32 word)" and b: "in_bounds B p src"
    have s: "seq_ok 0 [] p" using b by (simp add: in_bounds_def seq_ok_def)
    have "more_alternates fuel fuel ?g name i nested pos1 rule1 p1 \<noteq> Abort \<and>
        (\<forall>pos p'. more_alternates fuel fuel ?g name i nested pos1 rule1 p1 = Return (pos, p') \<longrightarrow> paid B src p pos p')"
      if r: "parse_sequence fuel ?g name nested 0 src [] p = Return (pos1, rule1, p1)" for pos1 rule1 p1
    proof -
      note q = parse_sequence_bounds[OF g B s b r]
      show ?thesis using more_alternates_safe[OF g B i q(2,4)] paid_trans[OF q(1)] by blast
    qed
    then show "parse_alternates (Suc d) fuel name nested i src p \<noteq> Abort \<and>
        (\<forall>pos p'. parse_alternates (Suc d) fuel name nested i src p = Return (pos, p') \<longrightarrow> paid B src p pos p')"
      using parse_sequence_safe[OF g B s b] by (auto simp: run_bind_Abort run_bind_Return Let_def)
  qed
qed (simp add: group_safe_def)

lemma parse_rule_safe:
  assumes B: "0 < B" "int B \<le> INT32_MAX" and b: "in_bounds B p src"
  shows "parse_rule fuel src p \<noteq> Abort \<and> (\<forall>pos p'. parse_rule fuel src p = Return (pos, p') \<longrightarrow> in_bounds B p' pos)"
proof -
  have alt: "parse_alternates fuel fuel name False i (parse_space (drop 3 (parse_space pos1 False)) True) p1 \<noteq> Abort \<and>
      (\<forall>pos2 p'. parse_alternates fuel fuel name False i (parse_space (drop 3 (parse_space pos1 False)) True) p1 = Return (pos2, p') \<longrightarrow>
        (\<forall>pos3. rule_end pos2 = Some pos3 \<longrightarrow> in_bounds B p' (parse_space pos3 True)))"
    if n: "parse_name src = Some (name, pos1)" and g: "get_symbol_id name p = (i, p1)" for name pos1 i p1
  proof -
    let ?src = "parse_space (drop 3 (parse_space pos1 False)) True"
    have nm: "95 \<notin> set name" "length pos1 < length src" using parse_name_ok[OF n] by auto
    have p0: "parser_ok p" using b by (simp add: in_bounds_def)
    have e1: "parser_ok p1" "i \<in> ids_of p1" using get_symbol_id_ok[OF p0 nm(1) g] by (auto simp: extends_def)
    obtain c cs where src: "src = c # cs" using nm(2) by (cases src) auto
    have "suffix pos1 cs" using n src by (auto simp: parse_name_def suffix_dropWhile split: if_splits)
    then have "suffix ?src cs" using suffix_drop[of 3 "parse_space pos1 False"] space_suffix suffix_order.trans by blast
    moreover have "length (gp_symbol_ids p1) \<le> length (gp_symbol_ids p) + B" using get_symbol_id_length[OF g] B(1) by linarith
    ultimately have "paid B src p ?src p1" unfolding src by (rule paid_Cons)
    then have b1: "in_bounds B p1 ?src" by (rule in_bounds_paid[OF b _ e1(1)])
    note q = group_safeD[OF parse_alternates_ok parse_alternates_safe[OF B] id_Suc[OF e1 in_bounds_ids[OF b1]] b1, of fuel fuel name False]
    have "in_bounds B p' (parse_space pos3 True)"
      if r: "parse_alternates fuel fuel name False i ?src p1 = Return (pos2, p')" "rule_end pos2 = Some pos3" for pos2 p' pos3
    proof -
      have q2: "in_bounds B p' pos2" "parser_ok p'" using q(2)[OF r(1)] by (auto simp: in_bounds_def)
      have "paid B pos2 p' (parse_space pos3 True) p'" by (intro paid_suffix space_suffix rule_end_suffix[OF r(2)]) simp
      then show ?thesis using in_bounds_paid[OF q2(1) _ q2(2)] by blast
    qed
    then show ?thesis using q(1) by blast
  qed
  show ?thesis
  proof (cases "parse_name src")
    case (Some z)
    obtain name pos1 where z: "z = (name, pos1)" by (cases z)
    obtain i p1 where g: "get_symbol_id name p = (i, p1)" by (cases "get_symbol_id name p")
    show ?thesis using alt[OF Some[unfolded z] g] Some z g
      by (auto simp: parse_rule_def Let_def throw_opt_Abort throw_opt_Return run_bind_Abort run_bind_Return throw_opt_def[of "Some _"] split: if_splits)
  qed (simp add: parse_rule_def throw_opt_def)
qed

lemma parse_rules_safe:
  assumes B: "0 < B" "int B \<le> INT32_MAX"
  shows "in_bounds B p pos \<Longrightarrow> parse_rules n fuel pos p \<noteq> Abort"
proof (induction n arbitrary: pos p)
  case (Suc n)
  show ?case using parse_rule_safe[OF B Suc.prems, of fuel] Suc.IH by (auto simp: run_bind_Abort)
qed simp

text \<open>A text with repetitions of at most \<open>B\<close> turns, \<open>B\<close> times its length below 2 to the 32, is parsed without abort.\<close>

lemma parse_grammar_returns:
  assumes B: "0 < B" "int B \<le> INT32_MAX" and src: "reps_upto B (takeWhile (\<lambda>c. c \<noteq> 0) src)" "B * length src < 2 ^ 32"
  shows "\<exists>r. parse_grammar src = Return r"
proof -
  let ?src = "takeWhile (\<lambda>c. c \<noteq> 0) src" and ?p = "\<lparr>gp_symbol_ids = [], gp_rules = []\<rparr>"
  have "suffix (parse_space ?src True) ?src" by (rule parse_space_suffix)
  moreover from suffix_length_le[OF this] have "B * length (parse_space ?src True) \<le> B * length src"
    using length_takeWhile_le[of "\<lambda>c. c \<noteq> 0" src] by (intro mult_le_mono2) linarith
  then have "B * length (parse_space ?src True) < 2 ^ 32" using src(2) by (rule le_less_trans)
  ultimately have "in_bounds B ?p (parse_space ?src True)"
    using src reps_upto_suffix by (auto simp: in_bounds_def weight_def parser_ok_def keys_ok_def)
  from parse_rules_safe[OF B this, of "parse_fuel src" "parse_fuel src"] have "parse_grammar src \<noteq> Abort"
    by (auto simp: parse_grammar_def Let_def catch_throw_def run_bind_Abort split: run.splits if_splits)
  then show ?thesis using parse_grammar_total[of src] by (cases "parse_grammar src") auto
qed

end
