(* ===== verification/Grammar_Term.thy ===== *)
theory Grammar_Term
  imports Grammar_Lang
begin

text \<open>
  When \<open>advance_stack\<close> returns. The check for left recursion at initialisation looks at the rules that can start a rule, where a
  rule counts as possibly empty when it has an empty alternate. It is right for grammars in which every rule that derives the
  empty word has an empty alternate, and misses left recursion through other rules.
\<close>

subsection \<open>Fuel\<close>

lemma run_each_mono:
  assumes "run_each f xs s \<noteq> Fuel_Out" "\<And>x s. x \<in> set xs \<Longrightarrow> f x s \<noteq> Fuel_Out \<Longrightarrow> g x s = f x s"
  shows "run_each g xs s = run_each f xs s"
  using assms
proof (induction xs arbitrary: s)
  case (Cons x xs)
  have f: "f x s \<noteq> Fuel_Out" using Cons.prems(1) by auto
  show ?case
  proof (cases "f x s")
    case (Return s1)
    then have "run_each g xs s1 = run_each f xs s1" using Cons.prems by (intro Cons.IH) auto
    then show ?thesis using Cons.prems(2)[of x s] Return by simp
  qed (use f Cons.prems(2)[of x s] in auto)
qed simp

lemma advance_mono: "advance_stack n rules st ns \<noteq> Fuel_Out \<Longrightarrow> n \<le> m \<Longrightarrow> advance_stack m rules st ns = advance_stack n rules st ns"
proof (induction n arbitrary: m st ns)
  case (Suc n)
  obtain k where k: "m = Suc k" "n \<le> k" using Suc.prems(2) by (cases m) auto
  show ?case
  proof (cases st)
    case (Cons p st1)
    show ?thesis
    proof (cases "elem_at rules p")
      case (Some e)
      show ?thesis
      proof (cases "ge_type e = GRE_RULE_REF")
        case True
        let ?r = "unat (ge_value e)"
        show ?thesis
        proof (cases "\<exists>rule subs. vec_at rules ?r = Some rule \<and> alt_starts rule = Some subs")
          case True
          then obtain rule subs where r: "vec_at rules ?r = Some rule" "alt_starts rule = Some subs" by blast
          let ?f = "\<lambda>n sub new_stacks. opt_run (push_pos rules (next_pos p) st1) (\<lambda>s1. opt_run (push_pos rules (?r, sub) s1) (\<lambda>s2. advance_stack n rules s2 new_stacks))"
          have ad: "advance_stack (Suc i) rules st ns = run_each (?f i) subs ns" for i using Cons Some \<open>ge_type e = GRE_RULE_REF\<close> r by simp
          have "run_each (?f k) subs ns = run_each (?f n) subs ns"
          proof (rule run_each_mono)
            show "run_each (?f n) subs ns \<noteq> Fuel_Out" using Suc.prems(1) ad by simp
            fix sub s assume ne: "?f n sub s \<noteq> Fuel_Out"
            then show "?f k sub s = ?f n sub s"
              using Suc.IH[OF _ k(2)] by (cases "push_pos rules (next_pos p) st1"; cases "push_pos rules (?r, sub) (the (push_pos rules (next_pos p) st1))") auto
          qed
          then show ?thesis using ad k(1) by simp
        next
          case False
          then show ?thesis using Cons Some True k(1) by (cases "vec_at rules ?r"; cases "alt_starts (the (vec_at rules ?r))") auto
        qed
      qed (use Cons Some k(1) in simp)
    qed (use Cons k(1) in simp)
  qed (use k(1) in simp)
qed simp

definition adv_total :: "grammar_rules \<Rightarrow> grammar_stack \<Rightarrow> bool" where
  "adv_total rules st \<longleftrightarrow> (\<exists>n. \<forall>m \<ge> n. \<forall>ns. \<exists>ns'. advance_stack m rules st ns = Return ns')"

lemma adv_totalI: "(\<And>ns. \<exists>ns'. advance_stack n rules st ns = Return ns') \<Longrightarrow> adv_total rules st"
  unfolding adv_total_def using advance_mono[of n rules st] by (metis run.distinct(3))

lemma adv_total_char:
  assumes "elem_at rules p = Some e" "is_char e"
  shows "adv_total rules (p # st)"
  by (rule adv_totalI[of 1]) (use assms in \<open>auto simp: is_char_def\<close>)

lemma adv_total_empty: "adv_total rules []"
  by (rule adv_totalI[of 1]) auto

lemma run_each_total: "(\<And>x s. x \<in> set xs \<Longrightarrow> \<exists>s'. f x s = Return s') \<Longrightarrow> \<exists>s'. run_each f xs s = Return s'"
proof (induction xs arbitrary: s)
  case (Cons x xs)
  obtain s1 where "f x s = Return s1" using Cons.prems by (meson list.set_intros(1))
  then show ?case using Cons.IH[of s1] Cons.prems by auto
qed simp

lemma adv_total_all:
  assumes "finite A" "\<forall>x \<in> A. adv_total rules (g x)"
  shows "\<exists>n. \<forall>m \<ge> n. \<forall>x \<in> A. \<forall>ns. \<exists>ns'. advance_stack m rules (g x) ns = Return ns'"
  using assms
proof (induction A rule: finite_induct)
  case (insert a A)
  obtain n1 where n1: "\<forall>m \<ge> n1. \<forall>x \<in> A. \<forall>ns. \<exists>ns'. advance_stack m rules (g x) ns = Return ns'" using insert by auto
  obtain n2 where n2: "\<forall>m \<ge> n2. \<forall>ns. \<exists>ns'. advance_stack m rules (g a) ns = Return ns'" using insert.prems by (auto simp: adv_total_def)
  show ?case by (rule exI[of _ "max n1 n2"]) (use n1 n2 in auto)
qed simp

lemma adv_total_ref:
  assumes ok: "rules_ok rules" and e: "elem_at rules p = Some e" "ge_type e = GRE_RULE_REF" and st: "stack_ok rules st"
    and sub: "vec_at rules (unat (ge_value e)) = Some rule" "alt_starts rule = Some subs"
    and all: "\<forall>s \<in> set subs. adv_total rules (ref_stack rules p st (unat (ge_value e), s))"
  shows "adv_total rules (p # st)"
proof -
  obtain n where n: "\<forall>m \<ge> n. \<forall>s \<in> set subs. \<forall>ns. \<exists>ns'. advance_stack m rules (ref_stack rules p st (unat (ge_value e), s)) ns = Return ns'"
    using adv_total_all[OF _ all] by auto
  show ?thesis
    by (rule adv_totalI[of "Suc n"]) (unfold advance_ref[OF ok e st sub], rule run_each_total, use n in auto)
qed

subsection \<open>Rules that can start a rule\<close>

definition next_flag :: "(nat \<Rightarrow> bool) \<Rightarrow> grammar_element \<Rightarrow> bool \<Rightarrow> bool" where
  "next_flag emp e b = (if ge_type e = GRE_RULE_REF \<and> b then emp (unat (ge_value e)) else is_end_of_sequence e)"

fun lead_flag :: "(nat \<Rightarrow> bool) \<Rightarrow> grammar_rule \<Rightarrow> bool \<Rightarrow> nat \<Rightarrow> bool" where
  "lead_flag emp es b 0 = b"
| "lead_flag emp (e # es) b (Suc i) = lead_flag emp es (next_flag emp e b) i"
| "lead_flag emp [] b (Suc i) = False"

definition starts_with :: "(nat \<Rightarrow> bool) \<Rightarrow> grammar_rules \<Rightarrow> nat \<Rightarrow> nat \<Rightarrow> bool" where
  "starts_with emp rules r t \<longleftrightarrow> r < length rules \<and> (\<exists>i < length (rules ! r). lead_flag emp (rules ! r) True i \<and>
     ge_type (rules ! r ! i) = GRE_RULE_REF \<and> unat (ge_value (rules ! r ! i)) = t)"

text \<open>A sequence of references to rules that may be empty.\<close>

fun elems_empty :: "(nat \<Rightarrow> bool) \<Rightarrow> grammar_rule \<Rightarrow> bool" where
  "elems_empty emp [] = False"
| "elems_empty emp (e # es) = (is_end_of_sequence e \<or> ge_type e = GRE_RULE_REF \<and> emp (unat (ge_value e)) \<and> elems_empty emp es)"

definition emp_closed :: "(nat \<Rightarrow> bool) \<Rightarrow> grammar_rules \<Rightarrow> bool" where
  "emp_closed emp rules \<longleftrightarrow> (\<forall>r < length rules. \<forall>s \<in> set (the (alt_starts (rules ! r))). elems_empty emp (drop s (rules ! r)) \<longrightarrow> emp r)"

lemma lead_flag_Suc: "i < length es \<Longrightarrow> lead_flag emp es b (Suc i) = next_flag emp (es ! i) (lead_flag emp es b i)"
proof (induction es arbitrary: b i)
  case (Cons e es)
  then show ?case by (cases i) auto
qed simp

lemma lead_flag_start:
  assumes "rules_ok rules" "r < length rules" "alt_starts (rules ! r) = Some subs" "s \<in> set subs"
  shows "lead_flag emp (rules ! r) True s" "s < length (rules ! r)"
proof -
  note d = rules_okD[OF assms(1,2)]
  obtain subs' where subs': "alt_next 0 (rules ! r) = Some subs'"
      "\<forall>s \<in> set subs'. 0 < s \<and> s < length (rules ! r) \<and> ge_type (rules ! r ! (s - 1)) = GRE_ALT"
    using alt_next_ok[of "rules ! r" 0 "rules ! r"] d(1,3) by auto
  then have s: "s = 0 \<or> 0 < s \<and> s < length (rules ! r) \<and> ge_type (rules ! r ! (s - 1)) = GRE_ALT" using assms(3,4) by (auto simp: alt_starts_def)
  then show "s < length (rules ! r)" using d(1) by auto
  show "lead_flag emp (rules ! r) True s"
  proof (cases s)
    case (Suc i)
    then show ?thesis using s by (auto simp: lead_flag_Suc next_flag_def is_end_of_sequence_def)
  qed simp
qed

lemma push_top:
  assumes "push_pos rules p st = Some st'" "elem_at rules p = Some e"
  shows "st' = (if is_end_of_sequence e then st else p # st)"
  using assms by (simp add: push_pos_def)

lemma pos_cases:
  assumes "elem_at rules p = Some e" "\<not> inner e"
  obtains "is_end_of_sequence e" | "is_char e" "\<not> is_end_of_sequence e" | "ge_type e = GRE_RULE_REF" "\<not> is_end_of_sequence e"
  using assms that by (cases "ge_type e") (auto simp: inner_def is_end_of_sequence_def is_char_def)

text \<open>What is pushed for an alternate of a rule advances, if what is below does or cannot be reached by an empty alternate.\<close>

lemma alternates_total:
  assumes ok: "rules_ok rules" and cl: "emp_closed emp rules" and acc: "Wellfounded.accp (\<lambda>t r. starts_with emp rules r t) r" and r: "r < length rules"
    and st: "stack_ok rules st" "emp r \<longrightarrow> adv_total rules st" and s: "s \<in> set (the (alt_starts (rules ! r)))" and st': "push_pos rules (r, s) st = Some st'"
  shows "adv_total rules st'"
  using acc r st s st'
proof (induction r arbitrary: s st st' rule: accp.induct)
  case (accI r)
  obtain subs where subs: "alt_starts (rules ! r) = Some subs" using alt_starts_ok[OF ok accI.prems(1)] by blast
  have inner: "adv_total rules st'" if "lead_flag emp (rules ! r) True i" "pos_ok rules (r, i)" "stack_ok rules st"
      "elems_empty emp (drop i (rules ! r)) \<longrightarrow> adv_total rules st" "push_pos rules (r, i) st = Some st'" for i st st'
    using that
  proof (induction "length (rules ! r) - i" arbitrary: i st st' rule: less_induct)
    case less
    obtain e where e: "elem_at rules (r, i) = Some e" "\<not> inner e" using less.prems(2) by (auto simp: pos_ok_def)
    have i: "i < length (rules ! r)" "e = rules ! r ! i" using e(1) by (auto simp: elem_at_Some)
    have d: "drop i (rules ! r) = e # drop (Suc i) (rules ! r)" using i by (metis Cons_nth_drop_Suc)
    show ?case
    proof (rule pos_cases[OF e])
      assume end_e: "is_end_of_sequence e"
      then show ?thesis using less.prems(4,5) push_top[OF less.prems(5) e(1)] d by simp
    next
      assume "is_char e" "\<not> is_end_of_sequence e"
      then show ?thesis using adv_total_char[OF e(1)] push_top[OF less.prems(5) e(1)] by simp
    next
      assume ref: "ge_type e = GRE_RULE_REF" "\<not> is_end_of_sequence e"
      let ?t = "unat (ge_value e)"
      obtain rule subs st1 where rs: "vec_at rules ?t = Some rule" "alt_starts rule = Some subs" "push_pos rules (next_pos (r, i)) st = Some st1"
          "stack_ok rules st1" "\<forall>s \<in> set subs. push_pos rules (?t, s) st1 = Some (ref_stack rules (r, i) st (?t, s)) \<and> stack_ok rules (ref_stack rules (r, i) st (?t, s))"
        using ref_stack_ok[OF ok e(1) ref(1) less.prems(3)] by metis
      have t: "?t < length rules" "rule = rules ! ?t" using rs(1) by (auto simp: vec_at_Some_iff)
      have edge: "starts_with emp rules r ?t" using accI.prems(1) i less.prems(1) ref(1) by (auto simp: starts_with_def)
      have "adv_total rules st1" if "emp ?t"
      proof (rule less.hyps)
        show "length (rules ! r) - Suc i < length (rules ! r) - i" using i by simp
        show "lead_flag emp (rules ! r) True (Suc i)" using that ref(1) less.prems(1) i by (simp add: lead_flag_Suc next_flag_def)
        show "pos_ok rules (r, Suc i)" using ref_next_ok[OF ok e(1)] ref(1) by (simp add: next_pos_def)
        show "elems_empty emp (drop (Suc i) (rules ! r)) \<longrightarrow> adv_total rules st" using less.prems(4) d that ref(1) by simp
        show "push_pos rules (r, Suc i) st = Some st1" using rs(3) by (simp add: next_pos_def)
      qed (rule less.prems(3))
      then have "\<forall>s \<in> set subs. adv_total rules (ref_stack rules (r, i) st (?t, s))"
        using accI.IH[OF edge t(1) rs(4)] rs(2,5) t(2) by auto
      then have "adv_total rules ((r, i) # st)" by (rule adv_total_ref[OF ok e(1) ref(1) less.prems(3) rs(1,2)])
      then show ?thesis using push_top[OF less.prems(5) e(1)] ref(2) by simp
    qed
  qed
  have s: "s \<in> set subs" using accI.prems(4) subs by simp
  have "elems_empty emp (drop s (rules ! r)) \<longrightarrow> adv_total rules st" using cl accI.prems(1,3,4) by (auto simp: emp_closed_def)
  moreover have "pos_ok rules (r, s)" using alt_starts_ok[OF ok accI.prems(1)] subs s by auto
  ultimately show ?case using inner lead_flag_start(1)[OF ok accI.prems(1) subs s] accI.prems(2,5) by blast
qed

lemma all_stacks_total:
  assumes ok: "rules_ok rules" and cl: "emp_closed emp rules" and acc: "\<forall>r < length rules. Wellfounded.accp (\<lambda>t r. starts_with emp rules r t) r"
  shows "stack_ok rules st \<Longrightarrow> adv_total rules st"
proof (induction st)
  case (Cons p st)
  have "adv_total rules st'" if "pos_ok rules (r, i)" "stack_ok rules st" "adv_total rules st" "push_pos rules (r, i) st = Some st'" for r i st'
    using that
  proof (induction "length (rules ! r) - i" arbitrary: i st' rule: less_induct)
    case less
    obtain e where e: "elem_at rules (r, i) = Some e" "\<not> inner e" using less.prems(1) by (auto simp: pos_ok_def)
    show ?case
    proof (rule pos_cases[OF e])
      assume "is_end_of_sequence e"
      then show ?thesis using less.prems(3) push_top[OF less.prems(4) e(1)] by simp
    next
      assume "is_char e" "\<not> is_end_of_sequence e"
      then show ?thesis using adv_total_char[OF e(1)] push_top[OF less.prems(4) e(1)] by simp
    next
      assume ref: "ge_type e = GRE_RULE_REF" "\<not> is_end_of_sequence e"
      let ?t = "unat (ge_value e)"
      obtain rule subs st1 where rs: "vec_at rules ?t = Some rule" "alt_starts rule = Some subs" "push_pos rules (next_pos (r, i)) st = Some st1"
          "stack_ok rules st1" "\<forall>s \<in> set subs. push_pos rules (?t, s) st1 = Some (ref_stack rules (r, i) st (?t, s)) \<and> stack_ok rules (ref_stack rules (r, i) st (?t, s))"
        using ref_stack_ok[OF ok e(1) ref(1) less.prems(2)] by metis
      have t: "?t < length rules" "rule = rules ! ?t" using rs(1) by (auto simp: vec_at_Some_iff)
      have "pos_ok rules (r, Suc i)" using ref_next_ok[OF ok e(1)] ref(1) by (simp add: next_pos_def)
      moreover have "length (rules ! r) - Suc i < length (rules ! r) - i" using e(1) by (auto simp: elem_at_Some)
      ultimately have st1: "emp ?t \<longrightarrow> adv_total rules st1" using less.hyps[of "Suc i" st1] less.prems(2,3) rs(3) by (simp add: next_pos_def)
      have "adv_total rules (ref_stack rules (r, i) st (?t, s))" if "s \<in> set subs" for s
        by (rule alternates_total[OF ok cl _ t(1) rs(4) st1, of s]) (use acc t rs(2,5) that in auto)
      then have "\<forall>s \<in> set subs. adv_total rules (ref_stack rules (r, i) st (?t, s))" by blast
      then have "adv_total rules ((r, i) # st)" by (rule adv_total_ref[OF ok e(1) ref(1) less.prems(2) rs(1,2)])
      then show ?thesis using push_top[OF less.prems(4) e(1)] ref(2) by simp
    qed
  qed
  moreover have "push_pos rules p st = Some (p # st)" "pos_ok rules p" using Cons.prems by (auto simp: push_pos_def top_ok_def pos_ok_def)
  ultimately show ?case using Cons by (cases p) auto
qed (rule adv_total_empty)

subsection \<open>The check for left recursion\<close>

text \<open>The rules the check regards as possibly empty.\<close>

definition direct_empty :: "grammar_rules \<Rightarrow> nat \<Rightarrow> bool" where
  "direct_empty rules r \<longleftrightarrow> r < length rules \<and> has_empty_alt True (rules ! r)"

abbreviation starts :: "grammar_rules \<Rightarrow> nat \<Rightarrow> nat \<Rightarrow> bool" where
  "starts rules \<equiv> (\<lambda>t r. starts_with (direct_empty rules) rules r t)"

definition lr_ok :: "grammar_rules \<Rightarrow> lr_state \<Rightarrow> bool" where
  "lr_ok rules s \<longleftrightarrow> length (lr_visited s) = length rules \<and> length (lr_in_progress s) = length rules \<and> length (lr_may_be_empty s) = length rules \<and>
     (\<forall>r < length rules. lr_visited s ! r \<longrightarrow> Wellfounded.accp (starts rules) r)"

definition n_idle :: "lr_state \<Rightarrow> nat" where
  "n_idle s = length (filter Not (lr_in_progress s))"

text \<open>What a call of the check promises: it returns, keeps the state well formed and, if it finds nothing, leaves nothing in progress.\<close>

definition lr_step :: "grammar_rules \<Rightarrow> lr_state \<Rightarrow> (bool \<times> lr_state) run \<Rightarrow> bool" where
  "lr_step rules s x \<longleftrightarrow> (\<exists>found s'. x = Return (found, s') \<and> lr_ok rules s' \<and> (\<forall>r < length rules. lr_may_be_empty s ! r \<longrightarrow> lr_may_be_empty s' ! r) \<and>
     (\<not> found \<longrightarrow> lr_in_progress s' = lr_in_progress s))"

lemma lr_stepE:
  assumes "lr_step rules s x"
  obtains found s' where "x = Return (found, s')" "lr_ok rules s'" "\<forall>r < length rules. lr_may_be_empty s ! r \<longrightarrow> lr_may_be_empty s' ! r"
    "\<not> found \<longrightarrow> lr_in_progress s' = lr_in_progress s"
  using assms unfolding lr_step_def by blast

lemma detect_elems_step:
  assumes det: "\<And>t u. t < length rules \<Longrightarrow> lr_ok rules u \<Longrightarrow> lr_in_progress u = P \<Longrightarrow> lr_step rules u (detect t u)"
    and es: "\<forall>e \<in> set es. ge_type e = GRE_RULE_REF \<longrightarrow> unat (ge_value e) < length rules"
  shows "lr_ok rules s \<Longrightarrow> lr_in_progress s = P \<Longrightarrow> lr_step rules s (detect_elems detect es b s)"
  using es
proof (induction es arbitrary: b s)
  case Nil
  then show ?case unfolding lr_step_def by (intro exI[of _ False] exI[of _ s]) simp
next
  case (Cons e es)
  show ?case
  proof (cases "ge_type e = GRE_RULE_REF \<and> b")
    case True
    let ?t = "unat (ge_value e)"
    have t: "?t < length rules" using Cons.prems(3) True by simp
    obtain found s1 where s1: "detect ?t s = Return (found, s1)" "lr_ok rules s1" "\<forall>r < length rules. lr_may_be_empty s ! r \<longrightarrow> lr_may_be_empty s1 ! r"
        "\<not> found \<longrightarrow> lr_in_progress s1 = lr_in_progress s" using lr_stepE[OF det[OF t Cons.prems(1,2)]] .
    show ?thesis
    proof (cases found)
      case True
      then show ?thesis using s1 \<open>ge_type e = GRE_RULE_REF \<and> b\<close> unfolding lr_step_def by (intro exI[of _ True] exI[of _ s1]) simp
    next
      case False
      have len: "?t < length (lr_may_be_empty s1)" using s1(2) t by (simp add: lr_ok_def)
      have "lr_step rules s1 (detect_elems detect es (b \<and> lr_may_be_empty s1 ! ?t) s1)" using Cons.IH[OF s1(2)] s1(4) False Cons.prems(2,3) by simp
      then show ?thesis using s1 False True len by (fastforce simp: lr_step_def)
    qed
  next
    case False
    then show ?thesis using Cons.IH[OF Cons.prems(1,2), of "is_end_of_sequence e"] Cons.prems(3) by auto
  qed
qed

text \<open>Every rule that can start the rule is checked.\<close>

lemma detect_elems_calls:
  assumes det: "\<And>t u u'. t < length rules \<Longrightarrow> lr_ok rules u \<Longrightarrow> lr_in_progress u = P \<Longrightarrow> detect t u = Return (False, u') \<Longrightarrow>
      lr_ok rules u' \<and> lr_in_progress u' = P \<and> (emp t \<longrightarrow> lr_may_be_empty u' ! t) \<and> good t"
    and es: "\<forall>e \<in> set es. ge_type e = GRE_RULE_REF \<longrightarrow> unat (ge_value e) < length rules"
  shows "detect_elems detect es b' s = Return (False, s') \<Longrightarrow> lr_ok rules s \<Longrightarrow> lr_in_progress s = P \<Longrightarrow> b \<longrightarrow> b' \<Longrightarrow> i < length es \<Longrightarrow>
    lead_flag emp es b i \<Longrightarrow> ge_type (es ! i) = GRE_RULE_REF \<Longrightarrow> good (unat (ge_value (es ! i)))"
  using es
proof (induction es arbitrary: b b' s i)
  case (Cons e es)
  let ?t = "unat (ge_value e)"
  show ?case
  proof (cases "ge_type e = GRE_RULE_REF \<and> b'")
    case True
    have t: "?t < length rules" using Cons.prems(8) True by simp
    obtain u m where u: "detect ?t s = Return (False, u)" "vec_at (lr_may_be_empty u) ?t = Some m" "detect_elems detect es (b' \<and> m) u = Return (False, s')"
      using Cons.prems(1) True by (auto simp: run_bind_Return opt_run_Return split: if_splits)
    note d = det[OF t Cons.prems(2,3) u(1)]
    have flag: "next_flag emp e b \<longrightarrow> b' \<and> m" using d u(2) True by (auto simp: next_flag_def is_end_of_sequence_def vec_at_Some_iff)
    show ?thesis
    proof (cases i)
      case (Suc j)
      then show ?thesis using Cons.IH[OF u(3) _ _ flag, of j] d Cons.prems(5-8) by simp
    qed (use d in simp)
  next
    case False
    then have r: "detect_elems detect es (is_end_of_sequence e) s = Return (False, s')" "next_flag emp e b \<longrightarrow> is_end_of_sequence e"
      using Cons.prems(1,4) by (auto simp: next_flag_def)
    obtain j where "i = Suc j" using False Cons.prems(4,6,7) by (cases i) auto
    then show ?thesis using Cons.IH[OF r(1) Cons.prems(2,3) r(2), of j] Cons.prems(5-8) by simp
  qed
qed simp

lemma idle_less: "i < length P \<Longrightarrow> \<not> P ! i \<Longrightarrow> length (filter Not (P[i := True])) < length (filter Not P)"
proof (induction P arbitrary: i)
  case (Cons b P)
  then show ?case by (cases i) auto
qed simp

definition lr_enter :: "grammar_rules \<Rightarrow> nat \<Rightarrow> lr_state \<Rightarrow> lr_state" where
  "lr_enter rules i s = s\<lparr>lr_in_progress := (lr_in_progress s)[i := True],
     lr_may_be_empty := if has_empty_alt True (rules ! i) then (lr_may_be_empty s)[i := True] else lr_may_be_empty s\<rparr>"

definition lr_leave :: "nat \<Rightarrow> lr_state \<Rightarrow> lr_state" where
  "lr_leave i s = s\<lparr>lr_in_progress := (lr_in_progress s)[i := False], lr_visited := (lr_visited s)[i := True]\<rparr>"

lemma detect_Suc:
  assumes "i < length rules" "length (lr_in_progress s) = length rules"
  shows "detect_left_recursion (Suc n) rules i s = (if lr_in_progress s ! i then Return (True, s)
    else run_bind (detect_elems (detect_left_recursion n rules) (rules ! i) True (lr_enter rules i s)) (\<lambda>(found, s).
      if found then Return (True, s) else Return (False, lr_leave i s)))"
  unfolding lr_enter_def lr_leave_def using assms by (simp add: Let_def)

text \<open>A rule passes the check only if every rule that can start it does; since each pass costs fuel, there is no infinite descent.\<close>

lemma detect_ok:
  assumes ok: "rules_ok rules"
  shows "i < length rules \<Longrightarrow> lr_ok rules s \<Longrightarrow> n_idle s < n \<Longrightarrow> lr_step rules s (detect_left_recursion n rules i s) \<and>
    (\<forall>s'. detect_left_recursion n rules i s = Return (False, s') \<longrightarrow> Wellfounded.accp (starts rules) i \<and> (direct_empty rules i \<longrightarrow> lr_may_be_empty s' ! i))"
proof (induction n arbitrary: i s)
  case (Suc n)
  have len: "length (lr_in_progress s) = length rules" "length (lr_may_be_empty s) = length rules" using Suc.prems(2) by (simp_all add: lr_ok_def)
  note unf = detect_Suc[OF Suc.prems(1) len(1)]
  show ?case
  proof (cases "lr_in_progress s ! i")
    case True
    then have "detect_left_recursion (Suc n) rules i s = Return (True, s)" using unf by simp
    then show ?thesis using Suc.prems(2) by (auto simp: lr_step_def)
  next
    case idle: False
    let ?s1 = "lr_enter rules i s" and ?det = "detect_left_recursion n rules"
    have ok1: "lr_ok rules ?s1" using Suc.prems(2) by (simp add: lr_ok_def lr_enter_def)
    have P1: "lr_in_progress ?s1 = (lr_in_progress s)[i := True]" by (simp add: lr_enter_def)
    have idle1: "n_idle u < n" if "lr_in_progress u = (lr_in_progress s)[i := True]" for u
      using idle_less[of i "lr_in_progress s"] idle len Suc.prems(1,3) that by (simp add: n_idle_def)
    have refs: "\<forall>e \<in> set (rules ! i). ge_type e = GRE_RULE_REF \<longrightarrow> unat (ge_value e) < length rules" using rules_okD(6)[OF ok Suc.prems(1)] by blast
    have "lr_step rules ?s1 (detect_elems ?det (rules ! i) True ?s1)"
      by (rule detect_elems_step[where P = "(lr_in_progress s)[i := True]"]) (use Suc.IH idle1 refs ok1 P1 in auto)
    then obtain found s2 where s2: "detect_elems ?det (rules ! i) True ?s1 = Return (found, s2)" "lr_ok rules s2"
        "\<forall>r < length rules. lr_may_be_empty ?s1 ! r \<longrightarrow> lr_may_be_empty s2 ! r" "\<not> found \<longrightarrow> lr_in_progress s2 = lr_in_progress ?s1"
      by (rule lr_stepE)
    have mono: "\<forall>r < length rules. lr_may_be_empty s ! r \<longrightarrow> lr_may_be_empty s2 ! r"
      using s2(3) len Suc.prems(1) by (auto simp: lr_enter_def nth_list_update)
    show ?thesis
    proof (cases found)
      case True
      then have "detect_left_recursion (Suc n) rules i s = Return (True, s2)" using unf idle s2(1) by simp
      then show ?thesis using s2(2) mono by (auto simp: lr_step_def)
    next
      case False
      then have res: "detect_left_recursion (Suc n) rules i s = Return (False, lr_leave i s2)" using unf idle s2(1) by simp
      have call: "lr_ok rules u' \<and> lr_in_progress u' = (lr_in_progress s)[i := True] \<and> (direct_empty rules t \<longrightarrow> lr_may_be_empty u' ! t) \<and> Wellfounded.accp (starts rules) t"
        if u: "t < length rules" "lr_ok rules u" "lr_in_progress u = (lr_in_progress s)[i := True]" "?det t u = Return (False, u')" for t u u'
        using Suc.IH[OF u(1,2) idle1[OF u(3)]] u(3,4) by (auto simp: lr_step_def)
      have acc: "Wellfounded.accp (starts rules) i"
      proof (rule accp.accI)
        fix t assume "starts rules t i"
        then obtain j where j: "j < length (rules ! i)" "lead_flag (direct_empty rules) (rules ! i) True j" "ge_type (rules ! i ! j) = GRE_RULE_REF"
            "unat (ge_value (rules ! i ! j)) = t" by (auto simp: starts_with_def)
        have "detect_elems ?det (rules ! i) True ?s1 = Return (False, s2)" using s2(1) False by simp
        from detect_elems_calls[where detect = ?det and P = "(lr_in_progress s)[i := True]" and emp = "direct_empty rules" and
            good = "Wellfounded.accp (starts rules)", OF call refs this ok1 P1 _ j(1-3)] j(4)
        show "Wellfounded.accp (starts rules) t" by simp
      qed
      have P2: "(lr_in_progress s2)[i := False] = lr_in_progress s"
        using s2(4) False P1 idle by (metis list_update_id list_update_overwrite)
      have "Wellfounded.accp (starts rules) r" if "r < length rules" "(lr_visited s2)[i := True] ! r" for r
        using that s2(2) acc by (cases "r = i") (auto simp: lr_ok_def)
      then have "lr_ok rules (lr_leave i s2)" using s2(2) by (simp add: lr_ok_def lr_leave_def)
      moreover have "direct_empty rules i \<longrightarrow> lr_may_be_empty s2 ! i" using s2(3) Suc.prems(1) len by (auto simp: direct_empty_def lr_enter_def)
      ultimately show ?thesis using res acc mono P2 by (auto simp: lr_step_def lr_leave_def)
    qed
  qed
qed simp

lemma lr_rules_ok:
  assumes ok: "rules_ok rules"
  shows "lr_ok rules s \<Longrightarrow> n_idle s < fuel \<Longrightarrow> \<forall>i \<in> set ks. i < length rules \<Longrightarrow>
    \<exists>found s'. lr_rules fuel rules ks s = Return (found, s') \<and> (\<not> found \<longrightarrow> (\<forall>i \<in> set ks. Wellfounded.accp (starts rules) i))"
proof (induction ks arbitrary: s)
  case (Cons k ks)
  have k: "k < length rules" "vec_at (lr_visited s) k = Some (lr_visited s ! k)" using Cons.prems by (auto simp: lr_ok_def)
  show ?case
  proof (cases "lr_visited s ! k")
    case True
    then have "Wellfounded.accp (starts rules) k" using Cons.prems(1) k(1) by (simp add: lr_ok_def)
    then show ?thesis using Cons.IH[OF Cons.prems(1,2)] Cons.prems(3) k True by auto
  next
    case False
    note d = detect_ok[OF ok k(1) Cons.prems(1,2)]
    obtain found s1 where s1: "detect_left_recursion fuel rules k s = Return (found, s1)" "lr_ok rules s1" "\<not> found \<longrightarrow> lr_in_progress s1 = lr_in_progress s"
      using lr_stepE[OF conjunct1[OF d]] by metis
    show ?thesis
    proof (cases found)
      case True
      then show ?thesis using s1(1) k False by auto
    next
      case nf: False
      then have "n_idle s1 < fuel" "Wellfounded.accp (starts rules) k" using s1 Cons.prems(2) d by (simp_all add: n_idle_def)
      then show ?thesis using Cons.IH[OF s1(2)] Cons.prems(3) s1(1) k False nf by auto
    qed
  qed
qed (auto intro: exI[of _ False])

lemma lr_init_ok: "lr_ok rules (lr_init (length rules))" "n_idle (lr_init (length rules)) = length rules"
  by (simp_all add: lr_ok_def lr_init_def n_idle_def)

lemma left_recursive_ok:
  assumes "rules_ok rules"
  shows "\<exists>found. left_recursive rules = Return found \<and> (\<not> found \<longrightarrow> (\<forall>r < length rules. Wellfounded.accp (starts rules) r))"
  using lr_rules_ok[OF assms lr_init_ok(1), of "Suc (length rules)" "[0..<length rules]"] lr_init_ok(2)[of rules]
  by (auto simp: left_recursive_def)

text \<open>Every rule that is made of references to rules with an empty alternate has an empty alternate itself.\<close>

definition plain_empty :: "grammar_rules \<Rightarrow> bool" where
  "plain_empty rules \<longleftrightarrow> emp_closed (direct_empty rules) rules"

lemma checked_total:
  assumes "rules_ok rules" "plain_empty rules" "left_recursive rules = Return False" "stack_ok rules st"
  shows "adv_total rules st"
  using all_stacks_total[OF assms(1) _ _ assms(4), of "direct_empty rules"] left_recursive_ok[OF assms(1)] assms(2,3) by (auto simp: plain_empty_def)

subsection \<open>Freedom from left recursion\<close>

lemma elems_empty_mono [mono]: "(\<And>r. A r \<longrightarrow> B r) \<Longrightarrow> elems_empty A es \<longrightarrow> elems_empty B es"
  by (induction es) auto

lemma lead_flag_mono: "(\<And>r. A r \<Longrightarrow> B r) \<Longrightarrow> b \<longrightarrow> c \<Longrightarrow> lead_flag A es b i \<Longrightarrow> lead_flag B es c i"
proof (induction es arbitrary: b c i)
  case (Cons e es)
  show ?case
  proof (cases i)
    case (Suc j)
    have "next_flag A e b \<longrightarrow> next_flag B e c" using Cons.prems(1,2) by (auto simp: next_flag_def is_end_of_sequence_def)
    then show ?thesis using Cons.IH[OF Cons.prems(1)] Cons.prems(3) Suc by simp
  qed (use Cons.prems in simp)
next
  case Nil
  then show ?case by (cases i) auto
qed

text \<open>
  The rules that derive the empty word, and the grammars in which no rule can start with itself: neither directly nor
  behind rules that derive the empty word, through any chain of rules.
\<close>

inductive nullable :: "grammar_rules \<Rightarrow> nat \<Rightarrow> bool" for rules where
  alternate: "r < length rules \<Longrightarrow> s \<in> set (the (alt_starts (rules ! r))) \<Longrightarrow> elems_empty (nullable rules) (drop s (rules ! r)) \<Longrightarrow>
    nullable rules r"

definition left_rec_free :: "grammar_rules \<Rightarrow> bool" where
  "left_rec_free rules \<longleftrightarrow> acyclic {(t, r). starts_with (nullable rules) rules r t}"

lemma nullable_closed: "emp_closed (nullable rules) rules"
  unfolding emp_closed_def by (blast intro: nullable.alternate)

lemma nullable_least: "nullable rules r \<Longrightarrow> emp_closed E rules \<Longrightarrow> E r"
proof (induction rule: nullable.induct)
  case (alternate r s)
  have "elems_empty E (drop s (rules ! r))"
    using alternate.IH alternate.prems elems_empty_mono[of "\<lambda>r. nullable rules r \<and> (emp_closed E rules \<longrightarrow> E r)" E] by blast
  then show ?case using alternate.hyps(1,2) alternate.prems unfolding emp_closed_def by blast
qed

lemma left_rec_freeI:
  assumes "emp_closed E rules" "\<forall>r < length rules. Wellfounded.accp (\<lambda>t r. starts_with E rules r t) r"
  shows "left_rec_free rules"
proof -
  have "Wellfounded.accp (\<lambda>t r. starts_with E rules r t) r" for r
    using assms(2) by (cases "r < length rules") (auto simp: starts_with_def intro: accp.accI)
  then have "wf {(t, r). starts_with E rules r t}"
    unfolding wfp_def[symmetric] by (simp add: wfp_iff_accp)
  then have "acyclic {(t, r). starts_with E rules r t}" by (rule wf_acyclic)
  moreover have "{(t, r). starts_with (nullable rules) rules r t} \<subseteq> {(t, r). starts_with E rules r t}"
    using lead_flag_mono[of "nullable rules" E True True] nullable_least[OF _ assms(1)] unfolding starts_with_def by blast
  ultimately show ?thesis unfolding left_rec_free_def by (rule acyclic_subset)
qed

text \<open>A grammar without left recursion advances every stack; a grammar that passes the check, with plain empty rules, has none.\<close>

lemma left_rec_free_total:
  assumes "rules_ok rules" "left_rec_free rules" "stack_ok rules st"
  shows "adv_total rules st"
proof -
  let ?R = "{(t, r). starts_with (nullable rules) rules r t}"
  have "?R \<subseteq> (\<Union>r < length rules. (\<lambda>i. (unat (ge_value (rules ! r ! i)), r)) ` {..<length (rules ! r)})"
    by (auto simp: starts_with_def)
  then have "finite ?R" by (rule finite_subset) simp
  then have "wf ?R" using assms(2) by (simp add: finite_acyclic_wf left_rec_free_def)
  then have "Wellfounded.accp (\<lambda>t r. starts_with (nullable rules) rules r t) r" for r
    unfolding wfp_def[symmetric] by (simp add: wfp_iff_accp)
  then show ?thesis using all_stacks_total[OF assms(1) nullable_closed _ assms(3)] by blast
qed

lemma checked_left_rec_free:
  assumes "rules_ok rules" "plain_empty rules" "left_recursive rules = Return False"
  shows "left_rec_free rules"
  using left_rec_freeI[of "direct_empty rules"] left_recursive_ok[OF assms(1)] assms(2,3) by (auto simp: plain_empty_def)

end
