(* ===== verification/Grammar_Match.thy ===== *)
theory Grammar_Match
  imports Grammar_Term
begin

text \<open>
  The grammar engine end to end: initialisation and the characters accepted so far decide membership in the language of the
  grammar, and the mask of \<^verbatim>\<open>llama_grammar_apply_impl\<close> agrees with \<^verbatim>\<open>llama_grammar_accept_impl\<close>.
\<close>

subsection \<open>Enough fuel\<close>

text \<open>A computation that returns the same result for all large amounts of fuel.\<close>

definition settles :: "(nat \<Rightarrow> 'a run) \<Rightarrow> bool" where
  "settles f \<longleftrightarrow> (\<exists>n x. \<forall>m \<ge> n. f m = Return x)"

lemma settlesE:
  assumes "settles f"
  obtains n x where "\<forall>m \<ge> n. f m = Return x"
  using assms unfolding settles_def by blast

lemma settles_Return [simp]: "settles (\<lambda>_. Return x)"
  by (auto simp: settles_def)

lemma settles_bind:
  assumes "settles f" "\<And>x. settles (g x)"
  shows "settles (\<lambda>m. run_bind (f m) (\<lambda>x. g x m))"
proof -
  obtain n x where f: "\<forall>m \<ge> n. f m = Return x" using settlesE[OF assms(1)] .
  obtain k y where g: "\<forall>m \<ge> k. g x m = Return y" using settlesE[OF assms(2)] .
  have "run_bind (f m) (\<lambda>x. g x m) = Return y" if "max n k \<le> m" for m using f g that by simp
  then show ?thesis unfolding settles_def by blast
qed

lemma settles_bind_inv:
  assumes "settles f" "\<And>n x. \<forall>m \<ge> n. f m = Return x \<Longrightarrow> settles (g x)"
  shows "settles (\<lambda>m. run_bind (f m) (\<lambda>x. g x m))"
proof -
  obtain n x where f: "\<forall>m \<ge> n. f m = Return x" using settlesE[OF assms(1)] .
  obtain k y where g: "\<forall>m \<ge> k. g x m = Return y" using settlesE[OF assms(2)[OF f]] .
  have "run_bind (f m) (\<lambda>x. g x m) = Return y" if "max n k \<le> m" for m using f g that by simp
  then show ?thesis unfolding settles_def by blast
qed

lemma settles_each:
  assumes "\<And>x s. x \<in> set xs \<Longrightarrow> settles (\<lambda>m. f m x s)"
  shows "settles (\<lambda>m. run_each (f m) xs s)"
  using assms
proof (induction xs arbitrary: s)
  case (Cons x xs)
  have "settles (\<lambda>m. run_bind (f m x s) (\<lambda>s. run_each (f m) xs s))"
    by (rule settles_bind) (use Cons in auto)
  then show ?case by simp
qed simp

text \<open>The same with an invariant of the state, which every step keeps.\<close>

lemma settles_each_inv:
  assumes "I s" "\<And>x s. x \<in> set xs \<Longrightarrow> I s \<Longrightarrow> settles (\<lambda>m. f m x s)" "\<And>m x s s'. x \<in> set xs \<Longrightarrow> I s \<Longrightarrow> f m x s = Return s' \<Longrightarrow> I s'"
  shows "settles (\<lambda>m. run_each (f m) xs s)"
  using assms
proof (induction xs arbitrary: s)
  case (Cons x xs)
  have "settles (\<lambda>m. run_bind (f m x s) (\<lambda>s. run_each (f m) xs s))"
  proof (rule settles_bind_inv)
    show "settles (\<lambda>m. f m x s)" using Cons.prems by simp
    fix n s1 assume n: "\<forall>m \<ge> n. f m x s = Return s1"
    then have "I s1" using Cons.prems(3)[of x s n s1] Cons.prems(1) by auto
    then show "settles (\<lambda>m. run_each (f m) xs s1)"
      by (rule Cons.IH) (rule Cons.prems(2), simp, assumption, rule Cons.prems(3), simp_all)
  qed
  then show ?case by simp
qed simp

lemma adv_total_settles: "adv_total rules st \<Longrightarrow> settles (\<lambda>m. advance_stack m rules st ns)"
proof -
  assume "adv_total rules st"
  then obtain n where n: "\<forall>m \<ge> n. \<exists>ns'. advance_stack m rules st ns = Return ns'" by (auto simp: adv_total_def)
  then obtain ns' where "advance_stack n rules st ns = Return ns'" by auto
  then have "\<forall>m \<ge> n. advance_stack m rules st ns = Return ns'" using advance_mono[of n rules st ns] by simp
  then show ?thesis unfolding settles_def by blast
qed

text \<open>A grammar that \<^verbatim>\<open>llama_grammar_init_impl\<close> takes, with empty rules of the plain kind.\<close>

definition checked :: "grammar_rules \<Rightarrow> bool" where
  "checked rules \<longleftrightarrow> rules_ok rules \<and> plain_empty rules \<and> left_recursive rules = Return False"

text \<open>Well-formed rules without left recursion; they need not pass the check for plain empty rules.\<close>

definition guarded :: "grammar_rules \<Rightarrow> bool" where
  "guarded rules \<longleftrightarrow> rules_ok rules \<and> left_rec_free rules"

lemma checked_guarded: "checked rules \<Longrightarrow> guarded rules"
  by (simp add: checked_def guarded_def checked_left_rec_free)

lemma guarded_settles: "guarded rules \<Longrightarrow> stack_ok rules st \<Longrightarrow> settles (\<lambda>m. advance_stack m rules st ns)"
  using left_rec_free_total adv_total_settles by (auto simp: guarded_def)

lemma accept_stack_settles:
  assumes c: "guarded rules" and st: "ready rules st" "stack_ok rules st"
  shows "settles (\<lambda>m. accept_stack m rules chr st ns)"
proof (cases st)
  case (Cons p st1)
  obtain e where e: "elem_at rules p = Some e" "is_char e" using st(1) Cons by (auto simp: ready_def)
  have "rules_ok rules" using c by (simp add: guarded_def)
  then obtain p' found where m: "pos_ok rules p'" "match_char rules p chr = Some (found, p')" using match_char_ok[OF _ e] by blast
  obtain st' where st': "push_pos rules p' st1 = Some st'" "stack_ok rules st'" using push_pos_ok[OF m(1)] st(2) Cons by auto
  show ?thesis using guarded_settles[OF c st'(2)] Cons m(2) st'(1) by (cases found) (simp_all add: accept_stack_def)
qed (simp add: accept_stack_def)

lemma grammar_accept_settles:
  assumes "guarded rules" "stacks_ok rules sts"
  shows "settles (\<lambda>m. grammar_accept m rules sts chr)"
  unfolding grammar_accept_def by (rule settles_each) (use assms accept_stack_settles in \<open>auto simp: stacks_ok_def\<close>)

lemma accepts_settles:
  assumes "guarded rules" "stacks_ok rules sts"
  shows "settles (\<lambda>m. run_each (\<lambda>c sts. grammar_accept m rules sts c) cs sts)"
  by (rule settles_each_inv[where I = "stacks_ok rules"])
    (use assms grammar_accept_settles grammar_accept_lang(1) in \<open>auto simp: guarded_def\<close>)

lemma initial_settles:
  assumes c: "guarded rules" and start: "start < length rules"
  shows "settles (\<lambda>m. initial_stacks m rules start)"
proof -
  have ok: "rules_ok rules" using c by (simp add: guarded_def)
  obtain subs where subs: "alt_starts (rules ! start) = Some subs" "\<forall>s \<in> set subs. pos_ok rules (start, s)" using alt_starts_ok[OF ok start] by blast
  have "settles (\<lambda>m. run_each (\<lambda>sub stacks. opt_run (push_pos rules (start, sub) []) (\<lambda>stack. advance_stack m rules stack stacks)) subs [])"
  proof (rule settles_each)
    fix s stacks assume "s \<in> set subs"
    then obtain st where "push_pos rules (start, s) [] = Some st" "stack_ok rules st" using push_pos_ok[of rules "(start, s)" "[]"] subs(2) by auto
    then show "settles (\<lambda>m. opt_run (push_pos rules (start, s) []) (\<lambda>stack. advance_stack m rules stack stacks))" using guarded_settles[OF c] by simp
  qed
  then show ?thesis using start subs(1) by (simp add: initial_stacks_def)
qed

subsection \<open>Membership\<close>

text \<open>\<^verbatim>\<open>root ::= "a" root |\<close>\<close>

definition as_grammar :: grammar_rules where
  "as_grammar = [[gelem GRE_CHAR 97, gelem GRE_RULE_REF 0, gelem GRE_ALT 0, gelem GRE_END 0]]"

lemma as_grammar_checked: "checked as_grammar"
proof -
  have "rules_ok as_grammar" by (simp add: as_grammar_def rules_ok_def rule_ok_def gelem_def inner_def chained_def)
  moreover have "plain_empty as_grammar"
    by (simp add: as_grammar_def plain_empty_def emp_closed_def alt_starts_def gelem_def direct_empty_def is_end_of_sequence_def)
  moreover have "left_recursive as_grammar = Return False"
    by (simp add: left_recursive_def as_grammar_def gelem_def lr_init_def is_end_of_sequence_def Let_def)
  ultimately show ?thesis by (simp add: checked_def)
qed

text \<open>
  C2. For a grammar that passes the checks of initialisation and whose empty rules are plain, building the initial stacks and
  accepting any sequence of characters returns, and the stacks then stand for exactly what may follow: the characters are a sentence
  of the grammar if and only if the empty stack is among them, a continuation completes them to a sentence if and only if some
  stack derives it, and no stack is left only if nothing can complete them.
\<close>

theorem grammar_decides_language:
  assumes "checked rules" "start < length rules"
  shows "(\<exists>n. \<forall>m \<ge> n. \<exists>sts sts'. initial_stacks m rules start = Return sts \<and> run_each (\<lambda>c sts. grammar_accept m rules sts c) cs sts = Return sts') \<and>
    (\<forall>m sts sts'. initial_stacks m rules start = Return sts \<longrightarrow> run_each (\<lambda>c sts. grammar_accept m rules sts c) cs sts = Return sts' \<longrightarrow>
      ([] \<in> set sts' \<longleftrightarrow> grammar_lang rules start cs) \<and> (\<forall>w. stacks_lang rules sts' w \<longleftrightarrow> grammar_lang rules start (cs @ w)) \<and>
      (sts' = [] \<longrightarrow> (\<forall>w. \<not> grammar_lang rules start (cs @ w))))"
proof
  have ok: "rules_ok rules" using assms(1) by (simp add: checked_def)
  show "\<exists>n. \<forall>m \<ge> n. \<exists>sts sts'. initial_stacks m rules start = Return sts \<and> run_each (\<lambda>c sts. grammar_accept m rules sts c) cs sts = Return sts'"
  proof -
    obtain n sts where n: "\<forall>m \<ge> n. initial_stacks m rules start = Return sts" using settlesE[OF initial_settles[OF checked_guarded[OF assms(1)] assms(2)]] .
    then have "stacks_ok rules sts" using initial_stacks_lang(1)[OF ok] by auto
    then obtain k sts' where "\<forall>m \<ge> k. run_each (\<lambda>c sts. grammar_accept m rules sts c) cs sts = Return sts'"
      using settlesE[OF accepts_settles[OF checked_guarded[OF assms(1)]]] by metis
    then show ?thesis using n by (intro exI[of _ "max n k"]) auto
  qed
  show "\<forall>m sts sts'. initial_stacks m rules start = Return sts \<longrightarrow> run_each (\<lambda>c sts. grammar_accept m rules sts c) cs sts = Return sts' \<longrightarrow>
      ([] \<in> set sts' \<longleftrightarrow> grammar_lang rules start cs) \<and> (\<forall>w. stacks_lang rules sts' w \<longleftrightarrow> grammar_lang rules start (cs @ w)) \<and>
      (sts' = [] \<longrightarrow> (\<forall>w. \<not> grammar_lang rules start (cs @ w)))"
  proof (intro allI impI)
    fix m sts sts' assume i: "initial_stacks m rules start = Return sts" and r: "run_each (\<lambda>c sts. grammar_accept m rules sts c) cs sts = Return sts'"
    note l = initial_stacks_lang[OF ok i]
    have a: "stacks_ok rules sts'" and w: "stacks_lang rules sts' w \<longleftrightarrow> grammar_lang rules start (cs @ w)" for w
      using accepts_lang[OF ok l(1) r] l(2) by auto
    have "[] \<in> set sts' \<longleftrightarrow> stacks_lang rules sts' []" using a ready_empty unfolding stacks_lang_def stacks_ok_def by (metis stack_lang.simps(1))
    then show "([] \<in> set sts' \<longleftrightarrow> grammar_lang rules start cs) \<and> (\<forall>w. stacks_lang rules sts' w \<longleftrightarrow> grammar_lang rules start (cs @ w)) \<and>
      (sts' = [] \<longrightarrow> (\<forall>w. \<not> grammar_lang rules start (cs @ w)))" using w[of "[]"] w by (auto simp: stacks_lang_def)
  qed
qed

theorem grammar_decides_language_witness:
  "checked as_grammar \<and> grammar_lang as_grammar 0 [97, 97] \<and> \<not> grammar_lang as_grammar 0 [97, 98, 97]"
proof -
  have i: "initial_stacks 5 as_grammar 0 = Return [[(0, 0)], []]"
    by (simp add: as_grammar_def initial_stacks_def alt_starts_def gelem_def push_pos_def elem_at_def is_end_of_sequence_def add_stack_def numeral_eq_Suc)
  have a: "grammar_accept 5 as_grammar [[(0, 0)], []] 97 = Return [[(0, 0)], []]"
    by (simp add: as_grammar_def grammar_accept_def accept_stack_def match_char_def alt_starts_def gelem_def push_pos_def elem_at_def
        is_end_of_sequence_def is_positive_char_def add_stack_def next_pos_def numeral_eq_Suc)
  have b: "grammar_accept 5 as_grammar [[(0, 0)], []] 98 = Return []"
    by (simp add: as_grammar_def grammar_accept_def accept_stack_def match_char_def gelem_def is_positive_char_def)
  have e: "grammar_accept 5 as_grammar [] 97 = Return []" by (simp add: grammar_accept_def)
  have l: "(0::nat) < length as_grammar" by (simp add: as_grammar_def)
  note d = grammar_decides_language[OF as_grammar_checked l]
  have "grammar_lang as_grammar 0 [97, 97]" using conjunct2[OF d, rule_format, of 5 "[[(0, 0)], []]" "[97, 97]" "[[(0, 0)], []]"] i a by simp
  moreover have "\<not> grammar_lang as_grammar 0 [97, 98, 97]"
    using conjunct2[OF d, rule_format, of 5 "[[(0, 0)], []]" "[97, 98, 97]" "[]"] i a b e by simp
  ultimately show ?thesis using as_grammar_checked by blast
qed

text \<open>
  C32. After initialisation has found no left recursion, \<^verbatim>\<open>llama_grammar_advance_stack\<close> returns on every stack of positions in the
  rules, if every rule made of references to rules with an empty alternate has an empty alternate itself. The check itself
  returns for every well-formed grammar: a recursion as deep as there are rules, and one more, is enough.
\<close>

theorem left_recursion_check_sound:
  assumes "rules_ok rules" "plain_empty rules" "stack_ok rules st"
  shows "\<exists>found. left_recursive rules = Return found \<and>
    (\<not> found \<longrightarrow> (\<exists>n. \<forall>m \<ge> n. \<forall>new_stacks. \<exists>res. advance_stack m rules st new_stacks = Return res))"
proof -
  obtain found where f: "left_recursive rules = Return found" using left_recursive_ok[OF assms(1)] by blast
  show ?thesis using checked_total[OF assms(1,2) _ assms(3)] f by (cases found) (auto simp: adv_total_def)
qed

theorem left_recursion_check_sound_witness:
  "\<exists>n. \<forall>m \<ge> n. \<forall>new_stacks. \<exists>res. advance_stack m as_grammar [(0, 1)] new_stacks = Return res"
proof -
  have c: "rules_ok as_grammar" "plain_empty as_grammar" "left_recursive as_grammar = Return False" using as_grammar_checked by (auto simp: checked_def)
  have s: "stack_ok as_grammar [(0, 1)]" by (simp add: as_grammar_def top_ok_def elem_at_def gelem_def inner_def is_end_of_sequence_def)
  show ?thesis using left_recursion_check_sound[OF c(1,2) s] c(3) by auto
qed

text \<open>\<^verbatim>\<open>root ::= a root | "x"\<close>, \<^verbatim>\<open>a ::= b b\<close>, \<^verbatim>\<open>b ::= | "y"\<close>: the rule \<open>a\<close> can be empty but has no empty alternate.\<close>

definition hidden_grammar :: grammar_rules where
  "hidden_grammar = [[gelem GRE_RULE_REF 1, gelem GRE_RULE_REF 0, gelem GRE_ALT 0, gelem GRE_CHAR 120, gelem GRE_END 0],
     [gelem GRE_RULE_REF 2, gelem GRE_RULE_REF 2, gelem GRE_END 0], [gelem GRE_ALT 0, gelem GRE_CHAR 121, gelem GRE_END 0]]"

lemma hidden_diverges: "advance_stack n hidden_grammar [(0, 0)] ns = Fuel_Out"
proof (induction n arbitrary: ns rule: less_induct)
  case (less n)
  note unf = hidden_grammar_def alt_starts_def gelem_def push_pos_def elem_at_def is_end_of_sequence_def next_pos_def
  have "advance_stack (Suc (Suc (Suc (Suc k)))) hidden_grammar [(0, 0)] ns = Fuel_Out" if "advance_stack k hidden_grammar [(0, 0)] ns = Fuel_Out" for k
    using that by (simp add: unf)
  moreover have "advance_stack (Suc 0) hidden_grammar [(0, 0)] ns = Fuel_Out" "advance_stack (Suc (Suc 0)) hidden_grammar [(0, 0)] ns = Fuel_Out"
    "advance_stack (Suc (Suc (Suc 0))) hidden_grammar [(0, 0)] ns = Fuel_Out" by (simp_all add: unf)
  ultimately show ?case using less by (cases n; cases "n - 1"; cases "n - 2"; cases "n - 3") auto
qed

text \<open>
  C33. The check misses left recursion through a rule that derives the empty word without having an empty alternate: the grammar
  above is well formed and passes the check, and the recursion of \<^verbatim>\<open>llama_grammar_advance_stack\<close> never ends on its start, so
  that initialisation does not return with any depth of recursion.
\<close>

theorem hidden_left_recursion:
  "rules_ok hidden_grammar \<and> left_recursive hidden_grammar = Return False \<and>
   (\<forall>n ns. advance_stack n hidden_grammar [(0, 0)] ns = Fuel_Out) \<and> (\<forall>n. grammar_init n hidden_grammar 0 False [] = Fuel_Out)"
proof (intro conjI allI)
  show "rules_ok hidden_grammar" by (simp add: hidden_grammar_def rules_ok_def rule_ok_def gelem_def inner_def chained_def)
  show lr: "left_recursive hidden_grammar = Return False"
    by (simp add: left_recursive_def hidden_grammar_def gelem_def lr_init_def is_end_of_sequence_def Let_def vec_at_def)
  show "advance_stack n hidden_grammar [(0, 0)] ns = Fuel_Out" for n ns by (rule hidden_diverges)
  have "initial_stacks n hidden_grammar 0 = Fuel_Out" for n
  proof -
    have "alt_starts (hidden_grammar ! 0) = Some [0, 3]" "push_pos hidden_grammar (0, 0) [] = Some [(0, 0)]" "vec_at hidden_grammar 0 = Some (hidden_grammar ! 0)"
      by (simp_all add: hidden_grammar_def alt_starts_def gelem_def push_pos_def elem_at_def is_end_of_sequence_def)
    then show ?thesis by (simp add: initial_stacks_def hidden_diverges)
  qed
  moreover have "map_opt copy_rule hidden_grammar = Some hidden_grammar" by (simp add: hidden_grammar_def gelem_def)
  ultimately show "grammar_init n hidden_grammar 0 False [] = Fuel_Out" for n using lr by (simp add: grammar_init_def)
qed

end
