(* ===== verification/Grammar_Mask.thy ===== *)
theory Grammar_Mask
  imports Grammar_Match
begin

text \<open>
  The mask of \<^verbatim>\<open>llama_grammar_apply_impl\<close> against \<^verbatim>\<open>llama_grammar_accept_impl\<close>: which candidates the recursive rejection of
  \<^verbatim>\<open>llama_grammar_reject_candidates\<close> keeps, and that these are the tokens that can be accepted.
\<close>

subsection \<open>What a call of advance\_stack adds\<close>

text \<open>A step on collected stacks that adds the same stacks whatever has been collected.\<close>

definition uniform :: "('a list \<Rightarrow> 'a list run) \<Rightarrow> bool" where
  "uniform f \<longleftrightarrow> (\<forall>ns ns' ms. f ns = Return ns' \<longrightarrow> (\<exists>ms' r. f ms = Return ms' \<and> set ns' = set ns \<union> r \<and> set ms' = set ms \<union> r))"

lemma uniform_each: "(\<And>x. x \<in> set xs \<Longrightarrow> uniform (f x)) \<Longrightarrow> uniform (run_each f xs)"
proof (induction xs)
  case (Cons x xs)
  show ?case unfolding uniform_def
  proof (intro allI impI)
    fix ns ns' ms assume "run_each f (x # xs) ns = Return ns'"
    then obtain k where k: "f x ns = Return k" "run_each f xs k = Return ns'" by (auto simp: run_bind_Return)
    obtain ms1 r1 where r1: "f x ms = Return ms1" "set k = set ns \<union> r1" "set ms1 = set ms \<union> r1"
      using Cons.prems[of x] k(1) unfolding uniform_def by (metis list.set_intros(1))
    have "uniform (run_each f xs)" using Cons by auto
    then obtain ms' r2 where "run_each f xs ms1 = Return ms'" "set ns' = set k \<union> r2" "set ms' = set ms1 \<union> r2" using k(2) unfolding uniform_def by metis
    then show "\<exists>ms' r. run_each f (x # xs) ms = Return ms' \<and> set ns' = set ns \<union> r \<and> set ms' = set ms \<union> r"
      using r1 by (intro exI[of _ ms'] exI[of _ "r1 \<union> r2"]) auto
  qed
qed (auto simp: uniform_def)

lemma uniform_add: "uniform (\<lambda>ns. Return (add_stack st ns))"
  by (auto simp: uniform_def)

lemma uniform_opt: "(\<And>x. uniform (f x)) \<Longrightarrow> uniform (\<lambda>ns. opt_run y (\<lambda>x. f x ns))"
  by (cases y) (auto simp: uniform_def)

lemma uniform_advance: "uniform (advance_stack n rules st)"
proof (induction n arbitrary: st)
  case (Suc n)
  have "uniform (\<lambda>ns. advance_stack (Suc n) rules st ns)"
  proof (cases st)
    case (Cons p st1)
    have "uniform (\<lambda>ns. if ge_type e = GRE_RULE_REF then opt_run (vec_at rules (unat (ge_value e))) (\<lambda>rule. opt_run (alt_starts rule) (\<lambda>subs.
           run_each (\<lambda>sub ns. opt_run (push_pos rules (next_pos p) st1) (\<lambda>st1.
             opt_run (push_pos rules (unat (ge_value e), sub) st1) (\<lambda>st2. advance_stack n rules st2 ns))) subs ns))
       else if ge_type e \<in> {GRE_CHAR, GRE_CHAR_NOT, GRE_CHAR_ANY} then Return (add_stack (p # st1) ns) else Abort)" for e
      using Suc uniform_add by (cases "ge_type e") (auto simp: uniform_def[of "\<lambda>_. Abort"] intro!: uniform_opt uniform_each)
    from uniform_opt[OF this, of "elem_at rules p"] show ?thesis using Cons by simp
  qed (use uniform_add in simp)
  then show ?case by simp
qed (simp add: uniform_def)

lemma advance_base:
  assumes "advance_stack n rules st ns = Return ns'"
  obtains r where "advance_stack n rules st [] = Return r" "set ns' = set ns \<union> set r"
  using assms uniform_advance[of n rules st] unfolding uniform_def by (metis Un_empty_left empty_set)

lemma advance_det: "advance_stack n rules st [] = Return r \<Longrightarrow> advance_stack m rules st [] = Return s \<Longrightarrow> r = s"
  by (metis advance_mono nat_le_linear run.distinct(3) run.inject)

lemma advance_nonempty: "rules_ok rules \<Longrightarrow> stack_ok rules st \<Longrightarrow> advance_stack n rules st ns = Return ns' \<Longrightarrow> ns' \<noteq> []"
proof (induction n arbitrary: st ns ns')
  case (Suc n)
  show ?case
  proof (cases "\<exists>p st1 e. st = p # st1 \<and> elem_at rules p = Some e \<and> ge_type e = GRE_RULE_REF")
    case True
    then obtain p st1 e where p: "st = p # st1" "elem_at rules p = Some e" "ge_type e = GRE_RULE_REF" by blast
    have st1: "stack_ok rules st1" using Suc.prems(2) p(1) by simp
    obtain rule subs where r: "vec_at rules (unat (ge_value e)) = Some rule" "alt_starts rule = Some subs" "0 \<in> set subs"
        "\<forall>s \<in> set subs. stack_ok rules (ref_stack rules p st1 (unat (ge_value e), s))"
      using ref_stack_ok[OF Suc.prems(1) p(2,3) st1] by metis
    have run: "run_each (\<lambda>s. advance_stack n rules (ref_stack rules p st1 (unat (ge_value e), s))) subs ns = Return ns'"
      using Suc.prems(3) advance_ref[OF Suc.prems(1) p(2,3) st1 r(1,2)] p(1) by simp
    have "subs \<noteq> [] \<longrightarrow> ns' \<noteq> []"
      by (rule run_each_Return_inv[OF run, where I = "\<lambda>ys s. ys \<noteq> [] \<longrightarrow> s \<noteq> []"]) (use Suc.IH[OF Suc.prems(1)] r(4) in auto)
    then show ?thesis using r(3) by auto
  next
    case False
    then show ?thesis using Suc.prems(3) by (auto simp: opt_run_Return add_stack_def split: list.splits if_splits)
  qed
qed simp

subsection \<open>Stacks that take a piece of text\<close>

text \<open>A stack takes the code points of a piece and the partial sequence it ends in.\<close>

inductive takes :: "grammar_rules \<Rightarrow> grammar_stack \<Rightarrow> 32 word list \<Rightarrow> partial_utf8 \<Rightarrow> bool" for rules where
  whole: "pu_n_remain pu = 0 \<Longrightarrow> takes rules st [] pu"
| partial: "match_partial_char rules p pu = Some True \<Longrightarrow> takes rules (p # st) [] pu"
| step: "match_char rules p c = Some (True, p') \<Longrightarrow> push_pos rules p' st = Some st' \<Longrightarrow> advance_stack n rules st' [] = Return sts \<Longrightarrow> q \<in> set sts \<Longrightarrow>
    takes rules q cs pu \<Longrightarrow> takes rules (p # st) (c # cs) pu"

inductive_simps takes_end: "takes rules st [] pu"
inductive_simps takes_Nil_char: "takes rules [] (c # cs) pu"
inductive_simps takes_char: "takes rules (p # st) (c # cs) pu"

lemma takes_stepped:
  assumes "match_char rules p c = Some (found, p')" "push_pos rules p' st = Some st'" "advance_stack n rules st' [] = Return sts"
  shows "takes rules (p # st) (c # cs) pu \<longleftrightarrow> found \<and> (\<exists>q \<in> set sts. takes rules q cs pu)"
proof
  assume "takes rules (p # st) (c # cs) pu"
  then obtain p2 st2 k sts2 q where t: "match_char rules p c = Some (True, p2)" "push_pos rules p2 st = Some st2" "advance_stack k rules st2 [] = Return sts2"
      "q \<in> set sts2" "takes rules q cs pu" unfolding takes_char by blast
  then have "found" "st2 = st'" using assms(1,2) by auto
  then show "found \<and> (\<exists>q \<in> set sts. takes rules q cs pu)" using advance_det[OF assms(3)] t(3-5) by auto
next
  assume "found \<and> (\<exists>q \<in> set sts. takes rules q cs pu)"
  then obtain q where "match_char rules p c = Some (True, p')" "q \<in> set sts" "takes rules q cs pu" using assms(1) by auto
  then show "takes rules (p # st) (c # cs) pu" by (rule takes.step[OF _ assms(2,3)])
qed

lemma grammar_accept_takes:
  assumes "grammar_accept m rules sts c = Return sts'"
  shows "(\<exists>q \<in> set sts'. takes rules q cs pu) \<longleftrightarrow> (\<exists>st \<in> set sts. takes rules st (c # cs) pu)"
proof (rule run_each_Return_inv[OF assms[unfolded grammar_accept_def], where
      I = "\<lambda>ys s. (\<exists>q \<in> set s. takes rules q cs pu) \<longleftrightarrow> (\<exists>st \<in> set ys. takes rules st (c # cs) pu)"])
  fix ys st ns ns' assume i: "(\<exists>q \<in> set ns. takes rules q cs pu) \<longleftrightarrow> (\<exists>st \<in> set ys. takes rules st (c # cs) pu)"
    and a: "accept_stack m rules c st ns = Return ns'"
  have "(\<exists>q \<in> set ns'. takes rules q cs pu) \<longleftrightarrow> (\<exists>q \<in> set ns. takes rules q cs pu) \<or> takes rules st (c # cs) pu"
  proof (cases st)
    case (Cons p st1)
    obtain found p' where m: "match_char rules p c = Some (found, p')" using a Cons by (auto simp: accept_stack_def opt_run_Return)
    show ?thesis
    proof (cases found)
      case True
      then obtain st' where st': "push_pos rules p' st1 = Some st'" "advance_stack m rules st' ns = Return ns'"
        using a Cons m by (auto simp: accept_stack_def opt_run_Return)
      obtain r where "advance_stack m rules st' [] = Return r" "set ns' = set ns \<union> set r" using advance_base[OF st'(2)] .
      then show ?thesis using takes_stepped[OF m st'(1)] True Cons by auto
    next
      case False
      then show ?thesis using a Cons m by (auto simp: accept_stack_def takes_char)
    qed
  qed (use a in \<open>simp add: accept_stack_def takes_Nil_char\<close>)
  then show "(\<exists>q \<in> set ns'. takes rules q cs pu) \<longleftrightarrow> (\<exists>st \<in> set (ys @ [st]). takes rules st (c # cs) pu)" using i by auto
qed simp

text \<open>Accepting the code points leaves a stack exactly when some stack takes them.\<close>

lemma accepts_takes:
  "run_each (\<lambda>c sts. grammar_accept m rules sts c) cs sts = Return sts' \<Longrightarrow>
    (\<exists>q \<in> set sts'. takes rules q [] pu) \<longleftrightarrow> (\<exists>st \<in> set sts. takes rules st cs pu)"
proof (induction cs arbitrary: sts)
  case (Cons c cs)
  then obtain sts1 where "grammar_accept m rules sts c = Return sts1" "run_each (\<lambda>c sts. grammar_accept m rules sts c) cs sts1 = Return sts'"
    by (auto simp: run_bind_Return)
  then show ?case using Cons.IH grammar_accept_takes by blast
qed simp

subsection \<open>Rejection\<close>

definition gc_ok :: "grammar_candidate \<Rightarrow> bool" where
  "gc_ok tok \<longleftrightarrow> gc_at tok < length (gc_cps tok) \<and> last (gc_cps tok) = 0"

text \<open>What is left of a candidate up to the code point 0.\<close>

definition gc_rest :: "grammar_candidate \<Rightarrow> 32 word list" where
  "gc_rest tok = takeWhile (\<lambda>c. c \<noteq> 0) (drop (gc_at tok) (gc_cps tok))"

abbreviation tok_takes :: "grammar_rules \<Rightarrow> grammar_stack \<Rightarrow> grammar_candidate \<Rightarrow> bool" where
  "tok_takes rules st tok \<equiv> takes rules st (gc_rest tok) (gc_partial tok)"

definition gc_next :: "grammar_candidate \<Rightarrow> grammar_candidate" where
  "gc_next tok = gc_move (gc_at tok + 1) tok"

lemma gc_next_back [simp]: "gc_move (gc_at (gc_next tok) - Suc 0) (gc_next tok) = tok"
  by (simp add: gc_next_def gc_move_def)

lemma gc_next_partial [simp]: "gc_partial (gc_next tok) = gc_partial tok"
  by (simp add: gc_next_def gc_move_def)

lemma gc_point_ok:
  assumes "gc_ok tok"
  shows "gc_point tok = Some 0 \<and> gc_rest tok = [] \<or> (\<exists>c. c \<noteq> 0 \<and> gc_point tok = Some c \<and> gc_rest tok = c # gc_rest (gc_next tok) \<and> gc_ok (gc_next tok))"
proof -
  have a: "gc_at tok < length (gc_cps tok)" using assms by (simp add: gc_ok_def)
  then have p: "gc_point tok = Some (gc_cps tok ! gc_at tok)" by (simp add: gc_point_def)
  have d: "drop (gc_at tok) (gc_cps tok) = gc_cps tok ! gc_at tok # drop (Suc (gc_at tok)) (gc_cps tok)" using a by (metis Cons_nth_drop_Suc)
  show ?thesis
  proof (cases "gc_cps tok ! gc_at tok = 0")
    case False
    then have "gc_at tok \<noteq> length (gc_cps tok) - 1" using assms last_conv_nth[of "gc_cps tok"] a by (cases "gc_cps tok = []") (auto simp: gc_ok_def)
    then have "gc_ok (gc_next tok)" using assms a by (auto simp: gc_ok_def gc_next_def gc_move_def)
    then show ?thesis using p d False by (auto simp: gc_rest_def gc_next_def gc_move_def)
  qed (use p d in \<open>simp add: gc_rest_def\<close>)
qed

lemma partial_loop_ok:
  assumes "successively chained (e # es)" "ge_type (last (e # es)) = GRE_END" "ge_type e \<in> {GRE_CHAR, GRE_CHAR_NOT, GRE_CHAR_ALT, GRE_CHAR_ANY}"
  shows "\<exists>ok. partial_loop (e # es) low high positive = Some ok"
  using assms
proof (induction "length es" arbitrary: e es rule: less_induct)
  case less
  obtain e1 es1 where es: "es = e1 # es1" using less.prems(2,3) by (cases es) auto
  have ch: "successively chained es" using less.prems(1) es by auto
  show ?case
  proof (cases "ge_type e1 = GRE_CHAR_RNG_UPPER")
    case rng: True
    obtain x xs where x: "es1 = x # xs" using less.prems(2) es rng by (cases es1) auto
    have "ge_type x = GRE_CHAR_ALT \<Longrightarrow> \<exists>ok. partial_loop (x # xs) low high positive = Some ok"
      using less.hyps[of xs x] ch less.prems(2) es x by simp
    then show ?thesis using es x rng by auto
  next
    case False
    have "ge_type e1 = GRE_CHAR_ALT \<Longrightarrow> \<exists>ok. partial_loop (e1 # es1) low high positive = Some ok"
      using less.hyps[of es1 e1] ch less.prems(2) es by simp
    then show ?thesis using es False by auto
  qed
qed

lemma match_partial_ok:
  assumes ok: "rules_ok rules" and e: "elem_at rules p = Some e" "is_char e"
  shows "\<exists>b. match_partial_char rules p pu = Some b"
proof -
  obtain r i where p: "p = (r, i)" by (cases p)
  have r: "r < length rules" "i < length (rules ! r)" "e = rules ! r ! i" using e(1) p by (auto simp: elem_at_Some)
  have d: "drop i (rules ! r) = e # drop (Suc i) (rules ! r)" using r by (metis Cons_nth_drop_Suc)
  have "successively chained (e # drop (Suc i) (rules ! r))" using successively_drop[OF rules_okD(2)[OF ok r(1)], of i] d by simp
  moreover have "ge_type (last (e # drop (Suc i) (rules ! r))) = GRE_END" using rules_okD(3)[OF ok r(1)] r(2) d by (metis last_drop)
  ultimately have "\<exists>b. partial_loop (drop i (rules ! r)) low high positive = Some b" for low high positive
    using partial_loop_ok[of e "drop (Suc i) (rules ! r)"] e(2) d by (auto simp: is_char_def)
  then show ?thesis using r e(2) p by (auto simp: match_partial_char_def is_char_def is_positive_char_def Let_def)
qed

text \<open>The candidates that pass the element on top of the stack, and those that go on with the next code point.\<close>

definition first_ok :: "grammar_rules \<Rightarrow> grammar_pos \<Rightarrow> grammar_candidate \<Rightarrow> bool" where
  "first_ok rules p tok \<longleftrightarrow> (case gc_rest tok of
     [] \<Rightarrow> pu_n_remain (gc_partial tok) = 0 \<or> match_partial_char rules p (gc_partial tok) = Some True
   | c # _ \<Rightarrow> map_option fst (match_char rules p c) = Some True)"

definition moving :: "grammar_rules \<Rightarrow> grammar_pos \<Rightarrow> grammar_candidate \<Rightarrow> bool" where
  "moving rules p tok \<longleftrightarrow> gc_rest tok \<noteq> [] \<and> first_ok rules p tok"

lemma classify_ok:
  assumes "rules_ok rules" "elem_at rules p = Some e" "is_char e" "gc_ok tok"
  shows "classify rules p tok (rej, nxt) =
    Some (if first_ok rules p tok then rej else rej @ [tok], if moving rules p tok then nxt @ [gc_next tok] else nxt)"
proof -
  obtain b where b: "match_partial_char rules p (gc_partial tok) = Some b" using match_partial_ok[OF assms(1-3)] by blast
  obtain p' where m: "\<forall>c. \<exists>found. match_char rules p c = Some (found, p')" using match_char_ok[OF assms(1-3)] by blast
  consider "gc_point tok = Some 0" "gc_rest tok = []"
    | c where "c \<noteq> 0" "gc_point tok = Some c" "gc_rest tok = c # gc_rest (gc_next tok)" using gc_point_ok[OF assms(4)] by blast
  then show ?thesis
  proof cases
    case 1
    then show ?thesis using b by (auto simp: classify_def first_ok_def moving_def)
  next
    case 2
    obtain found where "match_char rules p c = Some (found, p')" using m by blast
    then show ?thesis using 2 by (auto simp: classify_def first_ok_def moving_def gc_next_def)
  qed
qed

lemma classify_all:
  assumes "rules_ok rules" "elem_at rules p = Some e" "is_char e"
  shows "\<forall>tok \<in> set cands. gc_ok tok \<Longrightarrow> for_each (classify rules p) cands (rej, nxt) =
    Some (rej @ filter (\<lambda>tok. \<not> first_ok rules p tok) cands, nxt @ map gc_next (filter (moving rules p) cands))"
  by (induction cands arbitrary: rej nxt) (auto simp: classify_ok[OF assms])

lemma tok_takes_top:
  assumes m: "\<forall>c. \<exists>found. match_char rules p c = Some (found, p')" and st': "push_pos rules p' st = Some st'" "advance_stack n rules st' [] = Return sts"
    and tok: "gc_ok tok"
  shows "tok_takes rules (p # st) tok \<longleftrightarrow> first_ok rules p tok \<and> (moving rules p tok \<longrightarrow> (\<exists>q \<in> set sts. tok_takes rules q (gc_next tok)))"
proof (cases "gc_rest tok")
  case Nil
  then show ?thesis by (cases p) (auto simp: first_ok_def moving_def takes_end)
next
  case (Cons c cs)
  obtain found where f: "match_char rules p c = Some (found, p')" using m by blast
  have "cs = gc_rest (gc_next tok)" using gc_point_ok[OF tok] Cons by auto
  then show ?thesis using takes_stepped[OF f st'] Cons f by (auto simp: first_ok_def moving_def)
qed

lemma moving_ok: "gc_ok tok \<Longrightarrow> moving rules p tok \<Longrightarrow> gc_ok (gc_next tok) \<and> length (gc_rest tok) = Suc (length (gc_rest (gc_next tok)))"
  using gc_point_ok[of tok] by (auto simp: moving_def)

text \<open>The rejected candidates are those no stack takes.\<close>

abbreviation rejected :: "grammar_rules \<Rightarrow> grammar_stack list \<Rightarrow> grammar_candidate list \<Rightarrow> grammar_candidate set" where
  "rejected rules sts cands \<equiv> {tok \<in> set cands. \<forall>st \<in> set sts. \<not> tok_takes rules st tok}"

lemma reject_candidates_each:
  assumes "reject_candidates f sts cands = Return rej"
    "\<And>st cands' rej. st \<in> set sts \<Longrightarrow> set cands' \<subseteq> set cands \<Longrightarrow> f st cands' = Return rej \<Longrightarrow> set rej = rejected rules [st] cands'"
  shows "set rej = rejected rules sts cands"
proof (cases "cands = []")
  case False
  have run: "run_each f sts cands = Return rej" using assms(1) False by (auto simp: reject_candidates_def split: if_splits)
  show ?thesis
  proof (rule run_each_Return_inv[OF run, where I = "\<lambda>ys s. set s = rejected rules ys cands"])
    fix ys st c c' assume st: "st \<in> set sts" "set c = rejected rules ys cands" "f st c = Return c'"
    have "set c' = rejected rules [st] c" by (rule assms(2)[OF st(1) _ st(3)]) (use st(2) in auto)
    then show "set c' = rejected rules (ys @ [st]) cands" using st(2) by auto
  qed simp
qed (use assms(1) in \<open>auto simp: reject_candidates_def split: if_splits\<close>)

lemma reject_for_stack_takes:
  assumes ok: "rules_ok rules"
  shows "ready rules st \<Longrightarrow> stack_ok rules st \<Longrightarrow> \<forall>tok \<in> set cands. gc_ok tok \<Longrightarrow> reject_for_stack d m rules st cands = Return rej \<Longrightarrow>
    set rej = rejected rules [st] cands"
proof (induction d arbitrary: st cands rej)
  case (Suc d)
  show ?case
  proof (cases st)
    case Nil
    have "gc_point tok = Some (hd (gc_rest tok @ [0]))" if "tok \<in> set cands" for tok using gc_point_ok[of tok] Suc.prems(3) that by auto
    then have "map_opt gc_point cands = Some (map (\<lambda>tok. hd (gc_rest tok @ [0])) cands)" by (rule map_opt_total)
    then have "rej = filter (\<lambda>tok. hd (gc_rest tok @ [0]) \<noteq> 0 \<or> pu_n_remain (gc_partial tok) \<noteq> 0) cands"
      using Suc.prems(4) Nil by (auto simp: reject_at_end_def zip_map2 filter_map comp_def zip_same_conv_map)
    moreover have "hd (gc_rest tok @ [0]) \<noteq> 0 \<or> pu_n_remain (gc_partial tok) \<noteq> 0 \<longleftrightarrow> \<not> tok_takes rules [] tok" if "tok \<in> set cands" for tok
      using gc_point_ok[of tok] Suc.prems(3) that by (auto simp: takes_end takes_Nil_char)
    ultimately show ?thesis using Nil by auto
  next
    case (Cons p st1)
    obtain e where e: "elem_at rules p = Some e" "is_char e" using Suc.prems(1) Cons by (auto simp: ready_def)
    obtain p' where m: "\<forall>c. \<exists>found. match_char rules p c = Some (found, p')" "pos_ok rules p'" using match_char_ok[OF ok e] by blast
    obtain st' where st': "push_pos rules p' st1 = Some st'" "stack_ok rules st'" using push_pos_ok[OF m(2)] Suc.prems(2) Cons by auto
    obtain f0 where f0: "match_char rules p 0 = Some (f0, p')" using m(1) by blast
    note cl = classify_all[OF ok e Suc.prems(3), of "[]" "[]"]
    obtain sts nrej where run: "advance_stack m rules st' [] = Return sts"
        "reject_candidates (reject_for_stack d m rules) sts (map gc_next (filter (moving rules p) cands)) = Return nrej"
        "rej = filter (\<lambda>tok. \<not> first_ok rules p tok) cands @ map (\<lambda>tok. gc_move (gc_at tok - 1) tok) nrej"
      using Suc.prems(4) Cons cl f0 st'(1) by (auto simp: run_bind_Return)
    have "stacks_ok rules sts" using advance_stack_lang[OF ok st'(2) run(1)] advances_stacks_ok by blast
    moreover have "\<forall>tok \<in> set (map gc_next (filter (moving rules p) cands)). gc_ok tok" using Suc.prems(3) moving_ok[of _ rules p] by auto
    ultimately have nrej: "set nrej = rejected rules sts (map gc_next (filter (moving rules p) cands))"
      by (intro reject_candidates_each[OF run(2)] Suc.IH) (auto simp: stacks_ok_def)
    have "tok \<in> set rej \<longleftrightarrow> tok \<in> rejected rules [st] cands" for tok
    proof -
      have "tok \<in> set (map (\<lambda>tok. gc_move (gc_at tok - 1) tok) nrej) \<longleftrightarrow>
          tok \<in> set cands \<and> moving rules p tok \<and> (\<forall>q \<in> set sts. \<not> tok_takes rules q (gc_next tok))"
        using nrej by (force simp: image_iff)
      then show ?thesis using tok_takes_top[OF m(1) st'(1) run(1), of tok] Suc.prems(3) run(3) Cons by (auto simp: moving_def)
    qed
    then show ?thesis by blast
  qed
qed simp

subsection \<open>Enough fuel for the rejection\<close>

lemma reject_candidates_settles:
  assumes "sts \<noteq> []" "cands \<noteq> [] \<Longrightarrow> settles (\<lambda>m. run_each (f m) sts cands)"
  shows "settles (\<lambda>m. reject_candidates (f m) sts cands)"
  using assms by (cases "cands = []") (simp_all add: reject_candidates_def)

lemma reject_for_stack_settles:
  assumes c: "guarded rules"
  shows "ready rules st \<Longrightarrow> stack_ok rules st \<Longrightarrow> \<forall>tok \<in> set cands. gc_ok tok \<and> length (gc_rest tok) < d \<Longrightarrow> 0 < d \<Longrightarrow>
    settles (\<lambda>m. reject_for_stack d m rules st cands)"
proof (induction d arbitrary: st cands)
  case (Suc d)
  have ok: "rules_ok rules" using c by (simp add: guarded_def)
  show ?case
  proof (cases st)
    case Nil
    have "gc_point tok = Some (hd (gc_rest tok @ [0]))" if "tok \<in> set cands" for tok using gc_point_ok[of tok] Suc.prems(3) that by auto
    then have "map_opt gc_point cands = Some (map (\<lambda>tok. hd (gc_rest tok @ [0])) cands)" by (rule map_opt_total)
    then show ?thesis using Nil by (simp add: reject_at_end_def)
  next
    case (Cons p st1)
    obtain e where e: "elem_at rules p = Some e" "is_char e" using Suc.prems(1) Cons by (auto simp: ready_def)
    obtain p' f0 where m: "pos_ok rules p'" "match_char rules p 0 = Some (f0, p')" using match_char_ok[OF ok e] by blast
    obtain st' where st': "push_pos rules p' st1 = Some st'" "stack_ok rules st'" using push_pos_ok[OF m(1)] Suc.prems(2) Cons by auto
    define nxt where "nxt = map gc_next (filter (moving rules p) cands)"
    have nxt: "\<forall>tok \<in> set nxt. gc_ok tok \<and> length (gc_rest tok) < d" using Suc.prems(3) moving_ok[of _ rules p] by (fastforce simp: nxt_def)
    have rec: "settles (\<lambda>m. reject_candidates (reject_for_stack d m rules) sts nxt)" if sts: "stacks_ok rules sts" "sts \<noteq> []" for sts
    proof (rule reject_candidates_settles[OF sts(2)], rule settles_each_inv[where I = "\<lambda>cs. set cs \<subseteq> set nxt"])
      assume "nxt \<noteq> []"
      then have d: "0 < d" using nxt by (cases nxt) auto
      show "settles (\<lambda>m. reject_for_stack d m rules st cs)" if "st \<in> set sts" "set cs \<subseteq> set nxt" for st cs
        by (rule Suc.IH) (use that sts(1) nxt d in \<open>auto simp: stacks_ok_def\<close>)
      show "set cs' \<subseteq> set nxt" if "st \<in> set sts" "set cs \<subseteq> set nxt" "reject_for_stack d m rules st cs = Return cs'" for m st cs cs'
        using reject_for_stack_takes[OF ok _ _ _ that(3)] that(1,2) sts(1) nxt by (auto simp: stacks_ok_def)
    qed simp
    have "settles (\<lambda>m. run_bind (advance_stack m rules st' []) (\<lambda>sts. run_bind (reject_candidates (reject_for_stack d m rules) sts nxt)
        (\<lambda>rej. Return (filter (\<lambda>tok. \<not> first_ok rules p tok) cands @ map (\<lambda>tok. gc_move (gc_at tok - 1) tok) rej))))"
    proof (rule settles_bind_inv[OF guarded_settles[OF c st'(2)]], rule settles_bind)
      fix n sts assume "\<forall>m \<ge> n. advance_stack m rules st' [] = Return sts"
      then have a: "advance_stack n rules st' [] = Return sts" by simp
      show "settles (\<lambda>m. reject_candidates (reject_for_stack d m rules) sts nxt)"
        using rec advance_stack_lang[OF ok st'(2) a] advances_stacks_ok advance_nonempty[OF ok st'(2) a] by blast
    qed simp
    then show ?thesis using classify_all[OF ok e, of cands "[]" "[]"] Suc.prems(3) Cons m(2) st'(1) by (simp add: nxt_def)
  qed
qed simp

subsection \<open>Reachable states of a grammar\<close>

definition gr_ok :: "llama_grammar \<Rightarrow> bool" where
  "gr_ok g \<longleftrightarrow> rules_ok (gr_rules g) \<and> stacks_ok (gr_rules g) (gr_stacks g) \<and> gr_stacks g \<noteq> []"

text \<open>A grammar after initialisation on well-formed rules and after each token it has accepted.\<close>

inductive gr_reach :: "ollama_vocab \<Rightarrow> (bytes \<Rightarrow> nat option) list \<Rightarrow> llama_grammar \<Rightarrow> bool" for vocab patterns where
  init: "rules_ok rules \<Longrightarrow> grammar_init fuel rules start lazy tokens = Return (Some g) \<Longrightarrow> gr_reach vocab patterns g"
| accept: "gr_reach vocab patterns g \<Longrightarrow> accept_impl fuel vocab patterns token g = Return (True, g') \<Longrightarrow> gr_reach vocab patterns g'"

lemma copy_rule_ok:
  assumes "rule_ok n rule"
  shows "copy_rule rule = Some (butlast rule @ [gelem GRE_END 0]) \<and> rule_ok n (butlast rule @ [gelem GRE_END 0])"
proof
  have c: "\<forall>e \<in> set es. ge_type e \<noteq> GRE_END \<Longrightarrow> ge_type e = GRE_END \<Longrightarrow> copy_rule (es @ [e]) = Some (es @ [gelem GRE_END 0])" for es e
    by (induction es) auto
  have r: "rule = butlast rule @ [last rule]" using assms by (simp add: rule_ok_def)
  show "copy_rule rule = Some (butlast rule @ [gelem GRE_END 0])" using c[of "butlast rule" "last rule"] assms r by (simp add: rule_ok_def)
  have "successively chained (butlast rule @ [last rule])" using assms r by (simp add: rule_ok_def)
  then have "successively chained (butlast rule @ [gelem GRE_END 0])"
    by (auto simp: successively_append_iff chained_def gelem_def)
  moreover have "\<not> inner (hd (butlast rule @ [gelem GRE_END 0]))"
    using assms by (cases rule) (auto simp: rule_ok_def inner_def gelem_def)
  moreover have "\<forall>e \<in> set (butlast rule @ [gelem GRE_END 0]). ge_type e = GRE_RULE_REF \<longrightarrow> unat (ge_value e) < n"
    using assms by (auto simp: rule_ok_def gelem_def dest: in_set_butlastD)
  ultimately show "rule_ok n (butlast rule @ [gelem GRE_END 0])" using assms by (simp add: rule_ok_def gelem_def)
qed

lemma copied_rules_ok:
  assumes "rules_ok rules" "map_opt copy_rule rules = Some rules'"
  shows "rules_ok rules'"
proof -
  have "map_opt copy_rule rules = Some (map (\<lambda>rule. butlast rule @ [gelem GRE_END 0]) rules)"
    by (rule map_opt_total) (use assms(1) copy_rule_ok in \<open>auto simp: rules_ok_def\<close>)
  then have "rules' = map (\<lambda>rule. butlast rule @ [gelem GRE_END 0]) rules" using assms(2) by simp
  then show ?thesis using assms(1) copy_rule_ok by (auto simp: rules_ok_def)
qed

lemma initial_nonempty:
  assumes ok: "rules_ok rules" and i: "initial_stacks fuel rules start = Return sts"
  shows "sts \<noteq> []"
proof -
  obtain rule subs where r: "vec_at rules start = Some rule" "alt_starts rule = Some subs"
      and run: "run_each (\<lambda>sub stacks. opt_run (push_pos rules (start, sub) []) (\<lambda>stack. advance_stack fuel rules stack stacks)) subs [] = Return sts"
    using i by (auto simp: initial_stacks_def opt_run_Return)
  have s: "start < length rules" "rule = rules ! start" using r(1) by (auto simp: vec_at_Some_iff)
  have subs: "0 \<in> set subs" "\<forall>s \<in> set subs. pos_ok rules (start, s)" using alt_starts_ok[OF ok s(1)] r(2) s(2) by auto
  have "subs \<noteq> [] \<longrightarrow> sts \<noteq> []"
  proof (rule run_each_Return_inv[OF run, where I = "\<lambda>ys s. ys \<noteq> [] \<longrightarrow> s \<noteq> []"])
    fix ys s ns ns' assume "s \<in> set subs" and a: "opt_run (push_pos rules (start, s) []) (\<lambda>stack. advance_stack fuel rules stack ns) = Return ns'"
    then obtain st where "push_pos rules (start, s) [] = Some st" "stack_ok rules st" using push_pos_ok[of rules "(start, s)" "[]"] subs(2) by auto
    then show "ys @ [s] \<noteq> [] \<longrightarrow> ns' \<noteq> []" using advance_nonempty[OF ok] a by auto
  qed simp
  then show ?thesis using subs(1) by auto
qed

lemma grammar_init_gr_ok:
  assumes "rules_ok rules" "grammar_init fuel rules start lazy tokens = Return (Some g)"
  shows "gr_ok g"
proof -
  have r: "map_opt copy_rule rules = Some (gr_rules g)" "initial_stacks fuel (gr_rules g) start = Return (gr_stacks g)"
    using assms(2) by (auto simp: grammar_init_def opt_run_Return run_bind_Return split: if_splits)
  note ok = copied_rules_ok[OF assms(1) r(1)]
  show ?thesis using ok initial_stacks_lang(1)[OF ok r(2)] initial_nonempty[OF ok r(2)] by (simp add: gr_ok_def)
qed

lemma accept_str_gr_ok:
  assumes "gr_ok g" "accept_str fuel piece g = Return (True, g')"
  shows "gr_ok g'"
proof -
  obtain cps pu where d: "decode_utf8 piece (gr_partial g) = (cps, pu)" by (cases "decode_utf8 piece (gr_partial g)")
  obtain sts where s: "run_each (\<lambda>c stacks. grammar_accept fuel (gr_rules g) stacks c) (butlast cps) (gr_stacks g) = Return sts"
      "sts \<noteq> []" "g' = g\<lparr>gr_stacks := sts, gr_partial := pu\<rparr>" using assms(2) d by (auto simp: accept_str_def run_bind_Return)
  then show ?thesis using accepts_lang[OF _ _ s(1)] assms(1) by (auto simp: gr_ok_def)
qed

lemma accept_impl_gr_ok:
  assumes "gr_ok g" "accept_impl fuel vocab patterns token g = Return (True, g')"
  shows "gr_ok g'"
proof -
  have w: "gr_ok (g\<lparr>gr_awaiting_trigger := False, gr_trigger_buffer := []\<rparr>)" "gr_ok (g\<lparr>gr_trigger_buffer := b\<rparr>)" for b
    using assms(1) by (simp_all add: gr_ok_def)
  show ?thesis using assms(2) accept_str_gr_ok[OF w(1)] accept_str_gr_ok[OF assms(1)] w(2) assms(1)
    by (auto simp: accept_impl_def Let_def split: option.splits if_splits list.splits)
qed

lemma gr_reach_ok: "gr_reach vocab patterns g \<Longrightarrow> gr_ok g"
  by (induction rule: gr_reach.induct) (auto intro: grammar_init_gr_ok accept_impl_gr_ok)

subsection \<open>Mask and acceptance\<close>

lemma dec_loop_last: "fst (dec_loop bs w n cps) \<noteq> [] \<and> last (fst (dec_loop bs w n cps)) = 0"
  by (induction bs w n cps rule: dec_loop.induct) (auto simp: Let_def split: prod.splits)

lemma decode_utf8_last: "decode_utf8 piece pu = (cps, pu') \<Longrightarrow> cps \<noteq> [] \<and> last cps = 0"
  by (auto simp: decode_utf8_def split: option.splits prod.splits if_splits) (metis dec_loop_last fst_conv)+

lemma candidates_of_set:
  "set (candidates_of pu vs) = {tok. gc_at tok = 0 \<and> gc_index tok < length vs \<and>
     (\<exists>piece. vs ! gc_index tok = Candidate piece \<and> decode_utf8 piece pu = (gc_cps tok, gc_partial tok)) \<and> grammar_candidate.more tok = ()}"
  by (auto simp: candidates_of_def split: token_verdict.splits prod.splits intro!: grammar_candidate.equality) metis

lemma cands_depth_bound: "tok \<in> set cands \<Longrightarrow> length (gc_cps tok) < cands_depth cands"
  unfolding cands_depth_def by (induction cands) auto

text \<open>Whether a token is accepted, and the state after it.\<close>

definition accepted :: "nat \<Rightarrow> ollama_vocab \<Rightarrow> (bytes \<Rightarrow> nat option) list \<Rightarrow> 32 word \<Rightarrow> llama_grammar \<Rightarrow> bool" where
  "accepted fuel vocab patterns token g \<longleftrightarrow> (\<exists>g'. accept_impl fuel vocab patterns token g = Return (True, g'))"

lemma accepted_takes:
  assumes g: "gr_ok g" "\<not> gr_awaiting_trigger g" and lr: "left_rec_free (gr_rules g)" and t: "ov_token_to_piece vocab t = Some piece" "\<not> ov_is_eog vocab t"
    and d: "decode_utf8 piece (gr_partial g) = (cps, pu)"
  shows "\<exists>n. \<forall>m \<ge> n. \<exists>g'. accept_impl m vocab patterns t g = Return (gr_stacks g' \<noteq> [], g') \<and>
    (\<forall>pu. (\<exists>st \<in> set (gr_stacks g'). takes (gr_rules g) st [] pu) \<longleftrightarrow> (\<exists>st \<in> set (gr_stacks g). takes (gr_rules g) st (butlast cps) pu))"
proof -
  have "settles (\<lambda>m. run_each (\<lambda>c sts. grammar_accept m (gr_rules g) sts c) (butlast cps) (gr_stacks g))"
    using g(1) lr by (intro accepts_settles) (auto simp: gr_ok_def guarded_def)
  then obtain n sts where n: "\<forall>m \<ge> n. run_each (\<lambda>c sts. grammar_accept m (gr_rules g) sts c) (butlast cps) (gr_stacks g) = Return sts"
    by (rule settlesE)
  have "accept_impl m vocab patterns t g = Return (sts \<noteq> [], g\<lparr>gr_stacks := sts, gr_partial := pu\<rparr>)" if "n \<le> m" for m
    using n that g(2) t d by (simp add: accept_impl_def accept_str_def)
  moreover have "(\<exists>st \<in> set sts. takes (gr_rules g) st [] pu) \<longleftrightarrow> (\<exists>st \<in> set (gr_stacks g). takes (gr_rules g) st (butlast cps) pu)" for pu
    using accepts_takes[of n] n by blast
  ultimately show ?thesis by (intro exI[of _ n] allI impI exI[of _ "g\<lparr>gr_stacks := sts, gr_partial := pu\<rparr>"]) auto
qed

lemma takeWhile_butlast: "xs \<noteq> [] \<Longrightarrow> last xs = a \<Longrightarrow> a \<notin> set (butlast xs) \<Longrightarrow> takeWhile (\<lambda>x. x \<noteq> a) xs = butlast xs"
  by (induction xs) (auto split: if_splits)

text \<open>Whether the mask keeps a token.\<close>

definition kept_of :: "llama_grammar \<Rightarrow> token_verdict \<Rightarrow> bool" where
  "kept_of g v \<longleftrightarrow> (case v of Mask \<Rightarrow> False | Keep \<Rightarrow> True | Candidate piece \<Rightarrow>
     (case decode_utf8 piece (gr_partial g) of (cps, pu) \<Rightarrow> \<exists>st \<in> set (gr_stacks g). takes (gr_rules g) st (takeWhile (\<lambda>c. c \<noteq> 0) cps) pu))"

lemma apply_mask:
  assumes g: "gr_ok g" "\<not> gr_awaiting_trigger g" and lr: "left_rec_free (gr_rules g)" and v: "map_opt (token_verdict_of vocab ([] \<in> set (gr_stacks g))) (map fst cur) = Some vs"
  shows "\<exists>n. \<forall>m \<ge> n. \<exists>cur'. apply_impl m vocab neg_inf g cur = Return (Some cur') \<and> length cur' = length cur \<and>
    (\<forall>i < length cur. cur' ! i = (fst (cur ! i), if kept_of g (vs ! i) then snd (cur ! i) else neg_inf))"
proof -
  let ?rules = "gr_rules g" and ?sts = "gr_stacks g"
  define cands where "cands = candidates_of (gr_partial g) vs"
  have ok: "guarded ?rules" "rules_ok ?rules" "stacks_ok ?rules ?sts" "?sts \<noteq> []" using g(1) lr by (auto simp: gr_ok_def guarded_def)
  have len: "length vs = length cur" using map_opt_Some[OF v] by simp
  have cok: "gc_ok tok \<and> length (gc_rest tok) < cands_depth cands" if "tok \<in> set cands" for tok
  proof -
    have "gc_at tok = 0" "gc_cps tok \<noteq> [] \<and> last (gc_cps tok) = 0" using that decode_utf8_last by (fastforce simp: cands_def candidates_of_set)+
    moreover have "length (gc_rest tok) \<le> length (gc_cps tok)" unfolding gc_rest_def by (metis length_drop diff_le_self length_takeWhile_le le_trans)
    ultimately show ?thesis using cands_depth_bound[OF that] by (simp add: gc_ok_def)
  qed
  have each: "set rej = rejected ?rules [st] cs" if "st \<in> set ?sts" "set cs \<subseteq> set cands" "reject_for_stack (cands_depth cands) m ?rules st cs = Return rej" for m st cs rej
    using reject_for_stack_takes[OF ok(2) _ _ _ that(3)] that(1,2) ok(3) cok by (auto simp: stacks_ok_def)
  have "settles (\<lambda>m. reject_candidates (reject_for_stack (cands_depth cands) m ?rules) ?sts cands)"
  proof (rule reject_candidates_settles[OF ok(4)], rule settles_each_inv[where I = "\<lambda>cs. set cs \<subseteq> set cands"])
    show "settles (\<lambda>m. reject_for_stack (cands_depth cands) m ?rules st cs)" if "st \<in> set ?sts" "set cs \<subseteq> set cands" for st cs
      by (rule reject_for_stack_settles[OF ok(1)]) (use that ok(3) cok in \<open>auto simp: stacks_ok_def cands_depth_def\<close>)
    show "set cs' \<subseteq> set cands" if "st \<in> set ?sts" "set cs \<subseteq> set cands" "reject_for_stack (cands_depth cands) m ?rules st cs = Return cs'" for m st cs cs'
      using each[OF that] that(2) by auto
  qed simp
  then obtain n rej where n: "\<forall>m \<ge> n. reject_candidates (reject_for_stack (cands_depth cands) m ?rules) ?sts cands = Return rej" by (rule settlesE)
  then have "reject_candidates (reject_for_stack (cands_depth cands) n ?rules) ?sts cands = Return rej" by simp
  then have rej: "set rej = rejected ?rules ?sts cands" by (rule reject_candidates_each) (rule each)
  let ?masked = "\<lambda>i. \<exists>piece cps pu. vs ! i = Candidate piece \<and> decode_utf8 piece (gr_partial g) = (cps, pu) \<and>
     (\<forall>st \<in> set ?sts. \<not> takes ?rules st (takeWhile (\<lambda>c. c \<noteq> 0) cps) pu)"
  have idx: "i \<in> gc_index ` set rej \<longleftrightarrow> ?masked i" if "i < length cur" for i
  proof
    assume "i \<in> gc_index ` set rej"
    then show "?masked i" using rej by (auto simp: cands_def candidates_of_set gc_rest_def)
  next
    assume "?masked i"
    then obtain piece cps pu where c: "vs ! i = Candidate piece" "decode_utf8 piece (gr_partial g) = (cps, pu)"
      "\<forall>st \<in> set ?sts. \<not> takes ?rules st (takeWhile (\<lambda>c. c \<noteq> 0) cps) pu" by blast
    then have "\<lparr>gc_index = i, gc_cps = cps, gc_at = 0, gc_partial = pu\<rparr> \<in> set rej" using rej that len by (auto simp: cands_def candidates_of_set gc_rest_def)
    then show "i \<in> gc_index ` set rej" by force
  qed
  have kept: "kept_of g (vs ! i) \<longleftrightarrow> \<not> (vs ! i = Mask \<or> ?masked i)" for i by (auto simp: kept_of_def split: token_verdict.splits prod.splits)
  have "\<exists>cur'. apply_impl m vocab neg_inf g cur = Return (Some cur') \<and> length cur' = length cur \<and>
      (\<forall>i < length cur. cur' ! i = (fst (cur ! i), if kept_of g (vs ! i) then snd (cur ! i) else neg_inf))" if "n \<le> m" for m
    using n that v g(2) idx unfolding kept by (auto simp: apply_impl_def Let_def cands_def)
  then show ?thesis by blast
qed

lemma enough_for_all:
  assumes "\<forall>i < (k::nat). \<exists>n::nat. \<forall>m \<ge> n. P i m"
  shows "\<exists>n. \<forall>m \<ge> n. \<forall>i < k. P i m"
proof -
  have "\<exists>n. \<forall>m \<ge> n. \<forall>i \<in> {..<k}. P i m"
    using eventually_ball_finite[of "{..<k}" "\<lambda>m i. P i m" sequentially] assms unfolding eventually_sequentially by (metis finite_lessThan lessThan_iff)
  then show ?thesis unfolding Ball_def lessThan_iff by blast
qed

text \<open>The verdict on one token, for the fuel at hand.\<close>

definition agrees :: "nat \<Rightarrow> ollama_vocab \<Rightarrow> (bytes \<Rightarrow> nat option) list \<Rightarrow> llama_grammar \<Rightarrow> 32 word \<Rightarrow> bool \<Rightarrow> bool" where
  "agrees m vocab patterns g t kept \<longleftrightarrow> (\<forall>piece cps pu. ov_token_to_piece vocab t = Some piece \<longrightarrow>
     (ov_is_eog vocab t \<longrightarrow> (kept \<longleftrightarrow> accepted m vocab patterns t g)) \<and>
     (\<not> ov_is_eog vocab t \<longrightarrow> decode_utf8 piece (gr_partial g) = (cps, pu) \<longrightarrow> 0 \<notin> set (butlast cps) \<longrightarrow>
       (kept \<longrightarrow> accepted m vocab patterns t g) \<and>
       (accepted m vocab patterns t g \<longrightarrow> piece \<noteq> [] \<longrightarrow> hd piece \<noteq> 0 \<longrightarrow> pu_n_remain pu = 0 \<longrightarrow> kept)))"

lemma token_agrees:
  assumes g: "gr_ok g" "\<not> gr_awaiting_trigger g" and lr: "left_rec_free (gr_rules g)" and v: "token_verdict_of vocab ([] \<in> set (gr_stacks g)) t = Some v"
  shows "\<exists>n. \<forall>m \<ge> n. agrees m vocab patterns g t (kept_of g v)"
proof -
  obtain piece where p: "ov_token_to_piece vocab t = Some piece" using v by (auto simp: token_verdict_of_def)
  show ?thesis
  proof (cases "ov_is_eog vocab t")
    case True
    then show ?thesis using p v g(2) by (auto simp: token_verdict_of_def agrees_def accepted_def accept_impl_def kept_of_def)
  next
    case False
    obtain cps pu where d: "decode_utf8 piece (gr_partial g) = (cps, pu)" by (cases "decode_utf8 piece (gr_partial g)")
    obtain n where n: "\<forall>m \<ge> n. \<exists>g'. accept_impl m vocab patterns t g = Return (gr_stacks g' \<noteq> [], g') \<and>
        (\<forall>pu. (\<exists>st \<in> set (gr_stacks g'). takes (gr_rules g) st [] pu) \<longleftrightarrow> (\<exists>st \<in> set (gr_stacks g). takes (gr_rules g) st (butlast cps) pu))"
      using accepted_takes[OF g lr p False d] by blast
    have "agrees m vocab patterns g t (kept_of g v)" if "n \<le> m" for m
    proof -
      obtain g' where g': "accept_impl m vocab patterns t g = Return (gr_stacks g' \<noteq> [], g')"
          "\<forall>pu. (\<exists>st \<in> set (gr_stacks g'). takes (gr_rules g) st [] pu) \<longleftrightarrow> (\<exists>st \<in> set (gr_stacks g). takes (gr_rules g) st (butlast cps) pu)"
        using n \<open>n \<le> m\<close> by blast
      have a: "accepted m vocab patterns t g \<longleftrightarrow> gr_stacks g' \<noteq> []" using g'(1) by (auto simp: accepted_def)
      have nz: "takeWhile (\<lambda>c. c \<noteq> 0) cps = butlast cps" if "0 \<notin> set (butlast cps)"
        using takeWhile_butlast[of cps 0] decode_utf8_last[OF d] that by simp
      have whole: "gr_stacks g' \<noteq> [] \<longleftrightarrow> (\<exists>st \<in> set (gr_stacks g'). takes (gr_rules g) st [] pu)" if "pu_n_remain pu = 0"
        using that by (cases "gr_stacks g'") (auto simp: takes_end)
      show ?thesis
      proof (cases "piece = [] \<or> hd piece = 0")
        case True
        then have "v = Mask" using p False v by (simp add: token_verdict_of_def)
        then show ?thesis using True p False by (auto simp: agrees_def kept_of_def)
      next
        case cand: False
        let ?k = "\<exists>st \<in> set (gr_stacks g). takes (gr_rules g) st (takeWhile (\<lambda>c. c \<noteq> 0) cps) pu"
        have kept: "kept_of g v \<longleftrightarrow> ?k" using cand p False v d by (auto simp: token_verdict_of_def kept_of_def)
        have 1: "?k \<longrightarrow> gr_stacks g' \<noteq> []" if "0 \<notin> set (butlast cps)" using g'(2)[rule_format, of pu] nz[OF that] by auto
        have 2: "gr_stacks g' \<noteq> [] \<longrightarrow> ?k" if "0 \<notin> set (butlast cps)" "pu_n_remain pu = 0"
          unfolding whole[OF that(2)] g'(2)[rule_format, of pu] nz[OF that(1)] by blast
        show ?thesis unfolding agrees_def kept a using p False d 1 2 by simp
      qed
    qed
    then show ?thesis by blast
  qed
qed

text \<open>
  C3. The mask agrees with acceptance. Take a state that a well-formed grammar reaches after initialisation and accepted tokens,
  in which it is active, and candidates with known pieces; and let no rule of the grammar start with itself behind rules that
  derive the empty word (\<open>left_rec_free\<close>: the check of initialisation does not rule out every such grammar, see \<open>hidden_left_recursion\<close>, and on the
  others the recursion may not end). Then \<^verbatim>\<open>llama_grammar_apply_impl\<close> returns with enough depth of recursion and changes
  logits to minus infinity only. An end of
  generation token keeps its logit exactly when it is accepted; any other token that keeps its logit is accepted, that is
  \<^verbatim>\<open>llama_grammar_accept_impl\<close> does not throw, and one that ends in a complete character and is not accepted is masked. The
  last two say nothing of pieces that decode to a code point 0 before their end, by an overlong encoding: it ends a candidate.
\<close>

theorem mask_agrees_with_accept:
  assumes "gr_reach vocab patterns g" "left_rec_free (gr_rules g)" "\<not> gr_awaiting_trigger g" "\<forall>(t, l) \<in> set cur. ov_token_to_piece vocab t \<noteq> None"
  shows "\<exists>n. \<forall>m \<ge> n. \<exists>cur'. apply_impl m vocab neg_inf g cur = Return (Some cur') \<and> length cur' = length cur \<and>
    (\<forall>i < length cur. \<exists>kept. cur' ! i = (fst (cur ! i), if kept then snd (cur ! i) else neg_inf) \<and> agrees m vocab patterns g (fst (cur ! i)) kept)"
proof -
  note ok = gr_reach_ok[OF assms(1)]
  define vs where "vs = map (\<lambda>x. the (token_verdict_of vocab ([] \<in> set (gr_stacks g)) (fst x))) cur"
  have "token_verdict_of vocab ([] \<in> set (gr_stacks g)) (fst x) \<noteq> None" if "x \<in> set cur" for x using assms(4) that by (auto simp: token_verdict_of_def)
  then have v: "map_opt (token_verdict_of vocab ([] \<in> set (gr_stacks g))) (map fst cur) = Some vs"
    unfolding map_opt_map vs_def by (intro map_opt_total) simp
  have "\<forall>i < length cur. \<exists>n. \<forall>m \<ge> n. agrees m vocab patterns g (fst (cur ! i)) (kept_of g (vs ! i))"
    using token_agrees[OF ok assms(3,2)] map_opt_Some[OF v] by simp
  from enough_for_all[OF this] obtain n where n: "\<forall>m \<ge> n. \<forall>i < length cur. agrees m vocab patterns g (fst (cur ! i)) (kept_of g (vs ! i))" by blast
  obtain k where k: "\<forall>m \<ge> k. \<exists>cur'. apply_impl m vocab neg_inf g cur = Return (Some cur') \<and> length cur' = length cur \<and>
      (\<forall>i < length cur. cur' ! i = (fst (cur ! i), if kept_of g (vs ! i) then snd (cur ! i) else neg_inf))"
    using apply_mask[OF ok assms(3,2) v] by blast
  have "\<exists>cur'. apply_impl m vocab neg_inf g cur = Return (Some cur') \<and> length cur' = length cur \<and>
    (\<forall>i < length cur. \<exists>kept. cur' ! i = (fst (cur ! i), if kept then snd (cur ! i) else neg_inf) \<and> agrees m vocab patterns g (fst (cur ! i)) kept)"
    if "max n k \<le> m" for m using n k that by (meson max.boundedE)
  then show ?thesis by blast
qed

definition demo_vocab :: ollama_vocab where
  "demo_vocab = ov_set_eog_tokens [3] (ov_add_token_pieces [(1, [32, 97]), (2, [32, 98]), (3, [60])] \<lparr>ov_pieces = Map.empty, ov_eog_ids = {}\<rparr>)"

text \<open>\<^verbatim>\<open>root ::= ws "a"\<close>, \<^verbatim>\<open>ws ::= [ ]*\<close>: the rule \<open>ws\<close> derives the empty word without an empty alternate.\<close>

definition ws_grammar :: grammar_rules where
  "ws_grammar = [[gelem GRE_RULE_REF 1, gelem GRE_CHAR 97, gelem GRE_END 0], [gelem GRE_RULE_REF 2, gelem GRE_END 0],
     [gelem GRE_CHAR 32, gelem GRE_RULE_REF 2, gelem GRE_ALT 0, gelem GRE_END 0]]"

lemma ws_grammar_ok: "rules_ok ws_grammar" "\<not> plain_empty ws_grammar" "left_rec_free ws_grammar"
proof -
  note unf = ws_grammar_def gelem_def is_end_of_sequence_def
  show "rules_ok ws_grammar" by (simp add: unf rules_ok_def rule_ok_def inner_def chained_def)
  show "\<not> plain_empty ws_grammar"
    unfolding plain_empty_def emp_closed_def not_all
    by (rule exI[of _ 1]) (simp add: unf direct_empty_def alt_starts_def)
  show "left_rec_free ws_grammar"
  proof (rule left_rec_freeI[of "\<lambda>r. r \<noteq> 0"])
    show "emp_closed (\<lambda>r. r \<noteq> 0) ws_grammar"
      by (auto simp: unf emp_closed_def alt_starts_def less_Suc_eq)
    have up: "t = Suc r \<and> t < 3" if "starts_with (\<lambda>r. r \<noteq> 0) ws_grammar r t" for t r
      using that by (auto simp: unf starts_with_def next_flag_def less_Suc_eq)
    have acc: "3 - r < n \<Longrightarrow> Wellfounded.accp (\<lambda>t r. starts_with (\<lambda>r. r \<noteq> 0) ws_grammar r t) r" for n r
    proof (induction n arbitrary: r)
      case (Suc n)
      show ?case by (rule accp.accI) (use Suc up in fastforce)
    qed simp
    then show "\<forall>r < length ws_grammar. Wellfounded.accp (\<lambda>t r. starts_with (\<lambda>r. r \<noteq> 0) ws_grammar r t) r" by blast
  qed
qed

definition demo_gr :: llama_grammar where
  "demo_gr = \<lparr>gr_rules = ws_grammar, gr_stacks = [[(2, 0), (0, 1)], [(0, 1)]], gr_partial = \<lparr>pu_value = 0, pu_n_remain = 0\<rparr>, gr_lazy = False,
     gr_awaiting_trigger = False, gr_trigger_buffer = [], gr_trigger_tokens = []\<rparr>"

lemma demo_gr_reach: "gr_reach vocab patterns demo_gr"
proof (rule gr_reach.init)
  show "rules_ok ws_grammar" by (rule ws_grammar_ok)
  have "initial_stacks 5 ws_grammar 0 = Return [[(2, 0), (0, 1)], [(0, 1)]]"
    by code_simp
  moreover have "map_opt copy_rule ws_grammar = Some ws_grammar" by (simp add: ws_grammar_def gelem_def)
  moreover have "left_recursive ws_grammar = Return False"
    by code_simp
  ultimately show "grammar_init 5 ws_grammar 0 False [] = Return (Some demo_gr)"
    by (simp add: grammar_init_def demo_gr_def)
qed

lemma demo_decode: "decode_utf8 [32, b] \<lparr>pu_value = 0, pu_n_remain = 0\<rparr> = ([32, ucast b, 0], \<lparr>pu_value = ucast b, pu_n_remain = 0\<rparr>)" if "b \<in> {97, 98}"
  using that by (auto simp: decode_utf8_def utf8_len_strict_def Let_def)

lemma demo_accepted:
  "accepted (Suc (Suc (Suc m))) demo_vocab [] 1 demo_gr" "\<not> accepted (Suc (Suc (Suc m))) demo_vocab [] 2 demo_gr" "\<not> accepted m demo_vocab [] 3 demo_gr"
proof -
  note v = ov_token_to_piece_def demo_vocab_def ov_set_eog_tokens_def ov_add_token_pieces_def ov_is_eog_def
  note u = ws_grammar_def grammar_accept_def accept_stack_def match_char_def alt_starts_def gelem_def push_pos_def elem_at_def
        is_end_of_sequence_def is_positive_char_def add_stack_def next_pos_def vec_at_def
  have sp: "grammar_accept (Suc (Suc (Suc m))) ws_grammar [[(2, 0), (0, 1)], [(0, 1)]] 32 = Return [[(2, 0), (0, 1)], [(0, 1)]]" by (simp add: u)
  have a: "grammar_accept (Suc (Suc (Suc m))) ws_grammar [[(2, 0), (0, 1)], [(0, 1)]] 97 = Return [[]]" by (simp add: u)
  have b: "grammar_accept (Suc (Suc (Suc m))) ws_grammar [[(2, 0), (0, 1)], [(0, 1)]] 98 = Return []" by (simp add: u)
  show "accepted (Suc (Suc (Suc m))) demo_vocab [] 1 demo_gr" "\<not> accepted (Suc (Suc (Suc m))) demo_vocab [] 2 demo_gr"
    using sp a b demo_decode by (simp_all add: accepted_def accept_impl_def accept_str_def v demo_gr_def)
  show "\<not> accepted m demo_vocab [] 3 demo_gr" by (simp add: accepted_def accept_impl_def v demo_gr_def)
qed

theorem mask_agrees_with_accept_witness:
  "\<exists>n. \<forall>m \<ge> n. apply_impl m demo_vocab (0::nat) demo_gr [(1, 5), (2, 6), (3, 7)] = Return (Some [(1, 5), (2, 0), (3, 0)])"
proof -
  note v = ov_token_to_piece_def demo_vocab_def ov_set_eog_tokens_def ov_add_token_pieces_def ov_is_eog_def
  let ?cur = "[(1, 5), (2, 6), (3, 7)] :: (32 word \<times> nat) list"
  have known: "\<forall>(t, l) \<in> set ?cur. ov_token_to_piece demo_vocab t \<noteq> None" by (simp add: v)
  have free: "left_rec_free (gr_rules demo_gr)" using ws_grammar_ok(3) by (simp add: demo_gr_def)
  have act: "\<not> gr_awaiting_trigger demo_gr" by (simp add: demo_gr_def)
  obtain n where n: "\<forall>m \<ge> n. \<exists>cur'. apply_impl m demo_vocab 0 demo_gr ?cur = Return (Some cur') \<and> length cur' = length ?cur \<and>
      (\<forall>i < length ?cur. \<exists>kept. cur' ! i = (fst (?cur ! i), if kept then snd (?cur ! i) else 0) \<and> agrees m demo_vocab [] demo_gr (fst (?cur ! i)) kept)"
    using mask_agrees_with_accept[OF demo_gr_reach free act known] by blast
  have "apply_impl m demo_vocab 0 demo_gr ?cur = Return (Some [(1, 5), (2, 0), (3, 0)])" if m: "max n 3 \<le> m" for m
  proof -
    obtain k where k: "m = Suc (Suc (Suc k))" using m by (cases m; cases "m - 1"; cases "m - 2") auto
    obtain cur' where c: "apply_impl m demo_vocab 0 demo_gr ?cur = Return (Some cur')" "length cur' = 3"
        "\<forall>i < 3. \<exists>kept. cur' ! i = (fst (?cur ! i), if kept then snd (?cur ! i) else 0) \<and> agrees m demo_vocab [] demo_gr (fst (?cur ! i)) kept"
      using n m by (auto simp: eval_nat_numeral)
    have kept: "\<not> agrees m demo_vocab [] demo_gr 1 False" "\<not> agrees m demo_vocab [] demo_gr 2 True" "\<not> agrees m demo_vocab [] demo_gr 3 True"
      unfolding agrees_def k using demo_accepted[of k] demo_accepted(3)[of "Suc (Suc (Suc k))"] demo_decode[of 97] demo_decode[of 98] by (auto simp: v demo_gr_def)
    have "cur' ! 0 = (1, 5)" "cur' ! 1 = (2, 0)" "cur' ! 2 = (3, 0)" using c(3)[rule_format, of 0] c(3)[rule_format, of 1] c(3)[rule_format, of 2] kept by (auto split: if_splits)
    then have "cur' = [(1, 5), (2, 0), (3, 0)]" using c(2) by (auto simp: list_eq_iff_nth_eq less_Suc_eq eval_nat_numeral)
    then show ?thesis using c(1) by simp
  qed
  then show ?thesis by blast
qed

end
