(* ===== verification/Grammar_Text.thy ===== *)
theory Grammar_Text
  imports Grammar_Parse_Safe Grammar_Mask
begin

text \<open>
  From a grammar text to the language: what \<^verbatim>\<open>parse\<close> promises about the rules, and that initialisation from a text starts the
  engine on exactly these rules, in a reachable state, with the language of the root rule.
\<close>

text \<open>\<^verbatim>\<open>root ::= [a-b]+ ("c" | root)?\<close>\<close>

definition demo_text :: bytes where
  "demo_text = [114, 111, 111, 116, 32, 58, 58, 61, 32, 91, 97, 45, 98, 93, 43, 32, 40, 34, 99, 34, 32, 124, 32, 114, 111, 111, 116, 41, 63]"

definition demo_parsed :: grammar_parser where
  "demo_parsed = \<lparr>gp_symbol_ids = [(root_name, 0), (root_name @ [95, 49], 1), (root_name @ [95, 50], 2), (root_name @ [95, 51], 3)],
     gp_rules = [[gelem GRE_CHAR 97, gelem GRE_CHAR_RNG_UPPER 98, gelem GRE_RULE_REF 1, gelem GRE_RULE_REF 3, gelem GRE_END 0],
       [gelem GRE_CHAR 97, gelem GRE_CHAR_RNG_UPPER 98, gelem GRE_RULE_REF 1, gelem GRE_ALT 0, gelem GRE_END 0],
       [gelem GRE_CHAR 99, gelem GRE_ALT 0, gelem GRE_RULE_REF 0, gelem GRE_END 0],
       [gelem GRE_RULE_REF 2, gelem GRE_ALT 0, gelem GRE_END 0]]\<rparr>"

lemma demo_parse: "parse_grammar demo_text = Return (Some demo_parsed)"
  by code_simp

text \<open>
  C36. The parser never runs out of the fuel it is given, a recursion as deep as the text is long. It can abort where a 32 bit
  number overflows (\<^verbatim>\<open>max_times - min_times\<close> for one), but not when no repetition \<^verbatim>\<open>{m,n}\<close> that can be read in the text has bounds more than \<open>B\<close> apart and \<open>B\<close>
  times the length of the text is below \<^verbatim>\<open>2^32\<close> (\<open>B = 1\<close> does for a text without braces): then it returns, accepting or
  refusing the text. The rules of a text it accepts are well formed: every rule ends and has no other end, upper bounds and
  alternatives of character classes follow a character of the class, and every reference is the number of a rule; no two
  symbols share a name.
\<close>

theorem parse_grammar_sound:
  "parse_grammar src \<noteq> Fuel_Out \<and>
   (0 < B \<and> int B \<le> INT32_MAX \<and> reps_upto B (takeWhile (\<lambda>c. c \<noteq> 0) src) \<and> B * length src < 2 ^ 32 \<longrightarrow> (\<exists>r. parse_grammar src = Return r)) \<and>
   (\<forall>p. parse_grammar src = Return (Some p) \<longrightarrow> rules_ok (gp_rules p) \<and> distinct (map fst (gp_symbol_ids p)))"
  using parse_grammar_total[of src] parse_grammar_ok[of src] parse_grammar_returns[of B src] by (auto simp: parser_ok_def keys_ok_def)

theorem parse_grammar_sound_witness:
  "parse_grammar demo_text = Return (Some demo_parsed) \<and> rules_ok (gp_rules demo_parsed) \<and> (\<exists>r. parse_grammar (concat (replicate 1000 demo_text)) = Return r)"
proof -
  let ?long = "concat (replicate 1000 demo_text)"
  have "set ?long \<subseteq> set demo_text" by auto
  then have "123 \<notin> set (takeWhile (\<lambda>c. c \<noteq> 0) ?long)" by (auto simp: demo_text_def dest!: set_takeWhileD)
  then have "reps_upto 1 (takeWhile (\<lambda>c. c \<noteq> 0) ?long)" by (rule reps_upto_no_brace)
  moreover have "length demo_text = 29" by (simp add: demo_text_def)
  then have "1 * length ?long < 2 ^ 32" by (simp add: length_concat sum_list_replicate)
  ultimately show ?thesis using parse_grammar_sound[of demo_text 1] parse_grammar_sound[of ?long 1] demo_parse by simp
qed

text \<open>The rules of an accepted text end in the element that the copy of initialisation writes, so the copy is the same.\<close>

lemma parsed_rules_copied:
  assumes "parse_grammar text = Return (Some p)"
  shows "map_opt copy_rule (gp_rules p) = Some (gp_rules p)"
proof -
  have ok: "parser_ok p" "rules_ok (gp_rules p)" using parse_grammar_ok[OF assms] by auto
  have "copy_rule rule = Some rule" if r: "rule \<in> set (gp_rules p)" for rule
  proof -
    have ro: "rule_ok (length (gp_rules p)) rule" using ok(2) r by (simp add: rules_ok_def)
    then obtain b where "rule = b @ [gelem GRE_END 0]" using ok(1) r by (auto simp: parser_ok_def shape_ok_def rule_ok_def)
    then show ?thesis using copy_rule_ok[OF ro] by simp
  qed
  then show ?thesis using map_opt_total[of "gp_rules p" copy_rule "\<lambda>r. r"] by simp
qed

text \<open>
  C37. Initialisation from a text that returns a grammar parsed it, and found the root among its symbols. The rules of the grammar
  are the rules of the parsed text, the grammar is in a state the engine reaches, and its stacks derive exactly the language of
  the root rule of the parsed text. If no rule of the text starts with itself behind rules that derive the empty word, accepting
  any sequence of characters then returns, and leaves the empty stack exactly when the characters are a sentence of the root rule.
\<close>

theorem grammar_text_language:
  assumes "grammar_init_str fuel text root lazy tokens = Return (Some g)"
  shows "\<exists>p start. parse_grammar text = Return (Some p) \<and> map_of (gp_symbol_ids p) root = Some start \<and>
    gr_rules g = gp_rules p \<and> gr_reach vocab patterns g \<and>
    (\<forall>w. stacks_lang (gp_rules p) (gr_stacks g) w \<longleftrightarrow> grammar_lang (gp_rules p) (unat start) w) \<and>
    (left_rec_free (gp_rules p) \<longrightarrow> (\<forall>cs. \<exists>n. \<forall>m \<ge> n. \<exists>sts.
       run_each (\<lambda>c sts. grammar_accept m (gr_rules g) sts c) cs (gr_stacks g) = Return sts \<and>
       ([] \<in> set sts \<longleftrightarrow> grammar_lang (gp_rules p) (unat start) cs)))"
proof -
  obtain r where r0: "parse_grammar text = Return r" using assms by (auto simp: grammar_init_str_def run_bind_Return)
  then obtain p where p0: "r = Some p" using assms by (cases r) (auto simp: grammar_init_str_def)
  obtain start where start: "map_of (gp_symbol_ids p) root = Some start"
    using assms r0 p0 by (cases "map_of (gp_symbol_ids p) root") (auto simp: grammar_init_str_def split: if_splits)
  have p: "parse_grammar text = Return (Some p)" "map_of (gp_symbol_ids p) root = Some start"
      "grammar_init fuel (gp_rules p) (unat start) lazy tokens = Return (Some g)"
    using assms r0 p0 start by (auto simp: grammar_init_str_def split: if_splits)
  have ok: "rules_ok (gp_rules p)" using parse_grammar_ok[OF p(1)] by simp
  have i: "gr_rules g = gp_rules p" "initial_stacks fuel (gp_rules p) (unat start) = Return (gr_stacks g)"
    using p(3) parsed_rules_copied[OF p(1)] by (auto simp: grammar_init_def opt_run_Return run_bind_Return split: if_splits)
  note l = initial_stacks_lang[OF ok i(2)]
  have "\<exists>n. \<forall>m \<ge> n. \<exists>sts. run_each (\<lambda>c sts. grammar_accept m (gp_rules p) sts c) cs (gr_stacks g) = Return sts \<and>
      ([] \<in> set sts \<longleftrightarrow> grammar_lang (gp_rules p) (unat start) cs)" if "left_rec_free (gp_rules p)" for cs
  proof -
    have "guarded (gp_rules p)" using ok that by (simp add: guarded_def)
    from accepts_settles[OF this l(1)] obtain n sts where
      n: "\<forall>m \<ge> n. run_each (\<lambda>c sts. grammar_accept m (gp_rules p) sts c) cs (gr_stacks g) = Return sts" by (rule settlesE)
    then have run: "run_each (\<lambda>c sts. grammar_accept n (gp_rules p) sts c) cs (gr_stacks g) = Return sts" by simp
    have "[] \<in> set sts \<longleftrightarrow> stacks_lang (gp_rules p) sts []"
      using accepts_lang[OF ok l(1) run] ready_empty unfolding stacks_lang_def stacks_ok_def by (metis stack_lang.simps(1))
    also have "\<dots> \<longleftrightarrow> grammar_lang (gp_rules p) (unat start) cs" using accepts_lang[OF ok l(1) run] l(2) by simp
    finally show ?thesis using n by blast
  qed
  then show ?thesis using p(1,2) i l(2) gr_reach.init[OF ok p(3)] by auto
qed

text \<open>\<^verbatim>\<open>root ::= "a"\<close>\<close>

definition a_text :: bytes where
  "a_text = [114, 111, 111, 116, 32, 58, 58, 61, 32, 34, 97, 34]"

definition a_grammar :: llama_grammar where
  "a_grammar = \<lparr>gr_rules = [[gelem GRE_CHAR 97, gelem GRE_END 0]], gr_stacks = [[(0, 0)]], gr_partial = \<lparr>pu_value = 0, pu_n_remain = 0\<rparr>,
     gr_lazy = False, gr_awaiting_trigger = False, gr_trigger_buffer = [], gr_trigger_tokens = []\<rparr>"

lemma a_parse: "parse_grammar a_text = Return (Some \<lparr>gp_symbol_ids = [(root_name, 0)], gp_rules = [[gelem GRE_CHAR 97, gelem GRE_END 0]]\<rparr>)"
  by code_simp

lemma a_init: "grammar_init_str 2 a_text root_name False [] = Return (Some a_grammar)"
  by (simp add: a_parse grammar_init_str_def grammar_init_def gelem_def left_recursive_def lr_init_def is_end_of_sequence_def initial_stacks_def alt_starts_def
      push_pos_def elem_at_def add_stack_def a_grammar_def numeral_eq_Suc Let_def)

theorem grammar_text_language_witness:
  "gr_reach demo_vocab [] a_grammar \<and> (\<forall>w. stacks_lang (gr_rules a_grammar) (gr_stacks a_grammar) w \<longleftrightarrow> grammar_lang (gr_rules a_grammar) 0 w)"
proof -
  obtain p start where p: "parse_grammar a_text = Return (Some p)" "map_of (gp_symbol_ids p) root_name = Some start" "gr_rules a_grammar = gp_rules p"
      "gr_reach demo_vocab [] a_grammar" "\<forall>w. stacks_lang (gp_rules p) (gr_stacks a_grammar) w \<longleftrightarrow> grammar_lang (gp_rules p) (unat start) w"
    using grammar_text_language[OF a_init, of demo_vocab "[]"] by (elim exE conjE) (rule that; assumption)
  have "start = 0" using p(1,2) a_parse by auto
  then show ?thesis using p(3-5) by simp
qed

end
