(* ===== verification/Grammar_Rep.thy ===== *)
theory Grammar_Rep
  imports Grammar_Parse_Ok
begin

text \<open>
  The meaning of what the parser writes: a character class matches the characters of its ranges, and the rules made for a
  repetition \<^verbatim>\<open>S{m,n}\<close> derive the words of \<^verbatim>\<open>S\<close> repeated as often as it says. The language of a list of elements does not depend on
  the rule the list stands in.
\<close>

subsection \<open>Character classes\<close>

fun class_elems :: "llama_gretype \<Rightarrow> (32 word \<times> 32 word option) list \<Rightarrow> grammar_rule" where
  "class_elems t [] = []"
| "class_elems t ((lo, None) # rs) = gelem t lo # class_elems GRE_CHAR_ALT rs"
| "class_elems t ((lo, Some hi) # rs) = gelem t lo # gelem GRE_CHAR_RNG_UPPER hi # class_elems GRE_CHAR_ALT rs"

definition in_ranges :: "(32 word \<times> 32 word option) list \<Rightarrow> 32 word \<Rightarrow> bool" where
  "in_ranges rs c \<longleftrightarrow> (\<exists>(lo, hi) \<in> set rs. case hi of None \<Rightarrow> c = lo | Some hi \<Rightarrow> lo \<le> c \<and> c \<le> hi)"

lemma in_ranges_simps [simp]:
  "in_ranges [] c \<longleftrightarrow> False" "in_ranges ((lo, None) # rs) c \<longleftrightarrow> c = lo \<or> in_ranges rs c"
  "in_ranges ((lo, Some hi) # rs) c \<longleftrightarrow> lo \<le> c \<and> c \<le> hi \<or> in_ranges rs c"
  by (auto simp: in_ranges_def)

lemma gelem_sel [simp]: "ge_type (gelem t v) = t" "ge_value (gelem t v) = v"
  by (simp_all add: gelem_def)

lemma match_loop_ranges:
  assumes "rs \<noteq> []" "t \<in> {GRE_CHAR, GRE_CHAR_NOT, GRE_CHAR_ALT}" "\<not> inner e"
  shows "match_loop (class_elems t rs @ e # es) c found k = Some (found \<or> in_ranges rs c, k + length (class_elems t rs))"
  using assms
proof (induction t rs arbitrary: found k rule: class_elems.induct)
  case (2 t lo rs)
  show ?case
  proof (cases rs)
    case Nil
    then show ?thesis using 2(3,4) by (auto simp: inner_def)
  next
    case (Cons r rs')
    obtain x xs where x: "class_elems GRE_CHAR_ALT rs = x # xs" "ge_type x = GRE_CHAR_ALT" using Cons by (cases r; cases "snd r") auto
    have "match_loop ((x # xs) @ e # es) c (found \<or> lo = c) (k + 1) = Some ((found \<or> lo = c) \<or> in_ranges rs c, k + 1 + length (x # xs))"
      using 2(1)[of "found \<or> lo = c" "k + 1"] Cons 2(4) unfolding x(1) by simp
    then show ?thesis using 2(3) x by (auto simp: Let_def)
  qed
next
  case (3 t lo hi rs)
  show ?case
  proof (cases rs)
    case Nil
    then show ?thesis using 3(3,4) by (auto simp: inner_def)
  next
    case (Cons r rs')
    obtain x xs where x: "class_elems GRE_CHAR_ALT rs = x # xs" "ge_type x = GRE_CHAR_ALT" using Cons by (cases r; cases "snd r") auto
    let ?f = "found \<or> (lo \<le> c \<and> c \<le> hi)"
    have "match_loop ((x # xs) @ e # es) c ?f (k + 2) = Some (?f \<or> in_ranges rs c, k + 2 + length (x # xs))"
      using 3(1)[of ?f "k + 2"] Cons 3(4) unfolding x(1) by simp
    then show ?thesis using 3(3) x by (auto simp: Let_def)
  qed
qed simp

text \<open>
  C38. A character class of the given ranges and single characters, wherever it stands in a rule, matches exactly the characters in
  one of its ranges, or with \<^verbatim>\<open>[^...]\<close> exactly the others, and matching moves behind the class whether it succeeds or not.
\<close>

theorem match_char_ranges:
  assumes "r < length rules" "rules ! r = pre @ class_elems t rs @ e # post" "rs \<noteq> []" "t \<in> {GRE_CHAR, GRE_CHAR_NOT}" "\<not> inner e"
  shows "match_char rules (r, length pre) c = Some (in_ranges rs c = (t = GRE_CHAR), (r, length pre + length (class_elems t rs)))"
proof -
  obtain lo hi rs' where rs: "rs = (lo, hi) # rs'" using assms(3) by (cases rs) auto
  have hd: "class_elems t rs = gelem t lo # tl (class_elems t rs)" using rs by (cases hi) auto
  have "drop (length pre) (rules ! r) = class_elems t rs @ e # post" using assms(2) by simp
  moreover have "length pre < length (rules ! r)" "rules ! r ! length pre = gelem t lo" using assms(2) hd by (auto simp: nth_append) (metis nth_Cons_0 append_Cons nth_append_length)
  moreover have "match_loop (class_elems t rs @ e # post) c False 0 = Some (in_ranges rs c, length (class_elems t rs))"
    using match_loop_ranges[OF assms(3) _ assms(5), of t post c False 0] assms(4) by auto
  ultimately show ?thesis using assms(1,4) by (auto simp: match_char_def is_positive_char_def)
qed

theorem match_char_ranges_witness:
  "match_char [class_elems GRE_CHAR [(97, Some 122), (95, None)] @ [gelem GRE_END 0]] (0, 0) 98 = Some (True, (0, 3))"
  using match_char_ranges[of 0 "[class_elems GRE_CHAR [(97, Some 122), (95, None)] @ [gelem GRE_END 0]]" "[]" GRE_CHAR "[(97, Some 122), (95, None)]" "gelem GRE_END 0" "[]" 98]
  by (simp add: inner_def)

subsection \<open>The language of a list of elements\<close>

inductive list_lang :: "grammar_rules \<Rightarrow> grammar_element list \<Rightarrow> 32 word list \<Rightarrow> bool" for rules where
  finish: "is_end_of_sequence e \<Longrightarrow> list_lang rules (e # es) []"
| char: "is_char e \<Longrightarrow> match_loop (e # es) c False 0 = Some (is_positive_char e, k) \<Longrightarrow> list_lang rules (drop k (e # es)) w \<Longrightarrow> list_lang rules (e # es) (c # w)"
| ref: "ge_type e = GRE_RULE_REF \<Longrightarrow> grammar_lang rules (unat (ge_value e)) u \<Longrightarrow> list_lang rules es w \<Longrightarrow> list_lang rules (e # es) (u @ w)"

lemma match_char_loop:
  assumes "match_char rules (r, i) c = Some (True, p')"
  obtains e es k where "r < length rules" "drop i (rules ! r) = e # es" "is_char e" "match_loop (e # es) c False 0 = Some (is_positive_char e, k)" "p' = (r, i + k)"
proof -
  obtain e found k where m: "r < length rules" "i < length (rules ! r)" "e = rules ! r ! i" "is_positive_char e \<or> ge_type e = GRE_CHAR_NOT"
      "match_loop (drop i (rules ! r)) c False 0 = Some (found, k)" "found = is_positive_char e" "p' = (r, i + k)"
    using assms by (auto simp: match_char_def bind_eq_Some_conv vec_at_Some_iff cpp_assert_def split: if_splits)
  then show thesis using that[of e "drop (Suc i) (rules ! r)" k] by (auto simp: Cons_nth_drop_Suc is_char_def is_positive_char_def)
qed

lemma seq_list_lang:
  assumes "seq_lang rules p w"
  shows "fst p < length rules \<and> list_lang rules (drop (snd p) (rules ! fst p)) w"
  using assms
proof induction
  case (finish p e)
  then show ?case using list_lang.finish by (auto simp: elem_at_Some Cons_nth_drop_Suc[symmetric])
next
  case (char p c p' w)
  obtain r i where p: "p = (r, i)" by (cases p)
  obtain e es k where m: "r < length rules" "drop i (rules ! r) = e # es" "is_char e" "match_loop (e # es) c False 0 = Some (is_positive_char e, k)" "p' = (r, i + k)"
    using match_char_loop char.hyps(1) p by metis
  have "list_lang rules (drop k (e # es)) w" using char.IH m(2,5) by (metis drop_drop add.commute fst_conv snd_conv)
  then show ?case using m p list_lang.char by simp
next
  case (ref p e rule subs s u v)
  have "grammar_lang rules (unat (ge_value e)) u" unfolding grammar_lang_def using ref.hyps by blast
  moreover have "drop (snd p) (rules ! fst p) = e # drop (snd (next_pos p)) (rules ! fst p)" using ref.hyps(1) by (auto simp: elem_at_Some next_pos_def Cons_nth_drop_Suc)
  ultimately show ?case using ref.hyps(1,2) ref.IH(2) list_lang.ref by (auto simp: elem_at_Some next_pos_def)
qed

lemma list_seq_lang:
  assumes "list_lang rules es w" "r < length rules" "es = drop i (rules ! r)"
  shows "seq_lang rules (r, i) w"
  using assms(1,3)
proof (induction arbitrary: i)
  case (finish e es)
  then have "elem_at rules (r, i) = Some e" using assms(2) by (metis elem_at_Some drop_eq_Nil2 fst_conv hd_drop_conv_nth leI list.distinct(1) list.sel(1) snd_conv)
  then show ?case using finish.hyps seq_lang.finish by blast
next
  case (char e es c k w)
  have i: "i < length (rules ! r)" "rules ! r ! i = e" using char.prems by (metis drop_eq_Nil2 leI list.distinct(1), metis drop_eq_Nil2 hd_drop_conv_nth leI list.distinct(1) list.sel(1))
  have "match_char rules (r, i) c = Some (True, (r, i + k))"
    using i assms(2) char.hyps(1,2) char.prems by (auto simp: match_char_def is_char_def is_positive_char_def)
  moreover have "seq_lang rules (r, i + k) w" by (rule char.IH) (use char.prems in \<open>simp add: add.commute\<close>)
  ultimately show ?case by (rule seq_lang.char)
next
  case (ref e u es w)
  have i: "i < length (rules ! r)" "rules ! r ! i = e" using ref.prems by (metis drop_eq_Nil2 leI list.distinct(1), metis drop_eq_Nil2 hd_drop_conv_nth leI list.distinct(1) list.sel(1))
  then have e: "elem_at rules (r, i) = Some e" using assms(2) by (simp add: elem_at_Some)
  have "es = drop (i + 1) (rules ! r)" using ref.prems i by (metis Cons_nth_drop_Suc Suc_eq_plus1 list.inject)
  then have "seq_lang rules (next_pos (r, i)) w" using ref.IH by (simp add: next_pos_def)
  then show ?case using ref.hyps(1,2) seq_lang_ref[OF e] by blast
qed

lemma seq_lang_list: "r < length rules \<Longrightarrow> seq_lang rules (r, i) w \<longleftrightarrow> list_lang rules (drop i (rules ! r)) w"
  using seq_list_lang[of rules "(r, i)" w] list_seq_lang[of rules _ w r i] by auto

lemma list_lang_end [simp]: "is_end_of_sequence e \<Longrightarrow> list_lang rules (e # es) w \<longleftrightarrow> w = []"
  by (auto elim: list_lang.cases simp: is_end_of_sequence_def is_char_def intro: list_lang.finish)

lemma list_lang_ref: "ge_type e = GRE_RULE_REF \<Longrightarrow>
  list_lang rules (e # es) w \<longleftrightarrow> (\<exists>u v. w = u @ v \<and> grammar_lang rules (unat (ge_value e)) u \<and> list_lang rules es v)"
proof
  assume e: "ge_type e = GRE_RULE_REF" and "list_lang rules (e # es) w"
  from this(2) e show "\<exists>u v. w = u @ v \<and> grammar_lang rules (unat (ge_value e)) u \<and> list_lang rules es v"
    by (cases rule: list_lang.cases) (auto simp: is_end_of_sequence_def is_char_def)
qed (auto intro: list_lang.ref)

lemma list_lang_char: "is_char e \<Longrightarrow>
  list_lang rules (e # es) w \<longleftrightarrow> (\<exists>c v k. w = c # v \<and> match_loop (e # es) c False 0 = Some (is_positive_char e, k) \<and> list_lang rules (drop k (e # es)) v)"
  by (auto elim: list_lang.cases simp: is_end_of_sequence_def is_char_def intro: list_lang.char)

subsection \<open>Concatenation\<close>

text \<open>A list of complete elements of one sequence.\<close>

definition seq_elems :: "grammar_element list \<Rightarrow> bool" where
  "seq_elems es \<longleftrightarrow> (es \<noteq> [] \<longrightarrow> \<not> inner (hd es)) \<and> successively chained es \<and> (\<forall>e \<in> set es. \<not> is_end_of_sequence e)"

definition loop_local :: "grammar_element list \<Rightarrow> nat \<Rightarrow> (32 word \<Rightarrow> bool \<Rightarrow> bool) \<Rightarrow> bool" where
  "loop_local es k F \<longleftrightarrow> 0 < k \<and> k \<le> length es \<and> (k < length es \<longrightarrow> \<not> inner (es ! k)) \<and>
     (\<forall>x rest c found acc. \<not> inner x \<longrightarrow> match_loop (es @ x # rest) c found acc = Some (F c found, acc + k))"

lemma match_loop_local:
  assumes "successively chained (e # es)" "ge_type e \<in> {GRE_CHAR, GRE_CHAR_NOT, GRE_CHAR_ALT, GRE_CHAR_ANY}"
  shows "\<exists>k F. loop_local (e # es) k F"
  using assms
proof (induction "length es" arbitrary: e es rule: less_induct)
  case less
  show ?case
  proof (cases es)
    case Nil
    then show ?thesis unfolding loop_local_def by (intro exI[of _ 1] exI[of _ "\<lambda>c found. if ge_type e = GRE_CHAR_ANY then True else found \<or> ge_value e = c"]) (auto simp: inner_def Let_def)
  next
    case (Cons e1 es1)
    have ch: "chained e e1" "successively chained es" using less.prems(1) Cons by auto
    consider (rng) "ge_type e1 = GRE_CHAR_RNG_UPPER" "es1 = []" | (rngc) x xs where "ge_type e1 = GRE_CHAR_RNG_UPPER" "es1 = x # xs"
      | (alt) "ge_type e1 = GRE_CHAR_ALT" | (stop) "\<not> inner e1" by (cases es1) (auto simp: inner_def)
    then show ?thesis
    proof cases
      case rng
      then show ?thesis unfolding loop_local_def using Cons
        by (intro exI[of _ 2] exI[of _ "\<lambda>c found. found \<or> (ge_value e \<le> c \<and> c \<le> ge_value e1)"]) (auto simp: inner_def Let_def)
    next
      case rngc
      have cx: "chained e1 x" "successively chained (x # xs)" using ch(2) Cons rngc(2) by auto
      show ?thesis
      proof (cases "ge_type x = GRE_CHAR_ALT")
        case True
        obtain k F where "loop_local (x # xs) k F" using less.hyps[of xs x] cx(2) Cons rngc(2) True by auto
        then show ?thesis unfolding loop_local_def using Cons rngc True
          by (intro exI[of _ "k + 2"] exI[of _ "\<lambda>c found. F c (found \<or> (ge_value e \<le> c \<and> c \<le> ge_value e1))"]) (auto simp: Let_def)
      next
        case False
        then have "\<not> inner x" using cx(1) rngc(1) by (auto simp: inner_def chained_def)
        then show ?thesis unfolding loop_local_def using Cons rngc False
          by (intro exI[of _ 2] exI[of _ "\<lambda>c found. found \<or> (ge_value e \<le> c \<and> c \<le> ge_value e1)"]) (auto simp: Let_def)
      qed
    next
      case alt
      obtain k F where "loop_local (e1 # es1) k F" using less.hyps[of es1 e1] ch(2) Cons alt by auto
      then show ?thesis unfolding loop_local_def using Cons alt
        by (intro exI[of _ "k + 1"] exI[of _ "\<lambda>c found. F c (if ge_type e = GRE_CHAR_ANY then True else found \<or> ge_value e = c)"]) (auto simp: Let_def)
    next
      case stop
      then show ?thesis unfolding loop_local_def using Cons
        by (intro exI[of _ 1] exI[of _ "\<lambda>c found. if ge_type e = GRE_CHAR_ANY then True else found \<or> ge_value e = c"]) (auto simp: inner_def Let_def)
    qed
  qed
qed

lemma seq_elems_drop: "seq_elems es \<Longrightarrow> (k < length es \<Longrightarrow> \<not> inner (es ! k)) \<Longrightarrow> seq_elems (drop k es)"
  unfolding seq_elems_def by (auto simp: hd_drop_conv_nth dest: in_set_dropD intro: successively_drop)

abbreviation elems_lang :: "grammar_rules \<Rightarrow> grammar_element list \<Rightarrow> 32 word list \<Rightarrow> bool" where
  "elems_lang rules es \<equiv> list_lang rules (es @ [gelem GRE_END 0])"

lemma is_end_END [simp]: "is_end_of_sequence (gelem GRE_END v)" "is_end_of_sequence (gelem GRE_ALT v)" "\<not> inner (gelem GRE_END v)" "\<not> inner (gelem GRE_ALT v)"
  "\<not> inner (gelem GRE_RULE_REF v)"
  by (simp_all add: is_end_of_sequence_def inner_def)

lemma list_lang_append:
  assumes "seq_elems es" "\<not> inner x"
  shows "list_lang rules (es @ x # rest) w \<longleftrightarrow> (\<exists>u v. w = u @ v \<and> elems_lang rules es u \<and> list_lang rules (x # rest) v)"
  using assms(1)
proof (induction "length es" arbitrary: es w rule: less_induct)
  case less
  show ?case
  proof (cases es)
    case (Cons e es1)
    have e: "\<not> inner e" "\<not> is_end_of_sequence e" "successively chained (e # es1)" using less.prems Cons by (auto simp: seq_elems_def)
    show ?thesis
    proof (cases "ge_type e = GRE_RULE_REF")
      case True
      have "seq_elems (drop 1 es)" by (rule seq_elems_drop[OF less.prems]) (use e(3) Cons True in \<open>cases es1; auto simp: chained_def inner_def\<close>)
      then have i: "list_lang rules (es1 @ x # rest) v \<longleftrightarrow> (\<exists>u v1. v = u @ v1 \<and> elems_lang rules es1 u \<and> list_lang rules (x # rest) v1)" for v
        using less.hyps[of es1 v] Cons by simp
      show ?thesis unfolding Cons append_Cons list_lang_ref[OF True] i by (metis append_assoc)
    next
      case False
      then have c: "is_char e" using e(1,2) by (cases "ge_type e") (auto simp: inner_def is_end_of_sequence_def is_char_def)
      obtain k F where kF: "loop_local (e # es1) k F" using match_loop_local[OF e(3)] c by (auto simp: is_char_def)
      have k: "0 < k" "k \<le> length (e # es1)" "k < length (e # es1) \<longrightarrow> \<not> inner ((e # es1) ! k)"
          "\<forall>x rest c found acc. \<not> inner x \<longrightarrow> match_loop (e # es1 @ x # rest) c found acc = Some (F c found, acc + k)"
        using kF unfolding loop_local_def append_Cons by blast+
      have d: "drop k (e # es1 @ y) = drop k es @ y" for y using k(2) Cons by (metis append_Cons append_eq_append_conv_if append_take_drop_id drop_append diff_is_0_eq drop0)
      have i: "list_lang rules (drop k es @ x # rest) v \<longleftrightarrow> (\<exists>u v1. v = u @ v1 \<and> elems_lang rules (drop k es) u \<and> list_lang rules (x # rest) v1)" for v
        by (rule less.hyps) (use k seq_elems_drop[OF less.prems, of k] Cons in auto)
      have m: "match_loop (e # es1 @ x # rest) c False 0 = Some (F c False, k)" "match_loop (e # es1 @ gelem GRE_END 0 # []) c False 0 = Some (F c False, k)" for c
        using k(4)[rule_format, of x rest c False 0] k(4)[rule_format, of "gelem GRE_END 0" "[]" c False 0] assms(2) by simp_all
      have "list_lang rules (es @ x # rest) w \<longleftrightarrow> (\<exists>c v. w = c # v \<and> F c False = is_positive_char e \<and> list_lang rules (drop k es @ x # rest) v)"
        unfolding Cons append_Cons list_lang_char[OF c] using d m(1) Cons by auto
      moreover have "elems_lang rules es u \<longleftrightarrow> (\<exists>c v. u = c # v \<and> F c False = is_positive_char e \<and> elems_lang rules (drop k es) v)" for u
        unfolding Cons append_Cons list_lang_char[OF c] using d m(2) Cons by auto
      ultimately show ?thesis unfolding i by (metis append_Cons)
    qed
  qed simp
qed

subsection \<open>The rules of a repetition\<close>

fun rep_lang :: "('a list \<Rightarrow> bool) \<Rightarrow> nat \<Rightarrow> 'a list \<Rightarrow> bool" where
  "rep_lang S 0 w \<longleftrightarrow> w = []"
| "rep_lang S (Suc n) w \<longleftrightarrow> (\<exists>u v. w = u @ v \<and> S u \<and> rep_lang S n v)"

lemma ex_le_Suc: "(\<exists>k \<le> Suc m. P k) \<longleftrightarrow> P 0 \<or> (\<exists>k \<le> m. P (Suc k))"
proof
  assume "\<exists>k \<le> Suc m. P k"
  then obtain k where "k \<le> Suc m" "P k" by blast
  then show "P 0 \<or> (\<exists>k \<le> m. P (Suc k))" by (cases k) auto
qed auto

lemma rep_lang_add: "rep_lang S (m + n) w \<longleftrightarrow> (\<exists>u v. w = u @ v \<and> rep_lang S m u \<and> rep_lang S n v)"
proof (induction m arbitrary: w)
  case (Suc m)
  show ?case
  proof
    assume "rep_lang S (Suc m + n) w"
    then obtain u a b where "w = u @ a @ b" "S u" "rep_lang S m a" "rep_lang S n b" using Suc by auto
    then show "\<exists>u v. w = u @ v \<and> rep_lang S (Suc m) u \<and> rep_lang S n v" by (intro exI[of _ "u @ a"] exI[of _ b]) auto
  next
    assume "\<exists>u v. w = u @ v \<and> rep_lang S (Suc m) u \<and> rep_lang S n v"
    then obtain x a v where w: "w = x @ a @ v" "S x" "rep_lang S m a" "rep_lang S n v" by auto
    then have "rep_lang S (m + n) (a @ v)" unfolding Suc by blast
    then show "rep_lang S (Suc m + n) w" unfolding add_Suc rep_lang.simps using w(1,2) by (intro exI[of _ x] exI[of _ "a @ v"]) simp
  qed
qed simp

lemma elems_lang_append:
  assumes "seq_elems a" "seq_elems b"
  shows "elems_lang rules (a @ b) w \<longleftrightarrow> (\<exists>u v. w = u @ v \<and> elems_lang rules a u \<and> elems_lang rules b v)"
proof (cases b)
  case Nil
  then show ?thesis by simp
next
  case (Cons e es)
  then have "\<not> inner e" using assms(2) by (simp add: seq_elems_def)
  from list_lang_append[OF assms(1) this, of rules "es @ [gelem GRE_END 0]" w] show ?thesis using Cons by simp
qed

lemma elems_lang_replicate: "seq_elems a \<Longrightarrow> seq_elems (concat (replicate n a)) \<and> (elems_lang rules (concat (replicate n a)) w \<longleftrightarrow> rep_lang (elems_lang rules a) n w)"
proof (induction n arbitrary: w)
  case (Suc n)
  have c: "seq_elems (concat (replicate n a))" using Suc by blast
  have "successively chained (a @ concat (replicate n a))" using Suc.prems c by (auto simp: seq_elems_def successively_append_iff chained_not_inner)
  then have "seq_elems (a @ concat (replicate n a))" using Suc.prems c by (cases a) (auto simp: seq_elems_def)
  moreover have "elems_lang rules (concat (replicate (Suc n) a)) w \<longleftrightarrow> rep_lang (elems_lang rules a) (Suc n) w"
    using Suc elems_lang_append[OF Suc.prems c, of rules w] by (simp only: replicate.simps concat.simps rep_lang.simps)
  ultimately show ?case by simp
qed (simp add: seq_elems_def)

lemma elems_lang_ref: "elems_lang rules [gelem GRE_RULE_REF i] w \<longleftrightarrow> grammar_lang rules (unat i) w"
  by (simp add: list_lang_ref)

lemma seq_elems_ref [simp]: "seq_elems [gelem GRE_RULE_REF i]"
  by (simp add: seq_elems_def inner_def is_end_of_sequence_def)

lemma alt_next_opt: "\<forall>e \<in> set b. \<not> is_end_of_sequence e \<Longrightarrow> alt_next i (b @ [gelem GRE_ALT 0, gelem GRE_END 0]) = Some [i + length b + 1]"
  by (induction b arbitrary: i) (auto simp: is_end_of_sequence_def)

text \<open>A rule with one alternate and the empty one.\<close>

lemma optional_rule_lang:
  assumes "i < length rules" "rules ! i = b @ [gelem GRE_ALT 0, gelem GRE_END 0]" "seq_elems b"
  shows "grammar_lang rules i w \<longleftrightarrow> elems_lang rules b w \<or> w = []"
proof -
  have a: "alt_starts (rules ! i) = Some [0, length b + 1]" using assms(2,3) alt_next_opt[of b 0] by (simp add: alt_starts_def seq_elems_def)
  have "grammar_lang rules i w \<longleftrightarrow> seq_lang rules (i, 0) w \<or> seq_lang rules (i, length b + 1) w" using assms(1) a by (auto simp: grammar_lang_def)
  also have "\<dots> \<longleftrightarrow> list_lang rules (b @ [gelem GRE_ALT 0, gelem GRE_END 0]) w \<or> list_lang rules [gelem GRE_END 0] w"
    using seq_lang_list[OF assms(1)] assms(2) by simp
  also have "\<dots> \<longleftrightarrow> elems_lang rules b w \<or> w = []" using list_lang_append[OF assms(3), of "gelem GRE_ALT 0"] by simp
  finally show ?thesis .
qed

text \<open>The chain of rules of a bounded repetition.\<close>

lemma bounded_rules_lang:
  assumes S: "seq_elems prev" and r: "\<forall>i < n. N + i < length rules \<and> rules ! (N + i) = prev @ (if i > 0 then [gelem GRE_RULE_REF (word_of_nat (N + i - 1))] else []) @ [gelem GRE_ALT 0, gelem GRE_END 0]"
    and b: "N + n \<le> 2 ^ 32"
  shows "i < n \<Longrightarrow> grammar_lang rules (N + i) w \<longleftrightarrow> (\<exists>k \<le> i + 1. rep_lang (elems_lang rules prev) k w)"
proof (induction i arbitrary: w)
  case 0
  have "rules ! N = prev @ [gelem GRE_ALT 0, gelem GRE_END 0]" "N < length rules" using r[rule_format, of 0] 0 by simp_all
  then have "grammar_lang rules N w \<longleftrightarrow> elems_lang rules prev w \<or> w = []" using optional_rule_lang S by simp
  moreover have "(\<exists>k \<le> 1. rep_lang (elems_lang rules prev) k w) \<longleftrightarrow> rep_lang (elems_lang rules prev) 0 w \<or> rep_lang (elems_lang rules prev) 1 w" by (auto simp: le_Suc_eq)
  ultimately show ?case by auto
next
  case (Suc i)
  let ?S = "elems_lang rules prev" and ?b = "prev @ [gelem GRE_RULE_REF (word_of_nat (N + i))]"
  have ru: "rules ! (N + Suc i) = ?b @ [gelem GRE_ALT 0, gelem GRE_END 0]" "N + Suc i < length rules" using r[rule_format, of "Suc i"] Suc.prems by simp_all
  have u: "unat (word_of_nat (N + i) :: 32 word) = N + i" using b Suc.prems by (simp add: unat_of_nat del: of_nat_add)
  have sb: "seq_elems ?b" using S by (auto simp: seq_elems_def successively_append_iff chained_not_inner is_end_of_sequence_def) (cases prev; auto)
  have "grammar_lang rules (N + Suc i) w \<longleftrightarrow> elems_lang rules ?b w \<or> w = []" using optional_rule_lang[OF ru(2,1) sb] .
  also have "elems_lang rules ?b w \<longleftrightarrow> (\<exists>x y. w = x @ y \<and> ?S x \<and> grammar_lang rules (N + i) y)"
    by (simp only: elems_lang_append[OF S seq_elems_ref] elems_lang_ref u)
  also have "\<dots> \<longleftrightarrow> (\<exists>k \<le> i + 1. rep_lang ?S (Suc k) w)" using Suc by auto
  also have "(\<exists>k \<le> i + 1. rep_lang ?S (Suc k) w) \<or> w = [] \<longleftrightarrow> (\<exists>k \<le> Suc i + 1. rep_lang ?S k w)"
    using ex_le_Suc[of "i + 1" "\<lambda>k. rep_lang ?S k w"] by (auto simp del: rep_lang.simps(2))
  finally show ?case .
qed

text \<open>The rule of an unbounded repetition refers to itself; a derivation from inside it is a rest of one copy and further copies.\<close>

lemma unbounded_suffix:
  assumes S: "seq_elems prev" and r: "rules ! N = prev @ [gelem GRE_RULE_REF i, gelem GRE_ALT 0, gelem GRE_END 0]" "unat i = N"
  shows "seq_lang rules p w \<Longrightarrow> p = (N, k) \<Longrightarrow> k \<le> length prev \<Longrightarrow> (k < length prev \<longrightarrow> \<not> inner (prev ! k)) \<Longrightarrow>
    \<exists>u v n. w = u @ v \<and> elems_lang rules (drop k prev) u \<and> rep_lang (elems_lang rules prev) n v"
proof (induction arbitrary: k rule: seq_lang.induct)
  case (finish p e)
  have "e = (if k < length prev then prev ! k else gelem GRE_RULE_REF i)" using finish r(1) by (auto simp: elem_at_Some nth_append)
  then have "\<not> is_end_of_sequence e" using S finish.prems(2) by (auto simp: seq_elems_def is_end_of_sequence_def)
  then show ?case using finish.hyps(2) by simp
next
  case (char p c p' w)
  obtain e es m where m: "drop k (rules ! N) = e # es" "is_char e" "match_loop (e # es) c False 0 = Some (is_positive_char e, m)" "p' = (N, k + m)"
    using match_char_loop char.hyps(1) char.prems(1) by metis
  have k: "k < length prev"
  proof (rule ccontr)
    assume "\<not> k < length prev"
    then have "e = gelem GRE_RULE_REF i" using m(1) r(1) char.prems(2) by simp
    then show False using m(2) by (simp add: is_char_def)
  qed
  define ps where "ps = drop (Suc k) prev"
  have d: "drop k prev = e # ps" "es = ps @ [gelem GRE_RULE_REF i, gelem GRE_ALT 0, gelem GRE_END 0]"
    using m(1) r(1) k by (auto simp: ps_def Cons_nth_drop_Suc[symmetric])
  have se: "seq_elems (e # ps)" using seq_elems_drop[OF S, of k] char.prems(3) d(1) by simp
  obtain l F where lF: "loop_local (e # ps) l F" using match_loop_local[of e ps] se m(2) by (auto simp: seq_elems_def is_char_def)
  have l: "l \<le> length (e # ps)" "l < length (e # ps) \<longrightarrow> \<not> inner ((e # ps) ! l)" using lF by (auto simp only: loop_local_def)
  have F: "match_loop ((e # ps) @ x # rest) c False 0 = Some (F c False, l)" if "\<not> inner x" for x rest using lF that by (simp add: loop_local_def)
  have ml: "m = l" "F c False = is_positive_char e" using F[of "gelem GRE_RULE_REF i" "[gelem GRE_ALT 0, gelem GRE_END 0]"] m(3) d(2) by simp_all
  have len: "length prev = k + length (e # ps)" using d(1) k by (metis length_drop le_add_diff_inverse less_imp_le)
  have nth: "prev ! (k + l) = (e # ps) ! l" if "l < length (e # ps)" using that d(1) k by (metis nth_drop less_imp_le)
  obtain u v n where i: "w = u @ v" "elems_lang rules (drop (k + l) prev) u" "rep_lang (elems_lang rules prev) n v"
    using char.IH[of "k + l"] m(4) ml(1) l len nth by auto
  have "drop (k + l) prev = drop l (e # ps)" using d(1) by (metis drop_drop add.commute)
  then have "list_lang rules (drop l (e # ps @ [gelem GRE_END 0])) u" using i(2) l(1) by (metis append_Cons drop_append diff_is_0_eq drop0)
  moreover have "match_loop (e # ps @ [gelem GRE_END 0]) c False 0 = Some (is_positive_char e, l)" using F[of "gelem GRE_END 0" "[]"] ml(2) by simp
  ultimately have "elems_lang rules (drop k prev) (c # u)" unfolding d(1) append_Cons by (intro list_lang.char[OF m(2)])
  then show ?case using i(1,3) by (intro exI[of _ "c # u"] exI[of _ v] exI[of _ n]) simp
next
  case (ref p e rule subs s u v)
  have e: "e = (if k < length prev then prev ! k else gelem GRE_RULE_REF i)" using ref.hyps(1) ref.prems r(1) by (auto simp: elem_at_Some nth_append)
  show ?case
  proof (cases "k < length prev")
    case True
    have g: "grammar_lang rules (unat (ge_value e)) u" unfolding grammar_lang_def using ref.hyps by blast
    have d: "drop k prev = e # drop (Suc k) prev" using True e by (simp add: Cons_nth_drop_Suc)
    have "\<not> inner (prev ! Suc k)" if k1: "Suc k < length prev"
    proof -
      have "successively chained (drop k prev)" using S by (auto simp: seq_elems_def intro: successively_drop)
      then have "chained e (prev ! Suc k)" using d k1 by (simp add: Cons_nth_drop_Suc[symmetric])
      then show ?thesis using ref.hyps(2) by (auto simp: chained_def inner_def)
    qed
    then obtain x y n where i: "v = x @ y" "elems_lang rules (drop (Suc k) prev) x" "rep_lang (elems_lang rules prev) n y"
      using ref.IH(2)[of "Suc k"] ref.prems(1) True by (auto simp: next_pos_def)
    have "elems_lang rules (drop k prev) (u @ x)" unfolding d append_Cons by (rule list_lang.ref[OF ref.hyps(2) g i(2)])
    then show ?thesis using i(1,3) by (intro exI[of _ "u @ x"] exI[of _ y] exI[of _ n]) simp
  next
    case False
    then have k: "k = length prev" and ei: "unat (ge_value e) = N" using ref.prems(2) e r(2) by auto
    have nb: "\<forall>e \<in> set (prev @ [gelem GRE_RULE_REF i]). \<not> is_end_of_sequence e" using S by (auto simp: seq_elems_def is_end_of_sequence_def)
    have "alt_starts (rules ! N) = Some [0, length prev + 2]" using alt_next_opt[OF nb, of 0] r(1) by (simp add: alt_starts_def)
    then have s: "s = 0 \<or> s = length prev + 2" using ref.hyps(3-5) ei by (auto simp: vec_at_Some_iff)
    have N: "N < length rules" using ref.hyps(3) ei by (auto simp: vec_at_Some_iff)
    have "v = []" using ref.hyps(7) ref.prems(1) k N r(1) by (simp add: next_pos_def seq_lang_list)
    moreover have "\<exists>n. rep_lang (elems_lang rules prev) n u"
    proof (cases "s = 0")
      case True
      then obtain x y n where "u = x @ y" "elems_lang rules prev x" "rep_lang (elems_lang rules prev) n y"
        using ref.IH(1)[of 0] ei S by (auto simp: seq_elems_def hd_conv_nth)
      then show ?thesis by (intro exI[of _ "Suc n"]) auto
    next
      case False
      then have "u = []" using ref.hyps(6) ei s N r(1) by (simp add: seq_lang_list)
      then show ?thesis by (intro exI[of _ 0]) simp
    qed
    ultimately show ?thesis using k by (auto intro!: exI[of _ "[]"])
  qed
qed

lemma unbounded_rule_lang:
  assumes S: "seq_elems prev" and r: "rules ! N = prev @ [gelem GRE_RULE_REF i, gelem GRE_ALT 0, gelem GRE_END 0]" "unat i = N" "N < length rules"
  shows "grammar_lang rules N w \<longleftrightarrow> (\<exists>n. rep_lang (elems_lang rules prev) n w)"
proof -
  let ?S = "elems_lang rules prev" and ?b = "prev @ [gelem GRE_RULE_REF i]"
  have sb: "seq_elems ?b" using S by (auto simp: seq_elems_def successively_append_iff chained_not_inner is_end_of_sequence_def) (cases prev; auto)
  have ru: "rules ! N = ?b @ [gelem GRE_ALT 0, gelem GRE_END 0]" using r(1) by simp
  have step: "grammar_lang rules N w \<longleftrightarrow> (\<exists>x y. w = x @ y \<and> ?S x \<and> grammar_lang rules N y) \<or> w = []" for w
    using optional_rule_lang[OF r(3) ru sb, of w] elems_lang_append[OF S seq_elems_ref, of rules i w] unfolding elems_lang_ref r(2) by argo
  have "rep_lang ?S n w \<Longrightarrow> grammar_lang rules N w" for n w
  proof (induction n arbitrary: w)
    case 0
    then show ?case using step[of "[]"] by simp
  next
    case (Suc n)
    then obtain x y where "w = x @ y" "?S x" "grammar_lang rules N y" by auto
    then show ?case unfolding step[of w] by blast
  qed
  moreover have "\<exists>n. rep_lang ?S n w" if "grammar_lang rules N w"
  proof (cases "w = []")
    case False
    then have "elems_lang rules ?b w" using optional_rule_lang[OF r(3) ru sb, of w] that by blast
    then have "list_lang rules (?b @ [gelem GRE_ALT 0, gelem GRE_END 0]) w" using list_lang_append[OF sb, of "gelem GRE_ALT 0" rules "[gelem GRE_END 0]" w] by simp
    then have "seq_lang rules (N, 0) w" using seq_lang_list[OF r(3), of 0 w] ru by simp
    then obtain u v n where "w = u @ v" "elems_lang rules (drop 0 prev) u" "rep_lang ?S n v"
      using unbounded_suffix[OF S r(1,2), of "(N, 0)" w 0] S by (auto simp: seq_elems_def hd_conv_nth)
    then show ?thesis by (intro exI[of _ "Suc n"]) auto
  qed (auto intro: exI[of _ 0])
  ultimately show ?thesis by blast
qed

subsection \<open>What handle\_repetitions adds\<close>

lemma generate_symbol_id_new:
  assumes ok: "parser_ok p" and len: "length (gp_symbol_ids p) < 2 ^ 32" and g: "generate_symbol_id base p = (i, p')"
  shows "unat i = length (gp_symbol_ids p) \<and> length (gp_symbol_ids p') = Suc (length (gp_symbol_ids p)) \<and> gp_rules p' = gp_rules p"
proof -
  let ?k = "base @ [95] @ dec_digits (unat i)"
  have i: "i = word_of_nat (length (gp_symbol_ids p))" and p': "p' = p\<lparr>gp_symbol_ids := AList.update ?k i (gp_symbol_ids p)\<rparr>"
    using g by (auto simp: generate_symbol_id_def Let_def)
  then have u: "unat i = length (gp_symbol_ids p)" using len by (simp add: unat_of_nat)
  have "?k \<notin> fst ` set (gp_symbol_ids p)"
  proof
    assume "?k \<in> fst ` set (gp_symbol_ids p)"
    then obtain v where v: "(?k, v) \<in> set (gp_symbol_ids p)" by auto
    have "95 \<in> set ?k" by simp
    then obtain b where "?k = b @ [95] @ dec_digits (unat v)" using ok v unfolding parser_ok_def keys_ok_def by blast
    then have "dec_digits (unat i) = dec_digits (unat v)" by (rule last_underscore[OF dec_digits_no_underscore dec_digits_no_underscore])
    then have "unat i = unat v" by (metis digits_value_dec of_nat_eq_iff)
    moreover have "unat v < length (gp_symbol_ids p)" using ok v unfolding parser_ok_def keys_ok_def by (metis image_eqI snd_conv)
    ultimately show False using u by simp
  qed
  then show ?thesis using u p' by (simp add: length_update)
qed

lemma add_rule_new:
  assumes "unat i + 1 < 2 ^ 32"
  shows "\<exists>p'. add_rule i rule p = Return p' \<and> gp_symbol_ids p' = gp_symbol_ids p \<and> unat i < length (gp_rules p') \<and> gp_rules p' ! unat i = rule \<and>
    length (gp_rules p) \<le> length (gp_rules p') \<and> (\<forall>j < length (gp_rules p). j \<noteq> unat i \<longrightarrow> gp_rules p' ! j = gp_rules p ! j)"
proof -
  have "unat (i + 1) = unat i + 1" using assms by (simp add: unat_word_ariths)
  then show ?thesis by (auto simp: add_rule_def Let_def vec_resize_def nth_append)
qed

lemma unat_word_of: "unat (r :: 32 word) = m \<Longrightarrow> r = word_of_nat m"
  by auto

lemma rep_each_new:
  assumes "parser_ok p" "open_ok (ids_of p) prev" "length (gp_symbol_ids p) = N" "N + n < 2 ^ 32"
  shows "\<exists>r p'. run_each (rep_step name prev x) [0..<n] (0, p) = Return (r, p') \<and> length (gp_symbol_ids p') = N + n \<and> (0 < n \<longrightarrow> unat r = N + n - 1) \<and>
    (\<forall>i < n. N + i < length (gp_rules p') \<and> gp_rules p' ! (N + i) = rec_rule_of prev x i (word_of_nat (N + i)) (word_of_nat (N + i - 1)))"
  using assms(4)
proof (induction n)
  case (Suc n)
  obtain r p1 where i: "run_each (rep_step name prev x) [0..<n] (0, p) = Return (r, p1)" "length (gp_symbol_ids p1) = N + n" "0 < n \<longrightarrow> unat r = N + n - 1"
      "\<forall>i < n. N + i < length (gp_rules p1) \<and> gp_rules p1 ! (N + i) = rec_rule_of prev x i (word_of_nat (N + i)) (word_of_nat (N + i - 1))"
    using Suc by auto
  have ok: "parser_ok p1" using rep_each_ok[OF assms(1,2) i(1)] by (simp add: extends_def)
  obtain id p2 where g: "generate_symbol_id name p1 = (id, p2)" by (cases "generate_symbol_id name p1")
  have n: "unat id = N + n" "length (gp_symbol_ids p2) = N + Suc n" "gp_rules p2 = gp_rules p1"
    using generate_symbol_id_new[OF ok _ g] i(2) Suc.prems by simp_all
  obtain p3 where a: "add_rule id (rec_rule_of prev x n id r) p2 = Return p3" "gp_symbol_ids p3 = gp_symbol_ids p2" "unat id < length (gp_rules p3)"
      "gp_rules p3 ! unat id = rec_rule_of prev x n id r" "length (gp_rules p2) \<le> length (gp_rules p3)"
      "\<forall>j < length (gp_rules p2). j \<noteq> unat id \<longrightarrow> gp_rules p3 ! j = gp_rules p2 ! j"
    using add_rule_new[of id "rec_rule_of prev x n id r" p2] n(1) Suc.prems by auto
  have run: "run_each f [0..<Suc n] s = run_bind (run_each f [0..<n] s) (run_each f [n])" for f :: "nat \<Rightarrow> 32 word \<times> grammar_parser \<Rightarrow> _" and s
  proof -
    have "run_each f (xs @ ys) s = run_bind (run_each f xs s) (run_each f ys)" for xs ys s
    proof (induction xs arbitrary: s)
      case (Cons x xs)
      then show ?case by (cases "f x s") auto
    qed simp
    then show ?thesis by simp
  qed
  have res: "run_each (rep_step name prev x) [0..<Suc n] (0, p) = Return (id, p3)" unfolding run i(1) using g a(1) by (simp add: rep_step_def)
  have new: "rec_rule_of prev x n id r = rec_rule_of prev x n (word_of_nat (N + n)) (word_of_nat (N + n - 1))"
  proof -
    have "id = word_of_nat (N + n)" using n(1) by (rule unat_word_of)
    moreover have "0 < n \<longrightarrow> r = word_of_nat (N + n - 1)" using i(3) unat_word_of by blast
    ultimately show ?thesis by (cases "n = 0") (auto simp: rec_rule_of_def)
  qed
  have "N + i < length (gp_rules p3) \<and> gp_rules p3 ! (N + i) = rec_rule_of prev x i (word_of_nat (N + i)) (word_of_nat (N + i - 1))" if "i < Suc n" for i
    using that a n i(4) new by (cases "i = n") (auto simp: less_Suc_eq)
  then show ?case using res n(1,2) a(2) by auto
qed (use assms(3) in simp)

text \<open>The words the optional part of a repetition derives, by the number of copies it allows.\<close>

lemma optional_part_lang:
  assumes S: "seq_elems prev" and n: "n = (if x < 0 then 1 else nat (x - m))" "0 < n" "N + n < 2 ^ 32" "unat r = N + n - 1"
    and ru: "\<forall>i < n. N + i < length rules \<and> rules ! (N + i) = rec_rule_of prev x i (word_of_nat (N + i)) (word_of_nat (N + i - 1))"
  shows "grammar_lang rules (unat r) w \<longleftrightarrow> (\<exists>k. (0 \<le> x \<longrightarrow> k \<le> n) \<and> rep_lang (elems_lang rules prev) k w)"
proof (cases "x < 0")
  case True
  then have n1: "n = 1" "unat r = N" using n by simp_all
  have "rules ! N = prev @ [gelem GRE_RULE_REF (word_of_nat N), gelem GRE_ALT 0, gelem GRE_END 0]" "N < length rules"
    using ru n1(1) True by (simp_all add: rec_rule_of_def)
  moreover have "unat (word_of_nat N :: 32 word) = N" using n(3) by (simp add: unat_of_nat)
  ultimately show ?thesis using unbounded_rule_lang[OF S] True n1(2) by simp
next
  case False
  have "\<forall>i < n. N + i < length rules \<and> rules ! (N + i) = prev @ (if i > 0 then [gelem GRE_RULE_REF (word_of_nat (N + i - 1))] else []) @ [gelem GRE_ALT 0, gelem GRE_END 0]"
    using ru False by (simp add: rec_rule_of_def)
  then have "grammar_lang rules (N + (n - 1)) w \<longleftrightarrow> (\<exists>k \<le> n - 1 + 1. rep_lang (elems_lang rules prev) k w)"
    by (rule bounded_rules_lang[OF S]) (use n in auto)
  then show ?thesis using n(2,4) False by simp
qed

text \<open>
  C39. The rewriting of a repetition is right. After \<^verbatim>\<open>handle_repetitions(m, x)\<close> the sequence ends in elements that derive, by any rules
  that contain the ones it has added, exactly the concatenations of at least \<open>m\<close> words of the repeated item, of any number of them
  for a negative \<open>x\<close> and of at most \<open>x\<close> otherwise; what stands before the item is unchanged. If \<open>x\<close> is less than \<open>m\<close>, as in \<^verbatim>\<open>{3,2}\<close>, the item is
  taken \<open>m\<close> times without an error.
\<close>

theorem repetition_language:
  assumes "seq_ok l rule p" "handle_repetitions name l m x (rule, p) = Return (rule', p')" "0 \<le> m" "\<forall>e \<in> set (drop l rule). ge_type e \<noteq> GRE_ALT"
    "length (gp_symbol_ids p) + nat (x - m) + 1 < 2 ^ 32"
    "\<forall>i. length (gp_symbol_ids p) \<le> i \<longrightarrow> i < length (gp_symbol_ids p') \<longrightarrow> i < length rules \<and> rules ! i = gp_rules p' ! i"
  shows "take l rule' = take l rule \<and> (elems_lang rules (drop l rule') w \<longleftrightarrow>
    (\<exists>n. nat m \<le> n \<and> (0 \<le> x \<longrightarrow> n \<le> nat (max m x)) \<and> rep_lang (elems_lang rules (drop l rule)) n w))"
proof -
  have ok: "parser_ok p" "open_ok (ids_of p) rule" "l < length rule" using assms(1,2) by (auto simp: seq_ok_def handle_repetitions_def split: if_splits)
  define prev where "prev = drop l rule"
  define n where "n = (if x < 0 then 1 else nat (x - m))"
  define N where "N = length (gp_symbol_ids p)"
  define base where "base = (if m = 0 then take l rule else rule @ concat (replicate (nat (m - 1)) prev))"
  have pv: "open_ok (ids_of p) prev" unfolding prev_def by (rule open_ok_drop[OF ok(2)]) (use assms(1) in \<open>simp add: seq_ok_def\<close>)
  then have S: "seq_elems prev" using assms(4) by (auto simp: seq_elems_def open_ok_def is_end_of_sequence_def prev_def)
  obtain r where run: "run_each (rep_step name prev x) [0..<n] (0, p) = Return (r, p')" and rule': "rule' = (if 0 < n then base @ [gelem GRE_RULE_REF r] else base)"
    using assms(2) ok(3) by (auto simp: handle_repetitions_def Let_def prev_def n_def base_def run_bind_Return split: if_splits)
  have lt: "N + n < 2 ^ 32" using assms(5) by (auto simp: N_def n_def split: if_splits)
  have new: "length (gp_symbol_ids p') = N + n" "0 < n \<longrightarrow> unat r = N + n - 1"
      "\<forall>i < n. gp_rules p' ! (N + i) = rec_rule_of prev x i (word_of_nat (N + i)) (word_of_nat (N + i - 1))"
    using rep_each_new[OF ok(1) pv N_def[symmetric] lt, of name x] run by auto
  have ru: "\<forall>i < n. N + i < length rules \<and> rules ! (N + i) = rec_rule_of prev x i (word_of_nat (N + i)) (word_of_nat (N + i - 1))"
    using new(1,3) assms(6) by (simp add: N_def[symmetric])
  let ?S = "elems_lang rules prev" and ?m = "concat (replicate (nat m) prev)"
  have base: "take l base = take l rule" "drop l base = ?m" "l \<le> length base"
  proof -
    have "nat m = Suc (nat (m - 1))" if "m \<noteq> 0" using that assms(3) by simp
    then show "take l base = take l rule" "drop l base = ?m" "l \<le> length base" using ok(3) by (auto simp: base_def prev_def)
  qed
  have rep: "seq_elems ?m" "elems_lang rules ?m w \<longleftrightarrow> rep_lang ?S (nat m) w" for w using elems_lang_replicate[OF S] by auto
  have "elems_lang rules (drop l rule') w \<longleftrightarrow> (\<exists>k. (0 \<le> x \<longrightarrow> k \<le> n) \<and> rep_lang ?S (nat m + k) w)"
  proof (cases "0 < n")
    case True
    have o: "grammar_lang rules (unat r) v \<longleftrightarrow> (\<exists>k. (0 \<le> x \<longrightarrow> k \<le> n) \<and> rep_lang ?S k v)" for v
      by (rule optional_part_lang[OF S n_def True lt _ ru]) (use new(2) True in simp)
    have "drop l rule' = ?m @ [gelem GRE_RULE_REF r]" using rule' True base(2,3) by simp
    then show ?thesis unfolding rep_lang_add using elems_lang_append[OF rep(1) seq_elems_ref, of rules r w] unfolding rep(2) elems_lang_ref o by auto
  next
    case False
    then have "0 \<le> x" "n = 0" by (auto simp: n_def split: if_splits)
    moreover have "drop l rule' = ?m" using rule' False base(2) by simp
    ultimately show ?thesis using rep(2) by simp
  qed
  also have "\<dots> \<longleftrightarrow> (\<exists>k. nat m \<le> k \<and> (0 \<le> x \<longrightarrow> k \<le> nat (max m x)) \<and> rep_lang ?S k w)"
  proof
    assume "\<exists>k. (0 \<le> x \<longrightarrow> k \<le> n) \<and> rep_lang ?S (nat m + k) w"
    then obtain k where "0 \<le> x \<longrightarrow> k \<le> n" "rep_lang ?S (nat m + k) w" by blast
    then show "\<exists>k. nat m \<le> k \<and> (0 \<le> x \<longrightarrow> k \<le> nat (max m x)) \<and> rep_lang ?S k w"
      using assms(3) by (intro exI[of _ "nat m + k"]) (auto simp: n_def)
  next
    assume "\<exists>k. nat m \<le> k \<and> (0 \<le> x \<longrightarrow> k \<le> nat (max m x)) \<and> rep_lang ?S k w"
    then obtain k where "nat m \<le> k" "0 \<le> x \<longrightarrow> k \<le> nat (max m x)" "rep_lang ?S k w" by blast
    then show "\<exists>k. (0 \<le> x \<longrightarrow> k \<le> n) \<and> rep_lang ?S (nat m + k) w"
      using assms(3) by (intro exI[of _ "k - nat m"]) (auto simp: n_def)
  qed
  finally show ?thesis using rule' base(1,3) by (simp add: prev_def)
qed

definition one_symbol :: grammar_parser where
  "one_symbol = \<lparr>gp_symbol_ids = [([114], 0)], gp_rules = []\<rparr>"

definition two_rules :: grammar_parser where
  "two_rules = \<lparr>gp_symbol_ids = [([114], 0), ([114, 95, 49], 1)], gp_rules = [[], [gelem GRE_CHAR 97, gelem GRE_ALT 0, gelem GRE_END 0]]\<rparr>"

lemma demo_repeat: "handle_repetitions [114] 0 2 3 ([gelem GRE_CHAR 97], one_symbol) = Return ([gelem GRE_CHAR 97, gelem GRE_CHAR 97, gelem GRE_RULE_REF 1], two_rules)"
  by code_simp

lemma elems_lang_one: "elems_lang rules [gelem GRE_CHAR 97] w \<longleftrightarrow> w = [97]"
  by (auto simp: list_lang_char is_char_def is_positive_char_def Let_def)

theorem repetition_language_witness:
  "elems_lang (gp_rules two_rules) [gelem GRE_CHAR 97, gelem GRE_CHAR 97, gelem GRE_RULE_REF 1] [97, 97, 97] \<and>
   \<not> elems_lang (gp_rules two_rules) [gelem GRE_CHAR 97, gelem GRE_CHAR 97, gelem GRE_RULE_REF 1] [97]"
proof -
  have s: "seq_ok 0 [gelem GRE_CHAR 97] one_symbol"
    by (simp add: seq_ok_def parser_ok_def keys_ok_def one_symbol_def open_ok_single inner_def)
  have r: "\<forall>i. length (gp_symbol_ids one_symbol) \<le> i \<longrightarrow> i < length (gp_symbol_ids two_rules) \<longrightarrow> i < length (gp_rules two_rules) \<and> gp_rules two_rules ! i = gp_rules two_rules ! i"
    by (simp add: one_symbol_def two_rules_def)
  have one: "list_lang (gp_rules two_rules) [gelem GRE_CHAR 97, gelem GRE_END 0] = (\<lambda>w. w = [97])" using elems_lang_one by (simp add: fun_eq_iff)
  have t: "elems_lang (gp_rules two_rules) [gelem GRE_CHAR 97, gelem GRE_CHAR 97, gelem GRE_RULE_REF 1] w \<longleftrightarrow>
      (\<exists>n. 2 \<le> n \<and> n \<le> 3 \<and> rep_lang (\<lambda>w. w = [97]) n w)" for w
    using repetition_language[OF s demo_repeat _ _ _ r, of w] by (simp add: one_symbol_def one)
  have "rep_lang (\<lambda>w. w = [97]) 3 [97, 97, 97 :: 32 word]" by (simp add: eval_nat_numeral)
  moreover have "\<not> rep_lang (\<lambda>w. w = [97]) n [97 :: 32 word]" if n2: "2 \<le> n" for n
  proof -
    obtain k where "n = Suc (Suc k)" using n2 by (cases n; cases "n - 1") auto
    then show ?thesis by auto
  qed
  ultimately show ?thesis unfolding t by (intro conjI exI[of _ 3]) auto
qed

end
