(* ===== verification/Grammar_Utf8.thy ===== *)
theory Grammar_Utf8
  imports Grammar
begin

unbundle bit_operations_syntax

text \<open>
  Decoding a text that arrives in pieces. \<^verbatim>\<open>decode_utf8\<close> has two loops and a resumption; on well-formed input it is the run of an
  automaton over the bytes, so that it does not matter where a text is cut.
\<close>

text \<open>Bytes that continue well-formed UTF-8 in which \<open>n\<close> bytes of a sequence are missing; the last sequence may be cut off.\<close>

fun utf8_ok :: "int \<Rightarrow> bytes \<Rightarrow> bool" where
  "utf8_ok n [] \<longleftrightarrow> 0 \<le> n"
| "utf8_ok n (b # bs) \<longleftrightarrow> b \<noteq> 0 \<and>
     (if n > 0 then drop_bit 6 b = 2 \<and> utf8_ok (n - 1) bs else n = 0 \<and> 0 < utf8_len_strict b \<and> utf8_ok (utf8_len_strict b - 1) bs)"

definition utf8_first :: "8 word \<Rightarrow> 32 word" where
  "utf8_first b = ucast (b AND (push_bit (nat (7 - (utf8_len_strict b - 1))) 1 - 1))"

definition utf8_step :: "32 word list \<times> 32 word \<times> int \<Rightarrow> 8 word \<Rightarrow> 32 word list \<times> 32 word \<times> int" where
  "utf8_step s b = (case s of (cps, v, n) \<Rightarrow>
     if n > 0 then (if n = 1 then cps @ [utf8_cont v b] else cps, utf8_cont v b, n - 1)
     else (if utf8_len_strict b = 1 then cps @ [utf8_first b] else cps, utf8_first b, utf8_len_strict b - 1))"

abbreviation utf8_run :: "32 word list \<times> 32 word \<times> int \<Rightarrow> bytes \<Rightarrow> 32 word list \<times> 32 word \<times> int" where
  "utf8_run \<equiv> foldl utf8_step"

lemma utf8_run_prefix: "utf8_run (cps, v, n) bs = (case utf8_run ([], v, n) bs of (cps', v', n') \<Rightarrow> (cps @ cps', v', n'))"
proof (induction bs arbitrary: cps v n)
  case (Cons b bs)
  obtain c v1 n1 where s: "utf8_step ([], v, n) b = (c, v1, n1)" by (cases "utf8_step ([], v, n) b")
  then have "utf8_step (cps, v, n) b = (cps @ c, v1, n1)" by (auto simp: utf8_step_def split: if_splits)
  then show ?case using Cons[of "cps @ c" v1 n1] Cons[of c v1 n1] s by (simp split: prod.splits)
qed simp

lemma utf8_ok_append: "utf8_ok n (a @ b) \<longleftrightarrow> utf8_ok n a \<and> utf8_ok (snd (snd (utf8_run (cps, v, n) a))) b"
proof (induction a arbitrary: n cps v)
  case Nil
  show ?case by (cases b) auto
next
  case (Cons x a)
  show ?case using Cons by (auto simp: utf8_step_def)
qed

lemma utf8_ok_nonneg: "utf8_ok n bs \<Longrightarrow> 0 \<le> n"
  by (cases bs) (auto split: if_splits)

lemma utf8_ok_no_zero: "utf8_ok n bs \<Longrightarrow> takeWhile (\<lambda>b. b \<noteq> 0) bs = bs"
  by (induction n bs rule: utf8_ok.induct) (auto split: if_splits)

lemma dec_tail_run:
  "utf8_ok n bs \<Longrightarrow> dec_tail bs v n = (rest, v', n') \<Longrightarrow>
    utf8_run (cps, v, n) bs = utf8_run (if 0 < n \<and> n' = 0 then cps @ [v'] else cps, v', n') rest \<and> utf8_ok n' rest \<and> (n' = 0 \<or> rest = [])"
proof (induction bs v n arbitrary: cps rule: dec_tail.induct)
  case (1 v n)
  then show ?case by auto
next
  case (2 b bs v n)
  show ?case
  proof (cases "n > 0")
    case True
    have t: "dec_tail bs (utf8_cont v b) (n - 1) = (rest, v', n')" "utf8_ok (n - 1) bs" using 2(2,3) True by simp_all
    note ih = 2(1)[OF True t(2,1)]
    show ?thesis
    proof (cases "n = 1")
      case one: True
      have "rest = bs" "v' = utf8_cont v b" "n' = 0" using t(1) one by (cases bs; auto)+
      then show ?thesis using t(2) one by (simp add: utf8_step_def)
    next
      case False
      then show ?thesis using ih[of cps] True by (simp add: utf8_step_def)
    qed
  next
    case False
    then show ?thesis using 2(2,3) by auto
  qed
qed

lemma dec_resume_tail: "utf8_ok n bs \<Longrightarrow> dec_resume bs v n = Some (dec_tail bs v n)"
  by (induction bs v n rule: dec_tail.induct) auto

lemma dec_loop_run:
  "utf8_ok n bs \<Longrightarrow> n = 0 \<or> bs = [] \<Longrightarrow> utf8_run (cps, v, n) bs = (cps', v', n') \<Longrightarrow>
    dec_loop bs v n cps = (cps' @ [0], \<lparr>pu_value = v', pu_n_remain = n'\<rparr>)"
proof (induction "length bs" arbitrary: bs v n cps rule: less_induct)
  case less
  show ?case
  proof (cases bs)
    case Nil
    then show ?thesis using less.prems(3) by simp
  next
    case (Cons b bs1)
    let ?n = "utf8_len_strict b - 1"
    have n: "n = 0" "0 \<le> ?n" "utf8_ok ?n bs1" using less.prems(1,2) Cons by auto
    obtain rest w k where t: "dec_tail bs1 (utf8_first b) ?n = (rest, w, k)" by (cases "dec_tail bs1 (utf8_first b) ?n")
    let ?c = "if utf8_len_strict b = 1 then cps @ [utf8_first b] else cps"
    have r: "utf8_run (?c, utf8_first b, ?n) bs1 = utf8_run (if 0 < ?n \<and> k = 0 then ?c @ [w] else ?c, w, k) rest" "utf8_ok k rest" "k = 0 \<or> rest = []"
      using dec_tail_run[OF n(3) t, of ?c] by auto
    have c: "(if 0 < ?n \<and> k = 0 then ?c @ [w] else ?c) = (if k = 0 then cps @ [w] else cps)"
    proof (cases "?n = 0")
      case True
      have "k = 0" "w = utf8_first b" using t True by (cases bs1; auto)+
      then show ?thesis using True by simp
    next
      case False
      then show ?thesis using n(2) by auto
    qed
    have "utf8_run (cps, v, n) bs = utf8_run (?c, utf8_first b, ?n) bs1" using Cons n(1) by (simp add: utf8_step_def)
    then have run: "utf8_run (if k = 0 then cps @ [w] else cps, w, k) rest = (cps', v', n')" using less.prems(3) r(1) c by simp
    have "length rest < length bs" using dec_tail_length[OF t] Cons by simp
    then have "dec_loop rest w k (if k = 0 then cps @ [w] else cps) = (cps' @ [0], \<lparr>pu_value = v', pu_n_remain = n'\<rparr>)"
      by (rule less.hyps[OF _ r(2,3) run])
    then show ?thesis using Cons n(2) t by (simp add: Let_def utf8_first_def)
  qed
qed

lemma decode_utf8_run:
  assumes "utf8_ok n bs" "utf8_run ([], v, n) bs = (cps, v', n')"
  shows "decode_utf8 bs \<lparr>pu_value = v, pu_n_remain = n\<rparr> = (cps @ [0], \<lparr>pu_value = v', pu_n_remain = n'\<rparr>)"
proof -
  obtain rest w k where t: "dec_tail bs v n = (rest, w, k)" by (cases "dec_tail bs v n")
  have r: "utf8_run ([], v, n) bs = utf8_run (if 0 < n \<and> k = 0 then [w] else [], w, k) rest" "utf8_ok k rest" "k = 0 \<or> rest = []"
    using dec_tail_run[OF assms(1) t, of "[]"] by auto
  have "dec_loop rest w k (if 0 < n \<and> k = 0 then [w] else []) = (cps @ [0], \<lparr>pu_value = v', pu_n_remain = n'\<rparr>)"
    by (rule dec_loop_run[OF r(2,3)]) (use r(1) assms(2) in simp)
  moreover have "dec_resume (takeWhile (\<lambda>b. b \<noteq> 0) bs) v n = Some (rest, w, k)"
    unfolding utf8_ok_no_zero[OF assms(1)] dec_resume_tail[OF assms(1)] t by (rule refl)
  ultimately show ?thesis unfolding decode_utf8_def by simp
qed

text \<open>
  C40. It does not matter how a well-formed text is cut into tokens, even inside a character: decoding the second piece from the
  partial sequence the first one ends in gives the same code points and the same rest as decoding the whole, and
  \<^verbatim>\<open>llama_grammar_accept_str\<close> on the pieces one after the other ends in the same grammar as on the whole text, or fails the same.
\<close>

theorem accept_pieces:
  assumes "gr_partial g = \<lparr>pu_value = v, pu_n_remain = n\<rparr>" "utf8_ok n (a @ b)"
  shows "(\<exists>cps1 pu1 cps2 pu2. decode_utf8 a (gr_partial g) = (cps1 @ [0], pu1) \<and> decode_utf8 b pu1 = (cps2 @ [0], pu2) \<and>
      decode_utf8 (a @ b) (gr_partial g) = ((cps1 @ cps2) @ [0], pu2)) \<and>
    run_bind (accept_str fuel a g) (\<lambda>(ok, g1). accept_str fuel b g1) = accept_str fuel (a @ b) g"
proof -
  obtain cps1 v1 n1 where r1: "utf8_run ([], v, n) a = (cps1, v1, n1)" by (cases "utf8_run ([], v, n) a")
  obtain cps2 v2 n2 where r2: "utf8_run ([], v1, n1) b = (cps2, v2, n2)" by (cases "utf8_run ([], v1, n1) b")
  have ok: "utf8_ok n a" "utf8_ok n1 b" using assms(2) utf8_ok_append[of n a b "[]" v] r1 by simp_all
  have r: "utf8_run ([], v, n) (a @ b) = (cps1 @ cps2, v2, n2)" using r1 r2 utf8_run_prefix[of cps1 v1 n1 b] by simp
  have d: "decode_utf8 a (gr_partial g) = (cps1 @ [0], \<lparr>pu_value = v1, pu_n_remain = n1\<rparr>)"
      "decode_utf8 b \<lparr>pu_value = v1, pu_n_remain = n1\<rparr> = (cps2 @ [0], \<lparr>pu_value = v2, pu_n_remain = n2\<rparr>)"
      "decode_utf8 (a @ b) (gr_partial g) = ((cps1 @ cps2) @ [0], \<lparr>pu_value = v2, pu_n_remain = n2\<rparr>)"
    using decode_utf8_run[OF ok(1) r1] decode_utf8_run[OF ok(2) r2] decode_utf8_run[OF assms(2) r] assms(1) by simp_all
  have "run_bind (accept_str fuel a g) (\<lambda>(ok, g1). accept_str fuel b g1) = accept_str fuel (a @ b) g"
    using d by (cases "run_each (\<lambda>c stacks. grammar_accept fuel (gr_rules g) stacks c) cps1 (gr_stacks g)")
      (simp_all add: accept_str_def run_each_append butlast_append)
  then show ?thesis using d by blast
qed

text \<open>The euro sign after a letter, cut inside the sign.\<close>

definition any_gr :: llama_grammar where
  "any_gr = \<lparr>gr_rules = [[gelem GRE_CHAR_ANY 0, gelem GRE_RULE_REF 0, gelem GRE_ALT 0, gelem GRE_END 0]], gr_stacks = [[(0, 0)], []],
     gr_partial = \<lparr>pu_value = 0, pu_n_remain = 0\<rparr>, gr_lazy = False, gr_awaiting_trigger = False, gr_trigger_buffer = [], gr_trigger_tokens = []\<rparr>"

theorem accept_pieces_witness:
  "utf8_ok 0 ([97, 0xE2, 0x82] @ [0xAC]) \<and>
   run_bind (accept_str 4 [97, 0xE2, 0x82] any_gr) (\<lambda>(ok, g1). accept_str 4 [0xAC] g1) = accept_str 4 [97, 0xE2, 0x82, 0xAC] any_gr"
proof -
  have ok: "utf8_ok 0 ([97, 0xE2, 0x82] @ [0xAC])" by code_simp
  have p: "gr_partial any_gr = \<lparr>pu_value = 0, pu_n_remain = 0\<rparr>" by (simp add: any_gr_def)
  show ?thesis using conjunct2[OF accept_pieces[OF p ok, of 4]] ok by (simp only: append_Cons append_Nil simp_thms)
qed

text \<open>
  On other input the place of the cut matters: inside a piece the bytes after a first byte are taken for continuations unseen, at the
  start of a piece they are checked. A first byte of two followed by \<^verbatim>\<open>(\<close> is the character 0xE8 in one piece and an error in two.
\<close>

lemma cut_matters:
  "decode_utf8 [0xC3, 0x28] \<lparr>pu_value = 0, pu_n_remain = 0\<rparr> = ([0xE8, 0], \<lparr>pu_value = 0xE8, pu_n_remain = 0\<rparr>)"
  "decode_utf8 [0xC3] \<lparr>pu_value = 0, pu_n_remain = 0\<rparr> = ([0], \<lparr>pu_value = 3, pu_n_remain = 1\<rparr>)"
  "decode_utf8 [0x28] \<lparr>pu_value = 3, pu_n_remain = 1\<rparr> = ([0], \<lparr>pu_value = 0, pu_n_remain = -1\<rparr>)"
  by code_simp+

end
