(* ===== verification/Spec2Isabelle.thy ===== *)
theory Spec2Isabelle
  imports Decode_Fail Hybrid Grammar_Text Grammar_Rep Grammar_Utf8
begin

text \<open>
  The token memory and the grammar engine of the llama.cpp runtime in ollama37 (\<^verbatim>\<open>src/llama/llama.cpp/src\<close>): from the batch a
  client hands in to the cells that remember its tokens and the logits it gets back, and from the text of a grammar to the
  tokens it lets through.

  The program. A client calls \<^verbatim>\<open>llama_decode\<close> with a batch of tokens, each with a position and a set of sequences. The
  context (\<^verbatim>\<open>llama-context.cpp\<close>) has the batch allocator (\<^verbatim>\<open>llama-batch.cpp\<close>) validate and complete the batch, asks the memory
  for a memory context, which cuts the batch into micro-batches and finds cells for all of them in a dry run, and then, for
  each micro-batch, applies the slot, computes the graph and copies the logits of the output tokens. A memory is the unified
  KV cache (\<^verbatim>\<open>llama-kv-cache.cpp\<close>, on the cell metadata of \<^verbatim>\<open>llama-kv-cells.h\<close>), a pair of them for models with
  sliding-window attention (\<^verbatim>\<open>llama-kv-cache-iswa.cpp\<close>), the recurrent memory (\<^verbatim>\<open>llama-memory-recurrent.cpp\<close>) or a cache and a recurrent
  memory side by side (\<^verbatim>\<open>llama-memory-hybrid.cpp\<close>); the client can also remove, copy, keep, shift and divide the positions of
  sequences, and save and restore them. Beside this, a client can constrain the output by a grammar (\<^verbatim>\<open>llama-grammar.cpp\<close>): the text is
  parsed into rules, the engine keeps the set of stacks a parse can be in, masks the logits of tokens the grammar excludes
  and advances the stacks by the token that was chosen.

  Conventions (theory \<^verbatim>\<open>Prelude\<close>). A struct is a record with a field prefix, a method is a function with that prefix (\<^verbatim>\<open>kv_\<close> for
  \<^verbatim>\<open>llama_kv_cache\<close>, \<^verbatim>\<open>cells_\<close> for \<^verbatim>\<open>llama_kv_cells\<close>, \<^verbatim>\<open>ba_\<close> for \<^verbatim>\<open>llama_batch_allocr\<close>, \<^verbatim>\<open>hp_\<close> for \<^verbatim>\<open>llama_hparams\<close>, \<^verbatim>\<open>iswa_\<close> for
  \<^verbatim>\<open>llama_kv_cache_iswa\<close>, \<^verbatim>\<open>rs_\<close> for \<^verbatim>\<open>llama_memory_recurrent\<close>, \<^verbatim>\<open>hy_\<close> and \<^verbatim>\<open>hx_\<close> for \<^verbatim>\<open>llama_memory_hybrid\<close> and its context, \<^verbatim>\<open>gp_\<close> for
  \<^verbatim>\<open>llama_grammar_parser\<close>, \<^verbatim>\<open>gr_\<close> for \<^verbatim>\<open>llama_grammar\<close>) that returns the new state. The result None is a failed assertion,
  an index out of range or a signed overflow; a value returned by the code as an error (false, a status, a return code, an exception)
  is a value of the model. Positions and ids are int with the range of int32_t checked where arithmetic can leave it, unsigned
  counters wrap explicitly, and what is bitwise or 32 bit arithmetic in the source is a word. Loops over an index are \<^verbatim>\<open>for_each\<close> over
  the list of indices. \<^verbatim>\<open>std::map\<close> is the theory \<^verbatim>\<open>Ordered_Map\<close>, a sorted association list.

  The theories, in the order of the calls.

  \<^item> \<^verbatim>\<open>KV_Cells\<close>: \<^verbatim>\<open>llama_kv_cells\<close>, all methods. Each mutator is shown equal to an update of a list of abstract cells (position, shift,
    sequence set); the redundant indices (used, seq_pos) are functions of that list in every reachable state, so seq_pos_min and
    seq_pos_max are true extrema, no assertion fails and cp followed by set is the identity.
  \<^item> \<^verbatim>\<open>Batch\<close>, \<^verbatim>\<open>Batch_Init\<close>, \<^verbatim>\<open>Batch_Split\<close>: \<^verbatim>\<open>llama_batch_allocr\<close>. Its position arithmetic is checked against int32_t, as signed overflow
    has no meaning in the source; for batches whose positions stay in range init returns and accepts exactly the batches described by a
    declarative predicate on tokens, sequences and positions; split_simple, split_seq and split_equal end and partition the tokens, with the
    shape of each kind of micro-batch. The loop over a split has fuel one more than the number of tokens, which is enough because
    every non-empty micro-batch uses a token; the termination property states that the fuel is never what stops it.
  \<^item> \<^verbatim>\<open>Hparams\<close>: \<^verbatim>\<open>llama_hparams\<close>, every function: per-layer sizes, sliding-window pattern, window masks.
  \<^item> \<^verbatim>\<open>Memory\<close>: the status type of memory contexts and the interface \<^verbatim>\<open>llama_memory_i\<close> as the locale \<^verbatim>\<open>seq_memory\<close>: a memory is seen
    as a finite set of positions per sequence. The client lemmas (cutting a sequence at a position, dropping it) are proved in the locale
    and used by the unified cache, the sliding-window pair and the cleanup of decode through its interpretations.
  \<^item> \<^verbatim>\<open>KV_Cache\<close>, \<^verbatim>\<open>KV_Inputs\<close>: the operations of \<^verbatim>\<open>llama_kv_cache\<close> and its context: sequence operations, slot search, apply_ubatch, prepare,
    the index, shift and mask inputs, copies between streams, saved metadata. \<^verbatim>\<open>KV_Seq\<close> and \<^verbatim>\<open>KV_View\<close> show that the sequence operations
    implement their specification on sets of positions and interpret \<^verbatim>\<open>seq_memory\<close>; \<^verbatim>\<open>KV_Slots\<close> that the slot search finds a slot
    exactly when there is one; \<^verbatim>\<open>KV_Apply\<close> what placing a micro-batch does to every sequence; \<^verbatim>\<open>KV_Prepare\<close> that the dry run changes nothing
    for one stream without a sliding window (with a window the purge of \<^verbatim>\<open>apply_ubatch\<close> is not undone by it).
  \<^item> \<^verbatim>\<open>KV_ISWA\<close>: \<^verbatim>\<open>llama_kv_cache_iswa\<close> and its context; the dense cache holds what the window cache holds in every state of the
    relation \<^verbatim>\<open>iswa_reach\<close>, whose steps are all operations on sequences and the placement of micro-batches, but not \<^verbatim>\<open>state_read\<close> (a partial
    one restores the window cache only) nor the purge of a dry run; and the sizes are right. It interprets \<^verbatim>\<open>seq_memory\<close> too.
  \<^item> \<^verbatim>\<open>Recurrent\<close>: \<^verbatim>\<open>llama_memory_recurrent\<close> and its context. \<^verbatim>\<open>Recurrent_Inv\<close> states the invariant of the cells (tails and sequence
    sets are inverse to each other), \<^verbatim>\<open>Recurrent_Seq\<close> that the sequence operations keep it, \<^verbatim>\<open>Recurrent_Slot\<close> that find_slot
    places a micro-batch of one sequence, \<^verbatim>\<open>Recurrent_Reach\<close> has the reachable states and the properties. The steps there exclude removing all
    sequences at once, which breaks the invariant as a property shows, slots for several sequences and \<^verbatim>\<open>state_read\<close>.
  \<^item> \<^verbatim>\<open>Hybrid\<close>: \<^verbatim>\<open>llama_memory_hybrid\<close> and its context, on the models of the unified cache and the recurrent memory: after construction,
    clearing, micro-batches of one sequence and removals the two hold the same sequences in step, unless a removal starts at the last
    position; the other operations are modelled without such a theorem.
  \<^item> \<^verbatim>\<open>Decode\<close>: \<^verbatim>\<open>llama_context::decode\<close> with the unified cache, the output bookkeeping and get_logits_ith. The computation of the graph
    is a parameter, assumed only to return a row for every output token. \<^verbatim>\<open>Decode_Run\<close> puts batch allocator, slot search and context together: the
    return code of decode, the positions it adds and the logits it returns, for a cache with one stream and no sliding window; the
    loop over micro-batches has as much fuel as there are micro-batches. The assumptions are collected in \<^verbatim>\<open>decode_ready\<close>, \<^verbatim>\<open>computes\<close> and \<^verbatim>\<open>batch_placeable\<close>.
    \<^verbatim>\<open>Decode_Fail\<close> is the cleanup after a failed computation.

  The theories of the grammar engine. There the result of a function that can run without end or fail has type \<^verbatim>\<open>run\<close>: out of fuel, an
  abort (a failed assertion or an access out of range), an exception or a value.

  \<^item> \<^verbatim>\<open>Grammar\<close>: the data of \<^verbatim>\<open>llama-grammar.h\<close>, UTF-8 decoding, matching of character classes, the stacks and their advance, rejection of
    candidates, the check for left recursion, initialisation on given rules, apply and accept. A pointer into the rules is the pair of
    rule and index. The recursion of \<^verbatim>\<open>advance_stack\<close> has fuel: the code has no bound, and it is a property that some fuel is enough
    when the check passed. The recursion of the rejection has as much fuel as the longest token has code points, which is enough; that
    of the check one more than there are rules, which is enough.
  \<^item> \<^verbatim>\<open>Grammar_Lang\<close>: the language of a rule as an inductive relation; accepting a character takes the left derivative. \<^verbatim>\<open>Grammar_Term\<close>:
    the check returns, and a grammar that passes it has no infinite recursion if the rules that derive the empty word
    have an empty alternate themselves. The weaker condition \<^verbatim>\<open>left_rec_free\<close> (no rule starts with itself behind rules that derive
    the empty word) is enough for that, and follows from the check in that case. \<^verbatim>\<open>Grammar_Match\<close>: the engine decides membership; a
    grammar the check lets through although its recursion is infinite. \<^verbatim>\<open>Grammar_Mask\<close>: the mask of apply agrees with what accept takes, in
    the states the engine reaches on a grammar that is \<^verbatim>\<open>left_rec_free\<close>.
  \<^item> \<^verbatim>\<open>Grammar_Parse\<close>: the GBNF parser and initialisation from a text. The loops of the parser have the length of the text and one more as
    fuel. \<^verbatim>\<open>Grammar_Parse_Ok\<close>: that is enough, and the rules of an accepted text are well formed. \<^verbatim>\<open>Grammar_Parse_Safe\<close>: the parser
    does not abort on texts whose repetitions are small for their length, as no number of 32 bits overflows. \<^verbatim>\<open>Grammar_Text\<close>: from the
    text to the language of its root. \<^verbatim>\<open>Grammar_Rep\<close>: what character
    classes and the rules made for repetitions mean. \<^verbatim>\<open>Grammar_Utf8\<close>: a text may be cut into tokens anywhere.

  Not modelled: tensors, buffers and graphs (their sizes are parameters; the data of saved states are parameters of the functions
  that write and read them), logging and debug checks that only log, timing, embeddings output and encode, the printing of
  grammars and the trigger patterns of lazy grammars (regular expressions of the standard library, a parameter), tokenizers,
  sampling, the tensor library and its back ends. Several threads never work on one context, so there is no concurrency. Slots of the recurrent memory for several sequences at once are modelled, but only the one-sequence case has theorems.
\<close>

end
